(* ===== verification/Prelude.thy ===== *)
theory Prelude
  imports Main "HOL-Library.Word" "HOL-Library.AList" "HOL-Library.List_Lexorder" "HOL-Library.Char_ord"
begin

text \<open>
  What every component shares: the type of errors, the result type of a Go function that
  returns an error beside its value, the state-and-error monad of a function that also
  talks to a store, and generic facts on lists.

  Errors keep what \<open>errors.Is\<close> can see of them: the sentinel values of
  \<open>src/store.go\<close> are constructors, every other error is \<open>ErrOther\<close> with a tag that
  names the branch that made it. The text of a message is not modelled. A panic of the Go
  runtime (an index or a slice out of range, a failed type assertion) is the value
  \<open>Panic\<close>, so that "never panics" is a statement about results.
\<close>

section \<open>Errors and results\<close>

datatype error =
    ErrNotFound
  | ErrReadOnly
  | ErrExists
  | ErrUnsupported
  | ErrZarrV2
  | ErrCtx
  | ErrOther string
  | Panic

text \<open>\<open>errors.Is(err, ErrUnsupported)\<close>: \<open>ErrZarrV2\<close> wraps \<open>ErrUnsupported\<close>.\<close>

definition is_unsupported :: "error \<Rightarrow> bool" where
  "is_unsupported e \<longleftrightarrow> e = ErrUnsupported \<or> e = ErrZarrV2"

type_synonym 'a res = "error + 'a"

definition rbind :: "'a res \<Rightarrow> ('a \<Rightarrow> 'b res) \<Rightarrow> 'b res" where
  "rbind r f = (case r of Inl e \<Rightarrow> Inl e | Inr x \<Rightarrow> f x)"

definition rguard :: "bool \<Rightarrow> error \<Rightarrow> unit res" where
  "rguard b e = (if b then Inr () else Inl e)"

fun rfold :: "('x \<Rightarrow> 'a \<Rightarrow> 'a res) \<Rightarrow> 'x list \<Rightarrow> 'a \<Rightarrow> 'a res" where
  "rfold f [] a = Inr a"
| "rfold f (x # xs) a = rbind (f x a) (rfold f xs)"

fun rmap :: "('x \<Rightarrow> 'a res) \<Rightarrow> 'x list \<Rightarrow> 'a list res" where
  "rmap f [] = Inr []"
| "rmap f (x # xs) = rbind (f x) (\<lambda>y. rbind (rmap f xs) (\<lambda>ys. Inr (y # ys)))"

lemma rbind_simps [simp]:
  "rbind (Inl e) f = Inl e"
  "rbind (Inr x) f = f x"
  by (simp_all add: rbind_def)

lemma rbind_Inr_iff: "rbind r f = Inr y \<longleftrightarrow> (\<exists>x. r = Inr x \<and> f x = Inr y)"
  by (cases r) auto

lemma rbind_Inl_iff: "rbind r f = Inl e \<longleftrightarrow> r = Inl e \<or> (\<exists>x. r = Inr x \<and> f x = Inl e)"
  by (cases r) auto

lemma rbind_cong [fundef_cong]:
  "r = r' \<Longrightarrow> (\<And>x. r' = Inr x \<Longrightarrow> f x = f' x) \<Longrightarrow> rbind r f = rbind r' f'"
  by (cases r') auto

lemma rguard_simps [simp]:
  "rguard True e = Inr ()"
  "rguard False e = Inl e"
  by (simp_all add: rguard_def)

lemma rguard_Inr_iff: "rguard b e = Inr u \<longleftrightarrow> b"
  by (simp add: rguard_def)

lemma rguard_Inl_iff: "rguard b e = Inl e' \<longleftrightarrow> \<not> b \<and> e' = e"
  by (auto simp: rguard_def)

lemma rfold_append: "rfold f (xs @ ys) a = rbind (rfold f xs a) (rfold f ys)"
proof (induction xs arbitrary: a)
  case (Cons x xs)
  then show ?case by (cases "f x a") auto
qed simp

lemma rmap_Inr_iff: "rmap f xs = Inr ys \<longleftrightarrow> list_all2 (\<lambda>x y. f x = Inr y) xs ys"
proof (induction xs arbitrary: ys)
  case (Cons x xs)
  then show ?case by (cases ys) (auto simp: rbind_Inr_iff)
qed auto

lemma rmap_length: "rmap f xs = Inr ys \<Longrightarrow> length ys = length xs"
  by (auto simp: rmap_Inr_iff dest: list_all2_lengthD)

lemma rmap_total: "(\<And>x. x \<in> set xs \<Longrightarrow> \<exists>y. f x = Inr y) \<Longrightarrow> \<exists>ys. rmap f xs = Inr ys"
proof (induction xs)
  case (Cons x xs)
  then obtain y ys where "f x = Inr y" "rmap f xs = Inr ys" by (meson list.set_intros)
  then show ?case by simp
qed simp

section \<open>Functions that talk to a store\<close>

text \<open>
  A function that reads and writes a store takes the store's state and returns its result
  and the state after it, whether or not it failed: what a failed call left behind is part
  of the model.
\<close>

type_synonym ('s, 'a) io = "'s \<Rightarrow> 'a res \<times> 's"

definition io_ret :: "'a \<Rightarrow> ('s, 'a) io" where
  "io_ret x s = (Inr x, s)"

definition io_err :: "error \<Rightarrow> ('s, 'a) io" where
  "io_err e s = (Inl e, s)"

definition io_lift :: "'a res \<Rightarrow> ('s, 'a) io" where
  "io_lift r s = (r, s)"

definition io_bind :: "('s, 'a) io \<Rightarrow> ('a \<Rightarrow> ('s, 'b) io) \<Rightarrow> ('s, 'b) io" where
  "io_bind m f s = (case m s of (Inl e, t) \<Rightarrow> (Inl e, t) | (Inr x, t) \<Rightarrow> f x t)"

text \<open>The result of a call, errors included, handed to what comes next (\<open>if err != nil\<close>).\<close>

definition io_try :: "('s, 'a) io \<Rightarrow> ('a res \<Rightarrow> ('s, 'b) io) \<Rightarrow> ('s, 'b) io" where
  "io_try m f s = (case m s of (r, t) \<Rightarrow> f r t)"

fun io_each :: "('x \<Rightarrow> ('s, unit) io) \<Rightarrow> 'x list \<Rightarrow> ('s, unit) io" where
  "io_each f [] = io_ret ()"
| "io_each f (x # xs) = io_bind (f x) (\<lambda>_. io_each f xs)"

fun io_map :: "('x \<Rightarrow> ('s, 'a) io) \<Rightarrow> 'x list \<Rightarrow> ('s, 'a list) io" where
  "io_map f [] = io_ret []"
| "io_map f (x # xs) = io_bind (f x) (\<lambda>y. io_bind (io_map f xs) (\<lambda>ys. io_ret (y # ys)))"

fun io_fold :: "('x \<Rightarrow> 'a \<Rightarrow> ('s, 'a) io) \<Rightarrow> 'x list \<Rightarrow> 'a \<Rightarrow> ('s, 'a) io" where
  "io_fold f [] a = io_ret a"
| "io_fold f (x # xs) a = io_bind (f x a) (io_fold f xs)"

lemma io_simps [simp]:
  "io_ret x s = (Inr x, s)"
  "io_err e s = (Inl e, s)"
  "io_lift r s = (r, s)"
  by (simp_all add: io_ret_def io_err_def io_lift_def)

lemma io_bind_Inl: "m s = (Inl e, t) \<Longrightarrow> io_bind m f s = (Inl e, t)"
  by (simp add: io_bind_def)

lemma io_bind_Inr: "m s = (Inr x, t) \<Longrightarrow> io_bind m f s = f x t"
  by (simp add: io_bind_def)

lemma io_bind_ret [simp]: "io_bind (io_ret x) f = f x"
  by (rule ext) (simp add: io_bind_def)

lemma io_bind_lift_Inr [simp]: "io_bind (io_lift (Inr x)) f = f x"
  by (rule ext) (simp add: io_bind_def)

lemma io_bind_lift_Inl [simp]: "io_bind (io_lift (Inl e)) f = io_err e"
  by (rule ext) (simp add: io_bind_def)

lemma io_bind_err [simp]: "io_bind (io_err e) f = io_err e"
  by (rule ext) (simp add: io_bind_def)

lemma io_bind_eq_Inr_iff:
  "io_bind m f s = (Inr y, t) \<longleftrightarrow> (\<exists>x u. m s = (Inr x, u) \<and> f x u = (Inr y, t))"
  by (auto simp: io_bind_def split: prod.splits sum.splits)

lemma io_bind_eq_Inl_iff:
  "io_bind m f s = (Inl e, t) \<longleftrightarrow>
     m s = (Inl e, t) \<or> (\<exists>x u. m s = (Inr x, u) \<and> f x u = (Inl e, t))"
  by (auto simp: io_bind_def split: prod.splits sum.splits)

lemma io_bind_split:
  assumes "io_bind m f s = (r, t)"
  obtains (failed) e where "m s = (Inl e, t)" "r = Inl e" | (went_on) x u where "m s = (Inr x, u)" "f x u = (r, t)"
  using assms by (auto simp: io_bind_def split: prod.splits sum.splits)

section \<open>Bytes, strings and Go integers\<close>

type_synonym byte = "8 word"
type_synonym bytes = "byte list"

definition maxInt64 :: int where "maxInt64 = 2 ^ 63 - 1"
definition minInt64 :: int where "minInt64 = - (2 ^ 63)"
definition maxUint64 :: "64 word" where "maxUint64 = - 1"

text \<open>An \<open>int64\<close> (and an \<open>int\<close>, of 64 bits) result wraps around in two's complement.\<close>

definition wrap64 :: "int \<Rightarrow> int" where
  "wrap64 x = (x + 2 ^ 63) mod 2 ^ 64 - 2 ^ 63"

definition in_int64 :: "int \<Rightarrow> bool" where
  "in_int64 x \<longleftrightarrow> minInt64 \<le> x \<and> x \<le> maxInt64"

lemma wrap64_id: "in_int64 x \<Longrightarrow> wrap64 x = x"
  by (simp add: in_int64_def wrap64_def minInt64_def maxInt64_def)

lemma wrap64_range: "in_int64 (wrap64 x)"
proof -
  have "0 \<le> (x + 2 ^ 63) mod 2 ^ 64" "(x + 2 ^ 63) mod 2 ^ 64 < 2 ^ 64"
    by simp_all
  then show ?thesis by (simp add: in_int64_def wrap64_def minInt64_def maxInt64_def)
qed

section \<open>Lists\<close>

lemma list_all2_nth_iff:
  "list_all2 P xs ys \<longleftrightarrow> length xs = length ys \<and> (\<forall>i < length xs. P (xs ! i) (ys ! i))"
  by (auto simp: list_all2_conv_all_nth)

lemma concat_replicate_length: "(\<forall>x \<in> set xss. length x = w) \<Longrightarrow> length (concat xss) = w * length xss"
  by (induction xss) auto

lemma nth_concat_equal:
  assumes "\<forall>x \<in> set xss. length x = w" "i < length xss" "j < w"
  shows "concat xss ! (i * w + j) = xss ! i ! j"
  using assms
proof (induction xss arbitrary: i)
  case (Cons x xss)
  show ?case
  proof (cases i)
    case 0
    with Cons.prems show ?thesis by (simp add: nth_append)
  next
    case (Suc i')
    with Cons show ?thesis by (simp add: nth_append add.assoc)
  qed
qed simp

lemma map2_nth_index: "length xs = length ys \<Longrightarrow> i < length xs \<Longrightarrow> map2 f xs ys ! i = f (xs ! i) (ys ! i)"
  by simp

end
