(* ===== verification/DTypes.thy ===== *)
theory DTypes
  imports Prelude
begin

text \<open>
  The data types of an array and its elements: \<open>src/dtype.go\<close>, and \<open>filled\<close> and
  \<open>allFill\<close> of \<open>src/array.go\<close>.

  An element of one of the eleven Go types is a constructor around its bits: integers are
  words of their width (\<open>sint\<close> reads the signed ones), floats are their IEEE 754 bit
  patterns, so that a NaN keeps its payload and the two zeros are different elements that
  \<open>==\<close> does not tell apart.

  The lemmas show that \<open>==\<close>-or-both-NaN is an equivalence, what \<open>filled\<close> and \<open>allFill\<close> are in
  terms of it, and that an element is its bytes and back in either byte order.
\<close>

unbundle bit_operations_syntax

section \<open>Data types\<close>

text \<open>A \<open>DataType\<close> is a string in the source; the ones it does not know are \<open>UnknownType\<close>.\<close>

datatype dtype =
    Bool | Int8 | Int16 | Int32 | Int64 | Uint8 | Uint16 | Uint32 | Uint64 | Float32 | Float64
  | UnknownType string

fun dsize :: "dtype \<Rightarrow> nat" where
  "dsize Bool = 1" | "dsize Int8 = 1" | "dsize Uint8 = 1"
| "dsize Int16 = 2" | "dsize Uint16 = 2"
| "dsize Int32 = 4" | "dsize Uint32 = 4" | "dsize Float32 = 4"
| "dsize Int64 = 8" | "dsize Uint64 = 8" | "dsize Float64 = 8"
| "dsize (UnknownType _) = 0"

definition is_float :: "dtype \<Rightarrow> bool" where
  "is_float d \<longleftrightarrow> d = Float32 \<or> d = Float64"

definition is_signed :: "dtype \<Rightarrow> bool" where
  "is_signed d \<longleftrightarrow> d = Int8 \<or> d = Int16 \<or> d = Int32 \<or> d = Int64"

abbreviation known :: "dtype \<Rightarrow> bool" where
  "known d \<equiv> dsize d \<noteq> 0"

section \<open>Elements\<close>

datatype elem =
    VBool bool
  | VInt8 "8 word" | VInt16 "16 word" | VInt32 "32 word" | VInt64 "64 word"
  | VUint8 "8 word" | VUint16 "16 word" | VUint32 "32 word" | VUint64 "64 word"
  | VFloat32 "32 word" | VFloat64 "64 word"

fun type_of :: "elem \<Rightarrow> dtype" where
  "type_of (VBool _) = Bool"
| "type_of (VInt8 _) = Int8" | "type_of (VInt16 _) = Int16"
| "type_of (VInt32 _) = Int32" | "type_of (VInt64 _) = Int64"
| "type_of (VUint8 _) = Uint8" | "type_of (VUint16 _) = Uint16"
| "type_of (VUint32 _) = Uint32" | "type_of (VUint64 _) = Uint64"
| "type_of (VFloat32 _) = Float32" | "type_of (VFloat64 _) = Float64"

text \<open>The zero value of a type (of \<open>make\<close> and of \<open>var zero T\<close>).\<close>

fun zero_of :: "dtype \<Rightarrow> elem" where
  "zero_of Bool = VBool False"
| "zero_of Int8 = VInt8 0" | "zero_of Int16 = VInt16 0"
| "zero_of Int32 = VInt32 0" | "zero_of Int64 = VInt64 0"
| "zero_of Uint8 = VUint8 0" | "zero_of Uint16 = VUint16 0"
| "zero_of Uint32 = VUint32 0" | "zero_of Uint64 = VUint64 0"
| "zero_of Float32 = VFloat32 0" | "zero_of Float64 = VFloat64 0"
| "zero_of (UnknownType _) = VBool False"

text \<open>
  A \<open>[]T\<close> in an \<open>any\<close>: the type is known beside the elements, so that an empty slice has
  one too. \<open>makeSlice\<close> of a type the package does not know is \<open>nil\<close>.
\<close>

datatype slice = Slice (stype: dtype) (elems: "elem list")

definition wt_slice :: "slice \<Rightarrow> bool" where
  "wt_slice s \<longleftrightarrow> known (stype s) \<and> (\<forall>x \<in> set (elems s). type_of x = stype s)"

definition makeSlice :: "dtype \<Rightarrow> nat \<Rightarrow> slice option" where
  "makeSlice d n = (if dsize d = 0 then None else Some (Slice d (replicate n (zero_of d))))"

lemma type_of_known [simp]: "known (type_of v)"
  by (cases v) auto

lemma type_of_zero [simp]: "known d \<Longrightarrow> type_of (zero_of d) = d"
  by (cases d) auto

section \<open>Go equality\<close>

definition isNaN32 :: "32 word \<Rightarrow> bool" where
  "isNaN32 w \<longleftrightarrow> 0x7F800000 < w AND 0x7FFFFFFF"

definition isNaN64 :: "64 word \<Rightarrow> bool" where
  "isNaN64 w \<longleftrightarrow> 0x7FF0000000000000 < w AND 0x7FFFFFFFFFFFFFFF"

definition isZero32 :: "32 word \<Rightarrow> bool" where
  "isZero32 w \<longleftrightarrow> w AND 0x7FFFFFFF = 0"

definition isZero64 :: "64 word \<Rightarrow> bool" where
  "isZero64 w \<longleftrightarrow> w AND 0x7FFFFFFFFFFFFFFF = 0"

text \<open>\<open>==\<close>: a NaN is equal to nothing, and -0 to +0.\<close>

definition go_eq :: "elem \<Rightarrow> elem \<Rightarrow> bool" where
  "go_eq a b =
     (case a of
        VFloat32 x \<Rightarrow>
          (case b of VFloat32 y \<Rightarrow> \<not> isNaN32 x \<and> \<not> isNaN32 y \<and> (x = y \<or> isZero32 x \<and> isZero32 y)
           | _ \<Rightarrow> False)
      | VFloat64 x \<Rightarrow>
          (case b of VFloat64 y \<Rightarrow> \<not> isNaN64 x \<and> \<not> isNaN64 y \<and> (x = y \<or> isZero64 x \<and> isZero64 y)
           | _ \<Rightarrow> False)
      | _ \<Rightarrow> a = b)"

text \<open>\<open>v != v\<close>\<close>

definition is_nan :: "elem \<Rightarrow> bool" where
  "is_nan v \<longleftrightarrow> \<not> go_eq v v"

text \<open>Equal, or both NaN: what \<open>allFill\<close> counts as the fill value.\<close>

definition veq :: "elem \<Rightarrow> elem \<Rightarrow> bool" where
  "veq a b \<longleftrightarrow> go_eq a b \<or> is_nan a \<and> is_nan b \<and> type_of a = type_of b"

text \<open>\<open>filled\<close> makes zeros and overwrites them unless the fill value is equal to zero: a
  fill value of -0 is not equal to it, so it makes +0.\<close>

definition filled :: "nat \<Rightarrow> elem \<Rightarrow> elem list" where
  "filled n fill =
     (let zero = zero_of (type_of fill)
      in if \<not> go_eq fill zero \<or> \<not> go_eq fill fill then replicate n fill else replicate n zero)"

text \<open>\<open>allFill\<close> is of a slice and a fill value of one type \<open>T\<close>.\<close>

definition allFill :: "elem list \<Rightarrow> elem \<Rightarrow> bool" where
  "allFill s fill =
     (let nan = \<not> go_eq fill fill
      in \<forall>v \<in> set s. \<not> (\<not> go_eq v fill \<and> \<not> (nan \<and> \<not> go_eq v v)))"

lemma go_eq_type: "go_eq a b \<Longrightarrow> type_of a = type_of b"
  by (cases a; cases b) (auto simp: go_eq_def)

lemma go_eq_sym: "go_eq a b \<longleftrightarrow> go_eq b a"
  by (cases a; cases b) (auto simp: go_eq_def)

lemma go_eq_trans: "go_eq a b \<Longrightarrow> go_eq b c \<Longrightarrow> go_eq a c"
  by (cases b) (auto simp: go_eq_sym [of a b], auto simp: go_eq_def split: elem.splits)

lemma go_eq_self: "go_eq a a \<longleftrightarrow>
    (case a of VFloat32 x \<Rightarrow> \<not> isNaN32 x | VFloat64 x \<Rightarrow> \<not> isNaN64 x | _ \<Rightarrow> True)"
  by (cases a) (auto simp: go_eq_def)

lemma go_eq_not_nan: "go_eq a b \<Longrightarrow> \<not> is_nan a \<and> \<not> is_nan b"
  unfolding is_nan_def by (metis go_eq_sym go_eq_trans)

lemma veq_refl [simp]: "veq a a"
  by (simp add: veq_def is_nan_def)

lemma veq_sym: "veq a b \<longleftrightarrow> veq b a"
  by (auto simp: veq_def go_eq_sym)

lemma veq_trans: "veq a b \<Longrightarrow> veq b c \<Longrightarrow> veq a c"
  unfolding veq_def by (auto dest: go_eq_not_nan intro: go_eq_trans)

lemma veq_type: "veq a b \<Longrightarrow> type_of a = type_of b"
  by (auto simp: veq_def go_eq_type)

lemma veq_nan_free: "veq a b \<Longrightarrow> \<not> is_float (type_of a) \<Longrightarrow> a = b"
  by (cases a) (auto simp: veq_def is_nan_def is_float_def go_eq_def)

lemma go_eq_zero_nan_free: "known d \<Longrightarrow> go_eq (zero_of d) (zero_of d)"
  by (cases d) (auto simp: go_eq_def isNaN32_def isNaN64_def)

lemma filled_length [simp]: "length (filled n fill) = n"
  by (simp add: filled_def Let_def)

lemma filled_nth: "i < n \<Longrightarrow> veq (filled n fill ! i) fill \<and> type_of (filled n fill ! i) = type_of fill"
  by (auto simp: filled_def Let_def veq_def is_nan_def go_eq_sym)

lemma filled_type: "x \<in> set (filled n fill) \<Longrightarrow> type_of x = type_of fill"
  by (auto simp: filled_def Let_def split: if_splits)

lemma filled_veq: "x \<in> set (filled n fill) \<Longrightarrow> veq x fill"
  using filled_nth by (auto simp: in_set_conv_nth)

lemma allFill_iff: "\<forall>v \<in> set s. type_of v = type_of fill \<Longrightarrow> allFill s fill \<longleftrightarrow> (\<forall>v \<in> set s. veq v fill)"
  by (auto simp: allFill_def veq_def is_nan_def Let_def)

lemma allFill_filled: "allFill (filled n fill) fill"
  by (subst allFill_iff) (auto dest: filled_type filled_veq)

text \<open>Elements alike one by one.\<close>

definition veqs :: "elem list \<Rightarrow> elem list \<Rightarrow> bool" where
  "veqs xs ys \<longleftrightarrow> list_all2 veq xs ys"

lemma veqs_refl [simp]: "veqs xs xs"
  by (simp add: veqs_def list_all2_refl)

lemma veqs_trans: "veqs xs ys \<Longrightarrow> veqs ys zs \<Longrightarrow> veqs xs zs"
  unfolding veqs_def by (rule list_all2_trans [of veq veq veq]) (auto intro: veq_trans)

lemma veqs_sym: "veqs xs ys \<Longrightarrow> veqs ys xs"
  by (auto simp: veqs_def list_all2_conv_all_nth veq_sym)

lemma veqs_nth: "veqs xs ys \<longleftrightarrow> length xs = length ys \<and> (\<forall>i < length xs. veq (xs ! i) (ys ! i))"
  by (simp add: veqs_def list_all2_conv_all_nth)

lemma veqs_filled: "allFill s fill \<Longrightarrow> \<forall>v \<in> set s. type_of v = type_of fill \<Longrightarrow> veqs s (filled (length s) fill)"
  unfolding veqs_nth
proof (intro conjI allI impI)
  fix i assume a: "allFill s fill" "\<forall>v \<in> set s. type_of v = type_of fill" "i < length s"
  then have "veq (s ! i) fill" by (simp add: allFill_iff)
  moreover have "veq fill (filled (length s) fill ! i)"
    using filled_nth [OF a(3), of fill] by (simp add: veq_sym)
  ultimately show "veq (s ! i) (filled (length s) fill ! i)" by (rule veq_trans)
qed simp

lemma veqs_types: "veqs xs ys \<Longrightarrow> \<forall>x \<in> set xs. type_of x = d \<Longrightarrow> \<forall>y \<in> set ys. type_of y = d"
proof
  fix y assume v: "veqs xs ys" "\<forall>x \<in> set xs. type_of x = d" "y \<in> set ys"
  then obtain i where i: "i < length ys" "y = ys ! i" by (auto simp: in_set_conv_nth)
  with v have "veq (xs ! i) y" "xs ! i \<in> set xs" by (auto simp: veqs_nth)
  with v show "type_of y = d" by (metis veq_type)
qed

section \<open>Elements as bytes\<close>

datatype endian = Little | Big

fun bits_of :: "elem \<Rightarrow> nat" where
  "bits_of (VBool b) = (if b then 1 else 0)"
| "bits_of (VInt8 w) = unat w" | "bits_of (VInt16 w) = unat w"
| "bits_of (VInt32 w) = unat w" | "bits_of (VInt64 w) = unat w"
| "bits_of (VUint8 w) = unat w" | "bits_of (VUint16 w) = unat w"
| "bits_of (VUint32 w) = unat w" | "bits_of (VUint64 w) = unat w"
| "bits_of (VFloat32 w) = unat w" | "bits_of (VFloat64 w) = unat w"

fun of_bits :: "dtype \<Rightarrow> nat \<Rightarrow> elem" where
  "of_bits Bool n = VBool (n \<noteq> 0)"
| "of_bits Int8 n = VInt8 (of_nat n)" | "of_bits Int16 n = VInt16 (of_nat n)"
| "of_bits Int32 n = VInt32 (of_nat n)" | "of_bits Int64 n = VInt64 (of_nat n)"
| "of_bits Uint8 n = VUint8 (of_nat n)" | "of_bits Uint16 n = VUint16 (of_nat n)"
| "of_bits Uint32 n = VUint32 (of_nat n)" | "of_bits Uint64 n = VUint64 (of_nat n)"
| "of_bits Float32 n = VFloat32 (of_nat n)" | "of_bits Float64 n = VFloat64 (of_nat n)"
| "of_bits (UnknownType _) n = VBool (n \<noteq> 0)"

text \<open>\<open>size\<close> bytes of a number, the lowest first, and back.\<close>

fun le_bytes :: "nat \<Rightarrow> nat \<Rightarrow> bytes" where
  "le_bytes 0 n = []"
| "le_bytes (Suc k) n = of_nat (n mod 256) # le_bytes k (n div 256)"

fun le_nat :: "bytes \<Rightarrow> nat" where
  "le_nat [] = 0"
| "le_nat (b # bs) = unat b + 256 * le_nat bs"

definition be_nat :: "bytes \<Rightarrow> nat" where
  "be_nat bs = le_nat (rev bs)"

definition be_bytes :: "nat \<Rightarrow> nat \<Rightarrow> bytes" where
  "be_bytes k n = rev (le_bytes k n)"

text \<open>The memory of an element on a machine of a byte order.\<close>

definition mem_bytes :: "endian \<Rightarrow> nat \<Rightarrow> nat \<Rightarrow> bytes" where
  "mem_bytes native k n = (if native = Little then le_bytes k n else be_bytes k n)"

definition mem_nat :: "endian \<Rightarrow> bytes \<Rightarrow> nat" where
  "mem_nat native bs = (if native = Little then le_nat bs else be_nat bs)"

lemma length_le_bytes [simp]: "length (le_bytes k n) = k"
  by (induction k arbitrary: n) auto

lemma length_be_bytes [simp]: "length (be_bytes k n) = k"
  by (simp add: be_bytes_def)

lemma length_mem_bytes [simp]: "length (mem_bytes e k n) = k"
  by (simp add: mem_bytes_def)

lemma unat_of_nat_byte: "unat (of_nat (n mod 256) :: byte) = n mod 256"
  by (simp add: unat_of_nat)

lemma le_nat_bytes: "n < 256 ^ k \<Longrightarrow> le_nat (le_bytes k n) = n"
proof (induction k arbitrary: n)
  case (Suc k)
  then have "n div 256 < 256 ^ k" by (simp add: less_mult_imp_div_less mult.commute)
  with Suc show ?case by (simp add: unat_of_nat_byte)
qed simp

lemma le_nat_bound: "le_nat bs < 256 ^ length bs"
proof (induction bs)
  case (Cons b bs)
  have "unat b < 256" using unsigned_less [of b] by simp
  with Cons show ?case by simp
qed simp

lemma le_bytes_nat: "le_bytes (length bs) (le_nat bs) = bs"
proof (induction bs)
  case (Cons b bs)
  have "unat b < 256" using unsigned_less [of b] by simp
  then have "(unat b + 256 * le_nat bs) mod 256 = unat b" "(unat b + 256 * le_nat bs) div 256 = le_nat bs"
    by simp_all
  with Cons show ?case by simp
qed simp

lemma mem_nat_bytes: "n < 256 ^ k \<Longrightarrow> mem_nat e (mem_bytes e k n) = n"
  by (simp add: mem_nat_def mem_bytes_def be_nat_def be_bytes_def le_nat_bytes)

lemma bits_of_bound: "bits_of v < 256 ^ dsize (type_of v)"
proof (cases v)
  case (VBool b)
  then show ?thesis by simp
qed (simp_all add: order_less_le_trans [OF unsigned_less])

lemma of_bits_bits_of: "of_bits (type_of v) (bits_of v) = v"
  by (cases v) auto

lemma type_of_bits: "known d \<Longrightarrow> type_of (of_bits d n) = d"
  by (cases d) auto

lemma bits_of_of_bits: "known d \<Longrightarrow> d \<noteq> Bool \<Longrightarrow> n < 256 ^ dsize d \<Longrightarrow> bits_of (of_bits d n) = n"
  by (cases d) (auto simp: unat_of_nat)

end
