(* ===== verification/Grid.thy ===== *)
theory Grid
  imports Prelude
begin

text \<open>
  Index arithmetic on shapes: the vector helpers of \<open>src/array.go\<close> and \<open>src/shard.go\<close>
  (\<open>product\<close>, \<open>plus\<close>, \<open>minus\<close>, \<open>times\<close>, \<open>minusOne\<close>), the odometer of \<open>eachIndex\<close>, and the
  numbering of a span of indices in \<open>src/concurrent.go\<close> (\<open>spanLen\<close>, \<open>spanInto\<close>, \<open>spanOf\<close>).

  Once a shape, a start or an index has been validated (theory \<open>Arrays\<close>), none of its numbers
  is negative, so the vectors here are lists of natural numbers. The lemmas show that the
  odometer stops, visits every index of its box exactly once, in C order, and that
  \<open>spanInto\<close> and \<open>spanOf\<close> are inverse to each other and number the same order.
\<close>

section \<open>Vectors\<close>

type_synonym vec = "nat list"

definition product_of :: "vec \<Rightarrow> nat" where
  "product_of s = fold (\<lambda>v n. n * v) s 1"

definition plusV :: "vec \<Rightarrow> vec \<Rightarrow> vec" where
  "plusV a b = map2 (+) a b"

definition minusV :: "vec \<Rightarrow> vec \<Rightarrow> vec" where
  "minusV a b = map2 (-) a b"

definition timesV :: "vec \<Rightarrow> vec \<Rightarrow> vec" where
  "timesV a b = map2 (*) a b"

definition minusOne :: "vec \<Rightarrow> vec" where
  "minusOne s = map (\<lambda>v. v - 1) s"

abbreviation zeros :: "nat \<Rightarrow> vec" where
  "zeros n \<equiv> replicate n 0"

lemma fold_mult: "fold (\<lambda>v n. n * v) s (n::nat) = n * prod_list s"
  by (induction s arbitrary: n) (auto simp: algebra_simps)

lemma product_of_eq: "product_of s = prod_list s"
  by (simp add: product_of_def fold_mult)

lemma product_of_simps [simp]:
  "product_of [] = 1"
  "product_of (v # s) = v * product_of s"
  by (simp_all add: product_of_eq)

lemma product_of_append [simp]: "product_of (s @ t) = product_of s * product_of t"
  by (simp add: product_of_eq)

lemma product_of_pos: "(\<forall>v \<in> set s. 0 < v) \<Longrightarrow> 0 < product_of s"
  by (induction s) auto

lemma product_of_replicate_1 [simp]: "product_of (replicate n 1) = 1"
  by (induction n) auto

lemma length_vec [simp]:
  "length (plusV a b) = min (length a) (length b)"
  "length (minusV a b) = min (length a) (length b)"
  "length (timesV a b) = min (length a) (length b)"
  "length (minusOne a) = length a"
  by (simp_all add: plusV_def minusV_def timesV_def minusOne_def)

lemma nth_vec [simp]:
  "k < length a \<Longrightarrow> k < length b \<Longrightarrow> plusV a b ! k = a ! k + b ! k"
  "k < length a \<Longrightarrow> k < length b \<Longrightarrow> minusV a b ! k = a ! k - b ! k"
  "k < length a \<Longrightarrow> k < length b \<Longrightarrow> timesV a b ! k = a ! k * b ! k"
  "k < length a \<Longrightarrow> minusOne a ! k = a ! k - 1"
  by (simp_all add: plusV_def minusV_def timesV_def minusOne_def)

lemma vec_Cons [simp]:
  "plusV (x # xs) (y # ys) = (x + y) # plusV xs ys"
  "minusV (x # xs) (y # ys) = (x - y) # minusV xs ys"
  "timesV (x # xs) (y # ys) = (x * y) # timesV xs ys"
  "minusOne (x # xs) = (x - 1) # minusOne xs"
  "plusV [] ys = []" "minusV [] ys = []" "timesV [] ys = []" "minusOne [] = []"
  by (simp_all add: plusV_def minusV_def timesV_def minusOne_def)

section \<open>A position in an array in C order\<close>

text \<open>
  The reference for every loop below: where the element at an index is in the elements of
  an array of a shape laid end to end, the last dimension fastest.
\<close>

fun lin :: "vec \<Rightarrow> vec \<Rightarrow> nat" where
  "lin (s # ss) (i # ix) = i * product_of ss + lin ss ix"
| "lin _ _ = 0"

text \<open>The indices inside a shape.\<close>

abbreviation inside :: "vec \<Rightarrow> vec \<Rightarrow> bool" where
  "inside idx shape \<equiv> list_all2 (<) idx shape"

lemma insideD: "inside idx shape \<Longrightarrow> length idx = length shape"
  by (rule list_all2_lengthD)

lemma lin_bound: "inside idx shape \<Longrightarrow> lin shape idx < product_of shape"
proof (induction idx shape rule: list_all2_induct)
  case (Cons i ix s ss)
  have "i * product_of ss + lin ss ix < i * product_of ss + product_of ss"
    using Cons by simp
  also have "\<dots> = Suc i * product_of ss" by simp
  also have "\<dots> \<le> s * product_of ss" using Cons by (intro mult_le_mono) auto
  finally show ?case by simp
qed simp

lemma lin_append:
  "length ix = length ss \<Longrightarrow> lin (ss @ ts) (ix @ jx) = lin ss ix * product_of ts + lin ts jx"
proof (induction ix ss rule: list_induct2)
  case Nil
  then show ?case by simp
qed (simp add: algebra_simps)

lemma lin_zeros [simp]: "lin s (zeros (length s)) = 0"
  by (induction s) auto

lemma mixed_radix_unique:
  fixes a b x y w :: nat
  assumes "a * w + x = b * w + y" "x < w" "y < w"
  shows "a = b \<and> x = y"
proof -
  have "(a * w + x) div w = (b * w + y) div w" using assms(1) by simp
  then have "a = b" using assms(2,3) by simp
  with assms(1) show ?thesis by simp
qed

lemma lin_inj: "inside i shape \<Longrightarrow> inside j shape \<Longrightarrow> lin shape i = lin shape j \<Longrightarrow> i = j"
proof (induction shape arbitrary: i j)
  case (Cons s ss)
  from Cons.prems obtain a ix where i: "i = a # ix" "a < s" "inside ix ss"
    by (auto simp: list_all2_Cons2)
  from Cons.prems obtain b jx where j: "j = b # jx" "b < s" "inside jx ss"
    by (auto simp: list_all2_Cons2)
  have "a = b \<and> lin ss ix = lin ss jx"
    using Cons.prems(3) i j by (intro mixed_radix_unique [where w = "product_of ss"]) (auto simp: lin_bound)
  with Cons.IH i j show ?case by auto
qed simp

section \<open>Spans of indices\<close>

text \<open>\<open>spanLen\<close>: how many indices there are from \<open>lo\<close> to \<open>hi\<close> inclusive; \<open>h + 1 - l\<close> on
  natural numbers is \<open>max(h - l + 1, 0)\<close>.\<close>

definition spanLen :: "vec \<Rightarrow> vec \<Rightarrow> nat" where
  "spanLen lo hi = fold (\<lambda>(l, h) n. n * (h + 1 - l)) (zip lo hi) 1"

text \<open>\<open>spanInto\<close>: the n-th index, and what is left of n after the loop. The loop goes from the
  last dimension to the first, so the tail is done before the head.\<close>

fun spanInto_loop :: "vec \<Rightarrow> vec \<Rightarrow> nat \<Rightarrow> vec \<times> nat" where
  "spanInto_loop (l # lo) (h # hi) n =
     (let (idx, n') = spanInto_loop lo hi n; w = h + 1 - l
      in ((l + n' mod w) # idx, n' div w))"
| "spanInto_loop _ _ n = ([], n)"

definition spanInto :: "vec \<Rightarrow> vec \<Rightarrow> nat \<Rightarrow> vec" where
  "spanInto lo hi n = fst (spanInto_loop lo hi n)"

definition spanOf :: "vec \<Rightarrow> vec \<Rightarrow> vec \<Rightarrow> nat" where
  "spanOf lo hi idx = fold (\<lambda>(l, h, i) n. n * (h + 1 - l) + i - l) (zip lo (zip hi idx)) 0"

text \<open>An index from \<open>lo\<close> to \<open>hi\<close> inclusive.\<close>

fun between :: "vec \<Rightarrow> vec \<Rightarrow> vec \<Rightarrow> bool" where
  "between [] [] [] = True"
| "between (l # lo) (h # hi) (i # idx) = (l \<le> i \<and> i \<le> h \<and> between lo hi idx)"
| "between _ _ _ = False"

lemma between_length: "between lo hi idx \<Longrightarrow> length lo = length idx \<and> length hi = length idx"
  by (induction lo hi idx rule: between.induct) auto

lemma between_nth:
  "between lo hi idx \<longleftrightarrow> length lo = length idx \<and> length hi = length idx \<and>
     (\<forall>k < length idx. lo ! k \<le> idx ! k \<and> idx ! k \<le> hi ! k)"
proof (induction lo hi idx rule: between.induct)
  case (2 l lo h hi i idx)
  then show ?case by (auto simp: All_less_Suc2)
qed auto

lemma fold_spanLen: "fold (\<lambda>(l, h) n. n * (h + 1 - l)) zs n = n * fold (\<lambda>(l, h) n. n * (h + 1 - l)) zs (1::nat)"
proof (induction zs arbitrary: n)
  case (Cons z zs)
  show ?case
    using Cons [of "n * (snd z + 1 - fst z)"] Cons [of "1 * (snd z + 1 - fst z)"]
    by (simp add: case_prod_unfold algebra_simps)
qed simp

lemma spanLen_simps [simp]:
  "spanLen [] hi = 1"
  "spanLen lo [] = 1"
  "spanLen (l # lo) (h # hi) = (h + 1 - l) * spanLen lo hi"
  using fold_spanLen [of "zip lo hi" "h + 1 - l"] by (simp_all add: spanLen_def)

lemma spanOf_acc:
  "between lo hi idx \<Longrightarrow>
     fold (\<lambda>(l, h, i) n. n * (h + 1 - l) + i - l) (zip lo (zip hi idx)) n
       = n * spanLen lo hi + spanOf lo hi idx"
proof (induction lo hi idx arbitrary: n rule: between.induct)
  case (2 l lo h hi i idx)
  then have IH: "\<And>n. fold (\<lambda>(l, h, i) n. n * (h + 1 - l) + i - l) (zip lo (zip hi idx)) n
      = n * spanLen lo hi + spanOf lo hi idx" and le: "l \<le> i" by auto
  have "n * (h + 1 - l) + i - l = n * (h + 1 - l) + (i - l)" using le by simp
  moreover have "spanOf (l # lo) (h # hi) (i # idx) = (i - l) * spanLen lo hi + spanOf lo hi idx"
    using IH [of "i - l"] by (simp add: spanOf_def [of "l # lo"])
  moreover have "(n * (Suc h - l) + i - l) * S = n * ((Suc h - l) * S) + (i - l) * S" for S
    using le by (metis Nat.add_diff_assoc add_mult_distrib mult.assoc)
  ultimately show ?case using le IH [of "n * (h + 1 - l) + (i - l)"] by simp
qed (auto simp: spanOf_def)

lemma spanOf_simps [simp]:
  "spanOf [] hi idx = 0"
  "between lo hi idx \<Longrightarrow> l \<le> i \<Longrightarrow>
     spanOf (l # lo) (h # hi) (i # idx) = (i - l) * spanLen lo hi + spanOf lo hi idx"
  using spanOf_acc [of lo hi idx "i - l"] by (simp_all add: spanOf_def)

lemma spanOf_bound: "between lo hi idx \<Longrightarrow> spanOf lo hi idx < spanLen lo hi"
proof (induction lo hi idx rule: between.induct)
  case (2 l lo h hi i idx)
  have "(i - l) * spanLen lo hi + spanOf lo hi idx < (i - l) * spanLen lo hi + spanLen lo hi"
    using 2 by simp
  also have "\<dots> = Suc (i - l) * spanLen lo hi" by simp
  also have "\<dots> \<le> (h + 1 - l) * spanLen lo hi" using 2 by (intro mult_le_mono) auto
  finally show ?case using 2 by simp
qed auto

lemma spanInto_rest: "length lo = length hi \<Longrightarrow> snd (spanInto_loop lo hi n) = n div spanLen lo hi"
proof (induction lo hi n rule: spanInto_loop.induct)
  case (1 l lo h hi n)
  then show ?case
    by (simp add: case_prod_unfold Let_def div_mult2_eq [symmetric] mult.commute)
qed auto

lemma spanInto_simps [simp]:
  "spanInto [] hi n = []"
  "length lo = length hi \<Longrightarrow>
     spanInto (l # lo) (h # hi) n = (l + (n div spanLen lo hi) mod (h + 1 - l)) # spanInto lo hi n"
  by (simp_all add: spanInto_def case_prod_unfold Let_def spanInto_rest)

lemma spanInto_length: "length lo = length hi \<Longrightarrow> length (spanInto lo hi n) = length lo"
  by (induction lo hi rule: list_induct2) simp_all

lemma spanInto_mult_add:
  "length lo = length hi \<Longrightarrow> spanInto lo hi (k * spanLen lo hi + n) = spanInto lo hi n"
proof (induction lo arbitrary: hi k)
  case (Cons l lo)
  then obtain h hi' where hi: "hi = h # hi'" "length lo = length hi'" by (cases hi) auto
  let ?S = "spanLen lo hi'" and ?w = "h + 1 - l"
  have tail: "spanInto lo hi' (k * (?w * ?S) + n) = spanInto lo hi' n"
    using Cons.IH [OF hi(2), of "k * ?w"] by (simp add: mult.assoc)
  have "(k * (?w * ?S) + n) div ?S mod ?w = n div ?S mod ?w"
  proof (cases "?S = 0")
    case False
    then have "(k * (?w * ?S) + n) div ?S = k * ?w + n div ?S"
      using div_mult_self3 [of ?S "k * ?w" n] by (simp add: algebra_simps)
    then show ?thesis by simp
  qed simp
  with tail hi show ?case by simp
qed simp

lemma spanInto_mod: "length lo = length hi \<Longrightarrow> spanInto lo hi (n mod spanLen lo hi) = spanInto lo hi n"
  by (metis spanInto_mult_add div_mult_mod_eq)

lemma spanInto_spanOf: "between lo hi idx \<Longrightarrow> spanInto lo hi (spanOf lo hi idx) = idx"
proof (induction lo hi idx rule: between.induct)
  case (2 l lo h hi i idx)
  let ?S = "spanLen lo hi"
  have len: "length lo = length hi" using 2 between_length by fastforce
  have b: "spanOf lo hi idx < ?S" using 2 by (simp add: spanOf_bound)
  have "((i - l) * ?S + spanOf lo hi idx) div ?S = i - l" using b by simp
  moreover have "(i - l) mod (h + 1 - l) = i - l" using 2 by (intro mod_less) auto
  ultimately show ?case using 2 len by (simp add: spanInto_mult_add)
qed auto

lemma spanInto_between:
  assumes "length lo = length hi" "n < spanLen lo hi"
  shows "between lo hi (spanInto lo hi n)"
  using assms
proof (induction lo hi arbitrary: n rule: list_induct2)
  case (Cons l lo h hi)
  let ?S = "spanLen lo hi"
  have pos: "0 < ?S" "0 < h + 1 - l" using Cons.prems by (cases "?S = 0"; cases "h + 1 - l = 0"; simp)+
  have "between lo hi (spanInto lo hi (n mod ?S))" using Cons.IH pos by simp
  moreover have "spanInto lo hi (n mod ?S) = spanInto lo hi n" using Cons.hyps by (rule spanInto_mod)
  moreover have "n div ?S mod (h + 1 - l) < h + 1 - l" using pos(2) by (rule mod_less_divisor)
  ultimately show ?case using Cons.hyps by simp
qed simp

lemma spanOf_spanInto:
  assumes "length lo = length hi" "n < spanLen lo hi"
  shows "spanOf lo hi (spanInto lo hi n) = n"
  using assms
proof (induction lo hi arbitrary: n rule: list_induct2)
  case (Cons l lo h hi)
  let ?S = "spanLen lo hi"
  have pos: "0 < ?S" using Cons.prems by (cases "?S = 0") auto
  have m: "spanInto lo hi (n mod ?S) = spanInto lo hi n" using Cons.hyps by (rule spanInto_mod)
  have r: "spanOf lo hi (spanInto lo hi n) = n mod ?S"
    using Cons.IH [of "n mod ?S"] pos m by simp
  have b: "between lo hi (spanInto lo hi n)"
    using spanInto_between [OF Cons.hyps, of "n mod ?S"] pos m by simp
  have "n div ?S < h + 1 - l"
    using Cons.prems by (simp add: less_mult_imp_div_less)
  then have "n div ?S mod (h + 1 - l) = n div ?S" by simp
  moreover have "n div ?S * ?S + n mod ?S = n" by (rule div_mult_mod_eq)
  ultimately show ?case using r b Cons.hyps by simp
qed simp

lemma spanInto_inj:
  "length lo = length hi \<Longrightarrow> inj_on (spanInto lo hi) {..< spanLen lo hi}"
  by (rule inj_on_inverseI [where g = "spanOf lo hi"]) (simp add: spanOf_spanInto)

section \<open>eachIndex\<close>

text \<open>
  The inner loop of \<open>eachIndex\<close>: from the last dimension, an index is incremented, and set
  back to \<open>lo\<close> with a carry to the dimension before it if that takes it past \<open>hi\<close>. The flag
  is \<open>k < 0\<close> at the end of the loop: every dimension carried.
\<close>

fun bump :: "vec \<Rightarrow> vec \<Rightarrow> vec \<Rightarrow> bool \<times> vec" where
  "bump (l # lo) (h # hi) (i # idx) =
     (let (carry, idx') = bump lo hi idx
      in if \<not> carry then (False, i # idx')
         else if i + 1 \<le> h then (False, (i + 1) # idx')
         else (True, l # idx'))"
| "bump _ _ _ = (True, [])"

text \<open>How many steps are left before the odometer has gone round.\<close>

fun bump_left :: "vec \<Rightarrow> vec \<Rightarrow> vec \<Rightarrow> nat" where
  "bump_left (l # lo) (h # hi) (i # idx) = (h - i) * Suc (bump_left lo hi lo) + bump_left lo hi idx"
| "bump_left _ _ _ = 0"

lemma bump_left_carry: "bump lo hi idx = (True, idx') \<Longrightarrow> bump_left lo hi idx' \<le> bump_left lo hi lo"
proof (induction lo hi idx arbitrary: idx' rule: bump.induct)
  case (1 l lo h hi i idx)
  then show ?case by (auto simp: Let_def split: prod.splits if_splits)
qed auto

lemma bump_left_decr: "bump lo hi idx = (False, idx') \<Longrightarrow> bump_left lo hi idx' < bump_left lo hi idx"
proof (induction lo hi idx arbitrary: idx' rule: bump.induct)
  case (1 l lo h hi i idx)
  obtain c js where b: "bump lo hi idx = (c, js)" by (cases "bump lo hi idx")
  show ?case
  proof (cases c)
    case False
    with 1 b show ?thesis by (auto simp: Let_def)
  next
    case True
    let ?w = "bump_left lo hi lo"
    from True 1 b have idx': "idx' = (i + 1) # js" and ih: "i + 1 \<le> h"
      by (auto simp: Let_def split: if_splits)
    have js: "bump_left lo hi js \<le> ?w" using b True by (simp add: bump_left_carry)
    have "(h - (i + 1)) * Suc ?w + ?w < (h - (i + 1)) * Suc ?w + Suc ?w" by simp
    also have "\<dots> = (h - i) * Suc ?w"
    proof -
      have "h - i = Suc (h - (i + 1))" using ih by simp
      then show ?thesis by (simp only: mult_Suc)
    qed
    finally show ?thesis using idx' js by simp
  qed
qed auto

text \<open>The indices the loop calls \<open>f\<close> with, from \<open>idx\<close> on.\<close>

function odometer :: "vec \<Rightarrow> vec \<Rightarrow> vec \<Rightarrow> vec list" where
  "odometer lo hi idx =
     idx # (case bump lo hi idx of (True, _) \<Rightarrow> [] | (False, idx') \<Rightarrow> odometer lo hi idx')"
  by pat_completeness auto
termination
  by (relation "measure (\<lambda>(lo, hi, idx). bump_left lo hi idx)") (auto simp: bump_left_decr)

declare odometer.simps [simp del]

definition eachIndex_order :: "vec \<Rightarrow> vec \<Rightarrow> vec list" where
  "eachIndex_order lo hi = odometer lo hi lo"

text \<open>\<open>eachIndex\<close>: \<open>f\<close> is called with each in turn, and the first error stops the loop. What
  \<open>f\<close> changes is the accumulator.\<close>

definition eachIndex :: "vec \<Rightarrow> vec \<Rightarrow> (vec \<Rightarrow> 'a \<Rightarrow> 'a res) \<Rightarrow> 'a \<Rightarrow> 'a res" where
  "eachIndex lo hi f a = rfold f (eachIndex_order lo hi) a"

lemma between_lo: "list_all2 (\<le>) lo hi \<Longrightarrow> between lo hi lo"
  by (auto simp: between_nth list_all2_conv_all_nth)

lemma between_le: "between lo hi idx \<Longrightarrow> list_all2 (\<le>) lo hi"
  by (induction lo hi idx rule: between.induct) auto

lemma spanOf_lo: "list_all2 (\<le>) lo hi \<Longrightarrow> spanOf lo hi lo = 0"
proof (induction lo hi rule: list_all2_induct)
  case (Cons l lo h hi)
  then show ?case by (simp add: between_lo)
qed simp

lemma bump_carry:
  "between lo hi idx \<Longrightarrow> bump lo hi idx = (True, idx') \<Longrightarrow>
     idx' = lo \<and> Suc (spanOf lo hi idx) = spanLen lo hi"
proof (induction lo hi idx arbitrary: idx' rule: between.induct)
  case (2 l lo h hi i idx)
  obtain c js where b: "bump lo hi idx = (c, js)" by (cases "bump lo hi idx")
  with 2 have c: "c" "\<not> i + 1 \<le> h" "idx' = l # js" by (auto simp: Let_def split: if_splits)
  with 2 b have IH: "js = lo" "Suc (spanOf lo hi idx) = spanLen lo hi" by auto
  have "h + 1 - l = Suc (i - l)" using 2 c by auto
  then show ?case using 2 c IH by simp
qed auto

lemma bump_step:
  "between lo hi idx \<Longrightarrow> bump lo hi idx = (False, idx') \<Longrightarrow>
     between lo hi idx' \<and> spanOf lo hi idx' = Suc (spanOf lo hi idx)"
proof (induction lo hi idx arbitrary: idx' rule: between.induct)
  case (2 l lo h hi i idx)
  obtain c js where b: "bump lo hi idx = (c, js)" by (cases "bump lo hi idx")
  show ?case
  proof (cases c)
    case False
    with 2 b show ?thesis by (auto simp: Let_def)
  next
    case True
    with 2 b have idx': "idx' = (i + 1) # js" "i + 1 \<le> h" by (auto simp: Let_def split: if_splits)
    from True b 2 have js: "js = lo" and n: "Suc (spanOf lo hi idx) = spanLen lo hi"
      using bump_carry by auto
    have lo: "list_all2 (\<le>) lo hi" using 2(2) by (auto intro: between_le)
    have "Suc i - l = Suc (i - l)" using 2 by auto
    then have "spanOf (l # lo) (h # hi) idx' = Suc (i - l) * spanLen lo hi"
      using idx' js lo 2 by (simp add: between_lo spanOf_lo)
    also have "\<dots> = Suc (spanOf (l # lo) (h # hi) (i # idx))"
      using 2 n by simp
    finally show ?thesis using idx' js 2 lo by (simp add: between_lo)
  qed
qed auto

lemma odometer_eq:
  "between lo hi idx \<Longrightarrow>
     odometer lo hi idx = map (spanInto lo hi) [spanOf lo hi idx ..< spanLen lo hi]"
proof (induction lo hi idx rule: odometer.induct)
  case (1 lo hi idx)
  have b: "spanOf lo hi idx < spanLen lo hi" using 1 by (simp add: spanOf_bound)
  obtain c idx' where e: "bump lo hi idx = (c, idx')" by (cases "bump lo hi idx")
  show ?case
  proof (cases c)
    case True
    with e 1(2) have "Suc (spanOf lo hi idx) = spanLen lo hi" using bump_carry by simp
    then have "[spanOf lo hi idx ..< spanLen lo hi] = [spanOf lo hi idx]"
      using b by (simp add: upt_conv_Cons)
    with True e 1 show ?thesis by (simp add: odometer.simps [of lo hi idx] spanInto_spanOf)
  next
    case False
    with e 1(2) have s: "between lo hi idx'" "spanOf lo hi idx' = Suc (spanOf lo hi idx)"
      using bump_step by simp_all
    have "odometer lo hi idx = idx # odometer lo hi idx'"
      using False e by (simp add: odometer.simps [of lo hi idx])
    also have "\<dots> = idx # map (spanInto lo hi) [Suc (spanOf lo hi idx) ..< spanLen lo hi]"
      using 1(1) [OF e [symmetric] _ s(1)] False s(2) by simp
    also have "\<dots> = map (spanInto lo hi) [spanOf lo hi idx ..< spanLen lo hi]"
      using b 1 by (simp add: upt_conv_Cons spanInto_spanOf)
    finally show ?thesis .
  qed
qed

lemma eachIndex_order_eq:
  "list_all2 (\<le>) lo hi \<Longrightarrow>
     eachIndex_order lo hi = map (spanInto lo hi) [0 ..< spanLen lo hi]"
  by (simp add: eachIndex_order_def odometer_eq between_lo spanOf_lo)

lemma set_eachIndex_order:
  assumes "list_all2 (\<le>) lo hi"
  shows "set (eachIndex_order lo hi) = {idx. between lo hi idx}"
proof -
  have len: "length lo = length hi" using assms by (rule list_all2_lengthD)
  show ?thesis
  proof (intro set_eqI iffI)
    fix idx
    assume "idx \<in> set (eachIndex_order lo hi)"
    then show "idx \<in> {idx. between lo hi idx}"
      using assms len by (auto simp: eachIndex_order_eq spanInto_between)
  next
    fix idx
    assume "idx \<in> {idx. between lo hi idx}"
    then have "idx = spanInto lo hi (spanOf lo hi idx)" "spanOf lo hi idx < spanLen lo hi"
      by (simp_all add: spanInto_spanOf spanOf_bound)
    then show "idx \<in> set (eachIndex_order lo hi)"
      using assms by (auto simp: eachIndex_order_eq intro!: image_eqI)
  qed
qed

lemma distinct_eachIndex_order:
  assumes "list_all2 (\<le>) lo hi"
  shows "distinct (eachIndex_order lo hi)"
  using spanInto_inj [OF list_all2_lengthD [OF assms]] assms
  by (simp add: eachIndex_order_eq distinct_map atLeast0LessThan)

lemma length_eachIndex_order:
  "list_all2 (\<le>) lo hi \<Longrightarrow> length (eachIndex_order lo hi) = spanLen lo hi"
  by (simp add: eachIndex_order_eq)

text \<open>From the origin, the n-th index is the one whose place in C order is n.\<close>

lemma spanLen_origin: "\<forall>v \<in> set s. 0 < v \<Longrightarrow> spanLen (zeros (length s)) (minusOne s) = product_of s"
  by (induction s) auto

lemma between_origin:
  "\<forall>v \<in> set s. 0 < v \<Longrightarrow> between (zeros (length s)) (minusOne s) idx \<longleftrightarrow> inside idx s"
proof (induction s arbitrary: idx)
  case Nil
  then show ?case by (cases idx) auto
next
  case (Cons v s)
  show ?case
  proof (cases idx)
    case (Cons i ix)
    have "i \<le> v - 1 \<longleftrightarrow> i < v" using Cons.prems by auto
    with Cons Cons.IH Cons.prems show ?thesis by auto
  qed simp
qed

lemma spanOf_origin:
  "inside idx s \<Longrightarrow> spanOf (zeros (length s)) (minusOne s) idx = lin s idx"
proof (induction idx s rule: list_all2_induct)
  case (Cons i ix s ss)
  have pos: "\<forall>v \<in> set ss. 0 < v"
    using Cons.hyps(2) by (fastforce simp: list_all2_conv_all_nth in_set_conv_nth)
  have "between (zeros (length ss)) (minusOne ss) ix"
    using Cons pos by (simp add: between_origin)
  with Cons pos show ?case by (simp add: spanLen_origin)
qed simp

lemma le_origin: "list_all2 (\<le>) (zeros (length s)) (minusOne s)"
  by (simp add: list_all2_conv_all_nth)

end
