(* ===== verification/Limits.thy ===== *)
theory Limits
  imports DTypes Grid
begin

text \<open>
  What stops metadata from making the package allocate without bound: \<open>elements\<close> and
  \<open>storedBytes\<close> of \<open>src/limit.go\<close>, with the overflow tests as the source has them, on the
  integers a shape holds before it has been validated. \<open>int\<close> is 64 bits wide.
\<close>

definition maxStoredBytes :: int where
  "maxStoredBytes = 2 ^ 31"

text \<open>The product of a shape, or \<open>None\<close> (the \<open>false\<close> of the source) if a dimension is
  negative or the product is past an \<open>int\<close>.\<close>

fun elements_loop :: "int list \<Rightarrow> int \<Rightarrow> int option" where
  "elements_loop [] n = Some n"
| "elements_loop (v # shape) n =
     (if v < 0 \<or> (v > 0 \<and> n > maxInt64 div v) then None
      else elements_loop shape (wrap64 (n * v)))"

definition elements :: "int list \<Rightarrow> int option" where
  "elements shape = elements_loop shape 1"

definition storedBytes :: "int list \<Rightarrow> dtype \<Rightarrow> int res" where
  "storedBytes shape d =
     (case elements shape of
        None \<Rightarrow> Inl (ErrOther ''more than a chunk may be'')
      | Some n \<Rightarrow>
          if dsize d = 0 \<or> n > maxStoredBytes div int (dsize d)
          then Inl (ErrOther ''more than a chunk may be'')
          else Inr (wrap64 (n * int (dsize d))))"

abbreviation ints :: "nat list \<Rightarrow> int list" where
  "ints s \<equiv> map int s"

lemma maxInt64_nonneg: "0 \<le> maxInt64"
  by (simp add: maxInt64_def)

lemma wrap64_nonneg: "0 \<le> x \<Longrightarrow> x \<le> maxInt64 \<Longrightarrow> wrap64 x = x"
  by (rule wrap64_id) (simp add: in_int64_def minInt64_def)

lemma zdiv_mult_le: "0 < v \<Longrightarrow> m div v * v \<le> (m::int)"
  using div_mult_mod_eq [of m v] pos_mod_sign [of v m] by linarith

lemma elements_loop_bounds:
  "0 \<le> n \<Longrightarrow> n \<le> maxInt64 \<Longrightarrow> elements_loop shape n = Some m \<Longrightarrow>
     (\<forall>v \<in> set shape. 0 \<le> v) \<and> m = n * prod_list shape \<and> 0 \<le> m \<and> m \<le> maxInt64"
proof (induction shape arbitrary: n)
  case (Cons v shape)
  from Cons.prems have v: "0 \<le> v" "v > 0 \<Longrightarrow> n \<le> maxInt64 div v" by (auto split: if_splits)
  have b: "0 \<le> n * v \<and> n * v \<le> maxInt64"
  proof (cases "v = 0")
    case False
    then have "n * v \<le> maxInt64 div v * v" using v by (intro mult_right_mono) auto
    also have "\<dots> \<le> maxInt64" using False v by (intro zdiv_mult_le) auto
    finally show ?thesis using v Cons.prems by simp
  qed (simp add: maxInt64_nonneg)
  then have w: "wrap64 (n * v) = n * v" by (intro wrap64_nonneg) auto
  have "elements_loop shape (n * v) = Some m" using Cons.prems v w by (simp split: if_splits)
  with Cons.IH [of "n * v"] b v show ?case by (auto simp: mult.assoc)
qed (auto simp: maxInt64_nonneg)

text \<open>The product of every prefix has to fit: a shape with a 0 after a product that does not
  is refused, although its own product is 0.\<close>

lemma elements_loop_fits:
  "0 \<le> n \<Longrightarrow> \<forall>v \<in> set shape. 0 \<le> v \<Longrightarrow> \<forall>k \<le> length shape. n * prod_list (take k shape) \<le> maxInt64 \<Longrightarrow>
     elements_loop shape n = Some (n * prod_list shape)"
proof (induction shape arbitrary: n)
  case (Cons v shape)
  have nv: "n * v \<le> maxInt64" using Cons.prems(3) [rule_format, of 1] by simp
  have ok: "\<not> (v > 0 \<and> n > maxInt64 div v)"
  proof
    assume a: "v > 0 \<and> n > maxInt64 div v"
    then have "maxInt64 div v * v + v \<le> n * v"
      by (metis add.commute distrib_right mult_1 mult_right_mono zless_imp_add1_zle order_less_imp_le)
    moreover have "maxInt64 < maxInt64 div v * v + v"
      using a div_mult_mod_eq [of maxInt64 v] pos_mod_bound [of v maxInt64] by linarith
    ultimately show False using nv by simp
  qed
  have w: "wrap64 (n * v) = n * v"
    using nv Cons.prems by (intro wrap64_nonneg) auto
  have "\<forall>k \<le> length shape. n * v * prod_list (take k shape) \<le> maxInt64"
    using Cons.prems(3) by (auto simp: mult.assoc dest: spec [of _ "Suc _"])
  with Cons.IH [of "n * v"] Cons.prems ok w show ?case by (auto simp: mult.assoc)
qed simp

theorem elements_exact:
  "elements shape = Some n \<Longrightarrow> (\<forall>v \<in> set shape. 0 \<le> v) \<and> n = prod_list shape \<and> n \<le> maxInt64"
  using elements_loop_bounds [of 1 shape n] by (auto simp: elements_def maxInt64_def)

lemma prod_ints: "prod_list (ints s) = int (product_of s)"
  by (induction s) auto

lemma ints_nat: "\<forall>v \<in> set s. 0 \<le> v \<Longrightarrow> ints (map nat s) = s"
  by (induction s) auto

lemma elements_ints: "elements (ints s) = Some n \<Longrightarrow> n = int (product_of s)"
  using elements_exact [of "ints s" n] by (simp add: prod_ints)

lemma storedBytes_Inr:
  "storedBytes (ints s) d = Inr n \<Longrightarrow> n = int (product_of s * dsize d) \<and> known d \<and> n \<le> maxStoredBytes"
proof -
  assume a: "storedBytes (ints s) d = Inr n"
  then obtain m where m: "elements (ints s) = Some m" "known d" "m \<le> maxStoredBytes div int (dsize d)"
    "n = wrap64 (m * int (dsize d))"
    by (auto simp: storedBytes_def split: option.splits if_splits)
  have mp: "m = int (product_of s)" using m(1) by (rule elements_ints)
  have "m * int (dsize d) \<le> maxStoredBytes div int (dsize d) * int (dsize d)"
    using m by (intro mult_right_mono) auto
  also have "\<dots> \<le> maxStoredBytes"
    using m(2) by (intro zdiv_mult_le) auto
  finally have b: "m * int (dsize d) \<le> maxStoredBytes" .
  then have "wrap64 (m * int (dsize d)) = m * int (dsize d)"
    using mp by (intro wrap64_nonneg) (auto simp: maxStoredBytes_def maxInt64_def)
  with b m mp show ?thesis by simp
qed

end
