(* ===== verification/Codecs.thy ===== *)
theory Codecs
  imports Limits "HOL-Library.Multiset"
begin

text \<open>
  The codecs that hold no other codec: the bytes codec with its byte order and swapping, and
  the bytes-to-bytes codecs gzip, zlib, crc32c and shuffle (\<open>src/codec.go\<close>,
  \<open>src/shuffle.go\<close>), with the bounds on what they encode to (\<open>src/limit.go\<close>) and the loop
  \<open>inflate\<close> that holds a decompressor to a limit.

  Deflate itself is \<open>compress/gzip\<close> and \<open>compress/zlib\<close>: the record \<open>env\<close> has what their
  writers make of some bytes and what their readers yield, and the law \<open>env_ok\<close> says what
  their documentation does: a stream that was written reads back as the bytes that went in,
  then ends, and is no longer than stored blocks, a header and a trailer make it. A codec
  registered from outside the package is in the record too.
\<close>

unbundle bit_operations_syntax

section \<open>The bytes codec\<close>

record chunkSpec =
  spShape :: vec
  spType :: dtype
  spFill :: elem
  spKeep :: bool

text \<open>\<open>order\<close>: the byte order of the codec for a data type; the empty string is no endian.\<close>

definition bytes_order :: "string \<Rightarrow> dtype \<Rightarrow> endian res" where
  "bytes_order e d =
     (if e = ''big'' then Inr Big
      else if e = ''little'' \<or> (e = [] \<and> dsize d = 1) then Inr Little
      else if e = [] then Inl (ErrOther ''bytes codec needs an endian'')
      else Inl (ErrOther ''bytes codec: no such endian''))"

text \<open>The memory of a \<open>[]T\<close>, elements of the machine's byte order end to end.\<close>

definition rawBytes :: "endian \<Rightarrow> slice \<Rightarrow> bytes" where
  "rawBytes native s = concat (map (\<lambda>v. mem_bytes native (dsize (stype s)) (bits_of v)) (elems s))"

text \<open>\<open>le.PutUint16(dst[i:i+2], be.Uint16(src[i:i+2]))\<close> and its kin, element by element; what
  the loop does not reach of \<open>dst\<close> stays.\<close>

function swap_loop :: "nat \<Rightarrow> bytes \<Rightarrow> bytes \<Rightarrow> bytes" where
  "swap_loop sz dst src =
     (if 0 < sz \<and> sz \<le> length src
      then le_bytes sz (be_nat (take sz src)) @ swap_loop sz (drop sz dst) (drop sz src)
      else dst)"
  by pat_completeness auto
termination
  by (relation "measure (\<lambda>(sz, dst, src). length src)") auto

declare swap_loop.simps [simp del]

definition swapBytes :: "bytes \<Rightarrow> bytes \<Rightarrow> nat \<Rightarrow> bytes" where
  "swapBytes dst src sz =
     (let dst = take (length src) dst
      in if sz = 2 \<or> sz = 4 \<or> sz = 8 then swap_loop sz dst src else dst)"

definition bytes_EncodeArray :: "endian \<Rightarrow> string \<Rightarrow> slice \<Rightarrow> chunkSpec \<Rightarrow> bytes res" where
  "bytes_EncodeArray native e chunk spec =
     rbind (bytes_order e (spType spec)) (\<lambda>order.
       if stype chunk = Bool then Inr (map (\<lambda>x. if x = VBool True then 1 else 0) (elems chunk))
       else if dsize (stype chunk) = 0 then Inl (ErrOther ''binary.Append'')
       else
         (let from = rawBytes native chunk; size = dsize (stype chunk)
          in if size = 1 \<or> order = native then Inr from
             else Inr (swapBytes (replicate (length from) 0) from size)))"

text \<open>The elements a memory holds.\<close>

definition of_memory :: "endian \<Rightarrow> dtype \<Rightarrow> nat \<Rightarrow> bytes \<Rightarrow> elem list" where
  "of_memory native d n mem =
     map (\<lambda>i. of_bits d (mem_nat native (take (dsize d) (drop (i * dsize d) mem)))) [0 ..< n]"

definition bytes_DecodeArray :: "endian \<Rightarrow> string \<Rightarrow> bytes \<Rightarrow> chunkSpec \<Rightarrow> slice res" where
  "bytes_DecodeArray native e data spec =
     (let d = spType spec in
      rbind (bytes_order e d) (\<lambda>order.
      rbind (storedBytes (ints (spShape spec)) d) (\<lambda>size.
        let n = nat size div dsize d in
        if int (length data) \<noteq> size then Inl (ErrOther ''chunk is not the bytes of its elements'')
        else if d = Bool then Inr (Slice d (map (\<lambda>x. VBool (x \<noteq> 0)) data))
        else
          (let width = dsize d;
               mem = (if width = 1 \<or> order = native then data
                      else swapBytes (replicate (length data) 0) data width)
           in Inr (Slice d (of_memory native d n mem))))))"

section \<open>CRC-32C\<close>

text \<open>\<open>crc32.Checksum\<close> with the Castagnoli table: the polynomial 0x82F63B78, reflected.\<close>

definition crc_bit :: "32 word \<Rightarrow> 32 word" where
  "crc_bit c = (if c AND 1 = 1 then drop_bit 1 c XOR 0x82F63B78 else drop_bit 1 c)"

definition crc_byte :: "byte \<Rightarrow> 32 word \<Rightarrow> 32 word" where
  "crc_byte b c = (crc_bit ^^ 8) (c XOR ucast b)"

definition crc32c :: "bytes \<Rightarrow> 32 word" where
  "crc32c bs = fold crc_byte bs 0xFFFFFFFF XOR 0xFFFFFFFF"

definition crc_EncodeBytes :: "bytes \<Rightarrow> bytes res" where
  "crc_EncodeBytes data = Inr (data @ le_bytes 4 (unat (crc32c data)))"

definition crc_DecodeBytes :: "bytes \<Rightarrow> bytes res" where
  "crc_DecodeBytes data =
     (if length data < 4 then Inl (ErrOther ''crc32c: chunk has no checksum'')
      else
        (let body = take (length data - 4) data;
             sum = le_nat (drop (length data - 4) data)
         in if unat (crc32c body) \<noteq> sum then Inl (ErrOther ''crc32c: checksum'')
            else Inr body))"

section \<open>Shuffle\<close>

definition shuffle_count :: "int \<Rightarrow> nat \<Rightarrow> nat res" where
  "shuffle_count es n =
     (if es < 0 then Inl (ErrOther ''shuffle: element size is not 0 or more'')
      else if es \<le> 1 then Inr 0
      else Inr (n div nat es))"

text \<open>The two loops assign \<open>out[i*count+j] = data[j*es+i]\<close>, and back.\<close>

definition shuffle_EncodeBytes :: "int \<Rightarrow> bytes \<Rightarrow> bytes res" where
  "shuffle_EncodeBytes es data =
     rbind (shuffle_count es (length data)) (\<lambda>count.
       if count = 0 then Inr data
       else
         (let k = nat es;
              out = fold (\<lambda>i out. fold (\<lambda>j out. out[i * count + j := data ! (i + j * k)]) [0 ..< count] out)
                      [0 ..< k] (replicate (length data) 0)
          in Inr (take (count * k) out @ drop (count * k) data)))"

definition shuffle_DecodeBytes :: "int \<Rightarrow> bytes \<Rightarrow> bytes res" where
  "shuffle_DecodeBytes es data =
     rbind (shuffle_count es (length data)) (\<lambda>count.
       if count = 0 then Inr data
       else
         (let k = nat es;
              out = fold (\<lambda>i out. fold (\<lambda>j out. out[i + j * k := data ! (i * count + j)]) [0 ..< count] out)
                      [0 ..< k] (replicate (length data) 0)
          in Inr (take (count * k) out @ drop (count * k) data)))"

definition shuffle_DecodeBytesLimit :: "int \<Rightarrow> bytes \<Rightarrow> int \<Rightarrow> bytes res" where
  "shuffle_DecodeBytesLimit es data limit =
     (if int (length data) > limit then Inl (ErrOther ''shuffle: past the bytes a chunk may be'')
      else shuffle_DecodeBytes es data)"

section \<open>Decompressors held to a limit\<close>

text \<open>
  What a decompressing reader yields, and how it ends: \<open>None\<close> is \<open>io.EOF\<close>. How many bytes
  each \<open>Read\<close> gives is up to the reader: it is a list of the most each call gives, after
  which it fills the buffer it is handed.
\<close>

record stream =
  content :: bytes
  final :: "error option"
  reads :: "nat list"

record env =
  native :: endian
  gzip_write :: "int \<Rightarrow> bytes \<Rightarrow> bytes res"
  gzip_read :: "bytes \<Rightarrow> stream res"
  zlib_write :: "int \<Rightarrow> bytes \<Rightarrow> bytes res"
  zlib_read :: "bytes \<Rightarrow> stream res"
  grow_cap :: "nat \<Rightarrow> nat"
  ext_encode :: "string \<Rightarrow> bytes \<Rightarrow> bytes res"
  ext_decode :: "string \<Rightarrow> bytes \<Rightarrow> bytes res"
  ext_limit :: "string \<Rightarrow> (bytes \<Rightarrow> int \<Rightarrow> bytes res) option"
  ext_bound :: "string \<Rightarrow> (int \<Rightarrow> int) option"

text \<open>
  The loop of \<open>inflate\<close>: \<open>out\<close> of capacity \<open>cap\<close>, \<open>rest\<close> what the reader has left. A full
  buffer reads one byte more, to see whether there is one; appending it grows the buffer.
\<close>

function inflate_loop :: "(nat \<Rightarrow> nat) \<Rightarrow> nat \<Rightarrow> bytes \<Rightarrow> nat \<Rightarrow> bytes \<Rightarrow> error option \<Rightarrow> nat list \<Rightarrow> bytes res" where
  "inflate_loop grow limit out cap rest fin sizes =
     (if length out \<ge> min cap limit then
        (case rest of
           [] \<Rightarrow> (case fin of None \<Rightarrow> Inr out | Some e \<Rightarrow> Inl e)
         | b # rest' \<Rightarrow>
             if length out \<ge> limit then Inl (ErrOther ''a chunk inflates past the bytes it may be'')
             else inflate_loop grow limit (out @ [b]) (max (Suc (length out)) (grow cap)) rest' fin sizes)
      else
        (case rest of
           [] \<Rightarrow> (case fin of None \<Rightarrow> Inr out | Some e \<Rightarrow> Inl e)
         | _ \<Rightarrow>
             (let k = min cap limit - length out;
                  n = (case sizes of [] \<Rightarrow> k | s # _ \<Rightarrow> min s k)
              in inflate_loop grow limit (out @ take n rest) cap (drop n rest) fin (tl sizes))))"
  by pat_completeness auto
termination
  by (relation "measure (\<lambda>(grow, limit, out, cap, rest, fin, sizes). length rest + length sizes)")
    (auto split: list.splits)

declare inflate_loop.simps [simp del]

definition inflate :: "env \<Rightarrow> stream \<Rightarrow> int \<Rightarrow> int \<Rightarrow> bytes res" where
  "inflate env r hint limit =
     inflate_loop (grow_cap env) (nat limit) [] (nat hint) (content r) (final r) (reads r)"

text \<open>The hint for the first buffer: never more than the limit, nor than deflate can inflate
  the data to, nor, for gzip, than the length its trailer gives.\<close>

definition gzip_DecodeBytesLimit :: "env \<Rightarrow> bytes \<Rightarrow> int \<Rightarrow> bytes res" where
  "gzip_DecodeBytesLimit env data limit =
     rbind (gzip_read env data) (\<lambda>r.
       let size = min limit (1032 * int (length data) + 64);
           size = (if 4 \<le> length data
                   then min size (int (le_nat (drop (length data - 4) data))) else size)
       in inflate env r size limit)"

definition zlib_DecodeBytesLimit :: "env \<Rightarrow> bytes \<Rightarrow> int \<Rightarrow> bytes res" where
  "zlib_DecodeBytesLimit env data limit =
     rbind (zlib_read env data) (\<lambda>r. inflate env r (min limit (1032 * int (length data) + 64)) limit)"

lemma inflate_loop_spec:
  "length out \<le> limit \<Longrightarrow>
     inflate_loop grow limit out cap rest fin sizes =
       (if limit < length out + length rest
        then Inl (ErrOther ''a chunk inflates past the bytes it may be'')
        else case fin of None \<Rightarrow> Inr (out @ rest) | Some e \<Rightarrow> Inl e)"
proof (induction grow limit out cap rest fin sizes rule: inflate_loop.induct)
  case (1 grow limit out cap rest fin sizes)
  note unfold = inflate_loop.simps [of grow limit out cap rest fin sizes]
  show ?case
  proof (cases rest)
    case Nil
    with 1(3) show ?thesis by (subst unfold) (auto split: option.splits)
  next
    case (Cons b rest')
    show ?thesis
    proof (cases "min cap limit \<le> length out")
      case True
      with Cons 1 show ?thesis by (subst unfold) (auto split: option.splits)
    next
      case False
      define k where "k = min cap limit - length out"
      define n where "n = (case sizes of [] \<Rightarrow> k | s # _ \<Rightarrow> min s k)"
      have nk: "n \<le> k" by (simp add: n_def split: list.splits)
      have "inflate_loop grow limit out cap rest fin sizes
          = inflate_loop grow limit (out @ take n rest) cap (drop n rest) fin (tl sizes)"
        unfolding n_def k_def using Cons False by (subst unfold) (simp add: Let_def)
      moreover have "length (out @ take n rest) \<le> limit" using nk False by (simp add: k_def)
      moreover have "length (out @ take n rest) + length (drop n rest) = length out + length rest" by simp
      ultimately show ?thesis
        using 1(2) [OF _ _ k_def n_def] Cons False by (simp split: option.splits)
    qed
  qed
qed

text \<open>However the reader chops its bytes and however the buffer grows, \<open>inflate\<close> is the whole
  of the stream, an error if it does not end well, and an error if it is past the limit.\<close>

lemma inflate_spec:
  "0 \<le> limit \<Longrightarrow>
     inflate env r hint limit =
       (if limit < int (length (content r)) then Inl (ErrOther ''a chunk inflates past the bytes it may be'')
        else case final r of None \<Rightarrow> Inr (content r) | Some e \<Rightarrow> Inl e)"
  by (auto simp: inflate_def inflate_loop_spec nat_less_iff split: option.splits)

section \<open>Elements and bytes\<close>

text \<open>The bytes of elements in a byte order, end to end: what the bytes codec writes on any machine.\<close>

definition elem_bytes :: "endian \<Rightarrow> slice \<Rightarrow> bytes" where
  "elem_bytes e s = concat (map (\<lambda>v. mem_bytes e (dsize (stype s)) (bits_of v)) (elems s))"

lemma le_bytes_be_nat: "length bs = k \<Longrightarrow> le_bytes k (be_nat bs) = rev bs"
  using le_bytes_nat [of "rev bs"] by (simp add: be_nat_def)

lemma swap_loop_concat:
  "0 < k \<Longrightarrow> \<forall>x \<in> set xss. length x = k \<Longrightarrow> length dst = length (concat xss) \<Longrightarrow>
     swap_loop k dst (concat xss) = concat (map rev xss)"
proof (induction xss arbitrary: dst)
  case (Cons x xss)
  then show ?case by (simp add: swap_loop.simps [of k dst] le_bytes_be_nat)
qed (simp add: swap_loop.simps)

lemma rev_mem_bytes: "m \<noteq> order \<Longrightarrow> rev (mem_bytes m k n) = mem_bytes order k n"
  by (cases m; cases order) (auto simp: mem_bytes_def be_bytes_def)

lemma mem_bytes_1: "mem_bytes e (Suc 0) n = [of_nat n]"
  by (auto simp: mem_bytes_def be_bytes_def of_nat_mod word_unat_eq_iff unat_of_nat)

lemma known_sizes: "known d \<Longrightarrow> d = Bool \<or> dsize d = 1 \<or> dsize d = 2 \<or> dsize d = 4 \<or> dsize d = 8"
  by (cases d) auto

lemma length_elem_bytes: "length (elem_bytes e s) = length (elems s) * dsize (stype s)"
proof -
  have "length (concat (map (\<lambda>v. mem_bytes e (dsize (stype s)) (bits_of v)) (elems s)))
      = dsize (stype s) * length (map (\<lambda>v. mem_bytes e (dsize (stype s)) (bits_of v)) (elems s))"
    by (rule concat_replicate_length) simp
  then show ?thesis by (simp add: elem_bytes_def)
qed

lemma swap_elem_bytes:
  assumes "known (stype s)" "dsize (stype s) \<noteq> 1" "m \<noteq> order"
  shows "swapBytes (replicate (length (elem_bytes m s)) 0) (elem_bytes m s) (dsize (stype s))
           = elem_bytes order s"
proof -
  have "dsize (stype s) = 2 \<or> dsize (stype s) = 4 \<or> dsize (stype s) = 8"
    using known_sizes [OF assms(1)] assms(2) by auto
  moreover have "swap_loop (dsize (stype s)) (replicate (length (elem_bytes m s)) 0) (elem_bytes m s)
      = concat (map rev (map (\<lambda>v. mem_bytes m (dsize (stype s)) (bits_of v)) (elems s)))"
    unfolding elem_bytes_def using assms(1) by (intro swap_loop_concat) auto
  ultimately show ?thesis
    using rev_mem_bytes [OF assms(3)] by (simp add: swapBytes_def elem_bytes_def o_def)
qed

lemma bytes_EncodeArray_eq:
  assumes "wt_slice chunk" "bytes_order e (spType spec) = Inr order"
    and "stype chunk = spType spec"
  shows "bytes_EncodeArray nat_order e chunk spec = Inr (elem_bytes order chunk)"
proof (cases "stype chunk = Bool")
  case True
  have "map (\<lambda>x. if x = VBool True then 1 else 0) xs = concat (map (\<lambda>v. mem_bytes order 1 (bits_of v)) xs)"
    if "\<forall>x \<in> set xs. type_of x = Bool" for xs
    using that
  proof (induction xs)
    case (Cons x xs)
    from Cons.prems obtain b where "x = VBool b" by (cases x) auto
    with Cons show ?case by (cases b) (auto simp: mem_bytes_1)
  qed simp
  with True assms show ?thesis
    by (simp add: bytes_EncodeArray_def elem_bytes_def wt_slice_def)
next
  case False
  have raw: "rawBytes nat_order chunk = elem_bytes nat_order chunk" by (simp add: rawBytes_def elem_bytes_def)
  show ?thesis
  proof (cases "dsize (stype chunk) = 1 \<or> order = nat_order")
    case True
    have "elem_bytes nat_order chunk = elem_bytes order chunk" if "dsize (stype chunk) = 1"
      using that by (simp add: elem_bytes_def mem_bytes_1)
    with True False raw assms show ?thesis by (auto simp: bytes_EncodeArray_def Let_def wt_slice_def)
  next
    case swap: False
    then have "nat_order \<noteq> order" by auto
    with False raw assms swap swap_elem_bytes [of chunk nat_order order] show ?thesis
      by (simp add: bytes_EncodeArray_def Let_def wt_slice_def)
  qed
qed

lemma of_memory_elem_bytes:
  assumes "\<forall>x \<in> set xs. type_of x = d" "known d"
  shows "of_memory e d (length xs) (elem_bytes e (Slice d xs)) = xs"
proof (rule nth_equalityI)
  show "length (of_memory e d (length xs) (elem_bytes e (Slice d xs))) = length xs"
    by (simp add: of_memory_def)
next
  fix i
  assume "i < length (of_memory e d (length xs) (elem_bytes e (Slice d xs)))"
  then have i: "i < length xs" by (simp add: of_memory_def)
  let ?f = "\<lambda>v. mem_bytes e (dsize d) (bits_of v)"
  have ty: "type_of (xs ! i) = d" using assms(1) i by simp
  have "take (dsize d) (drop (i * dsize d) (concat (map ?f xs))) = ?f (xs ! i)"
  proof (rule nth_equalityI)
    have "i * dsize d + dsize d \<le> length xs * dsize d"
      using i by (metis Suc_leI mult_Suc add.commute mult_le_mono1)
    then show "length (take (dsize d) (drop (i * dsize d) (concat (map ?f xs)))) = length (?f (xs ! i))"
      using concat_replicate_length [of "map ?f xs" "dsize d"] by (simp add: mult.commute)
    fix j assume "j < length (take (dsize d) (drop (i * dsize d) (concat (map ?f xs))))"
    then have "j < dsize d" "i * dsize d + j < length (concat (map ?f xs))" by auto
    then show "take (dsize d) (drop (i * dsize d) (concat (map ?f xs))) ! j = ?f (xs ! i) ! j"
      using i nth_concat_equal [of "map ?f xs" "dsize d" i j] by (simp add: add.commute)
  qed
  then show "of_memory e d (length xs) (elem_bytes e (Slice d xs)) ! i = xs ! i"
    using i ty bits_of_bound [of "xs ! i"] of_bits_bits_of [of "xs ! i"]
    by (simp add: of_memory_def elem_bytes_def mem_nat_bytes)
qed

lemma bytes_order_Inr: "bytes_order e d = Inr order \<Longrightarrow> dsize d = 1 \<or> e \<noteq> []"
  by (auto simp: bytes_order_def split: if_splits)

text \<open>A chunk the bytes codec encoded decodes to itself, on machines of any two byte orders.\<close>

lemma bytes_roundtrip:
  assumes wt: "wt_slice chunk" and ty: "stype chunk = spType spec"
    and len: "length (elems chunk) = product_of (spShape spec)"
    and sb: "storedBytes (ints (spShape spec)) (spType spec) = Inr sz"
    and enc: "bytes_EncodeArray m1 e chunk spec = Inr b"
  shows "bytes_DecodeArray m2 e b spec = Inr chunk"
proof -
  let ?d = "spType spec"
  obtain order where o: "bytes_order e ?d = Inr order"
    using enc by (auto simp: bytes_EncodeArray_def rbind_Inr_iff)
  have b: "b = elem_bytes order chunk" using bytes_EncodeArray_eq [OF wt o ty] enc by simp
  have known: "known ?d" using wt ty by (simp add: wt_slice_def)
  have n: "sz = int (product_of (spShape spec) * dsize ?d)" using storedBytes_Inr [OF sb] by simp
  have np: "nat sz div dsize ?d = product_of (spShape spec)" using known by (simp add: n del: of_nat_mult)
  have lb: "length b = product_of (spShape spec) * dsize ?d" by (simp add: b length_elem_bytes len ty)
  have chunk: "chunk = Slice ?d (elems chunk)" using ty by (cases chunk) simp
  have tys: "\<forall>x \<in> set (elems chunk). type_of x = ?d" using wt ty by (simp add: wt_slice_def)
  have mem: "of_memory order ?d (product_of (spShape spec)) (elem_bytes order chunk) = elems chunk"
    using of_memory_elem_bytes [OF tys known] len chunk by metis
  show ?thesis
  proof (cases "?d = Bool")
    case True
    have "map (\<lambda>x. VBool (x \<noteq> 0)) (concat (map (\<lambda>v. mem_bytes order 1 (bits_of v)) xs)) = xs"
      if "\<forall>x \<in> set xs. type_of x = Bool" for xs
      using that
    proof (induction xs)
      case (Cons x xs)
      from Cons.prems obtain v where "x = VBool v" by (cases x) auto
      with Cons show ?case by (cases v) (auto simp: mem_bytes_1)
    qed simp
    with True tys ty chunk have "Slice ?d (map (\<lambda>x. VBool (x \<noteq> 0)) b) = chunk"
      by (simp add: b elem_bytes_def)
    with True o sb n lb show ?thesis by (simp add: bytes_DecodeArray_def)
  next
    case False
    have "(if dsize ?d = 1 \<or> order = m2 then b else swapBytes (replicate (length b) 0) b (dsize ?d))
        = elem_bytes m2 chunk"
      using swap_elem_bytes [of chunk order m2] known ty by (auto simp: b elem_bytes_def mem_bytes_1)
    moreover have "of_memory m2 ?d (product_of (spShape spec)) (elem_bytes m2 chunk) = elems chunk"
      using of_memory_elem_bytes [OF tys known, of m2] len chunk by metis
    ultimately show ?thesis
      using False o sb n lb np chunk by (simp add: bytes_DecodeArray_def Let_def)
  qed
qed

text \<open>What the bytes codec decodes is a chunk of the type and the shape it was told.\<close>

lemma bytes_DecodeArray_wt:
  assumes "bytes_DecodeArray m e b spec = Inr chunk"
  shows "wt_slice chunk \<and> stype chunk = spType spec \<and> length (elems chunk) = product_of (spShape spec)
     \<and> length b = product_of (spShape spec) * dsize (spType spec)"
proof -
  from assms obtain order sz where o: "bytes_order e (spType spec) = Inr order"
    "storedBytes (ints (spShape spec)) (spType spec) = Inr sz" "int (length b) = sz"
    by (auto simp: bytes_DecodeArray_def rbind_Inr_iff Let_def split: if_splits)
  have n: "sz = int (product_of (spShape spec) * dsize (spType spec))" "known (spType spec)"
    using storedBytes_Inr [OF o(2)] by auto
  have np: "nat sz div dsize (spType spec) = product_of (spShape spec)"
    using n(2) by (simp add: n(1) del: of_nat_mult)
  have lb: "length b = product_of (spShape spec) * dsize (spType spec)"
    using o(3) n(1) by (simp del: of_nat_mult)
  with assms o n np show ?thesis
    by (auto simp: bytes_DecodeArray_def Let_def wt_slice_def of_memory_def type_of_bits split: if_splits)
qed

section \<open>The checksum\<close>

lemma crc_roundtrip: "crc_EncodeBytes data = Inr b \<Longrightarrow> crc_DecodeBytes b = Inr data"
proof -
  have "unat (crc32c data) < 256 ^ 4" using unsigned_less [of "crc32c data"] by simp
  then have "le_nat (le_bytes 4 (unat (crc32c data))) = unat (crc32c data)" by (rule le_nat_bytes)
  then show "crc_EncodeBytes data = Inr b \<Longrightarrow> crc_DecodeBytes b = Inr data"
    by (auto simp: crc_EncodeBytes_def crc_DecodeBytes_def Let_def)
qed

text \<open>Only what \<open>EncodeBytes\<close> makes decodes: a chunk whose checksum is not that of its bytes is refused.\<close>

lemma crc_decode_encode: "crc_DecodeBytes b = Inr data \<Longrightarrow> crc_EncodeBytes data = Inr b"
proof -
  assume a: "crc_DecodeBytes b = Inr data"
  then have l: "4 \<le> length b" and d: "data = take (length b - 4) b"
    and c: "unat (crc32c data) = le_nat (drop (length b - 4) b)"
    by (auto simp: crc_DecodeBytes_def Let_def split: if_splits)
  have "le_bytes 4 (unat (crc32c data)) = drop (length b - 4) b"
    using le_bytes_nat [of "drop (length b - 4) b"] l c by simp
  with d show ?thesis by (simp add: crc_EncodeBytes_def)
qed

lemma crc_length: "crc_EncodeBytes data = Inr b \<Longrightarrow> length b = length data + 4"
  by (auto simp: crc_EncodeBytes_def)

section \<open>The shuffle\<close>

lemma fold_update_length: "length (fold (\<lambda>p out. out[kf p := vf p]) ps out) = length out"
  by (induction ps arbitrary: out) auto

lemma fold_update_nth:
  "\<forall>p \<in> set ps. kf p < length out \<and> vf p = g (kf p) \<Longrightarrow> x < length out \<Longrightarrow>
     fold (\<lambda>p out. out[kf p := vf p]) ps out ! x = (if x \<in> kf ` set ps then g x else out ! x)"
proof (induction ps arbitrary: out)
  case (Cons p ps)
  then show ?case by (auto simp: nth_list_update)
qed simp

lemma fold_nested:
  "fold (\<lambda>i out. fold (\<lambda>j out. f i j out) js out) ks out = fold (\<lambda>(i, j) out. f i j out) (List.product ks js) out"
proof (induction ks arbitrary: out)
  case (Cons k ks)
  have "fold (\<lambda>(i, j) out. f i j out) (map (Pair k) js) out = fold (\<lambda>j out. f k j out) js out" for out
    by (induction js arbitrary: out) auto
  with Cons show ?case by simp
qed simp

text \<open>Where the byte at \<open>x\<close> comes from, of \<open>cnt\<close> elements of \<open>k\<close> bytes.\<close>

definition shuffled_from :: "nat \<Rightarrow> nat \<Rightarrow> nat \<Rightarrow> nat" where
  "shuffled_from k cnt x = (if x < cnt * k then x div cnt + x mod cnt * k else x)"

lemma add_mult_less: "i < k \<Longrightarrow> j < n \<Longrightarrow> i + j * k < n * (k::nat)"
proof -
  assume a: "i < k" "j < n"
  then have "i + j * k < k + j * k" by simp
  also have "\<dots> = Suc j * k" by simp
  also have "\<dots> \<le> n * k" using a by (intro mult_le_mono1) simp
  finally show ?thesis .
qed

lemma shuffled_from_less: "x < cnt * k \<Longrightarrow> shuffled_from k cnt x < cnt * k"
proof -
  assume a: "x < cnt * k"
  then have "0 < cnt" by (cases cnt) auto
  moreover have "x div cnt < k" using a by (simp add: less_mult_imp_div_less mult.commute)
  ultimately show ?thesis using a by (simp add: shuffled_from_def add_mult_less)
qed

lemma shuffled_from_twice: "x < cnt * k \<Longrightarrow> shuffled_from cnt k (shuffled_from k cnt x) = x"
proof -
  assume a: "x < cnt * k"
  then have c: "0 < cnt" by (cases cnt) auto
  have k: "x div cnt < k" using a by (simp add: less_mult_imp_div_less mult.commute)
  let ?y = "x div cnt + x mod cnt * k"
  have "?y < cnt * k" using k c by (simp add: add_mult_less)
  moreover have "?y div k = x mod cnt" "?y mod k = x div cnt" using k by simp_all
  ultimately show ?thesis using a by (simp add: shuffled_from_def mult.commute)
qed

lemma shuffle_Encode_nth:
  assumes "shuffle_EncodeBytes es data = Inr b" "shuffle_count es (length data) = Inr cnt"
  shows "length b = length data \<and> (\<forall>x < length data. b ! x = data ! shuffled_from (nat es) cnt x)"
proof (cases "cnt = 0")
  case True
  with assms show ?thesis by (simp add: shuffle_EncodeBytes_def shuffled_from_def)
next
  case False
  let ?k = "nat es"
  have le: "cnt * ?k \<le> length data"
    using assms(2) False by (auto simp: shuffle_count_def split: if_splits)
  define ps where "ps = List.product [0 ..< ?k] [0 ..< cnt]"
  define kf where "kf = (\<lambda>(i, j). i * cnt + j)"
  define vf where "vf = (\<lambda>(i, j). data ! (i + j * ?k))"
  define out where "out = fold (\<lambda>p out. out[kf p := vf p]) ps (replicate (length data) 0)"
  have b: "b = take (cnt * ?k) out @ drop (cnt * ?k) data"
    using assms False fold_nested [of "\<lambda>i j out. out[i * cnt + j := data ! (i + j * ?k)]" "[0 ..< cnt]" "[0 ..< ?k]"]
    by (simp add: shuffle_EncodeBytes_def Let_def out_def ps_def kf_def vf_def case_prod_unfold)
  have lout: "length out = length data" by (simp add: out_def fold_update_length)
  have "kf p < length data \<and> vf p = data ! shuffled_from ?k cnt (kf p)" if "p \<in> set ps" for p
  proof -
    from that obtain i j where p: "p = (i, j)" "i < ?k" "j < cnt" by (auto simp: ps_def)
    have lt: "j + i * cnt < ?k * cnt" using p by (intro add_mult_less)
    with p le show ?thesis
      by (simp add: kf_def vf_def shuffled_from_def add.commute mult.commute)
  qed
  moreover have "x \<in> kf ` set ps" if "x < cnt * ?k" for x
  proof -
    have c: "0 < cnt" using False by simp
    have "x div cnt < ?k" using that by (simp add: less_mult_imp_div_less mult.commute)
    with c have "(x div cnt, x mod cnt) \<in> set ps" by (simp add: ps_def)
    moreover have "kf (x div cnt, x mod cnt) = x" by (simp add: kf_def)
    ultimately show ?thesis by (metis imageI)
  qed
  ultimately have out: "out ! x = data ! shuffled_from ?k cnt x" if "x < cnt * ?k" for x
    using that le fold_update_nth [of ps kf "replicate (length data) 0" vf "\<lambda>x. data ! shuffled_from ?k cnt x" x]
    by (simp add: out_def)
  show ?thesis
    using b lout le out by (auto simp: nth_append shuffled_from_def)
qed

lemma shuffle_Decode_nth:
  assumes "shuffle_DecodeBytes es data = Inr b" "shuffle_count es (length data) = Inr cnt"
  shows "length b = length data \<and> (\<forall>x < length data. b ! x = data ! shuffled_from cnt (nat es) x)"
proof (cases "cnt = 0")
  case True
  with assms show ?thesis by (simp add: shuffle_DecodeBytes_def shuffled_from_def)
next
  case False
  let ?k = "nat es"
  have le: "cnt * ?k \<le> length data"
    using assms(2) False by (auto simp: shuffle_count_def split: if_splits)
  have k: "0 < ?k" using assms(2) False by (auto simp: shuffle_count_def split: if_splits)
  define ps where "ps = List.product [0 ..< ?k] [0 ..< cnt]"
  define kf where "kf = (\<lambda>(i, j). i + j * ?k)"
  define vf where "vf = (\<lambda>(i, j). data ! (i * cnt + j))"
  define out where "out = fold (\<lambda>p out. out[kf p := vf p]) ps (replicate (length data) 0)"
  have b: "b = take (cnt * ?k) out @ drop (cnt * ?k) data"
    using assms False fold_nested [of "\<lambda>i j out. out[i + j * ?k := data ! (i * cnt + j)]" "[0 ..< cnt]" "[0 ..< ?k]"]
    by (simp add: shuffle_DecodeBytes_def Let_def out_def ps_def kf_def vf_def case_prod_unfold)
  have lout: "length out = length data" by (simp add: out_def fold_update_length)
  have "kf p < length data \<and> vf p = data ! shuffled_from cnt ?k (kf p)" if "p \<in> set ps" for p
  proof -
    from that obtain i j where p: "p = (i, j)" "i < ?k" "j < cnt" by (auto simp: ps_def)
    have lt: "i + j * ?k < cnt * ?k" using p by (intro add_mult_less)
    with p le show ?thesis
      by (simp add: kf_def vf_def shuffled_from_def add.commute mult.commute)
  qed
  moreover have "x \<in> kf ` set ps" if "x < cnt * ?k" for x
  proof -
    have "x div ?k < cnt" using that by (simp add: less_mult_imp_div_less)
    with k have "(x mod ?k, x div ?k) \<in> set ps" by (simp add: ps_def)
    moreover have "kf (x mod ?k, x div ?k) = x" by (simp add: kf_def)
    ultimately show ?thesis by (metis imageI)
  qed
  ultimately have out: "out ! x = data ! shuffled_from cnt ?k x" if "x < cnt * ?k" for x
    using that le fold_update_nth [of ps kf "replicate (length data) 0" vf "\<lambda>x. data ! shuffled_from cnt ?k x" x]
    by (simp add: out_def)
  show ?thesis
    using b lout le out by (auto simp: nth_append shuffled_from_def mult.commute)
qed

lemma shuffle_total: "0 \<le> es \<Longrightarrow> \<exists>b. shuffle_EncodeBytes es data = Inr b"
  by (auto simp: shuffle_EncodeBytes_def shuffle_count_def Let_def)

lemma shuffle_length: "shuffle_EncodeBytes es data = Inr b \<Longrightarrow> length b = length data"
proof -
  assume e: "shuffle_EncodeBytes es data = Inr b"
  then obtain cnt where "shuffle_count es (length data) = Inr cnt"
    by (auto simp: shuffle_EncodeBytes_def rbind_Inr_iff)
  with shuffle_Encode_nth [OF e] show ?thesis by blast
qed

lemma shuffle_roundtrip: "shuffle_EncodeBytes es data = Inr b \<Longrightarrow> shuffle_DecodeBytes es b = Inr data"
proof -
  assume e: "shuffle_EncodeBytes es data = Inr b"
  then obtain cnt where c: "shuffle_count es (length data) = Inr cnt"
    by (auto simp: shuffle_EncodeBytes_def rbind_Inr_iff)
  have enc: "length b = length data" "\<And>x. x < length data \<Longrightarrow> b ! x = data ! shuffled_from (nat es) cnt x"
    using shuffle_Encode_nth [OF e c] by auto
  obtain r where r: "shuffle_DecodeBytes es b = Inr r"
    using c enc(1) by (cases "cnt = 0") (simp_all add: shuffle_DecodeBytes_def Let_def)
  have dec: "length r = length b" "\<And>x. x < length b \<Longrightarrow> r ! x = b ! shuffled_from cnt (nat es) x"
    using shuffle_Decode_nth [OF r] c enc(1) by auto
  have le: "cnt * nat es \<le> length data" using c by (auto simp: shuffle_count_def split: if_splits)
  have "r = data"
  proof (rule nth_equalityI)
    fix x assume "x < length r"
    then have x: "x < length data" using dec enc by simp
    show "r ! x = data ! x"
    proof (cases "x < cnt * nat es")
      case True
      then have y: "shuffled_from cnt (nat es) x < cnt * nat es"
        using shuffled_from_less [of x "nat es" cnt] by (simp add: mult.commute)
      with x le dec enc have "r ! x = data ! shuffled_from (nat es) cnt (shuffled_from cnt (nat es) x)" by simp
      with True show ?thesis using shuffled_from_twice [of x "nat es" cnt] by (simp add: mult.commute)
    next
      case False
      then show ?thesis using x dec enc by (simp add: shuffled_from_def mult.commute)
    qed
  qed (use dec enc in simp)
  with r show ?thesis by simp
qed

lemma mset_map_bij:
  assumes "inj_on f {..< n}" "f ` {..< n} \<subseteq> {..< n}"
  shows "mset (map f [0 ..< n]) = mset [0 ..< n]"
proof -
  have "f ` {..< n} = {..< n}" using assms by (intro endo_inj_surj) auto
  then have "image_mset f (mset_set {..< n}) = mset_set {..< n}"
    using image_mset_mset_set [OF assms(1)] by simp
  then show ?thesis by (simp add: mset_set_upto_eq_mset_upto)
qed

text \<open>The shuffle moves bytes and changes none.\<close>

lemma shuffle_mset: "shuffle_EncodeBytes es data = Inr b \<Longrightarrow> mset b = mset data"
proof -
  assume e: "shuffle_EncodeBytes es data = Inr b"
  then obtain cnt where c: "shuffle_count es (length data) = Inr cnt"
    by (auto simp: shuffle_EncodeBytes_def rbind_Inr_iff)
  let ?f = "shuffled_from (nat es) cnt" and ?n = "length data"
  have le: "cnt * nat es \<le> ?n" using c by (auto simp: shuffle_count_def split: if_splits)
  have bij: "x < cnt * nat es \<longleftrightarrow> ?f x < cnt * nat es" for x
    by (auto simp: shuffled_from_less) (simp add: shuffled_from_def split: if_splits)
  have inj: "inj_on ?f {..< ?n}"
  proof (rule inj_onI)
    fix x y assume xy: "?f x = ?f y"
    show "x = y"
    proof (cases "x < cnt * nat es")
      case True
      then have "y < cnt * nat es" using bij xy by metis
      with True xy show ?thesis by (metis shuffled_from_twice)
    next
      case False
      then have "\<not> y < cnt * nat es" using bij xy by metis
      with False xy show ?thesis by (simp add: shuffled_from_def)
    qed
  qed
  have "?f ` {..< ?n} \<subseteq> {..< ?n}"
  proof
    fix y assume "y \<in> ?f ` {..< ?n}"
    then obtain x where "x < ?n" "y = ?f x" by auto
    then show "y \<in> {..< ?n}"
      using shuffled_from_less [of x cnt "nat es"] le by (cases "x < cnt * nat es") (auto simp: shuffled_from_def)
  qed
  with inj have m: "mset (map ?f [0 ..< ?n]) = mset [0 ..< ?n]" by (rule mset_map_bij)
  have "b = map ((!) data) (map ?f [0 ..< ?n])"
    using shuffle_Encode_nth [OF e c] by (intro nth_equalityI) auto
  then have "mset b = image_mset ((!) data) (mset (map ?f [0 ..< ?n]))" by (simp only: mset_map)
  also have "\<dots> = mset (map ((!) data) [0 ..< ?n])" unfolding m by simp
  also have "\<dots> = mset data" by (simp add: map_nth)
  finally show ?thesis .
qed

section \<open>What a decompressor is trusted for\<close>

text \<open>
  The documented behaviour of \<open>compress/gzip\<close> and \<open>compress/zlib\<close>: a writer of a level
  from 0 to 9 does not fail on memory; what it wrote is a stream that yields what went in and
  ends; and deflate stores what it cannot compress in blocks with 5 bytes each, a header and a
  trailer around them.
\<close>

definition stored_bound :: "nat \<Rightarrow> nat" where
  "stored_bound n = n + 5 * (n div 16383 + 2) + 18"

definition yields :: "stream res \<Rightarrow> bytes \<Rightarrow> bool" where
  "yields r data \<longleftrightarrow> (\<exists>st. r = Inr st \<and> content st = data \<and> final st = None)"

definition env_ok :: "env \<Rightarrow> bool" where
  "env_ok env \<longleftrightarrow>
     (\<forall>level data. 0 \<le> level \<and> level \<le> 9 \<longrightarrow>
        (\<exists>b. gzip_write env level data = Inr b) \<and> (\<exists>b. zlib_write env level data = Inr b)) \<and>
     (\<forall>level data b. gzip_write env level data = Inr b \<longrightarrow>
        yields (gzip_read env b) data \<and> length b \<le> stored_bound (length data)) \<and>
     (\<forall>level data b. zlib_write env level data = Inr b \<longrightarrow>
        yields (zlib_read env b) data \<and> length b \<le> stored_bound (length data))"

lemma stored_bound_le: "stored_bound n \<le> n + n div 100 + 1024"
proof -
  have "5 * (n div 16383) \<le> n div 100"
  proof -
    have "5 * (n div 16383) * 100 \<le> n div 16383 * 16383" by simp
    also have "\<dots> \<le> n" by simp
    finally show ?thesis by (simp add: less_eq_div_iff_mult_less_eq)
  qed
  then show ?thesis by (simp add: stored_bound_def)
qed

lemma gzip_roundtrip:
  assumes "env_ok env" "gzip_write env level data = Inr b" "int (length data) \<le> limit"
  shows "gzip_DecodeBytesLimit env b limit = Inr data"
  using assms by (fastforce simp: env_ok_def yields_def gzip_DecodeBytesLimit_def Let_def inflate_spec)

lemma zlib_roundtrip:
  assumes "env_ok env" "zlib_write env level data = Inr b" "int (length data) \<le> limit"
  shows "zlib_DecodeBytesLimit env b limit = Inr data"
  using assms by (fastforce simp: env_ok_def yields_def zlib_DecodeBytesLimit_def Let_def inflate_spec)

text \<open>No decompressed chunk is longer than the limit it was held to.\<close>

lemma gzip_limited: "0 \<le> limit \<Longrightarrow> gzip_DecodeBytesLimit env b limit = Inr data \<Longrightarrow> int (length data) \<le> limit"
  by (auto simp: gzip_DecodeBytesLimit_def rbind_Inr_iff Let_def inflate_spec split: if_splits option.splits)

lemma zlib_limited: "0 \<le> limit \<Longrightarrow> zlib_DecodeBytesLimit env b limit = Inr data \<Longrightarrow> int (length data) \<le> limit"
  by (auto simp: zlib_DecodeBytesLimit_def rbind_Inr_iff Let_def inflate_spec split: if_splits option.splits)

end
