(* ===== verification/Blocks.thy ===== *)
theory Blocks
  imports Grid
begin

text \<open>
  Copying blocks between arrays laid out in C order: \<open>eachRun\<close>, \<open>copyBlock\<close> and
  \<open>fillBlock\<close> of \<open>src/array.go\<close>. The loop over runs is modelled as it is written: the
  strides, the dimension from which whole rows are merged into one run, and the odometer
  that moves both positions by strides. A run that would slice past either array is a
  panic.

  The main lemma says that a copy of a block that fits both arrays never panics, and what
  every element of the destination is afterwards.
\<close>

section \<open>The loops of eachRun\<close>

text \<open>\<open>for m > 0 && n[m] == dstShape[m] && n[m] == srcShape[m] { m-- }\<close>\<close>

fun run_dim :: "vec \<Rightarrow> vec \<Rightarrow> vec \<Rightarrow> nat \<Rightarrow> nat" where
  "run_dim n dstShape srcShape 0 = 0"
| "run_dim n dstShape srcShape (Suc m) =
     (if n ! Suc m = dstShape ! Suc m \<and> n ! Suc m = srcShape ! Suc m
      then run_dim n dstShape srcShape m else Suc m)"

text \<open>The stride of each dimension, the position of \<open>at\<close>, and the running product, from the
  last dimension to the first; \<open>eachRun\<close> does it for both arrays in one loop.\<close>

fun strides :: "vec \<Rightarrow> vec \<Rightarrow> vec \<times> nat \<times> nat" where
  "strides (s # shape) (a # at) =
     (let (st, p, w) = strides shape at in (w # st, p + a * w, w * s))"
| "strides _ _ = ([], 0, 1)"

text \<open>One turn of the inner loop at the end of a run: the flag is \<open>k < 0\<close>.\<close>

fun run_step :: "vec \<Rightarrow> vec \<Rightarrow> vec \<Rightarrow> vec \<Rightarrow> nat \<Rightarrow> nat \<Rightarrow> bool \<times> vec \<times> nat \<times> nat" where
  "run_step (p # pos) (n # ns) (d # ds) (s # ss) di si =
     (let (carry, pos', di', si') = run_step pos ns ds ss di si
      in if \<not> carry then (False, p # pos', di', si')
         else if p + 1 < n then (False, (p + 1) # pos', di' + d, si' + s)
         else (True, 0 # pos', di' + d - n * d, si' + s - n * s))"
| "run_step _ _ _ _ di si = (True, [], di, si)"

fun run_left :: "vec \<Rightarrow> vec \<Rightarrow> nat" where
  "run_left (n # ns) (p # pos) = (n - 1 - p) * Suc (run_left ns (zeros (length ns))) + run_left ns pos"
| "run_left _ _ = 0"

lemma run_left_carry:
  "run_step pos ns ds ss di si = (True, pos', di', si') \<Longrightarrow>
     run_left ns pos' \<le> run_left ns (zeros (length ns))"
proof (induction pos ns ds ss di si arbitrary: pos' di' si' rule: run_step.induct)
  case (1 p pos n ns d ds s ss di si)
  then show ?case by (auto simp: Let_def split: prod.splits if_splits)
qed auto

lemma run_left_decr:
  "run_step pos ns ds ss di si = (False, pos', di', si') \<Longrightarrow> run_left ns pos' < run_left ns pos"
proof (induction pos ns ds ss di si arbitrary: pos' di' si' rule: run_step.induct)
  case (1 p pos n ns d ds s ss di si)
  obtain c q x y where r: "run_step pos ns ds ss di si = (c, q, x, y)"
    by (cases "run_step pos ns ds ss di si")
  show ?case
  proof (cases c)
    case False
    with 1 r show ?thesis by (auto simp: Let_def)
  next
    case True
    let ?w = "run_left ns (zeros (length ns))"
    from True 1 r have pos': "pos' = (p + 1) # q" and pn: "p + 1 < n"
      by (auto simp: Let_def split: if_splits)
    have q: "run_left ns q \<le> ?w" using r True by (simp add: run_left_carry)
    have "(n - 1 - (p + 1)) * Suc ?w + ?w < (n - 1 - (p + 1)) * Suc ?w + Suc ?w" by simp
    also have "\<dots> = (n - 1 - p) * Suc ?w"
    proof -
      have "n - 1 - p = Suc (n - 1 - (p + 1))" using pn by simp
      then show ?thesis by (simp only: mult_Suc)
    qed
    finally show ?thesis using pos' q by simp
  qed
qed auto

text \<open>The loop: what \<open>f\<close> is called with, as (where in the one, where in the other, how long).\<close>

function run_loop :: "vec \<Rightarrow> vec \<Rightarrow> vec \<Rightarrow> nat \<Rightarrow> vec \<Rightarrow> nat \<Rightarrow> nat \<Rightarrow> (nat \<times> nat \<times> nat) list" where
  "run_loop n ds ss l pos di si =
     (di, si, l) #
       (case run_step pos n ds ss di si of
          (True, _) \<Rightarrow> []
        | (False, pos', di', si') \<Rightarrow> run_loop n ds ss l pos' di' si')"
  by pat_completeness auto
termination
  by (relation "measure (\<lambda>(n, ds, ss, l, pos, di, si). run_left n pos)") (auto dest: run_left_decr [OF sym])

declare run_loop.simps [simp del]

definition eachRun :: "vec \<Rightarrow> vec \<Rightarrow> vec \<Rightarrow> vec \<Rightarrow> vec \<Rightarrow> (nat \<times> nat \<times> nat) list" where
  "eachRun dstShape dstAt srcShape srcAt n =
     (let d = length n in
      if d = 0 then [(0, 0, 1)]
      else if product_of n = 0 then []
      else
        (let m = run_dim n dstShape srcShape (d - 1);
             (dstStride, di, _) = strides dstShape dstAt;
             (srcStride, si, _) = strides srcShape srcAt;
             l = n ! m * dstStride ! m
         in run_loop (take m n) (take m dstStride) (take m srcStride) l (zeros m) di si))"

text \<open>\<open>copy(dst[di:di+l], src[si:si+l])\<close>\<close>

definition copy_run :: "'a list \<Rightarrow> nat \<times> nat \<times> nat \<Rightarrow> 'a list \<Rightarrow> 'a list res" where
  "copy_run src run dst =
     (case run of (di, si, l) \<Rightarrow>
        if di + l \<le> length dst \<and> si + l \<le> length src
        then Inr (take di dst @ take l (drop si src) @ drop (di + l) dst)
        else Inl Panic)"

definition copyBlock :: "'a list \<Rightarrow> vec \<Rightarrow> vec \<Rightarrow> 'a list \<Rightarrow> vec \<Rightarrow> vec \<Rightarrow> vec \<Rightarrow> 'a list res" where
  "copyBlock dst dstShape dstAt src srcShape srcAt n =
     rfold (copy_run src) (eachRun dstShape dstAt srcShape srcAt n) dst"

text \<open>\<open>s := dst[di : di+l]; for i := range s { s[i] = v }\<close>\<close>

definition fill_run :: "'a \<Rightarrow> nat \<times> nat \<times> nat \<Rightarrow> 'a list \<Rightarrow> 'a list res" where
  "fill_run v run dst =
     (case run of (di, _, l) \<Rightarrow>
        if di + l \<le> length dst
        then Inr (take di dst @ replicate l v @ drop (di + l) dst)
        else Inl Panic)"

definition fillBlock :: "'a list \<Rightarrow> vec \<Rightarrow> vec \<Rightarrow> vec \<Rightarrow> 'a \<Rightarrow> 'a list res" where
  "fillBlock dst shape at n v = rfold (fill_run v) (eachRun shape at shape at n) dst"

section \<open>Blocks\<close>

text \<open>An index in the block of shape \<open>n\<close> at \<open>at\<close>, and a block that fits a shape.\<close>

fun in_block :: "vec \<Rightarrow> vec \<Rightarrow> vec \<Rightarrow> bool" where
  "in_block [] [] [] = True"
| "in_block (a # at) (n # ns) (i # idx) = (a \<le> i \<and> i < a + n \<and> in_block at ns idx)"
| "in_block _ _ _ = False"

fun fits :: "vec \<Rightarrow> vec \<Rightarrow> vec \<Rightarrow> bool" where
  "fits [] [] [] = True"
| "fits (a # at) (n # ns) (s # shape) = (a + n \<le> s \<and> fits at ns shape)"
| "fits _ _ _ = False"

lemma in_block_nth:
  "in_block at n idx \<longleftrightarrow> length at = length idx \<and> length n = length idx \<and>
     (\<forall>k < length idx. at ! k \<le> idx ! k \<and> idx ! k < at ! k + n ! k)"
proof (induction at n idx rule: in_block.induct)
  case (2 a at n ns i idx)
  then show ?case by (auto simp: All_less_Suc2)
qed auto

lemma fits_nth:
  "fits at n shape \<longleftrightarrow> length at = length shape \<and> length n = length shape \<and>
     (\<forall>k < length shape. at ! k + n ! k \<le> shape ! k)"
proof (induction at n shape rule: fits.induct)
  case (2 a at n ns s shape)
  then show ?case by (auto simp: All_less_Suc2)
qed auto

lemma fits_length: "fits at n shape \<Longrightarrow> length at = length shape \<and> length n = length shape"
  by (simp add: fits_nth)

lemma in_block_length: "in_block at n idx \<Longrightarrow> length at = length idx \<and> length n = length idx"
  by (simp add: in_block_nth)

lemma fits_inside: "fits at n shape \<Longrightarrow> in_block at n idx \<Longrightarrow> inside idx shape"
  by (fastforce simp: fits_nth in_block_nth list_all2_conv_all_nth)

lemma in_block_zeros: "in_block (zeros (length s)) s idx \<longleftrightarrow> inside idx s"
  by (auto simp: in_block_nth list_all2_conv_all_nth)

lemma fits_zeros: "fits (zeros (length s)) s s"
  by (simp add: fits_nth)

lemma in_block_append:
  "length at = length i \<Longrightarrow> length n = length i \<Longrightarrow>
     in_block (at @ at') (n @ n') (i @ i') \<longleftrightarrow> in_block at n i \<and> in_block at' n' i'"
proof (induction at n i rule: in_block.induct)
  case (2 a at n ns i idx)
  then show ?case by simp
qed auto

lemma fits_append:
  "length at = length s \<Longrightarrow> length n = length s \<Longrightarrow>
     fits (at @ at') (n @ n') (s @ s') \<longleftrightarrow> fits at n s \<and> fits at' n' s'"
proof (induction at n s rule: fits.induct)
  case (2 a at n ns s shape)
  then show ?case by simp
qed auto

section \<open>Strides\<close>

definition dotV :: "vec \<Rightarrow> vec \<Rightarrow> nat" where
  "dotV p st = sum_list (map2 (*) p st)"

lemma dotV_simps [simp]: "dotV [] st = 0" "dotV ps [] = 0" "dotV (p # ps) (d # ds) = p * d + dotV ps ds"
  by (simp_all add: dotV_def)

lemma dotV_scale: "dotV p (map (\<lambda>x. x * w) st) = dotV p st * w"
proof (induction p arbitrary: st)
  case (Cons a p)
  then show ?case by (cases st) (auto simp: algebra_simps)
qed simp

lemma dotV_zeros [simp]: "dotV (zeros k) st = 0"
proof (induction k arbitrary: st)
  case (Suc k)
  then show ?case by (cases st) auto
qed simp

lemma strides_spec:
  "length at = length shape \<Longrightarrow>
     fst (snd (strides shape at)) = lin shape at \<and> snd (snd (strides shape at)) = product_of shape
     \<and> length (fst (strides shape at)) = length shape"
proof (induction at shape rule: list_induct2)
  case (Cons a at s shape)
  then show ?case by (cases "strides shape at") (auto simp: Let_def)
qed simp

lemma strides_Cons:
  "length at = length shape \<Longrightarrow>
     fst (strides (s # shape) (a # at)) = product_of shape # fst (strides shape at)"
  using strides_spec [of at shape] by (simp add: case_prod_unfold Let_def)

lemma strides_append:
  assumes "length a1 = length s1" "length a2 = length s2"
  shows "fst (strides (s1 @ s2) (a1 @ a2)) =
           map (\<lambda>x. x * product_of s2) (fst (strides s1 a1)) @ fst (strides s2 a2)"
  using assms
proof (induction a1 s1 rule: list_induct2)
  case (Cons a a1 s s1)
  then show ?case by (simp add: strides_Cons del: strides.simps)
qed simp

lemma dotV_strides:
  "length p = length s \<Longrightarrow> length a = length s \<Longrightarrow> dotV p (fst (strides s a)) = lin s p"
proof (induction p s arbitrary: a rule: list_induct2)
  case (Cons x p y s)
  then obtain b a' where a: "a = b # a'" by (cases a) auto
  with Cons show ?case by (simp add: strides_Cons del: strides.simps)
qed simp

lemma lin_plusV: "length a = length s \<Longrightarrow> length p = length s \<Longrightarrow> lin s (plusV a p) = lin s a + lin s p"
proof (induction a s arbitrary: p rule: list_induct2)
  case (Cons x a y s)
  then obtain q p' where "p = q # p'" by (cases p) auto
  with Cons show ?case by (simp add: algebra_simps)
qed simp

section \<open>The runs\<close>

lemma inside_pos: "inside idx s \<Longrightarrow> \<forall>v \<in> set s. 0 < v"
  by (induction idx s rule: list_all2_induct) auto

lemma run_step_eq:
  assumes "inside pos n" "length ds = length n" "length ss = length n"
    and "bump (zeros (length n)) (minusOne n) pos = (c, pos')"
  shows "run_step pos n ds ss (b + dotV pos ds) (e + dotV pos ss)
           = (c, pos', b + dotV pos' ds, e + dotV pos' ss)"
  using assms
proof (induction pos n arbitrary: ds ss b e c pos' rule: list_all2_induct)
  case (Cons p pos m n)
  from Cons.prems obtain d ds' where ds: "ds = d # ds'" "length ds' = length n" by (cases ds) auto
  from Cons.prems obtain s ss' where ss: "ss = s # ss'" "length ss' = length n" by (cases ss) auto
  obtain c0 q where q: "bump (zeros (length n)) (minusOne n) pos = (c0, q)"
    by (cases "bump (zeros (length n)) (minusOne n) pos")
  have IH: "run_step pos n ds' ss' (b + p * d + dotV pos ds') (e + p * s + dotV pos ss')
      = (c0, q, b + p * d + dotV q ds', e + p * s + dotV q ss')"
    using Cons.IH [OF ds(2) ss(2) q] by simp
  have carry: "p + 1 \<le> m - 1 \<longleftrightarrow> p + 1 < m" using Cons.hyps by auto
  have q0: "c0 \<Longrightarrow> q = zeros (length n)"
    using q bump_carry [of "zeros (length n)" "minusOne n" pos q]
      between_origin [OF inside_pos [OF Cons.hyps(2)]] Cons.hyps(2) by simp
  show ?case
  proof (cases c0)
    case False
    with Cons.prems ds ss q IH show ?thesis by (auto simp: Let_def add.assoc [symmetric])
  next
    case True
    show ?thesis
    proof (cases "p + 1 < m")
      case c: True
      with True Cons.prems ds ss q IH carry show ?thesis
        by (auto simp: Let_def add.assoc [symmetric])
    next
      case c: False
      then have m: "m = Suc p" using Cons.hyps by simp
      with True Cons.prems ds ss q IH carry q0 show ?thesis
        by (auto simp: Let_def add.assoc [symmetric])
    qed
  qed
qed simp

lemma run_loop_eq:
  assumes "inside pos n" "length ds = length n" "length ss = length n"
  shows "run_loop n ds ss l pos (b + dotV pos ds) (e + dotV pos ss) =
           map (\<lambda>q. (b + dotV q ds, e + dotV q ss, l)) (odometer (zeros (length n)) (minusOne n) pos)"
  using assms
proof (induction "zeros (length n)" "minusOne n" pos rule: odometer.induct)
  case (1 idx)
  obtain c q where q: "bump (zeros (length n)) (minusOne n) idx = (c, q)"
    by (cases "bump (zeros (length n)) (minusOne n) idx")
  have step: "run_step idx n ds ss (b + dotV idx ds) (e + dotV idx ss)
      = (c, q, b + dotV q ds, e + dotV q ss)"
    using 1 q by (intro run_step_eq) auto
  have pos: "\<forall>v \<in> set n. 0 < v" using 1(2) by (rule inside_pos)
  show ?case
  proof (cases c)
    case True
    with step q show ?thesis
      by (simp add: run_loop.simps [of n ds ss l idx] odometer.simps [of "zeros (length n)" _ idx])
  next
    case False
    have "between (zeros (length n)) (minusOne n) q"
      using bump_step [of "zeros (length n)" "minusOne n" idx q] q False 1(2) pos
      by (simp add: between_origin)
    then have "inside q n" using pos by (simp add: between_origin)
    with 1 False step q show ?thesis
      by (simp add: run_loop.simps [of n ds ss l idx] odometer.simps [of "zeros (length n)" _ idx])
  qed
qed

section \<open>What the runs cover\<close>

text \<open>The index whose place in C order is \<open>x\<close>.\<close>

definition unlin :: "vec \<Rightarrow> nat \<Rightarrow> vec" where
  "unlin s x = spanInto (zeros (length s)) (minusOne s) x"

lemma unlin_length: "length (unlin s x) = length s"
  by (simp add: unlin_def spanInto_length)

lemma prod_pos_all: "0 < product_of s \<Longrightarrow> \<forall>v \<in> set s. 0 < v"
  by (induction s) auto

lemma unlin_inside: "x < product_of s \<Longrightarrow> inside (unlin s x) s"
  using spanInto_between [of "zeros (length s)" "minusOne s" x] prod_pos_all [of s]
  by (auto simp: unlin_def between_origin spanLen_origin)

lemma lin_unlin: "x < product_of s \<Longrightarrow> lin s (unlin s x) = x"
  using spanOf_spanInto [of "zeros (length s)" "minusOne s" x] prod_pos_all [of s]
    spanOf_origin [OF unlin_inside, of x s]
  by (auto simp: unlin_def spanLen_origin)

lemma unlin_lin: "inside idx s \<Longrightarrow> unlin s (lin s idx) = idx"
  using lin_inj [OF unlin_inside [OF lin_bound] _ lin_unlin [OF lin_bound]] by blast

text \<open>
  A run in a block whose shape ends in the whole of the dimensions \<open>t\<close>: \<open>q\<close> is the place of
  the run in the dimensions before the merged one, \<open>j\<close> a place within the run.
\<close>

definition run_index :: "vec \<Rightarrow> nat \<Rightarrow> vec \<Rightarrow> vec \<Rightarrow> nat \<Rightarrow> vec" where
  "run_index a1 am t q j = plusV a1 q @ (am + j div product_of t) # unlin t (j mod product_of t)"

lemma run_index_lin:
  assumes "length a1 = length s1" "length q = length s1" "j < nm * product_of t"
  shows "lin (s1 @ sm # t) (run_index a1 am t q j) =
           lin (s1 @ sm # t) (a1 @ am # zeros (length t))
             + dotV q (take (length s1) (fst (strides (s1 @ sm # t) (a1 @ am # zeros (length t))))) + j"
proof -
  let ?P = "product_of t"
  have P: "0 < ?P" using assms(3) by (cases "?P = 0") auto
  have st: "take (length s1) (fst (strides (s1 @ sm # t) (a1 @ am # zeros (length t))))
      = map (\<lambda>x. x * product_of (sm # t)) (fst (strides s1 a1))"
    using assms(1) strides_spec [of a1 s1] strides_append [of a1 s1 "am # zeros (length t)" "sm # t"] by simp
  have "lin t (unlin t (j mod ?P)) = j mod ?P" using P by (simp add: lin_unlin)
  moreover have "length (unlin t (j mod ?P)) = length t"
    by (rule unlin_length)
  ultimately show ?thesis
    using assms by (simp add: run_index_def lin_append lin_plusV st dotV_scale dotV_strides algebra_simps)
qed

lemma run_index_in_block:
  assumes "length a1 = length n1" "inside q n1" "j < nm * product_of t"
  shows "in_block (a1 @ am # zeros (length t)) (n1 @ nm # t) (run_index a1 am t q j)"
proof -
  have P: "0 < product_of t" using assms(3) by (cases "product_of t = 0") auto
  have "inside (unlin t (j mod product_of t)) t" using P by (intro unlin_inside) simp
  moreover have "j div product_of t < nm" using assms(3) by (simp add: less_mult_imp_div_less)
  moreover have "in_block a1 n1 (plusV a1 q)"
    using assms(1,2) by (auto simp: in_block_nth list_all2_conv_all_nth)
  ultimately show ?thesis
    using assms(1) insideD [OF assms(2)]
    by (simp add: run_index_def in_block_append in_block_zeros)
qed

lemma run_index_shift:
  assumes "length a1 = length q" "length b1 = length q" "j < nm * product_of t"
  shows "plusV (b1 @ bm # zeros (length t)) (minusV (run_index a1 am t q j) (a1 @ am # zeros (length t)))
           = run_index b1 bm t q j"
proof -
  have P: "0 < product_of t" using assms(3) by (cases "product_of t = 0") auto
  have "length (unlin t (j mod product_of t)) = length t"
    by (rule unlin_length)
  then show ?thesis
    using assms by (intro nth_equalityI) (auto simp: run_index_def nth_append nth_Cons split: nat.splits)
qed

lemma in_block_run_index:
  assumes "length a1 = length n1" "in_block (a1 @ am # zeros (length t)) (n1 @ nm # t) idx"
  shows "\<exists>q j. inside q n1 \<and> j < nm * product_of t \<and> idx = run_index a1 am t q j"
proof -
  define i1 where "i1 = take (length n1) idx"
  have len: "length idx = length n1 + Suc (length t)"
    using in_block_length [OF assms(2)] by simp
  obtain im i2 where rest: "drop (length n1) idx = im # i2"
    using len by (cases "drop (length n1) idx") auto
  have idx: "idx = i1 @ im # i2" using rest by (simp add: i1_def append_take_drop_id flip: rest)
  have l1: "length i1 = length n1" using len by (simp add: i1_def)
  from assms l1 have b: "in_block a1 n1 i1" "am \<le> im" "im < am + nm" "inside i2 t"
    by (simp_all add: idx in_block_append in_block_zeros)
  let ?q = "minusV i1 a1" and ?j = "(im - am) * product_of t + lin t i2"
  have lt: "lin t i2 < product_of t" using b(4) by (rule lin_bound)
  have "inside ?q n1" using b(1) by (auto simp: in_block_nth list_all2_conv_all_nth)
  moreover have "?j < nm * product_of t"
  proof -
    have "?j < (im - am) * product_of t + product_of t" using lt by simp
    also have "\<dots> = Suc (im - am) * product_of t" by simp
    also have "\<dots> \<le> nm * product_of t" using b by (intro mult_le_mono) auto
    finally show ?thesis .
  qed
  moreover have "plusV a1 ?q = i1"
    using b(1) by (intro nth_equalityI) (auto simp: in_block_nth)
  then have "idx = run_index a1 am t ?q ?j"
    using lt b by (simp add: run_index_def idx unlin_lin)
  ultimately show ?thesis by blast
qed

section \<open>Folding the runs\<close>

lemma copy_runs:
  assumes "\<forall>(di, si, l) \<in> set runs. di + l \<le> length dst \<and> si + l \<le> length src \<and>
             (\<forall>j < l. src ! (si + j) = g (di + j))"
  shows "\<exists>r. rfold (copy_run src) runs dst = Inr r \<and> length r = length dst \<and>
           (\<forall>x < length dst. r ! x =
              (if \<exists>(di, si, l) \<in> set runs. di \<le> x \<and> x < di + l then g x else dst ! x))"
  using assms
proof (induction runs arbitrary: dst)
  case (Cons run runs)
  obtain di si l where run: "run = (di, si, l)" by (cases run)
  with Cons.prems have b: "di + l \<le> length dst" "si + l \<le> length src"
    "\<And>j. j < l \<Longrightarrow> src ! (si + j) = g (di + j)" by auto
  define d where "d = take di dst @ take l (drop si src) @ drop (di + l) dst"
  have step: "copy_run src run dst = Inr d" using b by (simp add: copy_run_def run d_def)
  have len: "length d = length dst" using b by (simp add: d_def)
  have nth: "d ! x = (if di \<le> x \<and> x < di + l then g x else dst ! x)" if "x < length dst" for x
  proof (cases "di \<le> x \<and> x < di + l")
    case True
    then have "src ! (si + (x - di)) = g x" using b(3) [of "x - di"] by auto
    moreover have "x - di < l" using True by auto
    ultimately show ?thesis using True that b by (simp add: d_def nth_append)
  qed (use that b in \<open>auto simp: d_def nth_append\<close>)
  obtain r where "rfold (copy_run src) runs d = Inr r" "length r = length d"
    "\<forall>x < length d. r ! x = (if \<exists>(di, si, l) \<in> set runs. di \<le> x \<and> x < di + l then g x else d ! x)"
    using Cons.IH [of d] Cons.prems len by auto
  then show ?case using step len nth by (auto simp: run)
qed simp

lemma fill_runs:
  assumes "\<forall>(di, si, l) \<in> set runs. di + l \<le> length dst"
  shows "\<exists>r. rfold (fill_run v) runs dst = Inr r \<and> length r = length dst \<and>
           (\<forall>x < length dst. r ! x =
              (if \<exists>(di, si, l) \<in> set runs. di \<le> x \<and> x < di + l then v else dst ! x))"
  using assms
proof (induction runs arbitrary: dst)
  case (Cons run runs)
  obtain di si l where run: "run = (di, si, l)" by (cases run)
  with Cons.prems have b: "di + l \<le> length dst" by auto
  define d where "d = take di dst @ replicate l v @ drop (di + l) dst"
  have step: "fill_run v run dst = Inr d" using b by (simp add: fill_run_def run d_def)
  have len: "length d = length dst" using b by (simp add: d_def)
  have nth: "d ! x = (if di \<le> x \<and> x < di + l then v else dst ! x)" if "x < length dst" for x
    using that b by (auto simp: d_def nth_append)
  obtain r where "rfold (fill_run v) runs d = Inr r" "length r = length d"
    "\<forall>x < length d. r ! x = (if \<exists>(di, si, l) \<in> set runs. di \<le> x \<and> x < di + l then v else d ! x)"
    using Cons.IH [of d] Cons.prems len by auto
  then show ?case using step len nth by (auto simp: run)
qed simp

section \<open>Copying and filling a block\<close>

lemma run_dim_spec:
  "run_dim n ds ss m \<le> m \<and> (\<forall>k. run_dim n ds ss m < k \<longrightarrow> k \<le> m \<longrightarrow> n ! k = ds ! k \<and> n ! k = ss ! k)"
proof (induction m)
  case (Suc m)
  show ?case
  proof (cases "n ! Suc m = ds ! Suc m \<and> n ! Suc m = ss ! Suc m")
    case True
    then have "run_dim n ds ss (Suc m) = run_dim n ds ss m" by simp
    with Suc True show ?thesis by (metis le_Suc_eq)
  next
    case False
    then show ?thesis by auto
  qed
qed simp

lemma split_at: "m < length xs \<Longrightarrow> xs = take m xs @ xs ! m # drop (Suc m) xs"
  by (rule id_take_nth_drop)

text \<open>Where a block spans the whole of the dimensions after \<open>m\<close>, its corner is 0 there.\<close>

lemma split_merged:
  assumes "fits at n shape" "m < length n" "\<forall>k. m < k \<longrightarrow> k < length n \<longrightarrow> n ! k = shape ! k"
  shows "at = take m at @ at ! m # zeros (length (drop (Suc m) n))"
    and "shape = take m shape @ shape ! m # drop (Suc m) n"
proof -
  have len: "length at = length n" "length shape = length n" using fits_length [OF assms(1)] by auto
  have z: "at ! k = 0" if "m < k" "k < length n" for k
  proof -
    have "at ! k + n ! k \<le> shape ! k" using assms(1) that(2) by (simp add: fits_nth)
    moreover have "n ! k = shape ! k" using assms(3) that by blast
    ultimately show ?thesis by simp
  qed
  have "drop (Suc m) at = zeros (length (drop (Suc m) n))"
    using len by (intro nth_equalityI) (auto simp: z)
  then show "at = take m at @ at ! m # zeros (length (drop (Suc m) n))"
    using split_at [of m at] len assms(2) by simp
  have "drop (Suc m) shape = drop (Suc m) n"
    using len assms(3) by (intro nth_equalityI) auto
  then show "shape = take m shape @ shape ! m # drop (Suc m) n"
    using split_at [of m shape] len assms(2) by simp
qed

definition runs_cover :: "vec \<Rightarrow> vec \<Rightarrow> vec \<Rightarrow> vec \<Rightarrow> vec \<Rightarrow> (nat \<times> nat \<times> nat) set \<Rightarrow> bool" where
  "runs_cover dstShape dstAt srcShape srcAt n runs \<longleftrightarrow>
     (\<forall>(di, si, l) \<in> runs. di + l \<le> product_of dstShape \<and> si + l \<le> product_of srcShape \<and>
        (\<forall>j < l. \<exists>idx. in_block dstAt n idx \<and> lin dstShape idx = di + j \<and>
           lin srcShape (plusV srcAt (minusV idx dstAt)) = si + j)) \<and>
     (\<forall>idx. in_block dstAt n idx \<longrightarrow>
        (\<exists>(di, si, l) \<in> runs. di \<le> lin dstShape idx \<and> lin dstShape idx < di + l))"

lemma runs_cover_split:
  assumes fd: "fits (a1 @ am # zeros (length t)) (n1 @ nm # t) (d1 @ dm # t)"
    and fs: "fits (b1 @ bm # zeros (length t)) (n1 @ nm # t) (s1 @ sm # t)"
    and len: "length a1 = length n1" "length d1 = length n1" "length b1 = length n1" "length s1 = length n1"
    and pos: "0 < product_of (n1 @ nm # t)"
  defines "dst \<equiv> d1 @ dm # t" and "src \<equiv> s1 @ sm # t"
    and "at \<equiv> a1 @ am # zeros (length t)" and "bt \<equiv> b1 @ bm # zeros (length t)"
  defines "D \<equiv> \<lambda>q. lin dst at + dotV q (take (length n1) (fst (strides dst at)))"
    and "S \<equiv> \<lambda>q. lin src bt + dotV q (take (length n1) (fst (strides src bt)))"
  shows "runs_cover dst at src bt (n1 @ nm # t) ((\<lambda>q. (D q, S q, nm * product_of t)) ` {q. inside q n1})"
proof -
  let ?l = "nm * product_of t" and ?n = "n1 @ nm # t"
  have l: "0 < ?l" using pos by simp
  have point: "in_block at ?n (run_index a1 am t q j)" "lin dst (run_index a1 am t q j) = D q + j"
      "lin src (plusV bt (minusV (run_index a1 am t q j) at)) = S q + j"
      "inside (plusV bt (minusV (run_index a1 am t q j) at)) src"
    if "inside q n1" "j < ?l" for q j
  proof -
    have q: "length q = length n1" using that(1) by (rule insideD)
    show "in_block at ?n (run_index a1 am t q j)"
      unfolding at_def using len that by (intro run_index_in_block) auto
    show "lin dst (run_index a1 am t q j) = D q + j"
      using run_index_lin [of a1 d1 q j nm t dm am] that q len
      by (simp add: D_def dst_def at_def)
    have sh: "plusV bt (minusV (run_index a1 am t q j) at) = run_index b1 bm t q j"
      unfolding at_def bt_def using len q that by (intro run_index_shift) auto
    show "lin src (plusV bt (minusV (run_index a1 am t q j) at)) = S q + j"
      unfolding sh using run_index_lin [of b1 s1 q j nm t sm bm] that q len
      by (simp add: S_def src_def bt_def)
    have "in_block bt ?n (run_index b1 bm t q j)"
      unfolding bt_def using len that by (intro run_index_in_block) auto
    then show "inside (plusV bt (minusV (run_index a1 am t q j) at)) src"
      unfolding sh using fs by (auto simp: src_def bt_def intro: fits_inside)
  qed
  have bound: "D q + ?l \<le> product_of dst" "S q + ?l \<le> product_of src" if q: "inside q n1" for q
  proof -
    let ?j = "?l - 1"
    have j: "?j < ?l" using l by simp
    have "inside (run_index a1 am t q ?j) dst"
      using point(1) [OF q j] fd by (auto simp: dst_def at_def intro: fits_inside)
    then show "D q + ?l \<le> product_of dst" using lin_bound point(2) [OF q j] l by fastforce
    show "S q + ?l \<le> product_of src" using lin_bound [OF point(4) [OF q j]] point(3) [OF q j] l by simp
  qed
  have cov: "\<exists>q. inside q n1 \<and> D q \<le> lin dst idx \<and> lin dst idx < D q + ?l" if "in_block at ?n idx" for idx
  proof -
    have "\<exists>q j. inside q n1 \<and> j < ?l \<and> idx = run_index a1 am t q j"
      using in_block_run_index [OF len(1)] that by (simp only: at_def)
    then obtain q j where "inside q n1" "j < ?l" "idx = run_index a1 am t q j" by blast
    with point(2) show ?thesis by auto
  qed
  show ?thesis
    unfolding runs_cover_def using point bound cov by fastforce
qed

lemma eachRun_cover:
  assumes fd: "fits dstAt n dstShape" and fs: "fits srcAt n srcShape"
  shows "runs_cover dstShape dstAt srcShape srcAt n (set (eachRun dstShape dstAt srcShape srcAt n))"
proof (cases "length n = 0")
  case True
  with fd fs have "dstAt = []" "dstShape = []" "srcAt = []" "srcShape = []" "n = []"
    by (auto dest: fits_length)
  then show ?thesis by (auto simp: runs_cover_def eachRun_def in_block_nth)
next
  case False
  show ?thesis
  proof (cases "product_of n = 0")
    case True
    have "\<not> in_block dstAt n idx" for idx
    proof
      assume "in_block dstAt n idx"
      then have "\<forall>v \<in> set n. 0 < v" by (induction dstAt n idx rule: in_block.induct) auto
      with True show False using product_of_pos by fastforce
    qed
    with True False show ?thesis by (simp add: runs_cover_def eachRun_def)
  next
    case pos: False
    define m where "m = run_dim n dstShape srcShape (length n - 1)"
    define t where "t = drop (Suc m) n"
    have m': "run_dim n dstShape srcShape (length n - Suc 0) = m" by (simp add: m_def)
    have m: "m < length n" "\<And>k. m < k \<Longrightarrow> k < length n \<Longrightarrow> n ! k = dstShape ! k \<and> n ! k = srcShape ! k"
      using run_dim_spec [of n dstShape srcShape "length n - 1"] False
      by (auto simp: m_def intro: le_less_trans [where y = "length n - 1"])
    have n: "n = take m n @ n ! m # t" using split_at [OF m(1)] by (simp add: t_def)
    have d: "dstAt = take m dstAt @ dstAt ! m # zeros (length t)"
      "dstShape = take m dstShape @ dstShape ! m # t"
      unfolding t_def by (rule split_merged [OF fd m(1)]; use m(2) in blast)+
    have s: "srcAt = take m srcAt @ srcAt ! m # zeros (length t)"
      "srcShape = take m srcShape @ srcShape ! m # t"
      unfolding t_def by (rule split_merged [OF fs m(1)]; use m(2) in blast)+
    have len: "length (take m n) = m" "length (take m dstAt) = m" "length (take m dstShape) = m"
      "length (take m srcAt) = m" "length (take m srcShape) = m"
      using m(1) fits_length [OF fd] fits_length [OF fs] by auto
    let ?D = "\<lambda>q. lin dstShape dstAt + dotV q (take m (fst (strides dstShape dstAt)))"
    let ?S = "\<lambda>q. lin srcShape srcAt + dotV q (take m (fst (strides srcShape srcAt)))"
    have lens: "length dstAt = length dstShape" "length srcAt = length srcShape"
      "length dstShape = length n" "length srcShape = length n"
      using fits_length [OF fd] fits_length [OF fs] by auto
    have st: "fst (strides dstShape dstAt) ! m = product_of t"
    proof -
      have "fst (strides (take m dstShape @ dstShape ! m # t) (take m dstAt @ dstAt ! m # zeros (length t))) ! m
          = product_of t"
        using strides_spec [of "take m dstAt" "take m dstShape"] len
        by (subst strides_append) (auto simp: nth_append strides_Cons simp del: strides.simps)
      then show ?thesis using d by simp
    qed
    have pn: "\<forall>v \<in> set (take m n). 0 < v" using prod_pos_all [of n] pos by (auto dest: in_set_takeD)
    have z: "zeros m = zeros (length (take m n))" using len(1) by simp
    have ins: "inside (zeros m) (take m n)"
      using pn len(1) by (auto simp: list_all2_conv_all_nth all_set_conv_all_nth)
    have "eachRun dstShape dstAt srcShape srcAt n =
        run_loop (take m n) (take m (fst (strides dstShape dstAt))) (take m (fst (strides srcShape srcAt)))
          (n ! m * product_of t) (zeros m) (?D (zeros m)) (?S (zeros m))"
      using False pos strides_spec [OF lens(1)] strides_spec [OF lens(2)] st
      by (simp add: eachRun_def Let_def m' case_prod_unfold)
    also have "\<dots> = map (\<lambda>q. (?D q, ?S q, n ! m * product_of t))
        (odometer (zeros (length (take m n))) (minusOne (take m n)) (zeros m))"
      using ins len strides_spec [OF lens(1)] strides_spec [OF lens(2)] lens m(1)
      by (intro run_loop_eq) auto
    also have "\<dots> = map (\<lambda>q. (?D q, ?S q, n ! m * product_of t))
        (eachIndex_order (zeros (length (take m n))) (minusOne (take m n)))"
      using len(1) by (simp add: eachIndex_order_def)
    finally have "set (eachRun dstShape dstAt srcShape srcAt n) =
        (\<lambda>q. (?D q, ?S q, n ! m * product_of t)) ` {q. inside q (take m n)}"
      using set_eachIndex_order [OF le_origin, of "take m n"] between_origin [OF pn] by simp
    moreover have "runs_cover (take m dstShape @ dstShape ! m # t) (take m dstAt @ dstAt ! m # zeros (length t))
        (take m srcShape @ srcShape ! m # t) (take m srcAt @ srcAt ! m # zeros (length t))
        (take m n @ n ! m # t)
        ((\<lambda>q. (lin (take m dstShape @ dstShape ! m # t) (take m dstAt @ dstAt ! m # zeros (length t)) +
                 dotV q (take (length (take m n)) (fst (strides (take m dstShape @ dstShape ! m # t)
                   (take m dstAt @ dstAt ! m # zeros (length t))))),
               lin (take m srcShape @ srcShape ! m # t) (take m srcAt @ srcAt ! m # zeros (length t)) +
                 dotV q (take (length (take m n)) (fst (strides (take m srcShape @ srcShape ! m # t)
                   (take m srcAt @ srcAt ! m # zeros (length t))))),
               n ! m * product_of t)) ` {q. inside q (take m n)})"
      using fd fs pos n d s len by (intro runs_cover_split) (simp_all flip: n d s)
    ultimately show ?thesis using len(1) by (simp flip: n d s)
  qed
qed

theorem copyBlock_spec:
  assumes fd: "fits dstAt n dstShape" and fs: "fits srcAt n srcShape"
    and ld: "length dst = product_of dstShape" and ls: "length src = product_of srcShape"
  shows "\<exists>r. copyBlock dst dstShape dstAt src srcShape srcAt n = Inr r \<and> length r = length dst \<and>
           (\<forall>idx. inside idx dstShape \<longrightarrow>
              r ! lin dstShape idx =
                (if in_block dstAt n idx then src ! lin srcShape (plusV srcAt (minusV idx dstAt))
                 else dst ! lin dstShape idx))"
proof -
  define g where "g x = src ! lin srcShape (plusV srcAt (minusV (unlin dstShape x) dstAt))" for x
  let ?runs = "eachRun dstShape dstAt srcShape srcAt n"
  have cov: "runs_cover dstShape dstAt srcShape srcAt n (set ?runs)"
    using fd fs by (rule eachRun_cover)
  have g: "g (lin dstShape idx) = src ! lin srcShape (plusV srcAt (minusV idx dstAt))"
    if "in_block dstAt n idx" for idx
    using that fits_inside [OF fd that] by (simp add: g_def unlin_lin)
  have "\<forall>(di, si, l) \<in> set ?runs. di + l \<le> length dst \<and> si + l \<le> length src \<and>
          (\<forall>j < l. src ! (si + j) = g (di + j))"
    using cov g unfolding runs_cover_def ld ls by fastforce
  from copy_runs [OF this] obtain r where r: "rfold (copy_run src) ?runs dst = Inr r" "length r = length dst"
    "\<And>x. x < length dst \<Longrightarrow>
       r ! x = (if \<exists>(di, si, l) \<in> set ?runs. di \<le> x \<and> x < di + l then g x else dst ! x)" by blast
  have iff: "(\<exists>(di, si, l) \<in> set ?runs. di \<le> lin dstShape idx \<and> lin dstShape idx < di + l)
      \<longleftrightarrow> in_block dstAt n idx" if "inside idx dstShape" for idx
  proof
    assume "\<exists>(di, si, l) \<in> set ?runs. di \<le> lin dstShape idx \<and> lin dstShape idx < di + l"
    then obtain di si l where run: "(di, si, l) \<in> set ?runs" "di \<le> lin dstShape idx" "lin dstShape idx < di + l"
      by blast
    then have "lin dstShape idx - di < l" by simp
    with cov run obtain i where "in_block dstAt n i" "lin dstShape i = di + (lin dstShape idx - di)"
      unfolding runs_cover_def by blast
    with run that fits_inside [OF fd] show "in_block dstAt n idx" using lin_inj by fastforce
  qed (use cov in \<open>auto simp: runs_cover_def\<close>)
  show ?thesis
    using r iff g ld lin_bound by (intro exI [of _ r]) (auto simp: copyBlock_def)
qed

lemma fillBlock_spec:
  assumes f: "fits at n shape" and l: "length dst = product_of shape"
  shows "\<exists>r. fillBlock dst shape at n v = Inr r \<and> length r = length dst \<and>
           (\<forall>idx. inside idx shape \<longrightarrow>
              r ! lin shape idx = (if in_block at n idx then v else dst ! lin shape idx))"
proof -
  let ?runs = "eachRun shape at shape at n"
  have cov: "runs_cover shape at shape at n (set ?runs)" using f f by (rule eachRun_cover)
  then have "\<forall>(di, si, k) \<in> set ?runs. di + k \<le> length dst"
    unfolding runs_cover_def l by fastforce
  from fill_runs [OF this, of v] obtain r where r: "rfold (fill_run v) ?runs dst = Inr r" "length r = length dst"
    "\<And>x. x < length dst \<Longrightarrow>
       r ! x = (if \<exists>(di, si, k) \<in> set ?runs. di \<le> x \<and> x < di + k then v else dst ! x)" by blast
  have iff: "(\<exists>(di, si, k) \<in> set ?runs. di \<le> lin shape idx \<and> lin shape idx < di + k)
      \<longleftrightarrow> in_block at n idx" if "inside idx shape" for idx
  proof
    assume "\<exists>(di, si, k) \<in> set ?runs. di \<le> lin shape idx \<and> lin shape idx < di + k"
    then obtain di si k where run: "(di, si, k) \<in> set ?runs" "di \<le> lin shape idx" "lin shape idx < di + k"
      by blast
    then have "lin shape idx - di < k" by simp
    with cov run obtain i where "in_block at n i" "lin shape i = di + (lin shape idx - di)"
      unfolding runs_cover_def by blast
    with run that fits_inside [OF f] show "in_block at n idx" using lin_inj by fastforce
  qed (use cov in \<open>auto simp: runs_cover_def\<close>)
  show ?thesis
    using r iff l lin_bound by (intro exI [of _ r]) (auto simp: fillBlock_def)
qed

end
