(* ===== verification/Tiles.thy ===== *)
theory Tiles
  imports Blocks
begin

text \<open>
  A grid of tiles over an array: which tile an index is in and where in it, for the chunks of
  an array and for the chunks of a shard. The source has these as divisions and remainders of
  each dimension (\<open>perShard\<close> and \<open>times\<close> of \<open>src/shard.go\<close>, \<open>region.grid\<close> and \<open>region.local\<close> of
  \<open>src/array.go\<close>).
\<close>

definition divV :: "vec \<Rightarrow> vec \<Rightarrow> vec" where
  "divV a b = map2 (div) a b"

definition modV :: "vec \<Rightarrow> vec \<Rightarrow> vec" where
  "modV a b = map2 (mod) a b"

lemma length_divV [simp]: "length (divV a b) = min (length a) (length b)"
  by (simp add: divV_def)

lemma length_modV [simp]: "length (modV a b) = min (length a) (length b)"
  by (simp add: modV_def)

lemma nth_divV [simp]: "k < length a \<Longrightarrow> k < length b \<Longrightarrow> divV a b ! k = a ! k div b ! k"
  by (simp add: divV_def)

lemma nth_modV [simp]: "k < length a \<Longrightarrow> k < length b \<Longrightarrow> modV a b ! k = a ! k mod b ! k"
  by (simp add: modV_def)

abbreviation positive :: "vec \<Rightarrow> bool" where
  "positive cs \<equiv> \<forall>v \<in> set cs. 0 < v"

lemma positive_nth: "positive cs \<longleftrightarrow> (\<forall>k < length cs. 0 < cs ! k)"
  by (simp add: all_set_conv_all_nth)

text \<open>An index is in the tile of its quotients, at its remainders, and in no other.\<close>

lemma tile_iff:
  assumes "positive cs" "length idx = length cs" "length l = length cs"
  shows "in_block (timesV l cs) cs idx \<longleftrightarrow> divV idx cs = l"
proof -
  have "l ! k * cs ! k \<le> idx ! k \<and> idx ! k < l ! k * cs ! k + cs ! k \<longleftrightarrow> idx ! k div cs ! k = l ! k"
    if "k < length cs" for k
  proof
    assume "l ! k * cs ! k \<le> idx ! k \<and> idx ! k < l ! k * cs ! k + cs ! k"
    then show "idx ! k div cs ! k = l ! k" by (intro div_nat_eqI) (auto simp: algebra_simps)
  next
    assume a: "idx ! k div cs ! k = l ! k"
    have "0 < cs ! k" using assms that by simp
    then have "idx ! k mod cs ! k < cs ! k" by simp
    then show "l ! k * cs ! k \<le> idx ! k \<and> idx ! k < l ! k * cs ! k + cs ! k"
      using div_mult_mod_eq [of "idx ! k" "cs ! k"] by (simp add: a)
  qed
  with assms show ?thesis by (auto simp: in_block_nth list_eq_iff_nth_eq)
qed

lemma tile_offset:
  "positive cs \<Longrightarrow> length idx = length cs \<Longrightarrow> minusV idx (timesV (divV idx cs) cs) = modV idx cs"
  by (rule nth_equalityI) (auto simp: minus_div_mult_eq_mod)

lemma modV_inside: "positive cs \<Longrightarrow> length idx = length cs \<Longrightarrow> inside (modV idx cs) cs"
  by (simp add: list_all2_conv_all_nth)

lemma tile_index:
  "length idx = length cs \<Longrightarrow> plusV (timesV (divV idx cs) cs) (modV idx cs) = idx"
  by (rule nth_equalityI) (auto simp: div_mult_mod_eq)

text \<open>Tiles that fill an array exactly.\<close>

lemma tile_fits:
  assumes "positive cs" "length shape = length cs" "inside l (divV shape cs)"
  shows "fits (timesV l cs) cs shape"
  unfolding fits_nth
proof (intro conjI allI impI)
  fix k assume k: "k < length shape"
  with assms have "l ! k < shape ! k div cs ! k" "length l = length cs"
    by (auto simp: list_all2_conv_all_nth)
  then have "Suc (l ! k) * cs ! k \<le> shape ! k div cs ! k * cs ! k" by (intro mult_le_mono1) simp
  also have "\<dots> \<le> shape ! k" by simp
  finally show "timesV l cs ! k + cs ! k \<le> shape ! k" using k assms \<open>length l = length cs\<close> by simp
qed (use assms in \<open>auto dest: list_all2_lengthD\<close>)

lemma tile_inside:
  assumes "positive cs" "length shape = length cs" "list_all2 (\<lambda>s c. s mod c = 0) shape cs" "inside idx shape"
  shows "inside (divV idx cs) (divV shape cs)"
proof -
  have "idx ! k div cs ! k < shape ! k div cs ! k" if "k < length cs" for k
  proof -
    have "idx ! k < shape ! k" "shape ! k mod cs ! k = 0" "0 < cs ! k"
      using assms that by (auto simp: list_all2_conv_all_nth)
    then show ?thesis by (metis div_mult_mod_eq add_0_right less_mult_imp_div_less)
  qed
  with assms show ?thesis by (auto simp: list_all2_conv_all_nth)
qed

text \<open>What \<open>copyBlock\<close> makes of a block of its source, and of a block of its destination.\<close>

lemma copyBlock_out:
  assumes "fits at n shape" "length src = product_of shape" "length dst = product_of n"
  shows "\<exists>r. copyBlock dst n (zeros (length n)) src shape at n = Inr r \<and> length r = product_of n \<and>
           (\<forall>o'. inside o' n \<longrightarrow> r ! lin n o' = src ! lin shape (plusV at o'))"
proof -
  obtain r where r: "copyBlock dst n (zeros (length n)) src shape at n = Inr r" "length r = length dst"
    "\<And>idx. inside idx n \<Longrightarrow> r ! lin n idx = (if in_block (zeros (length n)) n idx
        then src ! lin shape (plusV at (minusV idx (zeros (length n)))) else dst ! lin n idx)"
    using copyBlock_spec [OF fits_zeros assms(1,3,2)] by blast
  moreover have "minusV o' (zeros (length n)) = o'" if "inside o' n" for o'
    using that by (intro nth_equalityI) (auto dest: list_all2_lengthD)
  ultimately show ?thesis using assms(3) by (auto simp: in_block_zeros)
qed

lemma copyBlock_in:
  assumes "fits at n shape" "length src = product_of n" "length dst = product_of shape"
  shows "\<exists>r. copyBlock dst shape at src n (zeros (length n)) n = Inr r \<and> length r = product_of shape \<and>
           (\<forall>idx. inside idx shape \<longrightarrow>
              r ! lin shape idx = (if in_block at n idx then src ! lin n (minusV idx at) else dst ! lin shape idx))"
proof -
  obtain r where r: "copyBlock dst shape at src n (zeros (length n)) n = Inr r" "length r = length dst"
    "\<And>idx. inside idx shape \<Longrightarrow> r ! lin shape idx = (if in_block at n idx
        then src ! lin n (plusV (zeros (length n)) (minusV idx at)) else dst ! lin shape idx)"
    using copyBlock_spec [OF assms(1) fits_zeros assms(3,2)] by blast
  moreover have "plusV (zeros (length n)) (minusV idx at) = minusV idx at" if "in_block at n idx" for idx
    using in_block_length [OF that] by (intro nth_equalityI) auto
  ultimately show ?thesis using assms(3) by (intro exI [of _ r]) auto
qed

end
