(* ===== verification/Shards.thy ===== *)
theory Shards
  imports Codecs Tiles "HOL-Library.Product_Lexorder"
begin

text \<open>
  The sharding codec (\<open>src/shard.go\<close>): many chunks in one stored object, laid end to end, with
  an index of where each is. The pipelines the chunks and the index are encoded through are
  fields of the record \<open>shard\<close>; what the codec relies on of them is the locale
  \<open>array_codec\<close>. An element of a chunk list is \<open>None\<close> where the source has \<open>nil\<close>.

  The lemmas: an index passes \<open>checkIndex\<close> exactly when every chunk it holds is within the
  shard and no two overlap; \<open>split\<close> is the inverse of \<open>assemble\<close>; and a shard decodes to the
  elements that were encoded.
\<close>

type_synonym encoder = "slice \<Rightarrow> chunkSpec \<Rightarrow> bytes res"
type_synonym decoder = "bytes \<Rightarrow> chunkSpec \<Rightarrow> slice res"

record shard =
  chunkShape :: vec
  atStart :: bool
  innerEnc :: encoder
  innerDec :: decoder
  indexEnc :: encoder
  indexDec :: decoder

definition noChunk :: "64 word" where
  "noChunk = maxUint64"

section \<open>The index\<close>

definition perShard :: "vec \<Rightarrow> vec \<Rightarrow> vec res" where
  "perShard cs shape =
     (if length shape \<noteq> length cs then Inl (ErrOther ''shards cannot hold chunks'')
      else if \<not> list_all2 (\<lambda>s c. c \<noteq> 0 \<and> s mod c = 0) shape cs
      then Inl (ErrOther ''shards are not a whole number of chunks'')
      else Inr (divV shape cs))"

definition indexSpec :: "vec \<Rightarrow> chunkSpec" where
  "indexSpec per = \<lparr>spShape = per @ [2], spType = Uint64, spFill = VUint64 noChunk, spKeep = False\<rparr>"

definition encodeIndex :: "shard \<Rightarrow> vec \<Rightarrow> 64 word list \<Rightarrow> bytes res" where
  "encodeIndex s per index = indexEnc s (Slice Uint64 (map VUint64 index)) (indexSpec per)"

fun uint64_of :: "elem \<Rightarrow> 64 word" where
  "uint64_of (VUint64 w) = w"
| "uint64_of _ = 0"

text \<open>\<open>v.([]uint64)\<close> panics if the codec decoded to something else.\<close>

definition decodeIndex :: "shard \<Rightarrow> vec \<Rightarrow> bytes \<Rightarrow> 64 word list res" where
  "decodeIndex s per b =
     rbind (indexDec s b (indexSpec per)) (\<lambda>v.
       if stype v = Uint64 then Inr (map uint64_of (elems v)) else Inl Panic)"

definition indexSize :: "shard \<Rightarrow> vec \<Rightarrow> nat res" where
  "indexSize s per =
     rbind (storedBytes (ints (per @ [2])) Uint64) (\<lambda>_.
     rbind (encodeIndex s per (replicate (2 * product_of per) noChunk)) (\<lambda>b.
       Inr (length b)))"

text \<open>The check of \<open>prepare\<close> that the length of an index does not depend on what is in it.\<close>

definition fixed_index :: "shard \<Rightarrow> unit res" where
  "fixed_index s =
     rbind (encodeIndex s [1, 1, 1] (replicate 6 noChunk)) (\<lambda>empty.
     rbind (encodeIndex s [1, 1, 1] [0, 1, 2, 3, 4, 5]) (\<lambda>full.
       rguard (length empty = length full) (ErrOther ''index codecs must encode to a fixed length'')))"

text \<open>The entry of the k-th chunk: \<open>None\<close> if the shard does not hold it. Offsets and lengths
  are \<open>uint64\<close>.\<close>

definition entrySpan :: "64 word list \<Rightarrow> nat \<Rightarrow> 64 word \<Rightarrow> (64 word \<times> 64 word) option res" where
  "entrySpan index k sz =
     (if length index \<le> 2 * k + 1 then Inl Panic
      else
        (let off = index ! (2 * k); n = index ! (2 * k + 1)
         in if off = noChunk \<and> n = noChunk then Inr None
            else if off > sz \<or> n > sz - off then Inl (ErrOther ''shard index puts a chunk past the end'')
            else Inr (Some (off, n))))"

definition entry :: "64 word list \<Rightarrow> nat \<Rightarrow> bytes \<Rightarrow> bytes option res" where
  "entry index k data =
     rbind (entrySpan index k (of_nat (length data))) (\<lambda>e.
       case e of
         None \<Rightarrow> Inr None
       | Some (off, n) \<Rightarrow>
           if unat off \<le> unat (off + n) \<and> unat (off + n) \<le> length data
           then Inr (Some (take (unat (off + n) - unat off) (drop (unat off) data)))
           else Inl Panic)"

definition collect_spans :: "64 word list \<Rightarrow> 64 word \<Rightarrow> 64 word \<Rightarrow> (64 word \<times> 64 word) list res" where
  "collect_spans index lo hi =
     rfold (\<lambda>k spans. rbind (entrySpan index k hi) (\<lambda>e.
              case e of
                None \<Rightarrow> Inr spans
              | Some (off, n) \<Rightarrow>
                  if off < lo then Inl (ErrOther ''shard index puts a chunk inside the index'')
                  else Inr (spans @ [(off, n)])))
       [0 ..< length index div 2] []"

fun check_spans :: "(64 word \<times> 64 word) list \<Rightarrow> 64 word \<Rightarrow> unit res" where
  "check_spans [] e = Inr ()"
| "check_spans ((off, n) # spans) e =
     (if off < e then Inl (ErrOther ''shard index puts a chunk over another'')
      else check_spans spans (max e (off + n)))"

text \<open>\<open>slices.SortFunc\<close> by offset, then length: the order of pairs, which is total.\<close>

definition checkIndex :: "64 word list \<Rightarrow> 64 word \<Rightarrow> 64 word \<Rightarrow> unit res" where
  "checkIndex index lo hi = rbind (collect_spans index lo hi) (\<lambda>spans. check_spans (sort spans) 0)"

section \<open>Putting a shard together and taking it apart\<close>

text \<open>The index of chunks laid end to end from \<open>n\<close>, and where they end.\<close>

fun place :: "nat \<Rightarrow> bytes option list \<Rightarrow> 64 word list \<times> nat" where
  "place n [] = ([], n)"
| "place n (None # chunks) = (let (ix, m) = place n chunks in (noChunk # noChunk # ix, m))"
| "place n (Some b # chunks) =
     (let (ix, m) = place (n + length b) chunks in (of_nat n # of_nat (length b) # ix, m))"

definition join_chunks :: "bytes option list \<Rightarrow> bytes" where
  "join_chunks chunks = concat (map (\<lambda>b. case b of None \<Rightarrow> [] | Some b \<Rightarrow> b) chunks)"

definition assemble :: "shard \<Rightarrow> vec \<Rightarrow> bytes option list \<Rightarrow> bytes res" where
  "assemble s per chunks =
     rbind (indexSize s per) (\<lambda>sz.
       let start = (if atStart s then sz else 0);
           (index, n) = place start chunks
       in rbind (encodeIndex s per index) (\<lambda>ix.
            Inr ((if atStart s then ix else []) @ join_chunks chunks @ (if atStart s then [] else ix))))"

definition indexOf :: "shard \<Rightarrow> bytes \<Rightarrow> nat \<Rightarrow> bytes res" where
  "indexOf s data sz =
     (if length data < sz then Inl (ErrOther ''shard has no index'')
      else if atStart s then Inr (take sz data)
      else Inr (drop (length data - sz) data))"

text \<open>What \<open>split\<close> and \<open>DecodeArray\<close> both do first: find the index, decode it and check it.\<close>

definition readIndex :: "shard \<Rightarrow> vec \<Rightarrow> bytes \<Rightarrow> 64 word list res" where
  "readIndex s per data =
     rbind (indexSize s per) (\<lambda>sz.
     rbind (indexOf s data sz) (\<lambda>ib.
     rbind (decodeIndex s per ib) (\<lambda>index.
       let (lo, hi) = (if atStart s then (of_nat sz, of_nat (length data))
                       else (0, of_nat (length data - sz)))
       in rbind (checkIndex index lo hi) (\<lambda>_. Inr index))))"

definition split_shard :: "shard \<Rightarrow> vec \<Rightarrow> bytes \<Rightarrow> bytes option list res" where
  "split_shard s per data =
     rbind (readIndex s per data) (\<lambda>index.
       rmap (\<lambda>k. entry index k data) [0 ..< length index div 2])"

section \<open>Encoding and decoding a shard\<close>

definition innerSpec :: "shard \<Rightarrow> chunkSpec \<Rightarrow> chunkSpec" where
  "innerSpec s spec = spec\<lparr>spShape := chunkShape s\<rparr>"

definition chunkOpsOf :: "slice \<Rightarrow> slice res" where
  "chunkOpsOf chunk = (if known (stype chunk) then Inr chunk else Inl (ErrOther ''a chunk cannot be that''))"

definition extractBlock :: "slice \<Rightarrow> vec \<Rightarrow> vec \<Rightarrow> vec \<Rightarrow> slice res" where
  "extractBlock s shape at n =
     rbind (copyBlock (replicate (product_of n) (zero_of (stype s))) n (zeros (length n)) (elems s) shape at n)
       (\<lambda>out. Inr (Slice (stype s) out))"

definition insertBlock :: "slice \<Rightarrow> vec \<Rightarrow> vec \<Rightarrow> slice \<Rightarrow> vec \<Rightarrow> slice res" where
  "insertBlock s shape at sub n =
     (if stype sub \<noteq> stype s \<or> length (elems sub) \<noteq> product_of n
      then Inl (ErrOther ''chunk decoded to something else'')
      else rbind (copyBlock (elems s) shape at (elems sub) n (zeros (length n)) n)
             (\<lambda>out. Inr (Slice (stype s) out)))"

text \<open>\<open>fill.(T)\<close> panics on a fill value of another type.\<close>

definition ops_allFill :: "slice \<Rightarrow> elem \<Rightarrow> bool res" where
  "ops_allFill s fill = (if type_of fill = stype s then Inr (allFill (elems s) fill) else Inl Panic)"

definition filledAny :: "nat \<Rightarrow> elem \<Rightarrow> slice" where
  "filledAny n fill = Slice (type_of fill) (filled n fill)"

definition encodeChunk :: "shard \<Rightarrow> slice \<Rightarrow> chunkSpec \<Rightarrow> bytes res" where
  "encodeChunk s chunk spec = innerEnc s chunk (innerSpec s spec)"

text \<open>One chunk of a shard being encoded: \<open>None\<close> if it is nothing but fill and is left out.\<close>

definition encode_one :: "shard \<Rightarrow> slice \<Rightarrow> chunkSpec \<Rightarrow> vec \<Rightarrow> bytes option res" where
  "encode_one s shard spec loc =
     rbind (extractBlock shard (spShape spec) (timesV loc (chunkShape s)) (chunkShape s)) (\<lambda>sub.
     rbind (if spKeep spec then Inr False else ops_allFill sub (spFill spec)) (\<lambda>empty.
       if empty then Inr None
       else rbind (encodeChunk s sub spec) (\<lambda>b. Inr (Some b))))"

definition encode_step ::
    "shard \<Rightarrow> slice \<Rightarrow> chunkSpec \<Rightarrow> vec \<Rightarrow> nat \<times> bytes option list \<Rightarrow> (nat \<times> bytes option list) res" where
  "encode_step s shard spec loc st =
     (case st of (k, chunks) \<Rightarrow>
        rbind (encode_one s shard spec loc) (\<lambda>c.
          case c of
            None \<Rightarrow> Inr (Suc k, chunks)
          | Some b \<Rightarrow> if k < length chunks then Inr (Suc k, chunks[k := Some b]) else Inl Panic))"

definition shard_EncodeArray :: "shard \<Rightarrow> slice \<Rightarrow> chunkSpec \<Rightarrow> bytes res" where
  "shard_EncodeArray s chunk spec =
     rbind (perShard (chunkShape s) (spShape spec)) (\<lambda>per.
     rbind (chunkOpsOf chunk) (\<lambda>shard.
     rbind (eachIndex (zeros (length per)) (minusOne per) (encode_step s shard spec)
              (0, replicate (product_of per) None)) (\<lambda>(_, chunks).
       assemble s per chunks)))"

definition decode_step ::
    "shard \<Rightarrow> chunkSpec \<Rightarrow> 64 word list \<Rightarrow> bytes \<Rightarrow> vec \<Rightarrow> nat \<times> slice \<Rightarrow> (nat \<times> slice) res" where
  "decode_step s spec index data loc st =
     (case st of (k, out) \<Rightarrow>
        rbind (entry index k data) (\<lambda>e.
          case e of
            None \<Rightarrow> Inr (Suc k, out)
          | Some b \<Rightarrow>
              rbind (innerDec s b (innerSpec s spec)) (\<lambda>sub.
              rbind (insertBlock out (spShape spec) (timesV loc (chunkShape s)) sub (chunkShape s)) (\<lambda>out.
                Inr (Suc k, out)))))"

definition shard_DecodeArray :: "shard \<Rightarrow> bytes \<Rightarrow> chunkSpec \<Rightarrow> slice res" where
  "shard_DecodeArray s data spec =
     rbind (perShard (chunkShape s) (spShape spec)) (\<lambda>per.
     rbind (storedBytes (ints (spShape spec)) (spType spec)) (\<lambda>_.
     rbind (readIndex s per data) (\<lambda>index.
     rbind (chunkOpsOf (filledAny (product_of (spShape spec)) (spFill spec))) (\<lambda>out.
     rbind (eachIndex (zeros (length per)) (minusOne per) (decode_step s spec index data) (0, out)) (\<lambda>(_, out).
       Inr out)))))"

section \<open>The check of an index\<close>

definition apart :: "64 word \<times> 64 word \<Rightarrow> 64 word \<times> 64 word \<Rightarrow> bool" where
  "apart a b \<longleftrightarrow> unat (fst a) + unat (snd a) \<le> unat (fst b) \<or> unat (fst b) + unat (snd b) \<le> unat (fst a)"

text \<open>The span of the k-th chunk, if the index holds one.\<close>

definition held :: "64 word list \<Rightarrow> nat \<Rightarrow> (64 word \<times> 64 word) option" where
  "held index k =
     (let off = index ! (2 * k); n = index ! (2 * k + 1)
      in if off = noChunk \<and> n = noChunk then None else Some (off, n))"

definition within :: "64 word \<Rightarrow> 64 word \<Rightarrow> 64 word \<times> 64 word \<Rightarrow> bool" where
  "within lo hi p \<longleftrightarrow> lo \<le> fst p \<and> unat (fst p) + unat (snd p) \<le> unat hi"

text \<open>What \<open>checkIndex\<close> is for: every chunk within the bounds, no two over each other.\<close>

definition sound_index :: "64 word list \<Rightarrow> 64 word \<Rightarrow> 64 word \<Rightarrow> bool" where
  "sound_index index lo hi \<longleftrightarrow>
     (\<forall>k < length index div 2. \<forall>p. held index k = Some p \<longrightarrow> within lo hi p) \<and>
     (\<forall>i j. i < j \<longrightarrow> j < length index div 2 \<longrightarrow>
        (\<forall>p q. held index i = Some p \<longrightarrow> held index j = Some q \<longrightarrow> apart p q))"

lemma entrySpan_Inr_iff:
  assumes "k < length index div 2"
  shows "entrySpan index k sz = Inr e \<longleftrightarrow>
           e = held index k \<and> (\<forall>p. held index k = Some p \<longrightarrow> unat (fst p) + unat (snd p) \<le> unat sz)"
proof -
  have l: "\<not> length index \<le> 2 * k + 1" using assms by linarith
  have w: "\<not> (sz < off \<or> sz - off < n) \<longleftrightarrow> unat off + unat n \<le> unat sz" for off n :: "64 word"
    by (auto simp: word_less_nat_alt word_le_nat_alt not_less unat_sub)
  show ?thesis
    unfolding entrySpan_def held_def Let_def using l w by (auto split: if_splits)
qed

lemma collect_spans_Inr_iff:
  "\<forall>k \<in> set ks. k < length index div 2 \<Longrightarrow>
     rfold (\<lambda>k spans. rbind (entrySpan index k hi) (\<lambda>e.
              case e of
                None \<Rightarrow> Inr spans
              | Some (off, n) \<Rightarrow>
                  if off < lo then Inl (ErrOther ''shard index puts a chunk inside the index'')
                  else Inr (spans @ [(off, n)])))
       ks acc = Inr spans \<longleftrightarrow>
     (\<forall>k \<in> set ks. \<forall>p. held index k = Some p \<longrightarrow> within lo hi p) \<and>
     spans = acc @ List.map_filter (held index) ks"
proof (induction ks arbitrary: acc)
  case (Cons k ks)
  show ?case
  proof (cases "held index k")
    case None
    then have "entrySpan index k hi = Inr None" using Cons.prems by (simp add: entrySpan_Inr_iff)
    with None Cons show ?thesis by (simp add: map_filter_simps)
  next
    case (Some p)
    show ?thesis
    proof (cases "unat (fst p) + unat (snd p) \<le> unat hi")
      case True
      then have "entrySpan index k hi = Inr (Some p)" using Some Cons.prems by (simp add: entrySpan_Inr_iff)
      with Some True Cons show ?thesis
        by (cases p) (auto simp: map_filter_simps within_def not_less not_le)
    next
      case False
      then have "\<nexists>e. entrySpan index k hi = Inr e" using Some Cons.prems by (simp add: entrySpan_Inr_iff)
      then obtain err where "entrySpan index k hi = Inl err" by (cases "entrySpan index k hi") auto
      with Some False show ?thesis by (auto simp: within_def)
    qed
  qed
qed (auto simp: map_filter_simps)

definition before :: "64 word \<times> 64 word \<Rightarrow> 64 word \<times> 64 word \<Rightarrow> bool" where
  "before p q \<longleftrightarrow> unat (fst p) + unat (snd p) \<le> unat (fst q)"

lemma unat_plus_fits: "unat a + unat b < 2 ^ 64 \<Longrightarrow> unat (a + b) = unat a + unat (b :: 64 word)"
  by (simp add: unat_word_ariths)

lemma check_spans_Inr_iff:
  "\<forall>p \<in> set spans. unat (fst p) + unat (snd p) < 2 ^ 64 \<Longrightarrow>
     check_spans spans e = Inr u \<longleftrightarrow> (\<forall>p \<in> set spans. e \<le> fst p) \<and> sorted_wrt before spans"
proof (induction spans e rule: check_spans.induct)
  case (2 off n spans e)
  have f: "unat (off + n) = unat off + unat n" using 2(2) by (simp add: unat_plus_fits)
  have "(\<forall>p \<in> set spans. max e (off + n) \<le> fst p) \<longleftrightarrow>
      (\<forall>p \<in> set spans. e \<le> fst p) \<and> (\<forall>p \<in> set spans. before (off, n) p)"
    by (auto simp: before_def max.bounded_iff f simp flip: f word_le_nat_alt)
  moreover have "e \<le> fst p" if "e \<le> off" "before (off, n) p" for p
    using that by (simp add: before_def word_le_nat_alt)
  moreover have "check_spans ((off, n) # spans) e = Inr u \<longleftrightarrow>
      e \<le> off \<and> (\<forall>p \<in> set spans. max e (off + n) \<le> fst p) \<and> sorted_wrt before spans"
  proof (cases "off < e")
    case False
    with 2 have "check_spans spans (max e (off + n)) = Inr u \<longleftrightarrow>
        (\<forall>p \<in> set spans. max e (off + n) \<le> fst p) \<and> sorted_wrt before spans" by simp
    moreover have "e \<le> off" using False by simp
    ultimately show ?thesis by (simp only: check_spans.simps False if_False simp_thms)
  qed (simp add: not_le)
  ultimately show ?case by (simp only: list.set ball_simps fst_conv sorted_wrt.simps) blast
qed simp

lemma before_apart: "p \<le> q \<Longrightarrow> apart p q \<longleftrightarrow> before p q"
  by (cases p; cases q) (auto simp: apart_def before_def less_eq_prod_def word_le_nat_alt word_less_nat_alt)

lemma apart_sym: "apart p q \<Longrightarrow> apart q p"
  by (auto simp: apart_def)

lemma sorted_wrt_mset:
  "mset xs = mset ys \<Longrightarrow> (\<And>x y. P x y \<Longrightarrow> P y x) \<Longrightarrow> sorted_wrt P xs \<Longrightarrow> sorted_wrt P ys"
proof (induction ys arbitrary: xs)
  case (Cons y ys)
  then have "y \<in> set xs" by (metis list.set_intros(1) set_mset_mset)
  then obtain as bs where xs: "xs = as @ y # bs" by (meson split_list)
  with Cons.prems(1) have m: "mset (as @ bs) = mset ys" by simp
  have "sorted_wrt P (as @ bs)" using Cons.prems(3) by (simp add: xs sorted_wrt_append)
  with Cons m have "sorted_wrt P ys" by blast
  moreover have "\<forall>z \<in> set ys. P y z"
  proof
    fix z assume "z \<in> set ys"
    then have "z \<in> set as \<union> set bs" using m by (metis set_append set_mset_mset)
    then show "P y z" using Cons.prems(2,3) by (auto simp: xs sorted_wrt_append)
  qed
  ultimately show ?case by simp
qed simp

lemma sorted_wrt_map_filter:
  "sorted_wrt P (List.map_filter f ks) \<longleftrightarrow>
     sorted_wrt (\<lambda>i j. \<forall>p q. f i = Some p \<longrightarrow> f j = Some q \<longrightarrow> P p q) ks"
proof (induction ks)
  case (Cons k ks)
  have "x \<in> set (List.map_filter f ks) \<longleftrightarrow> (\<exists>j \<in> set ks. f j = Some x)" for x
    by (force simp: map_filter_def)
  with Cons show ?case by (cases "f k") (auto simp: map_filter_simps)
qed (simp add: map_filter_simps)

lemma sorted_wrt_upt: "sorted_wrt P [0 ..< n] \<longleftrightarrow> (\<forall>i j. i < j \<longrightarrow> j < n \<longrightarrow> P i j)"
  by (auto simp: sorted_wrt_iff_nth_less)

lemma checkIndex_iff: "checkIndex index lo hi = Inr u \<longleftrightarrow> sound_index index lo hi"
proof -
  let ?ks = "[0 ..< length index div 2]" and ?spans = "List.map_filter (held index) [0 ..< length index div 2]"
  have collect: "collect_spans index lo hi = Inr spans \<longleftrightarrow>
      (\<forall>k < length index div 2. \<forall>p. held index k = Some p \<longrightarrow> within lo hi p) \<and> spans = ?spans" for spans
    unfolding collect_spans_def by (subst collect_spans_Inr_iff) auto
  have check: "check_spans (sort ?spans) 0 = Inr u \<longleftrightarrow>
      (\<forall>i j. i < j \<longrightarrow> j < length index div 2 \<longrightarrow>
        (\<forall>p q. held index i = Some p \<longrightarrow> held index j = Some q \<longrightarrow> apart p q))"
    if w: "\<forall>k < length index div 2. \<forall>p. held index k = Some p \<longrightarrow> within lo hi p"
  proof -
    have "unat (fst p) + unat (snd p) < 2 ^ 64" if "p \<in> set ?spans" for p
    proof -
      from that obtain k where "k < length index div 2" "held index k = Some p" by (auto simp: map_filter_def)
      with w have "unat (fst p) + unat (snd p) \<le> unat hi" by (auto simp: within_def)
      also have "\<dots> < 2 ^ 64" using unsigned_less [of hi] by simp
      finally show ?thesis .
    qed
    then have "check_spans (sort ?spans) 0 = Inr u \<longleftrightarrow> sorted_wrt before (sort ?spans)"
      by (subst check_spans_Inr_iff) auto
    also have "\<dots> \<longleftrightarrow> sorted_wrt apart (sort ?spans)"
    proof -
      have "sorted_wrt (\<le>) (sort ?spans)" by (simp add: sorted_sort)
      then show ?thesis by (auto simp: sorted_wrt_iff_nth_less before_apart)
    qed
    also have "\<dots> \<longleftrightarrow> sorted_wrt apart ?spans"
      using sorted_wrt_mset [of "sort ?spans" ?spans apart] sorted_wrt_mset [of ?spans "sort ?spans" apart]
      by (auto dest: apart_sym)
    also have "\<dots> \<longleftrightarrow> sorted_wrt (\<lambda>i j. \<forall>p q. held index i = Some p \<longrightarrow> held index j = Some q \<longrightarrow> apart p q) ?ks"
      by (rule sorted_wrt_map_filter)
    finally show ?thesis unfolding sorted_wrt_upt .
  qed
  have one: "(\<exists>x. (W \<and> x = t) \<and> C x) \<longleftrightarrow> W \<and> C t" for W C and t :: "(64 word \<times> 64 word) list"
    by blast
  show ?thesis
  proof (cases "\<forall>k < length index div 2. \<forall>p. held index k = Some p \<longrightarrow> within lo hi p")
    case True
    with check [OF True] show ?thesis
      unfolding checkIndex_def sound_index_def rbind_Inr_iff collect one by (simp only: simp_thms)
  next
    case False
    then show ?thesis unfolding checkIndex_def sound_index_def rbind_Inr_iff collect one by (simp only: simp_thms)
  qed
qed

section \<open>The contract of an array-to-bytes codec\<close>

text \<open>The elements of a chunk of a spec: of its data type and its shape.\<close>

definition chunk_of :: "chunkSpec \<Rightarrow> slice \<Rightarrow> bool" where
  "chunk_of spec c \<longleftrightarrow> wt_slice c \<and> stype c = spType spec \<and> length (elems c) = product_of (spShape spec)"

text \<open>
  What the package relies on of a codec, for the specs it is \<open>ok\<close> for: it encodes every chunk of
  the spec, what it encoded it
  decodes to elements alike (a shard of -0.0 and a fill value of +0.0 decodes to the latter),
  and what it decodes is a chunk of the spec. No buffer is as long as 2^63 bytes.
\<close>

locale array_codec =
  fixes enc :: "slice \<Rightarrow> chunkSpec \<Rightarrow> bytes res"
    and dec :: "bytes \<Rightarrow> chunkSpec \<Rightarrow> slice res"
    and ok :: "chunkSpec \<Rightarrow> bool"
  assumes decode_encode:
      "ok spec \<Longrightarrow> chunk_of spec c \<Longrightarrow> enc c spec = Inr b \<Longrightarrow> length b < 2 ^ 63 \<Longrightarrow>
         \<exists>c'. dec b spec = Inr c' \<and> veqs (elems c') (elems c)"
    and decode_typed: "ok spec \<Longrightarrow> dec b spec = Inr c \<Longrightarrow> chunk_of spec c"
    and encode_total: "ok spec \<Longrightarrow> chunk_of spec c \<Longrightarrow> \<exists>b. enc c spec = Inr b"

definition bytes_ok :: "string \<Rightarrow> chunkSpec \<Rightarrow> bool" where
  "bytes_ok e spec \<longleftrightarrow>
     (\<exists>sz. storedBytes (ints (spShape spec)) (spType spec) = Inr sz) \<and>
     (\<exists>order. bytes_order e (spType spec) = Inr order)"

lemma bytes_encoded_length:
  assumes "chunk_of spec c" "bytes_EncodeArray m e c spec = Inr b"
  shows "length b = product_of (spShape spec) * dsize (spType spec)"
proof -
  obtain order where "bytes_order e (spType spec) = Inr order"
    using assms(2) by (auto simp: bytes_EncodeArray_def rbind_Inr_iff)
  with assms show ?thesis by (auto simp: chunk_of_def bytes_EncodeArray_eq length_elem_bytes)
qed

interpretation bytes_codec: array_codec "bytes_EncodeArray m e" "bytes_DecodeArray m e" "bytes_ok e" for m e
proof
  fix spec c b
  assume "bytes_ok e spec" "chunk_of spec c" "bytes_EncodeArray m e c spec = Inr b"
  then show "\<exists>c'. bytes_DecodeArray m e b spec = Inr c' \<and> veqs (elems c') (elems c)"
    using bytes_roundtrip [of c spec _ m e b m] by (auto simp: bytes_ok_def chunk_of_def)
next
  fix spec c b
  assume "bytes_DecodeArray m e b spec = Inr c"
  then show "chunk_of spec c" using bytes_DecodeArray_wt [of m e b spec c] by (simp add: chunk_of_def)
next
  fix spec c
  assume "bytes_ok e spec" "chunk_of spec c"
  then show "\<exists>b. bytes_EncodeArray m e c spec = Inr b"
    by (auto simp: bytes_ok_def chunk_of_def bytes_EncodeArray_eq)
qed

text \<open>Elements alike of an integer type are the same.\<close>

lemma veqs_eq: "veqs xs ys \<Longrightarrow> \<forall>x \<in> set xs. \<not> is_float (type_of x) \<Longrightarrow> xs = ys"
  by (auto simp: veqs_nth intro!: nth_equalityI veq_nan_free)

section \<open>Where \<open>assemble\<close> puts the chunks\<close>

lemma join_chunks_simps [simp]:
  "join_chunks [] = []"
  "join_chunks (None # chunks) = join_chunks chunks"
  "join_chunks (Some b # chunks) = b @ join_chunks chunks"
  by (simp_all add: join_chunks_def)

lemma join_chunks_append: "join_chunks (xs @ ys) = join_chunks xs @ join_chunks ys"
  by (simp add: join_chunks_def)

lemma held_simps [simp]:
  "held (a # b # ix) 0 = (if a = noChunk \<and> b = noChunk then None else Some (a, b))"
  "held (a # b # ix) (Suc k) = held ix k"
  by (simp_all add: held_def)

lemma unat_noChunk: "unat noChunk = 2 ^ 64 - 1"
  by (simp add: noChunk_def maxUint64_def unsigned_minus_1_eq_mask mask_eq_exp_minus_1)

lemma unat_of_nat_fits: "n < 2 ^ 64 \<Longrightarrow> unat (of_nat n :: 64 word) = n"
  by (simp add: unat_of_nat)

lemma place_length: "place n chunks = (ix, m) \<Longrightarrow> length ix = 2 * length chunks \<and> m = n + length (join_chunks chunks)"
  by (induction n chunks arbitrary: ix m rule: place.induct) (auto split: prod.splits)

lemma place_held:
  "place n chunks = (ix, m) \<Longrightarrow> n + length (join_chunks chunks) < 2 ^ 63 \<Longrightarrow> k < length chunks \<Longrightarrow>
     held ix k = map_option (\<lambda>b. (of_nat (n + length (join_chunks (take k chunks))), of_nat (length b))) (chunks ! k)"
proof (induction n chunks arbitrary: ix m k rule: place.induct)
  case (2 n chunks)
  then show ?case by (cases k) (auto split: prod.splits)
next
  case (3 n b chunks)
  obtain ix' m' where p: "place (n + length b) chunks = (ix', m')" by fastforce
  with 3 have ix: "ix = of_nat n # of_nat (length b) # ix'" by simp
  have "(of_nat (length b) :: 64 word) \<noteq> noChunk"
  proof
    assume "(of_nat (length b) :: 64 word) = noChunk"
    then have "unat (of_nat (length b) :: 64 word) = 2 ^ 64 - 1" by (simp add: unat_noChunk)
    moreover have "unat (of_nat (length b) :: 64 word) = length b" using 3(3) by (intro unat_of_nat_fits) simp
    ultimately show False using 3(3) by simp
  qed
  with 3 p ix show ?case by (cases k) (auto simp: add.assoc)
qed simp

lemma join_take_le: "k < length chunks \<Longrightarrow> chunks ! k = Some b \<Longrightarrow>
    length (join_chunks (take k chunks)) + length b = length (join_chunks (take (Suc k) chunks))"
  by (simp add: take_Suc_conv_app_nth join_chunks_append)

lemma join_take_mono: "i \<le> j \<Longrightarrow> length (join_chunks (take i chunks)) \<le> length (join_chunks (take j chunks))"
proof -
  assume "i \<le> j"
  then have "take j chunks = take i chunks @ take (j - i) (drop i chunks)"
    by (metis le_add_diff_inverse take_add)
  then show ?thesis by (simp add: join_chunks_append)
qed

lemma join_take_all: "length (join_chunks (take k chunks)) \<le> length (join_chunks chunks)"
  using join_take_mono [of k "max k (length chunks)" chunks] by simp

text \<open>The index of chunks laid end to end is sound, and its entries are the chunks.\<close>

lemma place_sound:
  assumes "place n chunks = (ix, m)" "m < 2 ^ 63" "lo \<le> n" "m \<le> hi" "hi < 2 ^ 63"
  shows "sound_index ix (of_nat lo) (of_nat hi)"
proof -
  let ?at = "\<lambda>k. n + length (join_chunks (take k chunks))"
  have m: "m = n + length (join_chunks chunks)" and l: "length ix = 2 * length chunks"
    using place_length [OF assms(1)] by auto
  have at: "?at k \<le> m" for k using join_take_all [of k chunks] by (simp add: m)
  have held: "unat (fst p) = ?at k \<and> unat (snd p) = ?at (Suc k) - ?at k"
    if k: "k < length chunks" "held ix k = Some p" for k p
  proof -
    have "held ix k = map_option (\<lambda>b. (of_nat (?at k), of_nat (length b))) (chunks ! k)"
      using place_held [OF assms(1) _ k(1)] assms(2) m by simp
    with k obtain b where b: "chunks ! k = Some b" "p = (of_nat (?at k), of_nat (length b))" by auto
    have "?at k + length b = ?at (Suc k)" using join_take_le [OF k(1) b(1)] by simp
    with at [of "Suc k"] assms(2) b show ?thesis by (auto simp: unat_of_nat_fits simp del: of_nat_add)
  qed
  have step: "?at k \<le> ?at (Suc k)" for k using join_take_mono [of k "Suc k" chunks] by simp
  have "within (of_nat lo) (of_nat hi) p" if "k < length chunks" "held ix k = Some p" for k p
    using held [OF that] step [of k] at [of "Suc k"] assms
    by (simp add: within_def word_le_nat_alt unat_of_nat_fits)
  moreover have "apart p q" if "i < j" "j < length chunks" "held ix i = Some p" "held ix j = Some q" for i j p q
    using held [of i p] held [of j q] step [of i] join_take_mono [of "Suc i" j chunks] that
    by (simp add: apart_def)
  ultimately show ?thesis unfolding sound_index_def using l by auto
qed

lemma place_entry:
  assumes "place (length pre) chunks = (ix, m)" "k < length chunks"
    and "length (pre @ join_chunks chunks @ post) < 2 ^ 63"
  shows "entry ix k (pre @ join_chunks chunks @ post) = Inr (chunks ! k)"
proof -
  let ?data = "pre @ join_chunks chunks @ post"
  have l: "length ix = 2 * length chunks" using place_length [OF assms(1)] by simp
  have held: "held ix k = map_option (\<lambda>b. (of_nat (length pre + length (join_chunks (take k chunks))), of_nat (length b)))
      (chunks ! k)"
    using place_held [OF assms(1) _ assms(2)] assms(3) by simp
  show ?thesis
  proof (cases "chunks ! k")
    case None
    with held l assms(2) have "entrySpan ix k (of_nat (length ?data)) = Inr None"
      by (subst entrySpan_Inr_iff) auto
    with None show ?thesis by (simp add: entry_def)
  next
    case (Some b)
    let ?at = "length pre + length (join_chunks (take k chunks))"
    have "?at + length b \<le> length ?data"
      using join_take_le [OF assms(2) Some] join_take_all [of "Suc k" chunks] by simp
    then have b: "?at + length b < 2 ^ 63" "?at + length b \<le> length ?data" using assms(3) by auto
    have u: "unat (of_nat ?at :: 64 word) = ?at" "unat (of_nat (length b) :: 64 word) = length b"
      "unat (of_nat (length ?data) :: 64 word) = length ?data"
      using b assms(3) by (auto intro!: unat_of_nat_fits simp del: length_append of_nat_add)
    have s: "unat (of_nat ?at + of_nat (length b) :: 64 word) = ?at + length b"
      using b u by (subst unat_plus_fits) auto
    have "entrySpan ix k (of_nat (length ?data)) = Inr (Some (of_nat ?at, of_nat (length b)))"
      using held Some l assms(2) b u by (subst entrySpan_Inr_iff) (auto simp del: of_nat_add length_append)
    moreover have "take (length b) (drop ?at ?data) = b"
    proof -
      have "join_chunks chunks = join_chunks (take k chunks) @ b @ join_chunks (drop (Suc k) chunks)"
        using assms(2) Some by (subst id_take_nth_drop [OF assms(2)]) (simp add: join_chunks_append)
      then show ?thesis by simp
    qed
    ultimately show ?thesis using b u s Some by (simp add: entry_def del: of_nat_add length_append)
  qed
qed

section \<open>Blocks of typed chunks\<close>

lemma rfold_invariant:
  "rfold f xs a = Inr b \<Longrightarrow> P a \<Longrightarrow> (\<And>x a b. x \<in> set xs \<Longrightarrow> P a \<Longrightarrow> f x a = Inr b \<Longrightarrow> P b) \<Longrightarrow> P b"
proof (induction xs arbitrary: a)
  case (Cons x xs)
  from Cons.prems(1) obtain c where "f x a = Inr c" "rfold f xs c = Inr b" by (auto simp: rbind_Inr_iff)
  moreover from this have "P c" using Cons.prems(2,3) by (meson list.set_intros(1))
  ultimately show ?case using Cons.IH [of c] Cons.prems(3) by (meson list.set_intros(2))
qed simp

lemma copyBlock_subset:
  assumes "copyBlock dst ds da src ss sa n = Inr r"
  shows "length r = length dst \<and> set r \<subseteq> set dst \<union> set src"
proof (rule rfold_invariant [OF assms [unfolded copyBlock_def]])
  fix run a b
  assume a: "length a = length dst \<and> set a \<subseteq> set dst \<union> set src" "copy_run src run a = Inr b"
  obtain di si l where run: "run = (di, si, l)" by (cases run)
  with a have "di + l \<le> length a" "si + l \<le> length src"
    "b = take di a @ take l (drop si src) @ drop (di + l) a"
    by (auto simp: copy_run_def split: if_splits)
  with a show "length b = length dst \<and> set b \<subseteq> set dst \<union> set src"
    by (auto dest: in_set_takeD in_set_dropD)
qed simp

lemma insertBlock_typed:
  assumes "insertBlock s shape at sub n = Inr r" "wt_slice s" "wt_slice sub"
  shows "wt_slice r \<and> stype r = stype s \<and> length (elems r) = length (elems s)"
proof -
  from assms(1) obtain out where "stype sub = stype s"
    "copyBlock (elems s) shape at (elems sub) n (zeros (length n)) n = Inr out" "r = Slice (stype s) out"
    by (auto simp: insertBlock_def rbind_Inr_iff split: if_splits)
  with copyBlock_subset [OF this(2)] assms(2,3) show ?thesis by (auto simp: wt_slice_def)
qed

lemma insertBlock_spec:
  assumes "stype sub = stype s" "length (elems sub) = product_of n" "length (elems s) = product_of shape"
    and "fits at n shape"
  shows "\<exists>r. insertBlock s shape at sub n = Inr r \<and> stype r = stype s \<and> length (elems r) = product_of shape \<and>
           (\<forall>idx. inside idx shape \<longrightarrow> elems r ! lin shape idx =
              (if in_block at n idx then elems sub ! lin n (minusV idx at) else elems s ! lin shape idx))"
  using copyBlock_in [OF assms(4,2,3)] assms(1,2) by (auto simp: insertBlock_def)

lemma extractBlock_spec:
  assumes "length (elems s) = product_of shape" "fits at n shape" "wt_slice s"
  shows "\<exists>r. extractBlock s shape at n = Inr r \<and> wt_slice r \<and> stype r = stype s \<and> length (elems r) = product_of n \<and>
           (\<forall>o'. inside o' n \<longrightarrow> elems r ! lin n o' = elems s ! lin shape (plusV at o'))"
proof -
  obtain out where o: "copyBlock (replicate (product_of n) (zero_of (stype s))) n (zeros (length n)) (elems s) shape at n = Inr out"
    "length out = product_of n" "\<forall>o'. inside o' n \<longrightarrow> out ! lin n o' = elems s ! lin shape (plusV at o')"
    using copyBlock_out [OF assms(2,1), of "replicate (product_of n) (zero_of (stype s))"] by auto
  moreover have "wt_slice (Slice (stype s) out)"
    using copyBlock_subset [OF o(1)] assms(3) by (auto simp: wt_slice_def)
  ultimately show ?thesis by (auto simp: extractBlock_def)
qed

lemma perShard_Inr:
  "perShard cs shape = Inr per \<longleftrightarrow>
     length shape = length cs \<and> list_all2 (\<lambda>s c. c \<noteq> 0 \<and> s mod c = 0) shape cs \<and> per = divV shape cs"
  by (auto simp: perShard_def dest: list_all2_lengthD)

lemma perShard_positive:
  assumes "perShard cs shape = Inr per" "positive shape"
  shows "positive cs \<and> positive per \<and> length per = length shape \<and> length cs = length shape"
proof -
  have l: "length shape = length cs" "per = divV shape cs"
    and a: "\<And>k. k < length cs \<Longrightarrow> cs ! k \<noteq> 0 \<and> shape ! k mod cs ! k = 0"
    using assms(1) by (auto simp: perShard_Inr list_all2_conv_all_nth)
  have "0 < shape ! k div cs ! k" if "k < length cs" for k
    using a [OF that] assms(2) l that by (metis div_greater_zero_iff dvd_imp_le mod_eq_0_iff_dvd nth_mem neq0_conv)
  with l a show ?thesis by (auto simp: positive_nth)
qed

section \<open>The loops over the chunks of a shard\<close>

lemma encode_steps:
  "k + length ls \<le> length chunks \<Longrightarrow> (\<forall>j. k \<le> j \<longrightarrow> j < length chunks \<longrightarrow> chunks ! j = None) \<Longrightarrow>
     rfold (encode_step s shard spec) ls (k, chunks) =
       rbind (rmap (encode_one s shard spec) ls) (\<lambda>rs. Inr (k + length ls, take k chunks @ rs @ drop (k + length ls) chunks))"
proof (induction ls arbitrary: k chunks)
  case (Cons l ls)
  show ?case
  proof (cases "encode_one s shard spec l")
    case (Inr c)
    define chunks' where "chunks' = chunks[k := c]"
    have "chunks' = (case c of None \<Rightarrow> chunks | Some b \<Rightarrow> chunks[k := Some b])"
      using Cons.prems by (auto simp: chunks'_def list_update_same_conv split: option.splits)
    then have "encode_step s shard spec l (k, chunks) = Inr (Suc k, chunks')"
      using Inr Cons.prems by (auto simp: encode_step_def split: option.splits)
    moreover have "rfold (encode_step s shard spec) ls (Suc k, chunks') =
        rbind (rmap (encode_one s shard spec) ls)
          (\<lambda>rs. Inr (Suc k + length ls, take (Suc k) chunks' @ rs @ drop (Suc k + length ls) chunks'))"
      using Cons.prems by (intro Cons.IH) (auto simp: chunks'_def)
    moreover have "take (Suc k) chunks' = take k chunks @ [c]" "drop (Suc k + length ls) chunks' = drop (Suc k + length ls) chunks"
      using Cons.prems by (auto simp: chunks'_def take_Suc_conv_app_nth)
    ultimately show ?thesis using Inr by (cases "rmap (encode_one s shard spec) ls") simp_all
  next
    case (Inl e)
    then show ?thesis by (simp add: encode_step_def)
  qed
qed simp

text \<open>Decoding the chunks at \<open>ls\<close>: every element of them that the shard holds is the chunk's,
  every other stays.\<close>

lemma decode_steps:
  assumes "distinct ls" "\<forall>l \<in> set ls. inside l (divV shape cs)" "positive cs" "length shape = length cs"
    and "chunkShape s = cs" "spShape spec = shape"
    and "stype out = d" "length (elems out) = product_of shape"
    and "\<forall>j < length ls. (entry index (k + j) data = Inr None \<and> subs j = None) \<or>
           (\<exists>b sub. entry index (k + j) data = Inr (Some b) \<and> subs j = Some sub \<and>
              innerDec s b (innerSpec s spec) = Inr sub \<and> stype sub = d \<and> length (elems sub) = product_of cs)"
  shows "\<exists>out'. rfold (decode_step s spec index data) ls (k, out) = Inr (k + length ls, out') \<and>
           stype out' = d \<and> length (elems out') = product_of shape \<and>
           (\<forall>idx. inside idx shape \<longrightarrow>
              (\<forall>j < length ls. divV idx cs = ls ! j \<longrightarrow> elems out' ! lin shape idx =
                 (case subs j of None \<Rightarrow> elems out ! lin shape idx | Some sub \<Rightarrow> elems sub ! lin cs (modV idx cs))) \<and>
              (divV idx cs \<notin> set ls \<longrightarrow> elems out' ! lin shape idx = elems out ! lin shape idx))"
  using assms(1,2,7-9)
proof (induction ls arbitrary: k out subs)
  case (Cons l ls)
  have ent: "\<forall>j < length ls. (entry index (Suc k + j) data = Inr None \<and> subs (Suc j) = None) \<or>
           (\<exists>b sub. entry index (Suc k + j) data = Inr (Some b) \<and> subs (Suc j) = Some sub \<and>
              innerDec s b (innerSpec s spec) = Inr sub \<and> stype sub = d \<and> length (elems sub) = product_of cs)"
    using Cons.prems(5) by (metis Suc_less_eq add_Suc_shift length_Cons)
  have f: "fits (timesV l cs) cs shape" using Cons.prems(2) assms(3,4) by (intro tile_fits) auto
  obtain out1 where one: "decode_step s spec index data l (k, out) = Inr (Suc k, out1)"
    "stype out1 = d" "length (elems out1) = product_of shape"
    "\<And>idx. inside idx shape \<Longrightarrow> elems out1 ! lin shape idx =
       (if divV idx cs = l then (case subs 0 of None \<Rightarrow> elems out ! lin shape idx | Some sub \<Rightarrow> elems sub ! lin cs (modV idx cs))
        else elems out ! lin shape idx)"
  proof (cases "subs 0")
    case None
    with Cons.prems(5) have "entry index k data = Inr None" by (metis add_0_right length_greater_0_conv list.discI option.discI)
    with None that [of out] Cons.prems(3,4) show thesis by (simp add: decode_step_def)
  next
    case (Some sub)
    with Cons.prems(5) obtain b where b: "entry index k data = Inr (Some b)" "innerDec s b (innerSpec s spec) = Inr sub"
      "stype sub = d" "length (elems sub) = product_of cs"
      by (metis add_0_right length_greater_0_conv list.discI option.discI option.inject)
    then obtain r where r: "insertBlock out shape (timesV l cs) sub cs = Inr r" "stype r = d"
      "length (elems r) = product_of shape"
      "\<And>idx. inside idx shape \<Longrightarrow> elems r ! lin shape idx =
         (if in_block (timesV l cs) cs idx then elems sub ! lin cs (minusV idx (timesV l cs)) else elems out ! lin shape idx)"
      using insertBlock_spec [of sub out cs shape "timesV l cs"] f Cons.prems(3,4) by auto
    have len: "length l = length cs" using Cons.prems(2) assms(4) by (auto dest: list_all2_lengthD)
    have tile: "in_block (timesV l cs) cs idx \<longleftrightarrow> divV idx cs = l" if "inside idx shape" for idx
      using that assms(3,4) len by (intro tile_iff) (auto dest: list_all2_lengthD)
    have off: "minusV idx (timesV l cs) = modV idx cs" if "inside idx shape" "divV idx cs = l" for idx
      using that tile_offset [OF assms(3), of idx] assms(4) by (auto dest: list_all2_lengthD)
    have nth: "elems r ! lin shape idx = (if divV idx cs = l then elems sub ! lin cs (modV idx cs) else elems out ! lin shape idx)"
      if "inside idx shape" for idx
      using r(4) [OF that] tile [OF that] off [OF that] by auto
    show thesis
      using that [of r] r(1-3) nth b Some assms(5,6) by (simp add: decode_step_def)
  qed
  have "\<exists>out'. rfold (decode_step s spec index data) ls (Suc k, out1) = Inr (Suc k + length ls, out') \<and>
           stype out' = d \<and> length (elems out') = product_of shape \<and>
           (\<forall>idx. inside idx shape \<longrightarrow>
              (\<forall>j < length ls. divV idx cs = ls ! j \<longrightarrow> elems out' ! lin shape idx =
                 (case subs (Suc j) of None \<Rightarrow> elems out1 ! lin shape idx | Some sub \<Rightarrow> elems sub ! lin cs (modV idx cs))) \<and>
              (divV idx cs \<notin> set ls \<longrightarrow> elems out' ! lin shape idx = elems out1 ! lin shape idx))"
    using Cons.prems(1,2) one ent by (intro Cons.IH) auto
  then obtain out' where out': "rfold (decode_step s spec index data) ls (Suc k, out1) = Inr (Suc k + length ls, out')"
     "stype out' = d" "length (elems out') = product_of shape"
     "\<And>idx j. inside idx shape \<Longrightarrow> j < length ls \<Longrightarrow> divV idx cs = ls ! j \<Longrightarrow> elems out' ! lin shape idx =
                 (case subs (Suc j) of None \<Rightarrow> elems out1 ! lin shape idx | Some sub \<Rightarrow> elems sub ! lin cs (modV idx cs))"
     "\<And>idx. inside idx shape \<Longrightarrow> divV idx cs \<notin> set ls \<Longrightarrow> elems out' ! lin shape idx = elems out1 ! lin shape idx"
    by blast
  have "elems out' ! lin shape idx =
      (case subs j of None \<Rightarrow> elems out ! lin shape idx | Some sub \<Rightarrow> elems sub ! lin cs (modV idx cs))"
    if idx: "inside idx shape" "j < length (l # ls)" "divV idx cs = (l # ls) ! j" for idx j
  proof (cases j)
    case 0
    then have "divV idx cs = l" "divV idx cs \<notin> set ls" using idx Cons.prems(1) by auto
    with 0 idx out'(5) one(4) show ?thesis by simp
  next
    case (Suc i)
    then have "divV idx cs = ls ! i" "i < length ls" using idx by auto
    moreover from this have "divV idx cs \<noteq> l" using Cons.prems(1) by auto
    ultimately show ?thesis using Suc out'(4) [OF idx(1)] one(4) [OF idx(1)] by (cases "subs j") auto
  qed
  moreover have "elems out' ! lin shape idx = elems out ! lin shape idx"
    if "inside idx shape" "divV idx cs \<notin> set (l # ls)" for idx
    using that out'(5) [of idx] one(4) [of idx] by auto
  ultimately show ?case using one(1) out'(1-3) by auto
qed auto

section \<open>A shard decodes to what was encoded\<close>

text \<open>
  The codec of a shard relies on the pipeline of its chunks and that of its index, and on every
  index of a shape encoding to the same length.
\<close>

locale sharding =
  index: array_codec "indexEnc s" "indexDec s" iok + inner: array_codec "innerEnc s" "innerDec s" ok
  for s :: shard and iok :: "chunkSpec \<Rightarrow> bool" and ok :: "chunkSpec \<Rightarrow> bool" +
  assumes index_fixed:
    "iok (indexSpec per) \<Longrightarrow> length ix = length iy \<Longrightarrow> encodeIndex s per ix = Inr b \<Longrightarrow>
       encodeIndex s per iy = Inr b' \<Longrightarrow> length b = length b'"
begin

lemma decode_index:
  assumes ok: "iok (indexSpec per)" and enc: "encodeIndex s per ix = Inr b"
    and l: "length ix = 2 * product_of per" "length b < 2 ^ 63"
  shows "decodeIndex s per b = Inr ix"
proof -
  let ?c = "Slice Uint64 (map VUint64 ix)"
  have c: "chunk_of (indexSpec per) ?c" using l by (auto simp: chunk_of_def wt_slice_def indexSpec_def)
  with ok enc l obtain c' where c': "indexDec s b (indexSpec per) = Inr c'" "veqs (elems c') (elems ?c)"
    using index.decode_encode unfolding encodeIndex_def by blast
  have t: "chunk_of (indexSpec per) c'" using index.decode_typed [OF ok c'(1)] .
  have "elems c' = elems ?c"
  proof (rule veqs_eq [OF c'(2)])
    show "\<forall>x \<in> set (elems c'). \<not> is_float (type_of x)"
      using t by (auto simp: chunk_of_def wt_slice_def indexSpec_def is_float_def)
  qed
  moreover have "stype c' = Uint64" using t by (simp add: chunk_of_def indexSpec_def)
  ultimately show ?thesis using c'(1) by (simp add: decodeIndex_def o_def)
qed

lemma decode_index_length:
  assumes "iok (indexSpec per)" "decodeIndex s per b = Inr ix"
  shows "length ix = 2 * product_of per"
proof -
  from assms(2) obtain v where "indexDec s b (indexSpec per) = Inr v" "ix = map uint64_of (elems v)"
    by (auto simp: decodeIndex_def rbind_Inr_iff split: if_splits)
  with index.decode_typed [OF assms(1)] show ?thesis by (auto simp: chunk_of_def indexSpec_def)
qed

lemma read_assembled:
  assumes ok: "iok (indexSpec per)" and asm: "assemble s per chunks = Inr data"
    and l: "length chunks = product_of per" "length data < 2 ^ 63"
  shows "\<exists>ix. readIndex s per data = Inr ix \<and> length ix = 2 * length chunks \<and>
           (\<forall>k < length chunks. entry ix k data = Inr (chunks ! k))"
proof -
  from asm obtain sz where sz: "indexSize s per = Inr sz" by (auto simp: assemble_def rbind_Inr_iff)
  define start where "start = (if atStart s then sz else 0)"
  obtain ix m where p: "place start chunks = (ix, m)" by fastforce
  from asm sz p obtain ib where ib: "encodeIndex s per ix = Inr ib"
    and data: "data = (if atStart s then ib else []) @ join_chunks chunks @ (if atStart s then [] else ib)"
    by (auto simp: assemble_def rbind_Inr_iff start_def [symmetric] split: if_splits)
  have lix: "length ix = 2 * length chunks" "m = start + length (join_chunks chunks)" using place_length [OF p] by auto
  from sz obtain b0 where b0: "encodeIndex s per (replicate (2 * product_of per) noChunk) = Inr b0" "length b0 = sz"
    by (auto simp: indexSize_def rbind_Inr_iff)
  have lib: "length ib = sz" using index_fixed [OF ok _ ib b0(1)] b0(2) lix l by simp
  have ld: "length data = sz + length (join_chunks chunks)" using data lib by simp
  have "indexOf s data sz = Inr ib" using data lib ld by (simp add: indexOf_def)
  moreover have "decodeIndex s per ib = Inr ix" using ok ib lix l ld lib by (intro decode_index) auto
  moreover have "sound_index ix (of_nat (if atStart s then sz else 0)) (of_nat (if atStart s then length data else length data - sz))"
    using lix l ld by (intro place_sound [OF p]) (auto simp: start_def)
  then have "checkIndex ix (if atStart s then of_nat sz else 0)
      (if atStart s then of_nat (length data) else of_nat (length data - sz)) = Inr ()"
    by (simp add: checkIndex_iff split: if_splits)
  ultimately have "readIndex s per data = Inr ix"
    using sz by (cases "atStart s") (simp_all add: readIndex_def)
  moreover have "entry ix k data = Inr (chunks ! k)" if "k < length chunks" for k
    unfolding data using p that l(2) data lib
    by (intro place_entry [of _ _ _ m]) (auto simp: start_def split: if_splits)
  ultimately show ?thesis using lix by blast
qed

lemma split_assembled:
  assumes "iok (indexSpec per)" "assemble s per chunks = Inr data"
    and "length chunks = product_of per" "length data < 2 ^ 63"
  shows "split_shard s per data = Inr chunks"
proof -
  obtain ix where ix: "readIndex s per data = Inr ix" "length ix = 2 * length chunks"
    "\<forall>k < length chunks. entry ix k data = Inr (chunks ! k)"
    using read_assembled [OF assms] by blast
  have "rmap (\<lambda>k. entry ix k data) [0 ..< length ix div 2] = Inr chunks"
    using ix by (auto simp: rmap_Inr_iff list_all2_conv_all_nth)
  with ix show ?thesis by (simp add: split_shard_def)
qed

lemma encoded_chunks:
  assumes per: "perShard (chunkShape s) (spShape spec) = Inr per" and pos: "positive (spShape spec)"
    and enc: "shard_EncodeArray s c spec = Inr b"
  shows "\<exists>chunks. rmap (encode_one s c spec) (eachIndex_order (zeros (length per)) (minusOne per)) = Inr chunks \<and>
           length chunks = product_of per \<and> assemble s per chunks = Inr b"
proof -
  let ?L = "eachIndex_order (zeros (length per)) (minusOne per)"
  have pp: "positive per" using perShard_positive [OF per pos] by simp
  have lL: "length ?L = product_of per" using length_eachIndex_order [OF le_origin] spanLen_origin [OF pp] by simp
  from enc per obtain k chunks where fold:
    "rfold (encode_step s c spec) ?L (0, replicate (product_of per) None) = Inr (k, chunks)"
    and asm: "assemble s per chunks = Inr b"
    by (auto simp: shard_EncodeArray_def rbind_Inr_iff eachIndex_def chunkOpsOf_def split: if_splits)
  have "rbind (rmap (encode_one s c spec) ?L) (\<lambda>rs. Inr (product_of per, rs)) = Inr (k, chunks)"
    using encode_steps [of 0 ?L "replicate (product_of per) None" s c spec] lL fold by simp
  with asm lL show ?thesis by (auto simp: rbind_Inr_iff dest: rmap_length)
qed

lemma shard_decode_encode:
  assumes per: "perShard (chunkShape s) (spShape spec) = Inr per" and pos: "positive (spShape spec)"
    and sb: "storedBytes (ints (spShape spec)) (spType spec) = Inr sz"
    and fill: "type_of (spFill spec) = spType spec"
    and iok: "iok (indexSpec per)" and ok: "ok (innerSpec s spec)" and c: "chunk_of spec c"
    and enc: "shard_EncodeArray s c spec = Inr b" and lb: "length b < 2 ^ 63"
  shows "\<exists>c'. shard_DecodeArray s b spec = Inr c' \<and> veqs (elems c') (elems c)"
proof -
  let ?L = "eachIndex_order (zeros (length per)) (minusOne per)"
  let ?cs = "chunkShape s" and ?shape = "spShape spec" and ?ispec = "innerSpec s spec"
  have pp: "positive ?cs" "positive per" "length per = length ?shape" "length ?cs = length ?shape"
    using perShard_positive [OF per pos] by auto
  have per': "list_all2 (\<lambda>s c. s mod c = 0) ?shape ?cs" "per = divV ?shape ?cs"
    using per by (auto simp: perShard_Inr list_all2_conv_all_nth)
  have setL: "set ?L = {l. inside l per}" and dL: "distinct ?L" and lL: "length ?L = product_of per"
    using set_eachIndex_order [OF le_origin] between_origin [OF pp(2)] distinct_eachIndex_order [OF le_origin]
      length_eachIndex_order [OF le_origin] spanLen_origin [OF pp(2)] by auto
  obtain chunks where chunks: "rmap (encode_one s c spec) ?L = Inr chunks" "length chunks = product_of per"
    "assemble s per chunks = Inr b"
    using encoded_chunks [OF per pos enc] by blast
  obtain ix where ix: "readIndex s per b = Inr ix" "\<And>k. k < length chunks \<Longrightarrow> entry ix k b = Inr (chunks ! k)"
    using read_assembled [OF iok chunks(3,2) lb] by blast
  have wt: "wt_slice c" "stype c = spType spec" "length (elems c) = product_of ?shape"
    using c by (auto simp: chunk_of_def)
  have sub: "\<exists>sub. wt_slice sub \<and> stype sub = spType spec \<and> length (elems sub) = product_of ?cs \<and>
      (\<forall>idx. inside idx ?shape \<longrightarrow> divV idx ?cs = ?L ! j \<longrightarrow>
         elems sub ! lin ?cs (modV idx ?cs) = elems c ! lin ?shape idx) \<and>
      (case chunks ! j of None \<Rightarrow> allFill (elems sub) (spFill spec) | Some bj \<Rightarrow> innerEnc s sub ?ispec = Inr bj)"
    if j: "j < length ?L" for j
  proof -
    have inL: "inside (?L ! j) per" using setL nth_mem [OF j] by blast
    then have "fits (timesV (?L ! j) ?cs) ?cs ?shape" using pp per'(2) by (intro tile_fits) auto
    from extractBlock_spec [OF wt(3) this wt(1)] obtain sub where
      sub: "extractBlock c ?shape (timesV (?L ! j) ?cs) ?cs = Inr sub" "wt_slice sub" "stype sub = stype c"
      "length (elems sub) = product_of ?cs"
      "\<And>o'. inside o' ?cs \<Longrightarrow> elems sub ! lin ?cs o' = elems c ! lin ?shape (plusV (timesV (?L ! j) ?cs) o')"
      by blast
    have nth: "elems sub ! lin ?cs (modV idx ?cs) = elems c ! lin ?shape idx"
      if "inside idx ?shape" "divV idx ?cs = ?L ! j" for idx
    proof -
      have l: "length idx = length ?cs" using that(1) pp(4) by (auto dest: list_all2_lengthD)
      show ?thesis using sub(5) [OF modV_inside [OF pp(1) l]] tile_index [OF l] that(2) by simp
    qed
    have "encode_one s c spec (?L ! j) = Inr (chunks ! j)"
      using chunks(1) j by (simp add: rmap_Inr_iff list_all2_conv_all_nth)
    then have "case chunks ! j of None \<Rightarrow> allFill (elems sub) (spFill spec) | Some bj \<Rightarrow> innerEnc s sub ?ispec = Inr bj"
      using sub(1,3) wt(2) fill
      by (cases "chunks ! j")
        (auto simp: encode_one_def rbind_Inr_iff encodeChunk_def ops_allFill_def split: if_splits)
    with sub nth wt(2) show ?thesis by (intro exI [of _ sub]) simp
  qed
  then obtain f where f: "\<And>j. j < length ?L \<Longrightarrow> wt_slice (f j) \<and> stype (f j) = spType spec \<and>
      length (elems (f j)) = product_of ?cs \<and>
      (\<forall>idx. inside idx ?shape \<longrightarrow> divV idx ?cs = ?L ! j \<longrightarrow>
         elems (f j) ! lin ?cs (modV idx ?cs) = elems c ! lin ?shape idx) \<and>
      (case chunks ! j of None \<Rightarrow> allFill (elems (f j)) (spFill spec) | Some bj \<Rightarrow> innerEnc s (f j) ?ispec = Inr bj)"
    by metis
  have dec: "\<exists>sub. innerDec s bj ?ispec = Inr sub \<and> stype sub = spType spec \<and> length (elems sub) = product_of ?cs \<and>
      veqs (elems sub) (elems (f j))" if j: "j < length ?L" "chunks ! j = Some bj" for j bj
  proof -
    have "length bj \<le> length (join_chunks chunks)"
      using join_take_le [of j chunks bj] join_take_all [of "Suc j" chunks] j chunks(2) lL by simp
    also have "\<dots> \<le> length b" using chunks(3) by (auto simp: assemble_def rbind_Inr_iff Let_def case_prod_unfold)
    finally have "length bj < 2 ^ 63" using lb by simp
    moreover have "chunk_of ?ispec (f j)" "innerEnc s (f j) ?ispec = Inr bj"
      using f [OF j(1)] j(2) by (simp_all add: chunk_of_def innerSpec_def)
    ultimately obtain sub where "innerDec s bj ?ispec = Inr sub" "veqs (elems sub) (elems (f j))"
      using inner.decode_encode [OF ok] by blast
    with inner.decode_typed [OF ok this(1)] show ?thesis by (auto simp: chunk_of_def innerSpec_def)
  qed
  define subs where "subs = (\<lambda>j. case chunks ! j of None \<Rightarrow> None
      | Some bj \<Rightarrow> (case innerDec s bj ?ispec of Inl _ \<Rightarrow> None | Inr sub \<Rightarrow> Some sub))"
  let ?out = "filledAny (product_of ?shape) (spFill spec)"
  have "\<exists>out'. rfold (decode_step s spec ix b) ?L (0, ?out) = Inr (0 + length ?L, out') \<and>
      stype out' = spType spec \<and> length (elems out') = product_of ?shape \<and>
      (\<forall>idx. inside idx ?shape \<longrightarrow>
         (\<forall>j < length ?L. divV idx ?cs = ?L ! j \<longrightarrow> elems out' ! lin ?shape idx =
            (case subs j of None \<Rightarrow> elems ?out ! lin ?shape idx | Some sub \<Rightarrow> elems sub ! lin ?cs (modV idx ?cs))) \<and>
         (divV idx ?cs \<notin> set ?L \<longrightarrow> elems out' ! lin ?shape idx = elems ?out ! lin ?shape idx))"
  proof (rule decode_steps [OF dL _ pp(1)])
    show "\<forall>j < length ?L. (entry ix (0 + j) b = Inr None \<and> subs j = None) \<or>
        (\<exists>bj sub. entry ix (0 + j) b = Inr (Some bj) \<and> subs j = Some sub \<and>
           innerDec s bj (innerSpec s spec) = Inr sub \<and> stype sub = spType spec \<and> length (elems sub) = product_of ?cs)"
    proof (intro allI impI)
      fix j assume "j < length ?L"
      then show "(entry ix (0 + j) b = Inr None \<and> subs j = None) \<or>
        (\<exists>bj sub. entry ix (0 + j) b = Inr (Some bj) \<and> subs j = Some sub \<and>
           innerDec s bj (innerSpec s spec) = Inr sub \<and> stype sub = spType spec \<and> length (elems sub) = product_of ?cs)"
        using ix(2) [of j] dec [of j] chunks(2) lL by (cases "chunks ! j") (auto simp: subs_def)
    qed
  qed (use setL per'(2) pp fill in \<open>auto simp: filledAny_def\<close>)
  then obtain out where out: "rfold (decode_step s spec ix b) ?L (0, ?out) = Inr (length ?L, out)"
      "length (elems out) = product_of ?shape"
      "\<And>idx j. inside idx ?shape \<Longrightarrow> j < length ?L \<Longrightarrow> divV idx ?cs = ?L ! j \<Longrightarrow> elems out ! lin ?shape idx =
            (case subs j of None \<Rightarrow> elems ?out ! lin ?shape idx | Some sub \<Rightarrow> elems sub ! lin ?cs (modV idx ?cs))"
    by auto
  have "veq (elems out ! x) (elems c ! x)" if x: "x < product_of ?shape" for x
  proof -
    define idx where "idx = unlin ?shape x"
    have idx: "inside idx ?shape" "lin ?shape idx = x" using x by (simp_all add: idx_def unlin_inside lin_unlin)
    have "inside (divV idx ?cs) per" using tile_inside [OF pp(1) _ per'(1) idx(1)] pp per'(2) by simp
    then obtain j where j: "j < length ?L" "divV idx ?cs = ?L ! j" using setL by (metis in_set_conv_nth mem_Collect_eq)
    have fj: "elems (f j) ! lin ?cs (modV idx ?cs) = elems c ! x" using f [OF j(1)] idx j(2) by auto
    have lt: "lin ?cs (modV idx ?cs) < product_of ?cs"
      using idx(1) pp by (intro lin_bound modV_inside) (auto dest: list_all2_lengthD)
    show ?thesis
    proof (cases "chunks ! j")
      case None
      then have "elems out ! x = elems ?out ! x" using out(3) [OF idx(1) j] idx(2) by (simp add: subs_def)
      then have "veq (elems out ! x) (spFill spec)" using x filled_nth [OF x, of "spFill spec"] by (simp add: filledAny_def)
      moreover have "veq (elems (f j) ! lin ?cs (modV idx ?cs)) (spFill spec)"
      proof -
        have "allFill (elems (f j)) (spFill spec)" "\<forall>v \<in> set (elems (f j)). type_of v = type_of (spFill spec)"
          using f [OF j(1)] None fill by (auto simp: wt_slice_def)
        then show ?thesis using f [OF j(1)] lt by (simp add: allFill_iff)
      qed
      ultimately show ?thesis using fj by (metis veq_sym veq_trans)
    next
      case (Some bj)
      from dec [OF j(1) Some] obtain sub where s': "innerDec s bj ?ispec = Inr sub" "veqs (elems sub) (elems (f j))"
        "length (elems sub) = product_of ?cs" by blast
      then have "elems out ! x = elems sub ! lin ?cs (modV idx ?cs)"
        using out(3) [OF idx(1) j] idx(2) Some by (simp add: subs_def)
      with s' lt fj show ?thesis by (auto simp: veqs_nth)
    qed
  qed
  then have "veqs (elems out) (elems c)" using out(2) wt(3) by (simp add: veqs_nth)
  moreover have "known (spType spec)" using storedBytes_Inr [OF sb] by simp
  ultimately show ?thesis
    using per sb ix(1) out(1) fill by (auto simp: shard_DecodeArray_def chunkOpsOf_def eachIndex_def filledAny_def)
qed

text \<open>What a shard decodes to is a chunk of the spec, whatever the bytes are.\<close>

lemma shard_decode_typed:
  assumes fill: "type_of (spFill spec) = spType spec" and ok: "ok (innerSpec s spec)"
    and dec: "shard_DecodeArray s b spec = Inr c"
  shows "chunk_of spec c"
proof -
  from dec obtain per ix k where
    fold: "rfold (decode_step s spec ix b) (eachIndex_order (zeros (length per)) (minusOne per))
       (0, filledAny (product_of (spShape spec)) (spFill spec)) = Inr (k, c)"
    by (auto simp: shard_DecodeArray_def rbind_Inr_iff eachIndex_def chunkOpsOf_def split: if_splits)
  have "chunk_of spec (snd (k, c))"
  proof (rule rfold_invariant [OF fold, where P = "\<lambda>st. chunk_of spec (snd st)"])
    show "chunk_of spec (snd (0, filledAny (product_of (spShape spec)) (spFill spec)))"
      using fill type_of_known [of "spFill spec"]
      by (auto simp: chunk_of_def filledAny_def wt_slice_def dest: filled_type)
  next
    fix l st st'
    assume st: "chunk_of spec (snd st)" "decode_step s spec ix b l st = Inr st'"
    obtain j out where j: "st = (j, out)" by (cases st)
    show "chunk_of spec (snd st')"
    proof (cases "entry ix j b = Inr None")
      case True
      with st j show ?thesis by (auto simp: decode_step_def)
    next
      case False
      with st j obtain bj sub out' where "innerDec s bj (innerSpec s spec) = Inr sub"
        "insertBlock out (spShape spec) (timesV l (chunkShape s)) sub (chunkShape s) = Inr out'" "st' = (Suc j, out')"
        by (auto simp: decode_step_def rbind_Inr_iff split: option.splits)
      with inner.decode_typed [OF ok this(1)] insertBlock_typed [OF this(2)] st(1) j show ?thesis
        by (simp add: chunk_of_def)
    qed
  qed
  then show ?thesis by simp
qed

text \<open>Every chunk of a spec the codec is right for is encoded: nothing fails, nothing panics.\<close>

lemma shard_encode_total:
  assumes per: "perShard (chunkShape s) (spShape spec) = Inr per" and pos: "positive (spShape spec)"
    and ixs: "storedBytes (ints (per @ [2])) Uint64 = Inr sz" and fill: "type_of (spFill spec) = spType spec"
    and iok: "iok (indexSpec per)" and ok: "ok (innerSpec s spec)" and c: "chunk_of spec c"
  shows "\<exists>b. shard_EncodeArray s c spec = Inr b"
proof -
  let ?L = "eachIndex_order (zeros (length per)) (minusOne per)"
  have pp: "positive (chunkShape s)" "positive per" "length (chunkShape s) = length (spShape spec)"
    using perShard_positive [OF per pos] by auto
  have per': "per = divV (spShape spec) (chunkShape s)" using per by (simp add: perShard_Inr)
  have setL: "set ?L = {l. inside l per}" and lL: "length ?L = product_of per"
    using set_eachIndex_order [OF le_origin] between_origin [OF pp(2)] length_eachIndex_order [OF le_origin]
      spanLen_origin [OF pp(2)] by auto
  have wt: "wt_slice c" "stype c = spType spec" "length (elems c) = product_of (spShape spec)"
    using c by (auto simp: chunk_of_def)
  have "\<exists>e. encode_one s c spec l = Inr e" if "l \<in> set ?L" for l
  proof -
    have "fits (timesV l (chunkShape s)) (chunkShape s) (spShape spec)"
      using that setL pp per' by (intro tile_fits) auto
    from extractBlock_spec [OF wt(3) this wt(1)] obtain sub where
      sub: "extractBlock c (spShape spec) (timesV l (chunkShape s)) (chunkShape s) = Inr sub" "wt_slice sub"
      "stype sub = stype c" "length (elems sub) = product_of (chunkShape s)" by blast
    then have "chunk_of (innerSpec s spec) sub" using wt(2) by (simp add: chunk_of_def innerSpec_def)
    then obtain b where "innerEnc s sub (innerSpec s spec) = Inr b" using inner.encode_total [OF ok] by blast
    with sub wt(2) fill show ?thesis by (simp add: encode_one_def ops_allFill_def encodeChunk_def)
  qed
  then obtain chunks where chunks: "rmap (encode_one s c spec) ?L = Inr chunks"
    using rmap_total [of ?L "encode_one s c spec"] by blast
  have lc: "length chunks = product_of per" using rmap_length [OF chunks] lL by simp
  have ienc: "\<exists>b. encodeIndex s per ix = Inr b" if "length ix = 2 * product_of per" for ix
    unfolding encodeIndex_def using that
    by (intro index.encode_total [OF iok]) (auto simp: chunk_of_def wt_slice_def indexSpec_def)
  obtain b0 where "encodeIndex s per (replicate (2 * product_of per) noChunk) = Inr b0"
    using ienc [of "replicate (2 * product_of per) noChunk"] by auto
  then have ixsz: "indexSize s per = Inr (length b0)" using ixs by (simp add: indexSize_def)
  obtain ix m where p: "place (if atStart s then length b0 else 0) chunks = (ix, m)" by fastforce
  obtain ib where "encodeIndex s per ix = Inr ib" using ienc [of ix] place_length [OF p] lc by auto
  then have "\<exists>b. assemble s per chunks = Inr b" using ixsz p by (simp add: assemble_def)
  then show ?thesis
    using per wt encode_steps [of 0 ?L "replicate (product_of per) None" s c spec] chunks lL
    by (auto simp: shard_EncodeArray_def chunkOpsOf_def wt_slice_def eachIndex_def)
qed

end

end
