(* ===== verification/Fortran.thy ===== *)
theory Fortran
  imports Shards
begin

text \<open>
  The bytes codec of a version 2 array in Fortran order (\<open>fortranBytes\<close> and \<open>reorder\<close> of
  \<open>src/v2.go\<close>): the elements of a chunk with the first dimension fastest. The loop copies one
  element after another, in C order of the index; each copy is a slice expression that panics
  out of range. The lemmas: where every element goes, that reordering back is the identity,
  and that the codec meets the contract of an array-to-bytes codec.
\<close>

text \<open>The stride of each dimension in Fortran order.\<close>

fun fstride :: "vec \<Rightarrow> nat \<Rightarrow> vec" where
  "fstride [] n = []"
| "fstride (v # shape) n = n # fstride shape (n * v)"

definition fortran_runs :: "vec \<Rightarrow> nat \<Rightarrow> bool \<Rightarrow> (nat \<times> nat \<times> nat) list" where
  "fortran_runs shape sz toC =
     map2 (\<lambda>c idx.
         let f = dotV idx (fstride shape 1)
         in if toC then (c * sz, f * sz, sz) else (f * sz, c * sz, sz))
       [0 ..< length (eachIndex_order (zeros (length shape)) (minusOne shape))]
       (eachIndex_order (zeros (length shape)) (minusOne shape))"

definition reorder :: "bytes \<Rightarrow> bytes \<Rightarrow> vec \<Rightarrow> nat \<Rightarrow> bool \<Rightarrow> bytes res" where
  "reorder dst src shape sz toC =
     (if length shape < 2 \<or> product_of shape = 0 then Inr (take (length dst) src @ drop (length src) dst)
      else rfold (copy_run src) (fortran_runs shape sz toC) dst)"

definition fortran_EncodeArray :: "endian \<Rightarrow> string \<Rightarrow> slice \<Rightarrow> chunkSpec \<Rightarrow> bytes res" where
  "fortran_EncodeArray m e chunk spec =
     rbind (bytes_EncodeArray m e chunk spec) (\<lambda>b.
       reorder (replicate (length b) 0) b (spShape spec) (dsize (spType spec)) False)"

definition fortran_DecodeArray :: "endian \<Rightarrow> string \<Rightarrow> bytes \<Rightarrow> chunkSpec \<Rightarrow> slice res" where
  "fortran_DecodeArray m e data spec =
     (case storedBytes (ints (spShape spec)) (spType spec) of
        Inl _ \<Rightarrow> bytes_DecodeArray m e data spec
      | Inr sz \<Rightarrow>
          if int (length data) \<noteq> sz then bytes_DecodeArray m e data spec
          else rbind (reorder (replicate (length data) 0) data (spShape spec) (dsize (spType spec)) True)
                 (\<lambda>b. bytes_DecodeArray m e b spec))"

section \<open>Where the elements go\<close>

lemma fstride_lin: "length idx = length shape \<Longrightarrow> dotV idx (fstride shape n) = n * lin (rev shape) (rev idx)"
proof (induction shape n arbitrary: idx rule: fstride.induct)
  case (2 v shape n)
  then obtain i ix where "idx = i # ix" "length ix = length shape" by (cases idx) auto
  with 2 show ?case by (simp add: lin_append algebra_simps)
qed simp

lemma product_rev [simp]: "product_of (rev s) = product_of s"
  by (induction s) auto

lemma inside_rev: "inside (rev idx) (rev shape) \<longleftrightarrow> inside idx shape"
  by simp

lemma block_bound: "c < n \<Longrightarrow> c * k + k \<le> n * (k::nat)"
  by (metis Suc_leI add.commute mult_Suc mult_le_mono1)

text \<open>The runs, one for each index.\<close>

lemma set_fortran_runs:
  assumes "positive shape"
  shows "set (fortran_runs shape sz toC) =
    (\<lambda>idx. let c = lin shape idx; f = lin (rev shape) (rev idx)
           in if toC then (c * sz, f * sz, sz) else (f * sz, c * sz, sz)) ` {idx. inside idx shape}"
proof -
  let ?L = "eachIndex_order (zeros (length shape)) (minusOne shape)"
  have L: "?L = map (unlin shape) [0 ..< product_of shape]"
    using eachIndex_order_eq [OF le_origin] spanLen_origin [OF assms] by (simp add: unlin_def [abs_def])
  have "fortran_runs shape sz toC = map (\<lambda>c. let f = dotV (unlin shape c) (fstride shape 1)
      in if toC then (c * sz, f * sz, sz) else (f * sz, c * sz, sz)) [0 ..< product_of shape]"
    unfolding fortran_runs_def L by (rule nth_equalityI) (auto simp: Let_def)
  then have "set (fortran_runs shape sz toC) = (\<lambda>c. let f = dotV (unlin shape c) (fstride shape 1)
      in if toC then (c * sz, f * sz, sz) else (f * sz, c * sz, sz)) ` {..< product_of shape}"
    by (simp only: set_map atLeast_upt)
  also have "\<dots> = (\<lambda>c. let f = lin (rev shape) (rev (unlin shape c))
      in if toC then (c * sz, f * sz, sz) else (f * sz, c * sz, sz)) ` {..< product_of shape}"
    by (simp add: fstride_lin unlin_length)
  also have "\<dots> = (\<lambda>idx. let c = lin shape idx; f = lin (rev shape) (rev idx)
      in if toC then (c * sz, f * sz, sz) else (f * sz, c * sz, sz)) ` unlin shape ` {..< product_of shape}"
    unfolding image_image by (intro image_cong) (auto simp: lin_unlin Let_def)
  also have "unlin shape ` {..< product_of shape} = {idx. inside idx shape}"
    by (auto simp: unlin_inside image_iff Bex_def) (metis lin_bound unlin_lin)
  finally show ?thesis .
qed

lemma reorder_spec:
  assumes "positive shape" "length src = product_of shape * sz" "length dst = length src"
  shows "\<exists>r. reorder dst src shape sz toC = Inr r \<and> length r = length src \<and>
           (\<forall>idx j. inside idx shape \<longrightarrow> j < sz \<longrightarrow>
              (if toC then r ! (lin shape idx * sz + j) = src ! (lin (rev shape) (rev idx) * sz + j)
               else r ! (lin (rev shape) (rev idx) * sz + j) = src ! (lin shape idx * sz + j)))"
proof (cases "length shape < 2")
  case True
  have "lin (rev shape) (rev idx) = lin shape idx" if "inside idx shape" for idx
    using True list_all2_lengthD [OF that] by (cases shape; cases idx) auto
  with True assms show ?thesis by (auto simp: reorder_def)
next
  case False
  have nz: "product_of shape \<noteq> 0" using product_of_pos [OF assms(1)] by simp
  let ?runs = "fortran_runs shape sz toC"
  define dpos where "dpos = (\<lambda>idx. if toC then lin shape idx else lin (rev shape) (rev idx))"
  define spos where "spos = (\<lambda>idx. if toC then lin (rev shape) (rev idx) else lin shape idx)"
  have runs: "set ?runs = (\<lambda>idx. (dpos idx * sz, spos idx * sz, sz)) ` {idx. inside idx shape}"
    using set_fortran_runs [OF assms(1), of sz toC] by (cases toC) (simp_all add: dpos_def spos_def)
  have bounds: "dpos idx < product_of shape" "spos idx < product_of shape" if "inside idx shape" for idx
    using lin_bound [OF that] lin_bound [of "rev idx" "rev shape"] that by (auto simp: dpos_def spos_def)
  have inj: "idx = idx'" if "inside idx shape" "inside idx' shape" "dpos idx = dpos idx'" for idx idx'
    using that lin_inj [of "rev idx" "rev shape" "rev idx'"] by (auto simp: dpos_def lin_inj split: if_splits)
  define g where "g x = src ! (spos (THE idx. inside idx shape \<and> dpos idx = x div sz) * sz + x mod sz)" for x
  have g: "g (dpos idx * sz + j) = src ! (spos idx * sz + j)" if "inside idx shape" "j < sz" for idx j
  proof -
    have "(THE idx'. inside idx' shape \<and> dpos idx' = dpos idx) = idx" using that inj by (intro the_equality) auto
    with that show ?thesis by (simp add: g_def)
  qed
  have "\<forall>(di, si, l) \<in> set ?runs. di + l \<le> length dst \<and> si + l \<le> length src \<and> (\<forall>j < l. src ! (si + j) = g (di + j))"
    unfolding runs using bounds block_bound assms g by auto
  from copy_runs [OF this] obtain r where r: "rfold (copy_run src) ?runs dst = Inr r" "length r = length dst"
    "\<And>x. x < length dst \<Longrightarrow> r ! x = (if \<exists>(di, si, l) \<in> set ?runs. di \<le> x \<and> x < di + l then g x else dst ! x)" by blast
  have "r ! (dpos idx * sz + j) = src ! (spos idx * sz + j)" if "inside idx shape" "j < sz" for idx j
  proof -
    have "dpos idx * sz + j < length dst"
      using block_bound [OF bounds(1) [OF that(1)], of sz] that(2) assms by simp
    moreover have "\<exists>(di, si, l) \<in> set ?runs. di \<le> dpos idx * sz + j \<and> dpos idx * sz + j < di + l"
      unfolding runs using that by auto
    ultimately show ?thesis using r(3) g [OF that] by simp
  qed
  with r(1,2) False nz assms show ?thesis
    by (intro exI [of _ r]) (auto simp: reorder_def dpos_def spos_def split: if_splits)
qed

lemma reorder_total:
  assumes "length src = product_of shape * sz" "length dst = length src"
  shows "\<exists>r. reorder dst src shape sz toC = Inr r"
proof (cases "positive shape")
  case True
  then show ?thesis using reorder_spec [OF _ assms] by blast
next
  case False
  then have "product_of shape = 0" using prod_pos_all [of shape] by auto
  then show ?thesis by (simp add: reorder_def)
qed

lemma reorder_back:
  assumes "length src = product_of shape * sz" "reorder (replicate (length src) 0) src shape sz False = Inr b"
  shows "length b = length src \<and> reorder (replicate (length b) 0) b shape sz True = Inr src"
proof (cases "positive shape")
  case True
  from reorder_spec [OF True assms(1), of "replicate (length src) 0" False] assms(2)
  have b: "length b = length src"
    "\<And>idx j. inside idx shape \<Longrightarrow> j < sz \<Longrightarrow> b ! (lin (rev shape) (rev idx) * sz + j) = src ! (lin shape idx * sz + j)"
    by auto
  from reorder_spec [OF True, of b sz "replicate (length b) 0" True] b(1) assms(1)
  obtain r where r: "reorder (replicate (length b) 0) b shape sz True = Inr r" "length r = length b"
    "\<And>idx j. inside idx shape \<Longrightarrow> j < sz \<Longrightarrow> r ! (lin shape idx * sz + j) = b ! (lin (rev shape) (rev idx) * sz + j)"
    by auto
  have "r = src"
  proof (rule nth_equalityI)
    fix x assume "x < length r"
    then have x: "x < product_of shape * sz" using r(2) b(1) assms(1) by simp
    then have s: "0 < sz" "x div sz < product_of shape" by (auto simp: less_mult_imp_div_less intro: Nat.gr0I)
    let ?idx = "unlin shape (x div sz)"
    have i: "inside ?idx shape" "lin shape ?idx = x div sz" using s(2) by (simp_all add: unlin_inside lin_unlin)
    have "r ! (x div sz * sz + x mod sz) = src ! (x div sz * sz + x mod sz)"
      using r(3) [OF i(1), of "x mod sz"] b(2) [OF i(1), of "x mod sz"] s(1) i(2) by simp
    then show "r ! x = src ! x" by (simp only: div_mult_mod_eq)
  qed (use r(2) b(1) in simp)
  with r b show ?thesis by simp
next
  case False
  then have "product_of shape = 0" using prod_pos_all [of shape] by auto
  with assms show ?thesis by (simp add: reorder_def)
qed

interpretation fortran_codec: array_codec "fortran_EncodeArray m e" "fortran_DecodeArray m e" "bytes_ok e" for m e
proof
  fix spec c b
  assume a: "bytes_ok e spec" "chunk_of spec c" "fortran_EncodeArray m e c spec = Inr b"
  then obtain b0 where b0: "bytes_EncodeArray m e c spec = Inr b0"
    "reorder (replicate (length b0) 0) b0 (spShape spec) (dsize (spType spec)) False = Inr b"
    by (auto simp: fortran_EncodeArray_def rbind_Inr_iff)
  from a(1) obtain sz where sz: "storedBytes (ints (spShape spec)) (spType spec) = Inr sz" by (auto simp: bytes_ok_def)
  have d: "bytes_DecodeArray m e b0 spec = Inr c"
    using bytes_roundtrip [of c spec sz m e b0 m] a(2) sz b0(1) by (simp add: chunk_of_def)
  have lb: "length b0 = product_of (spShape spec) * dsize (spType spec)" using bytes_DecodeArray_wt [OF d] by simp
  from reorder_back [OF lb b0(2)] have "length b = length b0"
    "reorder (replicate (length b) 0) b (spShape spec) (dsize (spType spec)) True = Inr b0" by auto
  moreover have "sz = int (product_of (spShape spec) * dsize (spType spec))" using storedBytes_Inr [OF sz] by simp
  ultimately have "fortran_DecodeArray m e b spec = Inr c" using sz d lb by (simp add: fortran_DecodeArray_def)
  then show "\<exists>c'. fortran_DecodeArray m e b spec = Inr c' \<and> veqs (elems c') (elems c)" by simp
next
  fix spec c b
  assume "fortran_DecodeArray m e b spec = Inr c"
  then obtain b0 where "bytes_DecodeArray m e b0 spec = Inr c"
    by (auto simp: fortran_DecodeArray_def rbind_Inr_iff split: sum.splits if_splits)
  then show "chunk_of spec c" using bytes_DecodeArray_wt by (simp add: chunk_of_def)
next
  fix spec c
  assume a: "bytes_ok e spec" "chunk_of spec c"
  then obtain b where b: "bytes_EncodeArray m e c spec = Inr b" using bytes_codec.encode_total by blast
  from a have "length b = product_of (spShape spec) * dsize (spType spec)" using bytes_encoded_length [OF _ b] by blast
  with b show "\<exists>b. fortran_EncodeArray m e c spec = Inr b"
    using reorder_total [of b "spShape spec" "dsize (spType spec)" "replicate (length b) 0" False]
    by (simp add: fortran_EncodeArray_def)
qed

end
