(* ===== verification/Pipelines.thy ===== *)
theory Pipelines
  imports Fortran
begin

text \<open>
  Codecs as the interfaces of \<open>src/codec.go\<close>, the pipelines made of them, the sharding codec
  built on two pipelines, and the bounds of \<open>src/limit.go\<close> on what they encode to.

  A value of a codec type is a \<open>codec\<close>; what it does is its \<open>codec_iface\<close>: the methods of
  \<open>ArrayBytesCodec\<close> or of \<open>BytesBytesCodec\<close>, \<open>LimitedBytesDecoder\<close> being there or not, with what
  the type switches of \<open>encodedBound\<close> and \<open>bytesBound\<close> say of it. \<open>prepare\<close> keeps its pipelines
  the first time it succeeds; it is a function of the codec, so making them each time is the
  same. Only bytes-to-bytes codecs may be registered from outside in this model.

  The theorems: any pipeline of any nesting decodes what it encoded, and the bounds are never
  less than what is encoded.
\<close>

datatype codec =
    BytesCodec string
  | FortranBytes string
  | ShardingCodec "int list" "codec list option" "codec list option" string
  | GzipCodec int
  | ZlibCodec int
  | CRC32CCodec
  | ShuffleCodec int
  | ExtCodec string

section \<open>Interfaces and pipelines\<close>

record abcodec =
  EncodeArray :: encoder
  DecodeArray :: decoder
  encodedBound :: "chunkSpec \<Rightarrow> int"

record bbcodec =
  EncodeBytes :: "bytes \<Rightarrow> bytes res"
  DecodeBytes :: "bytes \<Rightarrow> bytes res"
  DecodeBytesLimit :: "(bytes \<Rightarrow> int \<Rightarrow> bytes res) option"
  bytesBound :: "int \<Rightarrow> int"

datatype iface = ArrayBytes abcodec | BytesBytes bbcodec

record pipeline =
  parray :: abcodec
  pbytes :: "bbcodec list"

text \<open>\<open>pipelineOf\<close>: the loop from the second codec on.\<close>

fun pipeline_rest :: "iface list \<Rightarrow> bbcodec list res" where
  "pipeline_rest [] = Inr []"
| "pipeline_rest (BytesBytes b # cs) = rbind (pipeline_rest cs) (\<lambda>bs. Inr (b # bs))"
| "pipeline_rest (ArrayBytes _ # cs) = Inl (ErrOther ''codec after the array-to-bytes codec must be bytes-to-bytes'')"

fun pipelineOf :: "iface list \<Rightarrow> pipeline res" where
  "pipelineOf [] = Inl (ErrOther ''a pipeline needs an array-to-bytes codec'')"
| "pipelineOf (BytesBytes _ # _) = Inl ErrUnsupported"
| "pipelineOf (ArrayBytes a # cs) = rbind (pipeline_rest cs) (\<lambda>bs. Inr \<lparr>parray = a, pbytes = bs\<rparr>)"

definition unbounded :: int where
  "unbounded = -1"

definition pipe_encode :: "pipeline \<Rightarrow> slice \<Rightarrow> chunkSpec \<Rightarrow> bytes res" where
  "pipe_encode p chunk spec =
     rbind (EncodeArray (parray p) chunk spec) (rfold EncodeBytes (pbytes p))"

fun limit_loop :: "bbcodec list \<Rightarrow> int \<Rightarrow> int" where
  "limit_loop [] n = n"
| "limit_loop (c # cs) n =
     (if n = unbounded \<or> n > maxStoredBytes * 2 then n else limit_loop cs (bytesBound c n))"

definition decodeLimit :: "pipeline \<Rightarrow> chunkSpec \<Rightarrow> nat \<Rightarrow> int" where
  "decodeLimit p spec i =
     (let n = limit_loop (take i (pbytes p)) (encodedBound (parray p) spec)
      in if n = unbounded \<or> n > maxStoredBytes * 2 then maxStoredBytes else n)"

definition decode_bytes_step :: "pipeline \<Rightarrow> chunkSpec \<Rightarrow> nat \<Rightarrow> bytes \<Rightarrow> bytes res" where
  "decode_bytes_step p spec i b =
     (case DecodeBytesLimit (pbytes p ! i) of
        Some f \<Rightarrow> f b (decodeLimit p spec i)
      | None \<Rightarrow> DecodeBytes (pbytes p ! i) b)"

definition pipe_decode :: "pipeline \<Rightarrow> bytes \<Rightarrow> chunkSpec \<Rightarrow> slice res" where
  "pipe_decode p b spec =
     rbind (rfold (decode_bytes_step p spec) (rev [0 ..< length (pbytes p)]) b)
       (\<lambda>b. DecodeArray (parray p) b spec)"

fun bound_loop :: "bbcodec list \<Rightarrow> int \<Rightarrow> int" where
  "bound_loop [] n = n"
| "bound_loop (c # cs) n =
     (if n = unbounded \<or> n > maxInt64 div 2 then unbounded else bound_loop cs (bytesBound c n))"

definition pipe_bound :: "pipeline \<Rightarrow> chunkSpec \<Rightarrow> int" where
  "pipe_bound p spec = bound_loop (pbytes p) (encodedBound (parray p) spec)"

section \<open>The codecs\<close>

definition bytes_bound :: "chunkSpec \<Rightarrow> int" where
  "bytes_bound spec =
     (case storedBytes (ints (spShape spec)) (spType spec) of Inl _ \<Rightarrow> unbounded | Inr n \<Rightarrow> n)"

definition bytes_iface :: "env \<Rightarrow> string \<Rightarrow> abcodec" where
  "bytes_iface env e =
     \<lparr>EncodeArray = bytes_EncodeArray (native env) e, DecodeArray = bytes_DecodeArray (native env) e,
      encodedBound = bytes_bound\<rparr>"

definition fortran_iface :: "env \<Rightarrow> string \<Rightarrow> abcodec" where
  "fortran_iface env e =
     \<lparr>EncodeArray = fortran_EncodeArray (native env) e, DecodeArray = fortran_DecodeArray (native env) e,
      encodedBound = bytes_bound\<rparr>"

definition deflate_bound :: "int \<Rightarrow> int" where
  "deflate_bound n = wrap64 (n + n div 100 + 1024)"

definition gzip_iface :: "env \<Rightarrow> int \<Rightarrow> bbcodec" where
  "gzip_iface env level =
     \<lparr>EncodeBytes = gzip_write env level,
      DecodeBytes = (\<lambda>b. gzip_DecodeBytesLimit env b maxStoredBytes),
      DecodeBytesLimit = Some (gzip_DecodeBytesLimit env), bytesBound = deflate_bound\<rparr>"

definition zlib_iface :: "env \<Rightarrow> int \<Rightarrow> bbcodec" where
  "zlib_iface env level =
     \<lparr>EncodeBytes = zlib_write env level,
      DecodeBytes = (\<lambda>b. zlib_DecodeBytesLimit env b maxStoredBytes),
      DecodeBytesLimit = Some (zlib_DecodeBytesLimit env), bytesBound = deflate_bound\<rparr>"

definition crc_iface :: bbcodec where
  "crc_iface =
     \<lparr>EncodeBytes = crc_EncodeBytes, DecodeBytes = crc_DecodeBytes, DecodeBytesLimit = None,
      bytesBound = (\<lambda>n. wrap64 (n + 4))\<rparr>"

definition shuffle_iface :: "int \<Rightarrow> bbcodec" where
  "shuffle_iface es =
     \<lparr>EncodeBytes = shuffle_EncodeBytes es, DecodeBytes = shuffle_DecodeBytes es,
      DecodeBytesLimit = Some (shuffle_DecodeBytesLimit es), bytesBound = (\<lambda>n. n)\<rparr>"

text \<open>The last case of \<open>bytesBound\<close>: a codec that says its own bound, if it is not negative.\<close>

definition ext_iface :: "env \<Rightarrow> string \<Rightarrow> bbcodec" where
  "ext_iface env name =
     \<lparr>EncodeBytes = ext_encode env name, DecodeBytes = ext_decode env name,
      DecodeBytesLimit = ext_limit env name,
      bytesBound = (\<lambda>n. case ext_bound env name of
          None \<Rightarrow> unbounded
        | Some f \<Rightarrow> (let b = f n in if b \<ge> 0 then b else unbounded))\<rparr>"

section \<open>The sharding codec\<close>

definition shard_of :: "int list \<Rightarrow> string \<Rightarrow> pipeline \<Rightarrow> pipeline \<Rightarrow> shard" where
  "shard_of cs loc ip xp =
     \<lparr>chunkShape = map nat cs, atStart = (loc = ''start''),
      innerEnc = pipe_encode ip, innerDec = pipe_decode ip,
      indexEnc = pipe_encode xp, indexDec = pipe_decode xp\<rparr>"

text \<open>\<open>prepare\<close>, of the interfaces of the two lists of codecs: the pipelines, if the codec can be
  used at all.\<close>

definition prepare :: "int list \<Rightarrow> string \<Rightarrow> iface list \<Rightarrow> iface list \<Rightarrow> (shard \<times> pipeline \<times> pipeline) res" where
  "prepare cs loc inner index =
     (let l = (if loc = [] then ''end'' else loc) in
      rbind (rguard (l = ''end'' \<or> l = ''start'') (ErrOther ''no such index location'')) (\<lambda>_.
      rbind (rguard (\<forall>v \<in> set cs. v > 0) (ErrOther ''chunk shape'')) (\<lambda>_.
      rbind (pipelineOf inner) (\<lambda>ip.
      rbind (pipelineOf index) (\<lambda>xp.
      rbind (fixed_index (shard_of cs loc ip xp)) (\<lambda>_.
        Inr (shard_of cs loc ip xp, ip, xp)))))))"

definition sharding_bound :: "int list \<Rightarrow> string \<Rightarrow> iface list \<Rightarrow> iface list \<Rightarrow> chunkSpec \<Rightarrow> int" where
  "sharding_bound cs loc inner index spec =
     (case prepare cs loc inner index of
        Inl _ \<Rightarrow> unbounded
      | Inr (s, ip, xp) \<Rightarrow>
          (case perShard (chunkShape s) (spShape spec) of
             Inl _ \<Rightarrow> unbounded
           | Inr per \<Rightarrow>
               (case elements (ints per) of
                  None \<Rightarrow> unbounded
                | Some m \<Rightarrow>
                    if m > maxStoredBytes div 16 then unbounded
                    else
                      (let ib = pipe_bound xp (indexSpec per); cb = pipe_bound ip (innerSpec s spec)
                       in if ib = unbounded \<or> cb = unbounded \<or> (m > 0 \<and> cb > (maxInt64 - ib) div m)
                          then unbounded else ib + m * cb))))"

definition sharding_iface :: "int list \<Rightarrow> string \<Rightarrow> iface list \<Rightarrow> iface list \<Rightarrow> abcodec" where
  "sharding_iface cs loc inner index =
     \<lparr>EncodeArray = (\<lambda>chunk spec. rbind (prepare cs loc inner index) (\<lambda>(s, _, _). shard_EncodeArray s chunk spec)),
      DecodeArray = (\<lambda>b spec. rbind (prepare cs loc inner index) (\<lambda>(s, _, _). shard_DecodeArray s b spec)),
      encodedBound = sharding_bound cs loc inner index\<rparr>"

text \<open>\<open>codecLists\<close>: the codecs a nil list stands for.\<close>

definition default_inner :: "codec list" where
  "default_inner = [BytesCodec ''little'']"

definition default_index :: "codec list" where
  "default_index = [BytesCodec ''little'', CRC32CCodec]"

definition codecLists :: "codec list option \<Rightarrow> codec list option \<Rightarrow> codec list \<times> codec list" where
  "codecLists inner index =
     ((case inner of None \<Rightarrow> default_inner | Some cs \<Rightarrow> cs),
      (case index of None \<Rightarrow> default_index | Some cs \<Rightarrow> cs))"

primrec codec_iface :: "env \<Rightarrow> codec \<Rightarrow> iface" where
  "codec_iface env (BytesCodec e) = ArrayBytes (bytes_iface env e)"
| "codec_iface env (FortranBytes e) = ArrayBytes (fortran_iface env e)"
| "codec_iface env (ShardingCodec cs inner index loc) = ArrayBytes (sharding_iface cs loc
     (case map_option (map (codec_iface env)) inner of
        None \<Rightarrow> [ArrayBytes (bytes_iface env ''little'')] | Some fs \<Rightarrow> fs)
     (case map_option (map (codec_iface env)) index of
        None \<Rightarrow> [ArrayBytes (bytes_iface env ''little''), BytesBytes crc_iface] | Some fs \<Rightarrow> fs))"
| "codec_iface env (GzipCodec level) = BytesBytes (gzip_iface env level)"
| "codec_iface env (ZlibCodec level) = BytesBytes (zlib_iface env level)"
| "codec_iface env CRC32CCodec = BytesBytes crc_iface"
| "codec_iface env (ShuffleCodec es) = BytesBytes (shuffle_iface es)"
| "codec_iface env (ExtCodec name) = BytesBytes (ext_iface env name)"

lemma codec_iface_sharding:
  "codec_iface env (ShardingCodec cs inner index loc) =
     ArrayBytes (sharding_iface cs loc
       (map (codec_iface env) (fst (codecLists inner index))) (map (codec_iface env) (snd (codecLists inner index))))"
  by (simp add: codecLists_def default_inner_def default_index_def split: option.splits)

definition codec_pipeline :: "env \<Rightarrow> codec list \<Rightarrow> pipeline res" where
  "codec_pipeline env cs = pipelineOf (map (codec_iface env) cs)"

section \<open>The laws of bytes-to-bytes codecs\<close>

text \<open>
  What a pipeline relies on of a bytes-to-bytes codec: it encodes anything, decodes what it
  encoded - within a limit that is not less than what it is to decode to, if it takes one - and
  encodes to no more than its bound.
\<close>

locale bytes_bytes =
  fixes c :: bbcodec
  assumes encode_total: "\<exists>b. EncodeBytes c data = Inr b"
    and decode: "EncodeBytes c data = Inr b \<Longrightarrow> DecodeBytesLimit c = None \<Longrightarrow> DecodeBytes c b = Inr data"
    and decode_limit: "EncodeBytes c data = Inr b \<Longrightarrow> DecodeBytesLimit c = Some f \<Longrightarrow> int (length data) \<le> limit \<Longrightarrow>
      f b limit = Inr data"
    and bound: "EncodeBytes c data = Inr b \<Longrightarrow> int (length data) \<le> n \<Longrightarrow> n \<le> maxInt64 div 2 \<Longrightarrow>
      bytesBound c n = unbounded \<or> int (length b) \<le> bytesBound c n"
begin

text \<open>One step of a pipeline undone.\<close>

lemma step_back:
  assumes "pbytes p ! i = c" "EncodeBytes c data = Inr b" "int (length data) \<le> decodeLimit p spec i"
  shows "decode_bytes_step p spec i b = Inr data"
  using assms decode decode_limit by (auto simp: decode_bytes_step_def split: option.splits)

end

interpretation crc_codec: bytes_bytes crc_iface
  by unfold_locales
    (auto simp: crc_iface_def crc_roundtrip crc_EncodeBytes_def wrap64_id in_int64_def minInt64_def maxInt64_def)

lemma shuffle_DecodeBytesLimit_back:
  "shuffle_EncodeBytes es data = Inr b \<Longrightarrow> int (length data) \<le> limit \<Longrightarrow> shuffle_DecodeBytesLimit es b limit = Inr data"
  by (simp add: shuffle_DecodeBytesLimit_def shuffle_length shuffle_roundtrip)

interpretation shuffle_codec: bytes_bytes "shuffle_iface (int es)" for es
  by unfold_locales
    (auto simp: shuffle_iface_def shuffle_total shuffle_DecodeBytesLimit_back dest: shuffle_length)

lemma deflate_bound: "length b \<le> stored_bound (length data) \<Longrightarrow> int (length data) \<le> n \<Longrightarrow> n \<le> maxInt64 div 2 \<Longrightarrow>
    int (length b) \<le> deflate_bound n"
proof -
  assume a: "length b \<le> stored_bound (length data)" "int (length data) \<le> n" "n \<le> maxInt64 div 2"
  have "length b \<le> length data + length data div 100 + 1024" using a(1) stored_bound_le le_trans by blast
  then have "int (length b) \<le> int (length data) + int (length data) div 100 + 1024" by (simp flip: zdiv_int)
  also have "\<dots> \<le> n + n div 100 + 1024" using a(2) by (intro add_mono zdiv_mono1) auto
  also have "\<dots> = deflate_bound n"
    unfolding deflate_bound_def using a(2,3) by (subst wrap64_id) (auto simp: in_int64_def minInt64_def maxInt64_def)
  finally show ?thesis .
qed

lemma env_okD:
  "env_ok env \<Longrightarrow> gzip_write env level data = Inr b \<Longrightarrow> length b \<le> stored_bound (length data)"
  "env_ok env \<Longrightarrow> zlib_write env level data = Inr b \<Longrightarrow> length b \<le> stored_bound (length data)"
  "env_ok env \<Longrightarrow> 0 \<le> level \<Longrightarrow> level \<le> 9 \<Longrightarrow> \<exists>b. gzip_write env level data = Inr b"
  "env_ok env \<Longrightarrow> 0 \<le> level \<Longrightarrow> level \<le> 9 \<Longrightarrow> \<exists>b. zlib_write env level data = Inr b"
  by (auto simp: env_ok_def)

lemma gzip_laws: "env_ok env \<Longrightarrow> 0 \<le> level \<Longrightarrow> level \<le> 9 \<Longrightarrow> bytes_bytes (gzip_iface env level)"
  by unfold_locales (auto simp: gzip_iface_def gzip_roundtrip env_okD(3) deflate_bound [OF env_okD(1)])

lemma zlib_laws: "env_ok env \<Longrightarrow> 0 \<le> level \<Longrightarrow> level \<le> 9 \<Longrightarrow> bytes_bytes (zlib_iface env level)"
  by unfold_locales (auto simp: zlib_iface_def zlib_roundtrip env_okD(4) deflate_bound [OF env_okD(2)])

section \<open>The laws of pipelines\<close>

text \<open>What the limits of a pipeline are only sound for: the bound of every stage is known and within
  what an encoded chunk may be.\<close>

definition stage_limit :: "pipeline \<Rightarrow> chunkSpec \<Rightarrow> nat \<Rightarrow> int" where
  "stage_limit p spec i = limit_loop (take i (pbytes p)) (encodedBound (parray p) spec)"

definition limits_known :: "pipeline \<Rightarrow> chunkSpec \<Rightarrow> bool" where
  "limits_known p spec \<longleftrightarrow>
     (\<forall>i < length (pbytes p). 0 \<le> stage_limit p spec i \<and> stage_limit p spec i \<le> maxStoredBytes * 2)"

definition pipe_ok :: "(chunkSpec \<Rightarrow> bool) list \<Rightarrow> pipeline \<Rightarrow> chunkSpec \<Rightarrow> bool" where
  "pipe_ok oks p spec \<longleftrightarrow> (\<forall>f \<in> set oks. f spec) \<and> limits_known p spec"

definition bound_sound :: "encoder \<Rightarrow> (chunkSpec \<Rightarrow> int) \<Rightarrow> (chunkSpec \<Rightarrow> bool) \<Rightarrow> bool" where
  "bound_sound enc f ok \<longleftrightarrow>
     (\<forall>spec c b. ok spec \<longrightarrow> chunk_of spec c \<longrightarrow> enc c spec = Inr b \<longrightarrow> f spec = unbounded \<or> int (length b) \<le> f spec)"

definition iface_laws :: "iface \<Rightarrow> (chunkSpec \<Rightarrow> bool) \<Rightarrow> bool" where
  "iface_laws i ok \<longleftrightarrow>
     (case i of
        ArrayBytes a \<Rightarrow> array_codec (EncodeArray a) (DecodeArray a) ok \<and> bound_sound (EncodeArray a) (encodedBound a) ok
      | BytesBytes b \<Rightarrow> (\<forall>spec. ok spec \<longrightarrow> bytes_bytes b))"

lemma limit_loop_snoc:
  "limit_loop (cs @ [c]) n =
     (let m = limit_loop cs n in if m = unbounded \<or> m > maxStoredBytes * 2 then m else bytesBound c m)"
  by (induction cs n rule: limit_loop.induct) (auto simp: Let_def)

lemma encode_stages:
  "rfold EncodeBytes bs b0 = Inr b \<Longrightarrow>
     \<exists>st. length st = Suc (length bs) \<and> st ! 0 = b0 \<and> st ! length bs = b \<and>
          (\<forall>i < length bs. EncodeBytes (bs ! i) (st ! i) = Inr (st ! Suc i))"
proof (induction bs arbitrary: b0)
  case Nil
  then show ?case by (intro exI [of _ "[b0]"]) simp
next
  case (Cons c bs)
  from Cons.prems obtain b1 where b1: "EncodeBytes c b0 = Inr b1" "rfold EncodeBytes bs b1 = Inr b"
    by (auto simp: rbind_Inr_iff)
  from Cons.IH [OF b1(2)] obtain st where st: "length st = Suc (length bs)" "st ! 0 = b1" "st ! length bs = b"
    "\<forall>i < length bs. EncodeBytes (bs ! i) (st ! i) = Inr (st ! Suc i)" by blast
  with b1(1) show ?case
    by (intro exI [of _ "b0 # st"]) (auto simp: nth_Cons split: nat.splits)
qed

lemma stages_bounded:
  assumes law: "\<forall>c \<in> set (pbytes p). bytes_bytes c" and known: "limits_known p spec"
    and enc: "\<forall>i < length (pbytes p). EncodeBytes (pbytes p ! i) (st ! i) = Inr (st ! Suc i)"
    and first: "encodedBound (parray p) spec = unbounded \<or> int (length (st ! 0)) \<le> encodedBound (parray p) spec"
    and i: "i < length (pbytes p)"
  shows "int (length (st ! i)) \<le> stage_limit p spec i"
  using i
proof (induction i)
  case 0
  with known have "0 \<le> stage_limit p spec 0" by (simp add: limits_known_def)
  with first show ?case by (simp add: stage_limit_def unbounded_def)
next
  case (Suc i)
  have bb: "bytes_bytes (pbytes p ! i)" using law Suc.prems by simp
  have k: "0 \<le> stage_limit p spec i" "stage_limit p spec i \<le> maxStoredBytes * 2" "0 \<le> stage_limit p spec (Suc i)"
    using known Suc.prems unfolding limits_known_def by auto
  then have "stage_limit p spec (Suc i) = bytesBound (pbytes p ! i) (stage_limit p spec i)"
    using Suc.prems by (simp add: stage_limit_def take_Suc_conv_app_nth limit_loop_snoc unbounded_def)
  moreover have "EncodeBytes (pbytes p ! i) (st ! i) = Inr (st ! Suc i)" using enc Suc.prems by simp
  ultimately show ?case
    using bytes_bytes.bound [OF bb, of "st ! i" "st ! Suc i" "stage_limit p spec i"] Suc k
    by (auto simp: unbounded_def maxStoredBytes_def maxInt64_def)
qed

lemma stages_back:
  assumes law: "\<forall>c \<in> set (pbytes p). bytes_bytes c" and known: "limits_known p spec"
    and enc: "\<forall>i < length (pbytes p). EncodeBytes (pbytes p ! i) (st ! i) = Inr (st ! Suc i)"
    and bounds: "\<forall>i < length (pbytes p). int (length (st ! i)) \<le> stage_limit p spec i"
  shows "k \<le> length (pbytes p) \<Longrightarrow> rfold (decode_bytes_step p spec) (rev [0 ..< k]) (st ! k) = Inr (st ! 0)"
proof (induction k)
  case (Suc k)
  then have k: "k < length (pbytes p)" by simp
  have "decodeLimit p spec k = stage_limit p spec k"
    using known k unfolding limits_known_def decodeLimit_def
    by (auto simp: stage_limit_def [symmetric] Let_def unbounded_def)
  then have "decode_bytes_step p spec k (st ! Suc k) = Inr (st ! k)"
    using bytes_bytes.step_back [of "pbytes p ! k" p k "st ! k" "st ! Suc k" spec] law enc bounds k by auto
  with Suc show ?case by simp
qed simp

lemma bound_loop_sound:
  "\<forall>c \<in> set bs. bytes_bytes c \<Longrightarrow> rfold EncodeBytes bs b0 = Inr b \<Longrightarrow> n = unbounded \<or> int (length b0) \<le> n \<Longrightarrow>
     bound_loop bs n = unbounded \<or> int (length b) \<le> bound_loop bs n"
proof (induction bs arbitrary: b0 n)
  case (Cons c bs)
  from Cons.prems(2) obtain b1 where b1: "EncodeBytes c b0 = Inr b1" "rfold EncodeBytes bs b1 = Inr b"
    by (auto simp: rbind_Inr_iff)
  show ?case
  proof (cases "n = unbounded \<or> n > maxInt64 div 2")
    case False
    have "bytesBound c n = unbounded \<or> int (length b1) \<le> bytesBound c n"
      using bytes_bytes.bound [OF _ b1(1), of n] Cons.prems False by simp
    with Cons.IH [OF _ b1(2)] Cons.prems(1) False show ?thesis by simp
  qed auto
qed simp

lemma pipelineOf_Inr:
  "pipelineOf fs = Inr p \<Longrightarrow> fs = ArrayBytes (parray p) # map BytesBytes (pbytes p)"
proof -
  have rest: "pipeline_rest fs = Inr bs \<Longrightarrow> fs = map BytesBytes bs" for fs bs
    by (induction fs arbitrary: bs rule: pipeline_rest.induct) (auto simp: rbind_Inr_iff)
  show "pipelineOf fs = Inr p \<Longrightarrow> fs = ArrayBytes (parray p) # map BytesBytes (pbytes p)"
    by (cases fs rule: pipelineOf.cases) (auto simp: rbind_Inr_iff dest: rest)
qed

text \<open>A pipeline of lawful codecs is a lawful codec.\<close>

lemma pipeline_laws:
  assumes p: "pipelineOf fs = Inr p" and laws: "list_all2 iface_laws fs oks"
  shows "array_codec (pipe_encode p) (pipe_decode p) (pipe_ok oks p)"
    and "bound_sound (pipe_encode p) (pipe_bound p) (pipe_ok oks p)"
proof -
  let ?a = "parray p"
  from laws pipelineOf_Inr [OF p] obtain ok1 okbs where oks: "oks = ok1 # okbs"
    and a: "array_codec (EncodeArray ?a) (DecodeArray ?a) ok1" "bound_sound (EncodeArray ?a) (encodedBound ?a) ok1"
    and bl: "list_all2 iface_laws (map BytesBytes (pbytes p)) okbs"
    by (auto simp: list_all2_Cons1 iface_laws_def)
  have bb: "\<forall>c \<in> set (pbytes p). bytes_bytes c" if "pipe_ok oks p spec" for spec
  proof
    fix c assume "c \<in> set (pbytes p)"
    then obtain i where i: "i < length (pbytes p)" "c = pbytes p ! i" by (auto simp: in_set_conv_nth)
    with bl have "iface_laws (BytesBytes c) (okbs ! i)" "okbs ! i \<in> set oks"
      by (auto simp: list_all2_conv_all_nth oks)
    with that show "bytes_bytes c" by (auto simp: iface_laws_def pipe_ok_def)
  qed
  have stages: "\<exists>st. EncodeArray ?a c spec = Inr (st ! 0) \<and> st ! length (pbytes p) = b \<and>
      (\<forall>i < length (pbytes p). EncodeBytes (pbytes p ! i) (st ! i) = Inr (st ! Suc i)) \<and>
      (\<forall>i < length (pbytes p). int (length (st ! i)) \<le> stage_limit p spec i)"
    if "pipe_ok oks p spec" "chunk_of spec c" "pipe_encode p c spec = Inr b" for spec c b
  proof -
    from that(3) obtain b0 where b0: "EncodeArray ?a c spec = Inr b0" "rfold EncodeBytes (pbytes p) b0 = Inr b"
      by (auto simp: pipe_encode_def rbind_Inr_iff)
    from encode_stages [OF b0(2)] obtain st where st: "st ! 0 = b0" "st ! length (pbytes p) = b"
      "\<forall>i < length (pbytes p). EncodeBytes (pbytes p ! i) (st ! i) = Inr (st ! Suc i)" by blast
    have "encodedBound ?a spec = unbounded \<or> int (length (st ! 0)) \<le> encodedBound ?a spec"
      using a(2) that b0(1) unfolding bound_sound_def st(1) by (simp add: pipe_ok_def oks)
    with st b0(1) that(1) bb [OF that(1)] show ?thesis
      using stages_bounded [OF bb [OF that(1)] _ st(3)] by (auto simp: pipe_ok_def)
  qed
  show "array_codec (pipe_encode p) (pipe_decode p) (pipe_ok oks p)"
  proof
    fix spec c b
    assume ok: "pipe_ok oks p spec" and c: "chunk_of spec c" and enc: "pipe_encode p c spec = Inr b"
      and lb: "length b < 2 ^ 63"
    from stages [OF ok c enc] obtain st where st: "EncodeArray ?a c spec = Inr (st ! 0)" "st ! length (pbytes p) = b"
      "\<forall>i < length (pbytes p). EncodeBytes (pbytes p ! i) (st ! i) = Inr (st ! Suc i)"
      "\<forall>i < length (pbytes p). int (length (st ! i)) \<le> stage_limit p spec i" by blast
    have known: "limits_known p spec" using ok by (simp add: pipe_ok_def)
    have "length (st ! 0) < 2 ^ 63"
    proof (cases "pbytes p = []")
      case True
      with st(2) lb show ?thesis by simp
    next
      case False
      then have "int (length (st ! 0)) \<le> maxStoredBytes * 2"
        using st(4) known by (fastforce simp: limits_known_def)
      then show ?thesis by (simp add: maxStoredBytes_def)
    qed
    moreover have "ok1 spec" using ok by (simp add: pipe_ok_def oks)
    ultimately obtain c' where c': "DecodeArray ?a (st ! 0) spec = Inr c'" "veqs (elems c') (elems c)"
      using array_codec.decode_encode [OF a(1) _ c st(1)] by blast
    have "rfold (decode_bytes_step p spec) (rev [0 ..< length (pbytes p)]) b = Inr (st ! 0)"
      using stages_back [OF bb [OF ok] known st(3,4)] st(2) by blast
    with c' show "\<exists>c'. pipe_decode p b spec = Inr c' \<and> veqs (elems c') (elems c)" by (simp add: pipe_decode_def)
  next
    fix spec b c
    assume ok: "pipe_ok oks p spec" and dec: "pipe_decode p b spec = Inr c"
    then show "chunk_of spec c"
      using array_codec.decode_typed [OF a(1)] by (auto simp: pipe_decode_def rbind_Inr_iff pipe_ok_def oks)
  next
    fix spec c
    assume ok: "pipe_ok oks p spec" and c: "chunk_of spec c"
    have "\<forall>c \<in> set bs. bytes_bytes c \<Longrightarrow> \<exists>b. rfold EncodeBytes bs b0 = Inr b" for bs b0
    proof (induction bs arbitrary: b0)
      case (Cons c bs)
      then obtain b1 where "EncodeBytes c b0 = Inr b1" using bytes_bytes.encode_total by (meson list.set_intros(1))
      with Cons show ?case by simp
    qed simp
    moreover obtain b0 where "EncodeArray ?a c spec = Inr b0"
      using array_codec.encode_total [OF a(1) _ c] ok by (auto simp: pipe_ok_def oks)
    ultimately show "\<exists>b. pipe_encode p c spec = Inr b" using bb [OF ok] by (simp add: pipe_encode_def)
  qed
  show "bound_sound (pipe_encode p) (pipe_bound p) (pipe_ok oks p)"
    unfolding bound_sound_def
  proof (intro allI impI)
    fix spec c b
    assume ok: "pipe_ok oks p spec" and c: "chunk_of spec c" and enc: "pipe_encode p c spec = Inr b"
    then obtain b0 where b0: "EncodeArray ?a c spec = Inr b0" "rfold EncodeBytes (pbytes p) b0 = Inr b"
      by (auto simp: pipe_encode_def rbind_Inr_iff)
    have "encodedBound ?a spec = unbounded \<or> int (length b0) \<le> encodedBound ?a spec"
      using a(2) ok c b0(1) unfolding bound_sound_def by (simp add: pipe_ok_def oks)
    then show "pipe_bound p spec = unbounded \<or> int (length b) \<le> pipe_bound p spec"
      unfolding pipe_bound_def using bound_loop_sound [OF bb [OF ok] b0(2)] by blast
  qed
qed

section \<open>The laws of the sharding codec\<close>

lemma extractBlock_typed:
  assumes "extractBlock c shape at n = Inr sub" "wt_slice c"
  shows "wt_slice sub \<and> stype sub = stype c \<and> length (elems sub) = product_of n"
proof -
  from assms obtain out where o: "copyBlock (replicate (product_of n) (zero_of (stype c))) n (zeros (length n)) (elems c) shape at n = Inr out"
    "sub = Slice (stype c) out" by (auto simp: extractBlock_def rbind_Inr_iff)
  with copyBlock_subset [OF o(1)] assms(2) show ?thesis by (auto simp: wt_slice_def)
qed

lemma join_chunks_bound:
  "(\<And>b. Some b \<in> set chunks \<Longrightarrow> int (length b) \<le> cb) \<Longrightarrow> 0 \<le> cb \<Longrightarrow>
     int (length (join_chunks chunks)) \<le> int (length chunks) * cb"
proof (induction chunks)
  case (Cons c chunks)
  have IH: "int (length (join_chunks chunks)) \<le> int (length chunks) * cb" using Cons by simp
  show ?case
  proof (cases c)
    case None
    with IH Cons.prems(2) show ?thesis by (simp add: algebra_simps)
  next
    case (Some b)
    with Cons.prems(1) [of b] IH show ?thesis by (simp add: algebra_simps)
  qed
qed simp

context sharding
begin

lemma shard_encoded_bound:
  assumes per: "perShard (chunkShape s) (spShape spec) = Inr per" and pos: "positive (spShape spec)"
    and iok: "iok (indexSpec per)" and ok: "ok (innerSpec s spec)" and c: "chunk_of spec c"
    and enc: "shard_EncodeArray s c spec = Inr b"
    and ib: "\<And>c b. chunk_of (indexSpec per) c \<Longrightarrow> indexEnc s c (indexSpec per) = Inr b \<Longrightarrow> int (length b) \<le> ib"
    and cb: "\<And>c b. chunk_of (innerSpec s spec) c \<Longrightarrow> innerEnc s c (innerSpec s spec) = Inr b \<Longrightarrow> int (length b) \<le> cb"
  shows "int (length b) \<le> ib + int (product_of per) * cb \<and> 0 \<le> ib \<and> 0 \<le> cb"
proof -
  have wt: "wt_slice c" "stype c = spType spec" using c by (auto simp: chunk_of_def)
  from encoded_chunks [OF per pos enc] obtain chunks where
    chunks: "rmap (encode_one s c spec) (eachIndex_order (zeros (length per)) (minusOne per)) = Inr chunks"
    "length chunks = product_of per" "assemble s per chunks = Inr b" by blast
  from chunks(3) obtain sz ix ibs where p: "fst (place (if atStart s then sz else 0) chunks) = ix"
    "encodeIndex s per ix = Inr ibs" "length b = length ibs + length (join_chunks chunks)"
    by (auto simp: assemble_def rbind_Inr_iff Let_def case_prod_unfold)
  have lix: "length ix = 2 * product_of per"
    using place_length [of "if atStart s then sz else 0" chunks ix "snd (place (if atStart s then sz else 0) chunks)"]
      p(1) chunks(2) by (simp add: prod_eq_iff)
  then have ci: "chunk_of (indexSpec per) (Slice Uint64 (map VUint64 ix))"
    by (auto simp: chunk_of_def wt_slice_def indexSpec_def)
  have 1: "int (length ibs) \<le> ib" using ib [OF ci] p(2) by (simp add: encodeIndex_def)
  have cb0: "0 \<le> cb"
  proof -
    let ?c = "Slice (spType spec) (replicate (product_of (chunkShape s)) (zero_of (spType spec)))"
    have "chunk_of (innerSpec s spec) ?c" using wt by (auto simp: chunk_of_def wt_slice_def innerSpec_def)
    with inner.encode_total [OF ok this] cb show ?thesis by (metis of_nat_0_le_iff order_trans)
  qed
  have "int (length bj) \<le> cb" if bj: "Some bj \<in> set chunks" for bj
  proof -
    from bj obtain j where j: "j < length chunks" "chunks ! j = Some bj" by (auto simp: in_set_conv_nth)
    with chunks(1) obtain l where "encode_one s c spec l = Inr (Some bj)"
      by (auto simp: rmap_Inr_iff list_all2_conv_all_nth)
    then obtain sub where sub: "extractBlock c (spShape spec) (timesV l (chunkShape s)) (chunkShape s) = Inr sub"
      "encodeChunk s sub spec = Inr bj"
      by (auto simp: encode_one_def rbind_Inr_iff split: if_splits)
    with extractBlock_typed [OF sub(1) wt(1)] wt(2) show ?thesis
      by (intro cb [of sub]) (simp_all add: encodeChunk_def chunk_of_def innerSpec_def)
  qed
  then have "int (length (join_chunks chunks)) \<le> int (length chunks) * cb" using cb0 by (rule join_chunks_bound)
  with 1 p(3) chunks(2) cb0 show ?thesis by simp
qed

end

text \<open>Codecs that encode every chunk of so many elements to the same length.\<close>

fun fixed_codec :: "codec \<Rightarrow> bool" where
  "fixed_codec (BytesCodec e) = True"
| "fixed_codec CRC32CCodec = True"
| "fixed_codec (ShuffleCodec es) = True"
| "fixed_codec _ = False"

lemma fixed_pipeline:
  assumes p: "pipelineOf (map (codec_iface env) cs) = Inr p" and f: "\<forall>c \<in> set cs. fixed_codec c"
    and c: "wt_slice c" "stype c = spType spec" and d: "wt_slice d" "stype d = spType spec"
    and l: "length (elems c) = length (elems d)"
    and enc: "pipe_encode p c spec = Inr b" "pipe_encode p d spec = Inr b'"
  shows "length b = length b'"
proof -
  from pipelineOf_Inr [OF p] f obtain a where "codec_iface env a = ArrayBytes (parray p)" "fixed_codec a"
    by (cases cs) auto
  then obtain e where a: "parray p = bytes_iface env e" by (cases a) (auto dest: sym)
  have bs: "\<exists>k. codec_iface env k = BytesBytes bb \<and> fixed_codec k" if "bb \<in> set (pbytes p)" for bb
  proof -
    have "BytesBytes bb \<in> set (map (codec_iface env) cs)" using pipelineOf_Inr [OF p] that by simp
    with f show ?thesis by auto
  qed
  have step: "length x' = length y'" if "bb \<in> set (pbytes p)" "length x = length y"
    "EncodeBytes bb x = Inr x'" "EncodeBytes bb y = Inr y'" for bb x y x' y'
  proof -
    from bs [OF that(1)] obtain k where "codec_iface env k = BytesBytes bb" "fixed_codec k" by blast
    with that(2-4) show ?thesis
      by (cases k) (auto simp: crc_iface_def shuffle_iface_def dest!: crc_length shuffle_length)
  qed
  have run: "set bs \<subseteq> set (pbytes p) \<Longrightarrow> length x = length y \<Longrightarrow> rfold EncodeBytes bs x = Inr x' \<Longrightarrow>
      rfold EncodeBytes bs y = Inr y' \<Longrightarrow> length x' = length y'" for bs x y x' y'
  proof (induction bs arbitrary: x y)
    case (Cons bb bs)
    then obtain x1 y1 where "EncodeBytes bb x = Inr x1" "rfold EncodeBytes bs x1 = Inr x'"
      "EncodeBytes bb y = Inr y1" "rfold EncodeBytes bs y1 = Inr y'" by (auto simp: rbind_Inr_iff)
    with Cons step [of bb x y x1 y1] show ?case by auto
  qed simp
  from enc a obtain x y where xy: "bytes_EncodeArray (native env) e c spec = Inr x" "rfold EncodeBytes (pbytes p) x = Inr b"
    "bytes_EncodeArray (native env) e d spec = Inr y" "rfold EncodeBytes (pbytes p) y = Inr b'"
    by (auto simp: pipe_encode_def rbind_Inr_iff bytes_iface_def)
  then obtain order where o: "bytes_order e (spType spec) = Inr order" by (auto simp: bytes_EncodeArray_def rbind_Inr_iff)
  have "x = elem_bytes order c" "y = elem_bytes order d"
    using xy(1,3) bytes_EncodeArray_eq [OF c(1) o c(2)] bytes_EncodeArray_eq [OF d(1) o d(2)] by auto
  then have "length x = length y" using l c(2) d(2) by (simp add: length_elem_bytes)
  with run xy show ?thesis by blast
qed

text \<open>What the sharding codec is right for.\<close>

definition sharding_ok :: "int list \<Rightarrow> string \<Rightarrow> iface list \<Rightarrow> iface list \<Rightarrow>
    (chunkSpec \<Rightarrow> bool) list \<Rightarrow> (chunkSpec \<Rightarrow> bool) list \<Rightarrow> chunkSpec \<Rightarrow> bool" where
  "sharding_ok cs loc inner index inner_oks index_oks spec \<longleftrightarrow>
     (case prepare cs loc inner index of
        Inl _ \<Rightarrow> False
      | Inr (s, ip, xp) \<Rightarrow>
          (case perShard (chunkShape s) (spShape spec) of
             Inl _ \<Rightarrow> False
           | Inr per \<Rightarrow>
               positive (spShape spec) \<and> type_of (spFill spec) = spType spec \<and>
               (\<exists>z. storedBytes (ints (spShape spec)) (spType spec) = Inr z) \<and>
               (\<exists>z. storedBytes (ints (per @ [2])) Uint64 = Inr z) \<and>
               pipe_ok inner_oks ip (innerSpec s spec) \<and> pipe_ok index_oks xp (indexSpec per)))"

primrec codec_ok :: "env \<Rightarrow> codec \<Rightarrow> chunkSpec \<Rightarrow> bool" where
  "codec_ok env (BytesCodec e) = bytes_ok e"
| "codec_ok env (FortranBytes e) = bytes_ok e"
| "codec_ok env (ShardingCodec cs inner index loc) = (\<lambda>spec.
     (\<forall>c \<in> set (snd (codecLists inner index)). fixed_codec c) \<and>
     sharding_ok cs loc
       (map (codec_iface env) (fst (codecLists inner index))) (map (codec_iface env) (snd (codecLists inner index)))
       (case map_option (map (codec_ok env)) inner of None \<Rightarrow> [bytes_ok ''little''] | Some fs \<Rightarrow> fs)
       (case map_option (map (codec_ok env)) index of None \<Rightarrow> [bytes_ok ''little'', \<lambda>_. True] | Some fs \<Rightarrow> fs)
       spec)"
| "codec_ok env (GzipCodec level) = (\<lambda>_. env_ok env \<and> 0 \<le> level \<and> level \<le> 9)"
| "codec_ok env (ZlibCodec level) = (\<lambda>_. env_ok env \<and> 0 \<le> level \<and> level \<le> 9)"
| "codec_ok env CRC32CCodec = (\<lambda>_. True)"
| "codec_ok env (ShuffleCodec es) = (\<lambda>_. 0 \<le> es)"
| "codec_ok env (ExtCodec name) = (\<lambda>_. bytes_bytes (ext_iface env name))"

lemma codec_ok_sharding:
  "codec_ok env (ShardingCodec cs inner index loc) spec \<longleftrightarrow>
     (\<forall>c \<in> set (snd (codecLists inner index)). fixed_codec c) \<and>
     sharding_ok cs loc
       (map (codec_iface env) (fst (codecLists inner index))) (map (codec_iface env) (snd (codecLists inner index)))
       (map (codec_ok env) (fst (codecLists inner index))) (map (codec_ok env) (snd (codecLists inner index))) spec"
  by (simp add: codecLists_def default_inner_def default_index_def split: option.splits)

lemma bytes_bound_eq: "bytes_ok e spec \<Longrightarrow> bytes_bound spec = int (product_of (spShape spec) * dsize (spType spec))"
  using storedBytes_Inr by (fastforce simp: bytes_ok_def bytes_bound_def)

lemma bytes_iface_laws: "iface_laws (ArrayBytes (bytes_iface env e)) (bytes_ok e)"
proof -
  have "bound_sound (bytes_EncodeArray (native env) e) bytes_bound (bytes_ok e)"
    unfolding bound_sound_def
    by (simp add: bytes_bound_eq bytes_encoded_length)
  then show ?thesis by (simp add: iface_laws_def bytes_iface_def bytes_codec.array_codec_axioms)
qed

lemma fortran_iface_laws: "iface_laws (ArrayBytes (fortran_iface env e)) (bytes_ok e)"
proof -
  have "bound_sound (fortran_EncodeArray (native env) e) bytes_bound (bytes_ok e)"
    unfolding bound_sound_def
  proof (intro allI impI)
    fix spec c b
    assume a: "bytes_ok e spec" "chunk_of spec c" "fortran_EncodeArray (native env) e c spec = Inr b"
    then obtain b0 where b0: "bytes_EncodeArray (native env) e c spec = Inr b0"
      "reorder (replicate (length b0) 0) b0 (spShape spec) (dsize (spType spec)) False = Inr b"
      by (auto simp: fortran_EncodeArray_def rbind_Inr_iff)
    have l: "length b0 = product_of (spShape spec) * dsize (spType spec)"
      by (rule bytes_encoded_length [OF a(2) b0(1)])
    from reorder_back [OF l b0(2)] l bytes_bound_eq [OF a(1)]
    show "bytes_bound spec = unbounded \<or> int (length b) \<le> bytes_bound spec" by simp
  qed
  then show ?thesis by (simp add: iface_laws_def fortran_iface_def fortran_codec.array_codec_axioms)
qed

text \<open>The sharding codec of two pipelines whose codecs are lawful.\<close>

lemma sharding_locale:
  assumes inner: "pipelineOf (map (codec_iface env) ics) = Inr ip" "list_all2 iface_laws (map (codec_iface env) ics) ioks"
    and index: "pipelineOf (map (codec_iface env) xcs) = Inr xp" "list_all2 iface_laws (map (codec_iface env) xcs) xoks"
    and fixed: "\<forall>c \<in> set xcs. fixed_codec c"
  shows "sharding (shard_of cs loc ip xp) (pipe_ok xoks xp) (pipe_ok ioks ip)"
proof -
  let ?s = "shard_of cs loc ip xp"
  have "array_codec (indexEnc ?s) (indexDec ?s) (pipe_ok xoks xp)" "array_codec (innerEnc ?s) (innerDec ?s) (pipe_ok ioks ip)"
    using pipeline_laws(1) [OF index] pipeline_laws(1) [OF inner] by (simp_all add: shard_of_def)
  moreover have "sharding_axioms ?s (pipe_ok xoks xp)"
  proof
    fix per and ix iy :: "64 word list" and b b'
    assume "length ix = length iy" "encodeIndex ?s per ix = Inr b" "encodeIndex ?s per iy = Inr b'"
    then show "length b = length b'"
      using fixed_pipeline [OF index(1) fixed, of "Slice Uint64 (map VUint64 ix)" "indexSpec per" "Slice Uint64 (map VUint64 iy)"]
      by (auto simp: encodeIndex_def shard_of_def wt_slice_def indexSpec_def)
  qed
  ultimately show ?thesis by (intro sharding.intro)
qed

lemma sharding_iface_laws:
  assumes inner: "list_all2 iface_laws (map (codec_iface env) ics) ioks"
    and index: "list_all2 iface_laws (map (codec_iface env) xcs) xoks"
  shows "iface_laws (ArrayBytes (sharding_iface cs loc (map (codec_iface env) ics) (map (codec_iface env) xcs)))
           (\<lambda>spec. (\<forall>c \<in> set xcs. fixed_codec c) \<and>
              sharding_ok cs loc (map (codec_iface env) ics) (map (codec_iface env) xcs) ioks xoks spec)"
    (is "iface_laws (ArrayBytes ?a) ?ok")
proof -
  have ok: "\<exists>s ip xp per. prepare cs loc (map (codec_iface env) ics) (map (codec_iface env) xcs) = Inr (s, ip, xp) \<and>
      perShard (chunkShape s) (spShape spec) = Inr per \<and> positive (spShape spec) \<and> type_of (spFill spec) = spType spec \<and>
      (\<exists>z. storedBytes (ints (spShape spec)) (spType spec) = Inr z) \<and>
      (\<exists>z. storedBytes (ints (per @ [2])) Uint64 = Inr z) \<and>
      pipe_ok ioks ip (innerSpec s spec) \<and> pipe_ok xoks xp (indexSpec per) \<and>
      s = shard_of cs loc ip xp \<and> sharding s (pipe_ok xoks xp) (pipe_ok ioks ip) \<and>
      bound_sound (pipe_encode ip) (pipe_bound ip) (pipe_ok ioks ip) \<and> bound_sound (pipe_encode xp) (pipe_bound xp) (pipe_ok xoks xp)"
    if o: "?ok spec" for spec
  proof -
    from o obtain s ip xp where p0: "prepare cs loc (map (codec_iface env) ics) (map (codec_iface env) xcs) = Inr (s, ip, xp)"
      by (cases "prepare cs loc (map (codec_iface env) ics) (map (codec_iface env) xcs)") (auto simp: sharding_ok_def)
    moreover from this o obtain per where "perShard (chunkShape s) (spShape spec) = Inr per"
      by (cases "perShard (chunkShape s) (spShape spec)") (auto simp: sharding_ok_def)
    ultimately have p: "prepare cs loc (map (codec_iface env) ics) (map (codec_iface env) xcs) = Inr (s, ip, xp)"
      "perShard (chunkShape s) (spShape spec) = Inr per" by auto
    then have q: "pipelineOf (map (codec_iface env) ics) = Inr ip" "pipelineOf (map (codec_iface env) xcs) = Inr xp"
      "s = shard_of cs loc ip xp"
      by (auto simp: prepare_def rbind_Inr_iff Let_def)
    with p o sharding_locale [OF q(1) inner q(2) index] pipeline_laws(2) [OF q(1) inner] pipeline_laws(2) [OF q(2) index]
    show ?thesis by (intro exI [of _ s] exI [of _ ip] exI [of _ xp] exI [of _ per]) (auto simp: sharding_ok_def)
  qed
  have "array_codec (EncodeArray ?a) (DecodeArray ?a) ?ok"
  proof
    fix spec c b
    assume a: "?ok spec" "chunk_of spec c" "EncodeArray ?a c spec = Inr b" "length b < 2 ^ 63"
    from ok [OF a(1)] obtain s ip xp per z where
      p: "prepare cs loc (map (codec_iface env) ics) (map (codec_iface env) xcs) = Inr (s, ip, xp)"
      and sp: "perShard (chunkShape s) (spShape spec) = Inr per" "positive (spShape spec)"
        "storedBytes (ints (spShape spec)) (spType spec) = Inr z" "type_of (spFill spec) = spType spec"
        "pipe_ok xoks xp (indexSpec per)" "pipe_ok ioks ip (innerSpec s spec)"
      and sh: "sharding s (pipe_ok xoks xp) (pipe_ok ioks ip)" by blast
    have "shard_EncodeArray s c spec = Inr b" using a(3) p by (simp add: sharding_iface_def)
    from sharding.shard_decode_encode [OF sh sp a(2) this a(4)] p
    show "\<exists>c'. DecodeArray ?a b spec = Inr c' \<and> veqs (elems c') (elems c)"
      by (simp add: sharding_iface_def)
  next
    fix spec c b
    assume a: "?ok spec" "DecodeArray ?a b spec = Inr c"
    from ok [OF a(1)] a(2) show "chunk_of spec c"
      by (auto simp: sharding_iface_def intro: sharding.shard_decode_typed)
  next
    fix spec c
    assume a: "?ok spec" "chunk_of spec c"
    from ok [OF a(1)] obtain s ip xp per z where
      p: "prepare cs loc (map (codec_iface env) ics) (map (codec_iface env) xcs) = Inr (s, ip, xp)"
      and sp: "perShard (chunkShape s) (spShape spec) = Inr per" "positive (spShape spec)"
        "storedBytes (ints (per @ [2])) Uint64 = Inr z" "type_of (spFill spec) = spType spec"
        "pipe_ok xoks xp (indexSpec per)" "pipe_ok ioks ip (innerSpec s spec)"
      and sh: "sharding s (pipe_ok xoks xp) (pipe_ok ioks ip)" by blast
    from sharding.shard_encode_total [OF sh sp a(2)] p show "\<exists>b. EncodeArray ?a c spec = Inr b"
      by (simp add: sharding_iface_def)
  qed
  moreover have "bound_sound (EncodeArray ?a) (encodedBound ?a) ?ok"
    unfolding bound_sound_def
  proof (intro allI impI)
    fix spec c b
    assume a: "?ok spec" "chunk_of spec c" "EncodeArray ?a c spec = Inr b"
    from ok [OF a(1)] obtain s ip xp per where
      p: "prepare cs loc (map (codec_iface env) ics) (map (codec_iface env) xcs) = Inr (s, ip, xp)"
      "perShard (chunkShape s) (spShape spec) = Inr per" "positive (spShape spec)"
      "pipe_ok ioks ip (innerSpec s spec)" "pipe_ok xoks xp (indexSpec per)" "s = shard_of cs loc ip xp"
      and sh: "sharding s (pipe_ok xoks xp) (pipe_ok ioks ip)"
      and bs: "bound_sound (pipe_encode ip) (pipe_bound ip) (pipe_ok ioks ip)"
        "bound_sound (pipe_encode xp) (pipe_bound xp) (pipe_ok xoks xp)" by blast
    show "encodedBound ?a spec = unbounded \<or> int (length b) \<le> encodedBound ?a spec"
    proof (cases "encodedBound ?a spec = unbounded")
      case False
      let ?ib = "pipe_bound xp (indexSpec per)" and ?cb = "pipe_bound ip (innerSpec s spec)"
      have b: "?ib \<noteq> unbounded" "?cb \<noteq> unbounded" "encodedBound ?a spec = ?ib + int (product_of per) * ?cb"
        using False p(1,2) elements_ints
        by (auto simp: sharding_iface_def sharding_bound_def Let_def split: option.splits if_splits)
      have "int (length b) \<le> ?ib + int (product_of per) * ?cb \<and> 0 \<le> ?ib \<and> 0 \<le> ?cb"
      proof (rule sharding.shard_encoded_bound [OF sh p(2,3,5,4) a(2)])
        show "shard_EncodeArray s c spec = Inr b" using a(3) p(1) by (simp add: sharding_iface_def)
      next
        fix c b assume "chunk_of (indexSpec per) c" "indexEnc s c (indexSpec per) = Inr b"
        with bs(2) p(5,6) b(1) show "int (length b) \<le> ?ib" by (auto simp: bound_sound_def shard_of_def)
      next
        fix c b assume "chunk_of (innerSpec s spec) c" "innerEnc s c (innerSpec s spec) = Inr b"
        with bs(1) p(4,6) b(2) show "int (length b) \<le> ?cb" by (auto simp: bound_sound_def shard_of_def)
      qed
      with b(3) show ?thesis by simp
    qed simp
  qed
  ultimately show ?thesis by (simp add: iface_laws_def)
qed

text \<open>Every codec is lawful for the specs it is right for, however deep shards are in shards.\<close>

lemma codec_laws: "iface_laws (codec_iface env c) (codec_ok env c)"
proof (induction c)
  case (ShardingCodec cs inner index loc)
  have leaf: "iface_laws (codec_iface env c) (codec_ok env c)" if "c \<in> set default_inner \<union> set default_index" for c
    using that crc_codec.bytes_bytes_axioms
    by (auto simp: default_inner_def default_index_def bytes_iface_laws iface_laws_def [of "BytesBytes _"])
  have "iface_laws (codec_iface env c) (codec_ok env c)"
    if "c \<in> set (fst (codecLists inner index)) \<union> set (snd (codecLists inner index))" for c
    using that ShardingCodec leaf by (auto simp: codecLists_def split: option.splits)
  then have "list_all2 iface_laws (map (codec_iface env) (fst (codecLists inner index)))
      (map (codec_ok env) (fst (codecLists inner index)))"
    "list_all2 iface_laws (map (codec_iface env) (snd (codecLists inner index)))
      (map (codec_ok env) (snd (codecLists inner index)))"
    by (auto simp: list_all2_conv_all_nth)
  from sharding_iface_laws [OF this, of cs loc] show ?case
    unfolding codec_iface_sharding codec_ok_sharding [abs_def] .
next
  case (ShuffleCodec es)
  then show ?case using shuffle_codec.bytes_bytes_axioms [of "nat es"] by (auto simp: iface_laws_def)
next
  case (BytesCodec e)
  then show ?case by (simp add: bytes_iface_laws)
next
  case (FortranBytes e)
  then show ?case by (simp add: fortran_iface_laws)
qed (simp_all add: iface_laws_def gzip_laws zlib_laws crc_codec.bytes_bytes_axioms)

section \<open>Pipelines of the model\<close>

text \<open>The specs a pipeline of codecs is right for.\<close>

definition codecs_ok :: "env \<Rightarrow> codec list \<Rightarrow> pipeline \<Rightarrow> chunkSpec \<Rightarrow> bool" where
  "codecs_ok env cs p spec \<longleftrightarrow> codec_pipeline env cs = Inr p \<and> pipe_ok (map (codec_ok env) cs) p spec"

lemma codecs_laws:
  assumes "codec_pipeline env cs = Inr p"
  shows "array_codec (pipe_encode p) (pipe_decode p) (pipe_ok (map (codec_ok env) cs) p)"
    and "bound_sound (pipe_encode p) (pipe_bound p) (pipe_ok (map (codec_ok env) cs) p)"
proof -
  have "list_all2 iface_laws (map (codec_iface env) cs) (map (codec_ok env) cs)"
    by (simp add: list_all2_conv_all_nth codec_laws)
  with assms show "array_codec (pipe_encode p) (pipe_decode p) (pipe_ok (map (codec_ok env) cs) p)"
    "bound_sound (pipe_encode p) (pipe_bound p) (pipe_ok (map (codec_ok env) cs) p)"
    unfolding codec_pipeline_def by (rule pipeline_laws)+
qed

interpretation pipelines: array_codec "pipe_encode p" "pipe_decode p" "codecs_ok env cs p" for env cs p
proof
  fix spec c b
  assume "codecs_ok env cs p spec" "chunk_of spec c" "pipe_encode p c spec = Inr b" "length b < 2 ^ 63"
  then show "\<exists>c'. pipe_decode p b spec = Inr c' \<and> veqs (elems c') (elems c)"
    using array_codec.decode_encode [OF codecs_laws(1)] unfolding codecs_ok_def by blast
next
  fix spec c b
  assume "codecs_ok env cs p spec" "pipe_decode p b spec = Inr c"
  then show "chunk_of spec c"
    using array_codec.decode_typed [OF codecs_laws(1)] unfolding codecs_ok_def by blast
next
  fix spec c
  assume "codecs_ok env cs p spec" "chunk_of spec c"
  then show "\<exists>b. pipe_encode p c spec = Inr b"
    using array_codec.encode_total [OF codecs_laws(1)] unfolding codecs_ok_def by blast
qed

text \<open>The sharding codec on two pipelines of the model.\<close>

definition index_codecs_ok :: "env \<Rightarrow> codec list \<Rightarrow> pipeline \<Rightarrow> chunkSpec \<Rightarrow> bool" where
  "index_codecs_ok env cs p spec \<longleftrightarrow> (\<forall>c \<in> set cs. fixed_codec c) \<and> codecs_ok env cs p spec"

interpretation shards: sharding "shard_of cs loc ip xp" "index_codecs_ok env xcs xp" "codecs_ok env ics ip"
  for cs loc ip xp env ics xcs
proof -
  have "array_codec (pipe_encode xp) (pipe_decode xp) (index_codecs_ok env xcs xp)"
    using pipelines.decode_encode [of env xcs xp] pipelines.decode_typed [of env xcs xp]
      pipelines.encode_total [of env xcs xp]
    by unfold_locales (simp_all add: index_codecs_ok_def)
  then have "array_codec (indexEnc (shard_of cs loc ip xp)) (indexDec (shard_of cs loc ip xp)) (index_codecs_ok env xcs xp)"
    "array_codec (innerEnc (shard_of cs loc ip xp)) (innerDec (shard_of cs loc ip xp)) (codecs_ok env ics ip)"
    using pipelines.array_codec_axioms [of ip env ics] by (simp_all add: shard_of_def)
  moreover have "sharding_axioms (shard_of cs loc ip xp) (index_codecs_ok env xcs xp)"
  proof
    fix per and ix iy :: "64 word list" and b b'
    assume "index_codecs_ok env xcs xp (indexSpec per)" "length ix = length iy"
      "encodeIndex (shard_of cs loc ip xp) per ix = Inr b" "encodeIndex (shard_of cs loc ip xp) per iy = Inr b'"
    then show "length b = length b'"
      using fixed_pipeline [of env xcs xp "Slice Uint64 (map VUint64 ix)" "indexSpec per" "Slice Uint64 (map VUint64 iy)"]
      by (auto simp: encodeIndex_def shard_of_def wt_slice_def indexSpec_def index_codecs_ok_def codecs_ok_def codec_pipeline_def)
  qed
  ultimately show "sharding (shard_of cs loc ip xp) (index_codecs_ok env xcs xp) (codecs_ok env ics ip)"
    by (intro sharding.intro)
qed

end
