(* ===== verification/Keys.thy ===== *)
theory Keys
  imports Prelude "HOL-Library.Sublist"
begin

text \<open>
  The names things have in a store: the keys of stored objects (\<open>keyEncoding\<close> of
  \<open>src/array.go\<close>), \<open>join\<close>, \<open>checkPath\<close> and \<open>metadataKey\<close> of \<open>src/metadata.go\<close>, and the rules for
  keys and prefixes of \<open>src/store.go\<close>.

  The lemmas: two stored objects of an array never share a key, no key of a stored object is
  that of metadata, every key the package makes under a good path is a good key, and no good
  key has a segment that climbs out of a store.
\<close>

section \<open>Numbers as strings\<close>

definition digit :: "nat \<Rightarrow> char" where
  "digit n = char_of (48 + n)"

text \<open>\<open>strconv.Itoa\<close> of a number that is not negative.\<close>

fun itoa :: "nat \<Rightarrow> string" where
  "itoa n = (if n < 10 then [digit n] else itoa (n div 10) @ [digit (n mod 10)])"

declare itoa.simps [simp del]

definition is_digit :: "char \<Rightarrow> bool" where
  "is_digit c \<longleftrightarrow> (48::nat) \<le> of_char c \<and> of_char c \<le> (57::nat)"

definition atoi :: "string \<Rightarrow> nat" where
  "atoi s = foldl (\<lambda>n c. 10 * n + (of_char c - 48)) 0 s"

lemma of_char_digit: "n < 10 \<Longrightarrow> of_char (digit n) = 48 + n"
  by (simp add: digit_def)

lemma itoa_digits: "\<forall>c \<in> set (itoa n). is_digit c"
proof (induction n rule: itoa.induct)
  case (1 n)
  have "is_digit (digit k)" if "k < 10" for k using that by (simp add: is_digit_def of_char_digit)
  with 1 show ?case by (subst itoa.simps) simp
qed

lemma itoa_not_Nil: "itoa n \<noteq> []"
  by (subst itoa.simps) simp

lemma atoi_itoa: "atoi (itoa n) = n"
proof (induction n rule: itoa.induct)
  case (1 n)
  show ?case
  proof (cases "n < 10")
    case True
    then show ?thesis by (simp add: itoa.simps [of n] atoi_def of_char_digit)
  next
    case False
    then show ?thesis using 1 by (simp add: itoa.simps [of n] atoi_def of_char_digit)
  qed
qed

lemma itoa_inj: "itoa m = itoa n \<Longrightarrow> m = n"
  by (metis atoi_itoa)

section \<open>Joining and splitting\<close>

text \<open>\<open>strings.Join\<close> with a separator, and \<open>strings.Split\<close> at one of a single character.\<close>

fun str_join :: "string \<Rightarrow> string list \<Rightarrow> string" where
  "str_join sep [] = []"
| "str_join sep [s] = s"
| "str_join sep (s # ss) = s @ sep @ str_join sep ss"

fun str_split :: "char \<Rightarrow> string \<Rightarrow> string list" where
  "str_split c [] = [[]]"
| "str_split c (x # s) =
     (if x = c then [] # str_split c s
      else (case str_split c s of [] \<Rightarrow> [[x]] | seg # segs \<Rightarrow> (x # seg) # segs))"

lemma str_join_Cons: "ss \<noteq> [] \<Longrightarrow> str_join sep (s # ss) = s @ sep @ str_join sep ss"
  by (cases ss) auto

lemma str_split_not_Nil [simp]: "str_split c s \<noteq> []"
  by (cases s) (auto split: list.splits)

lemma str_split_clean: "c \<notin> set s \<Longrightarrow> str_split c s = [s]"
  by (induction s) auto

lemma str_split_append: "c \<notin> set s \<Longrightarrow> str_split c (s @ c # t) = s # str_split c t"
  by (induction s) auto

lemma split_join: "\<forall>s \<in> set ss. c \<notin> set s \<Longrightarrow> ss \<noteq> [] \<Longrightarrow> str_split c (str_join [c] ss) = ss"
proof (induction ss)
  case (Cons s ss)
  then show ?case by (cases "ss = []") (simp_all add: str_split_clean str_join_Cons str_split_append)
qed simp

lemma join_split: "str_join [c] (str_split c s) = s"
proof (induction s)
  case (Cons x s)
  obtain seg segs where e: "str_split c s = seg # segs" by (cases "str_split c s") auto
  with Cons show ?case by (cases segs) (auto simp: str_join_Cons)
qed simp

lemma str_split_segments: "seg \<in> set (str_split c s) \<Longrightarrow> c \<notin> set seg"
proof (induction s arbitrary: seg)
  case (Cons x s)
  obtain seg' segs where e: "str_split c s = seg' # segs" by (cases "str_split c s") auto
  with Cons show ?case by (auto split: if_splits)
qed simp

lemma str_split_join_append:
  "str_split c (s @ c # t) = str_split c s @ str_split c t"
proof (induction s)
  case (Cons x s)
  obtain seg segs where "str_split c s = seg # segs" by (cases "str_split c s") auto
  with Cons show ?case by simp
qed simp

section \<open>The keys of stored objects\<close>

record keyEncoding =
  k_v2 :: bool
  k_sep :: string

text \<open>\<open>keyEncoding.key\<close>\<close>

definition enc_key :: "keyEncoding \<Rightarrow> nat list \<Rightarrow> string" where
  "enc_key k idx =
     (let parts = map itoa idx
      in if k_v2 k then (if parts = [] then ''0'' else str_join (k_sep k) parts)
         else str_join (k_sep k) (''c'' # parts))"

definition join_path :: "string \<Rightarrow> string \<Rightarrow> string" where
  "join_path path name = (if path = [] then name else path @ ''/'' @ name)"

definition metadataKey :: "string \<Rightarrow> string" where
  "metadataKey path = join_path path ''zarr.json''"

text \<open>What \<open>parseKeyEncoding\<close> lets through: the separator is a slash or a dot.\<close>

definition enc_ok :: "keyEncoding \<Rightarrow> bool" where
  "enc_ok k \<longleftrightarrow> k_sep k = ''/'' \<or> k_sep k = ''.''"

lemma not_digit: "\<not> is_digit CHR ''/''" "\<not> is_digit CHR ''.''" "\<not> is_digit CHR ''c''" "\<not> is_digit CHR ''z''"
  "\<not> is_digit CHR ''_''" "\<not> is_digit CHR '':''" "\<not> is_digit (CHR 0x5C)"
  by (simp_all add: is_digit_def)

lemma itoa_clean: "\<not> is_digit c \<Longrightarrow> c \<notin> set (itoa n)"
  using itoa_digits by blast

lemma enc_key_inj:
  assumes ok: "enc_ok k" and len: "length idx = length idx'" and eq: "enc_key k idx = enc_key k idx'"
  shows "idx = idx'"
proof -
  obtain c where c: "k_sep k = [c]" "\<not> is_digit c" "c \<noteq> CHR ''c''" using ok by (auto simp: enc_ok_def not_digit)
  have clean: "\<forall>s \<in> set (map itoa i). c \<notin> set s" for i using itoa_clean [OF c(2)] by auto
  have inj: "map itoa i = map itoa j \<Longrightarrow> i = j" for i j by (rule map_injective) (auto intro: injI itoa_inj)
  show ?thesis
  proof (cases "k_v2 k")
    case True
    show ?thesis
    proof (cases "idx = []")
      case False
      with len have ne: "map itoa idx \<noteq> []" "map itoa idx' \<noteq> []" by auto
      with eq True have "str_join [c] (map itoa idx) = str_join [c] (map itoa idx')"
        by (simp add: enc_key_def c(1))
      then have "str_split c (str_join [c] (map itoa idx)) = str_split c (str_join [c] (map itoa idx'))" by simp
      then have "map itoa idx = map itoa idx'" using split_join [OF clean ne(1)] split_join [OF clean ne(2)] by simp
      then show ?thesis by (rule inj)
    qed (use len in simp)
  next
    case False
    have cc: "\<forall>s \<in> set (''c'' # map itoa i). c \<notin> set s" for i using clean c(3) by auto
    have "str_join [c] (''c'' # map itoa idx) = str_join [c] (''c'' # map itoa idx')"
      using eq False by (simp add: enc_key_def c(1))
    moreover have "str_split c (str_join [c] (''c'' # map itoa i)) = ''c'' # map itoa i" for i
      by (rule split_join [OF cc]) simp
    ultimately have "''c'' # map itoa idx = ''c'' # map itoa idx'" by metis
    then show ?thesis using inj by blast
  qed
qed

lemma join_path_inj: "join_path p a = join_path p b \<Longrightarrow> a = b"
  by (auto simp: join_path_def split: if_splits)

text \<open>No chunk's key is the metadata's: no key of digits and separators, or beginning with c,
  is \<open>zarr.json\<close>.\<close>

lemma str_join_hd: "\<exists>t. str_join sep ((c # s) # ss) = c # t"
  by (cases ss) auto

lemma enc_key_hd: "\<exists>c s. enc_key k idx = c # s \<and> (is_digit c \<or> c = CHR ''c'')"
proof (cases "k_v2 k")
  case True
  show ?thesis
  proof (cases idx)
    case Nil
    have "is_digit CHR ''0''" by (simp add: is_digit_def)
    with Nil True show ?thesis by (simp add: enc_key_def)
  next
    case (Cons i ix)
    obtain d s where d: "itoa i = d # s" by (cases "itoa i") (auto simp: itoa_not_Nil)
    then have "is_digit d" using itoa_digits [of i] by simp
    moreover obtain t where "str_join (k_sep k) ((d # s) # map itoa ix) = d # t" using str_join_hd by blast
    ultimately show ?thesis using True Cons d by (simp add: enc_key_def)
  qed
next
  case False
  obtain t where "str_join (k_sep k) ((CHR ''c'' # []) # map itoa idx) = CHR ''c'' # t" using str_join_hd by blast
  with False show ?thesis by (simp add: enc_key_def)
qed

lemma enc_key_not_metadata: "join_path p (enc_key k idx) \<noteq> metadataKey p"
proof
  assume "join_path p (enc_key k idx) = metadataKey p"
  then have "enc_key k idx = ''zarr.json''" unfolding metadataKey_def by (rule join_path_inj)
  with enc_key_hd [of k idx] show False by (auto simp: not_digit)
qed

section \<open>Keys, prefixes and paths that are allowed\<close>

text \<open>\<open>validSegments\<close>: the loop over the segments, with whether a segment is the last.\<close>

fun valid_loop :: "bool \<Rightarrow> bool \<Rightarrow> string list \<Rightarrow> bool" where
  "valid_loop lastMayBeEmpty reserved [] = True"
| "valid_loop lastMayBeEmpty reserved (seg # segs) =
     (if seg = ''.'' \<or> seg = ''..'' then False
      else if seg = [] \<and> \<not> (lastMayBeEmpty \<and> segs = []) then False
      else if reserved \<and> prefix ''__'' seg then False
      else valid_loop lastMayBeEmpty reserved segs)"

definition validSegments :: "string \<Rightarrow> bool \<Rightarrow> bool \<Rightarrow> bool" where
  "validSegments s lastMayBeEmpty reserved \<longleftrightarrow>
     CHR 0x5C \<notin> set s \<and> CHR '':'' \<notin> set s \<and> valid_loop lastMayBeEmpty reserved (str_split CHR ''/'' s)"

definition checkKey :: "string \<Rightarrow> unit res" where
  "checkKey key = rguard (validSegments key False False) (ErrOther ''bad key'')"

definition checkPrefix :: "string \<Rightarrow> unit res" where
  "checkPrefix p = rguard (validSegments p True False) (ErrOther ''bad prefix'')"

definition checkPath :: "string \<Rightarrow> unit res" where
  "checkPath path = rguard (path = [] \<or> validSegments path False True) (ErrOther ''bad path'')"

lemma valid_loop_iff:
  "valid_loop e r segs \<longleftrightarrow>
     (\<forall>seg \<in> set segs. seg \<noteq> ''.'' \<and> seg \<noteq> ''..'' \<and> (r \<longrightarrow> \<not> prefix ''__'' seg)) \<and>
     (\<forall>i < length segs. segs ! i = [] \<longrightarrow> e \<and> Suc i = length segs)"
proof (induction segs)
  case (Cons seg segs)
  then show ?case by (auto simp: All_less_Suc2)
qed simp

text \<open>What a good key keeps out: a path that is empty, absolute, or climbs.\<close>

lemma checkKey_iff:
  "checkKey key = Inr u \<longleftrightarrow>
     CHR 0x5C \<notin> set key \<and> CHR '':'' \<notin> set key \<and>
     (\<forall>seg \<in> set (str_split CHR ''/'' key). seg \<noteq> [] \<and> seg \<noteq> ''.'' \<and> seg \<noteq> ''..'')"
  by (auto simp: checkKey_def rguard_Inr_iff validSegments_def valid_loop_iff in_set_conv_nth)

lemma checkPath_key:
  assumes "checkPath path = Inr u" "validSegments name False False"
  shows "checkKey (join_path path name) = Inr ()"
proof (cases "path = []")
  case True
  with assms show ?thesis by (simp add: checkKey_def join_path_def)
next
  case False
  with assms(1) have p: "validSegments path False True" by (simp add: checkPath_def rguard_Inr_iff)
  have "str_split CHR ''/'' (path @ ''/'' @ name) = str_split CHR ''/'' path @ str_split CHR ''/'' name"
    by (simp add: str_split_join_append)
  with p assms(2) False show ?thesis
    by (auto simp: checkKey_def join_path_def validSegments_def valid_loop_iff nth_append rguard_Inr_iff)
qed

lemma set_str_join: "x \<in> set (str_join sep ss) \<Longrightarrow> x \<in> set sep \<or> (\<exists>s \<in> set ss. x \<in> set s)"
  by (induction sep ss rule: str_join.induct) auto

lemma enc_key_valid:
  assumes "enc_ok k"
  shows "validSegments (enc_key k idx) False False"
proof -
  let ?parts = "if k_v2 k then (if idx = [] then [''0''] else map itoa idx) else ''c'' # map itoa idx"
  have key: "enc_key k idx = str_join (k_sep k) ?parts" by (simp add: enc_key_def)
  have parts: "s \<noteq> [] \<and> (\<forall>c \<in> set s. is_digit c \<or> c = CHR ''c'')" if "s \<in> set ?parts" for s
    using that itoa_not_Nil itoa_digits by (auto simp: is_digit_def split: if_splits)
  have ne: "?parts \<noteq> []" by simp
  have chars: "is_digit c \<or> c = CHR ''c'' \<or> c \<in> set (k_sep k)" if "c \<in> set (enc_key k idx)" for c
    using that set_str_join [of c "k_sep k" ?parts] parts unfolding key by blast
  have safe: "CHR 0x5C \<notin> set (enc_key k idx)" "CHR '':'' \<notin> set (enc_key k idx)"
    using chars [of "CHR 0x5C"] chars [of "CHR '':''"] assms not_digit by (auto simp: enc_ok_def)
  show ?thesis
  proof (cases "k_sep k = ''/''")
    case True
    have "str_split CHR ''/'' (enc_key k idx) = ?parts"
      unfolding key True using parts not_digit ne by (intro split_join) force
    moreover have good: "s \<noteq> ''.'' \<and> s \<noteq> ''..'' \<and> s \<noteq> []" if "s \<in> set ?parts" for s
      using parts [OF that] not_digit by auto
    moreover have "valid_loop False False ?parts"
      unfolding valid_loop_iff using good nth_mem by blast
    ultimately show ?thesis using safe by (simp add: validSegments_def)
  next
    case False
    then have "CHR ''/'' \<notin> set (enc_key k idx)" using chars [of "CHR ''/''"] not_digit assms by (auto simp: enc_ok_def)
    then have "str_split CHR ''/'' (enc_key k idx) = [enc_key k idx]" by (rule str_split_clean)
    moreover have "enc_key k idx \<noteq> ''.'' \<and> enc_key k idx \<noteq> ''..'' \<and> enc_key k idx \<noteq> []"
      using enc_key_hd [of k idx] not_digit by auto
    ultimately show ?thesis using safe by (simp add: validSegments_def)
  qed
qed

lemma metadata_valid: "checkPath path = Inr u \<Longrightarrow> checkKey (metadataKey path) = Inr ()"
  unfolding metadataKey_def by (rule checkPath_key) (auto simp: validSegments_def)

end
