(* ===== verification/Stores.thy ===== *)
theory Stores
  imports Keys Limits "HOL-Library.DAList"
begin

text \<open>
  Stores (\<open>src/store.go\<close>): the interface \<open>Store\<close> with its optional \<open>RangeGetter\<close> and
  \<open>DirLister\<close> as a record of operations, \<open>MemoryStore\<close> as the model of one, and the derived
  \<open>ListDir\<close>.

  The state of a memory store is its map, as the type of association lists without duplicate keys,
  and a context: how many more times \<open>ctx.Err()\<close> is nil, or \<open>None\<close> if it is never cancelled. A
  listing is the list of the keys the callback is called with; \<open>MemoryStore\<close> takes them before
  the first call. \<open>DirStore\<close>, whose state is a file system, is in \<open>Dirs\<close>. The locale \<open>store_reads\<close> says
  what the rest of the package relies on of any store it reads from, and \<open>store_laws\<close> what it relies on
  beside that of one it writes to.
\<close>

section \<open>The interface\<close>

record 's store_ops =
  st_get :: "string \<Rightarrow> ('s, bytes) io"
  st_range :: "(string \<Rightarrow> int \<Rightarrow> int \<Rightarrow> ('s, bytes) io) option"
  st_set :: "string \<Rightarrow> bytes \<Rightarrow> ('s, unit) io"
  st_delete :: "string \<Rightarrow> ('s, unit) io"
  st_list :: "string \<Rightarrow> ('s, string list) io"
  st_listdir :: "(string \<Rightarrow> ('s, string list) io) option"

text \<open>Where a range of a value is: a negative offset counts back from the end.\<close>

definition range_at :: "bytes \<Rightarrow> int \<Rightarrow> int" where
  "range_at v off = (if off < 0 then off + int (length v) else off)"

definition range_in :: "bytes \<Rightarrow> int \<Rightarrow> int \<Rightarrow> bool" where
  "range_in v off len \<longleftrightarrow> 0 \<le> range_at v off \<and> 0 \<le> len \<and> range_at v off + len \<le> int (length v)"

definition sub_bytes :: "bytes \<Rightarrow> int \<Rightarrow> int \<Rightarrow> bytes" where
  "sub_bytes v off len = take (nat len) (drop (nat (range_at v off)) v)"

text \<open>How long a range may be that a store is asked for without knowing that it is there.\<close>

definition index_limit :: nat where
  "index_limit = 2 ^ 32"

text \<open>
  The contract of a store that is read. \<open>contents\<close> is what a store holds; \<open>live\<close> says that nothing outside the store,
  such as a cancelled context, makes its operations fail.
\<close>

locale store_reads =
  fixes ops :: "'s store_ops"
    and contents :: "'s \<Rightarrow> string \<Rightarrow> bytes option"
    and live :: "'s \<Rightarrow> bool"
  assumes get_contents: "st_get ops k s = (r, t) \<Longrightarrow> contents t = contents s"
    and get_found: "st_get ops k s = (Inr b, t) \<Longrightarrow> contents s k = Some b"
    and get_missing: "st_get ops k s = (Inl ErrNotFound, t) \<Longrightarrow> contents s k = None"
    and get_live: "live s \<Longrightarrow> checkKey k = Inr () \<Longrightarrow> \<exists>t. live t \<and>
      st_get ops k s = (case contents s k of None \<Rightarrow> Inl ErrNotFound | Some b \<Rightarrow> Inr b, t)"
    and range_contents: "st_range ops = Some f \<Longrightarrow> f k off len s = (r, t) \<Longrightarrow> contents t = contents s"
    and range_found: "st_range ops = Some f \<Longrightarrow> f k off len s = (Inr b, t) \<Longrightarrow>
      in_int64 off \<Longrightarrow> in_int64 len \<Longrightarrow> (\<And>v. contents s k = Some v \<Longrightarrow> int (length v) \<le> maxInt64) \<Longrightarrow>
      \<exists>v. contents s k = Some v \<and> range_in v off len \<and> b = sub_bytes v off len"
    and range_missing: "st_range ops = Some f \<Longrightarrow> f k off len s = (Inl ErrNotFound, t) \<Longrightarrow> contents s k = None"
    and range_live: "st_range ops = Some f \<Longrightarrow> live s \<Longrightarrow> checkKey k = Inr () \<Longrightarrow> contents s k = Some v \<Longrightarrow> range_in v off len \<Longrightarrow>
      int (length v) \<le> maxInt64 \<Longrightarrow> \<exists>t. live t \<and> f k off len s = (Inr (sub_bytes v off len), t)"
    and range_live_missing: "st_range ops = Some f \<Longrightarrow> live s \<Longrightarrow> checkKey k = Inr () \<Longrightarrow> contents s k = None \<Longrightarrow>
      range_in v off len \<Longrightarrow> length v \<le> index_limit \<Longrightarrow> \<exists>t. live t \<and> f k off len s = (Inl ErrNotFound, t)"

text \<open>The contract of a store that is written too.\<close>

locale store_laws = store_reads ops contents live
  for ops :: "'s store_ops" and contents :: "'s \<Rightarrow> string \<Rightarrow> bytes option" and live :: "'s \<Rightarrow> bool" +
  assumes set_done: "st_set ops k b s = (Inr u, t) \<Longrightarrow> contents t = (contents s)(k := Some b)"
    and set_failed: "st_set ops k b s = (Inl e, t) \<Longrightarrow> contents t = contents s"
    and set_live: "live s \<Longrightarrow> checkKey k = Inr () \<Longrightarrow> \<exists>t. live t \<and> st_set ops k b s = (Inr (), t)"
    and delete_done: "st_delete ops k s = (Inr u, t) \<Longrightarrow> contents t = (contents s)(k := None)"
    and delete_failed: "st_delete ops k s = (Inl e, t) \<Longrightarrow> contents t = contents s"
    and delete_live: "live s \<Longrightarrow> \<exists>t. live t \<and> st_delete ops k s = (Inr (), t)"
    and list_contents: "st_list ops p s = (rl, t) \<Longrightarrow> contents t = contents s"
    and list_keys: "st_list ops p s = (Inr ks, t) \<Longrightarrow>
      distinct ks \<and> set ks = {k. contents s k \<noteq> None \<and> prefix p k}"
    and list_live: "live s \<Longrightarrow> checkPrefix p = Inr () \<Longrightarrow> \<exists>ks t. live t \<and> st_list ops p s = (Inr ks, t)"

section \<open>Ranges\<close>

text \<open>\<open>span\<close>: where a range falls in a value of so many bytes, on 64-bit integers.\<close>

definition span :: "int \<Rightarrow> int \<Rightarrow> int \<Rightarrow> int res" where
  "span sz offset len =
     (let offset = (if offset < 0 then wrap64 (offset + sz) else offset)
      in if offset < 0 \<or> len < 0 \<or> wrap64 (offset + len) > sz
         then Inl (ErrOther ''range is outside the value'')
         else Inr offset)"

section \<open>The memory store\<close>

record memstore =
  entries :: "(string, bytes) alist"
  ctx_left :: "nat option"

definition ctx_Err :: "(memstore, unit) io" where
  "ctx_Err s =
     (case ctx_left s of
        None \<Rightarrow> (Inr (), s)
      | Some 0 \<Rightarrow> (Inl ErrCtx, s)
      | Some (Suc n) \<Rightarrow> (Inr (), s\<lparr>ctx_left := Some n\<rparr>))"

definition newMemoryStore :: memstore where
  "newMemoryStore = \<lparr>entries = DAList.empty, ctx_left = None\<rparr>"

definition mem_get :: "string \<Rightarrow> (memstore, bytes) io" where
  "mem_get key = io_bind ctx_Err (\<lambda>_ s.
     case DAList.lookup (entries s) key of None \<Rightarrow> (Inl ErrNotFound, s) | Some v \<Rightarrow> (Inr v, s))"

text \<open>\<open>v[at : at+length]\<close> panics if it is not a slice of \<open>v\<close>.\<close>

definition mem_range :: "string \<Rightarrow> int \<Rightarrow> int \<Rightarrow> (memstore, bytes) io" where
  "mem_range key offset len = io_bind ctx_Err (\<lambda>_ s.
     case DAList.lookup (entries s) key of
       None \<Rightarrow> (Inl ErrNotFound, s)
     | Some v \<Rightarrow>
         (case span (int (length v)) offset len of
            Inl e \<Rightarrow> (Inl e, s)
          | Inr at \<Rightarrow>
              if at \<le> wrap64 (at + len) \<and> wrap64 (at + len) \<le> int (length v)
              then (Inr (take (nat (wrap64 (at + len) - at)) (drop (nat at) v)), s)
              else (Inl Panic, s)))"

definition mem_set :: "string \<Rightarrow> bytes \<Rightarrow> (memstore, unit) io" where
  "mem_set key v = io_bind ctx_Err (\<lambda>_. io_bind (io_lift (checkKey key)) (\<lambda>_ s.
     (Inr (), s\<lparr>entries := DAList.update key v (entries s)\<rparr>)))"

definition mem_delete :: "string \<Rightarrow> (memstore, unit) io" where
  "mem_delete key = io_bind ctx_Err (\<lambda>_ s.
     (Inr (), s\<lparr>entries := DAList.delete key (entries s)\<rparr>))"

definition mem_list :: "string \<Rightarrow> (memstore, string list) io" where
  "mem_list p = io_bind ctx_Err (\<lambda>_. io_bind (io_lift (checkPrefix p)) (\<lambda>_ s.
     (Inr (sort (filter (prefix p) (map fst (DAList.impl_of (entries s))))), s)))"

definition mem_keys :: "memstore \<Rightarrow> string list" where
  "mem_keys s = sort (map fst (DAList.impl_of (entries s)))"

section \<open>Listing one level\<close>

text \<open>\<open>dirName\<close>: cut at the first slash, which it keeps.\<close>

definition dirName :: "string \<Rightarrow> string" where
  "dirName rest =
     (if CHR ''/'' \<in> set rest then takeWhile (\<lambda>c. c \<noteq> CHR ''/'') rest @ ''/'' else rest)"

text \<open>\<open>MemoryStore.ListDir\<close>: a name is new when it is not the one before.\<close>

fun listdir_sorted :: "string option \<Rightarrow> string list \<Rightarrow> string list" where
  "listdir_sorted prev [] = []"
| "listdir_sorted prev (name # names) =
     (if prev = Some name then listdir_sorted prev names
      else name # listdir_sorted (Some name) names)"

definition mem_listdir :: "string \<Rightarrow> (memstore, string list) io" where
  "mem_listdir p = io_bind (mem_list p) (\<lambda>keys.
     io_ret (listdir_sorted None (map (\<lambda>k. dirName (drop (length p) k)) keys)))"

text \<open>The \<open>ListDir\<close> derived from \<open>List\<close>: the names seen are kept.\<close>

fun listdir_seen :: "string \<Rightarrow> string list \<Rightarrow> string list \<Rightarrow> string list" where
  "listdir_seen p seen [] = []"
| "listdir_seen p seen (key # keys) =
     (if \<not> prefix p key then listdir_seen p seen keys
      else
        (let name = dirName (drop (length p) key)
         in if name \<in> set seen then listdir_seen p seen keys
            else name # listdir_seen p (name # seen) keys))"

definition list_dir :: "'s store_ops \<Rightarrow> string \<Rightarrow> ('s, string list) io" where
  "list_dir ops p =
     (case st_listdir ops of
        Some f \<Rightarrow> f p
      | None \<Rightarrow> io_bind (st_list ops p) (\<lambda>keys. io_ret (listdir_seen p [] keys)))"

definition memory_ops :: "memstore store_ops" where
  "memory_ops =
     \<lparr>st_get = mem_get, st_range = Some mem_range, st_set = mem_set, st_delete = mem_delete,
      st_list = mem_list, st_listdir = Some mem_listdir\<rparr>"

text \<open>A store that does not read ranges and does not list one level: an object store behind
  the least interface.\<close>

definition plain_ops :: "memstore store_ops" where
  "plain_ops = memory_ops\<lparr>st_range := None, st_listdir := None\<rparr>"

section \<open>The memory store keeps the contract\<close>

definition mem_contents :: "memstore \<Rightarrow> string \<Rightarrow> bytes option" where
  "mem_contents s = DAList.lookup (entries s)"

definition mem_live :: "memstore \<Rightarrow> bool" where
  "mem_live s \<longleftrightarrow> ctx_left s = None"

lemma ctx_Err_cases:
  "ctx_Err s = (r, t) \<Longrightarrow> entries t = entries s \<and> (r = Inr () \<or> r = Inl ErrCtx) \<and> (mem_live s \<longrightarrow> r = Inr () \<and> t = s)"
  by (auto simp: ctx_Err_def mem_live_def split: option.splits nat.splits)

lemma ctx_Err_live [simp]: "mem_live s \<Longrightarrow> ctx_Err s = (Inr (), s)"
  by (simp add: ctx_Err_def mem_live_def)

text \<open>The range of a value the memory store gives is the one asked for, and an offset and a
  length whose sum wraps around panic.\<close>

lemma wrap64_over: "0 \<le> x \<Longrightarrow> x \<le> maxInt64 \<Longrightarrow> 0 \<le> y \<Longrightarrow> y \<le> maxInt64 \<Longrightarrow>
    wrap64 (x + y) = (if x + y \<le> maxInt64 then x + y else x + y - 2 ^ 64)"
proof -
  assume a: "0 \<le> x" "x \<le> maxInt64" "0 \<le> y" "y \<le> maxInt64"
  show ?thesis
  proof (cases "x + y \<le> maxInt64")
    case False
    have "(x + y + 2 ^ 63) mod 2 ^ 64 = (x + y + 2 ^ 63 - 2 ^ 64) mod 2 ^ 64" by (simp only: minus_mod_self2)
    also have "\<dots> = x + y + 2 ^ 63 - 2 ^ 64" using a False by (intro mod_pos_pos_trivial) (auto simp: maxInt64_def)
    finally show ?thesis using False by (simp add: wrap64_def)
  qed (use a in \<open>simp add: wrap64_nonneg\<close>)
qed

lemma span_in:
  assumes "0 \<le> sz" "sz \<le> maxInt64" "in_int64 off" "in_int64 len"
  shows "span sz off len = Inr at \<longleftrightarrow>
           at = (if off < 0 then off + sz else off) \<and> 0 \<le> at \<and> 0 \<le> len \<and>
           (at + len \<le> sz \<or> maxInt64 < at + len)"
proof -
  define o' where "o' = (if off < 0 then off + sz else off)"
  have b: "o' \<le> maxInt64" "minInt64 \<le> o'" "len \<le> maxInt64"
    using assms by (auto simp: o'_def in_int64_def minInt64_def maxInt64_def)
  have w: "(if off < 0 then wrap64 (off + sz) else off) = o'"
    using b by (auto simp: o'_def in_int64_def intro!: wrap64_id)
  have "wrap64 (o' + len) \<le> sz \<longleftrightarrow> o' + len \<le> sz \<or> maxInt64 < o' + len" if "0 \<le> o'" "0 \<le> len"
    using that b assms(1,2) by (simp add: wrap64_over) (simp add: maxInt64_def)
  then show ?thesis unfolding span_def Let_def w o'_def [symmetric] by auto
qed

lemma mem_Inr_get:
  "mem_get k s = (r, t) \<Longrightarrow>
     mem_contents t = mem_contents s \<and>
     (r = Inl ErrCtx \<or> r = (case mem_contents s k of None \<Rightarrow> Inl ErrNotFound | Some b \<Rightarrow> Inr b)) \<and>
     (mem_live s \<longrightarrow> r \<noteq> Inl ErrCtx \<and> t = s)"
  unfolding mem_get_def io_bind_def mem_contents_def
  by (auto dest!: ctx_Err_cases split: prod.splits sum.splits option.splits)

lemma range_at_bounds: "int (length v) \<le> maxInt64 \<Longrightarrow> range_in v off len \<Longrightarrow> in_int64 off \<and> in_int64 len"
  by (auto simp: range_in_def range_at_def in_int64_def minInt64_def maxInt64_def split: if_splits)

lemma mem_range_spec:
  assumes "mem_range k off len s = (r, t)" "in_int64 off" "in_int64 len"
    and "\<And>v. mem_contents s k = Some v \<Longrightarrow> int (length v) \<le> maxInt64"
  shows "mem_contents t = mem_contents s \<and> (mem_live s \<longrightarrow> t = s) \<and>
    (r = Inl ErrCtx \<and> \<not> mem_live s \<or>
     r = (case mem_contents s k of
            None \<Rightarrow> Inl ErrNotFound
          | Some v \<Rightarrow>
              if range_in v off len then Inr (sub_bytes v off len)
              else if 0 \<le> range_at v off \<and> 0 \<le> len \<and> maxInt64 < range_at v off + len then Inl Panic
              else Inl (ErrOther ''range is outside the value'')))"
proof -
  obtain rc u where c: "ctx_Err s = (rc, u)" by fastforce
  note cc = ctx_Err_cases [OF c]
  have cont: "mem_contents u = mem_contents s" using cc by (simp add: mem_contents_def)
  show ?thesis
  proof (cases "rc = Inr ()")
    case False
    with cc assms(1) c cont show ?thesis by (auto simp: mem_range_def io_bind_def)
  next
    case True
    show ?thesis
    proof (cases "mem_contents s k")
      case None
      with True assms(1) c cc cont show ?thesis by (auto simp: mem_range_def io_bind_def mem_contents_def)
    next
      case (Some v)
      let ?n = "int (length v)" and ?o = "range_at v off"
      have n: "0 \<le> ?n" "?n \<le> maxInt64" using assms(4) [OF Some] by auto
      have sp: "span ?n off len = Inr at \<longleftrightarrow> at = ?o \<and> 0 \<le> ?o \<and> 0 \<le> len \<and> (?o + len \<le> ?n \<or> maxInt64 < ?o + len)" for at
        using span_in [OF n assms(2,3), of at] by (auto simp: range_at_def)
      have ob: "?o \<le> maxInt64" "len \<le> maxInt64"
        using assms(2,3) n by (auto simp: range_at_def in_int64_def)
      have look: "DAList.lookup (entries u) k = Some v" using cont Some by (simp add: mem_contents_def)
      have r: "r = (case span ?n off len of Inl e \<Rightarrow> Inl e | Inr at \<Rightarrow>
          if at \<le> wrap64 (at + len) \<and> wrap64 (at + len) \<le> ?n
          then Inr (take (nat (wrap64 (at + len) - at)) (drop (nat at) v)) else Inl Panic)" and t: "t = u"
        using assms(1) c True look by (auto simp: mem_range_def io_bind_def split: sum.splits if_splits)
      have "r = (if range_in v off len then Inr (sub_bytes v off len)
              else if 0 \<le> ?o \<and> 0 \<le> len \<and> maxInt64 < ?o + len then Inl Panic
              else Inl (ErrOther ''range is outside the value''))"
      proof (cases "0 \<le> ?o \<and> 0 \<le> len \<and> (?o + len \<le> ?n \<or> maxInt64 < ?o + len)")
        case True
        then have sr: "span ?n off len = Inr ?o" using sp by blast
        show ?thesis
        proof (cases "?o + len \<le> ?n")
          case fit: True
          with True n have "wrap64 (?o + len) = ?o + len" by (intro wrap64_nonneg) auto
          with r sr True fit show ?thesis by (simp add: range_in_def sub_bytes_def)
        next
          case False
          with True ob have "wrap64 (?o + len) = ?o + len - 2 ^ 64" by (simp add: wrap64_over)
          with r sr True False ob show ?thesis by (auto simp: range_in_def maxInt64_def)
        qed
      next
        case False
        then obtain e where e: "span ?n off len = Inl e" using sp by (cases "span ?n off len") auto
        then have "e = ErrOther ''range is outside the value''" by (auto simp: span_def Let_def split: if_splits)
        with r e False show ?thesis by (auto simp: range_in_def)
      qed
      with Some t cc cont True show ?thesis by simp
    qed
  qed
qed

lemma mem_contents_lists:
  "{k. mem_contents s k \<noteq> None} = set (map fst (DAList.impl_of (entries s)))"
proof -
  have "k \<in> dom (map_of (DAList.impl_of (entries s))) \<longleftrightarrow> k \<in> fst ` set (DAList.impl_of (entries s))" for k
    by (simp only: dom_map_of_conv_image_fst)
  then show ?thesis by (auto simp only: mem_contents_def DAList.lookup.rep_eq domIff set_map)
qed

lemma mem_list_spec:
  assumes "mem_list p s = (r, t)"
  shows "mem_contents t = mem_contents s \<and> (mem_live s \<longrightarrow> t = s \<and> (checkPrefix p = Inr () \<longrightarrow> (\<exists>ks. r = Inr ks))) \<and>
    (\<forall>ks. r = Inr ks \<longrightarrow> sorted ks \<and> distinct ks \<and> set ks = {k. mem_contents s k \<noteq> None \<and> prefix p k})"
proof -
  obtain rc u where c: "ctx_Err s = (rc, u)" by fastforce
  note cc = ctx_Err_cases [OF c]
  have ks: "set (filter (prefix p) (map fst (DAList.impl_of (entries u)))) = {k. mem_contents s k \<noteq> None \<and> prefix p k}"
    using mem_contents_lists [of u] cc by (auto simp: mem_contents_def)
  from assms c cc ks show ?thesis
    by (auto simp: mem_list_def io_bind_def mem_contents_def split: sum.splits)
qed

interpretation memory: store_laws memory_ops mem_contents mem_live
proof
  fix k off len s v and f :: "string \<Rightarrow> int \<Rightarrow> int \<Rightarrow> (memstore, bytes) io"
  assume f: "st_range memory_ops = Some f" and a: "mem_live s" "mem_contents s k = Some v" "range_in v off len"
    "int (length v) \<le> maxInt64"
  have [simp]: "f = mem_range" using f by (simp add: memory_ops_def)
  obtain r t where m: "mem_range k off len s = (r, t)" by fastforce
  show "\<exists>t. mem_live t \<and> f k off len s = (Inr (sub_bytes v off len), t)"
    using mem_range_spec [OF m] range_at_bounds [OF a(4,3)] a m by auto
next
  fix k off len s and f :: "string \<Rightarrow> int \<Rightarrow> int \<Rightarrow> (memstore, bytes) io"
  assume f: "st_range memory_ops = Some f" and a: "mem_live s" "mem_contents s k = None"
  have [simp]: "f = mem_range" using f by (simp add: memory_ops_def)
  show "\<exists>t. mem_live t \<and> f k off len s = (Inl ErrNotFound, t)"
    using a by (simp add: mem_range_def io_bind_def mem_contents_def)
next
  fix k off len s b t and f :: "string \<Rightarrow> int \<Rightarrow> int \<Rightarrow> (memstore, bytes) io"
  assume f: "st_range memory_ops = Some f" and m: "f k off len s = (Inr b, t)"
    and a: "in_int64 off" "in_int64 len" "\<And>v. mem_contents s k = Some v \<Longrightarrow> int (length v) \<le> maxInt64"
  have "mem_range k off len s = (Inr b, t)" using f m by (simp add: memory_ops_def)
  from mem_range_spec [OF this a] show "\<exists>v. mem_contents s k = Some v \<and> range_in v off len \<and> b = sub_bytes v off len"
    by (auto split: option.splits if_splits)
next
  fix k off len s r t and f :: "string \<Rightarrow> int \<Rightarrow> int \<Rightarrow> (memstore, bytes) io"
  assume f: "st_range memory_ops = Some f" and m: "f k off len s = (r, t)"
  then show "mem_contents t = mem_contents s"
    by (auto simp: memory_ops_def mem_range_def io_bind_def mem_contents_def dest!: ctx_Err_cases
        split: prod.splits sum.splits option.splits if_splits)
next
  fix k off len s t and f :: "string \<Rightarrow> int \<Rightarrow> int \<Rightarrow> (memstore, bytes) io"
  assume f: "st_range memory_ops = Some f" and m: "f k off len s = (Inl ErrNotFound, t)"
  then show "mem_contents s k = None"
    by (auto simp: memory_ops_def mem_range_def io_bind_def mem_contents_def span_def Let_def dest!: ctx_Err_cases
        split: prod.splits sum.splits option.splits if_splits)
next
  fix k s r t
  assume "st_get memory_ops k s = (r, t)"
  then show "mem_contents t = mem_contents s" using mem_Inr_get [of k s r t] by (simp add: memory_ops_def)
next
  fix k s b t
  assume "st_get memory_ops k s = (Inr b, t)"
  then show "mem_contents s k = Some b"
    using mem_Inr_get [of k s "Inr b" t] by (auto simp: memory_ops_def split: option.splits)
next
  fix k s t
  assume "st_get memory_ops k s = (Inl ErrNotFound, t)"
  then show "mem_contents s k = None"
    using mem_Inr_get [of k s "Inl ErrNotFound" t] by (auto simp: memory_ops_def split: option.splits)
next
  fix k s
  assume l: "mem_live s"
  obtain r t where m: "mem_get k s = (r, t)" by fastforce
  from mem_Inr_get [OF m] l m
  show "\<exists>t. mem_live t \<and> st_get memory_ops k s = (case mem_contents s k of None \<Rightarrow> Inl ErrNotFound | Some b \<Rightarrow> Inr b, t)"
    by (auto simp: memory_ops_def)
next
  fix p s rl t
  assume "st_list memory_ops p s = (rl, t)"
  then show "mem_contents t = mem_contents s" using mem_list_spec [of p s rl t] by (simp add: memory_ops_def)
next
  fix p s ks t
  assume "st_list memory_ops p s = (Inr ks, t)"
  then show "distinct ks \<and> set ks = {k. mem_contents s k \<noteq> None \<and> prefix p k}"
    using mem_list_spec [of p s "Inr ks" t] by (simp add: memory_ops_def)
next
  fix p s
  assume l: "mem_live s" "checkPrefix p = Inr ()"
  obtain r t where m: "mem_list p s = (r, t)" by fastforce
  from mem_list_spec [OF m] l m show "\<exists>ks t. mem_live t \<and> st_list memory_ops p s = (Inr ks, t)"
    by (auto simp: memory_ops_def)
qed (auto simp: memory_ops_def mem_set_def mem_delete_def io_bind_def mem_contents_def lookup_update fun_upd_def mem_live_def
    dest!: ctx_Err_cases split: prod.splits sum.splits)

text \<open>The same store without its optional interfaces.\<close>

interpretation plain: store_laws plain_ops mem_contents mem_live
proof -
  have e: "st_range plain_ops = None" "st_get plain_ops = st_get memory_ops" "st_set plain_ops = st_set memory_ops"
    "st_delete plain_ops = st_delete memory_ops" "st_list plain_ops = st_list memory_ops"
    by (simp_all add: plain_ops_def memory_ops_def)
  show "store_laws plain_ops mem_contents mem_live"
    using memory.store_laws_axioms unfolding store_laws_def store_reads_def store_laws_axioms_def e
    by (elim conjE) (intro conjI; (assumption | simp))
qed

section \<open>A sorted listing names each child once\<close>

text \<open>Between two strings that begin with a prefix, every string begins with it.\<close>

lemma prefix_between:
  fixes a b c :: string
  shows "a \<le> b \<Longrightarrow> b \<le> c \<Longrightarrow> prefix p a \<Longrightarrow> prefix p c \<Longrightarrow> prefix p b"
proof (induction p arbitrary: a b c)
  case (Cons x p)
  from Cons.prems obtain a' c' where ac: "a = x # a'" "prefix p a'" "c = x # c'" "prefix p c'"
    by (auto simp: prefix_def)
  with Cons.prems(1,2) obtain b' where b: "b = x # b'" "a' \<le> b'" "b' \<le> c'"
    by (cases b) auto
  with Cons.IH ac show ?case by auto
qed simp

text \<open>The name of a key, with what is before it.\<close>

definition dir_key :: "string \<Rightarrow> string \<Rightarrow> string" where
  "dir_key p k = p @ dirName (drop (length p) k)"

lemma dirName_prefix: "prefix (dirName r) r"
proof (cases "CHR ''/'' \<in> set r")
  case True
  obtain x xs where d: "dropWhile (\<lambda>c. c \<noteq> CHR ''/'') r = x # xs"
    using True by (cases "dropWhile (\<lambda>c. c \<noteq> CHR ''/'') r") auto
  then have "x = CHR ''/''" using hd_dropWhile [of "\<lambda>c. c \<noteq> CHR ''/''" r] by fastforce
  with d have "r = (takeWhile (\<lambda>c. c \<noteq> CHR ''/'') r @ ''/'') @ xs"
    by (metis append.assoc append_Cons append_Nil takeWhile_dropWhile_id)
  then show ?thesis using True unfolding dirName_def prefix_def by metis
qed (simp add: dirName_def)

lemma dirName_of_prefix:
  assumes "prefix (dirName r) r'" "CHR ''/'' \<in> set r"
  shows "dirName r' = dirName r"
proof -
  let ?P = "\<lambda>c. c \<noteq> CHR ''/''"
  from assms obtain t where t: "r' = takeWhile ?P r @ CHR ''/'' # t" by (auto simp: dirName_def prefix_def)
  have "takeWhile ?P r' = takeWhile ?P r" unfolding t by (subst takeWhile_append2) (auto dest: set_takeWhileD)
  moreover have "CHR ''/'' \<in> set r'" unfolding t by simp
  ultimately show ?thesis using assms(2) by (simp add: dirName_def)
qed

lemma dirName_contiguous:
  fixes a b c :: string
  assumes "a \<le> b" "b \<le> c" "prefix p a" "prefix p c" "dirName (drop (length p) a) = dirName (drop (length p) c)"
  shows "dirName (drop (length p) b) = dirName (drop (length p) a)"
proof -
  let ?n = "dirName (drop (length p) a)"
  obtain ra rc where r: "a = p @ ra" "c = p @ rc" using assms(3,4) by (auto simp: prefix_def)
  have "prefix (p @ ?n) a" "prefix (p @ ?n) c"
    using dirName_prefix [of ra] dirName_prefix [of rc] assms(5) by (simp_all add: r)
  with assms(1,2) have b: "prefix (p @ ?n) b" using prefix_between by blast
  then obtain rb where rb: "b = p @ rb" "prefix ?n rb" by (auto simp: prefix_def)
  show ?thesis
  proof (cases "CHR ''/'' \<in> set ra")
    case True
    then show ?thesis using dirName_of_prefix [of ra rb] rb r by simp
  next
    case False
    then have n: "?n = ra" by (simp add: r dirName_def)
    have "CHR ''/'' \<notin> set rc"
    proof
      assume "CHR ''/'' \<in> set rc"
      then have "CHR ''/'' \<in> set (dirName rc)" by (simp add: dirName_def)
      with assms(5) n False show False by (simp add: r)
    qed
    then have "rc = ra" using assms(5) n by (simp add: r dirName_def)
    then have "a = c" by (simp add: r)
    with assms(1,2) have "b = a" by simp
    then show ?thesis by simp
  qed
qed

lemma listdir_sorted_set: "set (listdir_sorted prev names) \<subseteq> set names \<and> set names \<subseteq> set (listdir_sorted prev names) \<union> set_option prev"
proof (induction names arbitrary: prev)
  case (Cons n names)
  show ?case using Cons [of prev] Cons [of "Some n"] by auto
qed simp

text \<open>Names that come in runs.\<close>

definition in_runs :: "'a list \<Rightarrow> bool" where
  "in_runs xs \<longleftrightarrow> (\<forall>i j k. i \<le> j \<longrightarrow> j \<le> k \<longrightarrow> k < length xs \<longrightarrow> xs ! i = xs ! k \<longrightarrow> xs ! j = xs ! i)"

lemma in_runs_Cons: "in_runs (x # xs) \<Longrightarrow> in_runs xs \<and> (\<forall>j < length xs. xs ! j = x \<longrightarrow> (\<forall>i \<le> j. xs ! i = x))"
proof -
  assume r: "in_runs (x # xs)"
  have "in_runs xs"
    unfolding in_runs_def
  proof (intro allI impI)
    fix i j k assume "i \<le> j" "j \<le> k" "k < length xs" "xs ! i = xs ! k"
    then show "xs ! j = xs ! i"
      using r [unfolded in_runs_def, rule_format, of "Suc i" "Suc j" "Suc k"] by simp
  qed
  moreover have "xs ! i = x" if "j < length xs" "xs ! j = x" "i \<le> j" for i j
    using r [unfolded in_runs_def, rule_format, of 0 "Suc i" "Suc j"] that by simp
  ultimately show ?thesis by blast
qed

lemma listdir_sorted_distinct:
  "in_runs (case prev of None \<Rightarrow> names | Some n \<Rightarrow> n # names) \<Longrightarrow>
     distinct (listdir_sorted prev names) \<and> (\<forall>n. prev = Some n \<longrightarrow> n \<notin> set (listdir_sorted prev names))"
proof (induction prev names rule: listdir_sorted.induct)
  case (2 prev n names)
  show ?case
  proof (cases "prev = Some n")
    case True
    with 2(3) have "in_runs (n # names)" using in_runs_Cons by fastforce
    with True 2(1) [OF True] show ?thesis by simp
  next
    case False
    have r: "in_runs (n # names)" using 2(3) by (cases prev) (auto dest: in_runs_Cons)
    have IH: "distinct (listdir_sorted (Some n) names)" "n \<notin> set (listdir_sorted (Some n) names)"
      using 2(2) [OF False] r by auto
    have "m \<notin> set (listdir_sorted (Some n) names)" if m: "prev = Some m" for m
    proof
      assume "m \<in> set (listdir_sorted (Some n) names)"
      then have "m \<in> set names" using listdir_sorted_set by fastforce
      then obtain j where j: "j < length names" "names ! j = m" by (auto simp: in_set_conv_nth)
      have "in_runs (m # n # names)" using 2(3) m by simp
      with in_runs_Cons [OF this] j have "(n # names) ! 0 = m" by (metis Suc_less_eq length_Cons nth_Cons_Suc zero_le)
      with False m show False by simp
    qed
    with IH False show ?thesis by auto
  qed
qed simp

lemma listdir_seen_spec:
  "\<forall>k \<in> set keys. prefix p k \<Longrightarrow>
     distinct (listdir_seen p seen keys) \<and>
     set (listdir_seen p seen keys) = (\<lambda>k. dirName (drop (length p) k)) ` set keys - set seen"
proof (induction keys arbitrary: seen)
  case (Cons k keys)
  show ?case
  proof (cases "dirName (drop (length p) k) \<in> set seen")
    case True
    with Cons show ?thesis by auto
  next
    case False
    with Cons.IH [of "dirName (drop (length p) k) # seen"] Cons.prems show ?thesis by (auto simp: Let_def)
  qed
qed simp

lemma mem_listdir_names:
  assumes "sorted ks" "\<forall>k \<in> set ks. prefix p k"
  shows "distinct (listdir_sorted None (map (\<lambda>k. dirName (drop (length p) k)) ks)) \<and>
    set (listdir_sorted None (map (\<lambda>k. dirName (drop (length p) k)) ks)) = (\<lambda>k. dirName (drop (length p) k)) ` set ks"
proof -
  let ?names = "map (\<lambda>k. dirName (drop (length p) k)) ks"
  have "in_runs ?names"
    unfolding in_runs_def
  proof (intro allI impI)
    fix i j k assume a: "i \<le> j" "j \<le> k" "k < length ?names" "?names ! i = ?names ! k"
    then have "ks ! i \<le> ks ! j" "ks ! j \<le> ks ! k" using assms(1) by (auto intro: sorted_nth_mono)
    with a assms(2) show "?names ! j = ?names ! i"
      using dirName_contiguous [of "ks ! i" "ks ! j" "ks ! k" p] by simp
  qed
  then have "distinct (listdir_sorted None ?names)" using listdir_sorted_distinct [where prev = None and names = ?names] by simp
  moreover have "set (listdir_sorted None ?names) = set ?names" using listdir_sorted_set [where prev = None and names = ?names] by auto
  ultimately show ?thesis by simp
qed

end
