(* ===== verification/Metadata.thy ===== *)
theory Metadata
  imports Limits Keys
begin

text \<open>
  The metadata of a node (\<open>src/metadata.go\<close>): \<open>Named\<close>, \<open>ArrayMetadata\<close> and \<open>GroupMetadata\<close>, with
  its text where the source keeps a \<open>json.RawMessage\<close>, empty if there is none. A map of attributes is
  a list of pairs. A list that is \<open>nil\<close> and an empty one are told apart where the source does so, in the
  names of dimensions.
\<close>

record named =
  nName :: string
  nConfig :: string
  nMust :: "bool option"

record array_metadata =
  mFormat :: int
  mNode :: string
  mShape :: "int list"
  mType :: dtype
  mGrid :: named
  mKeyEnc :: named
  mFill :: string
  mCodecs :: "named list"
  mAttrs :: "(string \<times> string) list"
  mTransformers :: "named list"
  mDims :: "string option list option"

record group_metadata =
  gFormat :: int
  gNode :: string
  gAttrs :: "(string \<times> string) list"

end
