(* ===== verification/Arrays.thy ===== *)
theory Arrays
  imports Pipelines Stores Metadata
begin

text \<open>
  Arrays (\<open>src/array.go\<close>, with \<open>limit\<close>, \<open>byRange\<close>, \<open>exclusive\<close> and \<open>eachSpan\<close> of
  \<open>src/concurrent.go\<close> and \<open>fillPast\<close> of \<open>src/resize.go\<close>): which chunks a region meets, and how
  chunks and shards are read from a store and written to it.

  An element type \<open>T\<close> is a \<open>dtype\<close> argument. A function that talks to the store is an \<open>io\<close>; the
  slice that \<open>Read\<close> makes and every call writes its own block of is part of the state of the
  loop. \<open>eachSpan\<close> takes an order from outside: the list of the calls in the order they were
  made, some of which may be made after one has failed, as those already in flight are. What
  two calls do to different stored objects is taken to commute; that no two writers hold one
  stored object at once is in \<open>Locks\<close>.
\<close>

section \<open>The array\<close>

record 's arr =
  a_store :: "'s store_ops"
  a_path :: string
  a_meta :: array_metadata
  a_keys :: keyEncoding
  a_fill :: elem
  a_codecs :: pipeline
  a_grid :: vec
  a_chunks :: vec
  a_perShard :: vec
  a_shard :: "shard option"
  a_indexSize :: nat
  a_writeEmpty :: bool
  a_concurrency :: int

abbreviation a_shape :: "'s arr \<Rightarrow> vec" where
  "a_shape a \<equiv> map nat (mShape (a_meta a))"

abbreviation a_type :: "'s arr \<Rightarrow> dtype" where
  "a_type a \<equiv> mType (a_meta a)"

definition numChunks :: "'s arr \<Rightarrow> vec" where
  "numChunks a = map2 (\<lambda>s c. s div c + (if s mod c \<noteq> 0 then 1 else 0)) (a_shape a) (a_chunks a)"

definition storedKey :: "'s arr \<Rightarrow> vec \<Rightarrow> string" where
  "storedKey a sidx = join_path (a_path a) (enc_key (a_keys a) sidx)"

definition shardOf :: "'s arr \<Rightarrow> vec \<Rightarrow> vec" where
  "shardOf a idx = divV idx (a_perShard a)"

definition chunkKey :: "'s arr \<Rightarrow> vec \<Rightarrow> string" where
  "chunkKey a idx = storedKey a (shardOf a idx)"

text \<open>\<open>readOnly\<close> of \<open>src/v2.go\<close>.\<close>

definition readOnly :: "int \<Rightarrow> unit res" where
  "readOnly format = rguard (format \<noteq> 2) ErrZarrV2"

definition writable :: "'s arr \<Rightarrow> unit res" where
  "writable a = readOnly (mFormat (a_meta a))"

definition checkType :: "'s arr \<Rightarrow> dtype \<Rightarrow> unit res" where
  "checkType a t = rguard (t = a_type a) (ErrOther ''array holds another type'')"

definition checkChunk :: "'s arr \<Rightarrow> int list \<Rightarrow> vec res" where
  "checkChunk a idx =
     (let n = numChunks a in
      if length idx \<noteq> length n then Inl (ErrOther ''chunk of another number of dimensions'')
      else if list_all2 (\<lambda>i m. 0 \<le> i \<and> i < int m) idx n then Inr (map nat idx)
      else Inl (ErrOther ''chunk is outside''))"

definition storedSpec :: "'s arr \<Rightarrow> chunkSpec" where
  "storedSpec a = \<lparr>spShape = a_grid a, spType = a_type a, spFill = a_fill a, spKeep = a_writeEmpty a\<rparr>"

definition patchesChunks :: "'s arr \<Rightarrow> bool" where
  "patchesChunks a \<longleftrightarrow> a_shard a \<noteq> None \<and> pbytes (a_codecs a) = []"

definition byRange :: "'s arr \<Rightarrow> bool" where
  "byRange a \<longleftrightarrow> a_shard a \<noteq> None \<and> st_range (a_store a) \<noteq> None \<and> pbytes (a_codecs a) = []"

definition defaultConcurrency :: int where
  "defaultConcurrency = 16"

definition limit :: "'s arr \<Rightarrow> nat \<Rightarrow> nat" where
  "limit a n =
     (let c = a_concurrency a; c = (if c \<le> 0 then defaultConcurrency else c)
      in min (nat (max c 1)) n)"

section \<open>Regions\<close>

text \<open>\<open>region\<close>: the region, and the first and last cell it meets along each dimension. A nil
  start or shape is \<open>None\<close>.\<close>

definition region ::
    "'s arr \<Rightarrow> int list option \<Rightarrow> int list option \<Rightarrow> vec \<Rightarrow> (vec \<times> vec \<times> vec \<times> vec \<times> bool) res" where
  "region a start shape cell =
     (let S = mShape (a_meta a);
          d = length S;
          start = (case start of None \<Rightarrow> replicate d 0 | Some s \<Rightarrow> s);
          shape = (case shape of
                     Some s \<Rightarrow> s
                   | None \<Rightarrow> if length start = d then map2 (\<lambda>m s. m - min s m) S start else [])
      in if length start \<noteq> d \<or> length shape \<noteq> d then Inl (ErrOther ''region of another number of dimensions'')
         else if \<not> list_all2 (\<lambda>m (s, n). \<not> (s < 0 \<or> n < 0 \<or> s > m \<or> n > m - s)) S (zip start shape)
         then Inl (ErrOther ''region is outside'')
         else
           (let start = map nat start; shape = map nat shape;
                lo = map2 (\<lambda>(s, n) c. if n = 0 then 0 else s div c) (zip start shape) cell;
                hi = map2 (\<lambda>(s, n) c. if n = 0 then 0 else (s + n - 1) div c) (zip start shape) cell
            in Inr (start, shape, lo, hi, 0 \<in> set shape)))"

text \<open>\<open>overlap\<close>: where a region meets a cell, how much of it, and whether that is all of the
  cell that is in the array.\<close>

definition overlap :: "'s arr \<Rightarrow> vec \<Rightarrow> vec \<Rightarrow> vec \<Rightarrow> vec \<Rightarrow> vec \<times> vec \<times> bool" where
  "overlap a idx start shape cell =
     (let S = a_shape a;
          c0 = timesV idx cell;
          c1 = map2 min (plusV c0 cell) S;
          at = map2 max start c0;
          n = minusV (map2 min (plusV start shape) c1) at
      in (at, n, list_all2 (=) at c0 \<and> list_all2 (=) n (minusV c1 c0)))"

section \<open>Stored objects\<close>

definition asChunk :: "dtype \<Rightarrow> slice \<Rightarrow> nat \<Rightarrow> elem list res" where
  "asChunk t v n =
     (if stype v \<noteq> t \<or> length (elems v) \<noteq> n then Inl (ErrOther ''decoded to something else'')
      else Inr (elems v))"

definition getStored :: "'s arr \<Rightarrow> dtype \<Rightarrow> vec \<Rightarrow> ('s, elem list option) io" where
  "getStored a t sidx =
     io_try (st_get (a_store a) (storedKey a sidx)) (\<lambda>r.
       case r of
         Inl e \<Rightarrow> if e = ErrNotFound then io_ret None else io_err e
       | Inr b \<Rightarrow>
           io_lift (rbind (pipe_decode (a_codecs a) b (storedSpec a)) (\<lambda>v.
                    rbind (asChunk t v (product_of (a_grid a))) (\<lambda>s. Inr (Some s)))))"

definition readStored :: "'s arr \<Rightarrow> dtype \<Rightarrow> vec \<Rightarrow> ('s, elem list) io" where
  "readStored a t sidx =
     io_bind (getStored a t sidx) (\<lambda>v.
       case v of Some v \<Rightarrow> io_ret v | None \<Rightarrow> io_ret (filled (product_of (a_grid a)) (a_fill a)))"

text \<open>\<open>fillPast\<close>: one dimension after another, what is past the end of the array is filled.\<close>

definition fillPast_step :: "'s arr \<Rightarrow> vec \<Rightarrow> vec \<Rightarrow> nat \<Rightarrow> elem list \<Rightarrow> elem list res" where
  "fillPast_step a origin shape k data =
     (let inn = a_shape a ! k - origin ! k in
      if inn \<ge> shape ! k then Inr data
      else
        (let at = (zeros (length shape))[k := inn]; n = shape[k := shape ! k - inn]
         in copyBlock data shape at (filled (product_of n) (a_fill a)) n (zeros (length n)) n))"

definition fillPast :: "'s arr \<Rightarrow> vec \<Rightarrow> vec \<Rightarrow> elem list \<Rightarrow> elem list res" where
  "fillPast a origin shape data = rfold (fillPast_step a origin shape) [0 ..< length shape] data"

definition fillPastEnd :: "'s arr \<Rightarrow> vec \<Rightarrow> elem list \<Rightarrow> elem list res" where
  "fillPastEnd a sidx data = fillPast a (timesV sidx (a_grid a)) (a_grid a) data"

definition writeStored :: "'s arr \<Rightarrow> vec \<Rightarrow> elem list \<Rightarrow> ('s, unit) io" where
  "writeStored a sidx data =
     io_bind (io_lift (fillPastEnd a sidx data)) (\<lambda>data.
       if \<not> a_writeEmpty a \<and> allFill data (a_fill a) then st_delete (a_store a) (storedKey a sidx)
       else
         io_bind (io_lift (pipe_encode (a_codecs a) (Slice (a_type a) data) (storedSpec a))) (\<lambda>b.
           st_set (a_store a) (storedKey a sidx) b))"

section \<open>Shards written in part\<close>

text \<open>\<open>k = k*a.perShard[d] + local[d]\<close>\<close>

definition local_index :: "vec \<Rightarrow> vec \<Rightarrow> nat" where
  "local_index per loc = fold (\<lambda>(p, l) k. k * p + l) (zip per loc) 0"

text \<open>One chunk of \<open>patchShard\<close>: \<open>old\<close> is what reading it as it was would give.\<close>

definition patch_step ::
    "'s arr \<Rightarrow> shard \<Rightarrow> dtype \<Rightarrow> vec \<Rightarrow> (vec \<Rightarrow> elem list res \<Rightarrow> elem list res) \<Rightarrow> vec \<Rightarrow>
       bytes option list \<Rightarrow> bytes option list res" where
  "patch_step a s t sidx patch idx chunks =
     (let spec = storedSpec a;
          n = product_of (a_chunks a);
          loc = minusV idx (timesV sidx (a_perShard a));
          k = local_index (a_perShard a) loc
      in if k \<ge> length chunks then Inl Panic
         else
           (let old = (case chunks ! k of
                         None \<Rightarrow> Inr (filled n (a_fill a))
                       | Some b \<Rightarrow> rbind (innerDec s b (innerSpec s spec)) (\<lambda>v. asChunk t v n))
            in rbind (patch idx old) (\<lambda>buf.
               rbind (fillPast a (timesV idx (a_chunks a)) (a_chunks a) buf) (\<lambda>buf.
                 if \<not> a_writeEmpty a \<and> allFill buf (a_fill a) then Inr (chunks[k := None])
                 else rbind (encodeChunk s (Slice t buf) spec) (\<lambda>b. Inr (chunks[k := Some b]))))))"

definition patchShard ::
    "'s arr \<Rightarrow> shard \<Rightarrow> dtype \<Rightarrow> vec \<Rightarrow> vec \<Rightarrow> vec \<Rightarrow> (vec \<Rightarrow> elem list res \<Rightarrow> elem list res) \<Rightarrow> ('s, unit) io" where
  "patchShard a s t sidx lo hi patch =
     io_try (st_get (a_store a) (storedKey a sidx)) (\<lambda>r.
     io_bind
       (case r of
          Inl e \<Rightarrow> if e = ErrNotFound then io_ret (replicate (product_of (a_perShard a)) None) else io_err e
        | Inr b \<Rightarrow> io_lift (split_shard s (a_perShard a) b)) (\<lambda>chunks.
     io_bind (io_lift (eachIndex lo hi (patch_step a s t sidx patch) chunks)) (\<lambda>chunks.
       if \<forall>c \<in> set chunks. c = None then st_delete (a_store a) (storedKey a sidx)
       else
         io_bind (io_lift (assemble s (a_perShard a) chunks)) (\<lambda>b.
           st_set (a_store a) (storedKey a sidx) b))))"

section \<open>Reading chunks\<close>

text \<open>A \<open>chunkView\<close>: the slice it is in, or none for a chunk never written, the shape of that
  slice, and where in it the chunk is.\<close>

type_synonym view = "elem list option \<times> vec \<times> vec"

text \<open>What \<open>openStored\<close> returns: a reader of the chunks of a stored object.\<close>

datatype reader =
    ReadUnsharded
  | ReadNothing
  | ReadWhole "elem list"
  | ReadRange "64 word list"

definition maxInt64w :: "64 word" where
  "maxInt64w = of_int maxInt64"

definition openStored :: "'s arr \<Rightarrow> dtype \<Rightarrow> vec \<Rightarrow> ('s, reader) io" where
  "openStored a t sidx =
     (case a_shard a of
        None \<Rightarrow> io_ret ReadUnsharded
      | Some s \<Rightarrow>
          if \<not> byRange a then
            io_bind (getStored a t sidx) (\<lambda>v.
              case v of None \<Rightarrow> io_ret ReadNothing | Some all \<Rightarrow> io_ret (ReadWhole all))
          else
            (case st_range (a_store a) of
               None \<Rightarrow> io_err Panic
             | Some rg \<Rightarrow>
                 (let off = (if atStart s then 0 else - int (a_indexSize a)) in
                  io_try (rg (storedKey a sidx) off (int (a_indexSize a))) (\<lambda>r.
                    case r of
                      Inl e \<Rightarrow> if e = ErrNotFound then io_ret ReadNothing else io_err e
                    | Inr ib \<Rightarrow>
                        io_bind (io_lift (decodeIndex s (a_perShard a) ib)) (\<lambda>index.
                        io_bind (io_lift (checkIndex index
                                   (if atStart s then of_nat (a_indexSize a) else 0) maxInt64w)) (\<lambda>_.
                          io_ret (ReadRange index)))))))"

definition readChunkOf :: "'s arr \<Rightarrow> dtype \<Rightarrow> vec \<Rightarrow> reader \<Rightarrow> vec \<Rightarrow> ('s, view) io" where
  "readChunkOf a t sidx rd loc =
     (let origin = zeros (length sidx); nothing = (None, [], []) in
      case rd of
        ReadUnsharded \<Rightarrow> io_bind (getStored a t sidx) (\<lambda>v. io_ret (v, a_chunks a, origin))
      | ReadNothing \<Rightarrow> io_ret nothing
      | ReadWhole all \<Rightarrow> io_ret (Some all, a_grid a, timesV loc (a_chunks a))
      | ReadRange index \<Rightarrow>
          (case (a_shard a, st_range (a_store a)) of
             (Some s, Some rg) \<Rightarrow>
               io_bind (io_lift (entrySpan index (local_index (a_perShard a) loc) maxInt64w)) (\<lambda>e.
                 case e of
                   None \<Rightarrow> io_ret nothing
                 | Some (off, l) \<Rightarrow>
                     io_bind (rg (storedKey a sidx) (sint off) (sint l)) (\<lambda>b.
                     io_bind (io_lift (innerDec s b (innerSpec s (storedSpec a)))) (\<lambda>v.
                     io_bind (io_lift (asChunk t v (product_of (a_chunks a)))) (\<lambda>c.
                       io_ret (Some c, a_chunks a, origin)))))
           | _ \<Rightarrow> io_err Panic))"

text \<open>\<open>chunkView.chunk\<close>\<close>

definition viewChunk :: "'s arr \<Rightarrow> view \<Rightarrow> elem list res" where
  "viewChunk a v =
     (case v of
        (None, _, _) \<Rightarrow> Inr (filled (product_of (a_chunks a)) (a_fill a))
      | (Some src, shape, at) \<Rightarrow>
          if length src = product_of (a_chunks a) then Inr src
          else copyBlock (replicate (product_of (a_chunks a)) (zero_of (a_type a))) (a_chunks a)
                 (zeros (length (a_chunks a))) src shape at (a_chunks a))"

definition readChunk :: "'s arr \<Rightarrow> dtype \<Rightarrow> int list \<Rightarrow> ('s, elem list) io" where
  "readChunk a t idx =
     io_bind (io_lift (checkType a t)) (\<lambda>_.
     io_bind (io_lift (checkChunk a idx)) (\<lambda>idx.
       let sidx = shardOf a idx in
       io_bind (openStored a t sidx) (\<lambda>rd.
       io_bind (readChunkOf a t sidx rd (minusV idx (timesV sidx (a_perShard a)))) (\<lambda>v.
         io_lift (viewChunk a v)))))"

definition writeChunk :: "'s arr \<Rightarrow> dtype \<Rightarrow> int list \<Rightarrow> elem list \<Rightarrow> ('s, unit) io" where
  "writeChunk a t idx data =
     io_bind (io_lift (writable a)) (\<lambda>_.
     io_bind (io_lift (checkType a t)) (\<lambda>_.
     io_bind (io_lift (checkChunk a idx)) (\<lambda>idx.
       if length data \<noteq> product_of (a_chunks a) then io_err (ErrOther ''chunk of another number of elements'')
       else
         (case a_shard a of
            None \<Rightarrow> writeStored a idx data
          | Some s \<Rightarrow>
              (let sidx = shardOf a idx in
               if patchesChunks a then patchShard a s t sidx idx idx (\<lambda>_ _. Inr data)
               else
                 io_bind (readStored a t sidx) (\<lambda>buf.
                   let at = timesV (minusV idx (timesV sidx (a_perShard a))) (a_chunks a) in
                   io_bind (io_lift (copyBlock buf (a_grid a) at data (a_chunks a) (zeros (length idx)) (a_chunks a)))
                     (\<lambda>buf. writeStored a sidx buf)))))))"

section \<open>The loop over indices\<close>

text \<open>
  \<open>eachSpan\<close>. One at a time, it stops at the first error. With more, \<open>sched\<close> lists the calls in
  the order they are made, of which there are more than one after an error only if they were in
  flight; the first error is the result. A schedule that did not reach every index without an
  error is one whose context was cancelled.
\<close>

fun run_sched :: "(nat \<Rightarrow> ('s, unit) io) \<Rightarrow> nat list \<Rightarrow> error option \<Rightarrow> 's \<Rightarrow> error option \<times> 's" where
  "run_sched f [] first s = (first, s)"
| "run_sched f (n # ns) first s =
     (case f n s of
        (Inr _, t) \<Rightarrow> run_sched f ns first t
      | (Inl e, t) \<Rightarrow> run_sched f ns (case first of None \<Rightarrow> Some e | Some _ \<Rightarrow> first) t)"

definition eachSpan ::
    "(nat \<Rightarrow> nat list) \<Rightarrow> nat \<Rightarrow> vec \<Rightarrow> vec \<Rightarrow> (nat \<Rightarrow> vec \<Rightarrow> ('s, unit) io) \<Rightarrow> ('s, unit) io" where
  "eachSpan sched lim lo hi f =
     (let total = spanLen lo hi; g = (\<lambda>n. f n (spanInto lo hi n)) in
      if lim \<le> 1 \<or> total \<le> 1 then io_each g [0 ..< total]
      else (\<lambda>s. case run_sched g (sched total) None s of
                  (Some e, t) \<Rightarrow> (Inl e, t)
                | (None, t) \<Rightarrow> (if set [0 ..< total] \<subseteq> set (sched total) then Inr () else Inl ErrCtx, t)))"

text \<open>A store operation in a loop that also keeps a slice.\<close>

definition io_fst :: "('s, 'a) io \<Rightarrow> ('s \<times> 'b, 'a) io" where
  "io_fst m st = (case m (fst st) of (r, t) \<Rightarrow> (r, (t, snd st)))"

definition io_put :: "'b res \<Rightarrow> ('s \<times> 'b, unit) io" where
  "io_put r st = (case r of Inl e \<Rightarrow> (Inl e, st) | Inr x \<Rightarrow> (Inr (), (fst st, x)))"

section \<open>Read\<close>

text \<open>The function \<open>chunk\<close> of \<open>Read\<close>: a chunk read and copied to its block of the output.\<close>

definition read_chunk_into ::
    "'s arr \<Rightarrow> dtype \<Rightarrow> vec \<Rightarrow> vec \<Rightarrow> vec \<Rightarrow> reader \<Rightarrow> vec \<Rightarrow> ('s \<times> elem list, unit) io" where
  "read_chunk_into a t start shape sidx rd idx =
     (let first = timesV sidx (a_perShard a) in
      io_bind (io_fst (readChunkOf a t sidx rd (minusV idx first))) (\<lambda>v st.
        let (at, n, _) = overlap a idx start shape (a_chunks a); fill = a_fill a; zero = zero_of t in
        case v of
          (None, _, _) \<Rightarrow>
            if \<not> go_eq fill zero \<or> \<not> go_eq fill fill
            then io_put (fillBlock (snd st) shape (minusV at start) n fill) st
            else io_ret () st
        | (Some src, vshape, vat) \<Rightarrow>
            io_put (copyBlock (snd st) shape (minusV at start) src vshape
                      (plusV vat (minusV at (timesV idx (a_chunks a)))) n) st))"

definition read_region :: "(nat \<Rightarrow> nat list) \<Rightarrow> 's arr \<Rightarrow> dtype \<Rightarrow> vec \<Rightarrow> vec \<Rightarrow> vec \<Rightarrow> vec \<Rightarrow> ('s, elem list) io" where
  "read_region sched a t start shape lo hi =
     (let slo = shardOf a lo; shi = shardOf a hi;
          out = replicate (product_of shape) (zero_of t)
      in if \<not> byRange a then
           (\<lambda>s. case eachSpan sched (limit a (spanLen slo shi)) slo shi (\<lambda>_ sidx.
                   io_bind (io_fst (openStored a t sidx)) (\<lambda>rd.
                     let first = timesV sidx (a_perShard a);
                         ilo = map2 max lo first;
                         ihi = map2 min hi (minusOne (plusV first (a_perShard a)))
                     in io_each (read_chunk_into a t start shape sidx rd) (eachIndex_order ilo ihi))) (s, out) of
                  (Inl e, st) \<Rightarrow> (Inl e, fst st)
                | (Inr _, st) \<Rightarrow> (Inr (snd st), fst st))
         else
           (\<lambda>s. case eachSpan sched (limit a (spanLen slo shi)) slo shi (\<lambda>n sidx.
                   io_bind (io_fst (openStored a t sidx)) (\<lambda>rd st. io_put (Inr ((snd st)[n := rd])) st))
                   (s, replicate (spanLen slo shi) ReadNothing) of
                  (Inl e, st) \<Rightarrow> (Inl e, fst st)
                | (Inr _, st) \<Rightarrow>
                    (case eachSpan sched (limit a (spanLen lo hi)) lo hi (\<lambda>_ idx.
                         let sidx = shardOf a idx
                         in read_chunk_into a t start shape sidx (snd st ! spanOf slo shi sidx) idx) (fst st, out) of
                       (Inl e, st) \<Rightarrow> (Inl e, fst st)
                     | (Inr _, st) \<Rightarrow> (Inr (snd st), fst st))))"

definition arr_read :: "(nat \<Rightarrow> nat list) \<Rightarrow> 's arr \<Rightarrow> dtype \<Rightarrow> int list option \<Rightarrow> int list option \<Rightarrow> ('s, elem list) io" where
  "arr_read sched a t start shape =
     io_bind (io_lift (checkType a t)) (\<lambda>_.
     io_bind (io_lift (region a start shape (a_chunks a))) (\<lambda>(start, shape, lo, hi, empty).
       let n = (case elements (ints shape) of None \<Rightarrow> 0 | Some n \<Rightarrow> n) in
       if n > maxInt64 div int (dsize (a_type a)) then io_err (ErrOther ''a region is more than can be held in memory'')
       else if empty then io_ret (replicate (product_of shape) (zero_of t))
       else
         (let (_, n, whole) = overlap a lo start shape (a_chunks a) in
          if spanLen lo hi = 1 \<and> whole \<and> n = a_chunks a then
            (let slo = shardOf a lo in
             io_bind (openStored a t slo) (\<lambda>rd.
             io_bind (readChunkOf a t slo rd (minusV lo (timesV slo (a_perShard a)))) (\<lambda>v.
               io_lift (viewChunk a v))))
          else read_region sched a t start shape lo hi)))"

section \<open>Write\<close>

text \<open>What \<open>Write\<close> makes of a chunk of a shard it covers part of.\<close>

definition patch_chunk :: "'s arr \<Rightarrow> vec \<Rightarrow> vec \<Rightarrow> elem list \<Rightarrow> vec \<Rightarrow> elem list res \<Rightarrow> elem list res" where
  "patch_chunk a start shape data idx old =
     (let (at, n, whole) = overlap a idx start shape (a_chunks a) in
      rbind (if whole then Inr (filled (product_of (a_chunks a)) (a_fill a)) else old) (\<lambda>buf.
        copyBlock buf (a_chunks a) (minusV at (timesV idx (a_chunks a))) data shape (minusV at start) n))"

definition write_one :: "'s arr \<Rightarrow> dtype \<Rightarrow> vec \<Rightarrow> vec \<Rightarrow> elem list \<Rightarrow> vec \<Rightarrow> ('s, unit) io" where
  "write_one a t start shape data sidx =
     (let (at, n, whole) = overlap a sidx start shape (a_grid a) in
      case (if \<not> whole \<and> patchesChunks a then a_shard a else None) of
        Some s \<Rightarrow>
          patchShard a s t sidx (divV at (a_chunks a)) (divV (minusOne (plusV at n)) (a_chunks a))
            (patch_chunk a start shape data)
      | None \<Rightarrow>
          io_bind (if whole then io_ret (filled (product_of (a_grid a)) (a_fill a)) else readStored a t sidx) (\<lambda>buf.
          io_bind (io_lift (copyBlock buf (a_grid a) (minusV at (timesV sidx (a_grid a))) data shape (minusV at start) n))
            (\<lambda>buf. writeStored a sidx buf)))"

definition arr_write ::
    "(nat \<Rightarrow> nat list) \<Rightarrow> 's arr \<Rightarrow> dtype \<Rightarrow> int list option \<Rightarrow> int list option \<Rightarrow> elem list \<Rightarrow> ('s, unit) io" where
  "arr_write sched a t start shape data =
     io_bind (io_lift (writable a)) (\<lambda>_.
     io_bind (io_lift (checkType a t)) (\<lambda>_.
     io_bind (io_lift (region a start shape (a_grid a))) (\<lambda>(start, shape, lo, hi, empty).
       if length data \<noteq> product_of shape then io_err (ErrOther ''elements for a region of another shape'')
       else if empty then io_ret ()
       else eachSpan sched (limit a (spanLen lo hi)) lo hi (\<lambda>_. write_one a t start shape data))))"

end
