(* ===== verification/ShardParts.thy ===== *)
theory ShardParts
  imports Arrays
begin

text \<open>
  A shard as its chunks: reading a shard whole (\<open>DecodeArray\<close> of \<open>src/shard.go\<close>) succeeds exactly
  when the index is sound and every chunk it holds decodes, and gives the elements of the chunks,
  each in its place. This is what reading one chunk of a shard and patching one have in common
  with reading and writing it whole.
\<close>

text \<open>The elements of a chunk of a shard, of which \<open>None\<close> is one never written.\<close>

definition part :: "shard \<Rightarrow> chunkSpec \<Rightarrow> bytes option \<Rightarrow> elem list res" where
  "part s spec c =
     (case c of
        None \<Rightarrow> Inr (filled (product_of (chunkShape s)) (spFill spec))
      | Some b \<Rightarrow> rbind (innerDec s b (innerSpec s spec)) (\<lambda>v. asChunk (spType spec) v (product_of (chunkShape s))))"

lemma asChunk_Inr: "asChunk t v n = Inr x \<longleftrightarrow> stype v = t \<and> length (elems v) = n \<and> x = elems v"
  by (auto simp: asChunk_def)

lemma part_simps [simp]:
  "part s spec None = Inr (filled (product_of (chunkShape s)) (spFill spec))"
  "part s spec (Some b) = Inr x \<longleftrightarrow>
     (\<exists>v. innerDec s b (innerSpec s spec) = Inr v \<and> stype v = spType spec \<and>
          length (elems v) = product_of (chunkShape s) \<and> x = elems v)"
  by (auto simp: part_def rbind_Inr_iff asChunk_Inr)

text \<open>The elements \<open>v\<close> of a shard are those of its chunks.\<close>

definition parts :: "shard \<Rightarrow> chunkSpec \<Rightarrow> vec \<Rightarrow> bytes option list \<Rightarrow> elem list \<Rightarrow> bool" where
  "parts s spec per chunks v \<longleftrightarrow>
     length chunks = product_of per \<and> length v = product_of (spShape spec) \<and>
     (\<forall>k < product_of per. \<exists>x. part s spec (chunks ! k) = Inr x) \<and>
     (\<forall>idx x. inside idx (spShape spec) \<longrightarrow> part s spec (chunks ! lin per (divV idx (chunkShape s))) = Inr x \<longrightarrow>
        v ! lin (spShape spec) idx = x ! lin (chunkShape s) (modV idx (chunkShape s)))"

lemma part_length: "part s spec c = Inr x \<Longrightarrow> length x = product_of (chunkShape s)"
  by (cases c) auto

text \<open>The order \<open>eachIndex\<close> goes through the chunks of a shard is that of its index.\<close>

lemma order_origin:
  assumes "positive per"
  shows "set (eachIndex_order (zeros (length per)) (minusOne per)) = {l. inside l per}"
    and "distinct (eachIndex_order (zeros (length per)) (minusOne per))"
    and "length (eachIndex_order (zeros (length per)) (minusOne per)) = product_of per"
    and "inside l per \<Longrightarrow> eachIndex_order (zeros (length per)) (minusOne per) ! lin per l = l"
proof -
  let ?L = "eachIndex_order (zeros (length per)) (minusOne per)"
  show "set ?L = {l. inside l per}" using set_eachIndex_order [OF le_origin] between_origin [OF assms] by auto
  show "distinct ?L" by (rule distinct_eachIndex_order [OF le_origin])
  show len: "length ?L = product_of per"
    using length_eachIndex_order [OF le_origin] spanLen_origin [OF assms] by simp
  assume l: "inside l per"
  show "?L ! lin per l = l"
    using lin_bound [OF l] len spanInto_spanOf [of "zeros (length per)" "minusOne per" l] spanOf_origin [OF l]
      between_origin [OF assms, of l] l
    by (simp add: eachIndex_order_eq [OF le_origin])
qed

lemma decode_fold_entries:
  "rfold (decode_step s spec index data) ls (k, out) = Inr (k', out') \<Longrightarrow> stype out = spType spec \<Longrightarrow>
     \<forall>j < length ls. \<exists>c x. entry index (k + j) data = Inr c \<and> part s spec c = Inr x"
proof (induction ls arbitrary: k out)
  case (Cons l ls)
  from Cons.prems(1) obtain st where one: "decode_step s spec index data l (k, out) = Inr st"
    and rest: "rfold (decode_step s spec index data) ls st = Inr (k', out')" by (auto simp: rbind_Inr_iff)
  have "\<exists>out1 c x. st = (Suc k, out1) \<and> stype out1 = spType spec \<and> entry index k data = Inr c \<and> part s spec c = Inr x"
  proof (cases "entry index k data")
    case (Inr c)
    show ?thesis
    proof (cases c)
      case None
      with Inr one Cons.prems(2) show ?thesis by (auto simp: decode_step_def)
    next
      case (Some b)
      with Inr one obtain sub out1 where "innerDec s b (innerSpec s spec) = Inr sub"
        "insertBlock out (spShape spec) (timesV l (chunkShape s)) sub (chunkShape s) = Inr out1" "st = (Suc k, out1)"
        by (auto simp: decode_step_def rbind_Inr_iff)
      moreover from this have "stype sub = spType spec" "length (elems sub) = product_of (chunkShape s)" "stype out1 = spType spec"
        using Cons.prems(2) by (auto simp: insertBlock_def rbind_Inr_iff split: if_splits)
      ultimately show ?thesis using Inr Some by auto
    qed
  qed (use one in \<open>simp add: decode_step_def\<close>)
  then obtain out1 c x where st: "st = (Suc k, out1)" "stype out1 = spType spec" "entry index k data = Inr c" "part s spec c = Inr x"
    by blast
  with Cons.IH [of "Suc k" out1] rest have "\<forall>j < length ls. \<exists>c x. entry index (Suc k + j) data = Inr c \<and> part s spec c = Inr x"
    by simp
  with st(3,4) show ?case by (auto simp: less_Suc_eq_0_disj)
qed simp

lemma decode_fold_parts:
  assumes per: "perShard (chunkShape s) (spShape spec) = Inr per" and pos: "positive (spShape spec)"
    and fill: "type_of (spFill spec) = spType spec" and lc: "length chunks = product_of per"
    and ent: "\<And>k. k < product_of per \<Longrightarrow> entry index k data = Inr (chunks ! k) \<and> (\<exists>x. part s spec (chunks ! k) = Inr x)"
  shows "\<exists>out. rfold (decode_step s spec index data) (eachIndex_order (zeros (length per)) (minusOne per))
             (0, filledAny (product_of (spShape spec)) (spFill spec)) = Inr (product_of per, out) \<and>
           stype out = spType spec \<and> parts s spec per chunks (elems out)"
proof -
  let ?L = "eachIndex_order (zeros (length per)) (minusOne per)" and ?cs = "chunkShape s" and ?shape = "spShape spec"
  let ?out = "filledAny (product_of ?shape) (spFill spec)"
  have pp: "positive ?cs" "positive per" "length per = length ?shape" "length ?cs = length ?shape"
    using perShard_positive [OF per pos] by auto
  have per': "list_all2 (\<lambda>s c. s mod c = 0) ?shape ?cs" "per = divV ?shape ?cs"
    using per by (auto simp: perShard_Inr list_all2_conv_all_nth)
  note L = order_origin [OF pp(2)]
  define subs where "subs = (\<lambda>j. case chunks ! j of None \<Rightarrow> None
      | Some bj \<Rightarrow> (case innerDec s bj (innerSpec s spec) of Inl _ \<Rightarrow> None | Inr sub \<Rightarrow> Some sub))"
  have "\<exists>out'. rfold (decode_step s spec index data) ?L (0, ?out) = Inr (0 + length ?L, out') \<and>
      stype out' = spType spec \<and> length (elems out') = product_of ?shape \<and>
      (\<forall>idx. inside idx ?shape \<longrightarrow>
         (\<forall>j < length ?L. divV idx ?cs = ?L ! j \<longrightarrow> elems out' ! lin ?shape idx =
            (case subs j of None \<Rightarrow> elems ?out ! lin ?shape idx | Some sub \<Rightarrow> elems sub ! lin ?cs (modV idx ?cs))) \<and>
         (divV idx ?cs \<notin> set ?L \<longrightarrow> elems out' ! lin ?shape idx = elems ?out ! lin ?shape idx))"
  proof (rule decode_steps [OF L(2) _ pp(1)])
    show "\<forall>j < length ?L. (entry index (0 + j) data = Inr None \<and> subs j = None) \<or>
        (\<exists>bj sub. entry index (0 + j) data = Inr (Some bj) \<and> subs j = Some sub \<and>
           innerDec s bj (innerSpec s spec) = Inr sub \<and> stype sub = spType spec \<and> length (elems sub) = product_of ?cs)"
    proof (intro allI impI)
      fix j assume "j < length ?L"
      then have "entry index j data = Inr (chunks ! j)" "\<exists>x. part s spec (chunks ! j) = Inr x" using ent [of j] L(3) by auto
      then show "(entry index (0 + j) data = Inr None \<and> subs j = None) \<or>
        (\<exists>bj sub. entry index (0 + j) data = Inr (Some bj) \<and> subs j = Some sub \<and>
           innerDec s bj (innerSpec s spec) = Inr sub \<and> stype sub = spType spec \<and> length (elems sub) = product_of ?cs)"
        by (cases "chunks ! j") (auto simp: subs_def)
    qed
  qed (use L(1) per'(2) pp fill in \<open>auto simp: filledAny_def\<close>)
  then obtain out where out: "rfold (decode_step s spec index data) ?L (0, ?out) = Inr (product_of per, out)"
      "stype out = spType spec" "length (elems out) = product_of ?shape"
      "\<And>idx j. inside idx ?shape \<Longrightarrow> j < length ?L \<Longrightarrow> divV idx ?cs = ?L ! j \<Longrightarrow> elems out ! lin ?shape idx =
            (case subs j of None \<Rightarrow> elems ?out ! lin ?shape idx | Some sub \<Rightarrow> elems sub ! lin ?cs (modV idx ?cs))"
    using L(3) by auto
  have "elems out ! lin ?shape idx = x ! lin ?cs (modV idx ?cs)"
    if idx: "inside idx ?shape" and x: "part s spec (chunks ! lin per (divV idx ?cs)) = Inr x" for idx x
  proof -
    let ?j = "lin per (divV idx ?cs)"
    have iv: "inside (divV idx ?cs) per" using tile_inside [OF pp(1) _ per'(1) idx] pp per'(2) by simp
    then have j: "?j < length ?L" "divV idx ?cs = ?L ! ?j" using L(3,4) lin_bound by auto
    have m: "lin ?cs (modV idx ?cs) < product_of ?cs"
      using idx pp by (intro lin_bound modV_inside) (auto dest: list_all2_lengthD)
    from x out(4) [OF idx j] lin_bound [OF idx] m show ?thesis
      by (cases "chunks ! ?j") (auto simp: subs_def filledAny_def filled_def Let_def)
  qed
  with out lc ent show ?thesis by (auto simp: parts_def)
qed

context sharding
begin

text \<open>A shard that decodes is its chunks.\<close>

lemma shard_parts:
  assumes per: "perShard (chunkShape s) (spShape spec) = Inr per" and pos: "positive (spShape spec)"
    and fill: "type_of (spFill spec) = spType spec" and iok: "iok (indexSpec per)"
    and dec: "shard_DecodeArray s b spec = Inr v"
  shows "\<exists>index chunks. readIndex s per b = Inr index \<and> length index = 2 * product_of per \<and>
           (\<forall>k < product_of per. entry index k b = Inr (chunks ! k)) \<and> split_shard s per b = Inr chunks \<and>
           parts s spec per chunks (elems v)"
proof -
  have pp: "positive per" using perShard_positive [OF per pos] by simp
  note L = order_origin [OF pp]
  from dec per obtain index k where ix: "readIndex s per b = Inr index"
    and fold: "rfold (decode_step s spec index b) (eachIndex_order (zeros (length per)) (minusOne per))
       (0, filledAny (product_of (spShape spec)) (spFill spec)) = Inr (k, v)"
    by (auto simp: shard_DecodeArray_def rbind_Inr_iff eachIndex_def chunkOpsOf_def split: if_splits)
  have li: "length index = 2 * product_of per"
    using ix decode_index_length [OF iok] by (auto simp: readIndex_def rbind_Inr_iff Let_def split: if_splits)
  have e: "\<forall>j < product_of per. \<exists>c x. entry index j b = Inr c \<and> part s spec c = Inr x"
    using decode_fold_entries [OF fold] fill L(3) by (simp add: filledAny_def)
  then have "\<exists>cs. rmap (\<lambda>k. entry index k b) [0 ..< product_of per] = Inr cs"
    by (intro rmap_total) auto
  then obtain chunks where chunks: "rmap (\<lambda>k. entry index k b) [0 ..< product_of per] = Inr chunks" by blast
  then have ch: "length chunks = product_of per" "\<And>k. k < product_of per \<Longrightarrow> entry index k b = Inr (chunks ! k)"
    by (auto simp: rmap_Inr_iff list_all2_conv_all_nth)
  have "\<exists>x. part s spec (chunks ! k) = Inr x" if "k < product_of per" for k
    using e ch(2) that by fastforce
  with decode_fold_parts [OF per pos fill ch(1), of index b] ch(2) fold have "parts s spec per chunks (elems v)" by auto
  with ix li ch chunks show ?thesis by (intro exI [of _ index] exI [of _ chunks]) (simp add: split_shard_def)
qed

text \<open>A shard put together from chunks that decode is decoded to them.\<close>

lemma parts_assembled:
  assumes per: "perShard (chunkShape s) (spShape spec) = Inr per" and pos: "positive (spShape spec)"
    and sb: "storedBytes (ints (spShape spec)) (spType spec) = Inr sz"
    and fill: "type_of (spFill spec) = spType spec" and iok: "iok (indexSpec per)"
    and asm: "assemble s per chunks = Inr b" and lc: "length chunks = product_of per" and lb: "length b < 2 ^ 63"
    and ch: "\<And>k. k < product_of per \<Longrightarrow> \<exists>x. part s spec (chunks ! k) = Inr x"
  shows "\<exists>v. shard_DecodeArray s b spec = Inr v \<and> stype v = spType spec \<and> parts s spec per chunks (elems v)"
proof -
  obtain ix where ix: "readIndex s per b = Inr ix" "\<And>k. k < length chunks \<Longrightarrow> entry ix k b = Inr (chunks ! k)"
    using read_assembled [OF iok asm lc lb] by blast
  have "known (spType spec)" using storedBytes_Inr [OF sb] by simp
  with decode_fold_parts [OF per pos fill lc, of ix b] ix ch lc sb fill per show ?thesis
    by (auto simp: shard_DecodeArray_def chunkOpsOf_def eachIndex_def filledAny_def)
qed

text \<open>Putting a shard together never fails.\<close>

lemma assemble_total:
  assumes iok: "iok (indexSpec per)" and ixs: "storedBytes (ints (per @ [2])) Uint64 = Inr sz"
    and lc: "length chunks = product_of per"
  shows "\<exists>b. assemble s per chunks = Inr b"
proof -
  have ienc: "\<exists>b. encodeIndex s per ix = Inr b" if "length ix = 2 * product_of per" for ix
    unfolding encodeIndex_def using that
    by (intro index.encode_total [OF iok]) (auto simp: chunk_of_def wt_slice_def indexSpec_def)
  obtain b0 where "encodeIndex s per (replicate (2 * product_of per) noChunk) = Inr b0"
    using ienc [of "replicate (2 * product_of per) noChunk"] by auto
  then have ixsz: "indexSize s per = Inr (length b0)" using ixs by (simp add: indexSize_def)
  obtain ix m where p: "place (if atStart s then length b0 else 0) chunks = (ix, m)" by fastforce
  obtain ib where "encodeIndex s per ix = Inr ib" using ienc [of ix] place_length [OF p] lc by auto
  then show ?thesis using ixsz p by (simp add: assemble_def)
qed

end

end
