(* ===== verification/Wp.thy ===== *)
theory Wp
  imports Arrays
begin

text \<open>
  A calculus for functions that talk to a store, and its rules for the loops of
  \<open>src/concurrent.go\<close>. \<open>wp live m s Q R\<close> says that \<open>m\<close> run from \<open>s\<close> ends in \<open>Q\<close> if it succeeds, in
  \<open>R\<close> if it fails, that it can only fail if the store is not \<open>live\<close> (a cancelled context, a
  store that fails), and that it does not make a live store fail.
\<close>

definition wp :: "('s \<Rightarrow> bool) \<Rightarrow> ('s, 'a) io \<Rightarrow> 's \<Rightarrow> ('a \<Rightarrow> 's \<Rightarrow> bool) \<Rightarrow> ('s \<Rightarrow> bool) \<Rightarrow> bool" where
  "wp live m s Q R \<longleftrightarrow>
     (case m s of
        (Inr x, t) \<Rightarrow> (live s \<longrightarrow> live t) \<and> Q x t
      | (Inl e, t) \<Rightarrow> \<not> live s \<and> R t)"

lemma wp_ret: "Q x s \<Longrightarrow> wp live (io_ret x) s Q R"
  by (simp add: wp_def)

lemma wp_lift: "r = Inr x \<Longrightarrow> Q x s \<Longrightarrow> wp live (io_lift r) s Q R"
  by (simp add: wp_def)

lemma wp_err: "\<not> live s \<Longrightarrow> R s \<Longrightarrow> wp live (io_err e) s Q R"
  by (simp add: wp_def)

lemma wp_bind: "wp live m s (\<lambda>x t. wp live (f x) t Q R) R \<Longrightarrow> wp live (io_bind m f) s Q R"
  by (auto simp: wp_def io_bind_def split: prod.splits sum.splits)

lemma wp_lift_bind: "r = Inr x \<Longrightarrow> wp live (f x) s Q R \<Longrightarrow> wp live (io_bind (io_lift r) f) s Q R"
  by simp

lemma wp_mono:
  "wp live m s Q R \<Longrightarrow> (\<And>x t. Q x t \<Longrightarrow> Q' x t) \<Longrightarrow> (\<And>t. R t \<Longrightarrow> R' t) \<Longrightarrow> wp live m s Q' R'"
  by (auto simp: wp_def split: prod.splits sum.splits)

lemma wp_Inr: "wp live m s Q R \<Longrightarrow> m s = (Inr x, t) \<Longrightarrow> Q x t \<and> (live s \<longrightarrow> live t)"
  by (simp add: wp_def)

lemma wp_Inl: "wp live m s Q R \<Longrightarrow> m s = (Inl e, t) \<Longrightarrow> R t \<and> \<not> live s"
  by (simp add: wp_def)

lemma wp_live: "wp live m s Q R \<Longrightarrow> live s \<Longrightarrow> \<exists>x t. m s = (Inr x, t) \<and> Q x t \<and> live t"
  by (cases "m s"; cases "fst (m s)") (auto simp: wp_def)

lemma wp_fst:
  "wp live m (fst st) (\<lambda>x t. Q x (t, snd st)) (\<lambda>t. R (t, snd st)) \<Longrightarrow> wp (\<lambda>st. live (fst st)) (io_fst m) st Q R"
  by (auto simp: wp_def io_fst_def split: prod.splits sum.splits)

lemma wp_put: "r = Inr x \<Longrightarrow> Q () (fst st, x) \<Longrightarrow> wp (\<lambda>st. live (fst st)) (io_put r) st Q R"
  by (simp add: wp_def io_put_def)

section \<open>The loops\<close>

text \<open>
  \<open>Inv C D\<close>: the calls \<open>C\<close> have succeeded, the calls \<open>D\<close> have been made. A loop that succeeds
  has succeeded in every call; one that fails has made some.
\<close>

lemma run_sched_inv:
  assumes step: "\<And>n C D s. n < N \<Longrightarrow> n \<notin> D \<Longrightarrow> C \<subseteq> D \<Longrightarrow> D \<subseteq> {..< N} \<Longrightarrow> Inv C D s \<Longrightarrow>
      wp live (f n) s (\<lambda>_. Inv (insert n C) (insert n D)) (Inv C (insert n D))"
  shows "distinct ns \<Longrightarrow> set ns \<subseteq> {..< N} \<Longrightarrow> set ns \<inter> D = {} \<Longrightarrow> C \<subseteq> D \<Longrightarrow> D \<subseteq> {..< N} \<Longrightarrow> Inv C D s \<Longrightarrow>
    run_sched f ns first s = (e, t) \<Longrightarrow>
    \<exists>C'. C \<subseteq> C' \<and> C' \<subseteq> C \<union> set ns \<and> Inv C' (D \<union> set ns) t \<and> (first \<noteq> None \<longrightarrow> e \<noteq> None) \<and>
      (first = None \<longrightarrow> (e = None \<longrightarrow> C' = C \<union> set ns) \<and> (live s \<longrightarrow> e = None \<and> live t))"
proof (induction ns arbitrary: C D s first)
  case Nil
  then show ?case by auto
next
  case (Cons n ns)
  have w: "wp live (f n) s (\<lambda>_. Inv (insert n C) (insert n D)) (Inv C (insert n D))"
    using Cons.prems by (intro step) auto
  have d1: "distinct ns" and d2: "set ns \<subseteq> {..< N}" and d3: "set ns \<inter> insert n D = {}" and d4: "insert n D \<subseteq> {..< N}"
    using Cons.prems(1,2,3,5) by auto
  have un: "D \<union> set (n # ns) = insert n D \<union> set ns" "C \<union> set (n # ns) = insert n C \<union> set ns" by auto
  obtain r u where r: "f n s = (r, u)" by fastforce
  show ?case
  proof (cases r)
    case (Inr x)
    then have u: "Inv (insert n C) (insert n D) u" "live s \<longrightarrow> live u" using wp_Inr [OF w] r by auto
    have run: "run_sched f ns first u = (e, t)" using Cons.prems(7) r Inr by simp
    have "\<exists>C'. insert n C \<subseteq> C' \<and> C' \<subseteq> insert n C \<union> set ns \<and> Inv C' (insert n D \<union> set ns) t \<and> (first \<noteq> None \<longrightarrow> e \<noteq> None) \<and>
      (first = None \<longrightarrow> (e = None \<longrightarrow> C' = insert n C \<union> set ns) \<and> (live u \<longrightarrow> e = None \<and> live t))"
      by (rule Cons.IH [OF d1 d2 d3 insert_mono [OF Cons.prems(4)] d4 u(1) run])
    then obtain C' where C': "insert n C \<subseteq> C'" "C' \<subseteq> insert n C \<union> set ns" "Inv C' (insert n D \<union> set ns) t"
      "first \<noteq> None \<longrightarrow> e \<noteq> None"
      "first = None \<longrightarrow> (e = None \<longrightarrow> C' = insert n C \<union> set ns) \<and> (live u \<longrightarrow> e = None \<and> live t)"
      by (elim exE conjE) (rule that; assumption)
    have sub: "C \<subseteq> C'" using C'(1) by (rule subset_trans [OF subset_insertI])
    show ?thesis
      unfolding un using sub C'(2-5) u(2) by (intro exI [of _ C'] conjI impI) simp_all
  next
    case (Inl err)
    then have u: "Inv C (insert n D) u" "\<not> live s" using wp_Inl [OF w] r by auto
    let ?first = "case first of None \<Rightarrow> Some err | Some _ \<Rightarrow> first"
    have run: "run_sched f ns ?first u = (e, t)" using Cons.prems(7) r Inl by simp
    have fn: "?first \<noteq> None" by (cases first) auto
    have "\<exists>C'. C \<subseteq> C' \<and> C' \<subseteq> C \<union> set ns \<and> Inv C' (insert n D \<union> set ns) t \<and> (?first \<noteq> None \<longrightarrow> e \<noteq> None) \<and>
      (?first = None \<longrightarrow> (e = None \<longrightarrow> C' = C \<union> set ns) \<and> (live u \<longrightarrow> e = None \<and> live t))"
      by (rule Cons.IH [OF d1 d2 d3 subset_insertI2 [OF Cons.prems(4)] d4 u(1) run])
    then obtain C' where C': "C \<subseteq> C'" "C' \<subseteq> C \<union> set ns" "Inv C' (insert n D \<union> set ns) t" "e \<noteq> None"
      using fn by (elim exE conjE) (rule that; simp)
    have "C' \<subseteq> insert n C \<union> set ns" using C'(2) by (rule subset_trans) auto
    with C' u(2) show ?thesis unfolding un by (intro exI [of _ C'] conjI impI) simp_all
  qed
qed

lemma io_each_inv:
  assumes step: "\<And>n C D s. n < N \<Longrightarrow> n \<notin> D \<Longrightarrow> C \<subseteq> D \<Longrightarrow> D \<subseteq> {..< N} \<Longrightarrow> Inv C D s \<Longrightarrow>
      wp live (f n) s (\<lambda>_. Inv (insert n C) (insert n D)) (Inv C (insert n D))"
  shows "k \<le> N \<Longrightarrow> Inv {..< k} {..< k} s \<Longrightarrow>
    wp live (io_each f [k ..< N]) s (\<lambda>_. Inv {..< N} {..< N}) (\<lambda>t. \<exists>C D. C \<subseteq> D \<and> D \<subseteq> {..< N} \<and> Inv C D t)"
proof (induction "N - k" arbitrary: k s)
  case 0
  then have "k = N" by simp
  with 0(3) show ?case by (auto simp: wp_def)
next
  case (Suc m)
  then have k: "k < N" by simp
  have ins: "insert k {..< k} = {..< Suc k}" by auto
  have "wp live (f k) s (\<lambda>_. Inv {..< Suc k} {..< Suc k}) (Inv {..< k} {..< Suc k})"
    using step [of k "{..< k}" "{..< k}" s] Suc.prems k by (simp add: ins)
  then have "wp live (f k) s (\<lambda>_ t. wp live (io_each f [Suc k ..< N]) t (\<lambda>_. Inv {..< N} {..< N})
        (\<lambda>t. \<exists>C D. C \<subseteq> D \<and> D \<subseteq> {..< N} \<and> Inv C D t))
      (\<lambda>t. \<exists>C D. C \<subseteq> D \<and> D \<subseteq> {..< N} \<and> Inv C D t)"
  proof (rule wp_mono)
    fix t assume "Inv {..< k} {..< Suc k} t"
    moreover have "{..< k} \<subseteq> {..< Suc k}" "{..< Suc k} \<subseteq> {..< N}" using k by auto
    ultimately show "\<exists>C D. C \<subseteq> D \<and> D \<subseteq> {..< N} \<and> Inv C D t" by blast
  next
    fix t assume "Inv {..< Suc k} {..< Suc k} t"
    with Suc k show "wp live (io_each f [Suc k ..< N]) t (\<lambda>_. Inv {..< N} {..< N})
        (\<lambda>t. \<exists>C D. C \<subseteq> D \<and> D \<subseteq> {..< N} \<and> Inv C D t)" by simp
  qed
  then show ?case using k by (subst upt_conv_Cons) (auto intro: wp_bind)
qed

text \<open>A schedule makes each call at most once; one whose context is never cancelled makes all.\<close>

definition sched_ok :: "(nat \<Rightarrow> nat list) \<Rightarrow> bool" where
  "sched_ok sched \<longleftrightarrow> (\<forall>n. distinct (sched n) \<and> set (sched n) \<subseteq> {..< n})"

definition sched_full :: "(nat \<Rightarrow> nat list) \<Rightarrow> bool" where
  "sched_full sched \<longleftrightarrow> (\<forall>n. {..< n} \<subseteq> set (sched n))"

lemma eachSpan_inv:
  assumes sched: "sched_ok sched" "\<And>s. live s \<Longrightarrow> sched_full sched"
    and step: "\<And>n C D s. n < spanLen lo hi \<Longrightarrow> n \<notin> D \<Longrightarrow> C \<subseteq> D \<Longrightarrow> D \<subseteq> {..< spanLen lo hi} \<Longrightarrow> Inv C D s \<Longrightarrow>
      wp live (f n (spanInto lo hi n)) s (\<lambda>_. Inv (insert n C) (insert n D)) (Inv C (insert n D))"
    and init: "Inv {} {} s"
  shows "wp live (eachSpan sched lim lo hi f) s (\<lambda>_. Inv {..< spanLen lo hi} {..< spanLen lo hi})
           (\<lambda>t. \<exists>C D. C \<subseteq> D \<and> D \<subseteq> {..< spanLen lo hi} \<and> Inv C D t)"
proof -
  let ?N = "spanLen lo hi" and ?g = "\<lambda>n. f n (spanInto lo hi n)"
  show ?thesis
  proof (cases "lim \<le> 1 \<or> ?N \<le> 1")
    case True
    have "wp live (io_each ?g [0 ..< ?N]) s (\<lambda>_. Inv {..< ?N} {..< ?N})
        (\<lambda>t. \<exists>C D. C \<subseteq> D \<and> D \<subseteq> {..< ?N} \<and> Inv C D t)"
      by (rule io_each_inv) (use step init in auto)
    with True show ?thesis by (simp add: eachSpan_def)
  next
    case False
    obtain e t where run: "run_sched ?g (sched ?N) None s = (e, t)" by fastforce
    have "\<exists>C'. {} \<subseteq> C' \<and> C' \<subseteq> {} \<union> set (sched ?N) \<and> Inv C' ({} \<union> set (sched ?N)) t \<and>
        ((None :: error option) \<noteq> None \<longrightarrow> e \<noteq> None) \<and>
        ((None :: error option) = None \<longrightarrow> (e = None \<longrightarrow> C' = {} \<union> set (sched ?N)) \<and> (live s \<longrightarrow> e = None \<and> live t))"
      using sched(1) init by (intro run_sched_inv [OF step _ _ _ _ _ _ run]) (auto simp: sched_ok_def)
    then obtain C where C: "C \<subseteq> set (sched ?N)" "Inv C (set (sched ?N)) t"
      "e = None \<longrightarrow> C = set (sched ?N)" "live s \<longrightarrow> e = None \<and> live t" by auto
    have sub: "set (sched ?N) \<subseteq> {..< ?N}" using sched(1) by (auto simp: sched_ok_def)
    show ?thesis
    proof (cases "e = None \<and> {..< ?N} \<subseteq> set (sched ?N)")
      case True
      then have "set (sched ?N) = {..< ?N}" using sub by blast
      with C True False run show ?thesis by (simp add: wp_def eachSpan_def Let_def atLeast0LessThan)
    next
      case bad: False
      then have "\<not> live s" using C(4) sched(2) by (auto simp: sched_full_def)
      moreover have "\<exists>C D. C \<subseteq> D \<and> D \<subseteq> {..< ?N} \<and> Inv C D t" using C(1,2) sub by blast
      ultimately show ?thesis using False bad run
        by (cases e) (auto simp: wp_def eachSpan_def atLeast0LessThan Let_def)
    qed
  qed
qed

section \<open>Reading a store\<close>

context store_reads
begin

lemma wp_get:
  assumes k: "checkKey k = Inr ()"
    and "\<And>t. contents t = contents s \<Longrightarrow> contents s k = None \<Longrightarrow> wp live (f (Inl ErrNotFound)) t Q R"
    and "\<And>t b. contents t = contents s \<Longrightarrow> contents s k = Some b \<Longrightarrow> wp live (f (Inr b)) t Q R"
    and "\<And>t e. contents t = contents s \<Longrightarrow> e \<noteq> ErrNotFound \<Longrightarrow> f (Inl e) = io_err e \<and> R t"
  shows "wp live (io_try (st_get ops k) f) s Q R"
proof -
  obtain r t where g: "st_get ops k s = (r, t)" by fastforce
  have ct: "contents t = contents s" using get_contents [OF g] .
  have lv: "live s \<longrightarrow> live t \<and> r = (case contents s k of None \<Rightarrow> Inl ErrNotFound | Some b \<Rightarrow> Inr b)"
    using get_live [OF _ k, of s] g by auto
  have w: "wp live (f r) t Q R \<Longrightarrow> live s \<longrightarrow> live t \<Longrightarrow> ?thesis"
    using g by (auto simp: wp_def io_try_def split: prod.splits sum.splits)
  show ?thesis
  proof (cases r)
    case (Inr b)
    with get_found g assms(3) [OF ct] lv w show ?thesis by auto
  next
    case (Inl e)
    show ?thesis
    proof (cases "e = ErrNotFound")
      case True
      with Inl get_missing g assms(2) [OF ct] lv w show ?thesis by auto
    next
      case False
      with Inl lv have "\<not> live s" by (auto split: option.splits)
      with assms(4) [OF ct False] g Inl show ?thesis by (simp add: wp_def io_try_def)
    qed
  qed
qed

lemma wp_range:
  assumes "st_range ops = Some rg" "in_int64 off" "in_int64 len" and k: "checkKey k = Inr ()"
    and "\<And>v. contents s k = Some v \<Longrightarrow> int (length v) \<le> maxInt64 \<and> range_in v off len"
    and small: "contents s k = None \<Longrightarrow> \<exists>v. range_in v off len \<and> length v \<le> index_limit"
    and "\<And>t. contents t = contents s \<Longrightarrow> contents s k = None \<Longrightarrow> wp live (f (Inl ErrNotFound)) t Q R"
    and "\<And>t v. contents t = contents s \<Longrightarrow> contents s k = Some v \<Longrightarrow> wp live (f (Inr (sub_bytes v off len))) t Q R"
    and "\<And>t e. contents t = contents s \<Longrightarrow> e \<noteq> ErrNotFound \<Longrightarrow> f (Inl e) = io_err e \<and> R t"
  shows "wp live (io_try (rg k off len) f) s Q R"
proof -
  obtain r t where g: "rg k off len s = (r, t)" by fastforce
  have ct: "contents t = contents s" using range_contents [OF assms(1) g] .
  have lv: "live s \<longrightarrow> live t \<and> r = (case contents s k of None \<Rightarrow> Inl ErrNotFound | Some v \<Rightarrow> Inr (sub_bytes v off len))"
  proof (cases "contents s k")
    case None
    then obtain v where "range_in v off len" "length v \<le> index_limit" using small by blast
    with None show ?thesis using range_live_missing [OF assms(1) _ k, of s v off len] g by auto
  next
    case (Some v)
    then show ?thesis using range_live [OF assms(1) _ k, of s v off len] assms(5) [of v] g by auto
  qed
  have w: "wp live (f r) t Q R \<Longrightarrow> live s \<longrightarrow> live t \<Longrightarrow> ?thesis"
    using g by (auto simp: wp_def io_try_def split: prod.splits sum.splits)
  show ?thesis
  proof (cases r)
    case (Inr b)
    then obtain v where "contents s k = Some v" "b = sub_bytes v off len"
      using range_found [OF assms(1)] g assms(2,3,5) by blast
    with Inr assms(8) [OF ct] lv w show ?thesis by auto
  next
    case (Inl e)
    show ?thesis
    proof (cases "e = ErrNotFound")
      case True
      with Inl range_missing [OF assms(1)] g assms(7) [OF ct] lv w show ?thesis by auto
    next
      case False
      with Inl lv have "\<not> live s" by (auto split: option.splits)
      with assms(9) [OF ct False] g Inl show ?thesis by (simp add: wp_def io_try_def)
    qed
  qed
qed

end

context store_laws
begin

lemma wp_set:
  assumes "checkKey k = Inr ()" "\<And>t. contents t = (contents s)(k := Some b) \<Longrightarrow> Q () t" "\<And>t. contents t = contents s \<Longrightarrow> R t"
  shows "wp live (st_set ops k b) s Q R"
proof -
  obtain r t where g: "st_set ops k b s = (r, t)" by fastforce
  with set_live [OF _ assms(1), of s b] set_done [of k b s "()" t] set_failed [of k b s _ t] assms(2,3)
  show ?thesis by (cases r) (auto simp: wp_def)
qed

lemma wp_delete:
  assumes "\<And>t. contents t = (contents s)(k := None) \<Longrightarrow> Q () t" "\<And>t. contents t = contents s \<Longrightarrow> R t"
  shows "wp live (st_delete ops k) s Q R"
proof -
  obtain r t where g: "st_delete ops k s = (r, t)" by fastforce
  with delete_live [of s k] delete_done [of k s "()" t] delete_failed [of k s _ t] assms
  show ?thesis by (cases r) (auto simp: wp_def)
qed

end

end
