(* ===== verification/Regions.thy ===== *)
theory Regions
  imports Wp
begin

text \<open>
  What \<open>region\<close>, \<open>overlap\<close> and \<open>fillPast\<close> are: a region that is accepted is within the array and
  its cells are those from \<open>lo\<close> to \<open>hi\<close>; the overlap with a cell is the part of the region in
  the cell; and what is filled is exactly what is past the end of the array.
\<close>

lemma in_block_nthI:
  "length at = length i \<Longrightarrow> length n = length i \<Longrightarrow> (\<And>k. k < length i \<Longrightarrow> at ! k \<le> i ! k \<and> i ! k < at ! k + n ! k) \<Longrightarrow>
     in_block at n i"
  by (simp add: in_block_nth)

lemma nth_map2_max [simp]: "k < length a \<Longrightarrow> k < length b \<Longrightarrow> map2 max a b ! k = max (a ! k) (b ! k)"
  by simp

section \<open>Regions\<close>

text \<open>The cells a region meets: from the one of its first element to the one of its last.\<close>

definition cell_range :: "vec \<Rightarrow> vec \<Rightarrow> vec \<Rightarrow> vec \<Rightarrow> vec \<Rightarrow> bool" where
  "cell_range start shape cell lo hi \<longleftrightarrow>
     length start = length cell \<and> length shape = length cell \<and> length lo = length cell \<and> length hi = length cell \<and>
     (\<forall>k < length cell. lo ! k = start ! k div cell ! k \<and> hi ! k = (start ! k + shape ! k - 1) div cell ! k)"

lemma region_Inr:
  assumes r: "region a start shape cell = Inr (st, sh, lo, hi, emp)"
    and S: "\<forall>v \<in> set (mShape (a_meta a)). 0 \<le> v" and c: "length cell = length (mShape (a_meta a))"
  shows "fits st sh (a_shape a) \<and> (emp \<longleftrightarrow> 0 \<in> set sh) \<and> (\<not> emp \<longrightarrow> cell_range st sh cell lo hi)"
proof -
  let ?S = "mShape (a_meta a)"
  from r obtain s n where sn: "length s = length ?S" "length n = length ?S"
    "list_all2 (\<lambda>m (s, n). \<not> (s < 0 \<or> n < 0 \<or> s > m \<or> n > m - s)) ?S (zip s n)"
    and st: "st = map nat s" "sh = map nat n" "emp \<longleftrightarrow> 0 \<in> set sh"
      "lo = map2 (\<lambda>(s, n) c. if n = 0 then 0 else s div c) (zip st sh) cell"
      "hi = map2 (\<lambda>(s, n) c. if n = 0 then 0 else (s + n - 1) div c) (zip st sh) cell"
    unfolding region_def Let_def by (auto split: if_splits)
  have e: "0 \<le> s ! k \<and> 0 \<le> n ! k \<and> s ! k + n ! k \<le> ?S ! k" if "k < length ?S" for k
  proof -
    have "(\<lambda>m (s, n). \<not> (s < 0 \<or> n < 0 \<or> s > m \<or> n > m - s)) (?S ! k) (zip s n ! k)"
      using list_all2_nthD [OF sn(3) that] .
    then show ?thesis using that sn(1,2) by (simp add: not_less)
  qed
  have "fits st sh (a_shape a)"
    unfolding fits_nth using sn st(1,2) e by (auto simp: nat_add_distrib [symmetric] intro!: nat_mono)
  moreover have "cell_range st sh cell lo hi" if "\<not> emp"
  proof -
    have "sh ! k \<noteq> 0" if "k < length cell" for k
      using that \<open>\<not> emp\<close> st(2,3) sn c by (metis length_map nth_mem)
    then show ?thesis using st sn c by (simp add: cell_range_def)
  qed
  ultimately show ?thesis using st(3) by blast
qed

lemma region_cells:
  assumes "cell_range start shape cell lo hi" "positive cell" "in_block start shape i"
  shows "between lo hi (divV i cell)"
  unfolding between_nth
proof (intro conjI allI impI)
  fix k assume "k < length (divV i cell)"
  then have k: "k < length cell" "k < length i" by auto
  with assms have b: "start ! k \<le> i ! k" "i ! k \<le> start ! k + shape ! k - 1" by (auto simp: in_block_nth)
  show "lo ! k \<le> divV i cell ! k" using assms(1) b k by (simp add: cell_range_def div_le_mono)
  show "divV i cell ! k \<le> hi ! k" using assms(1) b k by (simp add: cell_range_def div_le_mono)
qed (use assms in \<open>auto simp: cell_range_def in_block_nth\<close>)

lemma cell_range_le:
  assumes "cell_range start shape cell lo hi" "\<forall>v \<in> set shape. 0 < v"
  shows "list_all2 (\<le>) lo hi"
  using assms by (auto simp: cell_range_def list_all2_conv_all_nth intro!: div_le_mono)
    (metis add_diff_assoc le_add1 less_eq_Suc_le nth_mem One_nat_def)

lemma cell_hi_inside:
  assumes cr: "cell_range start shape cell lo hi" and pos: "\<forall>v \<in> set shape. 0 < v" and f: "fits start shape S"
    and c: "positive cell" and b: "between lo hi idx" and k: "k < length cell"
  shows "idx ! k * cell ! k < start ! k + shape ! k \<and> start ! k < idx ! k * cell ! k + cell ! k"
proof -
  have "lo ! k \<le> idx ! k" "idx ! k \<le> hi ! k" using b k cr by (auto simp: between_nth cell_range_def)
  then have b: "start ! k div cell ! k \<le> idx ! k" "idx ! k \<le> (start ! k + shape ! k - 1) div cell ! k"
    using cr k by (auto simp: cell_range_def)
  have "0 < shape ! k" "0 < cell ! k" using pos c k cr by (auto simp: cell_range_def)
  moreover have "idx ! k * cell ! k \<le> start ! k + shape ! k - 1"
    using mult_le_mono1 [OF b(2), of "cell ! k"] div_times_less_eq_dividend le_trans by blast
  moreover have "start ! k < (start ! k div cell ! k + 1) * cell ! k"
    using \<open>0 < cell ! k\<close> by (metis add.commute dividend_less_div_times mult_Suc plus_1_eq_Suc)
  moreover have "(start ! k div cell ! k + 1) * cell ! k \<le> (idx ! k + 1) * cell ! k" using b(1) by (intro mult_le_mono1) simp
  then have "(start ! k div cell ! k + 1) * cell ! k \<le> idx ! k * cell ! k + cell ! k" by simp
  ultimately show ?thesis by linarith
qed

section \<open>The overlap of a region and a cell\<close>

lemma overlap_nth:
  assumes "overlap a idx start shape cell = (at, n, whole)"
    and "length idx = length cell" "length start = length cell" "length shape = length cell" "length (a_shape a) = length cell"
  shows "length at = length cell \<and> length n = length cell \<and>
    (\<forall>k < length cell. at ! k = max (start ! k) (idx ! k * cell ! k) \<and>
       n ! k = min (start ! k + shape ! k) (min (idx ! k * cell ! k + cell ! k) (a_shape a ! k)) - at ! k) \<and>
    (whole \<longleftrightarrow> (\<forall>k < length cell. at ! k = idx ! k * cell ! k \<and>
       n ! k = min (idx ! k * cell ! k + cell ! k) (a_shape a ! k) - idx ! k * cell ! k))"
proof -
  have e: "at = map2 max start (timesV idx cell)"
    "n = minusV (map2 min (plusV start shape) (map2 min (plusV (timesV idx cell) cell) (a_shape a))) at"
    "whole \<longleftrightarrow> list_all2 (=) at (timesV idx cell) \<and>
       list_all2 (=) n (minusV (map2 min (plusV (timesV idx cell) cell) (a_shape a)) (timesV idx cell))"
    using assms(1) unfolding overlap_def Let_def prod.inject by blast+
  have l: "length at = length cell" "length n = length cell" using assms(2-) e(1,2) by simp_all
  have nth: "at ! k = max (start ! k) (idx ! k * cell ! k)"
    "n ! k = min (start ! k + shape ! k) (min (idx ! k * cell ! k + cell ! k) (a_shape a ! k)) - at ! k" if "k < length cell" for k
    using assms(2-) l that by (simp_all add: e(1,2))
  have "whole \<longleftrightarrow> (\<forall>k < length cell. at ! k = idx ! k * cell ! k) \<and>
      (\<forall>k < length cell. n ! k = min (idx ! k * cell ! k + cell ! k) (a_shape a ! k) - idx ! k * cell ! k)"
    unfolding e(3) list_all2_conv_all_nth using assms(2-) l by simp
  with l nth show ?thesis by blast
qed

lemma overlap_spec:
  assumes o: "overlap a idx start shape cell = (at, n, whole)" and cr: "cell_range start shape cell lo hi"
    and pos: "\<forall>v \<in> set shape. 0 < v" and f: "fits start shape (a_shape a)" and c: "positive cell"
    and b: "between lo hi idx"
  shows "fits (minusV at start) n shape" "fits (minusV at (timesV idx cell)) n cell"
    "in_block at n i \<longleftrightarrow> in_block start shape i \<and> in_block (timesV idx cell) cell i"
    "positive n" "length at = length cell" "length n = length cell"
    "\<forall>k < length cell. start ! k \<le> at ! k \<and> idx ! k * cell ! k \<le> at ! k"
    "whole \<Longrightarrow> inside i (a_shape a) \<Longrightarrow> in_block (timesV idx cell) cell i \<Longrightarrow> in_block start shape i"
    "whole \<Longrightarrow> at = timesV idx cell"
    "fits at n (a_shape a)"
proof -
  have len: "length idx = length cell" "length start = length cell" "length shape = length cell" "length (a_shape a) = length cell"
    using cr b f by (auto simp: cell_range_def between_nth fits_nth)
  note nth = overlap_nth [OF o len]
  have k: "idx ! k * cell ! k < start ! k + shape ! k \<and> start ! k < idx ! k * cell ! k + cell ! k \<and>
      start ! k + shape ! k \<le> a_shape a ! k \<and> 0 < shape ! k \<and> 0 < cell ! k" if "k < length cell" for k
    using cell_hi_inside [OF cr pos f c b that] f pos c len that by (auto simp: fits_nth)
  have at: "at ! k = max (start ! k) (idx ! k * cell ! k) \<and>
      at ! k + n ! k = min (start ! k + shape ! k) (idx ! k * cell ! k + cell ! k) \<and> 0 < n ! k" if "k < length cell" for k
  proof -
    have a: "at ! k = max (start ! k) (idx ! k * cell ! k)"
      "n ! k = min (start ! k + shape ! k) (min (idx ! k * cell ! k + cell ! k) (a_shape a ! k)) - at ! k"
      using nth that by simp_all
    obtain A B C D where e: "start ! k = A" "idx ! k * cell ! k = B" "shape ! k = C" "cell ! k = D" by blast
    show ?thesis using a k [OF that] unfolding e by linarith
  qed
  then have at: "at ! k = max (start ! k) (idx ! k * cell ! k)"
    "at ! k + n ! k = min (start ! k + shape ! k) (idx ! k * cell ! k + cell ! k)" "0 < n ! k" if "k < length cell" for k
    using that by blast+
  show l: "length at = length cell" "length n = length cell" using nth by auto
  show "fits (minusV at start) n shape"
    unfolding fits_nth using l len at(1,2) k by fastforce
  show "fits (minusV at (timesV idx cell)) n cell"
    unfolding fits_nth using l len at(1,2) k by fastforce
  show "fits at n (a_shape a)"
    unfolding fits_nth using l len at(1,2) k by fastforce
  show "positive n" using at(3) l by (auto simp: positive_nth)
  show "\<forall>k < length cell. start ! k \<le> at ! k \<and> idx ! k * cell ! k \<le> at ! k" using at(1) by simp
  show "in_block at n i \<longleftrightarrow> in_block start shape i \<and> in_block (timesV idx cell) cell i"
    unfolding in_block_nth using l len at(1,2) by auto
  show "at = timesV idx cell" if whole
    using nth that l len by (intro nth_equalityI) auto
  show "in_block start shape i" if whole "inside i (a_shape a)" "in_block (timesV idx cell) cell i"
  proof (rule in_block_nthI)
    have li: "length i = length cell" using that(3) by (simp add: in_block_nth)
    then show "length start = length i" "length shape = length i" using len by auto
    fix j assume j: "j < length i"
    then have "idx ! j * cell ! j \<le> i ! j" "i ! j < idx ! j * cell ! j + cell ! j" "i ! j < a_shape a ! j"
      using that(2,3) len li by (auto simp: in_block_nth list_all2_conv_all_nth)
    moreover have "at ! j = idx ! j * cell ! j"
      "n ! j = min (idx ! j * cell ! j + cell ! j) (a_shape a ! j) - idx ! j * cell ! j"
      using nth that(1) j li by auto
    ultimately show "start ! j \<le> i ! j \<and> i ! j < start ! j + shape ! j"
      using at(1,2) [of j] j li by (auto split: split_min split_max)
  qed
qed

section \<open>What is past the end\<close>

text \<open>The elements \<open>filled\<close> makes.\<close>

definition fill_elem :: "elem \<Rightarrow> elem" where
  "fill_elem fill = (if go_eq fill (zero_of (type_of fill)) \<and> go_eq fill fill then zero_of (type_of fill) else fill)"

lemma filled_replicate: "filled n fill = replicate n (fill_elem fill)"
  by (simp add: filled_def fill_elem_def Let_def)

lemma fill_elem_veq: "veq (fill_elem fill) fill"
  using filled_nth [of 0 1 fill] by (simp add: filled_replicate)

lemma fill_elem_type [simp]: "type_of (fill_elem fill) = type_of fill"
  by (simp add: fill_elem_def)

lemma fillPast_step_spec:
  assumes len: "length origin = length shape" "length (a_shape a) = length shape" and k: "k < length shape"
    and l: "length data = product_of shape"
  shows "\<exists>r. fillPast_step a origin shape k data = Inr r \<and> length r = length data \<and>
    (\<forall>o'. inside o' shape \<longrightarrow> r ! lin shape o' =
       (if a_shape a ! k \<le> origin ! k + o' ! k then fill_elem (a_fill a) else data ! lin shape o'))"
proof -
  let ?in = "a_shape a ! k - origin ! k"
  show ?thesis
  proof (cases "shape ! k \<le> ?in")
    case True
    have "\<not> a_shape a ! k \<le> origin ! k + o' ! k" if "inside o' shape" for o'
    proof -
      have "o' ! k < shape ! k" using that k by (simp add: list_all2_conv_all_nth)
      with True show ?thesis by linarith
    qed
    with True show ?thesis by (simp add: fillPast_step_def)
  next
    case False
    let ?at = "(zeros (length shape))[k := ?in]" and ?n = "shape[k := shape ! k - ?in]"
    have f: "fits ?at ?n shape"
      unfolding fits_nth using False k by (auto simp: nth_list_update)
    obtain r where r: "copyBlock data shape ?at (filled (product_of ?n) (a_fill a)) ?n (zeros (length ?n)) ?n = Inr r"
      "length r = product_of shape"
      "\<And>o'. inside o' shape \<Longrightarrow> r ! lin shape o' =
         (if in_block ?at ?n o' then filled (product_of ?n) (a_fill a) ! lin ?n (minusV o' ?at) else data ! lin shape o')"
      using copyBlock_in [OF f _ l, of "filled (product_of ?n) (a_fill a)"] by auto
    have "r ! lin shape o' = (if a_shape a ! k \<le> origin ! k + o' ! k then fill_elem (a_fill a) else data ! lin shape o')"
      if "inside o' shape" for o'
    proof -
      have lo: "length o' = length shape" "\<And>j. j < length shape \<Longrightarrow> o' ! j < shape ! j"
        using that by (auto simp: list_all2_conv_all_nth)
      have "in_block ?at ?n o' \<longleftrightarrow> ?in \<le> o' ! k"
        unfolding in_block_nth using lo k lo(2) [OF k] False by (auto simp: nth_list_update)
      moreover have "?in \<le> o' ! k \<longleftrightarrow> a_shape a ! k \<le> origin ! k + o' ! k" by linarith
      moreover have "lin ?n (minusV o' ?at) < product_of ?n" if "in_block ?at ?n o'"
      proof (rule lin_bound)
        show "inside (minusV o' ?at) ?n"
          using that by (auto simp: list_all2_conv_all_nth in_block_nth)
      qed
      ultimately show ?thesis using r(3) [OF that] by (auto simp: filled_replicate)
    qed
    with r(1,2) False l show ?thesis by (simp add: fillPast_step_def Let_def)
  qed
qed

text \<open>The elements of a block at \<open>origin\<close> that are past the end of the array are filled, and no
  other changes.\<close>

lemma fillPast_spec:
  assumes len: "length origin = length shape" "length (a_shape a) = length shape" and l: "length data = product_of shape"
  shows "\<exists>r. fillPast a origin shape data = Inr r \<and> length r = product_of shape \<and>
    (\<forall>o'. inside o' shape \<longrightarrow> r ! lin shape o' =
       (if inside (plusV origin o') (a_shape a) then data ! lin shape o' else fill_elem (a_fill a)))"
proof -
  have "j \<le> length shape \<Longrightarrow> \<exists>r. rfold (fillPast_step a origin shape) [0 ..< j] data = Inr r \<and> length r = product_of shape \<and>
    (\<forall>o'. inside o' shape \<longrightarrow> r ! lin shape o' =
       (if \<exists>k < j. a_shape a ! k \<le> origin ! k + o' ! k then fill_elem (a_fill a) else data ! lin shape o'))" for j
  proof (induction j)
    case (Suc j)
    then obtain r where r: "rfold (fillPast_step a origin shape) [0 ..< j] data = Inr r" "length r = product_of shape"
      "\<And>o'. inside o' shape \<Longrightarrow> r ! lin shape o' =
         (if \<exists>k < j. a_shape a ! k \<le> origin ! k + o' ! k then fill_elem (a_fill a) else data ! lin shape o')" by auto
    from fillPast_step_spec [OF len, of j r] Suc.prems r(2) obtain r' where
      r': "fillPast_step a origin shape j r = Inr r'" "length r' = product_of shape"
      "\<And>o'. inside o' shape \<Longrightarrow> r' ! lin shape o' =
         (if a_shape a ! j \<le> origin ! j + o' ! j then fill_elem (a_fill a) else r ! lin shape o')" by auto
    have "rfold (fillPast_step a origin shape) [0 ..< Suc j] data = Inr r'"
      using r(1) r'(1) by (simp add: rfold_append)
    with r' r(3) show ?case by (auto simp: less_Suc_eq)
  qed (use l in simp)
  from this [of "length shape"] obtain r where r: "fillPast a origin shape data = Inr r" "length r = product_of shape"
    "\<And>o'. inside o' shape \<Longrightarrow> r ! lin shape o' =
       (if \<exists>k < length shape. a_shape a ! k \<le> origin ! k + o' ! k then fill_elem (a_fill a) else data ! lin shape o')"
    by (auto simp: fillPast_def)
  have "inside (plusV origin o') (a_shape a) \<longleftrightarrow> \<not> (\<exists>k < length shape. a_shape a ! k \<le> origin ! k + o' ! k)"
    if "inside o' shape" for o'
    using that len by (auto simp: list_all2_conv_all_nth not_le)
  with r show ?thesis by auto
qed

lemma fillPast_types:
  assumes "fillPast a origin shape data = Inr r" "type_of (a_fill a) = d" "\<forall>v \<in> set data. type_of v = d"
  shows "\<forall>v \<in> set r. type_of v = d"
proof (rule rfold_invariant [OF assms(1) [unfolded fillPast_def], where P = "\<lambda>r. \<forall>v \<in> set r. type_of v = d"])
  fix k x y assume "\<forall>v \<in> set x. type_of v = d" "fillPast_step a origin shape k x = Inr y"
  then show "\<forall>v \<in> set y. type_of v = d"
    using assms(2) by (auto simp: fillPast_step_def Let_def split: if_splits dest!: copyBlock_subset filled_type)
qed (rule assms(3))

end
