(* ===== verification/Objects.thy ===== *)
theory Objects
  imports ShardParts Regions
begin

text \<open>
  What an array is in terms of its store: the elements a stored object stands for, the element at
  an index, and that opening a stored object and reading one of its chunks - whole or by ranges of
  the object - gives those elements (\<open>getStored\<close>, \<open>openStored\<close> and \<open>chunkView\<close> of
  \<open>src/array.go\<close>).
\<close>

section \<open>Arrays that are put together right\<close>

text \<open>How the fields \<open>makeArray\<close> derives from the codecs agree with them.\<close>

definition shard_fields :: "env \<Rightarrow> codec list \<Rightarrow> 's arr \<Rightarrow> bool" where
  "shard_fields env cs a \<longleftrightarrow>
     (case cs of
        ShardingCodec ccs inner index loc # _ \<Rightarrow>
          (case prepare ccs loc (map (codec_iface env) (fst (codecLists inner index)))
                  (map (codec_iface env) (snd (codecLists inner index))) of
             Inl _ \<Rightarrow> False
           | Inr (s, ip, xp) \<Rightarrow>
               a_shard a = Some s \<and> a_chunks a = chunkShape s \<and>
               perShard (chunkShape s) (a_grid a) = Inr (a_perShard a) \<and>
               indexSize s (a_perShard a) = Inr (a_indexSize a))
      | _ \<Rightarrow> a_shard a = None \<and> a_chunks a = a_grid a \<and> a_perShard a = replicate (length (a_grid a)) 1)"

text \<open>
  The sum of an index within an array and a side of a stored object is no more than an \<open>int\<close> holds, so
  that \<open>overlap\<close> and \<open>numStored\<close>, which take it, do not wrap around. An array that is longer than that
  - one whose last stored object ends past the greatest integer there is - is outside what is shown here.
\<close>

definition fits_ints :: "vec \<Rightarrow> int list \<Rightarrow> bool" where
  "fits_ints grid shape \<longleftrightarrow> (\<forall>k < length shape. shape ! k + int (grid ! k) \<le> maxInt64)"

definition arr_ok :: "env \<Rightarrow> codec list \<Rightarrow> 's arr \<Rightarrow> bool" where
  "arr_ok env cs a \<longleftrightarrow>
     (\<forall>v \<in> set (mShape (a_meta a)). 0 \<le> v) \<and> elements (mShape (a_meta a)) \<noteq> None \<and>
     length (a_grid a) = length (mShape (a_meta a)) \<and> fits_ints (a_grid a) (mShape (a_meta a)) \<and>
     positive (a_grid a) \<and> type_of (a_fill a) = a_type a \<and> enc_ok (a_keys a) \<and> checkPath (a_path a) = Inr () \<and>
     codecs_ok env cs (a_codecs a) (storedSpec a) \<and> a_indexSize a \<le> index_limit \<and> shard_fields env cs a"

text \<open>The elements of a stored object, of which there may be none.\<close>

definition content :: "'s arr \<Rightarrow> bytes option \<Rightarrow> elem list res" where
  "content a bo =
     (case bo of
        None \<Rightarrow> Inr (filled (product_of (a_grid a)) (a_fill a))
      | Some b \<Rightarrow> rbind (pipe_decode (a_codecs a) b (storedSpec a)) (\<lambda>v.
          asChunk (a_type a) v (product_of (a_grid a))))"

definition cell_key :: "'s arr \<Rightarrow> vec \<Rightarrow> string" where
  "cell_key a idx = storedKey a (divV idx (a_grid a))"

definition value_at :: "'s arr \<Rightarrow> (string \<Rightarrow> bytes option) \<Rightarrow> vec \<Rightarrow> elem" where
  "value_at a m idx =
     (case content a (m (cell_key a idx)) of
        Inr v \<Rightarrow> v ! lin (a_grid a) (modV idx (a_grid a))
      | Inl _ \<Rightarrow> a_fill a)"

text \<open>A stored object of a length Go can have, that decodes.\<close>

definition sound_object :: "'s arr \<Rightarrow> bytes option \<Rightarrow> bool" where
  "sound_object a bo \<longleftrightarrow> (\<exists>v. content a bo = Inr v) \<and> (\<forall>b. bo = Some b \<longrightarrow> length b < 2 ^ 63)"

definition readable :: "'s arr \<Rightarrow> (string \<Rightarrow> bytes option) \<Rightarrow> bool" where
  "readable a m \<longleftrightarrow> (\<forall>idx. inside idx (a_shape a) \<longrightarrow> sound_object a (m (cell_key a idx)))"

section \<open>The grid and its chunks\<close>

lemma local_index_eq: "length per = length loc \<Longrightarrow> local_index per loc = lin per loc"
proof -
  have "length per = length loc \<Longrightarrow> fold (\<lambda>(p, l) k. k * p + l) (zip per loc) n = n * product_of per + lin per loc" for n
    by (induction per loc arbitrary: n rule: list_induct2) (auto simp: algebra_simps)
  then show "length per = length loc \<Longrightarrow> local_index per loc = lin per loc" by (simp add: local_index_def)
qed

lemma arr_grid:
  assumes "arr_ok env cs a"
  shows "length (a_grid a) = length (mShape (a_meta a))" "length (a_chunks a) = length (mShape (a_meta a))"
    "length (a_perShard a) = length (mShape (a_meta a))"
    "positive (a_grid a)" "positive (a_chunks a)" "positive (a_perShard a)"
    "a_grid a = timesV (a_perShard a) (a_chunks a)"
    "type_of (a_fill a) = a_type a" "known (a_type a)"
proof -
  have l: "length (a_grid a) = length (mShape (a_meta a))" "positive (a_grid a)" "type_of (a_fill a) = a_type a"
    using assms by (auto simp: arr_ok_def)
  have "length (a_chunks a) = length (a_grid a) \<and> length (a_perShard a) = length (a_grid a) \<and>
      positive (a_chunks a) \<and> positive (a_perShard a) \<and> a_grid a = timesV (a_perShard a) (a_chunks a)"
  proof (cases "a_shard a")
    case None
    then have "a_chunks a = a_grid a" "a_perShard a = replicate (length (a_grid a)) 1"
      using assms by (auto simp: arr_ok_def shard_fields_def split: list.splits codec.splits sum.splits)
    then show ?thesis using l(2) by (auto intro!: nth_equalityI)
  next
    case (Some s)
    then have s: "a_chunks a = chunkShape s" "perShard (chunkShape s) (a_grid a) = Inr (a_perShard a)"
      using assms by (auto simp: arr_ok_def shard_fields_def split: list.splits codec.splits sum.splits)
    have "timesV (divV (a_grid a) (chunkShape s)) (chunkShape s) = a_grid a"
      using s(2) by (intro nth_equalityI) (auto simp: perShard_Inr list_all2_conv_all_nth)
    then show ?thesis using perShard_positive [OF s(2) l(2)] s by (auto simp: perShard_Inr)
  qed
  then show "length (a_grid a) = length (mShape (a_meta a))" "length (a_chunks a) = length (mShape (a_meta a))"
    "length (a_perShard a) = length (mShape (a_meta a))"
    "positive (a_grid a)" "positive (a_chunks a)" "positive (a_perShard a)"
    "a_grid a = timesV (a_perShard a) (a_chunks a)" "type_of (a_fill a) = a_type a"
    using l by auto
  show "known (a_type a)" using l(3) type_of_known [of "a_fill a"] by simp
qed

text \<open>The element \<open>o'\<close> of the chunk \<open>idx\<close>: which shard it is in, and where.\<close>

lemma chunk_element:
  assumes ok: "arr_ok env cs a" and idx: "length idx = length (mShape (a_meta a))" and off: "inside o' (a_chunks a)"
  defines "e \<equiv> plusV (timesV idx (a_chunks a)) o'"
  shows "divV e (a_grid a) = shardOf a idx" "divV e (a_chunks a) = idx"
    "modV e (a_grid a) = plusV (timesV (modV idx (a_perShard a)) (a_chunks a)) o'"
    "divV (modV e (a_grid a)) (a_chunks a) = modV idx (a_perShard a)"
    "modV (modV e (a_grid a)) (a_chunks a) = o'"
    "inside (modV e (a_grid a)) (a_grid a)" "length e = length (mShape (a_meta a))"
proof -
  note g = arr_grid [OF ok]
  have l: "length o' = length (mShape (a_meta a))" using off g(2) by (auto dest: list_all2_lengthD)
  show le: "length e = length (mShape (a_meta a))" using l idx g by (simp add: e_def)
  have k: "e ! k = idx ! k * a_chunks a ! k + o' ! k" "o' ! k < a_chunks a ! k" "0 < a_perShard a ! k"
    "a_grid a ! k = a_perShard a ! k * a_chunks a ! k" if "k < length (mShape (a_meta a))" for k
    using that l idx g(2,3) off g(6,7) by (auto simp: e_def list_all2_conv_all_nth)
  have d: "e ! k div a_chunks a ! k = idx ! k" "e ! k mod a_chunks a ! k = o' ! k" if "k < length (mShape (a_meta a))" for k
    using k [OF that] by auto
  have m: "e ! k mod a_grid a ! k = idx ! k mod a_perShard a ! k * a_chunks a ! k + o' ! k"
    if "k < length (mShape (a_meta a))" for k
  proof -
    have "e ! k mod (a_chunks a ! k * a_perShard a ! k) =
        a_chunks a ! k * (e ! k div a_chunks a ! k mod a_perShard a ! k) + e ! k mod a_chunks a ! k"
      by (rule mod_mult2_eq)
    then show ?thesis using k(4) [OF that] d [OF that] by (simp add: mult.commute)
  qed
  show "divV e (a_chunks a) = idx" using le idx g d by (intro nth_equalityI) auto
  show "divV e (a_grid a) = shardOf a idx"
    unfolding shardOf_def
  proof (rule nth_equalityI)
    fix j assume "j < length (divV e (a_grid a))"
    then have j: "j < length (mShape (a_meta a))" using le by simp
    have "e ! j div (a_chunks a ! j * a_perShard a ! j) = e ! j div a_chunks a ! j div a_perShard a ! j"
      by (rule div_mult2_eq)
    then show "divV e (a_grid a) ! j = divV idx (a_perShard a) ! j"
      using j le idx g(1,3) k(4) [OF j] d [OF j] by (simp add: mult.commute)
  qed (use le idx g in simp)
  show me: "modV e (a_grid a) = plusV (timesV (modV idx (a_perShard a)) (a_chunks a)) o'"
    using le idx g(1-3) m l by (intro nth_equalityI) auto
  have q: "(x * a_chunks a ! k + o' ! k) div a_chunks a ! k = x" if "k < length (mShape (a_meta a))" for x k
    using k(2) [OF that] by (intro div_nat_eqI) (auto simp: algebra_simps)
  show "divV (modV e (a_grid a)) (a_chunks a) = modV idx (a_perShard a)"
    using le idx g(1-3) m l q by (intro nth_equalityI) auto
  show "modV (modV e (a_grid a)) (a_chunks a) = o'"
    using le idx g(1-3) m l k(2) by (intro nth_equalityI) auto
  show "inside (modV e (a_grid a)) (a_grid a)" using le g by (intro modV_inside) auto
qed

section \<open>Ranges of a shard\<close>

text \<open>An index that is sound within a shard is sound within anything longer.\<close>

lemma checkIndex_longer:
  "checkIndex index lo hi = Inr u \<Longrightarrow> hi \<le> hi' \<Longrightarrow> checkIndex index lo hi' = Inr u"
  unfolding checkIndex_iff sound_index_def within_def by (meson le_trans word_le_nat_alt)

lemma of_nat_le_max: "n < 2 ^ 63 \<Longrightarrow> of_nat n \<le> maxInt64w"
proof -
  assume n: "n < 2 ^ 63"
  have "unat maxInt64w = 2 ^ 63 - 1" by (simp add: maxInt64w_def maxInt64_def)
  with n show ?thesis by (simp add: word_le_nat_alt unat_of_nat_fits)
qed

text \<open>The index read as a range of the stored object.\<close>

lemma range_index:
  assumes ix: "readIndex s per b = Inr index" and sz: "indexSize s per = Inr n" and lb: "length b < 2 ^ 63"
  defines "off \<equiv> if atStart s then 0 else - int n"
  shows "range_in b off (int n)" "decodeIndex s per (sub_bytes b off (int n)) = Inr index"
    "checkIndex index (if atStart s then of_nat n else 0) maxInt64w = Inr ()"
proof -
  from ix sz obtain ib where ib: "indexOf s b n = Inr ib" "decodeIndex s per ib = Inr index"
    and c: "checkIndex index (if atStart s then of_nat n else 0)
        (if atStart s then of_nat (length b) else of_nat (length b - n)) = Inr ()"
    by (auto simp: readIndex_def rbind_Inr_iff Let_def split: if_splits)
  then have n: "n \<le> length b" "ib = (if atStart s then take n b else drop (length b - n) b)"
    by (auto simp: indexOf_def split: if_splits)
  show "range_in b off (int n)" using n(1) by (auto simp: range_in_def range_at_def off_def)
  have "sub_bytes b off (int n) = ib"
    using n by (auto simp: sub_bytes_def range_at_def off_def nat_diff_distrib' simp flip: of_nat_diff)
  with ib(2) show "decodeIndex s per (sub_bytes b off (int n)) = Inr index" by simp
  have "length b - n < 2 ^ 63" using lb by simp
  with checkIndex_longer [OF c] of_nat_le_max lb
  show "checkIndex index (if atStart s then of_nat n else 0) maxInt64w = Inr ()" by (auto split: if_splits)
qed

lemma sint_small: "unat (w :: 64 word) < 2 ^ 63 \<Longrightarrow> sint w = int (unat w)"
proof -
  assume "unat w < 2 ^ 63"
  then have "int (unat w) < int (2 ^ 63)" by (simp only: of_nat_less_iff)
  then have "uint w < 2 ^ 63" by simp
  moreover have "- (2 ^ 63) \<le> uint w" using order_trans [of "- (2 ^ 63)" 0 "uint w"] by simp
  ultimately have "signed_take_bit 63 (uint w) = uint w" by (rule signed_take_bit_int_eq_self [rotated])
  then show "sint w = int (unat w)" by (simp add: sint_uint)
qed

lemma sint_in_int64: "in_int64 (sint (w :: 64 word))"
  using sint_less [of w] sint_greater_eq [of w] by (simp add: in_int64_def minInt64_def maxInt64_def)

text \<open>A chunk read as a range of the stored object.\<close>

lemma range_entry:
  assumes e: "entry index k b = Inr c" and k: "k < length index div 2" and lb: "length b < 2 ^ 63"
  shows "case c of
      None \<Rightarrow> entrySpan index k maxInt64w = Inr None
    | Some bk \<Rightarrow> \<exists>off l. entrySpan index k maxInt64w = Inr (Some (off, l)) \<and> in_int64 (sint off) \<and> in_int64 (sint l) \<and>
        range_in b (sint off) (sint l) \<and> bk = sub_bytes b (sint off) (sint l)"
proof -
  from e obtain sp where sp: "entrySpan index k (of_nat (length b)) = Inr sp" by (auto simp: entry_def rbind_Inr_iff)
  have w: "unat (of_nat (length b) :: 64 word) = length b" using lb by (intro unat_of_nat_fits) simp
  have h: "sp = held index k" "\<And>p. held index k = Some p \<Longrightarrow> unat (fst p) + unat (snd p) \<le> length b"
    using sp k w by (auto simp: entrySpan_Inr_iff)
  have "unat maxInt64w = 2 ^ 63 - 1" by (simp add: maxInt64w_def maxInt64_def)
  then have sp': "entrySpan index k maxInt64w = Inr sp" using h lb k by (fastforce simp: entrySpan_Inr_iff)
  show ?thesis
  proof (cases sp)
    case None
    with e sp sp' show ?thesis by (auto simp: entry_def)
  next
    case (Some p)
    obtain off l where p: "p = (off, l)" by (cases p)
    have b: "unat off + unat l \<le> length b" using h Some p by auto
    have sum: "unat (off + l) = unat off + unat l" using b lb by (intro unat_plus_fits) simp
    have c: "c = Some (take (unat l) (drop (unat off) b))"
      using e sp Some p sum by (auto simp: entry_def split: if_splits)
    have s: "sint off = int (unat off)" "sint l = int (unat l)" using b lb by (intro sint_small; simp)+
    obtain A B where AB: "unat off = A" "unat l = B" by blast
    have "range_in b (sint off) (sint l)" using b unfolding s AB by (simp add: range_in_def range_at_def)
    moreover have "take (unat l) (drop (unat off) b) = sub_bytes b (sint off) (sint l)"
      unfolding s AB by (simp add: sub_bytes_def range_at_def)
    ultimately show ?thesis using sp' Some p c by (auto simp: sint_in_int64)
  qed
qed

section \<open>Sharded arrays\<close>

lemma arr_shard_fields:
  assumes ok: "arr_ok env cs a" and sh: "a_shard a = Some s"
  shows "a_chunks a = chunkShape s" "perShard (chunkShape s) (a_grid a) = Inr (a_perShard a)"
    "indexSize s (a_perShard a) = Inr (a_indexSize a)" "a_indexSize a \<le> index_limit" "type_of (a_fill a) = a_type a"
    "positive (a_grid a)"
  using assms by (auto simp: arr_ok_def shard_fields_def split: list.splits codec.splits sum.splits)

lemma arr_sharding:
  assumes ok: "arr_ok env cs a" and sh: "a_shard a = Some s"
  shows "\<exists>iok iok'. sharding s iok iok' \<and> iok (indexSpec (a_perShard a)) \<and> iok' (innerSpec s (storedSpec a)) \<and>
    (\<exists>z. storedBytes (ints (a_grid a)) (a_type a) = Inr z) \<and>
    (\<exists>z. storedBytes (ints (a_perShard a @ [2])) Uint64 = Inr z) \<and>
    (pbytes (a_codecs a) = [] \<longrightarrow> (\<forall>b. pipe_decode (a_codecs a) b (storedSpec a) = shard_DecodeArray s b (storedSpec a)))"
proof -
  have gs: "spShape (storedSpec a) = a_grid a" "spType (storedSpec a) = a_type a" by (simp_all add: storedSpec_def)
  from assms obtain ccs inner index loc rest ip xp where cs: "cs = ShardingCodec ccs inner index loc # rest"
    and prep: "prepare ccs loc (map (codec_iface env) (fst (codecLists inner index)))
                  (map (codec_iface env) (snd (codecLists inner index))) = Inr (s, ip, xp)"
    by (auto simp: arr_ok_def shard_fields_def split: list.splits codec.splits sum.splits)
  let ?ics = "fst (codecLists inner index)" and ?xcs = "snd (codecLists inner index)"
  note f = arr_shard_fields [OF ok sh]
  have cok: "codec_pipeline env cs = Inr (a_codecs a)" "codec_ok env (ShardingCodec ccs inner index loc) (storedSpec a)"
    using ok cs by (auto simp: arr_ok_def codecs_ok_def pipe_ok_def)
  have s: "s = shard_of ccs loc ip xp" "pipelineOf (map (codec_iface env) ?ics) = Inr ip"
    "pipelineOf (map (codec_iface env) ?xcs) = Inr xp"
    using prep by (auto simp: prepare_def rbind_Inr_iff Let_def)
  have so: "sharding_ok ccs loc (map (codec_iface env) ?ics) (map (codec_iface env) ?xcs)
      (map (codec_ok env) ?ics) (map (codec_ok env) ?xcs) (storedSpec a)" "\<forall>c \<in> set ?xcs. fixed_codec c"
    using cok(2) unfolding codec_ok_sharding by auto
  have l: "pipe_ok (map (codec_ok env) ?ics) ip (innerSpec s (storedSpec a))"
    "pipe_ok (map (codec_ok env) ?xcs) xp (indexSpec (a_perShard a))"
    "\<exists>z. storedBytes (ints (a_grid a)) (a_type a) = Inr z" "\<exists>z. storedBytes (ints (a_perShard a @ [2])) Uint64 = Inr z"
    using so(1) f(2) by (auto simp: sharding_ok_def prep gs)
  have "sharding s (index_codecs_ok env ?xcs xp) (codecs_ok env ?ics ip)"
    unfolding s(1) by (rule shards.sharding_axioms)
  moreover have "index_codecs_ok env ?xcs xp (indexSpec (a_perShard a))"
    using l so(2) s by (simp add: index_codecs_ok_def codecs_ok_def codec_pipeline_def)
  moreover have "codecs_ok env ?ics ip (innerSpec s (storedSpec a))"
    using l s by (simp add: codecs_ok_def codec_pipeline_def)
  moreover have "pipe_decode (a_codecs a) b (storedSpec a) = shard_DecodeArray s b (storedSpec a)"
    if "pbytes (a_codecs a) = []" for b
  proof -
    have "parray (a_codecs a) = sharding_iface ccs loc (map (codec_iface env) ?ics) (map (codec_iface env) ?xcs)"
      using pipelineOf_Inr [OF cok(1) [unfolded codec_pipeline_def]]
      by (simp add: cs codec_iface_sharding del: codec_iface.simps)
    then show ?thesis using that by (simp add: pipe_decode_def sharding_iface_def prep)
  qed
  ultimately show ?thesis using l by blast
qed

lemma content_typed:
  assumes "arr_ok env cs a" "content a bo = Inr v"
  shows "length v = product_of (a_grid a)" "\<forall>x \<in> set v. type_of x = a_type a"
proof -
  note g = arr_grid [OF assms(1)]
  have "length v = product_of (a_grid a) \<and> (\<forall>x \<in> set v. type_of x = a_type a)"
  proof (cases bo)
    case None
    then show ?thesis using assms(2) g(8) filled_type by (fastforce simp: content_def)
  next
    case (Some b)
    with assms(2) obtain c where c: "pipe_decode (a_codecs a) b (storedSpec a) = Inr c" "v = elems c"
      "length v = product_of (a_grid a)"
      by (auto simp: content_def rbind_Inr_iff asChunk_Inr)
    have "chunk_of (storedSpec a) c" using assms(1) c(1) pipelines.decode_typed by (auto simp: arr_ok_def)
    with c show ?thesis by (auto simp: chunk_of_def wt_slice_def storedSpec_def)
  qed
  then show "length v = product_of (a_grid a)" "\<forall>x \<in> set v. type_of x = a_type a" by auto
qed

text \<open>The chunks of a stored object of a sharded array.\<close>

lemma content_parts:
  assumes ok: "arr_ok env cs a" and sh: "a_shard a = Some s" and pb: "pbytes (a_codecs a) = []"
    and c: "content a (Some b) = Inr v"
  shows "\<exists>index chunks. readIndex s (a_perShard a) b = Inr index \<and> length index = 2 * product_of (a_perShard a) \<and>
           (\<forall>k < product_of (a_perShard a). entry index k b = Inr (chunks ! k)) \<and>
           split_shard s (a_perShard a) b = Inr chunks \<and> parts s (storedSpec a) (a_perShard a) chunks v"
proof -
  obtain iok iok' where s: "sharding s iok iok'" "iok (indexSpec (a_perShard a))"
    "pipe_decode (a_codecs a) b (storedSpec a) = shard_DecodeArray s b (storedSpec a)"
    using arr_sharding [OF ok sh] pb by blast
  note f = arr_shard_fields [OF ok sh]
  from c s(3) obtain d where d: "shard_DecodeArray s b (storedSpec a) = Inr d" "v = elems d"
    by (auto simp: content_def rbind_Inr_iff asChunk_Inr)
  have "\<exists>index chunks. readIndex s (a_perShard a) b = Inr index \<and> length index = 2 * product_of (a_perShard a) \<and>
           (\<forall>k < product_of (a_perShard a). entry index k b = Inr (chunks ! k)) \<and>
           split_shard s (a_perShard a) b = Inr chunks \<and> parts s (storedSpec a) (a_perShard a) chunks (elems d)"
    using f(2,5,6) by (intro sharding.shard_parts [OF s(1) _ _ _ s(2) d(1)]) (simp_all add: storedSpec_def)
  with d(2) show ?thesis by simp
qed

section \<open>Chunks and views of them\<close>

text \<open>The elements of the chunk \<open>idx\<close>, those past the end of the array included.\<close>

definition chunk_at :: "'s arr \<Rightarrow> (string \<Rightarrow> bytes option) \<Rightarrow> vec \<Rightarrow> elem list" where
  "chunk_at a m idx =
     map (\<lambda>x. value_at a m (plusV (timesV idx (a_chunks a)) (unlin (a_chunks a) x))) [0 ..< product_of (a_chunks a)]"

lemma chunk_at_length [simp]: "length (chunk_at a m idx) = product_of (a_chunks a)"
  by (simp add: chunk_at_def)

lemma chunk_at_nth:
  "inside o' (a_chunks a) \<Longrightarrow> chunk_at a m idx ! lin (a_chunks a) o' = value_at a m (plusV (timesV idx (a_chunks a)) o')"
  by (simp add: chunk_at_def lin_bound unlin_lin)

lemma nth_by_index:
  assumes "length x = product_of shape" "length y = product_of shape"
    and "\<And>o'. inside o' shape \<Longrightarrow> x ! lin shape o' = y ! lin shape o'"
  shows "x = y"
proof (rule nth_equalityI)
  fix i assume "i < length x"
  then have "i < product_of shape" using assms(1) by simp
  with assms(3) [OF unlin_inside] lin_unlin show "x ! i = y ! i" by metis
qed (use assms in simp)

text \<open>An element of a chunk is where it should be in its stored object.\<close>

lemma chunk_at_content:
  assumes ok: "arr_ok env cs a" and idx: "length idx = length (mShape (a_meta a))" and off: "inside o' (a_chunks a)"
    and c: "content a (m (storedKey a (shardOf a idx))) = Inr v"
  shows "chunk_at a m idx ! lin (a_chunks a) o' =
    v ! lin (a_grid a) (plusV (timesV (modV idx (a_perShard a)) (a_chunks a)) o')"
  using chunk_element [OF ok idx off] c by (simp add: chunk_at_nth [OF off] value_at_def cell_key_def)

text \<open>A view shows a chunk.\<close>

definition shows_chunk :: "'s arr \<Rightarrow> elem list \<Rightarrow> view \<Rightarrow> bool" where
  "shows_chunk a c v \<longleftrightarrow>
     (case v of
        (None, _, _) \<Rightarrow> c = filled (product_of (a_chunks a)) (a_fill a)
      | (Some src, shape, at) \<Rightarrow>
          fits at (a_chunks a) shape \<and> length src = product_of shape \<and>
          (\<forall>o'. inside o' (a_chunks a) \<longrightarrow> src ! lin shape (plusV at o') = c ! lin (a_chunks a) o'))"

lemma equal_shape:
  "length s = length n \<Longrightarrow> positive n \<Longrightarrow> (\<forall>k < length n. n ! k \<le> s ! k) \<Longrightarrow> product_of s = product_of n \<Longrightarrow> s = n"
proof (induction s n rule: list_induct2)
  case (Cons x xs y ys)
  have h: "y \<le> x" "\<forall>k < length ys. ys ! k \<le> xs ! k" "0 < product_of ys" "0 < y"
    using Cons.prems by (auto simp: All_less_Suc2 product_of_pos)
  have "prod_list ys \<le> prod_list xs"
    using Cons.hyps h(2) by (induction xs ys rule: list_induct2) (auto simp: All_less_Suc2 mult_le_mono)
  then have p: "product_of ys \<le> product_of xs" by (simp add: product_of_eq)
  have "x * product_of xs = y * product_of ys" using Cons.prems by simp
  moreover have "y * product_of ys \<le> x * product_of ys" "x * product_of ys \<le> x * product_of xs"
    using h(1) p by (auto intro: mult_le_mono)
  ultimately have "x * product_of ys = y * product_of ys" "x * product_of xs = x * product_of ys" by linarith+
  then have "x = y" "product_of xs = product_of ys" using h by auto
  with Cons.IH Cons.prems h show ?case by auto
qed simp

lemma viewChunk_shows:
  assumes v: "shows_chunk a c v" and c: "length c = product_of (a_chunks a)" and pos: "positive (a_chunks a)"
  shows "viewChunk a v = Inr c"
proof -
  obtain src shape at where vs: "v = (src, shape, at)" by (cases v)
  show ?thesis
  proof (cases src)
    case None
    with vs v show ?thesis by (simp add: shows_chunk_def viewChunk_def)
  next
    case (Some x)
    with v vs have f: "fits at (a_chunks a) shape" "length x = product_of shape"
      "\<And>o'. inside o' (a_chunks a) \<Longrightarrow> x ! lin shape (plusV at o') = c ! lin (a_chunks a) o'"
      by (auto simp: shows_chunk_def)
    show ?thesis
    proof (cases "length x = product_of (a_chunks a)")
      case True
      have e: "shape = a_chunks a"
        using f(1,2) True pos by (intro equal_shape) (auto simp: fits_nth add_leD2)
      have z: "at = zeros (length (a_chunks a))"
        using f(1) e by (intro nth_equalityI) (auto simp: fits_nth)
      have "x = c"
      proof (rule nth_by_index [OF True c])
        fix o' assume i: "inside o' (a_chunks a)"
        then have "plusV at o' = o'" using z by (intro nth_equalityI) (auto dest: list_all2_lengthD)
        with f(3) [OF i] e show "x ! lin (a_chunks a) o' = c ! lin (a_chunks a) o'" by simp
      qed
      with True vs Some show ?thesis by (simp add: viewChunk_def)
    next
      case False
      obtain r where r: "copyBlock (replicate (product_of (a_chunks a)) (zero_of (a_type a))) (a_chunks a)
           (zeros (length (a_chunks a))) x shape at (a_chunks a) = Inr r" "length r = product_of (a_chunks a)"
        "\<And>o'. inside o' (a_chunks a) \<Longrightarrow> r ! lin (a_chunks a) o' = x ! lin shape (plusV at o')"
        using copyBlock_out [OF f(1,2), of "replicate (product_of (a_chunks a)) (zero_of (a_type a))"] by auto
      have "r = c" using r(2,3) f(3) c by (intro nth_by_index [of _ "a_chunks a"]) auto
      with r(1) False vs Some show ?thesis by (simp add: viewChunk_def)
    qed
  qed
qed

lemma storedKey_valid: "arr_ok env cs a \<Longrightarrow> checkKey (storedKey a sidx) = Inr ()"
  unfolding storedKey_def by (rule checkPath_key) (auto simp: arr_ok_def enc_key_valid)

end
