(* ===== verification/Reads.thy ===== *)
theory Reads
  imports Objects
begin

text \<open>
  Reading an array (\<open>ReadChunk\<close> and \<open>Read\<close> of \<open>src/array.go\<close>): over any store that keeps the
  contract, from stored objects that decode, reading gives the elements of the array, whether a
  stored object is read whole or by ranges, in whatever order the chunks are read; it changes
  nothing in the store, and fails only if the store does.
\<close>

text \<open>What a reader of the stored object at \<open>sidx\<close> reads from.\<close>

definition reader_ok :: "'s arr \<Rightarrow> (string \<Rightarrow> bytes option) \<Rightarrow> vec \<Rightarrow> reader \<Rightarrow> bool" where
  "reader_ok a m sidx rd \<longleftrightarrow>
     (case rd of
        ReadUnsharded \<Rightarrow> a_shard a = None
      | ReadNothing \<Rightarrow> a_shard a \<noteq> None \<and> m (storedKey a sidx) = None
      | ReadWhole v \<Rightarrow> a_shard a \<noteq> None \<and> content a (m (storedKey a sidx)) = Inr v
      | ReadRange index \<Rightarrow> byRange a \<and> (\<exists>s b. a_shard a = Some s \<and> m (storedKey a sidx) = Some b \<and>
          readIndex s (a_perShard a) b = Inr index))"

context store_reads
begin

lemma wp_getStored:
  assumes st: "a_store a = ops" and k: "checkKey (storedKey a sidx) = Inr ()" and c: "content a (contents s (storedKey a sidx)) = Inr v"
    and Q: "\<And>t. contents t = contents s \<Longrightarrow> Q (map_option (\<lambda>_. v) (contents s (storedKey a sidx))) t"
    and R: "\<And>t. contents t = contents s \<Longrightarrow> R t"
  shows "wp live (getStored a (a_type a) sidx) s Q R"
  unfolding getStored_def st
proof (rule wp_get [OF k])
  fix t b assume t: "contents t = contents s" and b: "contents s (storedKey a sidx) = Some b"
  with c obtain x where x: "pipe_decode (a_codecs a) b (storedSpec a) = Inr x"
    "asChunk (a_type a) x (product_of (a_grid a)) = Inr v"
    by (auto simp: content_def rbind_Inr_iff)
  then show "wp live (case Inr b of Inl e \<Rightarrow> if e = ErrNotFound then io_ret None else io_err e
       | Inr b \<Rightarrow> io_lift (rbind (pipe_decode (a_codecs a) b (storedSpec a)) (\<lambda>v.
                    rbind (asChunk (a_type a) v (product_of (a_grid a))) (\<lambda>s. Inr (Some s))))) t Q R"
    using Q [OF t] b by (simp add: wp_lift)
qed (use Q R in \<open>auto intro: wp_ret\<close>)

lemma wp_readStored:
  assumes st: "a_store a = ops" and k: "checkKey (storedKey a sidx) = Inr ()" and c: "content a (contents s (storedKey a sidx)) = Inr v"
    and Q: "\<And>t. contents t = contents s \<Longrightarrow> Q v t" and R: "\<And>t. contents t = contents s \<Longrightarrow> R t"
  shows "wp live (readStored a (a_type a) sidx) s Q R"
  unfolding readStored_def
proof (rule wp_bind, rule wp_getStored [OF st k c])
  fix t assume t: "contents t = contents s"
  show "wp live (case map_option (\<lambda>_. v) (contents s (storedKey a sidx)) of
      Some v \<Rightarrow> io_ret v | None \<Rightarrow> io_ret (filled (product_of (a_grid a)) (a_fill a))) t Q R"
    using c Q [OF t] by (cases "contents s (storedKey a sidx)") (auto simp: content_def intro: wp_ret)
qed (rule R)

lemma wp_openStored:
  assumes ok: "arr_ok env cs a" and st: "a_store a = ops" and so: "sound_object a (contents s (storedKey a sidx))"
    and Q: "\<And>rd t. contents t = contents s \<Longrightarrow> reader_ok a (contents s) sidx rd \<Longrightarrow> Q rd t"
    and R: "\<And>t. contents t = contents s \<Longrightarrow> R t"
  shows "wp live (openStored a (a_type a) sidx) s Q R"
proof -
  from so obtain v where v: "content a (contents s (storedKey a sidx)) = Inr v" by (auto simp: sound_object_def)
  show ?thesis
  proof (cases "a_shard a")
    case None
    then show ?thesis using Q by (auto simp: openStored_def reader_ok_def intro!: wp_ret)
  next
    case sh: (Some sd)
    show ?thesis
    proof (cases "byRange a")
      case False
      have "wp live (io_bind (getStored a (a_type a) sidx) (\<lambda>v.
          case v of None \<Rightarrow> io_ret ReadNothing | Some all \<Rightarrow> io_ret (ReadWhole all))) s Q R"
      proof (rule wp_bind, rule wp_getStored [OF st storedKey_valid [OF ok] v])
        fix t assume t: "contents t = contents s"
        show "wp live (case map_option (\<lambda>_. v) (contents s (storedKey a sidx)) of
            None \<Rightarrow> io_ret ReadNothing | Some all \<Rightarrow> io_ret (ReadWhole all)) t Q R"
          using Q [OF t] v sh by (cases "contents s (storedKey a sidx)") (auto simp: reader_ok_def intro: wp_ret)
      qed (rule R)
      with False sh show ?thesis by (simp add: openStored_def)
    next
      case True
      then obtain rg where rg: "st_range (a_store a) = Some rg" and pb: "pbytes (a_codecs a) = []"
        by (auto simp: byRange_def)
      note f = arr_shard_fields [OF ok sh]
      let ?off = "if atStart sd then 0 else - int (a_indexSize a)"
      have i64: "in_int64 ?off" "in_int64 (int (a_indexSize a))"
        using f(4) by (auto simp: in_int64_def minInt64_def maxInt64_def index_limit_def)
      have rb: "\<exists>index. readIndex sd (a_perShard a) b = Inr index \<and> range_in b ?off (int (a_indexSize a)) \<and>
          length b < 2 ^ 63 \<and> decodeIndex sd (a_perShard a) (sub_bytes b ?off (int (a_indexSize a))) = Inr index \<and>
          checkIndex index (if atStart sd then of_nat (a_indexSize a) else 0) maxInt64w = Inr ()"
        if b: "contents s (storedKey a sidx) = Some b" for b
      proof -
        have lb: "length b < 2 ^ 63" using so b by (simp add: sound_object_def)
        obtain index where ix: "readIndex sd (a_perShard a) b = Inr index"
          using content_parts [OF ok sh pb v [unfolded b]] by blast
        from range_index [OF ix f(3) lb] ix lb show ?thesis by blast
      qed
      show ?thesis
        unfolding openStored_def sh rg using True
        apply (simp only: option.case if_True not_True_eq_False if_False Let_def)
      proof (rule wp_range [OF rg [unfolded st] i64 storedKey_valid [OF ok]])
        fix v assume "contents s (storedKey a sidx) = Some v"
        from rb [OF this] show "int (length v) \<le> maxInt64 \<and> range_in v ?off (int (a_indexSize a))"
          by (auto simp: maxInt64_def)
      next
        have "range_in (replicate (a_indexSize a) 0) ?off (int (a_indexSize a))" by (simp add: range_in_def range_at_def)
        then show "\<exists>v. range_in v ?off (int (a_indexSize a)) \<and> length v \<le> index_limit" using f(4) by (metis length_replicate)
      next
        fix t b assume t: "contents t = contents s" and b: "contents s (storedKey a sidx) = Some b"
        from rb [OF b] obtain index where ix: "readIndex sd (a_perShard a) b = Inr index"
          "decodeIndex sd (a_perShard a) (sub_bytes b ?off (int (a_indexSize a))) = Inr index"
          "checkIndex index (if atStart sd then of_nat (a_indexSize a) else 0) maxInt64w = Inr ()" by blast
        then have "reader_ok a (contents s) sidx (ReadRange index)" using True sh b by (simp add: reader_ok_def)
        with Q [OF t] ix(2,3) show "wp live (case Inr (sub_bytes b ?off (int (a_indexSize a))) of
            Inl e \<Rightarrow> if e = ErrNotFound then io_ret ReadNothing else io_err e
          | Inr ib \<Rightarrow> io_bind (io_lift (decodeIndex sd (a_perShard a) ib)) (\<lambda>index.
              io_bind (io_lift (checkIndex index (if atStart sd then of_nat (a_indexSize a) else 0) maxInt64w)) (\<lambda>_.
                io_ret (ReadRange index)))) t Q R"
          by (simp add: wp_def)
      qed (use Q R sh in \<open>auto simp: reader_ok_def intro: wp_ret\<close>)
    qed
  qed
qed

text \<open>A chunk read through a reader is the chunk of the array.\<close>

lemma wp_readChunkOf:
  assumes ok: "arr_ok env cs a" and st: "a_store a = ops" and idx: "length idx = length (mShape (a_meta a))"
    and so: "sound_object a (contents s (storedKey a (shardOf a idx)))"
    and rd: "reader_ok a (contents s) (shardOf a idx) rd"
    and Q: "\<And>v t. contents t = contents s \<Longrightarrow> shows_chunk a (chunk_at a (contents s) idx) v \<Longrightarrow> Q v t"
    and R: "\<And>t. contents t = contents s \<Longrightarrow> R t"
  shows "wp live (readChunkOf a (a_type a) (shardOf a idx) rd (minusV idx (timesV (shardOf a idx) (a_perShard a)))) s Q R"
proof -
  let ?c = "chunk_at a (contents s) idx" and ?key = "storedKey a (shardOf a idx)"
  note g = arr_grid [OF ok]
  from so obtain v where v: "content a (contents s ?key) = Inr v" by (auto simp: sound_object_def)
  have loc: "minusV idx (timesV (shardOf a idx) (a_perShard a)) = modV idx (a_perShard a)"
    unfolding shardOf_def using idx g(1-6) by (intro tile_offset) auto
  have il: "inside (modV idx (a_perShard a)) (a_perShard a)" using idx g(1-6) by (intro modV_inside) auto
  note ch = chunk_at_content [where m = "contents s", OF ok idx _ v]
  have fillc: "?c = filled (product_of (a_chunks a)) (a_fill a)" if "contents s ?key = None"
  proof (rule nth_by_index [of _ "a_chunks a"])
    fix o' assume o': "inside o' (a_chunks a)"
    have "lin (a_grid a) (plusV (timesV (modV idx (a_perShard a)) (a_chunks a)) o') < product_of (a_grid a)"
      using chunk_element [OF ok idx o'] by (intro lin_bound) simp
    with ch [OF o'] that v lin_bound [OF o'] show "?c ! lin (a_chunks a) o' =
        filled (product_of (a_chunks a)) (a_fill a) ! lin (a_chunks a) o'"
      by (auto simp: content_def filled_replicate)
  qed simp_all
  show ?thesis
  proof (cases rd)
    case ReadUnsharded
    then have ns: "a_shard a = None" using rd by (simp add: reader_ok_def)
    then have e: "a_chunks a = a_grid a" "a_perShard a = replicate (length (a_grid a)) 1"
      using ok by (auto simp: arr_ok_def shard_fields_def split: list.splits codec.splits sum.splits)
    have z: "timesV (modV idx (a_perShard a)) (a_chunks a) = zeros (length idx)"
      using idx g(1-3) e by (intro nth_equalityI) auto
    show ?thesis
      unfolding readChunkOf_def Let_def ReadUnsharded reader.case
    proof (rule wp_bind, rule wp_getStored [OF st storedKey_valid [OF ok] v], rule wp_ret)
      fix t assume t: "contents t = contents s"
      have "shows_chunk a ?c (map_option (\<lambda>_. v) (contents s ?key), a_chunks a, zeros (length (shardOf a idx)))"
      proof (cases "contents s ?key")
        case None
        then show ?thesis using fillc by (simp add: shows_chunk_def)
      next
        case (Some b)
        have "length (shardOf a idx) = length (a_chunks a)" using idx g(1-6) by (simp add: shardOf_def)
        then show ?thesis
          using Some ch z e idx g(1-3) content_typed(1) [OF ok v] fits_zeros [of "a_chunks a"]
          by (auto simp: shows_chunk_def shardOf_def)
      qed
      then show "Q (map_option (\<lambda>_. v) (contents s ?key), a_chunks a, zeros (length (shardOf a idx))) t"
        by (rule Q [OF t])
    qed (rule R)
  next
    case ReadNothing
    then show ?thesis
      using rd fillc Q [of s] by (auto simp: readChunkOf_def Let_def reader_ok_def shows_chunk_def intro!: wp_ret)
  next
    case (ReadWhole w)
    then have "w = v" using rd v by (simp add: reader_ok_def)
    moreover have "fits (timesV (modV idx (a_perShard a)) (a_chunks a)) (a_chunks a) (a_grid a)"
      using g il by (intro tile_fits) (auto simp: list_all2_conv_all_nth)
    ultimately have "shows_chunk a ?c (Some w, a_grid a, timesV (modV idx (a_perShard a)) (a_chunks a))"
      using ch content_typed(1) [OF ok v] by (simp add: shows_chunk_def)
    with ReadWhole Q [of s] show ?thesis unfolding loc by (simp add: readChunkOf_def Let_def wp_ret)
  next
    case (ReadRange index)
    with rd obtain sd b where sh: "a_shard a = Some sd" and b: "contents s ?key = Some b"
      and ix: "readIndex sd (a_perShard a) b = Inr index" and br: "byRange a"
      by (auto simp: reader_ok_def)
    then obtain rg where rg: "st_range (a_store a) = Some rg" and pb: "pbytes (a_codecs a) = []" by (auto simp: byRange_def)
    have lb: "length b < 2 ^ 63" using so b by (simp add: sound_object_def)
    let ?k = "lin (a_perShard a) (modV idx (a_perShard a))"
    have k: "?k < product_of (a_perShard a)" using lin_bound [OF il] .
    from content_parts [OF ok sh pb v [unfolded b]] ix obtain chunks where
      p: "length index = 2 * product_of (a_perShard a)" "entry index ?k b = Inr (chunks ! ?k)"
        "parts sd (storedSpec a) (a_perShard a) chunks v"
      using k by auto
    note f = arr_shard_fields [OF ok sh]
    have cx: "?c ! lin (a_chunks a) o' = x ! lin (a_chunks a) o'"
      if x: "part sd (storedSpec a) (chunks ! ?k) = Inr x" and o': "inside o' (a_chunks a)" for x o'
    proof -
      let ?e = "plusV (timesV (modV idx (a_perShard a)) (a_chunks a)) o'"
      have "inside ?e (a_grid a)" "divV ?e (a_chunks a) = modV idx (a_perShard a)" "modV ?e (a_chunks a) = o'"
        using chunk_element [OF ok idx o'] by auto
      with p(3) x f(1) have "v ! lin (a_grid a) ?e = x ! lin (a_chunks a) o'"
        by (auto simp: parts_def storedSpec_def)
      with ch [OF o'] show ?thesis by simp
    qed
    have li: "local_index (a_perShard a) (modV idx (a_perShard a)) = ?k" using idx g(1-6) by (intro local_index_eq) simp
    have px: "\<exists>x. part sd (storedSpec a) (chunks ! ?k) = Inr x" using p(3) k by (simp add: parts_def)
    show ?thesis
    proof (cases "chunks ! ?k")
      case None
      then have "?c = filled (product_of (a_chunks a)) (a_fill a)"
        using cx f(1) by (intro nth_by_index [of _ "a_chunks a"]) (auto simp: storedSpec_def)
      moreover have "entrySpan index ?k maxInt64w = Inr None"
        using range_entry [OF p(2) _ lb] p(1) k None by simp
      ultimately show ?thesis
        unfolding loc using ReadRange sh rg li Q [of s "(None, [], [])"]
        by (simp add: readChunkOf_def Let_def shows_chunk_def wp_def)
    next
      case (Some bk)
      then obtain off l where e: "entrySpan index ?k maxInt64w = Inr (Some (off, l))"
        "in_int64 (sint off)" "in_int64 (sint l)" "range_in b (sint off) (sint l)" "bk = sub_bytes b (sint off) (sint l)"
        using range_entry [OF p(2) _ lb] p(1) k by auto
      from px Some obtain x where x: "innerDec sd bk (innerSpec sd (storedSpec a)) = Inr x" "stype x = a_type a"
        "length (elems x) = product_of (a_chunks a)"
        using f(1) by (auto simp: storedSpec_def)
      have pe: "part sd (storedSpec a) (chunks ! ?k) = Inr (elems x)" using x Some f(1) by (simp add: storedSpec_def)
      have plus0: "plusV (zeros (length (shardOf a idx))) o' = o'" if "inside o' (a_chunks a)" for o'
        using list_all2_lengthD [OF that] idx g by (intro nth_equalityI) (auto simp: shardOf_def)
      have "length (shardOf a idx) = length (a_chunks a)" using idx g(1-6) by (simp add: shardOf_def)
      then have sc: "shows_chunk a ?c (Some (elems x), a_chunks a, zeros (length (shardOf a idx)))"
        using cx [OF pe] x(3) plus0 fits_zeros [of "a_chunks a"] by (auto simp: shows_chunk_def)
      have "wp live (io_bind (rg ?key (sint off) (sint l)) (\<lambda>b.
          io_bind (io_lift (innerDec sd b (innerSpec sd (storedSpec a)))) (\<lambda>v.
          io_bind (io_lift (asChunk (a_type a) v (product_of (a_chunks a)))) (\<lambda>c.
            io_ret (Some c, a_chunks a, zeros (length (shardOf a idx))))))) s Q R"
      proof -
        have bt: "io_bind m f = io_try m (\<lambda>r. case r of Inl e \<Rightarrow> io_err e | Inr x \<Rightarrow> f x)"
          for m :: "('s, 'a) io" and f :: "'a \<Rightarrow> ('s, 'b) io"
          by (rule ext) (simp add: io_bind_def io_try_def split: prod.splits sum.splits)
        show ?thesis
          unfolding bt [of "rg ?key (sint off) (sint l)"]
        proof (rule wp_range [OF rg [unfolded st] e(2,3) storedKey_valid [OF ok]])
          fix t c assume t: "contents t = contents s" and c: "contents s ?key = Some c"
          have "asChunk (a_type a) x (product_of (a_chunks a)) = Inr (elems x)" using x by (simp add: asChunk_Inr)
          then show "wp live (case Inr (sub_bytes c (sint off) (sint l)) of Inl e \<Rightarrow> io_err e
              | Inr b \<Rightarrow> io_bind (io_lift (innerDec sd b (innerSpec sd (storedSpec a)))) (\<lambda>v.
                io_bind (io_lift (asChunk (a_type a) v (product_of (a_chunks a)))) (\<lambda>c.
                  io_ret (Some c, a_chunks a, zeros (length (shardOf a idx)))))) t Q R"
            using b c e(5) x(1) Q [OF t sc] by (simp add: wp_def)
        qed (use b e lb R in \<open>auto simp: maxInt64_def\<close>)
      qed
      then show ?thesis
        unfolding loc using ReadRange sh rg li e(1) by (simp add: readChunkOf_def Let_def)
    qed
  qed
qed

end

end
