(* ===== verification/ReadRegion.thy ===== *)
theory ReadRegion
  imports Reads
begin

text \<open>
  \<open>Read\<close> of \<open>src/array.go\<close> on a region of many chunks: every element of the result is the element
  of the array, for any order in which \<open>eachSpan\<close> makes its calls, with the stored objects read
  whole or by ranges.
\<close>

definition reads_region :: "'s arr \<Rightarrow> vec \<Rightarrow> vec \<Rightarrow> vec \<Rightarrow> vec \<Rightarrow> vec \<Rightarrow> bool" where
  "reads_region a cell st sh lo hi \<longleftrightarrow> fits st sh (a_shape a) \<and> positive sh \<and> cell_range st sh cell lo hi"

lemma reads_regionD:
  assumes "reads_region a cell st sh lo hi"
  shows "length st = length cell" "length sh = length cell" "length lo = length cell" "length hi = length cell"
    "length (mShape (a_meta a)) = length cell" "list_all2 (\<le>) lo hi"
  using assms cell_range_le [of st sh cell lo hi] by (auto simp: reads_region_def cell_range_def fits_nth)

text \<open>The cell of an element of the region.\<close>

lemma region_cell:
  assumes r: "reads_region a cell st sh lo hi" and c: "positive cell" and o': "inside o' sh"
  shows "inside (plusV st o') (a_shape a)" "between lo hi (divV (plusV st o') cell)"
proof -
  note l = reads_regionD [OF r]
  have b: "in_block st sh (plusV st o')"
    using o' l by (intro in_block_nthI) (auto simp: list_all2_conv_all_nth)
  show "inside (plusV st o') (a_shape a)" using fits_inside [OF _ b] r by (simp add: reads_region_def)
  show "between lo hi (divV (plusV st o') cell)"
    using region_cells [OF _ c b] r by (simp add: reads_region_def)
qed

lemma region_overlap:
  assumes r: "reads_region a cell st sh lo hi" and c: "positive cell" and b: "between lo hi idx"
    and o: "overlap a idx st sh cell = (at, n, whole)"
  shows "fits (minusV at st) n sh" "fits (minusV at (timesV idx cell)) n cell"
    "inside o' sh \<Longrightarrow> in_block (minusV at st) n o' \<longleftrightarrow> divV (plusV st o') cell = idx"
    "inside o' sh \<Longrightarrow> divV (plusV st o') cell = idx \<Longrightarrow>
       plusV (minusV at (timesV idx cell)) (minusV o' (minusV at st)) = modV (plusV st o') cell"
proof -
  note l = reads_regionD [OF r]
  from r have cr: "cell_range st sh cell lo hi" "\<forall>v \<in> set sh. 0 < v" "fits st sh (a_shape a)" by (auto simp: reads_region_def)
  note ov = overlap_spec [OF o cr c b]
  show "fits (minusV at st) n sh" "fits (minusV at (timesV idx cell)) n cell" by (rule ov)+
  have li: "length idx = length cell" using b l by (simp add: between_nth)
  assume o': "inside o' sh"
  have lo': "length o' = length cell" using list_all2_lengthD [OF o'] l by simp
  have ge: "st ! k \<le> at ! k \<and> idx ! k * cell ! k \<le> at ! k" if "k < length cell" for k using ov(7) that by simp
  have ss: "in_block st sh (plusV st o')"
    using o' l by (intro in_block_nthI) (auto simp: list_all2_conv_all_nth)
  have k: "at ! k - st ! k \<le> o' ! k \<and> o' ! k < at ! k - st ! k + n ! k \<longleftrightarrow>
      at ! k \<le> st ! k + o' ! k \<and> st ! k + o' ! k < at ! k + n ! k" if "k < length cell" for k
    using ge [OF that] by arith
  have "in_block (minusV at st) n o' \<longleftrightarrow> in_block at n (plusV st o')"
    unfolding in_block_nth using lo' l ov(5,6) k by simp
  also have "\<dots> \<longleftrightarrow> divV (plusV st o') cell = idx"
    using ov(3) [of "plusV st o'"] ss tile_iff [OF c, of "plusV st o'" idx] lo' l li by simp
  finally show eq: "in_block (minusV at st) n o' \<longleftrightarrow> divV (plusV st o') cell = idx" .
  assume d: "divV (plusV st o') cell = idx"
  with eq have ib: "in_block (minusV at st) n o'" by simp
  have le: "at ! k - st ! k \<le> o' ! k" if "k < length cell" for k
    using ib that lo' l ov(5,6) by (auto simp: in_block_nth)
  have "plusV (minusV at (timesV idx cell)) (minusV o' (minusV at st)) = minusV (plusV st o') (timesV idx cell)"
  proof (rule nth_equalityI)
    fix k assume "k < length (plusV (minusV at (timesV idx cell)) (minusV o' (minusV at st)))"
    then have kk: "k < length cell" using lo' l ov(5) li by simp
    show "plusV (minusV at (timesV idx cell)) (minusV o' (minusV at st)) ! k = minusV (plusV st o') (timesV idx cell) ! k"
      using le [OF kk] ge [OF kk] kk lo' l ov(5) li by simp
  qed (use lo' l ov(5) li in simp)
  also have "\<dots> = modV (plusV st o') cell" using tile_offset [OF c, of "plusV st o'"] lo' l d by simp
  finally show "plusV (minusV at (timesV idx cell)) (minusV o' (minusV at st)) = modV (plusV st o') cell" .
qed

text \<open>The output with the chunks whose numbers satisfy a predicate in place.\<close>

definition placed :: "'s arr \<Rightarrow> (string \<Rightarrow> bytes option) \<Rightarrow> vec \<Rightarrow> vec \<Rightarrow> (vec \<Rightarrow> bool) \<Rightarrow> elem list \<Rightarrow> elem list \<Rightarrow> bool" where
  "placed a m st sh P out out' \<longleftrightarrow>
     length out' = product_of sh \<and>
     (\<forall>o'. inside o' sh \<longrightarrow> out' ! lin sh o' =
        (if P (divV (plusV st o') (a_chunks a)) then value_at a m (plusV st o') else out ! lin sh o'))"

definition blank :: "'s arr \<Rightarrow> vec \<Rightarrow> vec \<Rightarrow> (vec \<Rightarrow> bool) \<Rightarrow> elem list \<Rightarrow> bool" where
  "blank a st sh P out \<longleftrightarrow> length out = product_of sh \<and>
     (\<forall>o'. inside o' sh \<longrightarrow> P (divV (plusV st o') (a_chunks a)) \<longrightarrow> out ! lin sh o' = zero_of (a_type a))"

lemma fits_trans: "fits at n cell \<Longrightarrow> fits vat cell shape \<Longrightarrow> fits (plusV vat at) n shape"
  by (fastforce simp: fits_nth)

lemma copy_chunk:
  assumes ok: "arr_ok env cs a" and r: "reads_region a (a_chunks a) st sh lo hi" and b: "between lo hi idx"
    and o: "overlap a idx st sh (a_chunks a) = (at, n, whole)"
    and v: "shows_chunk a (chunk_at a m idx) v" and out: "blank a st sh ((=) idx) out"
  shows "\<exists>out'. (case v of
      (None, _, _) \<Rightarrow> (if \<not> go_eq (a_fill a) (zero_of (a_type a)) \<or> \<not> go_eq (a_fill a) (a_fill a)
         then fillBlock out sh (minusV at st) n (a_fill a) else Inr out)
    | (Some src, vshape, vat) \<Rightarrow>
         copyBlock out sh (minusV at st) src vshape (plusV vat (minusV at (timesV idx (a_chunks a)))) n) = Inr out' \<and>
    placed a m st sh ((=) idx) out out'"
proof -
  note g = arr_grid [OF ok] and l = reads_regionD [OF r]
  note ov = region_overlap [OF r g(5) b o]
  have lo: "length out = product_of sh" and z: "\<And>o'. inside o' sh \<Longrightarrow> divV (plusV st o') (a_chunks a) = idx \<Longrightarrow>
      out ! lin sh o' = zero_of (a_type a)"
    using out by (auto simp: blank_def)
  have val: "chunk_at a m idx ! lin (a_chunks a) (modV (plusV st o') (a_chunks a)) = value_at a m (plusV st o')"
    "inside (modV (plusV st o') (a_chunks a)) (a_chunks a)"
    if "inside o' sh" "divV (plusV st o') (a_chunks a) = idx" for o'
  proof -
    have le: "length (plusV st o') = length (a_chunks a)" using list_all2_lengthD [OF that(1)] l by simp
    show i: "inside (modV (plusV st o') (a_chunks a)) (a_chunks a)" using modV_inside [OF g(5) le] .
    show "chunk_at a m idx ! lin (a_chunks a) (modV (plusV st o') (a_chunks a)) = value_at a m (plusV st o')"
      using chunk_at_nth [OF i, of m idx] tile_index [OF le] that(2) by simp
  qed
  obtain src vshape vat where vs: "v = (src, vshape, vat)" by (cases v)
  show ?thesis
  proof (cases src)
    case None
    with v vs have c: "chunk_at a m idx = filled (product_of (a_chunks a)) (a_fill a)" by (simp add: shows_chunk_def)
    have fe: "value_at a m (plusV st o') = fill_elem (a_fill a)"
      if "inside o' sh" "divV (plusV st o') (a_chunks a) = idx" for o'
      using val [OF that] lin_bound [OF val(2) [OF that]] by (simp add: c filled_replicate)
    show ?thesis
    proof (cases "\<not> go_eq (a_fill a) (zero_of (a_type a)) \<or> \<not> go_eq (a_fill a) (a_fill a)")
      case True
      then have "fill_elem (a_fill a) = a_fill a" using g(8) by (auto simp: fill_elem_def)
      then show ?thesis
        using True fillBlock_spec [OF ov(1) lo, of "a_fill a"] ov(3) fe vs None lo
        by (fastforce simp: placed_def)
    next
      case False
      then have "fill_elem (a_fill a) = zero_of (a_type a)" using g(8) by (auto simp: fill_elem_def)
      then show ?thesis using False fe z vs None lo by (auto simp: placed_def)
    qed
  next
    case (Some s)
    with v vs have sv: "fits vat (a_chunks a) vshape" "length s = product_of vshape"
      "\<And>o'. inside o' (a_chunks a) \<Longrightarrow> s ! lin vshape (plusV vat o') = chunk_at a m idx ! lin (a_chunks a) o'"
      by (auto simp: shows_chunk_def)
    obtain out' where out': "copyBlock out sh (minusV at st) s vshape (plusV vat (minusV at (timesV idx (a_chunks a)))) n = Inr out'"
      "length out' = length out"
      "\<And>o'. inside o' sh \<Longrightarrow> out' ! lin sh o' = (if in_block (minusV at st) n o'
         then s ! lin vshape (plusV (plusV vat (minusV at (timesV idx (a_chunks a)))) (minusV o' (minusV at st)))
         else out ! lin sh o')"
      using copyBlock_spec [OF ov(1) fits_trans [OF ov(2) sv(1)] lo sv(2)] by blast
    have assoc: "plusV (plusV x y) z = plusV x (plusV y z)" for x y z
      by (rule nth_equalityI) auto
    have "placed a m st sh ((=) idx) out out'"
      unfolding placed_def
    proof (intro conjI allI impI)
      fix o' assume o': "inside o' sh"
      show "out' ! lin sh o' = (if idx = divV (plusV st o') (a_chunks a) then value_at a m (plusV st o') else out ! lin sh o')"
        using out'(3) [OF o'] ov(3,4) [OF o'] val [OF o'] sv(3) by (auto simp: assoc)
    qed (use out' lo in simp)
    with out'(1) vs Some show ?thesis by simp
  qed
qed

lemma placed_trans:
  "placed a m st sh P out out1 \<Longrightarrow> placed a m st sh Q out1 out2 \<Longrightarrow> placed a m st sh (\<lambda>c. P c \<or> Q c) out out2"
  by (auto simp: placed_def)

lemma placed_cong: "placed a m st sh P out out' \<Longrightarrow> (\<And>c. P c \<longleftrightarrow> Q c) \<Longrightarrow> placed a m st sh Q out out'"
  by (simp add: placed_def)

context store_reads
begin

lemma wp_read_chunk_into:
  assumes ok: "arr_ok env cs a" and st: "a_store a = ops" and r: "reads_region a (a_chunks a) start shape lo hi"
    and b: "between lo hi idx" and so: "sound_object a (m (storedKey a (shardOf a idx)))"
    and rd: "reader_ok a m (shardOf a idx) rd"
    and s: "contents (fst s) = m" "blank a start shape ((=) idx) (snd s)"
    and Q: "\<And>t out'. contents t = m \<Longrightarrow> placed a m start shape ((=) idx) (snd s) out' \<Longrightarrow> Q () (t, out')"
    and R: "\<And>t. contents t = m \<Longrightarrow> R (t, snd s)"
  shows "wp (\<lambda>st. live (fst st)) (read_chunk_into a (a_type a) start shape (shardOf a idx) rd idx) s Q R"
proof -
  obtain at n w where o: "overlap a idx start shape (a_chunks a) = (at, n, w)" by (cases "overlap a idx start shape (a_chunks a)")
  have l: "length idx = length (mShape (a_meta a))" using b reads_regionD [OF r] by (simp add: between_nth)
  show ?thesis
    unfolding read_chunk_into_def Let_def
    apply (rule wp_bind, rule wp_fst)
  proof (rule wp_readChunkOf [OF ok st l])
    fix v t assume t: "contents t = contents (fst s)" "shows_chunk a (chunk_at a (contents (fst s)) idx) v"
    from copy_chunk [OF ok r b o, of m v "snd s"] t s obtain out' where out':
      "(case v of
      (None, _, _) \<Rightarrow> (if \<not> go_eq (a_fill a) (zero_of (a_type a)) \<or> \<not> go_eq (a_fill a) (a_fill a)
         then fillBlock (snd s) shape (minusV at start) n (a_fill a) else Inr (snd s))
    | (Some src, vshape, vat) \<Rightarrow>
         copyBlock (snd s) shape (minusV at start) src vshape (plusV vat (minusV at (timesV idx (a_chunks a)))) n) = Inr out'"
      "placed a m start shape ((=) idx) (snd s) out'" by auto
    have q: "Q () (t, out')" using Q out'(2) t(1) s(1) by simp
    obtain src vshape vat where v: "v = (src, vshape, vat)" by (cases v)
    show "wp (\<lambda>st. live (fst st)) (\<lambda>st. case overlap a idx start shape (a_chunks a) of (at, n, _) \<Rightarrow>
        case v of
          (None, _, _) \<Rightarrow>
            if \<not> go_eq (a_fill a) (zero_of (a_type a)) \<or> \<not> go_eq (a_fill a) (a_fill a)
            then io_put (fillBlock (snd st) shape (minusV at start) n (a_fill a)) st
            else io_ret () st
        | (Some src, vshape, vat) \<Rightarrow>
            io_put (copyBlock (snd st) shape (minusV at start) src vshape
                      (plusV vat (minusV at (timesV idx (a_chunks a)))) n) st) (t, snd s) Q R"
      using out'(1) q v o
      by (cases src) (auto simp: wp_def io_put_def split: if_splits)
  qed (use so rd s R in auto)
qed

text \<open>The chunks of one stored object, one after another.\<close>

lemma wp_read_chunks:
  assumes ok: "arr_ok env cs a" and st: "a_store a = ops" and r: "reads_region a (a_chunks a) start shape lo hi"
    and so: "sound_object a (m (storedKey a sidx))" and rd: "reader_ok a m sidx rd"
  shows "distinct ls \<Longrightarrow> \<forall>idx \<in> set ls. between lo hi idx \<and> shardOf a idx = sidx \<Longrightarrow> contents (fst s) = m \<Longrightarrow>
    blank a start shape (\<lambda>c. c \<in> set ls) (snd s) \<Longrightarrow>
    wp (\<lambda>st. live (fst st)) (io_each (read_chunk_into a (a_type a) start shape sidx rd) ls) s
      (\<lambda>_ st. contents (fst st) = m \<and> placed a m start shape (\<lambda>c. c \<in> set ls) (snd s) (snd st))
      (\<lambda>st. contents (fst st) = m \<and> (\<exists>P. (\<forall>c. P c \<longrightarrow> c \<in> set ls) \<and> placed a m start shape P (snd s) (snd st)))"
proof (induction ls arbitrary: s)
  case Nil
  then show ?case by (simp add: wp_def placed_def blank_def)
next
  case (Cons idx ls)
  have si: "shardOf a idx = sidx" and b: "between lo hi idx" using Cons.prems(2) by auto
  have bl: "blank a start shape ((=) idx) (snd s)" using Cons.prems(4) by (auto simp: blank_def)
  show ?case
    apply (simp only: io_each.simps)
  proof (rule wp_bind, rule wp_read_chunk_into [OF ok st r b _ _ Cons.prems(3) bl, unfolded si])
    fix t out' assume t: "contents t = m" and p: "placed a m start shape ((=) idx) (snd s) out'"
    have "wp (\<lambda>st. live (fst st)) (io_each (read_chunk_into a (a_type a) start shape sidx rd) ls) (t, out')
      (\<lambda>_ st. contents (fst st) = m \<and> placed a m start shape (\<lambda>c. c \<in> set ls) (snd (t, out')) (snd st))
      (\<lambda>st. contents (fst st) = m \<and> (\<exists>P. (\<forall>c. P c \<longrightarrow> c \<in> set ls) \<and> placed a m start shape P (snd (t, out')) (snd st)))"
      using Cons.prems t p by (intro Cons.IH) (auto simp: blank_def placed_def)
    then show "wp (\<lambda>st. live (fst st)) (io_each (read_chunk_into a (a_type a) start shape sidx rd) ls) (t, out')
      (\<lambda>_ st. contents (fst st) = m \<and> placed a m start shape (\<lambda>c. c \<in> set (idx # ls)) (snd s) (snd st))
      (\<lambda>st. contents (fst st) = m \<and> (\<exists>P. (\<forall>c. P c \<longrightarrow> c \<in> set (idx # ls)) \<and> placed a m start shape P (snd s) (snd st)))"
    proof (rule wp_mono)
      fix x u assume "contents (fst u) = m \<and> placed a m start shape (\<lambda>c. c \<in> set ls) (snd (t, out')) (snd u)"
      with p show "contents (fst u) = m \<and> placed a m start shape (\<lambda>c. c \<in> set (idx # ls)) (snd s) (snd u)"
        by (auto simp: placed_def)
    next
      fix u assume "contents (fst u) = m \<and> (\<exists>P. (\<forall>c. P c \<longrightarrow> c \<in> set ls) \<and> placed a m start shape P (snd (t, out')) (snd u))"
      then obtain P where P: "contents (fst u) = m" "\<forall>c. P c \<longrightarrow> c \<in> set ls" "placed a m start shape P (snd (t, out')) (snd u)" by blast
      have "placed a m start shape (\<lambda>c. idx = c \<or> P c) (snd s) (snd u)" using placed_trans [OF p] P(3) by simp
      with P(1,2) show "contents (fst u) = m \<and> (\<exists>P. (\<forall>c. P c \<longrightarrow> c \<in> set (idx # ls)) \<and> placed a m start shape P (snd s) (snd u))"
        by (intro conjI exI [of _ "\<lambda>c. idx = c \<or> P c"]) auto
    qed
  next
    fix t assume t: "contents t = m"
    have "placed a m start shape (\<lambda>_. False) (snd s) (snd s)" using bl by (simp add: placed_def blank_def)
    then show "contents (fst (t, snd s)) = m \<and>
        (\<exists>P. (\<forall>c. P c \<longrightarrow> c \<in> set (idx # ls)) \<and> placed a m start shape P (snd s) (snd (t, snd s)))"
      using t by auto
  qed (use so rd si in auto)
qed

end

end
