(* ===== verification/ReadArray.thy ===== *)
theory ReadArray
  imports ReadRegion
begin

text \<open>
  The loops of \<open>Read\<close> and the whole of \<open>ReadChunk\<close> and \<open>Read\<close> (\<open>src/array.go\<close>).
\<close>

section \<open>The stored objects of a region\<close>

lemma shard_range:
  assumes ok: "arr_ok env cs a" and r: "reads_region a (a_chunks a) st sh lo hi" and b: "between lo hi c"
  shows "between (shardOf a lo) (shardOf a hi) (shardOf a c)"
proof -
  note l = reads_regionD(3,4) [OF r] and g = arr_grid(2,3) [OF ok]
  have "length (a_perShard a) = length (a_chunks a)" using g by simp
  with b l show ?thesis by (auto simp: between_nth shardOf_def div_le_mono)
qed

text \<open>The chunks of the region in a stored object, as \<open>Read\<close> goes through them.\<close>

lemma shard_chunks:
  assumes ok: "arr_ok env cs a" and r: "reads_region a (a_chunks a) st sh lo hi"
    and b: "between (shardOf a lo) (shardOf a hi) sidx"
  defines "first \<equiv> timesV sidx (a_perShard a)"
  defines "ilo \<equiv> map2 max lo first" and "ihi \<equiv> map2 min hi (minusOne (plusV first (a_perShard a)))"
  shows "distinct (eachIndex_order ilo ihi)"
    and "set (eachIndex_order ilo ihi) = {c. between lo hi c \<and> shardOf a c = sidx}"
    and "\<exists>c. between lo hi c \<and> shardOf a c = sidx"
proof -
  have g: "length (a_perShard a) = length (a_chunks a)" "positive (a_perShard a)" using arr_grid [OF ok] by auto
  note l = reads_regionD(1-4,6) [OF r]
  have ls: "length sidx = length (a_chunks a)" using b l g(1) by (simp add: between_nth shardOf_def)
  have k: "lo ! k \<le> hi ! k" "lo ! k div a_perShard a ! k \<le> sidx ! k" "sidx ! k \<le> hi ! k div a_perShard a ! k"
    "0 < a_perShard a ! k" if "k < length (a_chunks a)" for k
    using b l g that by (auto simp: between_nth shardOf_def list_all2_conv_all_nth)
  have d: "sidx ! k * p \<le> x \<and> x \<le> sidx ! k * p + p - 1 \<longleftrightarrow> x div p = sidx ! k" if "0 < p" for k p x
  proof
    assume "sidx ! k * p \<le> x \<and> x \<le> sidx ! k * p + p - 1"
    then show "x div p = sidx ! k" using that by (intro div_nat_eqI) (auto simp: algebra_simps)
  next
    assume a: "x div p = sidx ! k"
    have "x mod p < p" using that by simp
    then show "sidx ! k * p \<le> x \<and> x \<le> sidx ! k * p + p - 1"
      using div_mult_mod_eq [of x p] by (simp add: a)
  qed
  have nth: "ilo ! k = max (lo ! k) (sidx ! k * a_perShard a ! k)"
    "ihi ! k = min (hi ! k) (sidx ! k * a_perShard a ! k + a_perShard a ! k - 1)" if "k < length (a_chunks a)" for k
    using that l g(1) ls by (simp_all add: ilo_def ihi_def first_def)
  have len: "length ilo = length (a_chunks a)" "length ihi = length (a_chunks a)"
    using l g(1) ls by (simp_all add: ilo_def ihi_def first_def)
  have le: "list_all2 (\<le>) ilo ihi"
    unfolding list_all2_conv_all_nth
  proof (intro conjI allI impI)
    fix k assume "k < length ilo"
    then have kk: "k < length (a_chunks a)" using len by simp
    let ?p = "a_perShard a ! k"
    have "lo ! k < (sidx ! k + 1) * ?p"
      using k(2,4) [OF kk] by (metis add.commute le_imp_less_Suc less_mult_imp_div_less div_less_iff_less_mult plus_1_eq_Suc)
    then have "lo ! k \<le> sidx ! k * ?p + ?p - 1" by simp
    moreover have "sidx ! k * ?p \<le> hi ! k"
      using mult_le_mono1 [OF k(3) [OF kk], of ?p] div_times_less_eq_dividend le_trans by blast
    ultimately show "ilo ! k \<le> ihi ! k" using nth [OF kk] k(1,4) [OF kk] by auto
  qed (use len in simp)
  show "distinct (eachIndex_order ilo ihi)" by (rule distinct_eachIndex_order [OF le])
  have "between ilo ihi c \<longleftrightarrow> between lo hi c \<and> shardOf a c = sidx" for c
  proof (cases "length c = length (a_chunks a)")
    case True
    have "(\<forall>k < length (a_chunks a). ilo ! k \<le> c ! k \<and> c ! k \<le> ihi ! k) \<longleftrightarrow>
        (\<forall>k < length (a_chunks a). (lo ! k \<le> c ! k \<and> c ! k \<le> hi ! k) \<and> c ! k div a_perShard a ! k = sidx ! k)"
    proof -
      have "ilo ! k \<le> c ! k \<and> c ! k \<le> ihi ! k \<longleftrightarrow>
          (lo ! k \<le> c ! k \<and> c ! k \<le> hi ! k) \<and> c ! k div a_perShard a ! k = sidx ! k" if "k < length (a_chunks a)" for k
        using nth [OF that] d [OF k(4) [OF that], of k "c ! k"] by auto
      then show ?thesis by blast
    qed
    moreover have "shardOf a c = sidx \<longleftrightarrow> (\<forall>k < length (a_chunks a). c ! k div a_perShard a ! k = sidx ! k)"
      using True ls g(1) by (auto simp: list_eq_iff_nth_eq shardOf_def)
    ultimately show ?thesis using True len l unfolding between_nth by auto
  qed (use len l in \<open>simp add: between_nth\<close>)
  then show s: "set (eachIndex_order ilo ihi) = {c. between lo hi c \<and> shardOf a c = sidx}"
    using set_eachIndex_order [OF le] by simp
  show "\<exists>c. between lo hi c \<and> shardOf a c = sidx"
    using s set_eachIndex_order [OF le] between_lo [OF le] by blast
qed

lemma chunk_sound:
  assumes ok: "arr_ok env cs a" and idx: "inside (timesV idx (a_chunks a)) (a_shape a)" "length idx = length (a_chunks a)"
    and rd: "readable a m"
  shows "sound_object a (m (storedKey a (shardOf a idx)))"
proof -
  note g = arr_grid [OF ok]
  have z: "inside (zeros (length (a_chunks a))) (a_chunks a)" using g(5) by (simp add: list_all2_conv_all_nth)
  have e: "plusV (timesV idx (a_chunks a)) (zeros (length (a_chunks a))) = timesV idx (a_chunks a)"
    using idx by (intro nth_equalityI) auto
  have "divV (timesV idx (a_chunks a)) (a_grid a) = shardOf a idx"
    using chunk_element(1) [OF ok idx(2) [unfolded g(2)] z] unfolding e .
  then show ?thesis using rd idx(1) by (auto simp: readable_def cell_key_def)
qed

lemma region_sound:
  assumes ok: "arr_ok env cs a" and r: "reads_region a (a_chunks a) st sh lo hi" and rd: "readable a m"
    and b: "between lo hi c"
  shows "sound_object a (m (storedKey a (shardOf a c)))"
proof (rule chunk_sound [OF ok _ _ rd])
  note l = reads_regionD(1-5) [OF r]
  from r have cr: "cell_range st sh (a_chunks a) lo hi" "\<forall>v \<in> set sh. 0 < v" "fits st sh (a_shape a)" by (auto simp: reads_region_def)
  show lc: "length c = length (a_chunks a)" using b l by (simp add: between_nth)
  have "c ! k * a_chunks a ! k < a_shape a ! k" if "k < length (a_chunks a)" for k
  proof -
    have "c ! k * a_chunks a ! k < st ! k + sh ! k"
      using cell_hi_inside [OF cr(1,2,3) arr_grid(5) [OF ok] b that] by simp
    also have "\<dots> \<le> a_shape a ! k" using cr(3) that l by (simp add: fits_nth)
    finally show ?thesis .
  qed
  then show "inside (timesV c (a_chunks a)) (a_shape a)" using lc l by (simp add: list_all2_conv_all_nth)
qed

section \<open>The loops\<close>

lemma placed_length: "placed a m st sh P out out' \<Longrightarrow> length out' = product_of sh"
  by (simp add: placed_def)


text \<open>The state of a loop of \<open>Read\<close> after the calls \<open>C\<close> have succeeded and the calls \<open>D\<close> have been
  made, the call for a chunk being numbered \<open>num\<close>.\<close>

definition read_inv ::
    "'s arr \<Rightarrow> ('s \<Rightarrow> string \<Rightarrow> bytes option) \<Rightarrow> (string \<Rightarrow> bytes option) \<Rightarrow> vec \<Rightarrow> vec \<Rightarrow> vec \<Rightarrow> vec \<Rightarrow> (vec \<Rightarrow> nat) \<Rightarrow>
       nat set \<Rightarrow> nat set \<Rightarrow> 's \<times> elem list \<Rightarrow> bool" where
  "read_inv a contents m start sh lo hi num C D s \<longleftrightarrow>
     contents (fst s) = m \<and>
     (\<exists>P. placed a m start sh P (replicate (product_of sh) (zero_of (a_type a))) (snd s) \<and>
        (\<forall>c. between lo hi c \<longrightarrow> (num c \<in> C \<longrightarrow> P c) \<and> (P c \<longrightarrow> num c \<in> D)))"

lemma read_inv_init:
  "contents (fst s) = m \<Longrightarrow> snd s = replicate (product_of sh) (zero_of (a_type a)) \<Longrightarrow>
     read_inv a contents m start sh lo hi num {} {} s"
  unfolding read_inv_def by (intro conjI exI [of _ "\<lambda>_. False"]) (auto simp: placed_def)

lemma read_inv_blank:
  assumes "read_inv a contents m start sh lo hi num C D s" "reads_region a (a_chunks a) start sh lo hi" "positive (a_chunks a)"
    and "\<And>c. Q c \<Longrightarrow> num c \<notin> D"
  shows "blank a start sh Q (snd s)"
proof -
  from assms(1) obtain P where P: "placed a m start sh P (replicate (product_of sh) (zero_of (a_type a))) (snd s)"
    "\<forall>c. between lo hi c \<longrightarrow> P c \<longrightarrow> num c \<in> D" by (auto simp: read_inv_def)
  have "\<not> P (divV (plusV start o') (a_chunks a))" if "inside o' sh" "Q (divV (plusV start o') (a_chunks a))" for o'
    using P(2) region_cell(2) [OF assms(2,3) that(1)] assms(4) [OF that(2)] by blast
  with P(1) lin_bound show ?thesis by (auto simp: blank_def placed_def)
qed

lemma read_inv_step:
  assumes "read_inv a contents m start sh lo hi num C D s" "placed a m start sh P (snd s) (snd s')" "contents (fst s') = m"
    and "\<And>c. between lo hi c \<Longrightarrow> num c \<in> C' - C \<Longrightarrow> P c" "\<And>c. between lo hi c \<Longrightarrow> P c \<Longrightarrow> num c \<in> D'" "D \<subseteq> D'"
  shows "read_inv a contents m start sh lo hi num C' D' s'"
proof -
  from assms(1) obtain P0 where P0: "placed a m start sh P0 (replicate (product_of sh) (zero_of (a_type a))) (snd s)"
    "\<forall>c. between lo hi c \<longrightarrow> (num c \<in> C \<longrightarrow> P0 c) \<and> (P0 c \<longrightarrow> num c \<in> D)" by (auto simp: read_inv_def)
  from placed_trans [OF P0(1) assms(2)] P0(2) assms(3-6) show ?thesis
    unfolding read_inv_def by (intro conjI exI [of _ "\<lambda>c. P0 c \<or> P c"]) auto
qed

lemma read_inv_done:
  assumes "read_inv a contents m start sh lo hi num C D s" "reads_region a (a_chunks a) start sh lo hi" "positive (a_chunks a)"
    and "\<And>c. between lo hi c \<Longrightarrow> num c \<in> C" and o': "inside o' sh"
  shows "snd s ! lin sh o' = value_at a m (plusV start o')" "length (snd s) = product_of sh"
  using assms(1,4) region_cell(2) [OF assms(2,3) o'] o' by (auto simp: read_inv_def placed_def)

definition region_values :: "'s arr \<Rightarrow> (string \<Rightarrow> bytes option) \<Rightarrow> vec \<Rightarrow> vec \<Rightarrow> elem list \<Rightarrow> bool" where
  "region_values a m start sh out \<longleftrightarrow>
     length out = product_of sh \<and> (\<forall>o'. inside o' sh \<longrightarrow> out ! lin sh o' = value_at a m (plusV start o'))"

context store_reads
begin

lemma read_shard_step:
  assumes ok: "arr_ok env cs a" and st: "a_store a = ops" and r: "reads_region a (a_chunks a) start sh lo hi"
    and rd: "readable a m" and n: "n < spanLen (shardOf a lo) (shardOf a hi)" "n \<notin> D" "C \<subseteq> D"
    and inv: "read_inv a contents m start sh lo hi (\<lambda>c. spanOf (shardOf a lo) (shardOf a hi) (shardOf a c)) C D s"
  defines "sidx \<equiv> spanInto (shardOf a lo) (shardOf a hi) n"
  shows "wp (\<lambda>st. live (fst st)) (io_bind (io_fst (openStored a (a_type a) sidx)) (\<lambda>rd.
      io_each (read_chunk_into a (a_type a) start sh sidx rd)
        (eachIndex_order (map2 max lo (timesV sidx (a_perShard a)))
           (map2 min hi (minusOne (plusV (timesV sidx (a_perShard a)) (a_perShard a))))))) s
    (\<lambda>_. read_inv a contents m start sh lo hi (\<lambda>c. spanOf (shardOf a lo) (shardOf a hi) (shardOf a c)) (insert n C) (insert n D))
    (read_inv a contents m start sh lo hi (\<lambda>c. spanOf (shardOf a lo) (shardOf a hi) (shardOf a c)) C (insert n D))"
    (is "wp _ _ _ (\<lambda>_. ?I (insert n C) (insert n D)) (?I C (insert n D))")
proof -
  let ?num = "\<lambda>c. spanOf (shardOf a lo) (shardOf a hi) (shardOf a c)"
  note l = reads_regionD(3,4) [OF r] and g = arr_grid [OF ok]
  have ls: "length (shardOf a lo) = length (shardOf a hi)" using l by (simp add: shardOf_def)
  have bs: "between (shardOf a lo) (shardOf a hi) sidx"
    unfolding sidx_def using ls n(1) by (rule spanInto_between)
  have num: "?num c = n \<longleftrightarrow> shardOf a c = sidx" if "between lo hi c" for c
    using spanInto_spanOf [OF shard_range [OF ok r that]] spanOf_spanInto [OF ls n(1)] by (auto simp: sidx_def)
  note sc = shard_chunks [OF ok r bs]
  obtain c0 where "between lo hi c0" "shardOf a c0 = sidx" using sc(3) by blast
  with region_sound [OF ok r rd] have so: "sound_object a (m (storedKey a sidx))" by blast
  have cm: "contents (fst s) = m" using inv by (simp add: read_inv_def)
  have bl: "blank a start sh (\<lambda>c. between lo hi c \<and> shardOf a c = sidx) (snd s)"
    using num n(2) by (intro read_inv_blank [OF inv r g(5)]) auto
  show ?thesis
  proof (rule wp_bind, rule wp_fst, rule wp_openStored [OF ok st])
    fix rdr t assume t: "contents t = contents (fst s)" and ro: "reader_ok a (contents (fst s)) sidx rdr"
    show "wp (\<lambda>st. live (fst st)) (io_each (read_chunk_into a (a_type a) start sh sidx rdr)
        (eachIndex_order (map2 max lo (timesV sidx (a_perShard a)))
           (map2 min hi (minusOne (plusV (timesV sidx (a_perShard a)) (a_perShard a)))))) (t, snd s)
      (\<lambda>_. ?I (insert n C) (insert n D)) (?I C (insert n D))"
    proof (rule wp_mono, rule wp_read_chunks [where m = m, OF ok st r so])
      fix u assume "contents (fst u) = m \<and> placed a m start sh (\<lambda>c. c \<in> set (eachIndex_order (map2 max lo (timesV sidx (a_perShard a)))
           (map2 min hi (minusOne (plusV (timesV sidx (a_perShard a)) (a_perShard a)))))) (snd (t, snd s)) (snd u)"
      then have u: "placed a m start sh (\<lambda>c. between lo hi c \<and> shardOf a c = sidx) (snd s) (snd u)" "contents (fst u) = m"
        unfolding sc(2) by auto
      show "?I (insert n C) (insert n D) u"
        using num by (intro read_inv_step [OF inv u]) auto
    next
      fix u assume "contents (fst u) = m \<and> (\<exists>P. (\<forall>c. P c \<longrightarrow> c \<in> set (eachIndex_order (map2 max lo (timesV sidx (a_perShard a)))
           (map2 min hi (minusOne (plusV (timesV sidx (a_perShard a)) (a_perShard a)))))) \<and> placed a m start sh P (snd (t, snd s)) (snd u))"
      then obtain P where P: "contents (fst u) = m" "\<forall>c. P c \<longrightarrow> between lo hi c \<and> shardOf a c = sidx"
        "placed a m start sh P (snd s) (snd u)" unfolding sc(2) by auto
      show "?I C (insert n D) u"
        using num P(2) by (intro read_inv_step [OF inv P(3,1)]) auto
    qed (use sc ro cm t bl in auto)
  next
    fix t assume t: "contents t = contents (fst s)"
    have p: "placed a m start sh (\<lambda>_. False) (snd s) (snd (t, snd s))"
      using bl by (simp add: placed_def blank_def)
    show "?I C (insert n D) (t, snd s)" using t cm by (intro read_inv_step [OF inv p]) auto
  qed (use so cm in auto)
qed

lemma read_region_whole:
  assumes ok: "arr_ok env cs a" and st: "a_store a = ops" and r: "reads_region a (a_chunks a) start sh lo hi"
    and rd: "readable a (contents s)" and sched: "sched_ok sched" "\<And>s. live s \<Longrightarrow> sched_full sched"
    and br: "\<not> byRange a"
  shows "wp live (read_region sched a (a_type a) start sh lo hi) s
    (\<lambda>out t. contents t = contents s \<and> region_values a (contents s) start sh out) (\<lambda>t. contents t = contents s)"
proof -
  let ?slo = "shardOf a lo" and ?shi = "shardOf a hi" and ?out = "replicate (product_of sh) (zero_of (a_type a))"
  let ?num = "\<lambda>c. spanOf ?slo ?shi (shardOf a c)"
  let ?I = "read_inv a contents (contents s) start sh lo hi ?num"
  let ?f = "\<lambda>(_ :: nat) sidx. io_bind (io_fst (openStored a (a_type a) sidx)) (\<lambda>rd.
      io_each (read_chunk_into a (a_type a) start sh sidx rd)
        (eachIndex_order (map2 max lo (timesV sidx (a_perShard a)))
           (map2 min hi (minusOne (plusV (timesV sidx (a_perShard a)) (a_perShard a))))))"
  have w: "wp (\<lambda>st. live (fst st)) (eachSpan sched (limit a (spanLen ?slo ?shi)) ?slo ?shi ?f) (s, ?out)
      (\<lambda>_. ?I {..< spanLen ?slo ?shi} {..< spanLen ?slo ?shi})
      (\<lambda>t. \<exists>C D. C \<subseteq> D \<and> D \<subseteq> {..< spanLen ?slo ?shi} \<and> ?I C D t)"
  proof (rule eachSpan_inv [OF sched(1)])
    fix n C D and u :: "'s \<times> elem list"
    assume "n < spanLen ?slo ?shi" "n \<notin> D" "C \<subseteq> D" "?I C D u"
    then show "wp (\<lambda>st. live (fst st)) (?f n (spanInto ?slo ?shi n)) u (\<lambda>_. ?I (insert n C) (insert n D)) (?I C (insert n D))"
      by (intro read_shard_step [OF ok st r rd])
  qed (use sched(2) in \<open>auto intro: read_inv_init\<close>)
  have num: "?num c \<in> {..< spanLen ?slo ?shi}" if "between lo hi c" for c
    using spanOf_bound [OF shard_range [OF ok r that]] by simp
  have fin: "contents (fst u) = contents s \<and> region_values a (contents s) start sh (snd u)"
    if "?I {..< spanLen ?slo ?shi} {..< spanLen ?slo ?shi} u" for u
    using read_inv_done [OF that r arr_grid(5) [OF ok] num] that
    by (auto simp: region_values_def read_inv_def dest: placed_length)
  obtain e u where "eachSpan sched (limit a (spanLen ?slo ?shi)) ?slo ?shi ?f (s, ?out) = (e, u)"
    by (rule prod.exhaust)
  then show ?thesis
    using wp_Inr [OF w] wp_Inl [OF w] fin [of u] br
    by (cases e) (auto simp: wp_def read_region_def Let_def read_inv_def)
qed

lemma read_region_ranges:
  assumes ok: "arr_ok env cs a" and st: "a_store a = ops" and r: "reads_region a (a_chunks a) start sh lo hi"
    and rd: "readable a (contents s)" and sched: "sched_ok sched" "\<And>s. live s \<Longrightarrow> sched_full sched"
    and br: "byRange a"
  shows "wp live (read_region sched a (a_type a) start sh lo hi) s
    (\<lambda>out t. contents t = contents s \<and> region_values a (contents s) start sh out) (\<lambda>t. contents t = contents s)"
proof -
  let ?slo = "shardOf a lo" and ?shi = "shardOf a hi" and ?out = "replicate (product_of sh) (zero_of (a_type a))"
  let ?N = "spanLen ?slo ?shi" and ?m = "contents s"
  note l = reads_regionD(3,4,6) [OF r] and g = arr_grid [OF ok]
  have ls: "length ?slo = length ?shi" using l by (simp add: shardOf_def)
  have sidx: "\<exists>c. between lo hi c \<and> shardOf a c = spanInto ?slo ?shi n" if "n < ?N" for n
    using shard_chunks(3) [OF ok r spanInto_between [OF ls that]] .
  let ?J = "\<lambda>C (D :: nat set) (u :: 's \<times> reader list). contents (fst u) = ?m \<and> length (snd u) = ?N \<and>
      (\<forall>k \<in> C. reader_ok a ?m (spanInto ?slo ?shi k) (snd u ! k))"
  let ?g = "\<lambda>n sidx. io_bind (io_fst (openStored a (a_type a) sidx)) (\<lambda>rd st. io_put (Inr ((snd st)[n := rd])) st)"
  have w1: "wp (\<lambda>st. live (fst st)) (eachSpan sched (limit a ?N) ?slo ?shi ?g) (s, replicate ?N ReadNothing)
      (\<lambda>_. ?J {..< ?N} {..< ?N}) (\<lambda>t. \<exists>C D. C \<subseteq> D \<and> D \<subseteq> {..< ?N} \<and> ?J C D t)"
  proof (rule eachSpan_inv [OF sched(1)])
    fix n C D and u :: "'s \<times> reader list"
    assume n: "n < ?N" "n \<notin> D" "C \<subseteq> D" "D \<subseteq> {..< ?N}" and J: "?J C D u"
    obtain c where c: "between lo hi c" "shardOf a c = spanInto ?slo ?shi n" using sidx [OF n(1)] by blast
    with region_sound [OF ok r rd] have so: "sound_object a (?m (storedKey a (spanInto ?slo ?shi n)))" by metis
    show "wp (\<lambda>st. live (fst st)) (?g n (spanInto ?slo ?shi n)) u (\<lambda>_. ?J (insert n C) (insert n D)) (?J C (insert n D))"
    proof (rule wp_bind, rule wp_fst, rule wp_openStored [OF ok st])
      fix rdr t assume t: "contents t = contents (fst u)" "reader_ok a (contents (fst u)) (spanInto ?slo ?shi n) rdr"
      have "?J (insert n C) (insert n D) (t, (snd u)[n := rdr])"
        using J t n by (auto simp: nth_list_update)
      then show "wp (\<lambda>st. live (fst st)) (\<lambda>st. io_put (Inr ((snd st)[n := rdr])) st) (t, snd u)
          (\<lambda>_. ?J (insert n C) (insert n D)) (?J C (insert n D))"
        by (simp add: wp_def io_put_def)
    qed (use J so in auto)
  qed (use sched(2) in auto)
  let ?I = "read_inv a contents ?m start sh lo hi (spanOf lo hi)"
  let ?f = "\<lambda>rds (_ :: nat) idx. read_chunk_into a (a_type a) start sh (shardOf a idx) (rds ! spanOf ?slo ?shi (shardOf a idx)) idx"
  have w2: "wp (\<lambda>st. live (fst st)) (eachSpan sched (limit a (spanLen lo hi)) lo hi (?f (snd u))) (fst u, ?out)
      (\<lambda>_. ?I {..< spanLen lo hi} {..< spanLen lo hi}) (\<lambda>t. \<exists>C D. C \<subseteq> D \<and> D \<subseteq> {..< spanLen lo hi} \<and> ?I C D t)"
    if J: "?J {..< ?N} {..< ?N} u" for u
  proof (rule eachSpan_inv [OF sched(1)])
    fix n C D and v :: "'s \<times> elem list"
    assume n: "n < spanLen lo hi" "n \<notin> D" "C \<subseteq> D" and I: "?I C D v"
    let ?idx = "spanInto lo hi n"
    have b: "between lo hi ?idx" using spanInto_between [OF _ n(1)] l by simp
    have num: "spanOf lo hi c = n \<longleftrightarrow> c = ?idx" if "between lo hi c" for c
      using spanInto_spanOf [OF that] spanOf_spanInto [OF _ n(1)] l by auto
    note sr = shard_range [OF ok r b]
    have ro: "reader_ok a ?m (shardOf a ?idx) (snd u ! spanOf ?slo ?shi (shardOf a ?idx))"
      using J spanOf_bound [OF sr] spanInto_spanOf [OF sr] by (metis lessThan_iff)
    have bl: "blank a start sh ((=) ?idx) (snd v)"
      using num [OF b] n(2) by (intro read_inv_blank [OF I r g(5)]) auto
    have cm: "contents (fst v) = ?m" using I by (simp add: read_inv_def)
    show "wp (\<lambda>st. live (fst st)) (?f (snd u) n ?idx) v (\<lambda>_. ?I (insert n C) (insert n D)) (?I C (insert n D))"
    proof (rule wp_read_chunk_into [OF ok st r b region_sound [OF ok r rd b] ro cm bl])
      fix t out' assume "contents t = ?m" "placed a ?m start sh ((=) ?idx) (snd v) out'"
      then show "?I (insert n C) (insert n D) (t, out')"
        using num by (intro read_inv_step [OF I, where P = "(=) ?idx" and s' = "(t, out')"]) auto
    next
      fix t assume t: "contents t = ?m"
      have p: "placed a ?m start sh (\<lambda>_. False) (snd v) (snd (t, snd v))" using bl by (simp add: placed_def blank_def)
      show "?I C (insert n D) (t, snd v)" using t by (intro read_inv_step [OF I p]) auto
    qed
  qed (use sched(2) J in \<open>auto intro: read_inv_init\<close>)
  have fin: "contents (fst u) = ?m \<and> region_values a ?m start sh (snd u)"
    if "?I {..< spanLen lo hi} {..< spanLen lo hi} u" for u
    using read_inv_done [OF that r g(5)] that spanOf_bound by (auto simp: region_values_def read_inv_def dest: placed_length)
  obtain e u where one: "eachSpan sched (limit a ?N) ?slo ?shi ?g (s, replicate ?N ReadNothing) = (e, u)"
    by (rule prod.exhaust)
  show ?thesis
  proof (cases e)
    case (Inl err)
    with one wp_Inl [OF w1] br show ?thesis by (auto simp: wp_def read_region_def Let_def)
  next
    case (Inr x)
    with one have J: "?J {..< ?N} {..< ?N} u" and lv: "live s \<longrightarrow> live (fst u)" using wp_Inr [OF w1] by auto
    obtain e2 v where v: "eachSpan sched (limit a (spanLen lo hi)) lo hi (?f (snd u)) (fst u, ?out) = (e2, v)"
      by (rule prod.exhaust)
    show ?thesis
      using one Inr v br lv wp_Inr [OF w2 [OF J]] wp_Inl [OF w2 [OF J]] fin [of v]
      by (cases e2) (auto simp: wp_def read_region_def Let_def read_inv_def)
  qed
qed

end

end
