(* ===== verification/ReadApi.thy ===== *)
theory ReadApi
  imports ReadArray
begin

text \<open>
  \<open>ReadChunk\<close> and \<open>Read\<close> (\<open>src/array.go\<close>) as a whole: what they return, and when they refuse.
\<close>

lemma elements_loop_le:
  "0 \<le> n' \<Longrightarrow> n' \<le> n \<Longrightarrow> n \<le> maxInt64 \<Longrightarrow> list_all2 (\<lambda>v V. 0 \<le> v \<and> v \<le> V) sh S \<Longrightarrow> elements_loop S n \<noteq> None \<Longrightarrow>
     elements_loop sh n' = Some (n' * prod_list sh)"
proof (induction S arbitrary: sh n n')
  case (Cons V S)
  from Cons.prems(4) obtain v sh' where sh: "sh = v # sh'" "0 \<le> v" "v \<le> V" "list_all2 (\<lambda>v V. 0 \<le> v \<and> v \<le> V) sh' S"
    by (auto simp: list_all2_Cons2)
  have V: "\<not> (0 < V \<and> n > maxInt64 div V)" "elements_loop S (wrap64 (n * V)) \<noteq> None"
    using Cons.prems(5) by (auto split: if_splits)
  have nV: "n * V \<le> maxInt64"
  proof (cases "0 < V")
    case True
    then have "n * V \<le> maxInt64 div V * V" using V(1) by (intro mult_right_mono) auto
    also have "\<dots> \<le> maxInt64" using True by (rule zdiv_mult_le)
    finally show ?thesis .
  next
    case False
    then have "V = 0" using sh(2,3) by simp
    then show ?thesis using maxInt64_nonneg by simp
  qed
  have le: "n' * v \<le> n * V" using sh Cons.prems(1,2) by (intro mult_mono) auto
  have b: "0 \<le> n' * v" "0 \<le> n * V" using sh Cons.prems(1,2) by auto
  have w: "wrap64 (n' * v) = n' * v" "wrap64 (n * V) = n * V" using b le nV by (auto intro!: wrap64_nonneg)
  have "n' \<le> maxInt64 div v" if "0 < v"
  proof -
    have "n' * v div v \<le> maxInt64 div v" using le nV that by (intro zdiv_mono1) auto
    then show ?thesis using that by simp
  qed
  then show ?case using Cons.IH [OF b(1) le nV sh(4)] V(2) sh w by (auto simp: mult.assoc)
qed simp

lemma elements_region:
  assumes ok: "arr_ok env cs a" and f: "fits st sh (a_shape a)"
  shows "elements (ints sh) = Some (int (product_of sh))"
proof -
  have "elements_loop (ints sh) 1 = Some (1 * prod_list (ints sh))"
  proof (rule elements_loop_le [of 1 1 "ints sh" "mShape (a_meta a)"])
    have "int (sh ! k) \<le> mShape (a_meta a) ! k" if "k < length (mShape (a_meta a))" for k
    proof -
      have "st ! k + sh ! k \<le> nat (mShape (a_meta a) ! k)" using f that by (simp add: fits_nth)
      moreover have "0 \<le> mShape (a_meta a) ! k" using ok that by (auto simp: arr_ok_def)
      ultimately show ?thesis by linarith
    qed
    then show "list_all2 (\<lambda>v V. 0 \<le> v \<and> v \<le> V) (ints sh) (mShape (a_meta a))"
      using f by (auto simp: list_all2_conv_all_nth fits_nth)
  qed (use ok in \<open>auto simp: arr_ok_def elements_def maxInt64_def\<close>)
  then show ?thesis by (simp add: elements_def prod_ints)
qed

text \<open>The region of a start and a shape that are given, within the array.\<close>

lemma region_within:
  assumes f: "fits st sh (a_shape a)" and S: "\<forall>v \<in> set (mShape (a_meta a)). 0 \<le> v"
  shows "\<exists>lo hi. region a (Some (ints st)) (Some (ints sh)) cell = Inr (st, sh, lo, hi, 0 \<in> set sh)"
proof -
  have "\<not> (int (st ! k) < 0 \<or> int (sh ! k) < 0 \<or> int (st ! k) > mShape (a_meta a) ! k \<or>
      int (sh ! k) > mShape (a_meta a) ! k - int (st ! k))" if "k < length (mShape (a_meta a))" for k
  proof -
    have "st ! k + sh ! k \<le> nat (mShape (a_meta a) ! k)" "0 \<le> mShape (a_meta a) ! k"
      using f S that by (auto simp: fits_nth)
    then show ?thesis by linarith
  qed
  then have "list_all2 (\<lambda>m (s, n). \<not> (s < 0 \<or> n < 0 \<or> s > m \<or> n > m - s)) (mShape (a_meta a)) (zip (ints st) (ints sh))"
    using f by (auto simp: list_all2_conv_all_nth fits_nth)
  then show ?thesis using f by (simp add: region_def fits_nth o_def)
qed

text \<open>A region that is not within the array is refused.\<close>

lemma region_refused:
  assumes "\<not> (length st = length (mShape (a_meta a)) \<and> length sh = length (mShape (a_meta a)) \<and>
      (\<forall>k < length (mShape (a_meta a)). 0 \<le> st ! k \<and> 0 \<le> sh ! k \<and> st ! k + sh ! k \<le> mShape (a_meta a) ! k))"
  shows "\<exists>e. region a (Some st) (Some sh) cell = Inl (ErrOther e)"
proof (cases "length st = length (mShape (a_meta a)) \<and> length sh = length (mShape (a_meta a))")
  case True
  with assms obtain k where k: "k < length (mShape (a_meta a))"
    "\<not> (0 \<le> st ! k \<and> 0 \<le> sh ! k \<and> st ! k + sh ! k \<le> mShape (a_meta a) ! k)" by blast
  have "\<not> list_all2 (\<lambda>m (s, n). \<not> (s < 0 \<or> n < 0 \<or> s > m \<or> n > m - s)) (mShape (a_meta a)) (zip st sh)"
  proof
    assume "list_all2 (\<lambda>m (s, n). \<not> (s < 0 \<or> n < 0 \<or> s > m \<or> n > m - s)) (mShape (a_meta a)) (zip st sh)"
    from list_all2_nthD [OF this k(1)] k True show False by auto
  qed
  then show ?thesis using True by (simp add: region_def)
qed (auto simp: region_def)

text \<open>The first element of a chunk is within the array.\<close>

lemma chunk_start_inside:
  assumes ok: "arr_ok env cs a" and idx: "inside idx (numChunks a)"
  shows "inside (timesV idx (a_chunks a)) (a_shape a)"
proof -
  note g = arr_grid(2,5) [OF ok]
  have li: "length idx = length (mShape (a_meta a))" using list_all2_lengthD [OF idx] g by (simp add: numChunks_def)
  have "idx ! k * a_chunks a ! k < a_shape a ! k" if k: "k < length (mShape (a_meta a))" for k
  proof -
    let ?s = "a_shape a ! k" and ?c = "a_chunks a ! k"
    have c: "0 < ?c" using g k by simp
    have "idx ! k < ?s div ?c + (if ?s mod ?c \<noteq> 0 then 1 else 0)"
      using idx k g li by (auto simp: numChunks_def list_all2_conv_all_nth)
    then have "idx ! k < ?s div ?c \<or> (?s mod ?c \<noteq> 0 \<and> idx ! k \<le> ?s div ?c)" by (auto split: if_splits)
    then have "idx ! k * ?c < ?s div ?c * ?c \<or> (0 < ?s mod ?c \<and> idx ! k * ?c \<le> ?s div ?c * ?c)"
      using c by auto
    then show ?thesis using div_mult_mod_eq [of ?s ?c] by linarith
  qed
  then show ?thesis using li g by (simp add: list_all2_conv_all_nth)
qed

context store_reads
begin

lemma wp_chunk:
  assumes ok: "arr_ok env cs a" and st: "a_store a = ops" and idx: "length idx = length (mShape (a_meta a))"
    and so: "sound_object a (contents s (storedKey a (shardOf a idx)))"
  shows "wp live (io_bind (openStored a (a_type a) (shardOf a idx)) (\<lambda>rd.
      io_bind (readChunkOf a (a_type a) (shardOf a idx) rd (minusV idx (timesV (shardOf a idx) (a_perShard a)))) (\<lambda>v.
         io_lift (viewChunk a v)))) s
    (\<lambda>x t. contents t = contents s \<and> x = chunk_at a (contents s) idx) (\<lambda>t. contents t = contents s)"
proof (rule wp_bind, rule wp_openStored [OF ok st so])
  fix rd t assume t: "contents t = contents s" and ro: "reader_ok a (contents s) (shardOf a idx) rd"
  show "wp live (io_bind (readChunkOf a (a_type a) (shardOf a idx) rd (minusV idx (timesV (shardOf a idx) (a_perShard a)))) (\<lambda>v.
         io_lift (viewChunk a v))) t
    (\<lambda>x t. contents t = contents s \<and> x = chunk_at a (contents s) idx) (\<lambda>t. contents t = contents s)"
  proof (rule wp_bind, rule wp_readChunkOf [OF ok st idx])
    fix v u assume u: "contents u = contents t" and v: "shows_chunk a (chunk_at a (contents t) idx) v"
    show "wp live (io_lift (viewChunk a v)) u
      (\<lambda>x t. contents t = contents s \<and> x = chunk_at a (contents s) idx) (\<lambda>t. contents t = contents s)"
      using viewChunk_shows [OF v _ arr_grid(5) [OF ok]] t u by (intro wp_lift) auto
  qed (use so ro t in auto)
qed simp

lemma readChunk_correct:
  assumes ok: "arr_ok env cs a" and st: "a_store a = ops" and rd: "readable a (contents s)" and idx: "inside idx (numChunks a)"
  shows "wp live (readChunk a (a_type a) (ints idx)) s
    (\<lambda>x t. contents t = contents s \<and> x = chunk_at a (contents s) idx) (\<lambda>t. contents t = contents s)"
proof -
  note g = arr_grid(2,5) [OF ok]
  have li: "length idx = length (mShape (a_meta a))" using list_all2_lengthD [OF idx] g by (simp add: numChunks_def)
  have "inside (timesV idx (a_chunks a)) (a_shape a)" by (rule chunk_start_inside [OF ok idx])
  then have so: "sound_object a (contents s (storedKey a (shardOf a idx)))"
    using li g by (intro chunk_sound [OF ok _ _ rd]) simp_all
  have cc: "checkChunk a (ints idx) = Inr idx"
    using idx by (auto simp: checkChunk_def list_all2_conv_all_nth o_def)
  show ?thesis
    unfolding readChunk_def using wp_chunk [OF ok st li so] cc by (simp add: checkType_def Let_def)
qed

lemma region_reads:
  assumes ok: "arr_ok env cs a" and r: "region a start shape cell = Inr (st, sh, lo, hi, emp)"
    and c: "length cell = length (mShape (a_meta a))"
  shows "fits st sh (a_shape a)" "emp \<longleftrightarrow> 0 \<in> set sh" "\<not> emp \<Longrightarrow> reads_region a cell st sh lo hi"
  using region_Inr [OF r _ c] ok by (auto simp: reads_region_def arr_ok_def intro: gr0I)

text \<open>The result of \<open>Read\<close>, for a region that may be held in memory.\<close>

lemma read_correct:
  assumes ok: "arr_ok env cs a" and st: "a_store a = ops" and rd: "readable a (contents s)"
    and sched: "sched_ok sched" "\<And>s. live s \<Longrightarrow> sched_full sched"
    and r: "region a start shape (a_chunks a) = Inr (sa, sh, lo, hi, emp)"
    and fit: "int (product_of sh) \<le> maxInt64 div int (dsize (a_type a))"
  shows "wp live (arr_read sched a (a_type a) start shape) s
    (\<lambda>out t. contents t = contents s \<and> region_values a (contents s) sa sh out) (\<lambda>t. contents t = contents s)"
proof -
  note g = arr_grid [OF ok]
  note f = region_reads [OF ok r g(2)]
  have el: "elements (ints sh) = Some (int (product_of sh))" by (rule elements_region [OF ok f(1)])
  note simps = arr_read_def checkType_def r el Let_def
  show ?thesis
  proof (cases emp)
    case True
    then have "product_of sh = 0" "\<not> inside o' sh" for o'
      using f(2) by (auto simp: product_of_eq prod_list_zero_iff list_all2_conv_all_nth in_set_conv_nth)
    then show ?thesis using True fit by (simp add: simps wp_def region_values_def)
  next
    case False
    note rr = f(3) [OF False]
    obtain at n whole where o: "overlap a lo sa sh (a_chunks a) = (at, n, whole)" by (metis prod.exhaust)
    show ?thesis
    proof (cases "spanLen lo hi = 1 \<and> whole \<and> n = a_chunks a")
      case True
      have b: "between lo hi lo" using between_lo reads_regionD(6) [OF rr] by blast
      have li: "length lo = length (mShape (a_meta a))" using reads_regionD(3) [OF rr] g(2) by simp
      from rr have cr: "cell_range sa sh (a_chunks a) lo hi" "\<forall>v \<in> set sh. 0 < v" "fits sa sh (a_shape a)"
        by (auto simp: reads_region_def)
      note ov = overlap_spec [OF o cr g(5) b]
      have lohi: "c = lo" if "between lo hi c" for c
      proof -
        have "spanOf lo hi c = 0" "spanOf lo hi lo = 0"
          using spanOf_bound [OF that] spanOf_bound [OF b] True by auto
        then show ?thesis using spanInto_spanOf [OF that] spanInto_spanOf [OF b] by metis
      qed
      have ll: "length sa = length (a_chunks a)" "length sh = length (a_chunks a)" using reads_regionD [OF rr] by auto
      have eq: "at = timesV lo (a_chunks a)" using ov(9) True by blast
      have "sh = a_chunks a \<and> sa = timesV lo (a_chunks a)"
      proof -
        have "sa ! k = lo ! k * a_chunks a ! k \<and> sh ! k = a_chunks a ! k" if k: "k < length (a_chunks a)" for k
        proof -
          have c: "0 < a_chunks a ! k" "0 < sh ! k" using g(5) cr(2) k ll by auto
          define A B C L where "A = sa ! k" and "B = sh ! k" and "C = a_chunks a ! k" and "L = lo ! k * a_chunks a ! k"
          have "between lo hi hi" using reads_regionD(6) [OF rr] by (auto simp: between_nth list_all2_conv_all_nth)
          then have "hi = lo" using lohi by blast
          then have "A div C = lo ! k" "(A + B - 1) div C = lo ! k"
            using cr(1) k by (auto simp: cell_range_def A_def B_def C_def)
          then have "L \<le> A" "A + B - 1 < L + C"
            using div_times_less_eq_dividend [of A C] dividend_less_div_times [of C "A + B - 1"] c
            by (auto simp: L_def C_def algebra_simps)
          moreover have "A \<le> L" "L + C \<le> A + B"
            using ov(1,7) True k ll ov(5) eq li g(2) by (auto simp: fits_nth A_def B_def C_def L_def)
          ultimately have "A = L \<and> B = C" using c by (auto simp: B_def)
          then show ?thesis by (simp add: A_def B_def C_def L_def)
        qed
        then show ?thesis using ll li g(2) by (auto intro!: nth_equalityI)
      qed
      then have "region_values a (contents s) sa sh (chunk_at a (contents s) lo)"
        using chunk_at_nth [of _ a "contents s" lo] by (auto simp: region_values_def)
      then show ?thesis
        using wp_mono [OF wp_chunk [OF ok st li region_sound [OF ok rr rd b]], where R' = "\<lambda>t. contents t = contents s"]
          True False fit o by (simp add: simps)
    next
      case not_whole: False
      then have "wp live (read_region sched a (a_type a) sa sh lo hi) s
          (\<lambda>out t. contents t = contents s \<and> region_values a (contents s) sa sh out) (\<lambda>t. contents t = contents s)"
        using read_region_whole [OF ok st rr rd sched(1)] read_region_ranges [OF ok st rr rd sched(1)] sched(2) by blast
      with not_whole False fit o show ?thesis by (auto simp: simps)
    qed
  qed
qed

end

end
