(* ===== verification/Writes.thy ===== *)
theory Writes
  imports ReadApi
begin

text \<open>
  Writing stored objects (\<open>writeStored\<close> and \<open>patchShard\<close> of \<open>src/array.go\<close>): what is written is
  what is read back. A stored object as long as 2^63 bytes does not exist; what is said of an
  object that was written is said if it is shorter.
\<close>

text \<open>An element of the value asked for; one past the end of the array may also be the fill value.\<close>

definition alike :: "'s arr \<Rightarrow> vec \<Rightarrow> elem \<Rightarrow> elem \<Rightarrow> bool" where
  "alike a e x y \<longleftrightarrow> veq x y \<or> (\<not> inside e (a_shape a) \<and> veq x (a_fill a))"

lemma alike_refl [simp]: "alike a e x x"
  by (simp add: alike_def)

lemma alike_trans: "veq x y \<Longrightarrow> alike a e y z \<Longrightarrow> alike a e x z"
  by (auto simp: alike_def intro: veq_trans)

lemma alike_inside: "alike a e x y \<Longrightarrow> inside e (a_shape a) \<Longrightarrow> veq x y"
  by (simp add: alike_def)

definition short :: "bytes option \<Rightarrow> bool" where
  "short bo \<longleftrightarrow> (\<forall>b. bo = Some b \<longrightarrow> length b < 2 ^ 63)"

lemma short_simps [simp]: "short None" "short (Some b) \<longleftrightarrow> length b < 2 ^ 63"
  by (auto simp: short_def)

text \<open>The stored object of the cell \<open>sidx\<close> holds the elements \<open>f\<close>.\<close>

definition cell_holds :: "'s arr \<Rightarrow> vec \<Rightarrow> bytes option \<Rightarrow> (vec \<Rightarrow> elem) \<Rightarrow> bool" where
  "cell_holds a sidx bo f \<longleftrightarrow> (short bo \<longrightarrow>
     (\<exists>v. content a bo = Inr v \<and>
        (\<forall>o'. inside o' (a_grid a) \<longrightarrow>
           alike a (plusV (timesV sidx (a_grid a)) o') (v ! lin (a_grid a) o') (f (plusV (timesV sidx (a_grid a)) o')))))"

text \<open>The bytes of a chunk of a shard, the chunk \<open>idx\<close> of the array, hold the elements \<open>f\<close>.\<close>

definition chunk_holds :: "'s arr \<Rightarrow> shard \<Rightarrow> vec \<Rightarrow> bytes option \<Rightarrow> (vec \<Rightarrow> elem) \<Rightarrow> bool" where
  "chunk_holds a sd idx c f \<longleftrightarrow> (short c \<longrightarrow>
     (\<exists>x. part sd (storedSpec a) c = Inr x \<and>
        (\<forall>o'. inside o' (a_chunks a) \<longrightarrow>
           alike a (plusV (timesV idx (a_chunks a)) o') (x ! lin (a_chunks a) o') (f (plusV (timesV idx (a_chunks a)) o')))))"

lemma storedSpec_simps [simp]:
  "spShape (storedSpec a) = a_grid a" "spType (storedSpec a) = a_type a" "spFill (storedSpec a) = a_fill a"
  "spKeep (storedSpec a) = a_writeEmpty a"
  by (simp_all add: storedSpec_def)

lemma innerSpec_simps [simp]:
  "spShape (innerSpec s spec) = chunkShape s" "spType (innerSpec s spec) = spType spec" "spFill (innerSpec s spec) = spFill spec"
  by (simp_all add: innerSpec_def)

lemma storedKey_inj: "arr_ok env cs a \<Longrightarrow> length i = length j \<Longrightarrow> storedKey a i = storedKey a j \<Longrightarrow> i = j"
  unfolding storedKey_def by (auto simp: arr_ok_def dest!: join_path_inj intro: enc_key_inj)

text \<open>What \<open>fillPast\<close> leaves of elements that are as asked for.\<close>

lemma fillPast_alike:
  assumes len: "length origin = length shape" "length (mShape (a_meta a)) = length shape" and l: "length data = product_of shape"
    and t: "\<forall>x \<in> set data. type_of x = a_type a" "type_of (a_fill a) = a_type a"
    and f: "\<And>o'. inside o' shape \<Longrightarrow> alike a (plusV origin o') (data ! lin shape o') (f (plusV origin o'))"
  shows "\<exists>r. fillPast a origin shape data = Inr r \<and> length r = product_of shape \<and> (\<forall>x \<in> set r. type_of x = a_type a) \<and>
    (\<forall>o'. inside o' shape \<longrightarrow> alike a (plusV origin o') (r ! lin shape o') (f (plusV origin o')))"
proof -
  obtain r where r: "fillPast a origin shape data = Inr r" "length r = product_of shape"
    "\<And>o'. inside o' shape \<Longrightarrow> r ! lin shape o' = (if inside (plusV origin o') (a_shape a) then data ! lin shape o' else fill_elem (a_fill a))"
    using fillPast_spec [OF len(1) _ l, of a] len(2) by auto
  moreover have "\<forall>x \<in> set r. type_of x = a_type a" by (rule fillPast_types [OF r(1) t(2,1)])
  moreover have "alike a (plusV origin o') (r ! lin shape o') (f (plusV origin o'))" if "inside o' shape" for o'
    using r(3) [OF that] f [OF that] fill_elem_veq [of "a_fill a"] by (auto simp: alike_def)
  ultimately show ?thesis by blast
qed

lemma allFill_alike:
  assumes "allFill r (a_fill a)" "\<forall>x \<in> set r. type_of x = a_type a" "type_of (a_fill a) = a_type a" "i < length r"
    and "alike a e (r ! i) y"
  shows "alike a e (fill_elem (a_fill a)) y"
proof -
  have "veq (r ! i) (a_fill a)" using assms by (simp add: allFill_iff)
  then have "veq (fill_elem (a_fill a)) (r ! i)" using fill_elem_veq [of "a_fill a"] by (metis veq_sym veq_trans)
  then show ?thesis using assms(5) by (rule alike_trans)
qed

context store_laws
begin

lemma wp_writeStored:
  assumes ok: "arr_ok env cs a" and st: "a_store a = ops" and si: "length sidx = length (mShape (a_meta a))"
    and d: "length data = product_of (a_grid a)" "\<forall>x \<in> set data. type_of x = a_type a"
    and f: "\<And>o'. inside o' (a_grid a) \<Longrightarrow>
       alike a (plusV (timesV sidx (a_grid a)) o') (data ! lin (a_grid a) o') (f (plusV (timesV sidx (a_grid a)) o'))"
    and Q: "\<And>t bo. contents t = (contents s)(storedKey a sidx := bo) \<Longrightarrow> cell_holds a sidx bo f \<Longrightarrow> Q () t"
    and R: "\<And>t. contents t = contents s \<Longrightarrow> R t"
  shows "wp live (writeStored a sidx data) s Q R"
proof -
  note g = arr_grid [OF ok]
  have len: "length (timesV sidx (a_grid a)) = length (a_grid a)" using si g(1) by simp
  obtain r where r: "fillPastEnd a sidx data = Inr r" "length r = product_of (a_grid a)" "\<forall>x \<in> set r. type_of x = a_type a"
    "\<And>o'. inside o' (a_grid a) \<Longrightarrow> alike a (plusV (timesV sidx (a_grid a)) o') (r ! lin (a_grid a) o') (f (plusV (timesV sidx (a_grid a)) o'))"
    unfolding fillPastEnd_def using fillPast_alike [OF len g(1) [symmetric] d g(8) f] by blast
  have cok: "codecs_ok env cs (a_codecs a) (storedSpec a)" using ok by (simp add: arr_ok_def)
  show ?thesis
    unfolding writeStored_def r(1)
  proof (rule wp_lift_bind [OF refl])
    show "wp live (if \<not> a_writeEmpty a \<and> allFill r (a_fill a) then st_delete (a_store a) (storedKey a sidx)
       else io_bind (io_lift (pipe_encode (a_codecs a) (Slice (a_type a) r) (storedSpec a))) (\<lambda>b.
           st_set (a_store a) (storedKey a sidx) b)) s Q R"
    proof (cases "\<not> a_writeEmpty a \<and> allFill r (a_fill a)")
      case True
      have "alike a (plusV (timesV sidx (a_grid a)) o') (fill_elem (a_fill a)) (f (plusV (timesV sidx (a_grid a)) o'))"
        if "inside o' (a_grid a)" for o'
        using allFill_alike [OF _ r(3) g(8) _ r(4) [OF that]] lin_bound [OF that] r(2) True by simp
      then have "cell_holds a sidx None f"
        using lin_bound by (auto simp: cell_holds_def content_def filled_replicate)
      then have "wp live (st_delete ops (storedKey a sidx)) s Q R"
        using Q R by (intro wp_delete) auto
      with True show ?thesis by (simp add: st)
    next
      case False
      have c: "chunk_of (storedSpec a) (Slice (a_type a) r)"
        using r(2,3) g(9) by (simp add: chunk_of_def wt_slice_def)
      obtain b where b: "pipe_encode (a_codecs a) (Slice (a_type a) r) (storedSpec a) = Inr b"
        using pipelines.encode_total [OF cok c] by blast
      have "cell_holds a sidx (Some b) f"
        unfolding cell_holds_def
      proof (intro impI)
        assume "short (Some b)"
        then obtain c' where c': "pipe_decode (a_codecs a) b (storedSpec a) = Inr c'" "veqs (elems c') r"
          using pipelines.decode_encode [OF cok c b] by auto
        have "chunk_of (storedSpec a) c'" by (rule pipelines.decode_typed [OF cok c'(1)])
        then have "content a (Some b) = Inr (elems c')" using c'(1) by (simp add: content_def asChunk_Inr chunk_of_def)
        moreover have "alike a (plusV (timesV sidx (a_grid a)) o') (elems c' ! lin (a_grid a) o') (f (plusV (timesV sidx (a_grid a)) o'))"
          if "inside o' (a_grid a)" for o'
          using alike_trans [OF _ r(4) [OF that]] c'(2) lin_bound [OF that] r(2) by (auto simp: veqs_nth)
        ultimately show "\<exists>v. content a (Some b) = Inr v \<and> (\<forall>o'. inside o' (a_grid a) \<longrightarrow>
           alike a (plusV (timesV sidx (a_grid a)) o') (v ! lin (a_grid a) o') (f (plusV (timesV sidx (a_grid a)) o')))"
          by blast
      qed
      then have "wp live (st_set ops (storedKey a sidx) b) s Q R"
        using Q R storedKey_valid [OF ok] by (intro wp_set) auto
      with False b show ?thesis by (auto simp: st)
    qed
  qed
qed

end

section \<open>Patching the chunks of a shard\<close>

text \<open>What \<open>patchShard\<close> needs of the function that makes the new elements of a chunk, \<open>old\<close> being
  the elements of the stored object.\<close>

definition patches :: "'s arr \<Rightarrow> (vec \<Rightarrow> elem list res \<Rightarrow> elem list res) \<Rightarrow> vec \<Rightarrow> elem list \<Rightarrow> (vec \<Rightarrow> elem) \<Rightarrow> bool" where
  "patches a patch idx old f \<longleftrightarrow>
     (\<forall>x. length x = product_of (a_chunks a) \<longrightarrow> (\<forall>e \<in> set x. type_of e = a_type a) \<longrightarrow>
        (\<forall>o'. inside o' (a_chunks a) \<longrightarrow>
           x ! lin (a_chunks a) o' = old ! lin (a_grid a) (plusV (timesV (modV idx (a_perShard a)) (a_chunks a)) o')) \<longrightarrow>
        (\<exists>buf. patch idx (Inr x) = Inr buf \<and> length buf = product_of (a_chunks a) \<and> (\<forall>e \<in> set buf. type_of e = a_type a) \<and>
           (\<forall>o'. inside o' (a_chunks a) \<longrightarrow>
              alike a (plusV (timesV idx (a_chunks a)) o') (buf ! lin (a_chunks a) o') (f (plusV (timesV idx (a_chunks a)) o')))))"

lemma chunk_place:
  assumes ok: "arr_ok env cs a" and si: "length idx = length (mShape (a_meta a))"
  shows "minusV idx (timesV (shardOf a idx) (a_perShard a)) = modV idx (a_perShard a)"
    "inside (modV idx (a_perShard a)) (a_perShard a)"
    "local_index (a_perShard a) (modV idx (a_perShard a)) = lin (a_perShard a) (modV idx (a_perShard a))"
proof -
  have g: "length (a_perShard a) = length idx" "positive (a_perShard a)" using arr_grid [OF ok] si by auto
  show "minusV idx (timesV (shardOf a idx) (a_perShard a)) = modV idx (a_perShard a)"
    unfolding shardOf_def using g by (intro tile_offset) auto
  show "inside (modV idx (a_perShard a)) (a_perShard a)" using g by (intro modV_inside) auto
  show "local_index (a_perShard a) (modV idx (a_perShard a)) = lin (a_perShard a) (modV idx (a_perShard a))"
    using g by (intro local_index_eq) simp
qed

lemma patch_step_spec:
  assumes ok: "arr_ok env cs a" and sh: "a_shard a = Some sd" and pb: "pbytes (a_codecs a) = []"
    and idx: "length idx = length (mShape (a_meta a))"
    and p: "parts sd (storedSpec a) (a_perShard a) chunks0 old" and lc: "length chunks = product_of (a_perShard a)"
    and same: "chunks ! lin (a_perShard a) (modV idx (a_perShard a)) = chunks0 ! lin (a_perShard a) (modV idx (a_perShard a))"
    and pat: "patches a patch idx old f"
  shows "\<exists>c. patch_step a sd (a_type a) (shardOf a idx) patch idx chunks =
      Inr (chunks[lin (a_perShard a) (modV idx (a_perShard a)) := c]) \<and> chunk_holds a sd idx c f"
proof -
  let ?k = "lin (a_perShard a) (modV idx (a_perShard a))" and ?spec = "storedSpec a"
  note g = arr_grid [OF ok] and pl = chunk_place [OF ok idx] and sf = arr_shard_fields [OF ok sh]
  obtain iok iok' where sd: "sharding sd iok iok'" "iok' (innerSpec sd ?spec)" using arr_sharding [OF ok sh] by blast
  have in': "array_codec (innerEnc sd) (innerDec sd) iok'" using sd(1) by (simp add: sharding_def)
  have k: "?k < product_of (a_perShard a)" using lin_bound [OF pl(2)] .
  from p k obtain x where x: "part sd ?spec (chunks0 ! ?k) = Inr x" by (auto simp: parts_def)
  have lx: "length x = product_of (a_chunks a)" using part_length [OF x] sf(1) by simp
  have tx: "\<forall>e \<in> set x. type_of e = a_type a"
  proof (cases "chunks0 ! ?k")
    case None
    then show ?thesis using x g(8) filled_type by fastforce
  next
    case (Some b)
    with x obtain v where v: "innerDec sd b (innerSpec sd ?spec) = Inr v" "x = elems v" by auto
    have "chunk_of (innerSpec sd ?spec) v" by (rule array_codec.decode_typed [OF in' sd(2) v(1)])
    then show ?thesis using v(2) by (simp add: chunk_of_def wt_slice_def)
  qed
  have ox: "x ! lin (a_chunks a) o' = old ! lin (a_grid a) (plusV (timesV (modV idx (a_perShard a)) (a_chunks a)) o')"
    if "inside o' (a_chunks a)" for o'
  proof -
    let ?e = "plusV (timesV (modV idx (a_perShard a)) (a_chunks a)) o'"
    have "inside ?e (a_grid a)" "divV ?e (a_chunks a) = modV idx (a_perShard a)" "modV ?e (a_chunks a) = o'"
      using chunk_element [OF ok idx that] by auto
    with p x sf(1) show ?thesis by (auto simp: parts_def)
  qed
  from pat lx tx ox obtain buf where buf: "patch idx (Inr x) = Inr buf" "length buf = product_of (a_chunks a)"
    "\<forall>e \<in> set buf. type_of e = a_type a"
    "\<And>o'. inside o' (a_chunks a) \<Longrightarrow>
       alike a (plusV (timesV idx (a_chunks a)) o') (buf ! lin (a_chunks a) o') (f (plusV (timesV idx (a_chunks a)) o'))"
    unfolding patches_def by blast
  have len: "length (timesV idx (a_chunks a)) = length (a_chunks a)" using idx g(2) by simp
  obtain r where r: "fillPast a (timesV idx (a_chunks a)) (a_chunks a) buf = Inr r" "length r = product_of (a_chunks a)"
    "\<forall>x \<in> set r. type_of x = a_type a"
    "\<And>o'. inside o' (a_chunks a) \<Longrightarrow>
       alike a (plusV (timesV idx (a_chunks a)) o') (r ! lin (a_chunks a) o') (f (plusV (timesV idx (a_chunks a)) o'))"
    using fillPast_alike [OF len g(2) [symmetric] buf(2,3) g(8) buf(4)] by blast
  have old: "(case chunks ! ?k of None \<Rightarrow> Inr (filled (product_of (a_chunks a)) (a_fill a))
      | Some b \<Rightarrow> rbind (innerDec sd b (innerSpec sd ?spec)) (\<lambda>v. asChunk (a_type a) v (product_of (a_chunks a)))) = Inr x"
    using x same sf(1) by (cases "chunks0 ! ?k") (auto simp: asChunk_Inr)
  have step: "patch_step a sd (a_type a) (shardOf a idx) patch idx chunks =
      (if \<not> a_writeEmpty a \<and> allFill r (a_fill a) then Inr (chunks[?k := None])
       else rbind (encodeChunk sd (Slice (a_type a) r) ?spec) (\<lambda>b. Inr (chunks[?k := Some b])))"
    using k lc by (simp add: patch_step_def Let_def pl old buf(1) r(1))
  show ?thesis
  proof (cases "\<not> a_writeEmpty a \<and> allFill r (a_fill a)")
    case True
    have "alike a (plusV (timesV idx (a_chunks a)) o') (fill_elem (a_fill a)) (f (plusV (timesV idx (a_chunks a)) o'))"
      if "inside o' (a_chunks a)" for o'
      using allFill_alike [OF _ r(3) g(8) _ r(4) [OF that]] lin_bound [OF that] r(2) True by simp
    then have "chunk_holds a sd idx None f"
      using lin_bound sf(1) by (auto simp: chunk_holds_def filled_replicate)
    with step True show ?thesis by auto
  next
    case False
    have c: "chunk_of (innerSpec sd ?spec) (Slice (a_type a) r)"
      using r(2,3) g(9) sf(1) by (simp add: chunk_of_def wt_slice_def)
    obtain b where b: "innerEnc sd (Slice (a_type a) r) (innerSpec sd ?spec) = Inr b"
      using array_codec.encode_total [OF in' sd(2) c] by blast
    have "chunk_holds a sd idx (Some b) f"
      unfolding chunk_holds_def
    proof (intro impI)
      assume "short (Some b)"
      then obtain c' where c': "innerDec sd b (innerSpec sd ?spec) = Inr c'" "veqs (elems c') r"
        using array_codec.decode_encode [OF in' sd(2) c b] by auto
      have "chunk_of (innerSpec sd ?spec) c'" by (rule array_codec.decode_typed [OF in' sd(2) c'(1)])
      then have "part sd ?spec (Some b) = Inr (elems c')" using c'(1) by (simp add: chunk_of_def)
      moreover have "alike a (plusV (timesV idx (a_chunks a)) o') (elems c' ! lin (a_chunks a) o') (f (plusV (timesV idx (a_chunks a)) o'))"
        if "inside o' (a_chunks a)" for o'
        using alike_trans [OF _ r(4) [OF that]] c'(2) lin_bound [OF that] r(2) by (auto simp: veqs_nth)
      ultimately show "\<exists>x. part sd ?spec (Some b) = Inr x \<and> (\<forall>o'. inside o' (a_chunks a) \<longrightarrow>
           alike a (plusV (timesV idx (a_chunks a)) o') (x ! lin (a_chunks a) o') (f (plusV (timesV idx (a_chunks a)) o')))"
        by blast
    qed
    with step False b show ?thesis by (auto simp: encodeChunk_def)
  qed
qed

end
