(* ===== verification/Patches.thy ===== *)
theory Patches
  imports Writes
begin

text \<open>
  \<open>patchShard\<close> of \<open>src/array.go\<close> as a whole: the chunks it is called for hold what its function
  makes of them, the other chunks of the stored object what they held.
\<close>

lemma cell_chunk:
  assumes ok: "arr_ok env cs a" and si: "length sidx = length (mShape (a_meta a))" and o': "inside o' (a_grid a)"
  defines "idx \<equiv> plusV (timesV sidx (a_perShard a)) (divV o' (a_chunks a))"
  shows "length idx = length (mShape (a_meta a))" "shardOf a idx = sidx" "modV idx (a_perShard a) = divV o' (a_chunks a)"
    "inside (divV o' (a_chunks a)) (a_perShard a)" "inside (modV o' (a_chunks a)) (a_chunks a)"
    "plusV (timesV idx (a_chunks a)) (modV o' (a_chunks a)) = plusV (timesV sidx (a_grid a)) o'"
proof -
  note g = arr_grid(1-6) [OF ok] and gt = arr_grid(7) [OF ok]
  have lo: "length o' = length (mShape (a_meta a))" using list_all2_lengthD [OF o'] g by simp
  have k: "0 < a_chunks a ! k" "0 < a_perShard a ! k" "o' ! k < a_perShard a ! k * a_chunks a ! k"
    "a_grid a ! k = a_perShard a ! k * a_chunks a ! k" if "k < length (mShape (a_meta a))" for k
  proof -
    show gk: "a_grid a ! k = a_perShard a ! k * a_chunks a ! k" using that g(2,3) by (subst gt) simp
    have "o' ! k < a_grid a ! k" using o' that lo by (simp add: list_all2_conv_all_nth)
    with gk show "o' ! k < a_perShard a ! k * a_chunks a ! k" by simp
  qed (use that g in auto)
  show li: "length idx = length (mShape (a_meta a))" using si g(2,3) lo by (simp add: idx_def)
  have d: "o' ! k div a_chunks a ! k < a_perShard a ! k" if "k < length (mShape (a_meta a))" for k
    using k [OF that] by (simp add: less_mult_imp_div_less)
  have nth: "idx ! k = sidx ! k * a_perShard a ! k + o' ! k div a_chunks a ! k" if "k < length (mShape (a_meta a))" for k
    using that si g(2,3) lo by (simp add: idx_def)
  show "shardOf a idx = sidx"
    unfolding shardOf_def using li si g(3) nth d by (intro nth_equalityI) (auto intro!: div_nat_eqI simp: algebra_simps)
  show "modV idx (a_perShard a) = divV o' (a_chunks a)"
    using li g(2,3) nth d lo by (intro nth_equalityI) auto
  show "inside (divV o' (a_chunks a)) (a_perShard a)"
    using d lo g(2,3) by (simp add: list_all2_conv_all_nth)
  show "inside (modV o' (a_chunks a)) (a_chunks a)" using lo g by (intro modV_inside) auto
  show "plusV (timesV idx (a_chunks a)) (modV o' (a_chunks a)) = plusV (timesV sidx (a_grid a)) o'"
  proof (rule nth_equalityI)
    fix j assume "j < length (plusV (timesV idx (a_chunks a)) (modV o' (a_chunks a)))"
    then have j: "j < length (mShape (a_meta a))" using li g(2) lo by simp
    have "(sidx ! j * a_perShard a ! j + o' ! j div a_chunks a ! j) * a_chunks a ! j + o' ! j mod a_chunks a ! j =
        sidx ! j * (a_perShard a ! j * a_chunks a ! j) + (o' ! j div a_chunks a ! j * a_chunks a ! j + o' ! j mod a_chunks a ! j)"
      by (simp add: algebra_simps)
    then show "plusV (timesV idx (a_chunks a)) (modV o' (a_chunks a)) ! j = plusV (timesV sidx (a_grid a)) o' ! j"
      using j li g(1,2) lo si nth k(4) by (simp add: div_mult_mod_eq)
  qed (use li g(1,2) lo si in simp)
qed

lemma place_inj:
  assumes ok: "arr_ok env cs a" and i: "length i = length (mShape (a_meta a))" and j: "length j = length (mShape (a_meta a))"
    and s: "shardOf a i = shardOf a j" and l: "lin (a_perShard a) (modV i (a_perShard a)) = lin (a_perShard a) (modV j (a_perShard a))"
  shows "i = j"
proof -
  have "modV i (a_perShard a) = modV j (a_perShard a)"
    using lin_inj [OF chunk_place(2) [OF ok i] chunk_place(2) [OF ok j] l] .
  moreover have "length i = length (a_perShard a)" "length j = length (a_perShard a)" using i j arr_grid(3) [OF ok] by auto
  ultimately show ?thesis using s [unfolded shardOf_def] tile_index by metis
qed

lemma patch_fold:
  assumes ok: "arr_ok env cs a" and sh: "a_shard a = Some sd" and pb: "pbytes (a_codecs a) = []"
    and p: "parts sd (storedSpec a) (a_perShard a) chunks0 old"
  defines "K \<equiv> \<lambda>idx. lin (a_perShard a) (modV idx (a_perShard a))"
  shows "distinct ls \<Longrightarrow> length chunks = product_of (a_perShard a) \<Longrightarrow>
    \<forall>idx \<in> set ls. shardOf a idx = sidx \<and> length idx = length (mShape (a_meta a)) \<and> patches a patch idx old f \<and>
      chunks ! K idx = chunks0 ! K idx \<Longrightarrow>
    \<exists>chunks'. rfold (patch_step a sd (a_type a) sidx patch) ls chunks = Inr chunks' \<and> length chunks' = length chunks \<and>
      (\<forall>idx \<in> set ls. chunk_holds a sd idx (chunks' ! K idx) f) \<and>
      (\<forall>k. k \<notin> K ` set ls \<longrightarrow> chunks' ! k = chunks ! k)"
proof (induction ls arbitrary: chunks)
  case (Cons idx ls)
  have i: "shardOf a idx = sidx" "length idx = length (mShape (a_meta a))" "patches a patch idx old f"
    "chunks ! K idx = chunks0 ! K idx" using Cons.prems(3) by auto
  obtain c where c: "patch_step a sd (a_type a) sidx patch idx chunks = Inr (chunks[K idx := c])" "chunk_holds a sd idx c f"
    using patch_step_spec [OF ok sh pb i(2) p Cons.prems(2) i(4) [unfolded K_def] i(3)] i(1) by (auto simp: K_def)
  have K: "K idx < length chunks" using lin_bound [OF chunk_place(2) [OF ok i(2)]] Cons.prems(2) by (simp add: K_def)
  have ne: "K idx \<noteq> K j" if "j \<in> set ls" for j
  proof
    assume e: "K idx = K j"
    have j: "length j = length (mShape (a_meta a))" "shardOf a idx = shardOf a j" using Cons.prems(3) that i(1) by auto
    have "idx = j" by (rule place_inj [OF ok i(2) j e [unfolded K_def]])
    then show False using that Cons.prems(1) by simp
  qed
  have "\<exists>chunks'. rfold (patch_step a sd (a_type a) sidx patch) ls (chunks[K idx := c]) = Inr chunks' \<and>
      length chunks' = length (chunks[K idx := c]) \<and>
      (\<forall>idx \<in> set ls. chunk_holds a sd idx (chunks' ! K idx) f) \<and>
      (\<forall>k. k \<notin> K ` set ls \<longrightarrow> chunks' ! k = chunks[K idx := c] ! k)"
    using Cons.prems ne by (intro Cons.IH) auto
  then obtain chunks' where ch: "rfold (patch_step a sd (a_type a) sidx patch) ls (chunks[K idx := c]) = Inr chunks'"
    "length chunks' = length chunks" "\<forall>idx \<in> set ls. chunk_holds a sd idx (chunks' ! K idx) f"
    "\<And>k. k \<notin> K ` set ls \<Longrightarrow> chunks' ! k = chunks[K idx := c] ! k" by auto
  have "K idx \<notin> K ` set ls" using ne by force
  then have "chunks' ! K idx = c" using ch(4) K by simp
  moreover have "chunks' ! k = chunks ! k" if "k \<notin> K ` set (idx # ls)" for k
    using ch(4) [of k] that by simp
  ultimately show ?case using c ch(1-3) by auto
qed simp

text \<open>A stored object whose chunks hold what is asked for holds it.\<close>

lemma chunks_none:
  assumes ok: "arr_ok env cs a" and si: "length sidx = length (mShape (a_meta a))" and sh: "a_shard a = Some sd"
    and ch: "\<And>idx. length idx = length (mShape (a_meta a)) \<Longrightarrow> shardOf a idx = sidx \<Longrightarrow> chunk_holds a sd idx None f"
  shows "cell_holds a sidx None f"
proof -
  have "alike a (plusV (timesV sidx (a_grid a)) o') (fill_elem (a_fill a)) (f (plusV (timesV sidx (a_grid a)) o'))"
    if o': "inside o' (a_grid a)" for o'
  proof -
    note c = cell_chunk [OF ok si o']
    from ch [OF c(1,2)] c(5,6) arr_shard_fields(1) [OF ok sh] lin_bound [OF c(5)]
    show ?thesis by (auto simp: chunk_holds_def filled_replicate)
  qed
  then show ?thesis using lin_bound by (auto simp: cell_holds_def content_def filled_replicate)
qed

lemma chunks_some:
  assumes ok: "arr_ok env cs a" and si: "length sidx = length (mShape (a_meta a))" and sh: "a_shard a = Some sd"
    and pb: "pbytes (a_codecs a) = []"
    and asm: "assemble sd (a_perShard a) chunks = Inr b" and lc: "length chunks = product_of (a_perShard a)"
    and ch: "\<And>idx. length idx = length (mShape (a_meta a)) \<Longrightarrow> shardOf a idx = sidx \<Longrightarrow>
       chunk_holds a sd idx (chunks ! lin (a_perShard a) (modV idx (a_perShard a))) f"
  shows "cell_holds a sidx (Some b) f"
  unfolding cell_holds_def
proof (intro impI)
  assume "short (Some b)"
  then have lb: "length b < 2 ^ 63" by simp
  note sf = arr_shard_fields [OF ok sh] and g = arr_grid(1-6,8) [OF ok]
  obtain iok iok' z where s: "sharding sd iok iok'" "iok (indexSpec (a_perShard a))"
    "storedBytes (ints (a_grid a)) (a_type a) = Inr z"
    "pipe_decode (a_codecs a) b (storedSpec a) = shard_DecodeArray sd b (storedSpec a)"
    using arr_sharding [OF ok sh] pb by blast
  have short: "short (chunks ! k)" if "k < length chunks" for k
  proof (cases "chunks ! k")
    case (Some bk)
    have "length bk \<le> length (join_chunks chunks)"
      using join_take_le [OF that Some] join_take_all [of "Suc k" chunks] by simp
    also have "\<dots> \<le> length b" using asm by (auto simp: assemble_def rbind_Inr_iff Let_def case_prod_unfold)
    finally show ?thesis using lb Some by simp
  qed simp
  text \<open>The chunk of the shard at \<open>l\<close>.\<close>
  have part: "\<exists>x. part sd (storedSpec a) (chunks ! k) = Inr x" if k: "k < product_of (a_perShard a)" for k
  proof -
    let ?l = "unlin (a_perShard a) k" and ?idx = "plusV (timesV sidx (a_perShard a)) (unlin (a_perShard a) k)"
    have l: "inside ?l (a_perShard a)" "lin (a_perShard a) ?l = k" using unlin_inside [OF k] lin_unlin [OF k] by auto
    have ll: "length ?l = length (mShape (a_meta a))" using list_all2_lengthD [OF l(1)] g by simp
    have "length ?idx = length (mShape (a_meta a))" "shardOf a ?idx = sidx" "modV ?idx (a_perShard a) = ?l"
      using si ll g(3,6) l(1)
      by (auto simp: shardOf_def list_all2_conv_all_nth intro!: nth_equalityI)
    with ch [of ?idx] short [of k] k lc l(2) show ?thesis by (auto simp: chunk_holds_def)
  qed
  obtain v where v: "shard_DecodeArray sd b (storedSpec a) = Inr v" "stype v = a_type a"
    "parts sd (storedSpec a) (a_perShard a) chunks (elems v)"
    using sharding.parts_assembled [OF s(1) _ _ _ _ s(2) asm lc lb part] sf(2) g(4,7) s(3) by auto
  have c: "content a (Some b) = Inr (elems v)"
    using v s(4) by (simp add: content_def asChunk_Inr parts_def)
  have "alike a (plusV (timesV sidx (a_grid a)) o') (elems v ! lin (a_grid a) o') (f (plusV (timesV sidx (a_grid a)) o'))"
    if o': "inside o' (a_grid a)" for o'
  proof -
    note cc = cell_chunk [OF ok si o']
    let ?idx = "plusV (timesV sidx (a_perShard a)) (divV o' (a_chunks a))"
    let ?k = "lin (a_perShard a) (divV o' (a_chunks a))"
    have k: "?k < product_of (a_perShard a)" using lin_bound [OF cc(4)] .
    from part [OF k] obtain x where x: "part sd (storedSpec a) (chunks ! ?k) = Inr x" by blast
    have "elems v ! lin (a_grid a) o' = x ! lin (a_chunks a) (modV o' (a_chunks a))"
      using v(3) x o' sf(1) by (auto simp: parts_def)
    moreover have "alike a (plusV (timesV ?idx (a_chunks a)) (modV o' (a_chunks a))) (x ! lin (a_chunks a) (modV o' (a_chunks a)))
        (f (plusV (timesV ?idx (a_chunks a)) (modV o' (a_chunks a))))"
      using ch [OF cc(1,2)] short [of ?k] k lc x cc(3,5) by (auto simp: chunk_holds_def)
    ultimately show ?thesis unfolding cc(6) by simp
  qed
  with c show "\<exists>v. content a (Some b) = Inr v \<and> (\<forall>o'. inside o' (a_grid a) \<longrightarrow>
      alike a (plusV (timesV sidx (a_grid a)) o') (v ! lin (a_grid a) o') (f (plusV (timesV sidx (a_grid a)) o')))"
    by blast
qed

lemma parts_none:
  assumes ok: "arr_ok env cs a" and sh: "a_shard a = Some sd"
  shows "parts sd (storedSpec a) (a_perShard a) (replicate (product_of (a_perShard a)) None)
    (filled (product_of (a_grid a)) (a_fill a))"
proof -
  note g = arr_grid(1-6) [OF ok] and sf = arr_shard_fields(1) [OF ok sh]
  have "filled (product_of (a_grid a)) (a_fill a) ! lin (a_grid a) o' =
      filled (product_of (a_chunks a)) (a_fill a) ! lin (a_chunks a) (modV o' (a_chunks a)) \<and>
      lin (a_perShard a) (divV o' (a_chunks a)) < product_of (a_perShard a)"
    if o': "inside o' (a_grid a)" for o'
  proof -
    have l: "length o' = length (a_chunks a)" using list_all2_lengthD [OF o'] g by simp
    have z: "length (zeros (length (mShape (a_meta a)))) = length (mShape (a_meta a))" by simp
    show ?thesis
      using lin_bound [OF o'] lin_bound [OF modV_inside [OF g(5) l]] lin_bound [OF cell_chunk(4) [OF ok z o']]
      by (simp add: filled_replicate)
  qed
  then show ?thesis using sf by (auto simp: parts_def)
qed

context store_laws
begin

lemma wp_patchShard:
  assumes ok: "arr_ok env cs a" and st: "a_store a = ops" and sh: "a_shard a = Some sd" and pb: "pbytes (a_codecs a) = []"
    and si: "length sidx = length (mShape (a_meta a))" and c: "content a (contents s (storedKey a sidx)) = Inr old"
    and le: "list_all2 (\<le>) lo hi"
    and within: "\<And>idx. between lo hi idx \<Longrightarrow> shardOf a idx = sidx \<and> length idx = length (mShape (a_meta a)) \<and> patches a patch idx old f"
    and rest: "\<And>idx o'. length idx = length (mShape (a_meta a)) \<Longrightarrow> shardOf a idx = sidx \<Longrightarrow> \<not> between lo hi idx \<Longrightarrow>
       inside o' (a_chunks a) \<Longrightarrow> alike a (plusV (timesV idx (a_chunks a)) o')
         (old ! lin (a_grid a) (plusV (timesV (modV idx (a_perShard a)) (a_chunks a)) o')) (f (plusV (timesV idx (a_chunks a)) o'))"
    and Q: "\<And>t bo. contents t = (contents s)(storedKey a sidx := bo) \<Longrightarrow> cell_holds a sidx bo f \<Longrightarrow> Q () t"
    and R: "\<And>t. contents t = contents s \<Longrightarrow> R t"
  shows "wp live (patchShard a sd (a_type a) sidx lo hi patch) s Q R"
proof -
  let ?K = "\<lambda>idx. lin (a_perShard a) (modV idx (a_perShard a))"
  note sf = arr_shard_fields [OF ok sh]
  have main: "wp live (io_bind (io_lift (eachIndex lo hi (patch_step a sd (a_type a) sidx patch) chunks0)) (\<lambda>chunks.
       if \<forall>c \<in> set chunks. c = None then st_delete (a_store a) (storedKey a sidx)
       else
         io_bind (io_lift (assemble sd (a_perShard a) chunks)) (\<lambda>b.
           st_set (a_store a) (storedKey a sidx) b))) t Q R"
    if t: "contents t = contents s" and p: "parts sd (storedSpec a) (a_perShard a) chunks0 old" for t chunks0
  proof -
    note set' = set_eachIndex_order [OF le]
    have lc0: "length chunks0 = product_of (a_perShard a)" using p by (simp add: parts_def)
    have "\<exists>chunks'. rfold (patch_step a sd (a_type a) sidx patch) (eachIndex_order lo hi) chunks0 = Inr chunks' \<and>
      length chunks' = length chunks0 \<and>
      (\<forall>idx \<in> set (eachIndex_order lo hi). chunk_holds a sd idx (chunks' ! ?K idx) f) \<and>
      (\<forall>k. k \<notin> ?K ` set (eachIndex_order lo hi) \<longrightarrow> chunks' ! k = chunks0 ! k)"
      using within set' lc0 by (intro patch_fold [OF ok sh pb p distinct_eachIndex_order [OF le]]) auto
    then obtain chunks where ch: "eachIndex lo hi (patch_step a sd (a_type a) sidx patch) chunks0 = Inr chunks"
      "length chunks = product_of (a_perShard a)" "\<And>idx. between lo hi idx \<Longrightarrow> chunk_holds a sd idx (chunks ! ?K idx) f"
      "\<And>k. k \<notin> ?K ` {idx. between lo hi idx} \<Longrightarrow> chunks ! k = chunks0 ! k"
      using lc0 unfolding set' by (auto simp: eachIndex_def)
    have holds: "chunk_holds a sd idx (chunks ! ?K idx) f"
      if i: "length idx = length (mShape (a_meta a))" "shardOf a idx = sidx" for idx
    proof (cases "between lo hi idx")
      case False
      have "?K idx \<noteq> ?K j" if "between lo hi j" for j
        using place_inj [OF ok i(1), of j] within [OF that] i(2) False that by auto
      then have e: "chunks ! ?K idx = chunks0 ! ?K idx" using ch(4) by blast
      have k: "?K idx < product_of (a_perShard a)" using lin_bound [OF chunk_place(2) [OF ok i(1)]] .
      with p obtain x where x: "part sd (storedSpec a) (chunks0 ! ?K idx) = Inr x" by (auto simp: parts_def)
      have "x ! lin (a_chunks a) o' = old ! lin (a_grid a) (plusV (timesV (modV idx (a_perShard a)) (a_chunks a)) o')"
        if "inside o' (a_chunks a)" for o'
      proof -
        let ?e = "plusV (timesV (modV idx (a_perShard a)) (a_chunks a)) o'"
        have "inside ?e (a_grid a)" "divV ?e (a_chunks a) = modV idx (a_perShard a)" "modV ?e (a_chunks a) = o'"
          using chunk_element [OF ok i(1) that] by auto
        with p x sf(1) show ?thesis by (auto simp: parts_def)
      qed
      with x e rest [OF i False] show ?thesis by (auto simp: chunk_holds_def)
    qed (rule ch(3))
    show ?thesis
      unfolding ch(1)
    proof (rule wp_lift_bind [OF refl])
      show "wp live (if \<forall>c \<in> set chunks. c = None then st_delete (a_store a) (storedKey a sidx)
         else io_bind (io_lift (assemble sd (a_perShard a) chunks)) (\<lambda>b. st_set (a_store a) (storedKey a sidx) b)) t Q R"
      proof (cases "\<forall>c \<in> set chunks. c = None")
        case True
        have "chunk_holds a sd idx None f" if i: "length idx = length (mShape (a_meta a))" "shardOf a idx = sidx" for idx
        proof -
          have "chunks ! ?K idx \<in> set chunks" using lin_bound [OF chunk_place(2) [OF ok i(1)]] ch(2) by simp
          with True have "chunks ! ?K idx = None" by blast
          with holds [OF i] show ?thesis by simp
        qed
        then have "cell_holds a sidx None f" by (rule chunks_none [OF ok si sh])
        then have "wp live (st_delete ops (storedKey a sidx)) t Q R"
          using Q R t by (intro wp_delete) auto
        with True show ?thesis by (simp add: st)
      next
        case False
        obtain iok iok' z where s: "sharding sd iok iok'" "iok (indexSpec (a_perShard a))"
          "storedBytes (ints (a_perShard a @ [2])) Uint64 = Inr z"
          using arr_sharding [OF ok sh] by blast
        obtain b where b: "assemble sd (a_perShard a) chunks = Inr b"
          using sharding.assemble_total [OF s ch(2)] by blast
        have "cell_holds a sidx (Some b) f" by (rule chunks_some [OF ok si sh pb b ch(2) holds])
        then have "wp live (st_set ops (storedKey a sidx) b) t Q R"
          using Q R t storedKey_valid [OF ok] by (intro wp_set) auto
        with False b show ?thesis by (auto simp: st)
      qed
    qed
  qed
  show ?thesis
    unfolding patchShard_def st
  proof (rule wp_get [OF storedKey_valid [OF ok]])
    fix t assume t: "contents t = contents s" and n: "contents s (storedKey a sidx) = None"
    then have "old = filled (product_of (a_grid a)) (a_fill a)" using c by (simp add: content_def)
    with main [OF t, unfolded st] parts_none [OF ok sh]
    show "wp live (io_bind (case Inl ErrNotFound of
          Inl e \<Rightarrow> if e = ErrNotFound then io_ret (replicate (product_of (a_perShard a)) None) else io_err e
        | Inr b \<Rightarrow> io_lift (split_shard sd (a_perShard a) b)) (\<lambda>chunks.
      io_bind (io_lift (eachIndex lo hi (patch_step a sd (a_type a) sidx patch) chunks)) (\<lambda>chunks.
       if \<forall>c \<in> set chunks. c = None then st_delete ops (storedKey a sidx)
       else io_bind (io_lift (assemble sd (a_perShard a) chunks)) (\<lambda>b. st_set ops (storedKey a sidx) b)))) t Q R"
      by simp
  next
    fix t b assume t: "contents t = contents s" and b: "contents s (storedKey a sidx) = Some b"
    from content_parts [OF ok sh pb c [unfolded b]] obtain chunks0 where
      "split_shard sd (a_perShard a) b = Inr chunks0" "parts sd (storedSpec a) (a_perShard a) chunks0 old" by blast
    with main [OF t, unfolded st]
    show "wp live (io_bind (case Inr b of
          Inl e \<Rightarrow> if e = ErrNotFound then io_ret (replicate (product_of (a_perShard a)) None) else io_err e
        | Inr b \<Rightarrow> io_lift (split_shard sd (a_perShard a) b)) (\<lambda>chunks.
      io_bind (io_lift (eachIndex lo hi (patch_step a sd (a_type a) sidx patch) chunks)) (\<lambda>chunks.
       if \<forall>c \<in> set chunks. c = None then st_delete ops (storedKey a sidx)
       else io_bind (io_lift (assemble sd (a_perShard a) chunks)) (\<lambda>b. st_set ops (storedKey a sidx) b)))) t Q R"
      by simp
  qed (use R in auto)
qed

end

end
