(* ===== verification/WriteArray.thy ===== *)
theory WriteArray
  imports Patches
begin

text \<open>
  \<open>Write\<close> and \<open>WriteChunk\<close> of \<open>src/array.go\<close>: afterwards the elements of the region are those
  written and every other element of the array is what it was, whether stored objects are
  replaced, read and replaced, or patched chunk by chunk, and in whatever order. No other key of
  the store changes, and a call that fails leaves each stored object as it was or as it should be.
\<close>

definition new_value :: "'s arr \<Rightarrow> (string \<Rightarrow> bytes option) \<Rightarrow> vec \<Rightarrow> vec \<Rightarrow> elem list \<Rightarrow> vec \<Rightarrow> elem" where
  "new_value a m st sh data e = (if in_block st sh e then data ! lin sh (minusV e st) else value_at a m e)"

text \<open>Elements of the data of a region, copied into the block of a cell they are for.\<close>

lemma write_block:
  assumes r: "reads_region a cell st sh lo hi" and c: "positive cell" and b: "between lo hi idx"
    and o: "overlap a idx st sh cell = (at, n, whole)"
    and buf: "length buf = product_of cell" "\<forall>x \<in> set buf. type_of x = t"
    and d: "length data = product_of sh" "\<forall>x \<in> set data. type_of x = t"
  shows "\<exists>r. copyBlock buf cell (minusV at (timesV idx cell)) data sh (minusV at st) n = Inr r \<and>
    length r = product_of cell \<and> (\<forall>x \<in> set r. type_of x = t) \<and>
    (\<forall>o'. inside o' cell \<longrightarrow> r ! lin cell o' =
       (if in_block st sh (plusV (timesV idx cell) o') then data ! lin sh (minusV (plusV (timesV idx cell) o') st)
        else buf ! lin cell o'))"
proof -
  note l = reads_regionD(1-4) [OF r]
  from r have cr: "cell_range st sh cell lo hi" "\<forall>v \<in> set sh. 0 < v" "fits st sh (a_shape a)" by (auto simp: reads_region_def)
  note ov = overlap_spec [OF o cr c b]
  have li: "length idx = length cell" using b l by (simp add: between_nth)
  obtain r where r: "copyBlock buf cell (minusV at (timesV idx cell)) data sh (minusV at st) n = Inr r"
    "length r = length buf"
    "\<And>o'. inside o' cell \<Longrightarrow> r ! lin cell o' = (if in_block (minusV at (timesV idx cell)) n o'
       then data ! lin sh (plusV (minusV at st) (minusV o' (minusV at (timesV idx cell)))) else buf ! lin cell o')"
    using copyBlock_spec [OF ov(2,1) buf(1) d(1)] by blast
  have ty: "\<forall>x \<in> set r. type_of x = t" using copyBlock_subset [OF r(1)] buf(2) d(2) by auto
  have "r ! lin cell o' = (if in_block st sh (plusV (timesV idx cell) o')
      then data ! lin sh (minusV (plusV (timesV idx cell) o') st) else buf ! lin cell o')" if o': "inside o' cell" for o'
  proof -
    let ?e = "plusV (timesV idx cell) o'"
    have lo': "length o' = length cell" using list_all2_lengthD [OF o'] .
    have ge: "st ! k \<le> at ! k \<and> idx ! k * cell ! k \<le> at ! k" if "k < length cell" for k using ov(7) that by simp
    have k: "at ! k - idx ! k * cell ! k \<le> o' ! k \<and> o' ! k < at ! k - idx ! k * cell ! k + n ! k \<longleftrightarrow>
        at ! k \<le> idx ! k * cell ! k + o' ! k \<and> idx ! k * cell ! k + o' ! k < at ! k + n ! k" if "k < length cell" for k
      using ge [OF that] by arith
    have "in_block (minusV at (timesV idx cell)) n o' \<longleftrightarrow> in_block at n ?e"
      unfolding in_block_nth using lo' li ov(5,6) k by simp
    also have "\<dots> \<longleftrightarrow> in_block st sh ?e \<and> in_block (timesV idx cell) cell ?e" by (rule ov(3))
    also have "\<dots> \<longleftrightarrow> in_block st sh ?e"
      using o' lo' li by (auto simp: in_block_nth list_all2_conv_all_nth)
    finally have ib: "in_block (minusV at (timesV idx cell)) n o' \<longleftrightarrow> in_block st sh ?e" .
    have "plusV (minusV at st) (minusV o' (minusV at (timesV idx cell))) = minusV ?e st"
      if "in_block (minusV at (timesV idx cell)) n o'"
    proof (rule nth_equalityI)
      fix j assume "j < length (plusV (minusV at st) (minusV o' (minusV at (timesV idx cell))))"
      then have j: "j < length cell" using lo' li l ov(5) by simp
      have "at ! j - idx ! j * cell ! j \<le> o' ! j" using that j lo' li ov(5,6) by (auto simp: in_block_nth)
      then show "plusV (minusV at st) (minusV o' (minusV at (timesV idx cell))) ! j = minusV ?e st ! j"
        using ge [OF j] j lo' li l ov(5) by simp
    qed (use lo' li l ov(5) in simp)
    with r(3) [OF o'] ib show ?thesis by simp
  qed
  with r(1,2) buf(1) ty show ?thesis by auto
qed

lemma cell_element:
  assumes g: "length sidx = length cell" "positive cell" and o': "inside o' cell"
  shows "divV (plusV (timesV sidx cell) o') cell = sidx" "modV (plusV (timesV sidx cell) o') cell = o'"
  using assms by (auto simp: list_all2_conv_all_nth intro!: nth_equalityI)

lemma cell_value:
  assumes ok: "arr_ok env cs a" and si: "length sidx = length (mShape (a_meta a))" and o': "inside o' (a_grid a)"
    and c: "content a (m (storedKey a sidx)) = Inr v"
  shows "value_at a m (plusV (timesV sidx (a_grid a)) o') = v ! lin (a_grid a) o'"
  using cell_element [of sidx "a_grid a" o'] arr_grid(1,4) [OF ok] si o' c by (simp add: value_at_def cell_key_def)

text \<open>The chunks of a stored object that the region meets.\<close>

lemma patched_range:
  assumes ok: "arr_ok env cs a" and r: "reads_region a (a_grid a) st sh lo hi" and b: "between lo hi sidx"
    and o: "overlap a sidx st sh (a_grid a) = (at, n, whole)"
  defines "plo \<equiv> divV at (a_chunks a)" and "phi \<equiv> divV (minusOne (plusV at n)) (a_chunks a)"
  defines "clo \<equiv> divV st (a_chunks a)" and "chi \<equiv> divV (minusOne (plusV st sh)) (a_chunks a)"
  shows "list_all2 (\<le>) plo phi" "reads_region a (a_chunks a) st sh clo chi"
    "between plo phi idx \<Longrightarrow> between clo chi idx" "between plo phi idx \<Longrightarrow> shardOf a idx = sidx"
    "shardOf a idx = sidx \<Longrightarrow> length idx = length (mShape (a_meta a)) \<Longrightarrow> \<not> between plo phi idx \<Longrightarrow> inside o' (a_chunks a) \<Longrightarrow>
       \<not> in_block st sh (plusV (timesV idx (a_chunks a)) o')"
proof -
  let ?C = "a_chunks a" and ?P = "a_perShard a" and ?G = "a_grid a"
  have lg: "length ?C = length ?G" "length ?P = length ?G" and pos: "positive ?C" "positive ?P" "positive ?G"
    using arr_grid [OF ok] by auto
  have gt: "?G ! k = ?P ! k * ?C ! k" if "k < length ?G" for k
    using lg that by (subst arr_grid(7) [OF ok]) simp
  note l = reads_regionD(1-5) [OF r]
  from r have cr: "cell_range st sh ?G lo hi" "\<forall>v \<in> set sh. 0 < v" "fits st sh (a_shape a)" by (auto simp: reads_region_def)
  note ov = overlap_spec [OF o cr pos(3) b]
  have ls: "length sidx = length ?G" using b l by (simp add: between_nth)
  have k: "0 < n ! k" "st ! k \<le> at ! k" "at ! k + n ! k \<le> st ! k + sh ! k" "sidx ! k * ?G ! k \<le> at ! k"
    "at ! k + n ! k \<le> sidx ! k * ?G ! k + ?G ! k" "0 < ?C ! k" "0 < ?P ! k" "0 < sh ! k" if "k < length ?G" for k
    using ov(1,2,4,7) that ov(5,6) l ls pos cr(2) lg by (auto simp: fits_nth)
  have pn: "plo ! k = at ! k div ?C ! k" "phi ! k = (at ! k + n ! k - 1) div ?C ! k"
    "clo ! k = st ! k div ?C ! k" "chi ! k = (st ! k + sh ! k - 1) div ?C ! k" if "k < length ?G" for k
    using that ov(5,6) l lg by (simp_all add: plo_def phi_def clo_def chi_def)
  have len: "length plo = length ?G" "length phi = length ?G" "length clo = length ?G" "length chi = length ?G"
    using ov(5,6) l lg by (simp_all add: plo_def phi_def clo_def chi_def)
  show "list_all2 (\<le>) plo phi"
    unfolding list_all2_conv_all_nth
  proof (intro conjI allI impI)
    fix j assume "j < length plo"
    then have j: "j < length ?G" using len by simp
    show "plo ! j \<le> phi ! j" unfolding pn [OF j] using k(1) [OF j] by (intro div_le_mono) simp
  qed (use len in simp)
  show "reads_region a ?C st sh clo chi"
    using cr(2,3) l lg len pn by (simp add: reads_region_def cell_range_def)
  have G1: "x div ?C ! k div ?P ! k = x div ?G ! k" if "k < length ?G" for x k
    using gt [OF that] by (simp add: div_mult2_eq [symmetric] mult.commute)
  {
    assume bt: "between plo phi idx"
    have li: "length idx = length ?G" using bt len by (simp add: between_nth)
    have i: "at ! k div ?C ! k \<le> idx ! k" "idx ! k \<le> (at ! k + n ! k - 1) div ?C ! k" if "k < length ?G" for k
      using bt pn [OF that] that li by (auto simp: between_nth)
    show "between clo chi idx"
      unfolding between_nth
    proof (intro conjI allI impI)
      fix j assume "j < length idx"
      then have j: "j < length ?G" using li by simp
      have "st ! j div ?C ! j \<le> at ! j div ?C ! j" using k(2) [OF j] by (rule div_le_mono)
      then show "clo ! j \<le> idx ! j" using i(1) [OF j] pn(3) [OF j] by simp
      have "(at ! j + n ! j - 1) div ?C ! j \<le> (st ! j + sh ! j - 1) div ?C ! j" using k(3) [OF j] by (intro div_le_mono) simp
      then show "idx ! j \<le> chi ! j" using i(2) [OF j] pn(4) [OF j] by simp
    qed (use len li in simp_all)
    show "shardOf a idx = sidx"
      unfolding shardOf_def
    proof (rule nth_equalityI)
      fix j assume "j < length (divV idx ?P)"
      then have j: "j < length ?G" using li lg by simp
      have "sidx ! j = at ! j div ?G ! j" "sidx ! j = (at ! j + n ! j - 1) div ?G ! j"
        using k(1,4,5) [OF j] by (auto intro!: div_nat_eqI [symmetric] simp: algebra_simps)
      moreover have "at ! j div ?C ! j div ?P ! j \<le> idx ! j div ?P ! j" using i(1) [OF j] by (rule div_le_mono)
      moreover have "idx ! j div ?P ! j \<le> (at ! j + n ! j - 1) div ?C ! j div ?P ! j" using i(2) [OF j] by (rule div_le_mono)
      ultimately show "divV idx ?P ! j = sidx ! j" using G1 [OF j] j li lg by simp
    qed (use li lg ls in simp)
  }
  assume s: "shardOf a idx = sidx" and li: "length idx = length (mShape (a_meta a))" and nb: "\<not> between plo phi idx" and o': "inside o' ?C"
  show "\<not> in_block st sh (plusV (timesV idx ?C) o')"
  proof
    assume ib: "in_block st sh (plusV (timesV idx ?C) o')"
    have e: "divV (plusV (timesV idx ?C) o') ?G = sidx" using chunk_element(1) [OF ok li o'] s by simp
    have "length (plusV (timesV idx ?C) o') = length ?G" using chunk_element(7) [OF ok li o'] arr_grid(1) [OF ok] by simp
    then have "in_block (timesV sidx ?G) ?G (plusV (timesV idx ?C) o')"
      using tile_iff [OF pos(3) _ ls] e by blast
    then have ba: "in_block at n (plusV (timesV idx ?C) o')" using ov(3) ib by blast
    have lo': "length o' = length ?G" "length idx = length ?G"
      using list_all2_lengthD [OF o'] lg li arr_grid(1) [OF ok] by simp_all
    have "plo ! j \<le> idx ! j \<and> idx ! j \<le> phi ! j" if j: "j < length ?G" for j
    proof -
      have v: "o' ! j < ?C ! j" using o' j lo' by (simp add: list_all2_conv_all_nth)
      have x: "at ! j \<le> idx ! j * ?C ! j + o' ! j" "idx ! j * ?C ! j + o' ! j \<le> at ! j + n ! j - 1"
        using ba j lo' lg by (auto simp: in_block_nth)
      have "(idx ! j * ?C ! j + o' ! j) div ?C ! j = idx ! j" using v by (intro div_nat_eqI) (auto simp: algebra_simps)
      then show ?thesis unfolding pn [OF j] using div_le_mono [OF x(1), of "?C ! j"] div_le_mono [OF x(2), of "?C ! j"] by simp
    qed
    with nb lo' len show False by (simp add: between_nth)
  qed
qed

context store_laws
begin

lemma wp_write_one:
  assumes ok: "arr_ok env cs a" and st: "a_store a = ops" and r: "reads_region a (a_grid a) start sh lo hi"
    and b: "between lo hi sidx" and c: "content a (contents s (storedKey a sidx)) = Inr old"
    and m: "m (storedKey a sidx) = contents s (storedKey a sidx)"
    and d: "length data = product_of sh" "\<forall>x \<in> set data. type_of x = a_type a"
    and Q: "\<And>t bo. contents t = (contents s)(storedKey a sidx := bo) \<Longrightarrow>
       cell_holds a sidx bo (new_value a m start sh data) \<Longrightarrow> Q () t"
    and R: "\<And>t. contents t = contents s \<Longrightarrow> R t"
  shows "wp live (write_one a (a_type a) start sh data sidx) s Q R"
proof -
  let ?f = "new_value a m start sh data"
  obtain at n whole where o: "overlap a sidx start sh (a_grid a) = (at, n, whole)" by (metis prod.exhaust)
  have pos: "positive (a_grid a)" "positive (a_chunks a)" "type_of (a_fill a) = a_type a" using arr_grid [OF ok] by auto
  have si: "length sidx = length (mShape (a_meta a))"
    using b reads_regionD(3) [OF r] arr_grid(1) [OF ok] by (simp add: between_nth)
  have cm: "content a (m (storedKey a sidx)) = Inr old" using c m by simp
  note ov = cell_value [where m = m, OF ok si _ cm]
  note ct = content_typed [OF ok c]
  from r have cr: "cell_range start sh (a_grid a) lo hi" "\<forall>v \<in> set sh. 0 < v" "fits start sh (a_shape a)" by (auto simp: reads_region_def)
  show ?thesis
  proof (cases "if \<not> whole \<and> patchesChunks a then a_shard a else None")
    case None
    have body: "wp live (io_bind (io_lift (copyBlock buf (a_grid a) (minusV at (timesV sidx (a_grid a))) data sh (minusV at start) n))
            (\<lambda>buf. writeStored a sidx buf)) t Q R"
      if t: "contents t = contents s" and buf: "length buf = product_of (a_grid a)" "\<forall>x \<in> set buf. type_of x = a_type a"
        and al: "\<And>o'. inside o' (a_grid a) \<Longrightarrow> \<not> in_block start sh (plusV (timesV sidx (a_grid a)) o') \<Longrightarrow>
          alike a (plusV (timesV sidx (a_grid a)) o') (buf ! lin (a_grid a) o') (value_at a m (plusV (timesV sidx (a_grid a)) o'))"
      for t buf
    proof -
      from write_block [OF r pos(1) b o buf d] obtain w where w:
        "copyBlock buf (a_grid a) (minusV at (timesV sidx (a_grid a))) data sh (minusV at start) n = Inr w"
        "length w = product_of (a_grid a)" "\<forall>x \<in> set w. type_of x = a_type a"
        "\<And>o'. inside o' (a_grid a) \<Longrightarrow> w ! lin (a_grid a) o' = (if in_block start sh (plusV (timesV sidx (a_grid a)) o')
           then data ! lin sh (minusV (plusV (timesV sidx (a_grid a)) o') start) else buf ! lin (a_grid a) o')" by blast
      have "wp live (writeStored a sidx w) t Q R"
      proof (rule wp_writeStored [OF ok st si w(2,3), where f = ?f])
        fix o' assume o': "inside o' (a_grid a)"
        show "alike a (plusV (timesV sidx (a_grid a)) o') (w ! lin (a_grid a) o') (?f (plusV (timesV sidx (a_grid a)) o'))"
          using w(4) [OF o'] al [OF o'] by (simp add: new_value_def)
      qed (use Q R t in auto)
      with w(1) show ?thesis by simp
    qed
    have "wp live (io_bind (if whole then io_ret (filled (product_of (a_grid a)) (a_fill a)) else readStored a (a_type a) sidx) (\<lambda>buf.
          io_bind (io_lift (copyBlock buf (a_grid a) (minusV at (timesV sidx (a_grid a))) data sh (minusV at start) n))
            (\<lambda>buf. writeStored a sidx buf))) s Q R"
    proof (cases whole)
      case True
      have "alike a (plusV (timesV sidx (a_grid a)) o') (filled (product_of (a_grid a)) (a_fill a) ! lin (a_grid a) o')
          (value_at a m (plusV (timesV sidx (a_grid a)) o'))"
        if o': "inside o' (a_grid a)" and nb: "\<not> in_block start sh (plusV (timesV sidx (a_grid a)) o')" for o'
      proof -
        have "length o' = length (a_grid a)" "length sidx = length (a_grid a)"
          using list_all2_lengthD [OF o'] si arr_grid(1) [OF ok] by simp_all
        then have "in_block (timesV sidx (a_grid a)) (a_grid a) (plusV (timesV sidx (a_grid a)) o')"
          using o' by (auto simp: in_block_nth list_all2_conv_all_nth)
        then have "\<not> inside (plusV (timesV sidx (a_grid a)) o') (a_shape a)"
          using overlap_spec(8) [OF o cr pos(1) b True] nb by blast
        then show ?thesis using lin_bound [OF o'] fill_elem_veq by (simp add: alike_def filled_replicate)
      qed
      moreover have "\<forall>x \<in> set (filled (product_of (a_grid a)) (a_fill a)). type_of x = a_type a"
        using pos(3) by (auto dest: filled_type)
      ultimately show ?thesis using body [OF refl, of "filled (product_of (a_grid a)) (a_fill a)"] True by simp
    next
      case False
      have "wp live (io_bind (readStored a (a_type a) sidx) (\<lambda>buf.
          io_bind (io_lift (copyBlock buf (a_grid a) (minusV at (timesV sidx (a_grid a))) data sh (minusV at start) n))
            (\<lambda>buf. writeStored a sidx buf))) s Q R"
      proof (rule wp_bind, rule wp_readStored [OF st storedKey_valid [OF ok] c])
        fix t assume t: "contents t = contents s"
        show "wp live (io_bind (io_lift (copyBlock old (a_grid a) (minusV at (timesV sidx (a_grid a))) data sh (minusV at start) n))
            (\<lambda>buf. writeStored a sidx buf)) t Q R"
          using ov by (intro body [OF t ct]) simp
      qed (rule R)
      with False show ?thesis by simp
    qed
    with None o show ?thesis by (simp add: write_one_def)
  next
    case (Some sd)
    then have sh: "a_shard a = Some sd" and pb: "pbytes (a_codecs a) = []"
      by (auto simp: patchesChunks_def split: if_splits)
    note pr = patched_range [OF ok r b o]
    have "wp live (patchShard a sd (a_type a) sidx (divV at (a_chunks a)) (divV (minusOne (plusV at n)) (a_chunks a))
            (patch_chunk a start sh data)) s Q R"
    proof (rule wp_patchShard [OF ok st sh pb si c pr(1), where f = ?f])
      fix idx assume bt: "between (divV at (a_chunks a)) (divV (minusOne (plusV at n)) (a_chunks a)) idx"
      note bc = pr(3) [OF bt] and so = pr(4) [OF bt]
      have li: "length idx = length (mShape (a_meta a))"
        using bc reads_regionD(3) [OF pr(2)] arr_grid(2) [OF ok] by (simp add: between_nth)
      obtain at2 n2 w2 where o2: "overlap a idx start sh (a_chunks a) = (at2, n2, w2)" by (metis prod.exhaust)
      have "patches a (patch_chunk a start sh data) idx old ?f"
        unfolding patches_def
      proof (intro allI impI)
        fix x assume x: "length x = product_of (a_chunks a)" "\<forall>e \<in> set x. type_of e = a_type a"
          "\<forall>o'. inside o' (a_chunks a) \<longrightarrow>
             x ! lin (a_chunks a) o' = old ! lin (a_grid a) (plusV (timesV (modV idx (a_perShard a)) (a_chunks a)) o')"
        let ?buf = "if w2 then filled (product_of (a_chunks a)) (a_fill a) else x"
        have bl: "length ?buf = product_of (a_chunks a)" "\<forall>e \<in> set ?buf. type_of e = a_type a"
          using x pos(3) by (auto dest: filled_type)
        from write_block [OF pr(2) pos(2) bc o2 bl d] obtain w where w:
          "copyBlock ?buf (a_chunks a) (minusV at2 (timesV idx (a_chunks a))) data sh (minusV at2 start) n2 = Inr w"
          "length w = product_of (a_chunks a)" "\<forall>x \<in> set w. type_of x = a_type a"
          "\<And>o'. inside o' (a_chunks a) \<Longrightarrow> w ! lin (a_chunks a) o' = (if in_block start sh (plusV (timesV idx (a_chunks a)) o')
             then data ! lin sh (minusV (plusV (timesV idx (a_chunks a)) o') start) else ?buf ! lin (a_chunks a) o')" by blast
        have "alike a (plusV (timesV idx (a_chunks a)) o') (w ! lin (a_chunks a) o') (?f (plusV (timesV idx (a_chunks a)) o'))"
          if o': "inside o' (a_chunks a)" for o'
        proof (cases "in_block start sh (plusV (timesV idx (a_chunks a)) o')")
          case True
          then show ?thesis using w(4) [OF o'] by (simp add: new_value_def)
        next
          case nb: False
          show ?thesis
          proof (cases w2)
            case True
            from pr(2) have cr2: "cell_range start sh (a_chunks a) (divV start (a_chunks a)) (divV (minusOne (plusV start sh)) (a_chunks a))"
              by (simp add: reads_region_def)
            have "length o' = length (a_chunks a)" "length idx = length (a_chunks a)"
              using list_all2_lengthD [OF o'] li arr_grid(2) [OF ok] by simp_all
            then have "in_block (timesV idx (a_chunks a)) (a_chunks a) (plusV (timesV idx (a_chunks a)) o')"
              using o' by (auto simp: in_block_nth list_all2_conv_all_nth)
            then have "\<not> inside (plusV (timesV idx (a_chunks a)) o') (a_shape a)"
              using overlap_spec(8) [OF o2 cr2 cr(2,3) pos(2) bc True] nb by blast
            then show ?thesis using w(4) [OF o'] nb True lin_bound [OF o'] fill_elem_veq by (simp add: alike_def filled_replicate)
          next
            case False
            have "value_at a m (plusV (timesV idx (a_chunks a)) o') =
                old ! lin (a_grid a) (plusV (timesV (modV idx (a_perShard a)) (a_chunks a)) o')"
              using chunk_element [OF ok li o'] cm so by (simp add: value_at_def cell_key_def)
            then show ?thesis using w(4) [OF o'] nb False x(3) o' by (simp add: new_value_def)
          qed
        qed
        moreover have "patch_chunk a start sh data idx (Inr x) = Inr w"
          using w(1) by (simp add: patch_chunk_def o2 split: if_splits)
        ultimately show "\<exists>buf. patch_chunk a start sh data idx (Inr x) = Inr buf \<and> length buf = product_of (a_chunks a) \<and>
            (\<forall>e \<in> set buf. type_of e = a_type a) \<and> (\<forall>o'. inside o' (a_chunks a) \<longrightarrow>
            alike a (plusV (timesV idx (a_chunks a)) o') (buf ! lin (a_chunks a) o') (?f (plusV (timesV idx (a_chunks a)) o')))"
          using w(2,3) by blast
      qed
      then show "shardOf a idx = sidx \<and> length idx = length (mShape (a_meta a)) \<and> patches a (patch_chunk a start sh data) idx old ?f"
        using so li by blast
    next
      fix idx o' assume i: "length idx = length (mShape (a_meta a))" "shardOf a idx = sidx"
        "\<not> between (divV at (a_chunks a)) (divV (minusOne (plusV at n)) (a_chunks a)) idx" and o': "inside o' (a_chunks a)"
      have "value_at a m (plusV (timesV idx (a_chunks a)) o') =
          old ! lin (a_grid a) (plusV (timesV (modV idx (a_perShard a)) (a_chunks a)) o')"
        using chunk_element [OF ok i(1) o'] cm i(2) by (simp add: value_at_def cell_key_def)
      with pr(5) [OF i(2,1,3) o'] show "alike a (plusV (timesV idx (a_chunks a)) o')
          (old ! lin (a_grid a) (plusV (timesV (modV idx (a_perShard a)) (a_chunks a)) o')) (?f (plusV (timesV idx (a_chunks a)) o'))"
        by (simp add: new_value_def)
    qed (use Q R in auto)
    with Some o show ?thesis by (simp add: write_one_def)
  qed
qed

end

end
