(* ===== verification/WriteApi.thy ===== *)
theory WriteApi
  imports WriteArray
begin

text \<open>
  \<open>Write\<close> and \<open>WriteChunk\<close> of \<open>src/array.go\<close> as a whole.
\<close>

text \<open>What a store that holds a cell of the array says of one element of it.\<close>

definition done_at :: "'s arr \<Rightarrow> (string \<Rightarrow> bytes option) \<Rightarrow> (vec \<Rightarrow> elem) \<Rightarrow> vec \<Rightarrow> bool" where
  "done_at a m f e \<longleftrightarrow> (short (m (cell_key a e)) \<longrightarrow>
     (\<exists>v. content a (m (cell_key a e)) = Inr v) \<and> veq (value_at a m e) (f e))"

text \<open>The keys of the array's stored objects.\<close>

definition own_key :: "'s arr \<Rightarrow> string \<Rightarrow> bool" where
  "own_key a key \<longleftrightarrow> (\<exists>sidx. length sidx = length (mShape (a_meta a)) \<and> key = storedKey a sidx)"

definition written :: "'s arr \<Rightarrow> (string \<Rightarrow> bytes option) \<Rightarrow> (string \<Rightarrow> bytes option) \<Rightarrow> (vec \<Rightarrow> elem) \<Rightarrow> bool" where
  "written a m m' f \<longleftrightarrow>
     (\<forall>key. \<not> own_key a key \<longrightarrow> m' key = m key) \<and> (\<forall>e. inside e (a_shape a) \<longrightarrow> done_at a m' f e)"

text \<open>After a failure each stored object is as it was or as it should have become.\<close>

definition half_written :: "'s arr \<Rightarrow> (string \<Rightarrow> bytes option) \<Rightarrow> (string \<Rightarrow> bytes option) \<Rightarrow> (vec \<Rightarrow> elem) \<Rightarrow> bool" where
  "half_written a m m' f \<longleftrightarrow>
     (\<forall>key. \<not> own_key a key \<longrightarrow> m' key = m key) \<and>
     (\<forall>e. inside e (a_shape a) \<longrightarrow> m' (cell_key a e) = m (cell_key a e) \<or> done_at a m' f e)"

lemma cell_holds_done:
  assumes ok: "arr_ok env cs a" and h: "cell_holds a sidx (m (storedKey a sidx)) f"
    and e: "inside e (a_shape a)" "divV e (a_grid a) = sidx"
  shows "done_at a m f e"
  unfolding done_at_def
proof (intro impI)
  have k: "cell_key a e = storedKey a sidx" using e(2) by (simp add: cell_key_def)
  assume "short (m (cell_key a e))"
  then obtain v where v: "content a (m (storedKey a sidx)) = Inr v"
    "\<And>o'. inside o' (a_grid a) \<Longrightarrow>
       alike a (plusV (timesV sidx (a_grid a)) o') (v ! lin (a_grid a) o') (f (plusV (timesV sidx (a_grid a)) o'))"
    using h k by (auto simp: cell_holds_def)
  have le: "length e = length (a_grid a)" using list_all2_lengthD [OF e(1)] arr_grid(1) [OF ok] by simp
  have t: "plusV (timesV sidx (a_grid a)) (modV e (a_grid a)) = e" using tile_index [OF le] e(2) by simp
  have "alike a e (v ! lin (a_grid a) (modV e (a_grid a))) (f e)"
    using v(2) [OF modV_inside [OF arr_grid(4) [OF ok] le]] unfolding t .
  then show "(\<exists>v. content a (m (cell_key a e)) = Inr v) \<and> veq (value_at a m e) (f e)"
    using alike_inside [OF _ e(1)] v(1) k by (simp add: value_at_def cell_key_def)
qed

lemma value_unchanged: "m' (cell_key a e) = m (cell_key a e) \<Longrightarrow> value_at a m' e = value_at a m e"
  by (simp add: value_at_def)

lemma done_unchanged:
  "sound_object a (m (cell_key a e)) \<Longrightarrow> m' (cell_key a e) = m (cell_key a e) \<Longrightarrow> f e = value_at a m e \<Longrightarrow> done_at a m' f e"
  by (auto simp: done_at_def sound_object_def value_at_def)

section \<open>Write\<close>

text \<open>The stores the loop of \<open>Write\<close> goes through.\<close>

definition write_inv ::
    "'s arr \<Rightarrow> (string \<Rightarrow> bytes option) \<Rightarrow> (vec \<Rightarrow> elem) \<Rightarrow> vec \<Rightarrow> vec \<Rightarrow> nat set \<Rightarrow> nat set \<Rightarrow> (string \<Rightarrow> bytes option) \<Rightarrow> bool" where
  "write_inv a m f lo hi C D m' \<longleftrightarrow>
     (\<forall>key. (\<forall>n \<in> D. key \<noteq> storedKey a (spanInto lo hi n)) \<longrightarrow> m' key = m key) \<and>
     (\<forall>n \<in> C. cell_holds a (spanInto lo hi n) (m' (storedKey a (spanInto lo hi n))) f) \<and>
     (\<forall>n \<in> D. m' (storedKey a (spanInto lo hi n)) = m (storedKey a (spanInto lo hi n)) \<or>
        cell_holds a (spanInto lo hi n) (m' (storedKey a (spanInto lo hi n))) f)"

lemma write_inv_step:
  assumes inv: "write_inv a m f lo hi C D m'" and C: "C \<subseteq> D"
    and n: "\<And>k. k \<in> D \<Longrightarrow> storedKey a (spanInto lo hi k) \<noteq> storedKey a (spanInto lo hi n)"
  shows "cell_holds a (spanInto lo hi n) bo f \<Longrightarrow>
      write_inv a m f lo hi (insert n C) (insert n D) (m'(storedKey a (spanInto lo hi n) := bo))"
    and "n \<notin> D \<Longrightarrow> write_inv a m f lo hi C (insert n D) m'"
proof -
  let ?k = "\<lambda>n. storedKey a (spanInto lo hi n)"
  have m: "m' (?k n) = m (?k n)" using inv n unfolding write_inv_def by metis
  {
    assume h: "cell_holds a (spanInto lo hi n) bo f"
    have up: "(m'(?k n := bo)) (?k k) = (if k = n \<or> ?k k = ?k n then bo else m' (?k k))" for k by simp
    show "write_inv a m f lo hi (insert n C) (insert n D) (m'(?k n := bo))"
      unfolding write_inv_def
    proof (intro conjI allI ballI impI)
      fix key assume "\<forall>k \<in> insert n D. key \<noteq> ?k k"
      then show "(m'(?k n := bo)) key = m key" using inv by (simp add: write_inv_def)
    next
      fix k assume "k \<in> insert n C"
      then show "cell_holds a (spanInto lo hi k) ((m'(?k n := bo)) (?k k)) f"
        using inv h n [of k] C by (cases "k = n") (auto simp: write_inv_def)
    next
      fix k assume "k \<in> insert n D"
      then show "(m'(?k n := bo)) (?k k) = m (?k k) \<or> cell_holds a (spanInto lo hi k) ((m'(?k n := bo)) (?k k)) f"
        using inv h n [of k] by (cases "k = n") (auto simp: write_inv_def)
    qed
  }
  show "write_inv a m f lo hi C (insert n D) m'"
    using inv m unfolding write_inv_def by (metis insert_iff)
qed

text \<open>The cells of the elements of the array.\<close>

lemma cell_sound:
  assumes ok: "arr_ok env cs a" and r: "reads_region a (a_grid a) st sh lo hi" and rd: "readable a m" and b: "between lo hi sidx"
  shows "sound_object a (m (storedKey a sidx))"
proof -
  note l = reads_regionD(1-5) [OF r]
  from r have cr: "cell_range st sh (a_grid a) lo hi" "\<forall>v \<in> set sh. 0 < v" "fits st sh (a_shape a)" by (auto simp: reads_region_def)
  have ls: "length sidx = length (a_grid a)" using b l by (simp add: between_nth)
  have "sidx ! k * a_grid a ! k < a_shape a ! k" if k: "k < length (a_grid a)" for k
  proof -
    have "sidx ! k * a_grid a ! k < st ! k + sh ! k"
      using cell_hi_inside [OF cr arr_grid(4) [OF ok] b k] by simp
    also have "\<dots> \<le> a_shape a ! k" using cr(3) k l by (simp add: fits_nth)
    finally show ?thesis .
  qed
  then have i: "inside (timesV sidx (a_grid a)) (a_shape a)" using ls l by (simp add: list_all2_conv_all_nth)
  have "divV (timesV sidx (a_grid a)) (a_grid a) = sidx"
    using ls arr_grid(4) [OF ok] by (intro nth_equalityI) auto
  with rd i show ?thesis by (auto simp: readable_def cell_key_def)
qed

lemma span_key_inj:
  assumes ok: "arr_ok env cs a" and len: "length lo = length hi"
    and k: "k < spanLen lo hi" "n < spanLen lo hi" and e: "storedKey a (spanInto lo hi k) = storedKey a (spanInto lo hi n)"
  shows "k = n"
proof -
  have "spanInto lo hi k = spanInto lo hi n"
    using spanInto_length [OF len] by (intro storedKey_inj [OF ok _ e]) simp
  then show ?thesis using inj_onD [OF spanInto_inj [OF len]] k by blast
qed

text \<open>What the loop has done to the elements of the array, given what it did to its stored objects.\<close>

lemma span_written:
  assumes ok: "arr_ok env cs a" and rd: "readable a m"
    and len: "length lo = length hi" "length lo = length (mShape (a_meta a))"
    and out: "\<And>e. inside e (a_shape a) \<Longrightarrow> \<not> between lo hi (divV e (a_grid a)) \<Longrightarrow> f e = value_at a m e"
    and I: "write_inv a m f lo hi C D m'" and CD: "C \<subseteq> D" "D \<subseteq> {..< spanLen lo hi}"
  shows "half_written a m m' f" "C = {..< spanLen lo hi} \<Longrightarrow> written a m m' f"
proof -
  note g = arr_grid(1) [OF ok]
  have own: "own_key a (storedKey a (spanInto lo hi n))" for n
    unfolding own_key_def using spanInto_length [OF len(1), of n] len(2) by (intro exI [of _ "spanInto lo hi n"]) simp
  have cell: "\<forall>n < spanLen lo hi. cell_key a e \<noteq> storedKey a (spanInto lo hi n)"
    if e: "inside e (a_shape a)" and nb: "\<not> between lo hi (divV e (a_grid a))" for e
  proof (intro allI impI notI)
    have le: "length (divV e (a_grid a)) = length (mShape (a_meta a))" using list_all2_lengthD [OF e] g(1) by simp
    fix n assume n: "n < spanLen lo hi" and "cell_key a e = storedKey a (spanInto lo hi n)"
    then have "divV e (a_grid a) = spanInto lo hi n"
      using storedKey_inj [OF ok, of "divV e (a_grid a)" "spanInto lo hi n"] le spanInto_length [OF len(1)] len(2)
      by (simp add: cell_key_def)
    with spanInto_between [OF len(1) n] nb show False by simp
  qed
  have fr: "m' key = m key" if "\<not> own_key a key" for key
    using I own that unfolding write_inv_def by metis
  have ev: "(m' (cell_key a e) = m (cell_key a e) \<or> done_at a m' f e) \<and> (C = {..< spanLen lo hi} \<longrightarrow> done_at a m' f e)"
    if e: "inside e (a_shape a)" for e
  proof (cases "between lo hi (divV e (a_grid a))")
    case True
    define n where "n = spanOf lo hi (divV e (a_grid a))"
    have n: "n < spanLen lo hi" "spanInto lo hi n = divV e (a_grid a)" "cell_key a e = storedKey a (spanInto lo hi n)"
      using spanOf_bound [OF True] spanInto_spanOf [OF True] by (auto simp: n_def cell_key_def)
    have "done_at a m' f e" if "cell_holds a (spanInto lo hi n) (m' (storedKey a (spanInto lo hi n))) f"
      using that by (rule cell_holds_done [OF ok _ e n(2) [symmetric]])
    moreover have "m' (cell_key a e) = m (cell_key a e)" if "n \<notin> D"
    proof -
      have "storedKey a (spanInto lo hi n) \<noteq> storedKey a (spanInto lo hi k)" if "k \<in> D" for k
        using span_key_inj [OF ok len(1) n(1), of k] that \<open>n \<notin> D\<close> CD by blast
      then show ?thesis using I n(3) unfolding write_inv_def by metis
    qed
    ultimately show ?thesis using I n unfolding write_inv_def by (metis lessThan_iff)
  next
    case nb: False
    then have "m' (cell_key a e) = m (cell_key a e)"
      using I cell [OF e nb] CD(2) unfolding write_inv_def by (metis lessThan_iff subsetD)
    moreover have "done_at a m' f e" if "m' (cell_key a e) = m (cell_key a e)"
      using that out [OF e nb] rd e by (intro done_unchanged [where m = m]) (auto simp: readable_def)
    ultimately show ?thesis by blast
  qed
  show "half_written a m m' f" using fr ev by (simp add: half_written_def)
  show "C = {..< spanLen lo hi} \<Longrightarrow> written a m m' f" using fr ev by (simp add: written_def)
qed

context store_laws
begin

text \<open>A loop over stored objects each of which is written, or left as it was.\<close>

lemma wp_span:
  assumes ok: "arr_ok env cs a" and rd: "readable a (contents s)"
    and sched: "sched_ok sched" "\<And>s. live s \<Longrightarrow> sched_full sched"
    and len: "length lo = length hi" "length lo = length (mShape (a_meta a))"
    and out: "\<And>e. inside e (a_shape a) \<Longrightarrow> \<not> between lo hi (divV e (a_grid a)) \<Longrightarrow> f e = value_at a (contents s) e"
    and step: "\<And>sidx u Q R. between lo hi sidx \<Longrightarrow> contents u (storedKey a sidx) = contents s (storedKey a sidx) \<Longrightarrow>
      (\<And>t bo. contents t = (contents u)(storedKey a sidx := bo) \<Longrightarrow> cell_holds a sidx bo f \<Longrightarrow> Q () t) \<Longrightarrow>
      (\<And>t. contents t = contents u \<Longrightarrow> R t) \<Longrightarrow> wp live (g sidx) u Q R"
  shows "wp live (eachSpan sched lim lo hi (\<lambda>_. g)) s
    (\<lambda>_ t. written a (contents s) (contents t) f) (\<lambda>t. half_written a (contents s) (contents t) f)"
proof -
  let ?m = "contents s"
  let ?I = "\<lambda>C D t. write_inv a ?m f lo hi C D (contents t)"
  have w: "wp live (eachSpan sched lim lo hi (\<lambda>_. g)) s
      (\<lambda>_. ?I {..< spanLen lo hi} {..< spanLen lo hi}) (\<lambda>t. \<exists>C D. C \<subseteq> D \<and> D \<subseteq> {..< spanLen lo hi} \<and> ?I C D t)"
  proof (rule eachSpan_inv [OF sched(1)])
    fix n C D u
    assume n: "n < spanLen lo hi" "n \<notin> D" "C \<subseteq> D" "D \<subseteq> {..< spanLen lo hi}" and I: "?I C D u"
    let ?sidx = "spanInto lo hi n"
    have b: "between lo hi ?sidx" by (rule spanInto_between [OF len(1) n(1)])
    have ne: "storedKey a (spanInto lo hi k) \<noteq> storedKey a ?sidx" if k: "k \<in> D" for k
      using span_key_inj [OF ok len(1) _ n(1), of k] k n(2,4) by blast
    have mk: "contents u (storedKey a ?sidx) = ?m (storedKey a ?sidx)" using I ne unfolding write_inv_def by metis
    show "wp live (g ?sidx) u (\<lambda>_. ?I (insert n C) (insert n D)) (?I C (insert n D))"
    proof (rule step [OF b mk])
      fix t bo assume "contents t = (contents u)(storedKey a ?sidx := bo)" "cell_holds a ?sidx bo f"
      then show "?I (insert n C) (insert n D) t" using write_inv_step(1) [OF I n(3) ne] by simp
    next
      fix t assume "contents t = contents u"
      then show "?I C (insert n D) t" using write_inv_step(2) [OF I n(3) ne n(2)] by simp
    qed
  qed (use sched(2) in \<open>auto simp: write_inv_def\<close>)
  then show ?thesis
    by (rule wp_mono) (auto intro: span_written [OF ok rd len out])
qed

lemma write_correct:
  assumes ok: "arr_ok env cs a" and st: "a_store a = ops" and rd: "readable a (contents s)" and wr: "mFormat (a_meta a) \<noteq> 2"
    and sched: "sched_ok sched" "\<And>s. live s \<Longrightarrow> sched_full sched"
    and r: "region a start shape (a_grid a) = Inr (sa, sh, lo, hi, emp)"
    and d: "length data = product_of sh" "\<forall>x \<in> set data. type_of x = a_type a"
  shows "wp live (arr_write sched a (a_type a) start shape data) s
    (\<lambda>_ t. written a (contents s) (contents t) (new_value a (contents s) sa sh data))
    (\<lambda>t. half_written a (contents s) (contents t) (new_value a (contents s) sa sh data))"
proof -
  let ?m = "contents s"
  let ?f = "new_value a ?m sa sh data"
  note g = arr_grid(1,4) [OF ok]
  note f = region_reads [OF ok r g(1)]
  show ?thesis
  proof (cases emp)
    case True
    then have no: "\<not> in_block sa sh e" for e
      using f(2) by (auto simp: in_block_nth in_set_conv_nth)
    have "done_at a ?m ?f e" if "inside e (a_shape a)" for e
      using rd that no by (intro done_unchanged [where m = ?m]) (auto simp: readable_def new_value_def)
    then have "written a ?m ?m ?f" by (simp add: written_def)
    with True d(1) wr show ?thesis
      by (simp add: arr_write_def writable_def readOnly_def checkType_def r wp_def)
  next
    case False
    note rr = f(3) [OF False]
    have len: "length lo = length hi" "length lo = length (mShape (a_meta a))"
      using reads_regionD(3,4) [OF rr] g(1) by auto
    have out: "?f e = value_at a ?m e" if "inside e (a_shape a)" "\<not> between lo hi (divV e (a_grid a))" for e
    proof -
      have "\<not> in_block sa sh e"
        using region_cells [OF _ g(2), of sa sh lo hi e] rr that by (auto simp: reads_region_def)
      then show ?thesis by (simp add: new_value_def)
    qed
    have "wp live (eachSpan sched (limit a (spanLen lo hi)) lo hi (\<lambda>_. write_one a (a_type a) sa sh data)) s
      (\<lambda>_ t. written a ?m (contents t) ?f) (\<lambda>t. half_written a ?m (contents t) ?f)"
    proof (rule wp_span [OF ok rd sched len out])
      fix sidx u and Q :: "unit \<Rightarrow> 's \<Rightarrow> bool" and R
      assume b: "between lo hi sidx" and mk: "contents u (storedKey a sidx) = ?m (storedKey a sidx)"
        and QR: "\<And>t bo. contents t = (contents u)(storedKey a sidx := bo) \<Longrightarrow> cell_holds a sidx bo ?f \<Longrightarrow> Q () t"
          "\<And>t. contents t = contents u \<Longrightarrow> R t"
      obtain old where old: "content a (contents u (storedKey a sidx)) = Inr old"
        using cell_sound [OF ok rr rd b] mk by (auto simp: sound_object_def)
      show "wp live (write_one a (a_type a) sa sh data sidx) u Q R"
        by (rule wp_write_one [where m = ?m, OF ok st rr b old mk [symmetric] d]) (use QR in blast)+
    qed
    then show ?thesis
      using False d(1) wr by (simp add: arr_write_def writable_def readOnly_def checkType_def r)
  qed
qed

end

section \<open>WriteChunk\<close>

definition chunk_value :: "'s arr \<Rightarrow> (string \<Rightarrow> bytes option) \<Rightarrow> vec \<Rightarrow> elem list \<Rightarrow> vec \<Rightarrow> elem" where
  "chunk_value a m idx data e =
     (if divV e (a_chunks a) = idx then data ! lin (a_chunks a) (modV e (a_chunks a)) else value_at a m e)"

lemma written_one:
  assumes ok: "arr_ok env cs a" and rd: "readable a m" and si: "length sidx = length (mShape (a_meta a))"
    and h: "cell_holds a sidx bo f"
    and f: "\<And>e. inside e (a_shape a) \<Longrightarrow> divV e (a_grid a) \<noteq> sidx \<Longrightarrow> f e = value_at a m e"
  shows "written a m (m(storedKey a sidx := bo)) f"
  unfolding written_def
proof (intro conjI allI impI)
  fix key assume "\<not> own_key a key"
  then have "key \<noteq> storedKey a sidx" using si by (auto simp: own_key_def)
  then show "(m(storedKey a sidx := bo)) key = m key" by simp
next
  fix e assume e: "inside e (a_shape a)"
  show "done_at a (m(storedKey a sidx := bo)) f e"
  proof (cases "divV e (a_grid a) = sidx")
    case True
    with h show ?thesis by (intro cell_holds_done [OF ok _ e]) simp_all
  next
    case False
    have "length (divV e (a_grid a)) = length sidx"
      using list_all2_lengthD [OF e] arr_grid(1) [OF ok] si by simp
    then have "cell_key a e \<noteq> storedKey a sidx"
      using False storedKey_inj [OF ok] unfolding cell_key_def by blast
    then show ?thesis
      using rd e f [OF e False] by (intro done_unchanged [where m = m]) (auto simp: readable_def)
  qed
qed

context store_laws
begin

lemma writeChunk_correct:
  assumes ok: "arr_ok env cs a" and st: "a_store a = ops" and rd: "readable a (contents s)" and wr: "mFormat (a_meta a) \<noteq> 2"
    and idx: "inside idx (numChunks a)"
    and d: "length data = product_of (a_chunks a)" "\<forall>x \<in> set data. type_of x = a_type a"
  shows "wp live (writeChunk a (a_type a) (ints idx) data) s
    (\<lambda>_ t. written a (contents s) (contents t) (chunk_value a (contents s) idx data)) (\<lambda>t. contents t = contents s)"
proof -
  let ?m = "contents s"
  let ?f = "chunk_value a ?m idx data" and ?sidx = "shardOf a idx"
  have g: "length (a_chunks a) = length (mShape (a_meta a))" "positive (a_chunks a)"
    "length (a_grid a) = length (mShape (a_meta a))" "length (a_perShard a) = length (mShape (a_meta a))"
    "type_of (a_fill a) = a_type a" "positive (a_grid a)"
    using arr_grid [OF ok] by auto
  have li: "length idx = length (mShape (a_meta a))" using list_all2_lengthD [OF idx] g(1) by (simp add: numChunks_def)
  have si: "length ?sidx = length (mShape (a_meta a))" using li g(4) by (simp add: shardOf_def)
  have cc: "checkChunk a (ints idx) = Inr idx"
    using idx by (auto simp: checkChunk_def list_all2_conv_all_nth o_def)
  have so: "sound_object a (?m (storedKey a ?sidx))"
  proof -
    have "inside (timesV idx (a_chunks a)) (a_shape a)" by (rule chunk_start_inside [OF ok idx])
    then show ?thesis using li g(1) by (intro chunk_sound [OF ok _ _ rd]) simp_all
  qed
  then obtain old where old: "content a (?m (storedKey a ?sidx)) = Inr old" by (auto simp: sound_object_def)
  note ct = content_typed [OF ok old]
  have fe: "?f e = value_at a ?m e" if e: "inside e (a_shape a)" "divV e (a_grid a) \<noteq> ?sidx" for e
  proof -
    have le: "length e = length (a_chunks a)" using list_all2_lengthD [OF e(1)] g(1) by simp
    have "divV e (a_chunks a) \<noteq> idx"
    proof
      assume i: "divV e (a_chunks a) = idx"
      have "e = plusV (timesV idx (a_chunks a)) (modV e (a_chunks a))" using tile_index [OF le] i by simp
      with chunk_element(1) [OF ok li modV_inside [OF g(2) le]] e(2) show False by simp
    qed
    then show ?thesis by (simp add: chunk_value_def)
  qed
  have res: "written a ?m (?m(storedKey a ?sidx := bo)) ?f" if "cell_holds a ?sidx bo ?f" for bo
    by (rule written_one [OF ok rd si that fe])
  have dat: "data ! lin (a_chunks a) o' = ?f (plusV (timesV idx (a_chunks a)) o')" if "inside o' (a_chunks a)" for o'
    using cell_element [of idx "a_chunks a" o'] li g(1,2) that by (simp add: chunk_value_def)
  have head: "writeChunk a (a_type a) (ints idx) data = (case a_shard a of
            None \<Rightarrow> writeStored a idx data
          | Some s \<Rightarrow> if patchesChunks a then patchShard a s (a_type a) ?sidx idx idx (\<lambda>_ _. Inr data)
               else io_bind (readStored a (a_type a) ?sidx) (\<lambda>buf.
                   io_bind (io_lift (copyBlock buf (a_grid a) (timesV (minusV idx (timesV ?sidx (a_perShard a))) (a_chunks a))
                      data (a_chunks a) (zeros (length idx)) (a_chunks a)))
                     (\<lambda>buf. writeStored a ?sidx buf)))"
    using wr d(1) cc by (simp add: writeChunk_def writable_def readOnly_def checkType_def Let_def split: option.split)
  show ?thesis
  proof (cases "a_shard a")
    case None
    then have e: "a_chunks a = a_grid a" "?sidx = idx"
    proof -
      show c: "a_chunks a = a_grid a"
        using ok None by (auto simp: arr_ok_def shard_fields_def split: list.splits codec.splits sum.splits)
      have "a_perShard a = replicate (length (a_grid a)) 1"
        using ok None by (auto simp: arr_ok_def shard_fields_def split: list.splits codec.splits sum.splits)
      then show "?sidx = idx" using li g(3) by (auto simp: shardOf_def intro!: nth_equalityI)
    qed
    have "wp live (writeStored a idx data) s (\<lambda>_ t. written a ?m (contents t) ?f) (\<lambda>t. contents t = contents s)"
      using d dat res e by (intro wp_writeStored [OF ok st li, where f = ?f]) auto
    with None show ?thesis by (simp add: head)
  next
    case sh: (Some sd)
    note pl = chunk_place [OF ok li]
    show ?thesis
    proof (cases "patchesChunks a")
      case True
      then have pb: "pbytes (a_codecs a) = []" by (simp add: patchesChunks_def)
      have le: "list_all2 (\<le>) idx idx" by (simp add: list_all2_refl)
      have bt: "between idx idx i \<longleftrightarrow> i = idx" for i
        by (auto simp: between_nth intro!: nth_equalityI)
      have "wp live (patchShard a sd (a_type a) ?sidx idx idx (\<lambda>_ _. Inr data)) s
          (\<lambda>_ t. written a ?m (contents t) ?f) (\<lambda>t. contents t = contents s)"
      proof (rule wp_patchShard [OF ok st sh pb si old le, where f = ?f])
        fix i assume "between idx idx i"
        then have i: "i = idx" by (simp add: bt)
        have "patches a (\<lambda>_ _. Inr data) idx old ?f"
          unfolding patches_def using d dat by auto
        with i li show "shardOf a i = ?sidx \<and> length i = length (mShape (a_meta a)) \<and> patches a (\<lambda>_ _. Inr data) i old ?f"
          by simp
      next
        fix i o' assume i: "length i = length (mShape (a_meta a))" "shardOf a i = ?sidx" "\<not> between idx idx i"
          and o': "inside o' (a_chunks a)"
        have "?f (plusV (timesV i (a_chunks a)) o') = value_at a ?m (plusV (timesV i (a_chunks a)) o')"
          using chunk_element(2) [OF ok i(1) o'] i(3) by (simp add: chunk_value_def bt)
        also have "\<dots> = old ! lin (a_grid a) (plusV (timesV (modV i (a_perShard a)) (a_chunks a)) o')"
          using chunk_element [OF ok i(1) o'] old i(2) by (simp add: value_at_def cell_key_def)
        finally show "alike a (plusV (timesV i (a_chunks a)) o')
            (old ! lin (a_grid a) (plusV (timesV (modV i (a_perShard a)) (a_chunks a)) o')) (?f (plusV (timesV i (a_chunks a)) o'))"
          by simp
      qed (use res in auto)
      with True sh show ?thesis by (simp add: head)
    next
      case False
      let ?at = "timesV (modV idx (a_perShard a)) (a_chunks a)"
      have fit: "fits ?at (a_chunks a) (a_grid a)"
      proof -
        have gt: "a_grid a ! k = a_perShard a ! k * a_chunks a ! k" if "k < length (mShape (a_meta a))" for k
          using that g(1,4) by (subst arr_grid(7) [OF ok]) simp
        have "modV idx (a_perShard a) ! k * a_chunks a ! k + a_chunks a ! k \<le> a_perShard a ! k * a_chunks a ! k"
          if "k < length (mShape (a_meta a))" for k
        proof -
          have "Suc (modV idx (a_perShard a) ! k) \<le> a_perShard a ! k"
            using pl(2) that li g(4) by (simp add: list_all2_conv_all_nth Suc_le_eq)
          then have "Suc (modV idx (a_perShard a) ! k) * a_chunks a ! k \<le> a_perShard a ! k * a_chunks a ! k" by (rule mult_le_mono1)
          then show ?thesis by simp
        qed
        then show ?thesis using gt li g(1,3,4) by (simp add: fits_nth)
      qed
      obtain w where w: "copyBlock old (a_grid a) ?at data (a_chunks a) (zeros (length (a_chunks a))) (a_chunks a) = Inr w"
        "length w = product_of (a_grid a)"
        "\<And>o'. inside o' (a_grid a) \<Longrightarrow> w ! lin (a_grid a) o' =
           (if in_block ?at (a_chunks a) o' then data ! lin (a_chunks a) (minusV o' ?at) else old ! lin (a_grid a) o')"
        using copyBlock_in [OF fit d(1) ct(1)] by blast
      have tw: "\<forall>x \<in> set w. type_of x = a_type a" using copyBlock_subset [OF w(1)] ct(2) d(2) by auto
      have al: "alike a (plusV (timesV ?sidx (a_grid a)) o') (w ! lin (a_grid a) o') (?f (plusV (timesV ?sidx (a_grid a)) o'))"
        if o': "inside o' (a_grid a)" for o'
      proof -
        note cc = cell_chunk [OF ok si o']
        let ?i = "plusV (timesV ?sidx (a_perShard a)) (divV o' (a_chunks a))"
        have lo: "length o' = length (a_chunks a)" using list_all2_lengthD [OF o'] g(1,3) by simp
        have e: "divV (plusV (timesV ?sidx (a_grid a)) o') (a_chunks a) = ?i"
          "modV (plusV (timesV ?sidx (a_grid a)) o') (a_chunks a) = modV o' (a_chunks a)"
          using cell_element [of ?i "a_chunks a" "modV o' (a_chunks a)"] cc g(1,2) by auto
        have ie: "?i = idx \<longleftrightarrow> divV o' (a_chunks a) = modV idx (a_perShard a)"
        proof
          assume "divV o' (a_chunks a) = modV idx (a_perShard a)"
          then have "lin (a_perShard a) (modV ?i (a_perShard a)) = lin (a_perShard a) (modV idx (a_perShard a))" using cc(3) by simp
          then show "?i = idx" using place_inj [OF ok cc(1) li] cc(2) by simp
        qed (use cc(3) in auto)
        have ib: "in_block ?at (a_chunks a) o' \<longleftrightarrow> divV o' (a_chunks a) = modV idx (a_perShard a)"
          using lo li g(1,4) by (intro tile_iff [OF g(2)]) auto
        show ?thesis
        proof (cases "?i = idx")
          case True
          have "minusV o' ?at = modV o' (a_chunks a)" using tile_offset [OF g(2) lo] True ie by simp
          then show ?thesis using w(3) [OF o'] ib ie True e by (simp add: chunk_value_def)
        next
          case False
          then show ?thesis
            using w(3) [OF o'] ib ie e cell_value [where m = ?m, OF ok si o' old] by (simp add: chunk_value_def)
        qed
      qed
      have z: "length idx = length (a_chunks a)" using li g(1) by simp
      have "wp live (io_bind (readStored a (a_type a) ?sidx) (\<lambda>buf.
                   io_bind (io_lift (copyBlock buf (a_grid a) ?at data (a_chunks a) (zeros (length idx)) (a_chunks a)))
                     (\<lambda>buf. writeStored a ?sidx buf))) s
          (\<lambda>_ t. written a ?m (contents t) ?f) (\<lambda>t. contents t = contents s)"
      proof (rule wp_bind, rule wp_readStored [OF st storedKey_valid [OF ok] old])
        fix t assume t: "contents t = contents s"
        have "wp live (writeStored a ?sidx w) t (\<lambda>_ t. written a ?m (contents t) ?f) (\<lambda>t. contents t = contents s)"
          using w(2) tw al res t by (intro wp_writeStored [OF ok st si, where f = ?f]) auto
        then show "wp live (io_bind (io_lift (copyBlock old (a_grid a) ?at data (a_chunks a) (zeros (length idx)) (a_chunks a)))
                     (\<lambda>buf. writeStored a ?sidx buf)) t
          (\<lambda>_ t. written a ?m (contents t) ?f) (\<lambda>t. contents t = contents s)"
          using w(1) unfolding z by simp
      qed simp
      with False sh pl(1) show ?thesis by (simp add: head)
    qed
  qed
qed

end

end
