(* ===== verification/Examples.thy ===== *)
theory Examples
  imports WriteApi
begin

text \<open>
  A sharded array in a memory store, on which the properties of arrays are shown to apply: five
  bytes in chunks of two, two chunks to a shard. The compressors of the environment store what
  they are given.
\<close>

definition demo_env :: env where
  "demo_env =
     \<lparr>native = Little, gzip_write = \<lambda>_ b. Inr b, gzip_read = \<lambda>b. Inr (stream.make b None []),
      zlib_write = \<lambda>_ b. Inr b, zlib_read = \<lambda>b. Inr (stream.make b None []), grow_cap = Suc,
      ext_encode = \<lambda>_ b. Inr b, ext_decode = \<lambda>_ b. Inr b, ext_limit = \<lambda>_. None, ext_bound = \<lambda>_. None\<rparr>"

definition demo_codecs :: "codec list" where
  "demo_codecs = [ShardingCodec [2] None (Some [BytesCodec ''little'']) []]"

definition demo_pipe :: pipeline where
  "demo_pipe = \<lparr>parray = bytes_iface demo_env ''little'', pbytes = []\<rparr>"

definition demo_shard :: shard where
  "demo_shard = shard_of [2] [] demo_pipe demo_pipe"

definition demo_meta :: array_metadata where
  "demo_meta =
     \<lparr>mFormat = 3, mNode = ''array'', mShape = [5], mType = Uint8,
      mGrid = \<lparr>nName = ''regular'', nConfig = ''{\"chunk_shape\":[4]}'', nMust = None\<rparr>,
      mKeyEnc = \<lparr>nName = ''default'', nConfig = [], nMust = None\<rparr>, mFill = ''7'',
      mCodecs = [], mAttrs = [], mTransformers = [], mDims = None\<rparr>"

definition demo_array :: "memstore arr" where
  "demo_array =
     \<lparr>a_store = memory_ops, a_path = ''x'', a_meta = demo_meta, a_keys = \<lparr>k_v2 = False, k_sep = ''/''\<rparr>,
      a_fill = VUint8 7, a_codecs = \<lparr>parray = sharding_iface [2] []
        [ArrayBytes (bytes_iface demo_env ''little'')] [ArrayBytes (bytes_iface demo_env ''little'')], pbytes = []\<rparr>,
      a_grid = [4], a_chunks = [2], a_perShard = [2], a_shard = Some demo_shard, a_indexSize = 32,
      a_writeEmpty = False, a_concurrency = 0\<rparr>"

lemma demo_index:
  "encodeIndex demo_shard per ix = Inr (elem_bytes Little (Slice Uint64 (map VUint64 ix)))"
proof -
  have "bytes_EncodeArray (native demo_env) ''little'' (Slice Uint64 (map VUint64 ix)) (indexSpec per) =
      Inr (elem_bytes Little (Slice Uint64 (map VUint64 ix)))"
    by (rule bytes_EncodeArray_eq) (auto simp: wt_slice_def bytes_order_def indexSpec_def)
  then show ?thesis by (simp add: encodeIndex_def demo_shard_def shard_of_def demo_pipe_def pipe_encode_def bytes_iface_def)
qed

lemma demo_prepare:
  "prepare [2] [] [ArrayBytes (bytes_iface demo_env ''little'')] [ArrayBytes (bytes_iface demo_env ''little'')] =
     Inr (demo_shard, demo_pipe, demo_pipe)"
proof -
  have "fixed_index demo_shard = Inr ()"
    by (simp add: fixed_index_def demo_index length_elem_bytes)
  then show ?thesis by (simp add: prepare_def demo_pipe_def demo_shard_def)
qed

lemma demo_bytes_ok:
  "bytes_ok ''little'' \<lparr>spShape = [4], spType = Uint8, spFill = f, spKeep = k\<rparr>"
  "bytes_ok ''little'' (innerSpec demo_shard \<lparr>spShape = [4], spType = Uint8, spFill = f, spKeep = k\<rparr>)"
  "bytes_ok ''little'' (indexSpec [2])"
  by (simp_all add: bytes_ok_def bytes_order_def storedBytes_def elements_def maxInt64_def maxStoredBytes_def wrap64_id
      in_int64_def minInt64_def innerSpec_def demo_shard_def shard_of_def indexSpec_def)

lemma demo_ok: "arr_ok demo_env demo_codecs demo_array"
proof -
  have per: "perShard [2] [4] = Inr [2]" by (simp add: perShard_def divV_def)
  have cs: "chunkShape demo_shard = [2]" by (simp add: demo_shard_def shard_of_def)
  have st: "\<exists>z. storedBytes [4] Uint8 = Inr z" "\<exists>z. storedBytes [2, 2] Uint64 = Inr z"
    by (simp_all add: storedBytes_def elements_def maxInt64_def maxStoredBytes_def wrap64_id in_int64_def minInt64_def)
  have "codecs_ok demo_env demo_codecs (a_codecs demo_array) (storedSpec demo_array)"
    using demo_bytes_ok st
    by (simp add: codecs_ok_def codec_pipeline_def demo_codecs_def demo_array_def demo_meta_def storedSpec_def pipe_ok_def
        limits_known_def codecLists_def default_inner_def sharding_ok_def demo_prepare cs per demo_pipe_def)
  moreover have "shard_fields demo_env demo_codecs demo_array"
    using per st by (auto simp: shard_fields_def demo_codecs_def demo_array_def codecLists_def default_inner_def demo_prepare cs
        indexSize_def demo_index length_elem_bytes product_of_def)
  ultimately show ?thesis
    by (simp add: arr_ok_def index_limit_def fits_ints_def demo_array_def demo_meta_def elements_def maxInt64_def enc_ok_def checkPath_def validSegments_def)
qed

text \<open>An array in chunks of their own: three bytes, two to a chunk.\<close>

definition plain_codecs :: "codec list" where
  "plain_codecs = [BytesCodec ''little'']"

definition plain_array :: "memstore arr" where
  "plain_array =
     \<lparr>a_store = memory_ops, a_path = ''y'', a_meta = demo_meta\<lparr>mShape := [3], mGrid := \<lparr>nName = ''regular'', nConfig = ''{\"chunk_shape\":[2]}'', nMust = None\<rparr>\<rparr>, a_keys = \<lparr>k_v2 = False, k_sep = ''/''\<rparr>,
      a_fill = VUint8 7, a_codecs = demo_pipe,
      a_grid = [2], a_chunks = [2], a_perShard = [1], a_shard = None, a_indexSize = 0,
      a_writeEmpty = False, a_concurrency = 1\<rparr>"

lemma plain_ok: "arr_ok demo_env plain_codecs plain_array"
proof -
  have "bytes_ok ''little'' \<lparr>spShape = [2], spType = Uint8, spFill = f, spKeep = k\<rparr>" for f k
    by (simp add: bytes_ok_def bytes_order_def storedBytes_def elements_def maxInt64_def maxStoredBytes_def wrap64_id
      in_int64_def minInt64_def)
  then have "codecs_ok demo_env plain_codecs (a_codecs plain_array) (storedSpec plain_array)"
    by (simp add: codecs_ok_def codec_pipeline_def plain_codecs_def plain_array_def demo_meta_def storedSpec_def pipe_ok_def
        limits_known_def demo_pipe_def)
  then show ?thesis
    by (simp add: arr_ok_def index_limit_def fits_ints_def plain_array_def demo_meta_def elements_def maxInt64_def enc_ok_def checkPath_def
        validSegments_def shard_fields_def plain_codecs_def)
qed

lemma plain_write:
  "\<exists>b. length b = 2 \<and> arr_write (\<lambda>n. [0 ..< n]) plain_array Uint8 (Some [0]) (Some [2]) [VUint8 1, VUint8 2] newMemoryStore =
     (Inr (), newMemoryStore\<lparr>entries := DAList.update ''y/c/0'' b DAList.empty\<rparr>)"
proof -
  have e: "bytes_EncodeArray Little ''little'' (Slice Uint8 [VUint8 1, VUint8 2]) sp = Inr (elem_bytes Little (Slice Uint8 [VUint8 1, VUint8 2]))"
    if "spType sp = Uint8" for sp
    using that by (intro bytes_EncodeArray_eq) (auto simp: wt_slice_def bytes_order_def)
  have c: "copyBlock (filled 2 (VUint8 7)) [2] [0] [VUint8 1, VUint8 2] [2] [0] [Suc (Suc 0)] = Inr [VUint8 1, VUint8 2]"
    by (simp add: copyBlock_def eachRun_def run_loop.simps [of "[]"] copy_run_def Let_def)
  have k: "storedKey plain_array [0] = ''y/c/0''"
    by (simp add: storedKey_def plain_array_def join_path_def enc_key_def itoa.simps digit_def char_of_def bit_numeral_rec bit_0)
  have "writeStored plain_array [0] [VUint8 1, VUint8 2] newMemoryStore =
      (Inr (), newMemoryStore\<lparr>entries := DAList.update ''y/c/0'' (elem_bytes Little (Slice Uint8 [VUint8 1, VUint8 2])) DAList.empty\<rparr>)"
    unfolding writeStored_def k
    by (simp add: fillPastEnd_def fillPast_def fillPast_step_def plain_array_def demo_meta_def allFill_def go_eq_def is_nan_def
        pipe_encode_def demo_pipe_def bytes_iface_def demo_env_def storedSpec_def e memory_ops_def mem_set_def io_bind_def
        newMemoryStore_def ctx_Err_def checkKey_def validSegments_def)
  then show ?thesis
    by (intro exI [of _ "elem_bytes Little (Slice Uint8 [VUint8 1, VUint8 2])"])
     (simp add: length_elem_bytes arr_write_def writable_def readOnly_def checkType_def region_def Let_def plain_array_def demo_meta_def
      eachSpan_def spanLen_def spanInto_def limit_def write_one_def overlap_def patchesChunks_def c io_bind_def)
qed

end
