(* ===== verification/Codec_Theorems.thy ===== *)
theory Codec_Theorems
  imports Examples
begin

text \<open>
  What the copying of blocks, the codecs, the shards, the pipelines, the keys and the memory store
  of the package are right about, each with an instance where its hypotheses hold.
\<close>

section \<open>Blocks\<close>

text \<open>C7: a block that fits both arrays is copied without a panic; every element of the
  destination inside the block is the element of the source at the same place of its block, and
  every other element stays. (\<open>copyBlock\<close> and \<open>eachRun\<close> of \<open>src/array.go\<close>.)\<close>

theorem copyBlock_correct:
  assumes "fits dstAt n dstShape" "fits srcAt n srcShape"
    and "length dst = product_of dstShape" "length src = product_of srcShape"
  shows "\<exists>r. copyBlock dst dstShape dstAt src srcShape srcAt n = Inr r \<and> length r = length dst \<and>
           (\<forall>idx. inside idx dstShape \<longrightarrow>
              r ! lin dstShape idx =
                (if in_block dstAt n idx then src ! lin srcShape (plusV srcAt (minusV idx dstAt))
                 else dst ! lin dstShape idx))"
  using assms by (rule copyBlock_spec)

theorem copyBlock_correct_witness:
  "fits [1, 1] [2, 2] [3, 4] \<and> fits [0, 2] [2, 2] [2, 4] \<and>
   (\<exists>r. copyBlock (replicate 12 0) [3, 4] [1, 1] [10 ..< 18] [2, 4] [0, 2] [2, 2] = Inr r \<and>
      r ! lin [3, 4] [2, 1] = (16::nat) \<and> r ! lin [3, 4] [0, 1] = 0)"
proof -
  have f: "fits [1, 1] [2, 2] [3, 4]" "fits [0, 2] [2, 2] [2, 4]" by simp_all
  obtain r where r: "copyBlock (replicate 12 0) [3, 4] [1, 1] [10 ..< 18] [2, 4] [0, 2] [2, 2] = Inr r"
    "\<And>idx. inside idx [3, 4] \<Longrightarrow> r ! lin [3, 4] idx =
       (if in_block [1, 1] [2, 2] idx then [10 ..< 18] ! lin [2, 4] (plusV [0, 2] (minusV idx [1, 1]))
        else replicate 12 0 ! lin [3, 4] idx)"
    using copyBlock_correct [OF f, of "replicate 12 0" "[10 ..< 18]"] by auto
  have "r ! lin [3, 4] [2, 1] = 16" "r ! lin [3, 4] [0, 1] = 0"
    by (subst r(2); simp)+
  with f r(1) show ?thesis by blast
qed

text \<open>The loop over the indices of a region ends and visits each index of the region once, in C
  order: the n-th is the one \<open>spanInto\<close> gives for n. (\<open>eachIndex\<close>, \<open>spanInto\<close>.)\<close>

theorem eachIndex_visits_once:
  assumes "list_all2 (\<le>) lo hi"
  shows "eachIndex_order lo hi = map (spanInto lo hi) [0 ..< spanLen lo hi] \<and>
    distinct (eachIndex_order lo hi) \<and> set (eachIndex_order lo hi) = {idx. between lo hi idx} \<and>
    (\<forall>idx. between lo hi idx \<longrightarrow> eachIndex_order lo hi ! spanOf lo hi idx = idx)"
proof (intro conjI allI impI)
  fix idx assume b: "between lo hi idx"
  then show "eachIndex_order lo hi ! spanOf lo hi idx = idx"
    by (simp add: eachIndex_order_eq [OF assms] spanOf_bound [OF b] spanInto_spanOf [OF b])
qed (rule eachIndex_order_eq [OF assms] distinct_eachIndex_order [OF assms] set_eachIndex_order [OF assms])+

theorem eachIndex_visits_once_witness:
  "distinct (eachIndex_order [1, 2] [2, 4]) \<and> eachIndex_order [1, 2] [2, 4] ! 4 = [2, 3]"
proof -
  have l: "list_all2 (\<le>) [1, 2] [2, 4 :: nat]" and b: "between [1, 2] [2, 4] [2, 3]" by simp_all
  have "spanOf [1, 2] [2, 4] [2, 3] = 4" by simp
  with eachIndex_visits_once [OF l] b show ?thesis by (metis (no_types))
qed

section \<open>Codecs\<close>

text \<open>Elements written by the bytes codec on a machine of one byte order are read by a machine of
  the other, or the same, as they were: bit for bit, NaNs and their payloads included. (\<open>BytesCodec\<close>,
  \<open>swapBytes\<close>.)\<close>

theorem bytes_codec_portable:
  assumes "wt_slice chunk" "stype chunk = spType spec" "length (elems chunk) = product_of (spShape spec)"
    and "storedBytes (ints (spShape spec)) (spType spec) = Inr sz"
    and "bytes_EncodeArray m1 e chunk spec = Inr b"
  shows "bytes_DecodeArray m2 e b spec = Inr chunk"
  using assms by (rule bytes_roundtrip)

theorem bytes_codec_portable_witness:
  "\<exists>b. bytes_EncodeArray Little ''big'' (Slice Float32 [VFloat32 0x7FC00001]) \<lparr>spShape = [1], spType = Float32, spFill = VFloat32 0, spKeep = False\<rparr> = Inr b \<and>
     bytes_DecodeArray Big ''big'' b \<lparr>spShape = [1], spType = Float32, spFill = VFloat32 0, spKeep = False\<rparr> =
       Inr (Slice Float32 [VFloat32 0x7FC00001])"
proof -
  let ?c = "Slice Float32 [VFloat32 0x7FC00001]" and ?sp = "\<lparr>spShape = [1], spType = Float32, spFill = VFloat32 0, spKeep = False\<rparr>"
  have c: "wt_slice ?c" "stype ?c = spType ?sp" "length (elems ?c) = product_of (spShape ?sp)"
    by (simp_all add: wt_slice_def)
  have s: "storedBytes (ints (spShape ?sp)) (spType ?sp) = Inr 4"
    by (simp add: storedBytes_def elements_def maxInt64_def maxStoredBytes_def wrap64_id in_int64_def minInt64_def)
  obtain b where b: "bytes_EncodeArray Little ''big'' ?c ?sp = Inr b"
    using bytes_EncodeArray_eq [OF c(1), of "''big''" ?sp Big Little] by (auto simp: bytes_order_def)
  from bytes_codec_portable [OF c s b, of Big] b show ?thesis by blast
qed

text \<open>The crc32c codec accepts exactly what it writes: bytes decode to data just when they are the
  data and its checksum. (\<open>CRC32CCodec\<close>.)\<close>

theorem crc_accepts_its_own: "crc_DecodeBytes b = Inr data \<longleftrightarrow> crc_EncodeBytes data = Inr b"
  using crc_roundtrip crc_decode_encode by blast

text \<open>Shuffling moves bytes and nothing else, and shuffling back undoes it, for any element size
  and any number of bytes, those left over included. (\<open>ShuffleCodec\<close>.)\<close>

theorem shuffle_is_undone:
  assumes "shuffle_EncodeBytes es data = Inr b"
  shows "shuffle_DecodeBytes es b = Inr data \<and> mset b = mset data"
  using shuffle_roundtrip [OF assms] shuffle_mset [OF assms] by (rule conjI)

theorem shuffle_is_undone_witness:
  "\<exists>b. shuffle_EncodeBytes 2 [1, 2, 3, 4, 5] = Inr b \<and> shuffle_DecodeBytes 2 b = Inr [1, 2, 3, 4, 5]"
proof -
  obtain b where "shuffle_EncodeBytes 2 [1, 2, 3, 4, 5] = Inr b" using shuffle_total [of 2 "[1, 2, 3, 4, 5]"] by auto
  with shuffle_is_undone [OF this] show ?thesis by blast
qed

text \<open>A decompressor held to a limit never holds more than the limit: what it gives is all that
  the stream yields, if the stream yields no more than that and ends well; if it yields more, it is
  an error whatever comes after. Neither the hint of the first buffer, nor how that buffer grows, nor
  how many bytes each read gives make a difference. (\<open>inflate\<close>.)\<close>

theorem inflate_limited:
  assumes "0 \<le> lim"
  shows "inflate env r hint lim =
    (if lim < int (length (stream.content r)) then Inl (ErrOther ''a chunk inflates past the bytes it may be'')
     else case final r of None \<Rightarrow> Inr (stream.content r) | Some e \<Rightarrow> Inl e)"
  using assms by (rule inflate_spec)

theorem inflate_limited_witness:
  "inflate demo_env (stream.make [1, 2, 3] None [1, 0, 2]) 1 2 = Inl (ErrOther ''a chunk inflates past the bytes it may be'') \<and>
   inflate demo_env (stream.make [1, 2, 3] None [1, 0, 2]) 1 3 = Inr [1, 2, 3]"
  by (subst (1 2) inflate_limited) (simp_all add: stream.make_def)

section \<open>Shards\<close>

text \<open>C6: the check of a shard's index lets through exactly the indices whose chunks are each within
  the bounds, sums that wrap around an \<open>uint64\<close> included, and of which no two overlap. (\<open>checkIndex\<close>,
  \<open>entrySpan\<close>.)\<close>

theorem checkIndex_exact:
  "checkIndex index lo hi = Inr () \<longleftrightarrow>
     (\<forall>k < length index div 2. \<forall>p. held index k = Some p \<longrightarrow> lo \<le> fst p \<and> unat (fst p) + unat (snd p) \<le> unat hi) \<and>
     (\<forall>i j. i < j \<longrightarrow> j < length index div 2 \<longrightarrow> (\<forall>p q. held index i = Some p \<longrightarrow> held index j = Some q \<longrightarrow>
        unat (fst p) + unat (snd p) \<le> unat (fst q) \<or> unat (fst q) + unat (snd q) \<le> unat (fst p)))"
  by (simp add: checkIndex_iff sound_index_def within_def apart_def)

theorem checkIndex_exact_witness:
  "checkIndex [noChunk, noChunk, 6, 3] 4 9 = Inr () \<and> checkIndex [4, 3, 6, 3] 4 9 \<noteq> Inr ()"
proof
  have h: "held [noChunk, noChunk, 6, 3] 0 = None" "held [noChunk, noChunk, 6, 3] 1 = Some (6, 3)"
    by (simp_all add: held_def noChunk_def maxUint64_def)
  have k: "k = 0 \<or> k = 1" if "k < length [noChunk, noChunk, 6, 3] div 2" for k :: nat
    using that by auto
  have ij: "i = 0" if "i < j" "j < length [noChunk, noChunk, 6, 3] div 2" for i j :: nat
    using that by simp
  show "checkIndex [noChunk, noChunk, 6, 3] 4 9 = Inr ()"
    unfolding checkIndex_exact
  proof (intro conjI allI impI)
    fix i j p q assume "i < j" "j < length [noChunk, noChunk, 6, 3] div 2" and p: "held [noChunk, noChunk, 6, 3] i = Some p"
    then have "i = 0" by (intro ij)
    with h p show "unat (fst p) + unat (snd p) \<le> unat (fst q) \<or> unat (fst q) + unat (snd q) \<le> unat (fst p)" by simp
  qed (use k h in fastforce)+
  show "checkIndex [4, 3, 6, 3] 4 9 \<noteq> Inr ()"
  proof
    assume "checkIndex [4, 3, 6, 3] 4 9 = Inr ()"
    note c = this [unfolded checkIndex_exact, THEN conjunct2, rule_format, of 0 1 "(4, 3)" "(6, 3)"]
    show False using c by (simp add: held_def noChunk_def maxUint64_def)
  qed
qed

text \<open>C5: a shard put together from encoded chunks - some of which may not be there - is taken apart into
  the same chunks, byte for byte, with the index at either end and through whatever codecs of a fixed
  length the index goes. (\<open>assemble\<close>, \<open>split\<close>, \<open>checkIndex\<close>.)\<close>

theorem shard_parts_roundtrip:
  assumes "prepare cs loc (map (codec_iface env) ics) (map (codec_iface env) xcs) = Inr (s, ip, xp)"
    and "\<forall>c \<in> set xcs. fixed_codec c" "pipe_ok (map (codec_ok env) xcs) xp (indexSpec per)"
    and "assemble s per chunks = Inr data" "length chunks = product_of per" "length data < 2 ^ 63"
  shows "split_shard s per data = Inr chunks"
proof -
  have "s = shard_of cs loc ip xp" "pipelineOf (map (codec_iface env) xcs) = Inr xp"
    using assms(1) by (auto simp: prepare_def rbind_Inr_iff Let_def)
  moreover from this assms(2,3) have "index_codecs_ok env xcs xp (indexSpec per)"
    by (simp add: index_codecs_ok_def codecs_ok_def codec_pipeline_def)
  ultimately show ?thesis using shards.split_assembled assms(4-6) by blast
qed

theorem shard_parts_roundtrip_witness:
  "\<exists>data. assemble demo_shard [2] [None, Some [8, 9]] = Inr data \<and> split_shard demo_shard [2] data = Inr [None, Some [8, 9]]"
proof -
  have p: "prepare [2] [] (map (codec_iface demo_env) [BytesCodec ''little'']) (map (codec_iface demo_env) [BytesCodec ''little'']) =
      Inr (demo_shard, demo_pipe, demo_pipe)" by (simp add: demo_prepare)
  have x: "pipe_ok (map (codec_ok demo_env) [BytesCodec ''little'']) demo_pipe (indexSpec [2])"
    using demo_bytes_ok by (simp add: pipe_ok_def limits_known_def demo_pipe_def)
  have st: "\<exists>z. storedBytes [2, 2] Uint64 = Inr z"
    by (simp add: storedBytes_def elements_def maxInt64_def maxStoredBytes_def wrap64_id in_int64_def minInt64_def)
  have at: "atStart demo_shard = False" by (simp add: demo_shard_def shard_of_def)
  have "\<exists>ix. length ix = 4 \<and> assemble demo_shard [2] [None, Some [8, 9]] = Inr ([8, 9] @ elem_bytes Little (Slice Uint64 (map VUint64 ix)))"
    using st at by (intro exI [of _ "[noChunk, noChunk, 0, 2]"]) (auto simp: assemble_def indexSize_def demo_index product_of_def)
  then obtain ix where d: "assemble demo_shard [2] [None, Some [8, 9]] = Inr ([8, 9] @ elem_bytes Little (Slice Uint64 (map VUint64 ix)))"
    "length ix = 4" by blast
  have "split_shard demo_shard [2] ([8, 9] @ elem_bytes Little (Slice Uint64 (map VUint64 ix))) = Inr [None, Some [8, 9]]"
    by (rule shard_parts_roundtrip [OF p _ x d(1)]) (simp_all add: d length_elem_bytes)
  with d show ?thesis by blast
qed

section \<open>Pipelines\<close>

text \<open>C4: every chunk is encoded by a pipeline of codecs the model knows, with sharding nested to any
  depth, and decodes to a chunk of the same type and shape with the same elements up to \<open>==\<close>; the
  limits the decoders are held to never refuse it. (\<open>pipeline.encode\<close>, \<open>pipeline.decode\<close>,
  \<open>ShardingCodec\<close>, \<open>decodeLimit\<close>.)\<close>

theorem pipeline_roundtrip:
  assumes "codecs_ok env cs p spec" "chunk_of spec c"
  shows "\<exists>b. pipe_encode p c spec = Inr b \<and>
    (length b < 2 ^ 63 \<longrightarrow> (\<exists>c'. pipe_decode p b spec = Inr c' \<and> chunk_of spec c' \<and> veqs (elems c') (elems c)))"
proof -
  obtain b where b: "pipe_encode p c spec = Inr b" using pipelines.encode_total [OF assms] by blast
  have "\<exists>c'. pipe_decode p b spec = Inr c' \<and> chunk_of spec c' \<and> veqs (elems c') (elems c)" if "length b < 2 ^ 63"
    using pipelines.decode_encode [OF assms b that] pipelines.decode_typed [OF assms(1)] by blast
  with b show ?thesis by blast
qed

theorem pipeline_roundtrip_witness:
  "\<exists>b. pipe_encode (a_codecs demo_array) (Slice Uint8 [VUint8 1, VUint8 2, VUint8 7, VUint8 7]) (storedSpec demo_array) = Inr b \<and>
    (length b < 2 ^ 63 \<longrightarrow> (\<exists>c'. pipe_decode (a_codecs demo_array) b (storedSpec demo_array) = Inr c' \<and>
       veqs (elems c') [VUint8 1, VUint8 2, VUint8 7, VUint8 7]))"
proof -
  have "codecs_ok demo_env demo_codecs (a_codecs demo_array) (storedSpec demo_array)" using demo_ok by (simp add: arr_ok_def)
  moreover have "chunk_of (storedSpec demo_array) (Slice Uint8 [VUint8 1, VUint8 2, VUint8 7, VUint8 7])"
    by (simp add: chunk_of_def wt_slice_def storedSpec_def demo_array_def demo_meta_def)
  ultimately show ?thesis using pipeline_roundtrip by fastforce
qed

text \<open>C8: no encoded chunk is longer than the bound the package works out for it, where it works one out:
  through any pipeline, shards within shards included, with no step of the sum wrapping around an
  \<open>int64\<close>. (\<open>encodedBound\<close>, \<open>bytesBound\<close>, \<open>pipeline.bound\<close>.)\<close>

theorem encoded_bound_sound:
  assumes "codecs_ok env cs p spec" "chunk_of spec c" "pipe_encode p c spec = Inr b"
  shows "pipe_bound p spec = unbounded \<or> int (length b) \<le> pipe_bound p spec"
proof -
  have "codec_pipeline env cs = Inr p" "pipe_ok (map (codec_ok env) cs) p spec" using assms(1) by (auto simp: codecs_ok_def)
  with codecs_laws(2) assms(2,3) show ?thesis unfolding bound_sound_def by blast
qed

theorem encoded_bound_sound_witness:
  "\<exists>b. pipe_encode demo_pipe (Slice Uint8 [VUint8 1, VUint8 2]) (storedSpec plain_array) = Inr b \<and>
     pipe_bound demo_pipe (storedSpec plain_array) = 2 \<and> length b \<le> 2"
proof -
  have ok: "codecs_ok demo_env plain_codecs demo_pipe (storedSpec plain_array)"
    using plain_ok by (simp add: arr_ok_def plain_array_def)
  have c: "chunk_of (storedSpec plain_array) (Slice Uint8 [VUint8 1, VUint8 2])"
    by (simp add: chunk_of_def wt_slice_def storedSpec_def plain_array_def demo_meta_def)
  obtain b where b: "pipe_encode demo_pipe (Slice Uint8 [VUint8 1, VUint8 2]) (storedSpec plain_array) = Inr b"
    using pipelines.encode_total [OF ok c] by blast
  have n: "pipe_bound demo_pipe (storedSpec plain_array) = 2"
    by (simp add: pipe_bound_def demo_pipe_def bytes_iface_def bytes_bound_def storedSpec_def plain_array_def demo_meta_def
        storedBytes_def elements_def maxInt64_def maxStoredBytes_def wrap64_id in_int64_def minInt64_def)
  show ?thesis using encoded_bound_sound [OF ok c b] b n by (auto simp: unbounded_def)
qed

section \<open>Sizes\<close>

text \<open>The size of a chunk is worked out without overflow: where \<open>storedBytes\<close> gives a size it is
  the number of elements of the shape times the size of one, at most the 2 GiB a chunk may take, and no
  side is negative. (\<open>elements\<close>, \<open>storedBytes\<close>.)\<close>

theorem storedBytes_exact:
  assumes "storedBytes shape d = Inr n"
  shows "n = prod_list shape * int (dsize d) \<and> 0 \<le> n \<and> n \<le> maxStoredBytes \<and> (\<forall>v \<in> set shape. 0 \<le> v) \<and> dsize d \<noteq> 0"
proof -
  obtain m where "elements shape = Some m" using assms by (auto simp: storedBytes_def split: option.splits)
  then have s: "\<forall>v \<in> set shape. 0 \<le> v" using elements_exact by blast
  then have e: "ints (map nat shape) = shape" by (rule ints_nat)
  have "n = int (product_of (map nat shape) * dsize d)" "known d" "n \<le> maxStoredBytes"
    using storedBytes_Inr [of "map nat shape" d n] assms e by auto
  moreover have "int (product_of (map nat shape)) = prod_list shape" using prod_ints [of "map nat shape"] e by simp
  ultimately show ?thesis using s by simp
qed

theorem storedBytes_exact_witness:
  "storedBytes [3, 5] Int16 = Inr 30 \<and> 30 = prod_list [3, 5] * int (dsize Int16)"
proof -
  have s: "storedBytes [3, 5] Int16 = Inr 30"
    by (simp add: storedBytes_def elements_def maxInt64_def maxStoredBytes_def wrap64_id in_int64_def minInt64_def)
  from storedBytes_exact [OF s] s show ?thesis by blast
qed

section \<open>Fortran order\<close>

text \<open>Laying an array out in Fortran order puts the element at an index where the index of the axes
  turned round is in C order of the shape turned round, and turning it back gives the bytes there were.
  (\<open>reorder\<close>.)\<close>

theorem reorder_transposes:
  assumes "positive shape" "length src = product_of shape * sz"
  shows "\<exists>b. reorder (replicate (length src) 0) src shape sz False = Inr b \<and>
    (\<forall>idx j. inside idx shape \<longrightarrow> j < sz \<longrightarrow> b ! (lin (rev shape) (rev idx) * sz + j) = src ! (lin shape idx * sz + j)) \<and>
    reorder (replicate (length b) 0) b shape sz True = Inr src"
proof -
  obtain b where b: "reorder (replicate (length src) 0) src shape sz False = Inr b"
    "\<forall>idx j. inside idx shape \<longrightarrow> j < sz \<longrightarrow> b ! (lin (rev shape) (rev idx) * sz + j) = src ! (lin shape idx * sz + j)"
    using reorder_spec [OF assms, of "replicate (length src) 0" False] by auto
  with reorder_back [OF assms(2) b(1)] show ?thesis by blast
qed

theorem reorder_transposes_witness:
  "\<exists>b. reorder (replicate 6 0) [1, 2, 3, 4, 5, 6] [2, 3] 1 False = Inr b \<and> b ! 4 = 3 \<and>
     reorder (replicate (length b) 0) b [2, 3] 1 True = Inr [1, 2, 3, 4, 5, 6]"
proof -
  have l: "positive [2, 3]" "length [1, 2, 3, 4, 5, 6 :: byte] = product_of [2, 3] * 1" by simp_all
  obtain b where b: "reorder (replicate (length [1, 2, 3, 4, 5, 6 :: byte]) 0) [1, 2, 3, 4, 5, 6] [2, 3] 1 False = Inr b"
    "\<And>idx j. inside idx [2, 3] \<Longrightarrow> j < 1 \<Longrightarrow> b ! (lin (rev [2, 3]) (rev idx) * 1 + j) = [1, 2, 3, 4, 5, 6] ! (lin [2, 3] idx * 1 + j)"
    "reorder (replicate (length b) 0) b [2, 3] 1 True = Inr [1, 2, 3, 4, 5, 6]"
    using reorder_transposes [OF l] by blast
  have "b ! 4 = 3" using b(2) [of "[0, 2]" 0] by simp
  moreover have "reorder (replicate 6 0) [1, 2, 3, 4, 5, 6] [2, 3] 1 False = Inr b"
    using b(1) by (simp add: numeral_eq_Suc)
  ultimately show ?thesis using b(3) by blast
qed

section \<open>Keys\<close>

text \<open>Two stored objects of an array never share a key, no key of one is the array's metadata's, and
  every one is a key a store takes. (\<open>keyEncoding.key\<close>, \<open>storedKey\<close>, \<open>checkKey\<close>.)\<close>

theorem stored_keys_apart:
  assumes "arr_ok env cs a" "length i = length j"
  shows "(storedKey a i = storedKey a j \<longleftrightarrow> i = j) \<and> storedKey a i \<noteq> metadataKey (a_path a) \<and>
    checkKey (storedKey a i) = Inr ()"
  using storedKey_inj [OF assms] storedKey_valid [OF assms(1)] enc_key_not_metadata [of "a_path a" "a_keys a" i]
  by (auto simp: storedKey_def)

theorem stored_keys_apart_witness:
  "storedKey demo_array [1] \<noteq> storedKey demo_array [11] \<and> storedKey demo_array [1] \<noteq> ''x/zarr.json''"
proof -
  have "length [1 :: nat] = length [11 :: nat]" by simp
  from stored_keys_apart [OF demo_ok this] show ?thesis
    by (simp add: metadataKey_def join_path_def demo_array_def)
qed

section \<open>The memory store\<close>

text \<open>C12: a range of a value of the memory store is what was asked for, where it is within the value; it is
  an error where it is not - except that an offset and a length whose sum is more than an \<open>int64\<close> pass
  the check and panic. (\<open>span\<close>, \<open>MemoryStore.GetRange\<close>.)\<close>

theorem memory_range_exact:
  assumes "mem_live s" "in_int64 off" "in_int64 len" "mem_contents s k = Some v" "int (length v) \<le> maxInt64"
  shows "mem_range k off len s =
    (if range_in v off len then Inr (sub_bytes v off len)
     else if 0 \<le> range_at v off \<and> 0 \<le> len \<and> maxInt64 < range_at v off + len then Inl Panic
     else Inl (ErrOther ''range is outside the value''), s)"
proof -
  obtain r t where m: "mem_range k off len s = (r, t)" by fastforce
  from mem_range_spec [OF m assms(2,3)] assms(1,4,5) m show ?thesis by auto
qed

theorem memory_range_exact_witness:
  "mem_range ''k'' 1 9223372036854775807 (newMemoryStore\<lparr>entries := DAList.update ''k'' [1, 2, 3] DAList.empty\<rparr>) =
     (Inl Panic, newMemoryStore\<lparr>entries := DAList.update ''k'' [1, 2, 3] DAList.empty\<rparr>)"
proof -
  let ?s = "newMemoryStore\<lparr>entries := DAList.update ''k'' [1, 2, 3] DAList.empty\<rparr>"
  have s: "mem_live ?s" "in_int64 1" "in_int64 9223372036854775807" "mem_contents ?s ''k'' = Some [1, 2, 3]"
    "int (length [1, 2, 3 :: byte]) \<le> maxInt64"
    by (simp_all add: mem_live_def newMemoryStore_def in_int64_def minInt64_def maxInt64_def mem_contents_def lookup_update)
  show ?thesis by (subst memory_range_exact [OF s]) (simp add: range_in_def range_at_def maxInt64_def)
qed

text \<open>The listing of one level that the memory store makes from its sorted keys, and the one made of
  the listing of any store that has none of its own, name the same children, each once. (\<open>ListDir\<close>,
  \<open>MemoryStore.ListDir\<close>, \<open>dirName\<close>.)\<close>

theorem listdir_agree:
  assumes "list_dir memory_ops p s = (Inr ns, t)" "list_dir plain_ops p s = (Inr ns', t')"
  shows "distinct ns \<and> distinct ns' \<and> set ns = set ns' \<and>
    set ns = {dirName (drop (length p) k) | k. mem_contents s k \<noteq> None \<and> prefix p k}"
proof -
  obtain ks where ks: "mem_list p s = (Inr ks, t)" "ns = listdir_sorted None (map (\<lambda>k. dirName (drop (length p) k)) ks)"
    using assms(1) by (auto simp: list_dir_def memory_ops_def mem_listdir_def io_bind_eq_Inr_iff)
  obtain ks' where ks': "mem_list p s = (Inr ks', t')" "ns' = listdir_seen p [] ks'"
    using assms(2) by (auto simp: list_dir_def plain_ops_def memory_ops_def io_bind_eq_Inr_iff)
  have k: "ks' = ks" using ks(1) ks'(1) by simp
  have s: "sorted ks" "set ks = {k. mem_contents s k \<noteq> None \<and> prefix p k}" using mem_list_spec [OF ks(1)] by auto
  then have p: "\<forall>k \<in> set ks. prefix p k" by simp
  from mem_listdir_names [OF s(1) p] listdir_seen_spec [OF p, of "[]"] show ?thesis
    unfolding ks(2) ks'(2) k s(2) by auto
qed

theorem listdir_agree_witness:
  "\<exists>s ns ns'. list_dir memory_ops [] s = (Inr ns, s) \<and> list_dir plain_ops [] s = (Inr ns', s) \<and> ns = [''a/''] \<and> ns' = [''a/''] \<and> distinct ns'"
proof -
  let ?s = "newMemoryStore\<lparr>entries := DAList.update ''a/b'' [] DAList.empty\<rparr>"
  have l: "mem_list [] ?s = (Inr [''a/b''], ?s)"
    by (simp add: mem_list_def newMemoryStore_def io_bind_def ctx_Err_def checkPrefix_def validSegments_def DAList.empty.rep_eq
        DAList.update.rep_eq)
  have a: "list_dir memory_ops [] ?s = (Inr [''a/''], ?s)"
    using l by (simp add: list_dir_def memory_ops_def mem_listdir_def io_bind_def dirName_def)
  have b: "list_dir plain_ops [] ?s = (Inr [''a/''], ?s)"
    using l by (simp add: list_dir_def plain_ops_def memory_ops_def io_bind_def dirName_def)
  have "distinct [''a/'']" by (rule listdir_agree [OF a b, THEN conjunct2, THEN conjunct1])
  with a b show ?thesis by (intro exI conjI) (assumption | rule refl)+
qed

end
