(* ===== verification/Array_Theorems.thy ===== *)
theory Array_Theorems
  imports Examples
begin

text \<open>
  What reading and writing an array are right about, over any store that keeps its contract, and
  the instance of each on a sharded array in a memory store.
\<close>

lemma region_given:
  assumes ok: "arr_ok env cs a" and f: "fits start shape (a_shape a)"
  shows "\<exists>lo hi. region a (Some (ints start)) (Some (ints shape)) cell = Inr (start, shape, lo, hi, 0 \<in> set shape)"
proof -
  have "\<forall>v \<in> set (mShape (a_meta a)). 0 \<le> v" using ok by (simp add: arr_ok_def)
  then show ?thesis by (rule region_within [OF f])
qed

text \<open>A store is as good as its context: calls that are never made fail a loop too.\<close>

lemma store_reads_conj:
  assumes "store_reads ops contents live"
  shows "store_reads ops contents (\<lambda>s. live s \<and> p)"
proof -
  note l = assms [unfolded store_reads_def]
  show ?thesis
    unfolding store_reads_def using l by (elim conjE) (intro conjI; (assumption | meson | blast))
qed

lemma store_laws_conj:
  assumes "store_laws ops contents live"
  shows "store_laws ops contents (\<lambda>s. live s \<and> p)"
proof -
  note l = assms [unfolded store_laws_def store_laws_axioms_def]
  show ?thesis
    unfolding store_laws_def store_laws_axioms_def using l store_reads_conj [of ops contents live p]
    by (elim conjE) (intro conjI; (assumption | meson | blast))
qed

lemma demo_sched: "sched_ok (\<lambda>n. rev [0 ..< n]) \<and> sched_full (\<lambda>n. rev [0 ..< n])"
  by (auto simp: sched_ok_def sched_full_def)

lemma demo_new: "mem_contents newMemoryStore = (\<lambda>_. None)" "mem_live newMemoryStore"
  by (simp_all add: fun_eq_iff mem_contents_def newMemoryStore_def mem_live_def lookup_empty)

lemma demo_readable: "readable demo_array (\<lambda>_. None)"
  by (simp add: readable_def sound_object_def content_def)

lemma demo_fields: "a_store demo_array = memory_ops" "a_type demo_array = Uint8" "a_shape demo_array = [5]"
  "numChunks demo_array = [3]" "a_chunks demo_array = [2]" "mFormat (a_meta demo_array) = 3"
  by (simp_all add: demo_array_def demo_meta_def numChunks_def)

lemma demo_value: "value_at demo_array (\<lambda>_. None) e = VUint8 7" if h: "inside e [5]"
proof -
  obtain k where "e = [k]" "k < 5" using h by (cases e) auto
  then show ?thesis by (simp add: value_at_def content_def demo_array_def filled_replicate fill_elem_def modV_def go_eq_def)
qed

section \<open>Reading\<close>

text \<open>C1: reading a region that is within the array and small enough to be held gives, over any
  store that keeps its contract and in any order of the calls that are made at once, the element
  at every index of the region; the store holds what it held. A read only fails when the store
  does, or when it is cancelled. (\<open>Read\<close>, with the reading of chunks by ranges of their shards.)\<close>

theorem read_region_exact:
  assumes "store_reads ops contents live" "arr_ok env cs a" "a_store a = ops" "readable a (contents s)"
    and "sched_ok sched" "fits start shape (a_shape a)"
    and "int (product_of shape) \<le> maxInt64 div int (dsize (a_type a))"
  shows "case arr_read sched a (a_type a) (Some (ints start)) (Some (ints shape)) s of
      (Inr out, t) \<Rightarrow> contents t = contents s \<and> length out = product_of shape \<and>
        (\<forall>idx. inside idx shape \<longrightarrow> out ! lin shape idx = value_at a (contents s) (plusV start idx))
    | (Inl e, t) \<Rightarrow> \<not> (live s \<and> sched_full sched) \<and> contents t = contents s"
proof -
  obtain lo hi where r: "region a (Some (ints start)) (Some (ints shape)) (a_chunks a) = Inr (start, shape, lo, hi, 0 \<in> set shape)"
    using region_given [OF assms(2,6)] by blast
  have "wp (\<lambda>s. live s \<and> sched_full sched) (arr_read sched a (a_type a) (Some (ints start)) (Some (ints shape))) s
      (\<lambda>out t. contents t = contents s \<and> region_values a (contents s) start shape out) (\<lambda>t. contents t = contents s)"
    by (rule store_reads.read_correct [OF store_reads_conj [OF assms(1)] assms(2-5) _ r assms(7)]) simp
  then show ?thesis by (auto simp: wp_def region_values_def split: prod.splits sum.splits)
qed

theorem read_region_exact_witness:
  "\<exists>out t. arr_read (\<lambda>n. rev [0 ..< n]) demo_array Uint8 (Some [1]) (Some [3]) newMemoryStore = (Inr out, t) \<and>
     length out = 3 \<and> out ! 1 = VUint8 7 \<and> mem_contents t = (\<lambda>_. None)"
proof -
  have "case arr_read (\<lambda>n. rev [0 ..< n]) demo_array (a_type demo_array) (Some (ints [1])) (Some (ints [3])) newMemoryStore of
      (Inr out, t) \<Rightarrow> mem_contents t = mem_contents newMemoryStore \<and> length out = product_of [3] \<and>
        (\<forall>idx. inside idx [3] \<longrightarrow> out ! lin [3] idx = value_at demo_array (mem_contents newMemoryStore) (plusV [1] idx))
    | (Inl e, t) \<Rightarrow> \<not> (mem_live newMemoryStore \<and> sched_full (\<lambda>n. rev [0 ..< n])) \<and>
        mem_contents t = mem_contents newMemoryStore"
    by (rule read_region_exact [OF memory.store_reads_axioms demo_ok demo_fields(1)])
      (simp_all add: demo_new demo_readable demo_sched demo_fields maxInt64_def)
  then obtain out t where r: "arr_read (\<lambda>n. rev [0 ..< n]) demo_array Uint8 (Some [1]) (Some [3]) newMemoryStore = (Inr out, t)"
    "mem_contents t = (\<lambda>_. None)" "length out = 3"
    "\<And>idx. inside idx [3] \<Longrightarrow> out ! lin [3] idx = value_at demo_array (\<lambda>_. None) (plusV [1] idx)"
    by (auto simp: demo_new demo_sched demo_fields split: prod.splits sum.splits)
  have "out ! 1 = VUint8 7" using r(4) [of "[1]"] by (simp add: demo_value)
  with r show ?thesis by blast
qed

section \<open>Writing\<close>

text \<open>C2: writing a region that is within the array makes the elements of the region the data and
  leaves every other element as it was, over any store that keeps its contract and in any order
  of the calls that are made at once; only the keys of the array's own objects change. A write that
  fails - as it only does when the store does, or when it is cancelled - has left each stored
  object as it was or written it whole. (\<open>Write\<close>, \<open>patchShard\<close>, \<open>writeStored\<close>.)\<close>

theorem write_region_exact:
  assumes "store_laws ops contents live" "arr_ok env cs a" "a_store a = ops" "readable a (contents s)"
    and "mFormat (a_meta a) \<noteq> 2" "sched_ok sched" "fits start shape (a_shape a)"
    and "length data = product_of shape" "\<forall>x \<in> set data. type_of x = a_type a"
  shows "case arr_write sched a (a_type a) (Some (ints start)) (Some (ints shape)) data s of
      (Inr _, t) \<Rightarrow>
        (\<forall>key. \<not> own_key a key \<longrightarrow> contents t key = contents s key) \<and>
        (\<forall>e. inside e (a_shape a) \<longrightarrow>
           done_at a (contents t) (\<lambda>e. if in_block start shape e then data ! lin shape (minusV e start)
                                       else value_at a (contents s) e) e)
    | (Inl e, t) \<Rightarrow> \<not> (live s \<and> sched_full sched) \<and>
        (\<forall>key. \<not> own_key a key \<longrightarrow> contents t key = contents s key) \<and>
        (\<forall>e. inside e (a_shape a) \<longrightarrow> contents t (cell_key a e) = contents s (cell_key a e) \<or>
           done_at a (contents t) (\<lambda>e. if in_block start shape e then data ! lin shape (minusV e start)
                                       else value_at a (contents s) e) e)"
proof -
  obtain lo hi where r: "region a (Some (ints start)) (Some (ints shape)) (a_grid a) = Inr (start, shape, lo, hi, 0 \<in> set shape)"
    using region_given [OF assms(2,7)] by blast
  have n: "new_value a (contents s) start shape data =
      (\<lambda>e. if in_block start shape e then data ! lin shape (minusV e start) else value_at a (contents s) e)"
    by (rule ext) (simp add: new_value_def)
  have "wp (\<lambda>s. live s \<and> sched_full sched) (arr_write sched a (a_type a) (Some (ints start)) (Some (ints shape)) data) s
      (\<lambda>_ t. written a (contents s) (contents t) (new_value a (contents s) start shape data))
      (\<lambda>t. half_written a (contents s) (contents t) (new_value a (contents s) start shape data))"
    by (rule store_laws.write_correct [OF store_laws_conj [OF assms(1)] assms(2-6) _ r assms(8,9)]) simp
  then show ?thesis unfolding n by (auto simp: wp_def written_def half_written_def split: prod.splits sum.splits)
qed

abbreviation (input) demo_data :: "elem list" where
  "demo_data \<equiv> [VUint8 1, VUint8 2, VUint8 3]"

theorem write_region_exact_witness:
  "\<exists>t. arr_write (\<lambda>n. rev [0 ..< n]) demo_array Uint8 (Some [1]) (Some [3]) demo_data newMemoryStore = (Inr (), t) \<and>
     (short (mem_contents t (cell_key demo_array [3])) \<longrightarrow> veq (value_at demo_array (mem_contents t) [3]) (VUint8 3)) \<and>
     mem_contents t ''zarr.json'' = None"
proof -
  let ?sched = "\<lambda>n. rev [0 ..< n]" and ?s = newMemoryStore
  define f where "f = (\<lambda>e. if in_block [1] [3] e then demo_data ! lin [3] (minusV e [1])
                            else value_at demo_array (mem_contents ?s) e)"
  have "case arr_write ?sched demo_array (a_type demo_array) (Some (ints [1])) (Some (ints [3])) demo_data ?s of
      (Inr _, t) \<Rightarrow>
        (\<forall>key. \<not> own_key demo_array key \<longrightarrow> mem_contents t key = mem_contents ?s key) \<and>
        (\<forall>e. inside e (a_shape demo_array) \<longrightarrow> done_at demo_array (mem_contents t) f e)
    | (Inl e, t) \<Rightarrow> \<not> (mem_live ?s \<and> sched_full ?sched) \<and>
        (\<forall>key. \<not> own_key demo_array key \<longrightarrow> mem_contents t key = mem_contents ?s key) \<and>
        (\<forall>e. inside e (a_shape demo_array) \<longrightarrow> mem_contents t (cell_key demo_array e) = mem_contents ?s (cell_key demo_array e) \<or>
           done_at demo_array (mem_contents t) f e)"
    unfolding f_def
    by (rule write_region_exact [OF memory.store_laws_axioms demo_ok demo_fields(1)])
      (simp_all add: demo_new demo_readable demo_sched demo_fields)
  note w = this [unfolded demo_fields demo_new]
  obtain r t where rt: "arr_write ?sched demo_array Uint8 (Some (ints [1])) (Some (ints [3])) demo_data ?s = (r, t)"
    by (rule prod.exhaust)
  have r: "r = Inr ()" using w demo_sched demo_new unfolding rt by (cases r) simp_all
  have t: "\<And>key. \<not> own_key demo_array key \<Longrightarrow> mem_contents t key = None" "done_at demo_array (mem_contents t) f [3]"
    using w unfolding rt r by simp_all
  have "f [3] = VUint8 3" by (simp add: f_def minusV_def)
  moreover have "\<not> own_key demo_array ''zarr.json''"
    by (auto simp: own_key_def storedKey_def join_path_def demo_array_def)
  ultimately show ?thesis using t rt r by (auto simp: done_at_def)
qed

section \<open>Writing and then reading\<close>

text \<open>C3: a region that was written reads back as the data that was written, element by element up
  to \<open>==\<close>, in whatever order the calls of either are made. (\<open>Write\<close>, then \<open>Read\<close>.)\<close>

theorem write_then_read:
  assumes "store_laws ops contents live" "arr_ok env cs a" "a_store a = ops" "readable a (contents s)"
    and "mFormat (a_meta a) \<noteq> 2" "sched_ok sched" "sched_ok sched'" "fits start shape (a_shape a)"
    and "length data = product_of shape" "\<forall>x \<in> set data. type_of x = a_type a"
    and "int (product_of shape) \<le> maxInt64 div int (dsize (a_type a))"
    and "arr_write sched a (a_type a) (Some (ints start)) (Some (ints shape)) data s = (Inr u, t)"
    and "\<And>key b. contents t key = Some b \<Longrightarrow> length b < 2 ^ 63" "live t" "sched_full sched'"
  shows "\<exists>out v. arr_read sched' a (a_type a) (Some (ints start)) (Some (ints shape)) t = (Inr out, v) \<and> veqs out data"
proof -
  obtain lo hi where r: "region a (Some (ints start)) (Some (ints shape)) (a_grid a) = Inr (start, shape, lo, hi, 0 \<in> set shape)"
    using region_given [OF assms(2,8)] by blast
  let ?f = "new_value a (contents s) start shape data"
  have "wp (\<lambda>s. live s \<and> sched_full sched) (arr_write sched a (a_type a) (Some (ints start)) (Some (ints shape)) data) s
      (\<lambda>_ t. written a (contents s) (contents t) ?f) (\<lambda>t. half_written a (contents s) (contents t) ?f)"
    by (rule store_laws.write_correct [OF store_laws_conj [OF assms(1)] assms(2-6) _ r assms(9,10)]) simp
  from wp_Inr [OF this assms(12)] have w: "written a (contents s) (contents t) ?f" by (rule conjunct1)
  have sh: "short (contents t k)" for k using assms(13) by (auto simp: short_def)
  have d: "(\<exists>v. content a (contents t (cell_key a e)) = Inr v) \<and> veq (value_at a (contents t) e) (?f e)"
    if "inside e (a_shape a)" for e
    using w sh that by (auto simp: written_def done_at_def)
  then have rd: "readable a (contents t)" using assms(13) by (auto simp: readable_def sound_object_def)
  obtain lo' hi' where r': "region a (Some (ints start)) (Some (ints shape)) (a_chunks a) = Inr (start, shape, lo', hi', 0 \<in> set shape)"
    using region_given [OF assms(2,8)] by blast
  have "wp (\<lambda>s. live s \<and> sched_full sched') (arr_read sched' a (a_type a) (Some (ints start)) (Some (ints shape))) t
      (\<lambda>out u. contents u = contents t \<and> region_values a (contents t) start shape out) (\<lambda>u. contents u = contents t)"
    by (rule store_reads.read_correct [OF store_reads_conj [OF store_laws.axioms(1) [OF assms(1)]] assms(2,3) rd assms(7) _ r' assms(11)]) simp
  from wp_live [OF this] assms(14,15) obtain out v where
    out: "arr_read sched' a (a_type a) (Some (ints start)) (Some (ints shape)) t = (Inr out, v)"
    "length out = product_of shape"
    "\<And>i. inside i shape \<Longrightarrow> out ! lin shape i = value_at a (contents t) (plusV start i)"
    by (auto simp: region_values_def)
  have "veq (out ! x) (data ! x)" if x: "x < product_of shape" for x
  proof -
    let ?i = "unlin shape x"
    have i: "inside ?i shape" by (rule unlin_inside [OF x])
    have li: "length ?i = length shape" by (rule insideD [OF i])
    have e: "inside (plusV start ?i) (a_shape a)" "in_block start shape (plusV start ?i)" "minusV (plusV start ?i) start = ?i"
    proof -
      show b: "in_block start shape (plusV start ?i)"
        using i li assms(8) by (auto simp: in_block_nth fits_nth list_all2_conv_all_nth)
      show "inside (plusV start ?i) (a_shape a)" by (rule fits_inside [OF assms(8) b])
      show "minusV (plusV start ?i) start = ?i" using li assms(8) by (intro nth_equalityI) (auto simp: fits_nth)
    qed
    show ?thesis using d [OF e(1)] out(3) [OF i] e(2,3) lin_unlin [OF x] by (simp add: new_value_def)
  qed
  then show ?thesis using out(1,2) assms(9) by (auto simp: veqs_nth)
qed

theorem write_then_read_witness:
  "\<exists>t out v. arr_write (\<lambda>n. [0 ..< n]) plain_array Uint8 (Some [0]) (Some [2]) [VUint8 1, VUint8 2] newMemoryStore = (Inr (), t) \<and>
     arr_read (\<lambda>n. rev [0 ..< n]) plain_array Uint8 (Some [0]) (Some [2]) t = (Inr out, v) \<and> veqs out [VUint8 1, VUint8 2]"
proof -
  obtain b where b: "length b = 2" "arr_write (\<lambda>n. [0 ..< n]) plain_array Uint8 (Some [0]) (Some [2]) [VUint8 1, VUint8 2] newMemoryStore =
      (Inr (), newMemoryStore\<lparr>entries := DAList.update ''y/c/0'' b DAList.empty\<rparr>)"
    using plain_write by blast
  let ?t = "newMemoryStore\<lparr>entries := DAList.update ''y/c/0'' b DAList.empty\<rparr>"
  have f: "a_type plain_array = Uint8" "a_store plain_array = memory_ops" "a_shape plain_array = [3]" "mFormat (a_meta plain_array) \<noteq> 2"
    by (simp_all add: plain_array_def demo_meta_def)
  have w: "arr_write (\<lambda>n. [0 ..< n]) plain_array (a_type plain_array) (Some (ints [0])) (Some (ints [2])) [VUint8 1, VUint8 2] newMemoryStore =
      (Inr (), ?t)" using b(2) by (simp add: f)
  have rd: "readable plain_array (mem_contents newMemoryStore)"
    by (simp add: demo_new readable_def sound_object_def content_def)
  have l: "mem_live ?t" by (simp add: mem_live_def newMemoryStore_def)
  have "\<exists>out v. arr_read (\<lambda>n. rev [0 ..< n]) plain_array (a_type plain_array) (Some (ints [0])) (Some (ints [2])) ?t = (Inr out, v) \<and>
      veqs out [VUint8 1, VUint8 2]"
  proof (rule write_then_read [OF memory.store_laws_axioms plain_ok f(2) rd f(4) _ _ _ _ _ _ w])
    fix key x assume "mem_contents ?t key = Some x"
    then show "length x < 2 ^ 63" using b(1) by (auto simp: mem_contents_def lookup_update lookup_empty split: if_splits)
  qed (use l in \<open>auto simp: f demo_sched sched_ok_def maxInt64_def\<close>)
  with b(2) show ?thesis by (auto simp: f)
qed

section \<open>Chunks\<close>

text \<open>C9: a whole chunk reads as the elements of the chunk, the part past the end of the array
  included, over any store that keeps its contract. (\<open>ReadChunk\<close>.)\<close>

theorem readChunk_exact:
  assumes "store_reads ops contents live" "arr_ok env cs a" "a_store a = ops" "readable a (contents s)"
    and "inside idx (numChunks a)"
  shows "case readChunk a (a_type a) (ints idx) s of
      (Inr out, t) \<Rightarrow> contents t = contents s \<and> length out = product_of (a_chunks a) \<and>
        (\<forall>o'. inside o' (a_chunks a) \<longrightarrow>
           out ! lin (a_chunks a) o' = value_at a (contents s) (plusV (timesV idx (a_chunks a)) o'))
    | (Inl e, t) \<Rightarrow> \<not> live s \<and> contents t = contents s"
  using store_reads.readChunk_correct [OF assms]
  by (auto simp: wp_def chunk_at_nth split: prod.splits sum.splits)

theorem readChunk_exact_witness:
  "\<exists>out t. readChunk demo_array Uint8 [2] newMemoryStore = (Inr out, t) \<and> length out = 2 \<and> out ! 0 = VUint8 7"
proof -
  have "case readChunk demo_array (a_type demo_array) (ints [2]) newMemoryStore of
      (Inr out, t) \<Rightarrow> mem_contents t = mem_contents newMemoryStore \<and> length out = product_of (a_chunks demo_array) \<and>
        (\<forall>o'. inside o' (a_chunks demo_array) \<longrightarrow> out ! lin (a_chunks demo_array) o' =
           value_at demo_array (mem_contents newMemoryStore) (plusV (timesV [2] (a_chunks demo_array)) o'))
    | (Inl e, t) \<Rightarrow> \<not> mem_live newMemoryStore \<and> mem_contents t = mem_contents newMemoryStore"
    by (rule readChunk_exact [OF memory.store_reads_axioms demo_ok demo_fields(1)])
      (simp_all add: demo_new demo_readable demo_fields)
  note w = this [unfolded demo_fields demo_new]
  obtain r t where rt: "readChunk demo_array Uint8 (ints [2]) newMemoryStore = (r, t)" by (rule prod.exhaust)
  obtain out where out: "r = Inr out" using w demo_new unfolding rt by (cases r) simp_all
  have "length out = 2" "\<forall>o'. inside o' [2] \<longrightarrow> out ! lin [2] o' = value_at demo_array (\<lambda>_. None) (plusV (timesV [2] [2]) o')"
    using w unfolding rt out by simp_all
  from this(1) this(2) [rule_format, of "[0]"] show ?thesis using rt out by (simp add: demo_value)
qed

text \<open>C10: writing a whole chunk makes the elements of it that are within the array the data, and
  leaves every other element as it was; a failure changes nothing. (\<open>WriteChunk\<close>.)\<close>

theorem writeChunk_exact:
  assumes "store_laws ops contents live" "arr_ok env cs a" "a_store a = ops" "readable a (contents s)"
    and "mFormat (a_meta a) \<noteq> 2" "inside idx (numChunks a)"
    and "length data = product_of (a_chunks a)" "\<forall>x \<in> set data. type_of x = a_type a"
  shows "case writeChunk a (a_type a) (ints idx) data s of
      (Inr _, t) \<Rightarrow>
        (\<forall>key. \<not> own_key a key \<longrightarrow> contents t key = contents s key) \<and>
        (\<forall>e. inside e (a_shape a) \<longrightarrow>
           done_at a (contents t) (\<lambda>e. if divV e (a_chunks a) = idx then data ! lin (a_chunks a) (modV e (a_chunks a))
                                       else value_at a (contents s) e) e)
    | (Inl e, t) \<Rightarrow> \<not> live s \<and> contents t = contents s"
proof -
  have n: "chunk_value a (contents s) idx data =
      (\<lambda>e. if divV e (a_chunks a) = idx then data ! lin (a_chunks a) (modV e (a_chunks a)) else value_at a (contents s) e)"
    by (rule ext) (simp add: chunk_value_def)
  show ?thesis using store_laws.writeChunk_correct [OF assms]
    unfolding n by (auto simp: wp_def written_def split: prod.splits sum.splits)
qed

theorem writeChunk_exact_witness:
  "\<exists>t. writeChunk demo_array Uint8 [1] [VUint8 1, VUint8 2] newMemoryStore = (Inr (), t) \<and>
     (short (mem_contents t (cell_key demo_array [3])) \<longrightarrow> veq (value_at demo_array (mem_contents t) [3]) (VUint8 2))"
proof -
  let ?s = newMemoryStore and ?d = "[VUint8 1, VUint8 2]"
  define f where "f = (\<lambda>e. if divV e (a_chunks demo_array) = [1] then ?d ! lin (a_chunks demo_array) (modV e (a_chunks demo_array))
                            else value_at demo_array (mem_contents ?s) e)"
  have "case writeChunk demo_array (a_type demo_array) (ints [1]) ?d ?s of
      (Inr _, t) \<Rightarrow>
        (\<forall>key. \<not> own_key demo_array key \<longrightarrow> mem_contents t key = mem_contents ?s key) \<and>
        (\<forall>e. inside e (a_shape demo_array) \<longrightarrow> done_at demo_array (mem_contents t) f e)
    | (Inl e, t) \<Rightarrow> \<not> mem_live ?s \<and> mem_contents t = mem_contents ?s"
    unfolding f_def
    by (rule writeChunk_exact [OF memory.store_laws_axioms demo_ok demo_fields(1)])
      (simp_all add: demo_new demo_readable demo_fields)
  note w = this [unfolded demo_fields demo_new]
  obtain r t where rt: "writeChunk demo_array Uint8 (ints [1]) ?d ?s = (r, t)" by (rule prod.exhaust)
  have r: "r = Inr ()" using w demo_new unfolding rt by (cases r) simp_all
  have t: "done_at demo_array (mem_contents t) f [3]" using w unfolding rt r by simp_all
  have "f [3] = VUint8 2" by (simp add: f_def demo_fields divV_def modV_def)
  with t rt r show ?thesis by (auto simp: done_at_def)
qed

section \<open>Refusals\<close>

text \<open>C11: a region of the wrong number of dimensions, or one that begins or ends outside the array
  or has a negative side, is an error of \<open>Read\<close> and of \<open>Write\<close>, without a call to the store and
  without a panic, whatever the element type and however long the data. (\<open>region\<close>.)\<close>

theorem bad_region_refused:
  assumes "\<not> (length start = length (mShape (a_meta a)) \<and> length shape = length (mShape (a_meta a)) \<and>
      (\<forall>k < length (mShape (a_meta a)). 0 \<le> start ! k \<and> 0 \<le> shape ! k \<and> start ! k + shape ! k \<le> mShape (a_meta a) ! k))"
  shows "(\<exists>e. arr_read sched a t (Some start) (Some shape) s = (Inl e, s) \<and> e \<noteq> Panic) \<and>
         (\<exists>e. arr_write sched a t (Some start) (Some shape) data s = (Inl e, s) \<and> e \<noteq> Panic)"
proof -
  obtain e e' where e: "region a (Some start) (Some shape) (a_chunks a) = Inl (ErrOther e)"
    "region a (Some start) (Some shape) (a_grid a) = Inl (ErrOther e')"
    using region_refused [OF assms] by metis
  have "\<exists>e. arr_read sched a t (Some start) (Some shape) s = (Inl e, s) \<and> e \<noteq> Panic"
    by (cases "t = a_type a") (simp_all add: arr_read_def checkType_def e)
  moreover have "\<exists>e. arr_write sched a t (Some start) (Some shape) data s = (Inl e, s) \<and> e \<noteq> Panic"
    by (cases "mFormat (a_meta a) = 2"; cases "t = a_type a") (simp_all add: arr_write_def writable_def readOnly_def checkType_def e)
  ultimately show ?thesis by blast
qed

theorem bad_region_refused_witness:
  "\<exists>e. arr_read (\<lambda>n. [0 ..< n]) demo_array Uint8 (Some [4]) (Some [2]) newMemoryStore = (Inl e, newMemoryStore) \<and> e \<noteq> Panic"
proof -
  have "\<not> (length [4] = length (mShape (a_meta demo_array)) \<and> length [2] = length (mShape (a_meta demo_array)) \<and>
      (\<forall>k < length (mShape (a_meta demo_array)). 0 \<le> [4::int] ! k \<and> 0 \<le> [2::int] ! k \<and>
         [4] ! k + [2] ! k \<le> mShape (a_meta demo_array) ! k))"
    by (simp add: demo_array_def demo_meta_def)
  from bad_region_refused [OF this] show ?thesis by blast
qed

text \<open>Nothing is written to an array of version 2: \<open>Write\<close> and \<open>WriteChunk\<close> are refused with
  \<open>ErrZarrV2\<close> before anything else, and the store is not touched. (\<open>writable\<close>, \<open>readOnly\<close>.)\<close>

lemma version2_not_written:
  "mFormat (a_meta a) = 2 \<Longrightarrow>
     arr_write sched a t start shape data s = (Inl ErrZarrV2, s) \<and> writeChunk a t idx data s = (Inl ErrZarrV2, s)"
  by (simp add: arr_write_def writeChunk_def writable_def readOnly_def)

end
