(* ===== verification/Locks.thy ===== *)
theory Locks
  imports Prelude
begin

text \<open>
  The locks of stored objects (\<open>src/concurrent.go\<close>): \<open>keyLocks\<close> with \<open>lock\<close>, its \<open>unlock\<close> and
  \<open>release\<close>, and \<open>exclusive\<close>, which reads, changes and writes back a stored object under its lock.

  A \<open>*keyLock\<close> is an address in a list of lock objects, so that a lock that was dropped from the
  map and a new one of the same key are different objects; its channel is full or not. What runs
  under \<open>keyLocks.mu\<close> is one step. Between the steps of one goroutine any other may make steps,
  and a context may be cancelled whenever a goroutine waits.

  The lemmas: the count of a lock is how many hold it or wait for it; the map holds a lock just as
  long as someone does; nobody holds a key's lock beside another; and so what a goroutine writes
  back is made of what was there when it writes.
\<close>

section \<open>The state\<close>

record keyLock =
  ch_full :: bool
  users :: int

record keyLocks =
  held_locks :: "string \<Rightarrow> nat option"
  lock_objs :: "keyLock list"

text \<open>What \<open>lock\<close> does under the mutex: the address of the key's lock, made if there is none, with one
  more user.\<close>

definition lock_enter :: "string \<Rightarrow> keyLocks \<Rightarrow> nat \<times> keyLocks" where
  "lock_enter key l =
     (let (k, l) =
        (case held_locks l key of
           Some k \<Rightarrow> (k, l)
         | None \<Rightarrow>
             (length (lock_objs l),
              l\<lparr>held_locks := (held_locks l)(key \<mapsto> length (lock_objs l)),
                lock_objs := lock_objs l @ [\<lparr>ch_full = False, users = 0\<rparr>]\<rparr>))
      in (k, l\<lparr>lock_objs := (lock_objs l)[k := (lock_objs l ! k)\<lparr>users := users (lock_objs l ! k) + 1\<rparr>]\<rparr>))"

text \<open>\<open>k.ch <- struct{}{}\<close>, which waits while the channel is full, and \<open><-k.ch\<close>.\<close>

definition lock_take :: "nat \<Rightarrow> keyLocks \<Rightarrow> keyLocks option" where
  "lock_take k l =
     (if ch_full (lock_objs l ! k) then None
      else Some (l\<lparr>lock_objs := (lock_objs l)[k := (lock_objs l ! k)\<lparr>ch_full := True\<rparr>]\<rparr>))"

definition lock_free :: "nat \<Rightarrow> keyLocks \<Rightarrow> keyLocks option" where
  "lock_free k l =
     (if ch_full (lock_objs l ! k) then Some (l\<lparr>lock_objs := (lock_objs l)[k := (lock_objs l ! k)\<lparr>ch_full := False\<rparr>]\<rparr>)
      else None)"

definition lock_release :: "string \<Rightarrow> nat \<Rightarrow> keyLocks \<Rightarrow> keyLocks" where
  "lock_release key k l =
     (let u = users (lock_objs l ! k) - 1;
          l = l\<lparr>lock_objs := (lock_objs l)[k := (lock_objs l ! k)\<lparr>users := u\<rparr>]\<rparr>
      in if u = 0 then l\<lparr>held_locks := (held_locks l)(key := None)\<rparr> else l)"

section \<open>Goroutines\<close>

text \<open>Where a goroutine is in \<open>exclusive\<close>: what its key is, the address of the lock, and, once it has
  read the object, what it read.\<close>

datatype 'v stage =
    Outside
  | Waiting string nat
  | Holding string nat
  | HasRead string nat 'v
  | Written string nat
  | Leaving string nat

fun key_of :: "'v stage \<Rightarrow> (string \<times> nat) option" where
  "key_of Outside = None"
| "key_of (Waiting key k) = Some (key, k)"
| "key_of (Holding key k) = Some (key, k)"
| "key_of (HasRead key k v) = Some (key, k)"
| "key_of (Written key k) = Some (key, k)"
| "key_of (Leaving key k) = Some (key, k)"

fun holds :: "'v stage \<Rightarrow> nat \<Rightarrow> bool" where
  "holds (Holding key k) k' = (k = k')"
| "holds (HasRead key k v) k' = (k = k')"
| "holds (Written key k) k' = (k = k')"
| "holds _ k' = False"

text \<open>The store, and what was written to it, in order.\<close>

record 'v system =
  locks :: keyLocks
  places :: "nat \<Rightarrow> 'v stage"
  objects :: "string \<Rightarrow> 'v"
  history :: "(string \<times> ('v \<Rightarrow> 'v)) list"

definition start_system :: "(string \<Rightarrow> 'v) \<Rightarrow> 'v system" where
  "start_system objs =
     \<lparr>locks = \<lparr>held_locks = \<lambda>_. None, lock_objs = []\<rparr>, places = \<lambda>_. Outside, objects = objs, history = []\<rparr>"

text \<open>The steps of the goroutine \<open>i\<close>. One that fails to read or to write goes from \<open>Holding\<close> or \<open>HasRead\<close>
  straight to letting the lock go.\<close>

inductive lock_step :: "'v system \<Rightarrow> 'v system \<Rightarrow> bool" where
  enter: "places s i = Outside \<Longrightarrow> lock_enter key (locks s) = (k, l) \<Longrightarrow>
    lock_step s (s\<lparr>locks := l, places := (places s)(i := Waiting key k)\<rparr>)"
| take_lock: "places s i = Waiting key k \<Longrightarrow> lock_take k (locks s) = Some l \<Longrightarrow>
    lock_step s (s\<lparr>locks := l, places := (places s)(i := Holding key k)\<rparr>)"
| cancelled: "places s i = Waiting key k \<Longrightarrow>
    lock_step s (s\<lparr>places := (places s)(i := Leaving key k)\<rparr>)"
| read_object: "places s i = Holding key k \<Longrightarrow>
    lock_step s (s\<lparr>places := (places s)(i := HasRead key k (objects s key))\<rparr>)"
| write_object: "places s i = HasRead key k v \<Longrightarrow>
    lock_step s (s\<lparr>places := (places s)(i := Written key k), objects := (objects s)(key := f v),
                   history := history s @ [(key, f)]\<rparr>)"
| let_go: "places s i \<in> {Holding key k, HasRead key k v, Written key k} \<Longrightarrow> lock_free k (locks s) = Some l \<Longrightarrow>
    lock_step s (s\<lparr>locks := l, places := (places s)(i := Leaving key k)\<rparr>)"
| leave: "places s i = Leaving key k \<Longrightarrow>
    lock_step s (s\<lparr>locks := lock_release key k (locks s), places := (places s)(i := Outside)\<rparr>)"

inductive lock_run :: "'v system \<Rightarrow> 'v system \<Rightarrow> bool" where
  run_start: "lock_run s s"
| run_step: "lock_run s t \<Longrightarrow> lock_step t u \<Longrightarrow> lock_run s u"

section \<open>The invariant\<close>

text \<open>The goroutines at a lock.\<close>

definition at_lock :: "(nat \<Rightarrow> 'v stage) \<Rightarrow> nat \<Rightarrow> nat set" where
  "at_lock p k = {i. \<exists>key. key_of (p i) = Some (key, k)}"

text \<open>A lock of a key, and who is at it.\<close>

definition lock_ok :: "keyLocks \<Rightarrow> (nat \<Rightarrow> 'v stage) \<Rightarrow> string \<Rightarrow> nat \<Rightarrow> bool" where
  "lock_ok l p key k \<longleftrightarrow>
     k < length (lock_objs l) \<and> at_lock p k \<noteq> {} \<and> users (lock_objs l ! k) = int (card (at_lock p k)) \<and>
     (\<forall>key'. held_locks l key' = Some k \<longrightarrow> key' = key) \<and>
     (\<forall>i j. holds (p i) k \<longrightarrow> i \<noteq> j \<longrightarrow> \<not> holds (p j) k) \<and>
     (ch_full (lock_objs l ! k) \<longleftrightarrow> (\<exists>i. holds (p i) k))"

definition locks_ok :: "keyLocks \<Rightarrow> (nat \<Rightarrow> 'v stage) \<Rightarrow> bool" where
  "locks_ok l p \<longleftrightarrow>
     finite {i. p i \<noteq> Outside} \<and>
     (\<forall>i key k. key_of (p i) = Some (key, k) \<longrightarrow> held_locks l key = Some k) \<and>
     (\<forall>key k. held_locks l key = Some k \<longrightarrow> lock_ok l p key k)"

definition reads_ok :: "(nat \<Rightarrow> 'v stage) \<Rightarrow> (string \<Rightarrow> 'v) \<Rightarrow> bool" where
  "reads_ok p objs \<longleftrightarrow> (\<forall>i key k v. p i = HasRead key k v \<longrightarrow> v = objs key)"

lemma holds_key: "holds p k \<Longrightarrow> \<exists>key. key_of p = Some (key, k)"
  by (cases p) auto

lemma key_Outside [simp]: "key_of p = None \<longleftrightarrow> p = Outside"
  by (cases p) auto

lemma finite_at_lock: "finite {i. p i \<noteq> Outside} \<Longrightarrow> finite (at_lock p k)"
  by (rule finite_subset [of _ "{i. p i \<noteq> Outside}"]) (auto simp: at_lock_def)

lemma finite_places: "finite {i. p i \<noteq> Outside} \<Longrightarrow> finite {i. (p(j := x)) i \<noteq> Outside}"
  by (rule finite_subset [of _ "insert j {i. p i \<noteq> Outside}"]) auto

lemma at_lock_upd:
  "at_lock (p(i := q)) k = (at_lock p k - {i}) \<union> (if \<exists>key. key_of q = Some (key, k) then {i} else {})"
  by (auto simp: at_lock_def)

lemma locks_okD:
  assumes "locks_ok l p"
  shows "finite {i. p i \<noteq> Outside}"
    and "key_of (p i) = Some (key, k) \<Longrightarrow> held_locks l key = Some k"
    and "held_locks l key = Some k \<Longrightarrow> lock_ok l p key k"
  using assms by (auto simp: locks_ok_def)

text \<open>A goroutine is at one lock, of which the key is known.\<close>

lemma at_lock_key:
  assumes "locks_ok l p" "held_locks l key = Some k" "i \<in> at_lock p k"
  shows "key_of (p i) = Some (key, k)"
proof -
  obtain key' where k: "key_of (p i) = Some (key', k)" using assms(3) by (auto simp: at_lock_def)
  then have "held_locks l key' = Some k" using locks_okD(2) [OF assms(1)] by blast
  then have "key' = key" using locks_okD(3) [OF assms(1,2)] by (simp add: lock_ok_def)
  with k show ?thesis by simp
qed

text \<open>A step within one lock: the goroutine stays at it, and its channel is full after the step just if
  somebody holds it.\<close>

lemma move_ok:
  assumes ok: "locks_ok l p" and i: "key_of (p i) = Some (key, k)" "key_of q = Some (key, k)"
    and q: "holds q k \<Longrightarrow> \<forall>j. j \<noteq> i \<longrightarrow> \<not> holds (p j) k"
    and ch: "full \<longleftrightarrow> holds q k \<or> (\<exists>j. j \<noteq> i \<and> holds (p j) k)"
  shows "locks_ok (l\<lparr>lock_objs := (lock_objs l)[k := (lock_objs l ! k)\<lparr>ch_full := full\<rparr>]\<rparr>) (p(i := q))"
    (is "locks_ok ?l ?p")
proof -
  have h: "held_locks l key = Some k" using locks_okD(2) [OF ok i(1)] .
  have at: "at_lock ?p k' = at_lock p k'" for k'
    using i by (auto simp: at_lock_upd at_lock_def)
  have other: "holds (?p j) k' \<longleftrightarrow> holds (p j) k'" if "k' \<noteq> k" for j k'
    using that i holds_key [of "p i" k'] holds_key [of q k'] by (cases "j = i") auto
  have "lock_ok ?l ?p key' k'" if "held_locks l key' = Some k'" for key' k'
  proof -
    note o = locks_okD(3) [OF ok that]
    show ?thesis
    proof (cases "k' = k")
      case True
      have "\<not> holds (?p b) k" if "holds (?p a) k" "a \<noteq> b" for a b
        using that q o True by (auto simp: lock_ok_def split: if_splits)
      moreover have "full \<longleftrightarrow> (\<exists>j. holds (?p j) k)" using ch by auto
      ultimately show ?thesis using o True at by (simp add: lock_ok_def)
    next
      case False
      then show ?thesis using o at other by (simp add: lock_ok_def)
    qed
  qed
  moreover have "held_locks l key' = Some k'" if "key_of (?p j) = Some (key', k')" for j key' k'
    using that i h locks_okD(2) [OF ok] by (auto split: if_splits)
  ultimately show ?thesis using finite_places [OF locks_okD(1) [OF ok]] by (simp add: locks_ok_def)
qed

lemma stay_ok:
  assumes ok: "locks_ok l p" and i: "key_of (p i) = Some (key, k)" "key_of q = Some (key, k)" "holds q k \<longleftrightarrow> holds (p i) k"
  shows "locks_ok l (p(i := q))"
proof -
  have o: "lock_ok l p key k" using locks_okD(2,3) [OF ok] i(1) by blast
  then have "locks_ok (l\<lparr>lock_objs := (lock_objs l)[k := (lock_objs l ! k)\<lparr>ch_full := ch_full (lock_objs l ! k)\<rparr>]\<rparr>) (p(i := q))"
    using i by (intro move_ok [OF ok]) (auto simp: lock_ok_def)
  then show ?thesis by simp
qed

lemma take_ok:
  assumes ok: "locks_ok l p" and i: "p i = Waiting key k" and t: "lock_take k l = Some l'"
  shows "locks_ok l' (p(i := Holding key k))"
proof -
  have "lock_ok l p key k" using locks_okD(3) [OF ok locks_okD(2) [OF ok, of i key k]] i by simp
  moreover have f: "\<not> ch_full (lock_objs l ! k)" "l' = l\<lparr>lock_objs := (lock_objs l)[k := (lock_objs l ! k)\<lparr>ch_full := True\<rparr>]\<rparr>"
    using t by (auto simp: lock_take_def split: if_splits)
  ultimately show ?thesis unfolding f(2) using i by (intro move_ok [OF ok]) (auto simp: lock_ok_def)
qed

lemma let_go_ok:
  assumes ok: "locks_ok l p" and i: "key_of (p i) = Some (key, k)" "holds (p i) k" and t: "lock_free k l = Some l'"
  shows "locks_ok l' (p(i := Leaving key k))"
proof -
  have "lock_ok l p key k" by (rule locks_okD(3) [OF ok locks_okD(2) [OF ok i(1)]])
  moreover have f: "l' = l\<lparr>lock_objs := (lock_objs l)[k := (lock_objs l ! k)\<lparr>ch_full := False\<rparr>]\<rparr>"
    using t by (auto simp: lock_free_def split: if_splits)
  ultimately show ?thesis unfolding f using i by (intro move_ok [OF ok]) (auto simp: lock_ok_def)
qed

text \<open>The last to leave a lock drops it.\<close>

lemma leave_ok:
  assumes ok: "locks_ok l p" and i: "p i = Leaving key k"
  shows "locks_ok (lock_release key k l) (p(i := Outside))"
proof -
  let ?p = "p(i := Outside)" and ?l = "lock_release key k l"
  have h: "held_locks l key = Some k" using locks_okD(2) [OF ok, of i key k] i by simp
  note o = locks_okD(3) [OF ok h]
  have fin: "finite (at_lock p k)" by (rule finite_at_lock [OF locks_okD(1) [OF ok]])
  have i_in: "i \<in> at_lock p k" using i by (simp add: at_lock_def)
  have at: "at_lock ?p k = at_lock p k - {i}" "k' \<noteq> k \<Longrightarrow> at_lock ?p k' = at_lock p k'" for k'
    using i by (auto simp: at_lock_def)
  have card: "users (lock_objs l ! k) - 1 = int (card (at_lock ?p k))"
    using o fin i_in card_gt_0_iff [of "at_lock p k"] by (auto simp: lock_ok_def at of_nat_diff)
  have hold: "holds (?p j) k' \<longleftrightarrow> holds (p j) k'" for j k' using i by simp
  have last: "users (lock_objs l ! k) - 1 = 0 \<longleftrightarrow> at_lock ?p k = {}"
    using card fin by (simp add: at)
  have hl: "held_locks ?l key' = (if key' = key \<and> at_lock ?p k = {} then None else held_locks l key')" for key'
    using last by (simp add: lock_release_def Let_def)
  have obj: "lock_objs ?l = (lock_objs l)[k := (lock_objs l ! k)\<lparr>users := users (lock_objs l ! k) - 1\<rparr>]"
    by (simp add: lock_release_def Let_def)
  have "held_locks ?l key' = Some k'" if a: "key_of (?p j) = Some (key', k')" for j key' k'
  proof -
    have j: "j \<noteq> i" "key_of (p j) = Some (key', k')" using a by (auto split: if_splits)
    have hk: "held_locks l key' = Some k'" using locks_okD(2) [OF ok j(2)] .
    moreover have "key' \<noteq> key" if e: "at_lock ?p k = {}"
    proof
      assume "key' = key"
      then have "k' = k" using hk h by simp
      then have "j \<in> at_lock ?p k" using a by (auto simp: at_lock_def)
      with e show False by simp
    qed
    ultimately show ?thesis by (auto simp: hl)
  qed
  moreover have "lock_ok ?l ?p key' k'" if a: "held_locks ?l key' = Some k'" for key' k'
  proof -
    have hk: "held_locks l key' = Some k'" using a by (simp add: hl split: if_splits)
    note o' = locks_okD(3) [OF ok hk]
    have uniq: "held_locks ?l key'' = Some k' \<longrightarrow> key'' = key'" for key''
      using o' by (auto simp: lock_ok_def hl)
    show ?thesis
    proof (cases "k' = k")
      case True
      then have "key' = key" using o hk by (simp add: lock_ok_def)
      then have "at_lock ?p k \<noteq> {}" using a by (simp add: hl split: if_splits)
      with True o o' uniq card hold show ?thesis unfolding lock_ok_def obj by simp
    next
      case False
      with o' uniq at(2) [of k'] hold show ?thesis unfolding lock_ok_def obj by simp
    qed
  qed
  ultimately show ?thesis using finite_places [OF locks_okD(1) [OF ok]] unfolding locks_ok_def by blast
qed

text \<open>A goroutine at none comes to the lock of its key, which may have to be made.\<close>

lemma enter_ok:
  assumes ok: "locks_ok l p" and i: "p i = Outside" and e: "lock_enter key l = (k, l')"
  shows "locks_ok l' (p(i := Waiting key k))"
proof -
  let ?p = "p(i := Waiting key k)"
  have at: "at_lock ?p k = insert i (at_lock p k)" "k' \<noteq> k \<Longrightarrow> at_lock ?p k' = at_lock p k'" "i \<notin> at_lock p k''" for k' k''
    using i by (auto simp: at_lock_def)
  have hold: "holds (?p j) k' \<longleftrightarrow> holds (p j) k'" for j k' using i by simp
  have fin: "finite (at_lock p k')" for k' by (rule finite_at_lock [OF locks_okD(1) [OF ok]])
  have card: "int (card (at_lock ?p k)) = int (card (at_lock p k)) + 1" using fin at by simp
  have new: "held_locks l key' \<noteq> Some (length (lock_objs l))" for key'
    using locks_okD(3) [OF ok] by (fastforce simp: lock_ok_def)
  have none: "at_lock p (length (lock_objs l)) = {}"
    using locks_okD(2) [OF ok] new by (auto simp: at_lock_def)
  then have nobody: "\<not> holds (p j) (length (lock_objs l))" for j
    using holds_key by (fastforce simp: at_lock_def)
  have fresh: "k' < length (lock_objs l)" if "held_locks l key' = Some k'" for key' k'
    using locks_okD(3) [OF ok that] by (simp add: lock_ok_def)
  have hl: "held_locks l' key' = (if key' = key then Some k else held_locks l key')" for key'
    using e by (auto simp: lock_enter_def Let_def split: option.splits)
  have "held_locks l' key' = Some k'" if "key_of (?p j) = Some (key', k')" for j key' k'
  proof (cases "j = i")
    case True
    with that hl show ?thesis by simp
  next
    case False
    then have h: "held_locks l key' = Some k'" using locks_okD(2) [OF ok] that by simp
    have "k = k'" if "key' = key" using e h that by (auto simp: lock_enter_def Let_def)
    with h hl show ?thesis by auto
  qed
  moreover have "lock_ok l' ?p key' k'" if a: "held_locks l' key' = Some k'" for key' k'
  proof (cases "held_locks l key")
    case None
    then have k: "k = length (lock_objs l)"
      "l' = l\<lparr>held_locks := (held_locks l)(key \<mapsto> k), lock_objs := lock_objs l @ [\<lparr>ch_full = False, users = 1\<rparr>]\<rparr>"
      using e by (auto simp: lock_enter_def Let_def)
    show ?thesis
    proof (cases "key' = key")
      case True
      with a k have k': "k' = k" by simp
      show ?thesis
        unfolding True k' lock_ok_def
        using k at none nobody hold new card by (auto simp: nth_append)
    next
      case False
      with a k have h: "held_locks l key' = Some k'" by simp
      note o = locks_okD(3) [OF ok h]
      have ne: "k' \<noteq> k" "k' < length (lock_objs l)" using fresh [OF h] k by auto
      have uniq: "held_locks l' key'' = Some k' \<longrightarrow> key'' = key'" for key''
        using o ne by (auto simp: lock_ok_def hl)
      show ?thesis using o uniq ne at(2) [OF ne(1)] hold k(2) by (simp add: lock_ok_def nth_append)
    qed
  next
    case (Some k0)
    then have k: "k0 = k" "l' = l\<lparr>lock_objs := (lock_objs l)[k := (lock_objs l ! k)\<lparr>users := users (lock_objs l ! k) + 1\<rparr>]\<rparr>"
      using e by (auto simp: lock_enter_def Let_def)
    then have h: "held_locks l key' = Some k'" using a by simp
    note o = locks_okD(3) [OF ok h]
    show ?thesis
    proof (cases "k' = k")
      case True
      then show ?thesis using o k hold card at by (simp add: lock_ok_def)
    next
      case False
      then show ?thesis using o k hold at(2) [OF False] by (simp add: lock_ok_def)
    qed
  qed
  ultimately show ?thesis using finite_places [OF locks_okD(1) [OF ok]] unfolding locks_ok_def by blast
qed

section \<open>Every reachable state\<close>

definition system_ok :: "(string \<Rightarrow> 'v) \<Rightarrow> 'v system \<Rightarrow> bool" where
  "system_ok start s \<longleftrightarrow>
     locks_ok (locks s) (places s) \<and> reads_ok (places s) (objects s) \<and>
     (\<forall>key. objects s key = fold (\<lambda>(k, f) v. if k = key then f v else v) (history s) (start key))"

inductive_cases lock_run_cases: "lock_run s t"

lemma system_ok_start: "system_ok start (start_system start)"
  by (simp add: system_ok_def start_system_def locks_ok_def reads_ok_def)

text \<open>Nobody else has read what one writes.\<close>

lemma only_reader:
  assumes ok: "locks_ok l p" and i: "p i = HasRead key k v" and j: "p j = HasRead key k' w"
  shows "j = i"
proof -
  have "held_locks l key = Some k" "held_locks l key = Some k'"
    using locks_okD(2) [OF ok, of i key k] locks_okD(2) [OF ok, of j key k'] i j by simp_all
  then have "lock_ok l p key k" "k' = k" using locks_okD(3) [OF ok] by simp_all
  then show ?thesis using i j unfolding lock_ok_def by (metis holds.simps(2))
qed

lemma lock_step_ok: "lock_step s t \<Longrightarrow> system_ok start s \<Longrightarrow> system_ok start t"
proof (induction rule: lock_step.induct)
  case (enter s i key k l)
  then show ?case using enter_ok [of "locks s" "places s" i key k l] by (auto simp: system_ok_def reads_ok_def)
next
  case (take_lock s i key k l)
  then show ?case using take_ok [of "locks s" "places s" i key k l] by (auto simp: system_ok_def reads_ok_def)
next
  case (cancelled s i key k)
  then show ?case using stay_ok [of "locks s" "places s" i key k "Leaving key k"] by (auto simp: system_ok_def reads_ok_def)
next
  case (read_object s i key k)
  then show ?case
    using stay_ok [of "locks s" "places s" i key k "HasRead key k (objects s key)"] by (auto simp: system_ok_def reads_ok_def)
next
  case (write_object s i key k v f)
  then have ok: "locks_ok (locks s) (places s)" "reads_ok (places s) (objects s)" by (auto simp: system_ok_def)
  have v: "v = objects s key" using ok(2) write_object(1) by (auto simp: reads_ok_def)
  have "reads_ok ((places s)(i := Written key k)) ((objects s)(key := f v))"
    using ok only_reader [OF ok(1) write_object(1)] by (fastforce simp: reads_ok_def)
  moreover have "locks_ok (locks s) ((places s)(i := Written key k))"
    using write_object(1) by (intro stay_ok [OF ok(1)]) auto
  ultimately show ?case using write_object(2) v by (auto simp: system_ok_def)
next
  case (let_go s i key k v l)
  then show ?case using let_go_ok [of "locks s" "places s" i key k l] by (auto simp: system_ok_def reads_ok_def)
next
  case (leave s i key k)
  then show ?case using leave_ok [of "locks s" "places s" i key k] by (auto simp: system_ok_def reads_ok_def)
qed

lemma lock_run_ok: "lock_run s t \<Longrightarrow> system_ok start s \<Longrightarrow> system_ok start t"
  by (induction rule: lock_run.induct) (auto intro: lock_step_ok)

lemma reachable_ok: "lock_run (start_system start) t \<Longrightarrow> system_ok start t"
  by (rule lock_run_ok [OF _ system_ok_start])

end
