(* ===== verification/Lock_Theorems.thy ===== *)
theory Lock_Theorems
  imports Locks
begin

text \<open>
  What the locks of stored objects are for: one goroutine at a time, nothing lost, nothing left
  behind and nobody stuck.
\<close>

text \<open>C13: in every state that goroutines can reach, cancelled waits and dropped locks included, at most
  one of them is between taking the lock of a key and letting it go. (\<open>keyLocks.lock\<close>, \<open>exclusive\<close>.)\<close>

theorem one_holder_of_a_key:
  assumes "lock_run (start_system start) t"
    and "key_of (places t i) = Some (key, k)" "holds (places t i) k"
    and "key_of (places t j) = Some (key, k')" "holds (places t j) k'"
  shows "i = j"
proof -
  have ok: "locks_ok (locks t) (places t)" using reachable_ok [OF assms(1)] by (simp add: system_ok_def)
  have h: "held_locks (locks t) key = Some k" "k' = k"
    using locks_okD(2) [OF ok assms(2)] locks_okD(2) [OF ok assms(4)] by simp_all
  with locks_okD(3) [OF ok h(1)] assms(3,5) show ?thesis by (auto simp: lock_ok_def)
qed

text \<open>A run of two goroutines: the first holds the lock of \<open>a\<close> while the second waits for it.\<close>

definition demo_locks :: "nat system" where
  "demo_locks =
     \<lparr>locks = \<lparr>held_locks = [''a'' \<mapsto> 0], lock_objs = [\<lparr>ch_full = True, users = 2\<rparr>]\<rparr>,
      places = (\<lambda>_. Outside)(0 := Holding ''a'' 0, 1 := Waiting ''a'' 0), objects = \<lambda>_. 5, history = []\<rparr>"

lemma demo_locks_run: "lock_run (start_system (\<lambda>_. 5)) demo_locks"
proof -
  let ?s0 = "start_system (\<lambda>_. 5) :: nat system"
  let ?l1 = "\<lparr>held_locks = [''a'' \<mapsto> 0], lock_objs = [\<lparr>ch_full = False, users = 1\<rparr>]\<rparr>"
  let ?l2 = "\<lparr>held_locks = [''a'' \<mapsto> 0], lock_objs = [\<lparr>ch_full = True, users = 1\<rparr>]\<rparr>"
  let ?s1 = "?s0\<lparr>locks := ?l1, places := (places ?s0)(0 := Waiting ''a'' 0)\<rparr>"
  let ?s2 = "?s1\<lparr>locks := ?l2, places := (places ?s1)(0 := Holding ''a'' 0)\<rparr>"
  have 1: "lock_step ?s0 ?s1" by (rule enter) (simp_all add: start_system_def lock_enter_def)
  have 2: "lock_step ?s1 ?s2" by (rule take_lock) (simp_all add: lock_take_def)
  have 3: "lock_step ?s2 (?s2\<lparr>locks := locks demo_locks, places := (places ?s2)(1 := Waiting ''a'' 0)\<rparr>)"
    by (rule enter) (simp_all add: start_system_def lock_enter_def demo_locks_def)
  have e: "?s2\<lparr>locks := locks demo_locks, places := (places ?s2)(1 := Waiting ''a'' 0)\<rparr> = demo_locks"
    by (simp add: demo_locks_def start_system_def)
  have r2: "lock_run ?s0 ?s2" by (rule run_step [OF run_step [OF run_start 1] 2])
  show ?thesis using run_step [OF r2 3] unfolding e .
qed

theorem one_holder_of_a_key_witness:
  "{j. key_of (places demo_locks j) = Some (''a'', 0) \<and> holds (places demo_locks j) 0} = {0}"
proof -
  have "0 = j" if "key_of (places demo_locks j) = Some (''a'', 0)" "holds (places demo_locks j) 0" for j
    by (rule one_holder_of_a_key [OF demo_locks_run _ _ that]) (simp_all add: demo_locks_def)
  moreover have "key_of (places demo_locks 0) = Some (''a'', 0) \<and> holds (places demo_locks 0) 0"
    by (simp add: demo_locks_def)
  ultimately show ?thesis by auto
qed

text \<open>C14: no write is lost. Every stored object is what the goroutines' changes make of it, one after
  another in the order they wrote, and what a goroutine that is about to write has read is still what
  is there. (\<open>exclusive\<close>, around the reading and the writing of \<open>writeStored\<close> and \<open>patchShard\<close>.)\<close>

theorem no_lost_update:
  assumes "lock_run (start_system start) t"
  shows "objects t key = fold (\<lambda>(k, f) v. if k = key then f v else v) (history t) (start key) \<and>
    (\<forall>i k v. places t i = HasRead key k v \<longrightarrow> v = objects t key)"
  using reachable_ok [OF assms] unfolding system_ok_def reads_ok_def by blast

theorem no_lost_update_witness:
  "objects demo_locks ''a'' = fold (\<lambda>(k, f) v. if k = ''a'' then f v else v) (history demo_locks) 5"
  using no_lost_update [OF demo_locks_run, of "''a''"] by (rule conjunct1)

text \<open>C15: the map of locks holds the lock of a key just as long as some goroutine holds or waits for it,
  and counts them: when none is left nothing is kept. (\<open>keyLocks.release\<close>.)\<close>

theorem locks_counted_and_freed:
  assumes "lock_run (start_system start) t"
  shows "(held_locks (locks t) key = None \<longleftrightarrow> (\<forall>i k. key_of (places t i) \<noteq> Some (key, k))) \<and>
    (\<forall>k. held_locks (locks t) key = Some k \<longrightarrow>
       users (lock_objs (locks t) ! k) = int (card {i. key_of (places t i) = Some (key, k)}))"
proof -
  have ok: "locks_ok (locks t) (places t)" using reachable_ok [OF assms] by (simp add: system_ok_def)
  have at: "at_lock (places t) k = {i. key_of (places t i) = Some (key, k)}" if "held_locks (locks t) key = Some k" for k
    using at_lock_key [OF ok that] by (auto simp: at_lock_def)
  have l: "at_lock (places t) k \<noteq> {} \<and> users (lock_objs (locks t) ! k) = int (card (at_lock (places t) k))"
    if "held_locks (locks t) key = Some k" for k
    using locks_okD(3) [OF ok that] by (simp add: lock_ok_def)
  show ?thesis using l at locks_okD(2) [OF ok] by (cases "held_locks (locks t) key") fastforce+
qed

theorem locks_counted_and_freed_witness: "held_locks (locks demo_locks) ''b'' = None"
  using locks_counted_and_freed [OF demo_locks_run, of "''b''"] by (simp add: demo_locks_def)

text \<open>C16: nobody is stuck. A goroutine that waits for a lock either can take it now, or another one holds
  it, and that one can let it go now: neither \<open>unlock\<close> nor \<open>release\<close> ever waits. (\<open>keyLocks.lock\<close>.)\<close>

theorem waiting_makes_progress:
  assumes "lock_run (start_system start) t" "places t i = Waiting key k"
  shows "(\<exists>l. lock_take k (locks t) = Some l) \<or>
    (\<exists>j l u. j \<noteq> i \<and> holds (places t j) k \<and> lock_free k (locks t) = Some l \<and>
       lock_step t u \<and> places u j = Leaving key k)"
proof (cases "ch_full (lock_objs (locks t) ! k)")
  case False
  then show ?thesis by (simp add: lock_take_def)
next
  case True
  have ok: "locks_ok (locks t) (places t)" using reachable_ok [OF assms(1)] by (simp add: system_ok_def)
  have h: "held_locks (locks t) key = Some k" using locks_okD(2) [OF ok, of i key k] assms(2) by simp
  obtain j where j: "holds (places t j) k" using locks_okD(3) [OF ok h] True by (auto simp: lock_ok_def)
  obtain l where l: "lock_free k (locks t) = Some l" using True by (simp add: lock_free_def)
  have "j \<in> at_lock (places t) k" using holds_key [OF j] by (simp add: at_lock_def)
  then have kj: "key_of (places t j) = Some (key, k)" by (rule at_lock_key [OF ok h])
  have "\<exists>v. places t j \<in> {Holding key k, HasRead key k v, Written key k}"
    using j kj by (cases "places t j") auto
  then obtain v where "places t j \<in> {Holding key k, HasRead key k v, Written key k}" by blast
  from lock_step.let_go [OF this l]
  have "\<exists>u. lock_step t u \<and> places u j = Leaving key k" by fastforce
  moreover have "j \<noteq> i" using j assms(2) by auto
  ultimately show ?thesis using j l by blast
qed

theorem waiting_makes_progress_witness:
  "(\<exists>l. lock_take 0 (locks demo_locks) = Some l) \<or>
   (\<exists>j l u. j \<noteq> 1 \<and> holds (places demo_locks j) 0 \<and> lock_free 0 (locks demo_locks) = Some l \<and>
      lock_step demo_locks u \<and> places u j = Leaving ''a'' 0)"
  by (rule waiting_makes_progress [OF demo_locks_run]) (simp add: demo_locks_def)

end
