(* ===== verification/Deletes.thy ===== *)
theory Deletes
  imports Wp
begin

text \<open>
  Deleting a node and everything under it (\<open>src/delete.go\<close>): its metadata first, then every key
  under its path, in batches that are listed anew. A loop that need not end over an arbitrary store
  is a value of type \<open>option\<close>: \<open>None\<close> is not returning.

  The lemmas: over a store that keeps its contract and holds finitely many keys the loop ends; when
  it succeeds no key is left under the prefix, and whatever happens no other key is touched.
\<close>

definition batch :: nat where
  "batch = 1000"

partial_function (option) deletePrefix :: "'s store_ops \<Rightarrow> string \<Rightarrow> 's \<Rightarrow> (unit res \<times> 's) option" where
  "deletePrefix ops p s =
     (case st_list ops p s of
        (Inl e, t) \<Rightarrow> Some (Inl e, t)
      | (Inr keys, t) \<Rightarrow>
          (case io_each (st_delete ops) (take batch keys) t of
             (Inl e, u) \<Rightarrow> Some (Inl e, u)
           | (Inr _, u) \<Rightarrow> if length (take batch keys) < batch then Some (Inr (), u) else deletePrefix ops p u))"

definition delete_node :: "'s store_ops \<Rightarrow> string \<Rightarrow> 's \<Rightarrow> (unit res \<times> 's) option" where
  "delete_node ops path s =
     (case checkPath path of
        Inl e \<Rightarrow> Some (Inl e, s)
      | Inr _ \<Rightarrow>
          (case io_each (st_delete ops) [metadataKey path, join_path path ''.zarray'', join_path path ''.zgroup''] s of
             (Inl e, t) \<Rightarrow> Some (Inl e, t)
           | (Inr _, t) \<Rightarrow> deletePrefix ops (if path \<noteq> [] then path @ ''/'' else path) t))"

definition arr_delete :: "'s arr \<Rightarrow> 's \<Rightarrow> (unit res \<times> 's) option" where
  "arr_delete a = delete_node (a_store a) (a_path a)"

text \<open>What is left of a map when the keys of a set are gone.\<close>

definition node_dir :: "string \<Rightarrow> string" where
  "node_dir path = (if path = [] then path else path @ ''/'')"

lemma node_dir_prefix: "prefix (node_dir path) (join_path path name)"
  by (simp add: node_dir_def join_path_def)

lemma node_dir_valid: "checkPath path = Inr u \<Longrightarrow> checkPrefix (node_dir path) = Inr ()"
proof (cases "path = []")
  case False
  assume "checkPath path = Inr u"
  with False have p: "validSegments path False True" by (simp add: checkPath_def rguard_Inr_iff)
  have "str_split CHR ''/'' (path @ ''/'') = str_split CHR ''/'' path @ str_split CHR ''/'' []"
    using str_split_join_append [of "CHR ''/''" path "[]"] by simp
  with p False show ?thesis
    by (auto simp: checkPrefix_def node_dir_def validSegments_def valid_loop_iff nth_append rguard_Inr_iff)
qed (simp add: checkPrefix_def node_dir_def validSegments_def)

abbreviation without :: "(string \<Rightarrow> 'v option) \<Rightarrow> string set \<Rightarrow> string \<Rightarrow> 'v option" where
  "without m K \<equiv> (\<lambda>k. if k \<in> K then None else m k)"

context store_laws
begin

lemma delete_keys:
  "io_each (st_delete ops) ks s = (r, t) \<Longrightarrow>
     \<exists>n \<le> length ks. contents t = without (contents s) (set (take n ks)) \<and>
       (r = Inr () \<longrightarrow> n = length ks) \<and> (live s \<longrightarrow> live t \<and> r = Inr ())"
proof (induction ks arbitrary: s)
  case (Cons k ks)
  obtain r1 u where d: "st_delete ops k s = (r1, u)" by fastforce
  show ?case
  proof (cases r1)
    case (Inl e)
    have "r = Inl e" "t = u" using Cons.prems d Inl by (simp_all add: io_bind_def)
    moreover have "contents u = contents s" using delete_failed d Inl by blast
    moreover have "\<not> live s" using delete_live [of s k] d Inl by fastforce
    ultimately show ?thesis by (intro exI [of _ 0]) auto
  next
    case (Inr x)
    have rest: "io_each (st_delete ops) ks u = (r, t)" using Cons.prems d Inr by (simp add: io_bind_def)
    have c: "contents u = (contents s)(k := None)" using delete_done d Inr by blast
    have l: "live s \<longrightarrow> live u" using delete_live [of s k] d by fastforce
    from Cons.IH [OF rest] obtain n where n: "n \<le> length ks" "contents t = without (contents u) (set (take n ks))"
      "r = Inr () \<longrightarrow> n = length ks" "live u \<longrightarrow> live t \<and> r = Inr ()" by blast
    show ?thesis using n c l by (intro exI [of _ "Suc n"]) auto
  qed
qed (simp add: io_ret_def)

definition under :: "string \<Rightarrow> 's \<Rightarrow> string set" where
  "under p s = {k. contents s k \<noteq> None \<and> prefix p k}"

lemma deletePrefix_ends:
  assumes "finite (under p s)"
  shows "\<exists>r t. deletePrefix ops p s = Some (r, t) \<and>
    (\<exists>K. K \<subseteq> under p s \<and> contents t = without (contents s) K \<and> (r = Inr () \<longrightarrow> K = under p s)) \<and>
    (live s \<and> checkPrefix p = Inr () \<longrightarrow> live t \<and> r = Inr ())"
  using assms
proof (induction "card (under p s)" arbitrary: s rule: less_induct)
  case less
  obtain rl t where l: "st_list ops p s = (rl, t)" by fastforce
  have ct: "contents t = contents s" by (rule list_contents [OF l])
  show ?case
  proof (cases rl)
    case (Inl e)
    then have "\<not> (live s \<and> checkPrefix p = Inr ())" using list_live [of s p] l by fastforce
    with Inl l ct show ?thesis
      by (subst deletePrefix.simps) (auto intro!: exI [of _ "{}"])
  next
    case (Inr ks)
    have ks: "distinct ks" "set ks = under p s" using list_keys [of p s ks t] l Inr by (auto simp: under_def)
    have lv: "live s \<and> checkPrefix p = Inr () \<longrightarrow> live t" using list_live [of s p] l by fastforce
    obtain r u where d: "io_each (st_delete ops) (take batch ks) t = (r, u)" by fastforce
    from delete_keys [OF d] obtain n where n: "contents u = without (contents t) (set (take n (take batch ks)))"
      "r = Inr () \<longrightarrow> n = length (take batch ks)" "live t \<longrightarrow> live u \<and> r = Inr ()" by blast
    let ?K = "set (take n (take batch ks))"
    have sub: "?K \<subseteq> under p s" using ks(2) set_take_subset [of n "take batch ks"] set_take_subset [of batch ks] by blast
    show ?thesis
    proof (cases r)
      case e: (Inl e)
      then have "deletePrefix ops p s = Some (Inl e, u)" using l Inr d by (subst deletePrefix.simps) simp
      moreover have "contents u = without (contents s) ?K" using n(1) unfolding ct .
      moreover have "\<not> (live s \<and> checkPrefix p = Inr ())" using n(3) lv e by auto
      ultimately show ?thesis using sub by (intro exI [of _ "Inl e"] exI [of _ u] conjI exI [of _ ?K]) auto
    next
      case ok: (Inr x)
      then have len: "n = length (take batch ks)" using n(2) by simp
      show ?thesis
      proof (cases "length (take batch ks) < batch")
        case True
        then have "deletePrefix ops p s = Some (Inr (), u)" using l Inr d ok by (subst deletePrefix.simps) (simp del: length_take)
        moreover have "?K = under p s" using True len ks(2) by simp
        moreover have "contents u = without (contents s) ?K" using n(1) unfolding ct .
        moreover have "live s \<and> checkPrefix p = Inr () \<longrightarrow> live u" using n(3) lv by auto
        ultimately show ?thesis by (intro exI [of _ "Inr ()"] exI [of _ u] conjI exI [of _ ?K]) auto
      next
        case False
        then have eq: "deletePrefix ops p s = deletePrefix ops p u" using l Inr d ok by (subst deletePrefix.simps) (simp del: length_take)
        have K: "?K = set (take batch ks)" unfolding len by (simp only: take_all order_refl)
        have und: "under p u = under p s - ?K" using n(1) ct by (auto simp: under_def)
        have "take batch ks \<noteq> []" using False by (auto simp: batch_def)
        then obtain k where k: "k \<in> ?K" unfolding K by (meson list.set_sel(1))
        have "under p u \<subset> under p s" unfolding und using k sub by blast
        then have "card (under p u) < card (under p s)" using less.prems by (intro psubset_card_mono)
        from less.hyps [OF this] less.prems obtain r' v K' where r: "deletePrefix ops p u = Some (r', v)"
          "K' \<subseteq> under p u" "contents v = without (contents u) K'" "r' = Inr () \<longrightarrow> K' = under p u"
          "live u \<and> checkPrefix p = Inr () \<longrightarrow> live v \<and> r' = Inr ()" by (auto simp: und)
        have "contents v = without (contents s) (?K \<union> K')" using r(3) n(1) ct by auto
        moreover have "?K \<union> K' \<subseteq> under p s" "r' = Inr () \<longrightarrow> ?K \<union> K' = under p s" using r(2,4) und sub by auto
        moreover have "live s \<and> checkPrefix p = Inr () \<longrightarrow> live v \<and> r' = Inr ()" using r(5) n(3) lv by auto
        moreover have "deletePrefix ops p s = Some (r', v)" using eq r(1) by simp
        ultimately show ?thesis by (intro exI [of _ r'] exI [of _ v] conjI exI [of _ "?K \<union> K'"])
      qed
    qed
  qed
qed

text \<open>The node's metadata goes before anything else of it.\<close>

lemma delete_node_ends:
  assumes "finite {k. contents s k \<noteq> None}"
  shows "\<exists>r t. delete_node ops path s = Some (r, t) \<and>
    (\<forall>k. contents t k = (if contents t k = None \<and> prefix (node_dir path) k then None else contents s k)) \<and>
    (r = Inr () \<longrightarrow> (\<forall>k. prefix (node_dir path) k \<longrightarrow> contents t k = None)) \<and>
    (contents t = contents s \<or> contents t (metadataKey path) = None) \<and>
    (live s \<and> checkPath path = Inr () \<longrightarrow> live t \<and> r = Inr ())"
proof (cases "checkPath path")
  case (Inl e)
  then show ?thesis by (simp add: delete_node_def)
next
  case (Inr x)
  let ?ks = "[metadataKey path, join_path path ''.zarray'', join_path path ''.zgroup'']"
  have pre: "prefix (node_dir path) k" if "k \<in> set ?ks" for k using that node_dir_prefix by (auto simp: metadataKey_def)
  obtain r t where d: "io_each (st_delete ops) ?ks s = (r, t)" by fastforce
  from delete_keys [OF d] obtain n where n: "contents t = without (contents s) (set (take n ?ks))"
    "r = Inr () \<longrightarrow> n = length ?ks" "live s \<longrightarrow> live t \<and> r = Inr ()" by blast
  have first: "contents t = contents s \<or> contents t (metadataKey path) = None" using n(1) by (cases n) auto
  have sub: "set (take n ?ks) \<subseteq> set ?ks" by (rule set_take_subset)
  show ?thesis
  proof (cases r)
    case e: (Inl e)
    then have "delete_node ops path s = Some (Inl e, t)" using d Inr by (simp add: delete_node_def)
    moreover have "contents t k = (if contents t k = None \<and> prefix (node_dir path) k then None else contents s k)" for k
      using n(1) sub pre by auto
    ultimately show ?thesis using e n(3) first by (intro exI [of _ "Inl e"] exI [of _ t]) auto
  next
    case ok: (Inr y)
    have dir: "(if path \<noteq> [] then path @ ''/'' else path) = node_dir path" by (simp add: node_dir_def)
    have eq: "delete_node ops path s = deletePrefix ops (node_dir path) t"
      using d Inr ok unfolding dir [symmetric] by (simp add: delete_node_def)
    have n3: "n = 3" using n(2) ok by simp
    have gone: "contents t (metadataKey path) = None" using n(1) n3 by simp
    have "under (node_dir path) t \<subseteq> {k. contents s k \<noteq> None}" using n(1) by (auto simp: under_def split: if_splits)
    with assms have fin: "finite (under (node_dir path) t)" by (rule rev_finite_subset)
    from deletePrefix_ends [OF fin] obtain r' u K where r: "deletePrefix ops (node_dir path) t = Some (r', u)"
      "K \<subseteq> under (node_dir path) t" "contents u = without (contents t) K" "r' = Inr () \<longrightarrow> K = under (node_dir path) t"
      "live t \<and> checkPrefix (node_dir path) = Inr () \<longrightarrow> live u \<and> r' = Inr ()" by blast
    have "contents u k = (if contents u k = None \<and> prefix (node_dir path) k then None else contents s k)" for k
      using r(2,3) n(1) sub pre by (auto simp: under_def)
    moreover have "contents u k = None" if "r' = Inr ()" "prefix (node_dir path) k" for k
      using r(3,4) that by (auto simp: under_def)
    moreover have "contents u (metadataKey path) = None" using r(3) gone by simp
    ultimately show ?thesis using eq r(1,5) n(3) ok node_dir_valid [OF Inr]
      by (intro exI [of _ r'] exI [of _ u]) auto
  qed
qed

end

end
