(* ===== verification/Resizes.thy ===== *)
theory Resizes
  imports WriteApi "HOL-Library.Signed_Division"
begin

text \<open>
  The stored objects of an array whose shape changes (\<open>src/resize.go\<close>): those wholly past the new
  end are deleted, those it cuts through are filled past it, one after another or several at once.

  The array \<open>b\<close> is \<open>a\<close> at its new shape. Sums and quotients of \<open>int\<close>s are on 64 bits; \<open>product(n)\<close>
  of the counts is only ever compared with 0, and a count that wrapped around to a negative number
  is a loop over nothing, as a count of 0 is.
\<close>

definition numStored :: "'s arr \<Rightarrow> int list" where
  "numStored a = map2 (\<lambda>s g. wrap64 (wrap64 (s + int g) - 1) sdiv int g) (mShape (a_meta a)) (a_grid a)"

text \<open>\<open>refill\<close> and \<open>refillAs\<close>, under the lock of the stored object.\<close>

definition refill :: "'s arr \<Rightarrow> 's arr \<Rightarrow> vec \<Rightarrow> ('s, unit) io" where
  "refill a b sidx =
     (if dsize (a_type a) = 0 then io_err ErrUnsupported
      else io_bind (readStored a (a_type a) sidx) (\<lambda>buf. writeStored b sidx buf))"

definition resize_one :: "'s arr \<Rightarrow> 's arr \<Rightarrow> vec \<Rightarrow> ('s, unit) io" where
  "resize_one a b sidx =
     (let origin = timesV sidx (a_grid a); old = mShape (a_meta a); new = mShape (a_meta b);
          gone = (\<exists>k < length origin. int (origin ! k) \<ge> new ! k);
          cut = (\<exists>k < length origin. wrap64 (int (origin ! k) + int (a_grid a ! k)) > new ! k \<and> new ! k < old ! k)
      in if gone then st_delete (a_store a) (storedKey a sidx)
         else if cut then refill a b sidx
         else io_ret ())"

definition resizeStored :: "(nat \<Rightarrow> nat list) \<Rightarrow> 's arr \<Rightarrow> 's arr \<Rightarrow> ('s, unit) io" where
  "resizeStored sched a b =
     (let shrinks = (\<exists>k < length (mShape (a_meta a)). mShape (a_meta b) ! k < mShape (a_meta a) ! k);
          n = numStored a
      in if \<not> shrinks \<or> (\<exists>v \<in> set n. v \<le> 0) then io_ret ()
         else
           (let lo = zeros (length n); hi = minusOne (map nat n)
            in eachSpan sched (limit a (spanLen lo hi)) lo hi (\<lambda>_. resize_one a b)))"

section \<open>The cells of an array\<close>

text \<open>An array at another shape.\<close>

definition reshaped :: "'s arr \<Rightarrow> int list \<Rightarrow> 's arr" where
  "reshaped a S = a\<lparr>a_meta := (a_meta a)\<lparr>mShape := S\<rparr>\<rparr>"

lemma reshaped_simps [simp]:
  "a_store (reshaped a S) = a_store a" "a_path (reshaped a S) = a_path a" "a_keys (reshaped a S) = a_keys a"
  "a_fill (reshaped a S) = a_fill a" "a_codecs (reshaped a S) = a_codecs a" "a_grid (reshaped a S) = a_grid a"
  "a_type (reshaped a S) = a_type a" "mShape (a_meta (reshaped a S)) = S"
  by (simp_all add: reshaped_def)

lemma reshaped_key [simp]: "storedKey (reshaped a S) = storedKey a"
  by (simp add: storedKey_def fun_eq_iff)

lemma reshaped_spec [simp]: "storedSpec (reshaped a S) = storedSpec a"
  by (simp add: storedSpec_def) (simp add: reshaped_def)

lemma reshaped_content [simp]: "content (reshaped a S) = content a"
  by (rule ext) (simp add: content_def split: option.split)

lemma reshaped_value [simp]: "value_at (reshaped a S) = value_at a" "cell_key (reshaped a S) = cell_key a"
  by (auto simp: value_at_def cell_key_def fun_eq_iff split: sum.split)

lemma reshaped_ok:
  assumes "arr_ok env cs a" "\<forall>v \<in> set S. 0 \<le> v" "elements S \<noteq> None" "length S = length (mShape (a_meta a))"
    and "fits_ints (a_grid a) S"
  shows "arr_ok env cs (reshaped a S)"
proof -
  have c: "a_indexSize (reshaped a S) = a_indexSize a" "a_shard (reshaped a S) = a_shard a"
    "a_chunks (reshaped a S) = a_chunks a" "a_perShard (reshaped a S) = a_perShard a"
    by (simp_all add: reshaped_def)
  have f: "shard_fields env cs (reshaped a S) = shard_fields env cs a"
    unfolding shard_fields_def c reshaped_simps ..
  show ?thesis using assms unfolding arr_ok_def f c reshaped_spec by simp
qed

lemma sdiv_nonneg: "0 \<le> x \<Longrightarrow> 0 < y \<Longrightarrow> x sdiv y = x div (y :: int)"
  by (simp add: signed_divide_int_def sgn_if)

text \<open>The counts, where no sum of a side and one of the grid is more than an \<open>int64\<close>.\<close>

lemma numStored_exact:
  assumes ok: "arr_ok env cs a"
  shows "length (numStored a) = length (mShape (a_meta a))"
    and "k < length (mShape (a_meta a)) \<Longrightarrow> numStored a ! k = (mShape (a_meta a) ! k + int (a_grid a ! k) - 1) div int (a_grid a ! k)"
proof -
  note g = arr_grid(1,4) [OF ok]
  show "length (numStored a) = length (mShape (a_meta a))" using g by (simp add: numStored_def)
  show "numStored a ! k = (mShape (a_meta a) ! k + int (a_grid a ! k) - 1) div int (a_grid a ! k)"
    if k: "k < length (mShape (a_meta a))"
  proof -
    let ?s = "mShape (a_meta a) ! k" and ?g = "int (a_grid a ! k)"
    have s: "0 \<le> ?s" "0 < ?g" "?s + ?g \<le> maxInt64" using ok g k by (auto simp: arr_ok_def fits_ints_def)
    then have "wrap64 (?s + ?g) = ?s + ?g" "wrap64 (?s + ?g - 1) = ?s + ?g - 1" by (auto intro!: wrap64_nonneg)
    moreover have "(?s + ?g - 1) sdiv ?g = (?s + ?g - 1) div ?g" using s by (intro sdiv_nonneg) auto
    ultimately show ?thesis using k g by (simp add: numStored_def)
  qed
qed

lemma cell_count:
  fixes s g e :: nat
  assumes "0 < g"
  shows "e < s \<Longrightarrow> int (e div g) < (int s + int g - 1) div int g"
    and "int i < (int s + int g - 1) div int g \<Longrightarrow> i * g < s"
proof -
  {
    assume "e < s"
    then have "e div g \<le> (s - 1) div g" by (intro div_le_mono) auto
    then have "e div g < (s - 1) div g + 1" by simp
    also have "\<dots> = (s - 1 + g) div g" using div_add_self2 [of g "s - 1"] assms by simp
    finally have "int (e div g) < int ((s - 1 + g) div g)" by (simp only: of_nat_less_iff)
    also have "\<dots> = int (s - 1 + g) div int g" by (rule zdiv_int)
    also have "int (s - 1 + g) = int s + int g - 1" using \<open>e < s\<close> by simp
    finally show "int (e div g) < (int s + int g - 1) div int g" .
  }
  {
    assume "int i < (int s + int g - 1) div int g"
    then have "(int i + 1) * int g \<le> (int s + int g - 1) div int g * int g" using assms by (intro mult_right_mono) auto
    also have "\<dots> \<le> int s + int g - 1" using assms by (intro zdiv_mult_le) simp
    finally have "int (i * g) < int s" by (simp add: algebra_simps)
    then show "i * g < s" by (simp only: of_nat_less_iff)
  }
qed

section \<open>What a resize leaves\<close>

text \<open>The element at an index of the old shape, after the resize.\<close>

definition resized_value :: "'s arr \<Rightarrow> 's arr \<Rightarrow> (string \<Rightarrow> bytes option) \<Rightarrow> vec \<Rightarrow> elem" where
  "resized_value a b m e =
     (if inside e (a_shape b) \<or> \<not> inside e (a_shape a) then value_at a m e else a_fill a)"

text \<open>Writing what was read: what is past the end of the array becomes fill.\<close>

lemma writeStored_filled:
  assumes r: "fillPastEnd a sidx data = Inr r" and len: "length sidx = length (a_grid a)" "length (mShape (a_meta a)) = length (a_grid a)"
    and l: "length data = product_of (a_grid a)"
  shows "writeStored a sidx data = writeStored a sidx r"
proof -
  have o: "length (timesV sidx (a_grid a)) = length (a_grid a)" using len by simp
  obtain r0 where r0: "fillPast a (timesV sidx (a_grid a)) (a_grid a) data = Inr r0" "length r0 = product_of (a_grid a)"
    "\<And>o'. inside o' (a_grid a) \<Longrightarrow> r0 ! lin (a_grid a) o' =
       (if inside (plusV (timesV sidx (a_grid a)) o') (a_shape a) then data ! lin (a_grid a) o' else fill_elem (a_fill a))"
    using fillPast_spec [OF o _ l, of a] len by auto
  have e: "r0 = r" using r r0(1) by (simp add: fillPastEnd_def)
  obtain r1 where r1: "fillPast a (timesV sidx (a_grid a)) (a_grid a) r = Inr r1" "length r1 = product_of (a_grid a)"
    "\<And>o'. inside o' (a_grid a) \<Longrightarrow> r1 ! lin (a_grid a) o' =
       (if inside (plusV (timesV sidx (a_grid a)) o') (a_shape a) then r ! lin (a_grid a) o' else fill_elem (a_fill a))"
    using fillPast_spec [OF o _ r0(2) [unfolded e], of a] len by auto
  have "r1 = r"
    by (rule nth_by_index [of _ "a_grid a"]) (use r0 r1 e in auto)
  then have "fillPastEnd a sidx r = fillPastEnd a sidx data" using r r1(1) by (simp add: fillPastEnd_def)
  then show ?thesis by (simp add: writeStored_def)
qed

context store_laws
begin

lemma wp_refill:
  assumes ok: "arr_ok env cs a" and okb: "arr_ok env cs b" and b: "b = reshaped a S" and st: "a_store a = ops"
    and si: "length sidx = length (mShape (a_meta a))"
    and old: "content a (contents s (storedKey a sidx)) = Inr old" and m: "contents s (storedKey a sidx) = m (storedKey a sidx)"
    and Q: "\<And>t bo. contents t = (contents s)(storedKey a sidx := bo) \<Longrightarrow> cell_holds a sidx bo (resized_value a b m) \<Longrightarrow> Q () t"
    and R: "\<And>t. contents t = contents s \<Longrightarrow> R t"
  shows "wp live (refill a b sidx) s Q R"
proof -
  note g = arr_grid(1,4,8,9) [OF ok]
  note gb = arr_grid(1) [OF okb]
  note ct = content_typed [OF ok old]
  let ?f = "\<lambda>e. if inside e (a_shape b) then value_at a m e else fill_elem (a_fill a)"
  have si': "length sidx = length (a_grid b)" "length (mShape (a_meta b)) = length (a_grid b)" using si g(1) gb b by simp_all
  have o: "length (timesV sidx (a_grid b)) = length (a_grid b)" using si' by simp
  obtain r where r: "fillPastEnd b sidx old = Inr r" "length r = product_of (a_grid b)"
    "\<And>o'. inside o' (a_grid b) \<Longrightarrow> r ! lin (a_grid b) o' =
       (if inside (plusV (timesV sidx (a_grid b)) o') (a_shape b) then old ! lin (a_grid b) o' else fill_elem (a_fill b))"
    using fillPast_spec [OF o, of b old] si' ct(1) b unfolding fillPastEnd_def by auto
  have rt: "\<forall>x \<in> set r. type_of x = a_type b"
    using fillPast_types [OF r(1) [unfolded fillPastEnd_def]] ct(2) g(3) b by auto
  have mo: "content a (m (storedKey a sidx)) = Inr old" using old m by simp
  have holds: "cell_holds a sidx bo (resized_value a b m)" if h: "cell_holds b sidx bo ?f" for bo
    unfolding cell_holds_def
  proof (intro impI)
    assume "short bo"
    then obtain v where v0: "content b bo = Inr v"
      "\<And>o'. inside o' (a_grid b) \<Longrightarrow> alike b (plusV (timesV sidx (a_grid b)) o') (v ! lin (a_grid b) o')
         (?f (plusV (timesV sidx (a_grid b)) o'))"
      using h unfolding cell_holds_def by blast
    have "alike a (plusV (timesV sidx (a_grid a)) o') (v ! lin (a_grid a) o')
        (resized_value a b m (plusV (timesV sidx (a_grid a)) o'))" if o': "inside o' (a_grid a)" for o'
    proof -
      let ?e = "plusV (timesV sidx (a_grid a)) o'" and ?x = "v ! lin (a_grid a) o'"
      have gb: "a_grid b = a_grid a" using b by simp
      have "alike b ?e ?x (?f ?e)" using v0(2) [of o'] o' unfolding gb by blast
      then show ?thesis
        using fill_elem_veq [of "a_fill a"] b veq_trans [of ?x "fill_elem (a_fill a)" "a_fill a"]
        by (cases "inside ?e (a_shape b)") (auto simp: alike_def resized_value_def)
    qed
    with v0(1) b show "\<exists>v. content a bo = Inr v \<and> (\<forall>o'. inside o' (a_grid a) \<longrightarrow>
        alike a (plusV (timesV sidx (a_grid a)) o') (v ! lin (a_grid a) o') (resized_value a b m (plusV (timesV sidx (a_grid a)) o')))"
      by auto
  qed
  show ?thesis
    unfolding refill_def
  proof (subst if_not_P)
    show "dsize (a_type a) \<noteq> 0" using g(4) .
    show "wp live (io_bind (readStored a (a_type a) sidx) (writeStored b sidx)) s Q R"
    proof (rule wp_bind, rule wp_readStored [OF st storedKey_valid [OF ok] old])
      fix t assume t: "contents t = contents s"
      have "wp live (writeStored b sidx r) t Q R"
      proof (rule wp_writeStored [OF okb _ _ r(2) rt, where f = ?f])
        fix o' assume o': "inside o' (a_grid b)"
        show "alike b (plusV (timesV sidx (a_grid b)) o') (r ! lin (a_grid b) o') (?f (plusV (timesV sidx (a_grid b)) o'))"
          using r(3) [OF o'] cell_value [where m = m, OF ok si _ mo, of o'] o' b by simp
      next
        fix u bo assume "contents u = (contents t)(storedKey b sidx := bo)" "cell_holds b sidx bo ?f"
        then show "Q () u" using t b holds by (intro Q) auto
      next
        fix u assume "contents u = contents t"
        then show "R u" using t R by simp
      qed (use st b si si' in simp_all)
      moreover have "writeStored b sidx old = writeStored b sidx r"
        by (rule writeStored_filled [OF r(1) si']) (use ct(1) b in simp)
      ultimately show "wp live (writeStored b sidx old) t Q R" by simp
    qed (use R in simp)
  qed
qed

text \<open>One stored object: deleted, filled past the new end, or left alone.\<close>

lemma wp_resize_one:
  assumes ok: "arr_ok env cs a" and okb: "arr_ok env cs b" and b: "b = reshaped a S" and st: "a_store a = ops"
    and si: "length sidx = length (mShape (a_meta a))"
    and fit: "\<forall>k < length (mShape (a_meta a)). int (sidx ! k * a_grid a ! k + a_grid a ! k) \<le> maxInt64"
    and old: "content a (contents s (storedKey a sidx)) = Inr old" and m: "contents s (storedKey a sidx) = m (storedKey a sidx)"
    and Q: "\<And>t bo. contents t = (contents s)(storedKey a sidx := bo) \<Longrightarrow> cell_holds a sidx bo (resized_value a b m) \<Longrightarrow> Q () t"
    and R: "\<And>t. contents t = contents s \<Longrightarrow> R t"
  shows "wp live (resize_one a b sidx) s Q R"
proof -
  note g = arr_grid(1,4) [OF ok]
  have lS: "length S = length (mShape (a_meta a))" using arr_grid(1) [OF okb] g(1) b by simp
  let ?o = "timesV sidx (a_grid a)"
  have lo: "length ?o = length (mShape (a_meta a))" using si g by simp
  have nb: "\<forall>k < length S. 0 \<le> S ! k" using okb b by (auto simp: arr_ok_def)
  have na: "\<forall>k < length (mShape (a_meta a)). 0 \<le> mShape (a_meta a) ! k" using ok by (auto simp: arr_ok_def)
  let ?gone = "\<exists>k < length ?o. int (?o ! k) \<ge> S ! k"
  let ?cut = "\<exists>k < length ?o. wrap64 (int (?o ! k) + int (a_grid a ! k)) > S ! k \<and> S ! k < mShape (a_meta a) ! k"
  have mo: "content a (m (storedKey a sidx)) = Inr old" using old m by simp
  have ne: "(plusV ?o o') ! k = ?o ! k + o' ! k" "o' ! k < a_grid a ! k" "length o' = length (mShape (a_meta a))"
    if "inside o' (a_grid a)" "k < length (mShape (a_meta a))" for o' k
    using that lo g(1) list_all2_lengthD [OF that(1)] by (auto simp: list_all2_conv_all_nth)
  consider (gone) ?gone | (cut) "\<not> ?gone" ?cut | (kept) "\<not> ?gone" "\<not> ?cut" by blast
  then show ?thesis
  proof cases
    case gone
    then obtain k where "k < length ?o" "S ! k \<le> int (?o ! k)" by blast
    then have k: "k < length (mShape (a_meta a))" "S ! k \<le> int (?o ! k)" unfolding lo .
    have "\<not> inside (plusV ?o o') (a_shape b)" if o': "inside o' (a_grid a)" for o'
    proof
      assume "inside (plusV ?o o') (a_shape b)"
      moreover have "k < length (plusV ?o o')" using k(1) ne(3) [OF o' k(1)] lo by simp
      ultimately have "(plusV ?o o') ! k < a_shape b ! k" by (rule list_all2_nthD)
      then have "(plusV ?o o') ! k < nat (S ! k)" using k lS b by simp
      then show False using k ne(1) [OF o' k(1)] nb lS by simp
    qed
    then have "alike a (plusV ?o o') (fill_elem (a_fill a)) (resized_value a b m (plusV ?o o'))" if "inside o' (a_grid a)" for o'
      using that fill_elem_veq by (auto simp: alike_def resized_value_def)
    then have "cell_holds a sidx None (resized_value a b m)"
      using lin_bound by (auto simp: cell_holds_def content_def filled_replicate)
    then have "wp live (st_delete ops (storedKey a sidx)) s Q R" using Q R by (intro wp_delete) auto
    moreover have "resize_one a b sidx = st_delete ops (storedKey a sidx)"
      unfolding resize_one_def Let_def b reshaped_simps st by (rule if_P [OF gone])
    ultimately show ?thesis by simp
  next
    case cut
    have eq: "resize_one a b sidx = refill a b sidx"
      unfolding resize_one_def Let_def b reshaped_simps by (simp only: cut if_False if_True)
    show ?thesis
      unfolding eq
      by (rule wp_refill [where m = m, OF ok okb b st si old m]) (use Q R in blast)+
  next
    case kept
    have "alike a (plusV ?o o') (old ! lin (a_grid a) o') (resized_value a b m (plusV ?o o'))" if o': "inside o' (a_grid a)" for o'
    proof -
      have v: "value_at a m (plusV ?o o') = old ! lin (a_grid a) o'" by (rule cell_value [where m = m, OF ok si o' mo])
      have "inside (plusV ?o o') (a_shape b)" if e: "inside (plusV ?o o') (a_shape a)"
      proof -
        have "(plusV ?o o') ! k < nat (S ! k)" if k: "k < length (mShape (a_meta a))" for k
        proof -
          have "k < length (plusV ?o o')" using ne(3) [OF o' k] lo k by simp
          from list_all2_nthD [OF e this] have "(plusV ?o o') ! k < nat (mShape (a_meta a) ! k)" using k by simp
          then have lt: "int (?o ! k + o' ! k) < mShape (a_meta a) ! k" using ne(1) [OF o' k] by simp
          have w: "wrap64 (int (?o ! k) + int (a_grid a ! k)) = int (?o ! k + a_grid a ! k)"
            using fit k g(1) si by (subst wrap64_nonneg) (auto simp: )
          have "\<not> (int (?o ! k + a_grid a ! k) > S ! k \<and> S ! k < mShape (a_meta a) ! k)" using kept(2) k unfolding lo w [symmetric] by blast
          then have "int (?o ! k + o' ! k) < S ! k" using lt ne(2) [OF o' k] by linarith
          then show ?thesis using ne(1) [OF o' k] by simp
        qed
        moreover have "length (plusV ?o o') = length S" using list_all2_lengthD [OF e] lS by simp
        ultimately show ?thesis using b by (intro list_all2_all_nthI) (simp_all add: lS)
      qed
      then show ?thesis using v by (auto simp: resized_value_def)
    qed
    then have "cell_holds a sidx (contents s (storedKey a sidx)) (resized_value a b m)"
      using old by (auto simp: cell_holds_def)
    then have "Q () s" by (intro Q) auto
    moreover have "resize_one a b sidx = io_ret ()"
      unfolding resize_one_def Let_def b reshaped_simps by (simp only: kept if_False)
    ultimately show ?thesis by (simp add: wp_def)
  qed
qed

text \<open>All of them.\<close>

lemma wp_resizeStored:
  assumes ok: "arr_ok env cs a" and okb: "arr_ok env cs b" and b: "b = reshaped a S" and st: "a_store a = ops"
    and rd: "readable a (contents s)"
    and sched: "sched_ok sched" "\<And>s. live s \<Longrightarrow> sched_full sched"
  shows "wp live (resizeStored sched a b) s
    (\<lambda>_ t. written a (contents s) (contents t) (resized_value a b (contents s)))
    (\<lambda>t. half_written a (contents s) (contents t) (resized_value a b (contents s)))"
proof -
  note g = arr_grid(1,4) [OF ok]
  have fit: "\<forall>k < length (mShape (a_meta a)). mShape (a_meta a) ! k + int (a_grid a ! k) \<le> maxInt64" using ok by (simp add: arr_ok_def fits_ints_def)
  note n = numStored_exact [OF ok]
  have lS: "length S = length (mShape (a_meta a))" using arr_grid(1) [OF okb] g(1) b by simp
  have na: "\<forall>k < length (mShape (a_meta a)). 0 \<le> mShape (a_meta a) ! k" using ok by (auto simp: arr_ok_def)
  let ?f = "resized_value a b (contents s)"
  let ?shrinks = "\<exists>k < length (mShape (a_meta a)). S ! k < mShape (a_meta a) ! k"
  have count: "sidx ! k * a_grid a ! k < a_shape a ! k \<longleftrightarrow> int (sidx ! k) < numStored a ! k" if k: "k < length (mShape (a_meta a))" for k sidx
  proof -
    have p: "0 < a_grid a ! k" using g k by simp
    have e: "int (a_shape a ! k) = mShape (a_meta a) ! k" using na k by simp
    show ?thesis
    proof
      assume "sidx ! k * a_grid a ! k < a_shape a ! k"
      from cell_count(1) [OF p this] show "int (sidx ! k) < numStored a ! k" using n(2) [OF k] e p by simp
    next
      assume "int (sidx ! k) < numStored a ! k"
      then have "int (sidx ! k) < (int (a_shape a ! k) + int (a_grid a ! k) - 1) div int (a_grid a ! k)" using n(2) [OF k] e by simp
      from cell_count(2) [OF p this] show "sidx ! k * a_grid a ! k < a_shape a ! k" .
    qed
  qed
  show ?thesis
  proof (cases "\<not> ?shrinks \<or> (\<exists>v \<in> set (numStored a). v \<le> 0)")
    case True
    have "?f e = value_at a (contents s) e" if e: "inside e (a_shape a)" for e
    proof (cases ?shrinks)
      case True
      then obtain k where k: "k < length (mShape (a_meta a))" "numStored a ! k \<le> 0"
        using \<open>\<not> ?shrinks \<or> (\<exists>v \<in> set (numStored a). v \<le> 0)\<close> n(1) by (auto simp: in_set_conv_nth)
      have "0 < a_shape a ! k" using e k(1) by (auto simp: list_all2_conv_all_nth intro: gr0I)
      then have "0 < numStored a ! k" using count [OF k(1), of "zeros (length (mShape (a_meta a)))"] k(1) by simp
      with k show ?thesis by simp
    next
      case False
      have "e ! k < nat (S ! k)" if k: "k < length (mShape (a_meta a))" for k
      proof -
        have "e ! k < nat (mShape (a_meta a) ! k)" using e k by (auto simp: list_all2_conv_all_nth)
        then show ?thesis using False k by (meson less_le_trans nat_mono not_less)
      qed
      then have "inside e (a_shape b)" using e lS b by (auto simp: list_all2_conv_all_nth)
      then show ?thesis by (simp add: resized_value_def)
    qed
    then have "done_at a (contents s) ?f e" if "inside e (a_shape a)" for e
      using rd that by (intro done_unchanged [where m = "contents s"]) (auto simp: readable_def)
    then have "written a (contents s) (contents s) ?f" by (simp add: written_def)
    moreover have "resizeStored sched a b = io_ret ()"
      unfolding resizeStored_def Let_def b reshaped_simps by (rule if_P [OF True])
    ultimately show ?thesis by (simp add: wp_def)
  next
    case False
    let ?lo = "zeros (length (numStored a))" and ?hi = "minusOne (map nat (numStored a))"
    have pos: "0 < numStored a ! k" if "k < length (mShape (a_meta a))" for k
    proof -
      have "numStored a ! k \<in> set (numStored a)" using that n(1) by simp
      with False show ?thesis by fastforce
    qed
    have bt: "between ?lo ?hi sidx \<longleftrightarrow> length sidx = length (mShape (a_meta a)) \<and>
        (\<forall>k < length (mShape (a_meta a)). int (sidx ! k) < numStored a ! k)" for sidx
    proof -
      have "sidx ! k \<le> nat (numStored a ! k) - 1 \<longleftrightarrow> int (sidx ! k) < numStored a ! k" if "k < length (mShape (a_meta a))" for k
        using pos [OF that] by linarith
      then show ?thesis using n(1) by (auto simp: between_nth)
    qed
    have "wp live (eachSpan sched (limit a (spanLen ?lo ?hi)) ?lo ?hi (\<lambda>_. resize_one a b)) s
      (\<lambda>_ t. written a (contents s) (contents t) ?f) (\<lambda>t. half_written a (contents s) (contents t) ?f)"
    proof (rule wp_span [OF ok rd sched])
      fix e assume e: "inside e (a_shape a)" and nb: "\<not> between ?lo ?hi (divV e (a_grid a))"
      have le: "length e = length (mShape (a_meta a))" using list_all2_lengthD [OF e] by simp
      have "int (divV e (a_grid a) ! k) < numStored a ! k" if k: "k < length (mShape (a_meta a))" for k
      proof -
        have "e ! k < a_shape a ! k" using e k by (auto simp: list_all2_conv_all_nth)
        then have "e ! k div a_grid a ! k * a_grid a ! k < a_shape a ! k" by (rule le_less_trans [OF div_times_less_eq_dividend])
        then show ?thesis using count [OF k, of "divV e (a_grid a)"] k le g(1) by simp
      qed
      then have "between ?lo ?hi (divV e (a_grid a))" unfolding bt using le g(1) by simp
      with nb show "?f e = value_at a (contents s) e" by simp
    next
      fix sidx u and Q :: "unit \<Rightarrow> 's \<Rightarrow> bool" and R
      assume bw: "between ?lo ?hi sidx" and mk: "contents u (storedKey a sidx) = contents s (storedKey a sidx)"
        and QR: "\<And>t bo. contents t = (contents u)(storedKey a sidx := bo) \<Longrightarrow> cell_holds a sidx bo ?f \<Longrightarrow> Q () t"
          "\<And>t. contents t = contents u \<Longrightarrow> R t"
      have si: "length sidx = length (mShape (a_meta a))" using bw bt by blast
      have lt: "sidx ! k * a_grid a ! k < a_shape a ! k" if "k < length (mShape (a_meta a))" for k
        using bw bt count [OF that] that by blast
      then have i: "inside (timesV sidx (a_grid a)) (a_shape a)" using si g(1) by (simp add: list_all2_conv_all_nth)
      have "divV (timesV sidx (a_grid a)) (a_grid a) = sidx" using si g by (intro nth_equalityI) auto
      then have "sound_object a (contents s (storedKey a sidx))" using rd i by (auto simp: readable_def cell_key_def)
      then obtain old where old: "content a (contents u (storedKey a sidx)) = Inr old" using mk by (auto simp: sound_object_def)
      have "\<forall>k < length (mShape (a_meta a)). int (sidx ! k * a_grid a ! k + a_grid a ! k) \<le> maxInt64"
        using lt fit na by (smt (verit) nth_map of_nat_add of_nat_less_iff nat_eq_iff2 int_nat_eq)
      then show "wp live (resize_one a b sidx) u Q R"
        by (rule wp_resize_one [where m = "contents s", OF ok okb b st si _ old mk]) (use QR in blast)+
    qed (use n(1) in simp_all)
    then show ?thesis using False b by (simp add: resizeStored_def Let_def)
  qed
qed

end

end
