(* ===== verification/Change_Theorems.thy ===== *)
theory Change_Theorems
  imports Examples Deletes Resizes Array_Theorems
begin

text \<open>
  What a resize does to the stored objects of an array and what a deletion leaves of a node, over
  any store that keeps its contract.
\<close>

section \<open>Resizing\<close>

text \<open>An array cut off or grown to a new shape keeps every element that is within both, and
  every element past the new end becomes the fill value, so that growing the array again later shows
  fill and not what was cut off; only the keys of the array's own objects change. A failure, which
  only the store or a cancelled context causes, leaves each stored object as it was or done.  
  (\<open>resizeStored\<close>, \<open>refill\<close>, \<open>numStored\<close>, in the order of any schedule.)\<close>

theorem resize_exact:
  assumes "store_laws ops contents live" "arr_ok env cs a" "a_store a = ops" "readable a (contents s)"
    and "length S = length (mShape (a_meta a))" "\<forall>v \<in> set S. 0 \<le> v" "elements S \<noteq> None" "sched_ok sched"
    and "fits_ints (a_grid a) S"
  shows "case resizeStored sched a (reshaped a S) s of
      (Inr _, t) \<Rightarrow>
        (\<forall>key. \<not> own_key a key \<longrightarrow> contents t key = contents s key) \<and>
        (\<forall>e. inside e (a_shape a) \<longrightarrow>
           done_at a (contents t) (\<lambda>e. if inside e (map nat S) then value_at a (contents s) e else a_fill a) e)
    | (Inl e, t) \<Rightarrow> \<not> (live s \<and> sched_full sched) \<and>
        (\<forall>key. \<not> own_key a key \<longrightarrow> contents t key = contents s key) \<and>
        (\<forall>e. inside e (a_shape a) \<longrightarrow> contents t (cell_key a e) = contents s (cell_key a e) \<or>
           done_at a (contents t) (\<lambda>e. if inside e (map nat S) then value_at a (contents s) e else a_fill a) e)"
proof -
  let ?b = "reshaped a S"
  have okb: "arr_ok env cs ?b" by (rule reshaped_ok [OF assms(2,6,7,5,9)])
  have n: "done_at a m (resized_value a ?b (contents s)) e \<longleftrightarrow>
      done_at a m (\<lambda>e. if inside e (map nat S) then value_at a (contents s) e else a_fill a) e"
    if "inside e (a_shape a)" for m e
    using that by (simp add: done_at_def resized_value_def)
  have "wp (\<lambda>s. live s \<and> sched_full sched) (resizeStored sched a ?b) s
      (\<lambda>_ t. written a (contents s) (contents t) (resized_value a ?b (contents s)))
      (\<lambda>t. half_written a (contents s) (contents t) (resized_value a ?b (contents s)))"
    by (rule store_laws.wp_resizeStored [OF store_laws_conj [OF assms(1)] assms(2) okb refl assms(3,4,8)]) simp
  then show ?thesis using n by (auto simp: wp_def written_def half_written_def split: prod.splits sum.splits)
qed

theorem resize_exact_witness:
  "\<exists>t. resizeStored (\<lambda>n. rev [0 ..< n]) demo_array (reshaped demo_array [2]) newMemoryStore = (Inr (), t) \<and>
     mem_contents t ''zarr.json'' = None \<and>
     (short (mem_contents t (cell_key demo_array [3])) \<longrightarrow> veq (value_at demo_array (mem_contents t) [3]) (VUint8 7))"
proof -
  let ?sched = "\<lambda>n. rev [0 ..< n]" and ?s = newMemoryStore and ?b = "reshaped demo_array [2]"
  define f where "f = (\<lambda>e. if inside e (map nat [2]) then value_at demo_array (mem_contents ?s) e else a_fill demo_array)"
  have "case resizeStored ?sched demo_array ?b ?s of
      (Inr _, t) \<Rightarrow>
        (\<forall>key. \<not> own_key demo_array key \<longrightarrow> mem_contents t key = mem_contents ?s key) \<and>
        (\<forall>e. inside e (a_shape demo_array) \<longrightarrow> done_at demo_array (mem_contents t) f e)
    | (Inl e, t) \<Rightarrow> \<not> (mem_live ?s \<and> sched_full ?sched) \<and>
        (\<forall>key. \<not> own_key demo_array key \<longrightarrow> mem_contents t key = mem_contents ?s key) \<and>
        (\<forall>e. inside e (a_shape demo_array) \<longrightarrow> mem_contents t (cell_key demo_array e) = mem_contents ?s (cell_key demo_array e) \<or>
           done_at demo_array (mem_contents t) f e)"
    unfolding f_def
    by (rule resize_exact [OF memory.store_laws_axioms demo_ok demo_fields(1)])
      (simp_all add: demo_new demo_readable demo_sched, simp_all add: demo_array_def demo_meta_def elements_def maxInt64_def fits_ints_def)
  note w = this [unfolded demo_fields demo_new]
  obtain r t where rt: "resizeStored ?sched demo_array ?b ?s = (r, t)" by (rule prod.exhaust)
  have r: "r = Inr ()" using w demo_sched demo_new unfolding rt by (cases r) simp_all
  have t: "\<And>key. \<not> own_key demo_array key \<Longrightarrow> mem_contents t key = None" "done_at demo_array (mem_contents t) f [3]"
    using w unfolding rt r by simp_all
  have "f [3] = VUint8 7" by (simp add: f_def demo_array_def)
  moreover have "\<not> own_key demo_array ''zarr.json''"
    by (auto simp: own_key_def storedKey_def join_path_def demo_array_def)
  ultimately show ?thesis using t rt r by (auto simp: done_at_def)
qed

section \<open>Deleting\<close>

text \<open>C17: deleting a node of a store with finitely many keys returns, however its keys change between
  batches; a deletion that succeeds leaves nothing under the node and one that fails leaves every key
  as it was or gone, and in both cases no key elsewhere is touched; whenever anything is gone the
  node's metadata is. It succeeds if the path is one a node may have and the store does not fail.
  (\<open>Delete\<close>, \<open>deletePrefix\<close>.)\<close>

theorem delete_exact:
  assumes "store_laws ops contents live" "finite {k. contents s k \<noteq> None}"
  shows "\<exists>r t. delete_node ops path s = Some (r, t) \<and>
    (\<forall>k. contents t k = contents s k \<or> contents t k = None \<and> prefix (node_dir path) k) \<and>
    (r = Inr () \<longrightarrow> (\<forall>k. prefix (node_dir path) k \<longrightarrow> contents t k = None)) \<and>
    (contents t = contents s \<or> contents t (metadataKey path) = None) \<and>
    (live s \<and> checkPath path = Inr () \<longrightarrow> r = Inr ())"
proof -
  from store_laws.delete_node_ends [OF assms, of path] obtain r t where
    "delete_node ops path s = Some (r, t)"
    "\<forall>k. contents t k = (if contents t k = None \<and> prefix (node_dir path) k then None else contents s k)"
    "r = Inr () \<longrightarrow> (\<forall>k. prefix (node_dir path) k \<longrightarrow> contents t k = None)"
    "contents t = contents s \<or> contents t (metadataKey path) = None"
    "live s \<and> checkPath path = Inr () \<longrightarrow> live t \<and> r = Inr ()" by blast
  then show ?thesis by (intro exI [of _ r] exI [of _ t]) metis
qed

text \<open>A store with a node \<open>x\<close> and another one beside it.\<close>

definition demo_tree :: memstore where
  "demo_tree = newMemoryStore\<lparr>entries := DAList.update ''x/zarr.json'' [1] (DAList.update ''xy/zarr.json'' [2] DAList.empty)\<rparr>"

lemma demo_tree_contents: "mem_contents demo_tree = [''xy/zarr.json'' \<mapsto> [2], ''x/zarr.json'' \<mapsto> [1]]"
  by (simp add: demo_tree_def mem_contents_def fun_eq_iff lookup_update lookup_empty)

theorem delete_exact_witness:
  "\<exists>t. delete_node memory_ops ''x'' demo_tree = Some (Inr (), t) \<and>
     mem_contents t ''x/zarr.json'' = None \<and> mem_contents t ''xy/zarr.json'' = Some [2]"
proof -
  have "finite {k. mem_contents demo_tree k \<noteq> None}"
    unfolding demo_tree_contents by (rule finite_subset [of _ "{''xy/zarr.json'', ''x/zarr.json''}"]) (auto split: if_splits)
  from delete_exact [OF memory.store_laws_axioms this, of "''x''"] obtain r t where
    d: "delete_node memory_ops ''x'' demo_tree = Some (r, t)"
    "\<forall>k. mem_contents t k = mem_contents demo_tree k \<or> mem_contents t k = None \<and> prefix (node_dir ''x'') k"
    "r = Inr () \<longrightarrow> (\<forall>k. prefix (node_dir ''x'') k \<longrightarrow> mem_contents t k = None)"
    "mem_live demo_tree \<and> checkPath ''x'' = Inr () \<longrightarrow> r = Inr ()" by blast
  have "mem_live demo_tree" by (simp add: demo_tree_def mem_live_def newMemoryStore_def)
  then have r: "r = Inr ()" using d(4) by (simp add: checkPath_def validSegments_def)
  have "mem_contents t ''x/zarr.json'' = None" using d(3) r by (simp add: node_dir_def)
  moreover have "mem_contents t ''xy/zarr.json'' = Some [2]"
    using d(2) [rule_format, of "''xy/zarr.json''"] by (auto simp: node_dir_def demo_tree_contents)
  ultimately show ?thesis using d(1) r by blast
qed

end
