(* ===== verification/Scan.thy ===== *)
theory Scan
  imports Keys
begin

text \<open>
  The scanner of JSON (\<open>src/scan.go\<close>), which validates a text in one pass and decodes nothing.

  A text is a \<open>string\<close>, a \<open>char\<close> being a byte. A position \<open>i\<close> in \<open>b\<close> is what is left from it, \<open>b[i:]\<close>,
  the test \<open>i >= len(b)\<close> is that nothing is left, and \<open>-1\<close> is \<open>None\<close>. What a callback changes is threaded
  through as a value.

  The lemmas relate the scanner to the grammar of JSON: it accepts the texts of the grammar whose
  arrays and objects are nested no deeper than its limit, and no others.
\<close>

section \<open>The code\<close>

abbreviation code :: "char \<Rightarrow> nat" where
  "code c \<equiv> of_char c"

definition is_space :: "char \<Rightarrow> bool" where
  "is_space c \<longleftrightarrow> c = CHR '' '' \<or> c = CHR 0x09 \<or> c = CHR 0x0A \<or> c = CHR 0x0D"

definition is_hex :: "char \<Rightarrow> bool" where
  "is_hex c \<longleftrightarrow> is_digit c \<or> 97 \<le> code c \<and> code c \<le> 102 \<or> 65 \<le> code c \<and> code c \<le> 70"

abbreviation quote :: char where
  "quote \<equiv> CHR 0x22"

abbreviation backslash :: char where
  "backslash \<equiv> CHR 0x5C"

definition plainKey :: "string \<Rightarrow> bool" where
  "plainKey s \<longleftrightarrow> (\<forall>c \<in> set s. \<not> (code c < 32 \<or> code c \<ge> 128 \<or> c = backslash))"

definition maxDepth :: nat where
  "maxDepth = 1000"

definition skipSpace :: "string \<Rightarrow> string" where
  "skipSpace s = dropWhile is_space s"

text \<open>The text from \<open>s\<close> to \<open>t\<close>, which is what is left later on: \<open>b[i:end]\<close>.\<close>

definition upto_rest :: "string \<Rightarrow> string \<Rightarrow> string" where
  "upto_rest s t = take (length s - length t) s"

text \<open>The loop of \<open>skipString\<close>, past the opening quote.\<close>

fun string_loop :: "string \<Rightarrow> string option" where
  "string_loop [] = None"
| "string_loop (c # s) =
     (if c = quote then Some s
      else if code c < 32 then None
      else if c = backslash then
        (case s of
           [] \<Rightarrow> None
         | e # r \<Rightarrow>
             if e \<in> {quote, backslash, CHR ''/'', CHR ''b'', CHR ''f'', CHR ''n'', CHR ''r'', CHR ''t''} then string_loop r
             else if e = CHR ''u'' then
               (if length r < 4 then None
                else if \<forall>h \<in> set (take 4 r). is_hex h then string_loop (drop 4 r) else None)
             else None)
      else string_loop s)"

definition skipString :: "string \<Rightarrow> string option" where
  "skipString s = (case s of c # r \<Rightarrow> if c = quote then string_loop r else None | [] \<Rightarrow> None)"

definition skip_digits :: "string \<Rightarrow> string option" where
  "skip_digits s = (let t = dropWhile is_digit s in if length t = length s then None else Some t)"

text \<open>The three parts of a number: \<open>skipNumber\<close> is called where something is left.\<close>

definition skip_int :: "string \<Rightarrow> string option" where
  "skip_int s =
     (let s = (case s of c # r \<Rightarrow> if c = CHR ''-'' then r else s | [] \<Rightarrow> s)
      in case s of c # r \<Rightarrow> if c = CHR ''0'' then Some r else skip_digits s | [] \<Rightarrow> skip_digits s)"

definition skip_frac :: "string \<Rightarrow> string option" where
  "skip_frac s = (case s of c # r \<Rightarrow> if c = CHR ''.'' then skip_digits r else Some s | [] \<Rightarrow> Some s)"

definition skip_exp :: "string \<Rightarrow> string option" where
  "skip_exp s =
     (case s of
        c # r \<Rightarrow>
          if c = CHR ''e'' \<or> c = CHR ''E'' then
            skip_digits (case r of d # q \<Rightarrow> if d = CHR ''+'' \<or> d = CHR ''-'' then q else r | [] \<Rightarrow> r)
          else Some s
      | [] \<Rightarrow> Some s)"

definition skipNumber :: "string \<Rightarrow> string option" where
  "skipNumber s = Option.bind (skip_int s) (\<lambda>s. Option.bind (skip_frac s) skip_exp)"

text \<open>
  The loops of \<open>members\<close> and \<open>items\<close>. A callback gets what it has made so far, the key as it is written,
  and where the value begins; it gives where the value ends. No callback goes back, and the test of
  the lengths, for which the code has no counterpart, is never false.
\<close>

function (sequential) member_loop ::
    "('a \<Rightarrow> string \<Rightarrow> string \<Rightarrow> ('a \<times> string) option) \<Rightarrow> 'a \<Rightarrow> string \<Rightarrow> ('a \<times> string) option" where
  "member_loop fn a s =
     (case skipString s of
        None \<Rightarrow> None
      | Some t \<Rightarrow>
          (case skipSpace t of
             [] \<Rightarrow> None
           | c # r \<Rightarrow>
               if c \<noteq> CHR '':'' then None
               else
                 (case fn a (butlast (tl (upto_rest s t))) (skipSpace r) of
                    None \<Rightarrow> None
                  | Some (a', u) \<Rightarrow>
                      (case skipSpace u of
                         [] \<Rightarrow> None
                       | d # v \<Rightarrow>
                           if d = CHR ''}'' then Some (a', v)
                           else if d = CHR '','' \<and> length v < length s then member_loop fn a' (skipSpace v)
                           else None))))"
  by pat_completeness auto
termination
  by (relation "measure (\<lambda>(fn, a, s). length s)") (auto simp: skipSpace_def intro: le_less_trans [OF length_dropWhile_le])

definition members ::
    "nat \<Rightarrow> nat \<Rightarrow> ('a \<Rightarrow> string \<Rightarrow> string \<Rightarrow> ('a \<times> string) option) \<Rightarrow> 'a \<Rightarrow> string \<Rightarrow> ('a \<times> string) option" where
  "members lim depth fn a s =
     (case s of
        [] \<Rightarrow> None
      | c # r \<Rightarrow>
          if c \<noteq> CHR ''{'' \<or> lim < depth then None
          else
            (let t = skipSpace r
             in if t \<noteq> [] \<and> hd t = CHR ''}'' then Some (a, tl t) else member_loop fn a t))"

function (sequential) item_loop ::
    "('a \<Rightarrow> string \<Rightarrow> ('a \<times> string) option) \<Rightarrow> 'a \<Rightarrow> string \<Rightarrow> ('a \<times> string) option" where
  "item_loop fn a s =
     (case fn a s of
        None \<Rightarrow> None
      | Some (a', u) \<Rightarrow>
          (case skipSpace u of
             [] \<Rightarrow> None
           | d # v \<Rightarrow>
               if d = CHR '']'' then Some (a', v)
               else if d = CHR '','' \<and> length v < length s then item_loop fn a' (skipSpace v)
               else None))"
  by pat_completeness auto
termination
  by (relation "measure (\<lambda>(fn, a, s). length s)") (auto simp: skipSpace_def intro: le_less_trans [OF length_dropWhile_le])

definition items ::
    "nat \<Rightarrow> nat \<Rightarrow> ('a \<Rightarrow> string \<Rightarrow> ('a \<times> string) option) \<Rightarrow> 'a \<Rightarrow> string \<Rightarrow> ('a \<times> string) option" where
  "items lim depth fn a s =
     (case s of
        [] \<Rightarrow> None
      | c # r \<Rightarrow>
          if c \<noteq> CHR ''['' \<or> lim < depth then None
          else
            (let t = skipSpace r
             in if t \<noteq> [] \<and> hd t = CHR '']'' then Some (a, tl t) else item_loop fn a t))"

definition skip_literal :: "string \<Rightarrow> string option" where
  "skip_literal s =
     (if prefix ''true'' s then Some (drop 4 s)
      else if prefix ''false'' s then Some (drop 5 s)
      else if prefix ''null'' s then Some (drop 4 s)
      else None)"

function (sequential) skipValue :: "nat \<Rightarrow> nat \<Rightarrow> string \<Rightarrow> string option" where
  "skipValue lim depth [] = None"
| "skipValue lim depth (c # r) =
     (if c = quote then skipString (c # r)
      else if c = CHR ''{'' then
        (if lim < depth then None
         else map_option snd (members lim depth (\<lambda>_ _ t. map_option (Pair ()) (skipValue lim (Suc depth) t)) () (c # r)))
      else if c = CHR ''['' then
        (if lim < depth then None
         else map_option snd (items lim depth (\<lambda>_ t. map_option (Pair ()) (skipValue lim (Suc depth) t)) () (c # r)))
      else if c = CHR ''-'' \<or> is_digit c then skipNumber (c # r)
      else skip_literal (c # r))"
  by pat_completeness auto
termination
  by (relation "measure (\<lambda>(lim, depth, s). Suc lim - depth)") auto

definition plainString :: "string \<Rightarrow> string option" where
  "plainString raw =
     (if length raw < 2 \<or> hd raw \<noteq> quote \<or> \<not> plainKey (butlast (tl raw)) then None else Some (butlast (tl raw)))"

declare skipValue.simps [simp del] member_loop.simps [simp del] item_loop.simps [simp del]

section \<open>The grammar of JSON\<close>

definition blank :: "string \<Rightarrow> bool" where
  "blank w \<longleftrightarrow> (\<forall>c \<in> set w. is_space c)"

inductive string_body :: "string \<Rightarrow> bool" where
  body_end: "string_body [quote]"
| body_char: "32 \<le> code c \<Longrightarrow> c \<noteq> quote \<Longrightarrow> c \<noteq> backslash \<Longrightarrow> string_body w \<Longrightarrow> string_body (c # w)"
| body_escape: "e \<in> {quote, backslash, CHR ''/'', CHR ''b'', CHR ''f'', CHR ''n'', CHR ''r'', CHR ''t''} \<Longrightarrow>
    string_body w \<Longrightarrow> string_body (backslash # e # w)"
| body_unicode: "length h = 4 \<Longrightarrow> \<forall>c \<in> set h. is_hex c \<Longrightarrow> string_body w \<Longrightarrow> string_body (backslash # CHR ''u'' # h @ w)"

definition json_string :: "string \<Rightarrow> bool" where
  "json_string w \<longleftrightarrow> w \<noteq> [] \<and> hd w = quote \<and> string_body (tl w)"

definition some_digits :: "string \<Rightarrow> bool" where
  "some_digits w \<longleftrightarrow> w \<noteq> [] \<and> (\<forall>c \<in> set w. is_digit c)"

definition int_text :: "string \<Rightarrow> bool" where
  "int_text w \<longleftrightarrow> (\<exists>sign ds. w = sign @ ds \<and> sign \<in> {[], ''-''} \<and> (ds = ''0'' \<or> some_digits ds \<and> hd ds \<noteq> CHR ''0''))"

definition frac_text :: "string \<Rightarrow> bool" where
  "frac_text w \<longleftrightarrow> w = [] \<or> (\<exists>ds. w = CHR ''.'' # ds \<and> some_digits ds)"

definition exp_text :: "string \<Rightarrow> bool" where
  "exp_text w \<longleftrightarrow> w = [] \<or> (\<exists>e s ds. w = e # s @ ds \<and> e \<in> {CHR ''e'', CHR ''E''} \<and> s \<in> {[], ''+'', ''-''} \<and> some_digits ds)"

definition json_number :: "string \<Rightarrow> bool" where
  "json_number w \<longleftrightarrow> (\<exists>i f e. w = i @ f @ e \<and> int_text i \<and> frac_text f \<and> exp_text e)"

definition json_scalar :: "string \<Rightarrow> bool" where
  "json_scalar w \<longleftrightarrow> json_string w \<or> json_number w \<or> w \<in> {''true'', ''false'', ''null''}"

inductive element_list :: "(string \<Rightarrow> bool) \<Rightarrow> string \<Rightarrow> bool" for P where
  last_element: "blank u \<Longrightarrow> P v \<Longrightarrow> blank w \<Longrightarrow> element_list P (u @ v @ w)"
| next_element: "blank u \<Longrightarrow> P v \<Longrightarrow> blank w \<Longrightarrow> element_list P s \<Longrightarrow> element_list P (u @ v @ w @ CHR '','' # s)"

definition member_text :: "(string \<Rightarrow> bool) \<Rightarrow> string \<Rightarrow> bool" where
  "member_text P w \<longleftrightarrow> (\<exists>k u u' v. w = k @ u @ CHR '':'' # u' @ v \<and> json_string k \<and> blank u \<and> blank u' \<and> P v)"

text \<open>A value whose arrays and objects are at most \<open>n\<close> deep.\<close>

fun json_text :: "nat \<Rightarrow> string \<Rightarrow> bool" where
  "json_text 0 w \<longleftrightarrow> json_scalar w"
| "json_text (Suc n) w \<longleftrightarrow> json_scalar w \<or>
     (\<exists>s. w = CHR ''['' # s @ '']'' \<and> (blank s \<or> element_list (json_text n) s)) \<or>
     (\<exists>s. w = CHR ''{'' # s @ ''}'' \<and> (blank s \<or> element_list (member_text (json_text n)) s))"

section \<open>The scanner accepts what the grammar does\<close>

lemma skipSpace_split: "\<exists>u. s = u @ skipSpace s \<and> blank u \<and> (skipSpace s = [] \<or> \<not> is_space (hd (skipSpace s)))"
  using hd_dropWhile [of is_space s] unfolding skipSpace_def blank_def
  by (intro exI [of _ "takeWhile is_space s"]) (auto dest: set_takeWhileD)

lemma skipSpace_append: "blank u \<Longrightarrow> t = [] \<or> \<not> is_space (hd t) \<Longrightarrow> skipSpace (u @ t) = t"
  by (cases t) (simp_all add: skipSpace_def blank_def dropWhile_append)

lemma string_loop_sound: "string_loop s = Some t \<Longrightarrow> \<exists>w. s = w @ t \<and> string_body w"
proof (induction s rule: string_loop.induct)
  case (2 c s)
  show ?case
  proof (cases "c = quote")
    case True
    with 2 show ?thesis by (intro exI [of _ "[quote]"]) (auto intro: body_end)
  next
    case nq: False
    show ?thesis
    proof (cases "c = backslash")
      case False
      with nq 2 obtain w where "s = w @ t" "string_body w" "\<not> code c < 32" by (auto split: if_splits)
      with nq False show ?thesis by (intro exI [of _ "c # w"]) (auto intro: body_char)
    next
      case bs: True
      with nq 2(4) obtain e r where s: "s = e # r" by (auto split: list.splits if_splits)
      let ?E = "{quote, backslash, CHR ''/'', CHR ''b'', CHR ''f'', CHR ''n'', CHR ''r'', CHR ''t''}"
      have c32: "\<not> code backslash < 32" by (simp add: of_char_def)
      show ?thesis
      proof (cases "e \<in> ?E")
        case True
        then have "string_loop r = Some t" using 2(4) bs s nq c32 by (simp only: string_loop.simps list.case if_True if_False) (simp only: if_True if_False simp_thms)
        then obtain w where "r = w @ t" "string_body w" using 2(1) [OF nq _ bs s True] bs c32 by auto
        with True bs s show ?thesis by (intro exI [of _ "backslash # e # w"]) (auto intro: body_escape)
      next
        case False
        then have u: "e = CHR ''u''" "\<not> length r < 4" "\<forall>h \<in> set (take 4 r). is_hex h" "string_loop (drop 4 r) = Some t"
          using 2(4) bs s nq c32 by (auto split: if_splits)
        then obtain w where "drop 4 r = w @ t" "string_body w" using 2(2) [OF nq _ bs s False] bs c32 by auto
        moreover have "r = take 4 r @ drop 4 r" by simp
        ultimately show ?thesis using u bs s
          by (intro exI [of _ "backslash # CHR ''u'' # take 4 r @ w"]) (auto intro: body_unicode)
      qed
    qed
  qed
qed simp

lemma string_loop_complete: "string_body w \<Longrightarrow> string_loop (w @ t) = Some t"
proof (induction rule: string_body.induct)
  case (body_unicode h w)
  have c32: "\<not> code backslash < 32" by (simp add: of_char_def)
  with body_unicode show ?case by simp
next
  case (body_escape e w)
  have c32: "\<not> code backslash < 32" by (simp add: of_char_def)
  with body_escape show ?case by simp
qed auto

lemma skipString_sound: "skipString s = Some t \<Longrightarrow> \<exists>w. s = w @ t \<and> json_string w"
proof -
  assume "skipString s = Some t"
  then obtain r where r: "s = quote # r" "string_loop r = Some t" by (auto simp: skipString_def split: list.splits if_splits)
  from string_loop_sound [OF r(2)] obtain w where "r = w @ t" "string_body w" by blast
  with r show ?thesis by (intro exI [of _ "quote # w"]) (simp add: json_string_def)
qed

lemma skipString_complete: "json_string w \<Longrightarrow> skipString (w @ t) = Some t"
  using string_loop_complete by (cases w) (auto simp: json_string_def skipString_def)

text \<open>Numbers, of which a scanner takes as much as there is.\<close>

lemma skip_digits_sound: "skip_digits s = Some t \<Longrightarrow> \<exists>w. s = w @ t \<and> some_digits w \<and> (t = [] \<or> \<not> is_digit (hd t))"
proof -
  assume s: "skip_digits s = Some t"
  then have t: "t = dropWhile is_digit s" "length t \<noteq> length s" by (auto simp: skip_digits_def Let_def split: if_splits)
  let ?w = "takeWhile is_digit s"
  have "?w \<noteq> []"
  proof
    assume "?w = []"
    then have "t = s" using t(1) takeWhile_dropWhile_id [of is_digit s] by simp
    with t(2) show False by simp
  qed
  then have "some_digits ?w" by (auto simp: some_digits_def dest: set_takeWhileD)
  moreover have "s = ?w @ t" using t(1) by simp
  moreover have "t = [] \<or> \<not> is_digit (hd t)" using hd_dropWhile [of is_digit s] t(1) by blast
  ultimately show ?thesis by blast
qed

lemma skip_digits_complete: "some_digits w \<Longrightarrow> t = [] \<or> \<not> is_digit (hd t) \<Longrightarrow> skip_digits (w @ t) = Some t"
proof -
  assume w: "some_digits w" and t: "t = [] \<or> \<not> is_digit (hd t)"
  have "dropWhile is_digit t = t" using t by (cases t) auto
  then have "dropWhile is_digit (w @ t) = t" using w by (simp add: some_digits_def dropWhile_append)
  then show ?thesis using w by (simp add: skip_digits_def some_digits_def)
qed

lemma digit_not:
  "is_digit c \<Longrightarrow> c \<noteq> CHR ''-'' \<and> c \<noteq> CHR ''+'' \<and> c \<noteq> CHR ''.'' \<and> c \<noteq> CHR ''e'' \<and> c \<noteq> CHR ''E'' \<and> c \<noteq> quote \<and>
     c \<noteq> CHR ''['' \<and> c \<noteq> CHR ''{'' \<and> \<not> is_space c \<and> c \<noteq> CHR '']'' \<and> c \<noteq> CHR ''}''"
  by (auto simp: is_digit_def is_space_def)

lemma digit_0 [simp]: "is_digit CHR ''0''"
  by (simp add: is_digit_def)

lemma skip_int_sound: "skip_int s = Some t \<Longrightarrow> \<exists>w. s = w @ t \<and> int_text w"
proof -
  assume a: "skip_int s = Some t"
  define sign where "sign = (if s \<noteq> [] \<and> hd s = CHR ''-'' then ''-'' else [])"
  define r where "r = drop (length sign) s"
  have s: "s = sign @ r" "sign \<in> {[], ''-''}" by (cases s; simp add: sign_def r_def)+
  have "(case s of c # r \<Rightarrow> if c = CHR ''-'' then r else s | [] \<Rightarrow> s) = r" by (cases s) (simp_all add: sign_def r_def)
  then have b: "(case r of c # r' \<Rightarrow> if c = CHR ''0'' then Some r' else skip_digits r | [] \<Rightarrow> skip_digits r) = Some t"
    using a by (simp add: skip_int_def)
  have "\<exists>ds. r = ds @ t \<and> (ds = ''0'' \<or> some_digits ds \<and> hd ds \<noteq> CHR ''0'')"
  proof (cases "r \<noteq> [] \<and> hd r = CHR ''0''")
    case True
    with b show ?thesis by (cases r) auto
  next
    case False
    then have "skip_digits r = Some t" using b by (cases r) auto
    from skip_digits_sound [OF this] obtain w where w: "r = w @ t" "some_digits w" by blast
    with False have "hd w \<noteq> CHR ''0''" by (cases w) (auto simp: some_digits_def)
    with w show ?thesis by blast
  qed
  with s show ?thesis unfolding int_text_def by (metis append.assoc)
qed

lemma int_text_start: "int_text w \<Longrightarrow> w \<noteq> [] \<and> (hd w = CHR ''-'' \<or> is_digit (hd w))"
  by (auto simp: int_text_def some_digits_def)

lemma skip_int_complete:
  assumes "int_text w" "t = [] \<or> \<not> is_digit (hd t)"
  shows "skip_int (w @ t) = Some t"
proof -
  obtain sign ds where w: "w = sign @ ds" "sign \<in> {[], ''-''}" "ds = ''0'' \<or> some_digits ds \<and> hd ds \<noteq> CHR ''0''"
    using assms(1) by (auto simp: int_text_def)
  have d: "ds \<noteq> [] \<and> is_digit (hd ds)" using w(3) by (auto simp: some_digits_def)
  then have hd: "hd ds \<noteq> CHR ''-''" using digit_not by blast
  have "(case w @ t of c # r \<Rightarrow> if c = CHR ''-'' then r else w @ t | [] \<Rightarrow> w @ t) = ds @ t"
    using w(1,2) d hd by (cases ds) auto
  moreover have "(case ds @ t of c # r \<Rightarrow> if c = CHR ''0'' then Some r else skip_digits (ds @ t) | [] \<Rightarrow> skip_digits (ds @ t)) = Some t"
    using w(3) d assms(2) skip_digits_complete [of ds t] by (cases ds) auto
  ultimately show ?thesis by (simp add: skip_int_def Let_def)
qed

lemma skip_frac_sound: "skip_frac s = Some t \<Longrightarrow> \<exists>w. s = w @ t \<and> frac_text w"
proof (cases "s \<noteq> [] \<and> hd s = CHR ''.''")
  case True
  assume "skip_frac s = Some t"
  with True obtain r where r: "s = CHR ''.'' # r" "skip_digits r = Some t" by (cases s) (auto simp: skip_frac_def)
  from skip_digits_sound [OF r(2)] obtain w where "r = w @ t" "some_digits w" by blast
  with r(1) show ?thesis by (intro exI [of _ "CHR ''.'' # w"]) (simp add: frac_text_def)
next
  case False
  assume "skip_frac s = Some t"
  with False have "s = t" by (cases s) (auto simp: skip_frac_def)
  then show ?thesis by (auto simp: frac_text_def)
qed

lemma skip_frac_complete:
  "frac_text w \<Longrightarrow> t = [] \<or> \<not> is_digit (hd t) \<and> (w = [] \<longrightarrow> hd t \<noteq> CHR ''.'') \<Longrightarrow> skip_frac (w @ t) = Some t"
  using skip_digits_complete [of _ t] by (cases t) (auto simp: frac_text_def skip_frac_def)

lemma skip_exp_sound: "skip_exp s = Some t \<Longrightarrow> \<exists>w. s = w @ t \<and> exp_text w"
proof (cases "s \<noteq> [] \<and> (hd s = CHR ''e'' \<or> hd s = CHR ''E'')")
  case True
  assume a: "skip_exp s = Some t"
  with True obtain e r where s: "s = e # r" "e \<in> {CHR ''e'', CHR ''E''}" by (cases s) auto
  define sg where "sg = (if r \<noteq> [] \<and> (hd r = CHR ''+'' \<or> hd r = CHR ''-'') then [hd r] else [])"
  define q where "q = drop (length sg) r"
  have r: "r = sg @ q" "sg \<in> {[], ''+'', ''-''}" by (cases r; auto simp: sg_def q_def)+
  have "(case r of d # q \<Rightarrow> if d = CHR ''+'' \<or> d = CHR ''-'' then q else r | [] \<Rightarrow> r) = q"
    by (cases r) (simp_all add: sg_def q_def)
  then have "skip_digits q = Some t" using a s by (auto simp: skip_exp_def)
  from skip_digits_sound [OF this] obtain w where "q = w @ t" "some_digits w" by blast
  with s r show ?thesis by (intro exI [of _ "e # sg @ w"]) (auto simp: exp_text_def)
next
  case False
  assume "skip_exp s = Some t"
  with False have "s = t" by (cases s) (auto simp: skip_exp_def)
  then show ?thesis by (auto simp: exp_text_def)
qed

lemma skip_exp_complete:
  assumes "exp_text w" "t = [] \<or> \<not> is_digit (hd t) \<and> (w = [] \<longrightarrow> hd t \<noteq> CHR ''e'' \<and> hd t \<noteq> CHR ''E'')"
  shows "skip_exp (w @ t) = Some t"
proof (cases "w = []")
  case True
  with assms(2) show ?thesis by (cases t) (auto simp: skip_exp_def)
next
  case False
  then obtain e s ds where w: "w = e # s @ ds" "e \<in> {CHR ''e'', CHR ''E''}" "s \<in> {[], ''+'', ''-''}" "some_digits ds"
    using assms(1) by (auto simp: exp_text_def)
  have d: "ds \<noteq> [] \<and> is_digit (hd ds)" using w(4) by (auto simp: some_digits_def)
  then have "hd ds \<noteq> CHR ''-'' \<and> hd ds \<noteq> CHR ''+''" using digit_not by blast
  then have "(case s @ ds @ t of c # q \<Rightarrow> if c = CHR ''+'' \<or> c = CHR ''-'' then q else s @ ds @ t | [] \<Rightarrow> s @ ds @ t) = ds @ t"
    using w(3) d by (cases ds) auto
  moreover have "skip_digits (ds @ t) = Some t" using w(4) assms(2) by (intro skip_digits_complete) auto
  ultimately show ?thesis using w(1,2) by (auto simp: skip_exp_def)
qed

text \<open>A character that cannot go on a number.\<close>

definition ends_number :: "string \<Rightarrow> bool" where
  "ends_number t \<longleftrightarrow> t = [] \<or> \<not> is_digit (hd t) \<and> hd t \<notin> {CHR ''.'', CHR ''e'', CHR ''E''}"

lemma skipNumber_sound: "skipNumber s = Some t \<Longrightarrow> \<exists>w. s = w @ t \<and> json_number w"
proof -
  assume "skipNumber s = Some t"
  then obtain s1 s2 where n: "skip_int s = Some s1" "skip_frac s1 = Some s2" "skip_exp s2 = Some t"
    by (auto simp: skipNumber_def bind_eq_Some_conv)
  obtain i f e where w: "s = i @ s1" "int_text i" "s1 = f @ s2" "frac_text f" "s2 = e @ t" "exp_text e"
    using skip_int_sound [OF n(1)] skip_frac_sound [OF n(2)] skip_exp_sound [OF n(3)] by blast
  then show ?thesis unfolding json_number_def by (intro exI [of _ "i @ f @ e"] conjI exI [of _ i] exI [of _ f] exI [of _ e]) simp_all
qed

lemma exp_text_start: "exp_text w \<Longrightarrow> w \<noteq> [] \<Longrightarrow> hd w = CHR ''e'' \<or> hd w = CHR ''E''"
  by (auto simp: exp_text_def)

lemma frac_text_start: "frac_text w \<Longrightarrow> w \<noteq> [] \<Longrightarrow> hd w = CHR ''.''"
  by (auto simp: frac_text_def)

lemma skipNumber_complete:
  assumes "json_number w" "ends_number t"
  shows "skipNumber (w @ t) = Some t"
proof -
  obtain i f e where w: "w = i @ f @ e" "int_text i" "frac_text f" "exp_text e" using assms(1) by (auto simp: json_number_def)
  have nd: "\<not> is_digit CHR ''e''" "\<not> is_digit CHR ''E''" "\<not> is_digit CHR ''.''" by (simp_all add: is_digit_def)
  have 1: "e @ t = [] \<or> \<not> is_digit (hd (e @ t)) \<and> hd (e @ t) \<noteq> CHR ''.''"
    using exp_text_start [OF w(4)] assms(2) nd by (cases "e = []") (auto simp: ends_number_def hd_append)
  have 2: "(f @ e @ t) = [] \<or> \<not> is_digit (hd (f @ e @ t))"
    using frac_text_start [OF w(3)] 1 nd by (cases "f = []") (auto simp: hd_append)
  have "skip_int (w @ t) = Some (f @ e @ t)" using skip_int_complete [OF w(2) 2] w(1) by simp
  moreover have "skip_frac (f @ e @ t) = Some (e @ t)" using 1 by (intro skip_frac_complete [OF w(3)]) auto
  moreover have "skip_exp (e @ t) = Some t" using assms(2) by (intro skip_exp_complete [OF w(4)]) (auto simp: ends_number_def)
  ultimately show ?thesis by (simp add: skipNumber_def)
qed

lemma skip_literal_iff: "skip_literal s = Some t \<longleftrightarrow> (\<exists>w \<in> {''true'', ''false'', ''null''}. s = w @ t)"
  by (auto simp: skip_literal_def prefix_def split: if_splits)

text \<open>The loops, for callbacks that take what is to be found between the commas.\<close>

lemma item_loop_sound:
  "item_loop fn a s = Some (a', t) \<Longrightarrow> (\<And>a u a' t. fn a u = Some (a', t) \<Longrightarrow> \<exists>v. u = v @ t \<and> P v) \<Longrightarrow>
     \<exists>w. s = w @ CHR '']'' # t \<and> element_list P w"
proof (induction fn a s rule: item_loop.induct)
  case (1 fn a s)
  from 1(2) obtain b u d x where f: "fn a s = Some (b, u)" and d: "skipSpace u = d # x"
    by (subst (asm) item_loop.simps) (auto split: option.splits prod.splits list.splits)
  obtain v where v: "s = v @ u" "P v" using 1(3) [OF f] by blast
  obtain w where w: "u = w @ d # x" "blank w" using skipSpace_split [of u] d by auto
  show ?case
  proof (cases "d = CHR '']''")
    case True
    then have "x = t" using 1(2) f d by (subst (asm) item_loop.simps) auto
    moreover have "element_list P ([] @ v @ w)" using v w by (intro last_element) (auto simp: blank_def)
    ultimately show ?thesis using v w True by (intro exI [of _ "v @ w"]) auto
  next
    case nd: False
    then have c: "d = CHR '','' \<and> length x < length s" "item_loop fn b (skipSpace x) = Some (a', t)"
      using 1(2) f d by (subst (asm) item_loop.simps, auto split: if_splits)+
    have "\<exists>w. skipSpace x = w @ CHR '']'' # t \<and> element_list P w" by (rule 1(1) [OF f refl d nd c(1) c(2)]) (rule 1(3))
    then obtain r where r: "skipSpace x = r @ CHR '']'' # t" "element_list P r" by blast
    obtain u' where u': "x = u' @ skipSpace x" "blank u'" using skipSpace_split [of x] by blast
    have "element_list P (u' @ r)" using r(2)
    proof cases
      case (last_element y z z')
      then show ?thesis using u'(2) element_list.last_element [of "u' @ y" P z z'] by (auto simp: blank_def)
    next
      case (next_element y z z' q)
      then show ?thesis using u'(2) element_list.next_element [of "u' @ y" P z z' q] by (auto simp: blank_def)
    qed
    then have "element_list P ([] @ v @ w @ CHR '','' # u' @ r)" using v w by (intro next_element) (auto simp: blank_def)
    then show ?thesis using v w r u' c(1) by (intro exI [of _ "v @ w @ CHR '','' # u' @ r"]) auto
  qed
qed

lemma member_loop_sound:
  "member_loop fn a s = Some (a', t) \<Longrightarrow> (\<And>a k u a' t. fn a k u = Some (a', t) \<Longrightarrow> \<exists>v. u = v @ t \<and> P v) \<Longrightarrow>
     \<exists>w. s = w @ CHR ''}'' # t \<and> element_list (member_text P) w"
proof (induction fn a s rule: member_loop.induct)
  case (1 fn a s)
  from 1(2) obtain q r where q: "skipString s = Some q" and r: "skipSpace q = CHR '':'' # r"
    by (subst (asm) member_loop.simps) (auto split: option.splits list.splits if_splits)
  let ?k = "butlast (tl (upto_rest s q))"
  from 1(2) q r obtain b u d x where f: "fn a ?k (skipSpace r) = Some (b, u)" and d: "skipSpace u = d # x"
    by (subst (asm) member_loop.simps) (auto split: option.splits prod.splits list.splits)
  obtain k where k: "s = k @ q" "json_string k" using skipString_sound [OF q] by blast
  obtain y where y: "q = y @ CHR '':'' # r" "blank y" using skipSpace_split [of q] r by auto
  obtain z where z: "r = z @ skipSpace r" "blank z" using skipSpace_split [of r] by auto
  obtain v where v: "skipSpace r = v @ u" "P v" using 1(3) [OF f] by blast
  obtain w where w: "u = w @ d # x" "blank w" using skipSpace_split [of u] d by auto
  let ?m = "k @ y @ CHR '':'' # z @ v"
  have m: "member_text P ?m" using k y z v by (auto simp: member_text_def)
  have s: "s = ?m @ w @ d # x" using k y z v w by simp
  show ?case
  proof (cases "d = CHR ''}''")
    case True
    then have "x = t" using 1(2) q r f d by (subst (asm) member_loop.simps) auto
    moreover have "element_list (member_text P) ([] @ ?m @ w)" using m w by (intro last_element) (auto simp: blank_def)
    ultimately show ?thesis using s True by (intro exI [of _ "?m @ w"]) auto
  next
    case nd: False
    then have c: "d = CHR '','' \<and> length x < length s" "member_loop fn b (skipSpace x) = Some (a', t)"
      using 1(2) q r f d by (subst (asm) member_loop.simps, auto split: if_splits)+
    have "\<not> CHR '':'' \<noteq> CHR '':''" by simp
    then have "\<exists>w. skipSpace x = w @ CHR ''}'' # t \<and> element_list (member_text P) w"
      by (rule 1(1) [OF q r _ f refl d nd c(1) c(2)]) (rule 1(3))
    then obtain p where p: "skipSpace x = p @ CHR ''}'' # t"
      "element_list (member_text P) p" by blast
    obtain u' where u': "x = u' @ skipSpace x" "blank u'" using skipSpace_split [of x] by blast
    have "element_list (member_text P) (u' @ p)" using p(2)
    proof cases
      case (last_element y z z')
      then show ?thesis using u'(2) element_list.last_element [of "u' @ y" "member_text P" z z'] by (auto simp: blank_def)
    next
      case (next_element y z z' q)
      then show ?thesis using u'(2) element_list.next_element [of "u' @ y" "member_text P" z z' q] by (auto simp: blank_def)
    qed
    then have "element_list (member_text P) ([] @ ?m @ w @ CHR '','' # u' @ p)" using m w by (intro next_element) (auto simp: blank_def)
    then show ?thesis using s p u' c(1) by (intro exI [of _ "?m @ w @ CHR '','' # u' @ p"]) auto
  qed
qed

definition starts :: "(string \<Rightarrow> bool) \<Rightarrow> bool" where
  "starts P \<longleftrightarrow> (\<forall>v. P v \<longrightarrow> v \<noteq> [] \<and> \<not> is_space (hd v) \<and> hd v \<noteq> CHR '']'' \<and> hd v \<noteq> CHR ''}'')"

lemma ends_after: "blank w \<Longrightarrow> c \<in> {CHR '','', CHR '']'', CHR ''}''} \<Longrightarrow> ends_number (w @ c # t)"
proof (cases w)
  case (Cons x xs)
  assume "blank w"
  then have "is_space x" by (simp add: Cons blank_def)
  moreover from this have "\<not> is_digit x" using digit_not by blast
  ultimately show ?thesis by (auto simp: ends_number_def is_space_def Cons)
qed (auto simp: ends_number_def is_digit_def)

lemma skipSpace_starts: "starts P \<Longrightarrow> P v \<Longrightarrow> blank u \<Longrightarrow> skipSpace (u @ v @ t) = v @ t"
  by (rule skipSpace_append) (auto simp: starts_def)

lemma item_loop_complete:
  assumes P: "starts P" and fn: "\<And>v t. P v \<Longrightarrow> ends_number t \<Longrightarrow> fn a (v @ t) = Some (a, t)"
    and w: "element_list P w"
  shows "item_loop fn a (skipSpace (w @ CHR '']'' # t)) = Some (a, t)"
  using w
proof (induction rule: element_list.induct)
  case (last_element u v w)
  have "\<not> is_space CHR '']''" by (simp add: is_space_def)
  then have sw: "skipSpace (w @ CHR '']'' # t) = CHR '']'' # t" using last_element by (intro skipSpace_append) auto
  have "fn a (v @ w @ CHR '']'' # t) = Some (a, w @ CHR '']'' # t)"
    using last_element by (intro fn ends_after) auto
  then have "item_loop fn a (v @ w @ CHR '']'' # t) = Some (a, t)" using sw by (subst item_loop.simps) simp
  then show ?case using skipSpace_starts [OF P last_element(2,1)] by simp
next
  case (next_element u v w s)
  let ?r = "CHR '','' # s @ CHR '']'' # t"
  have "\<not> is_space CHR '',''" by (simp add: is_space_def)
  then have sw: "skipSpace (w @ ?r) = ?r" using next_element by (intro skipSpace_append) auto
  have f: "fn a (v @ w @ ?r) = Some (a, w @ ?r)" using next_element by (intro fn ends_after) auto
  have "item_loop fn a (v @ w @ ?r) = Some (a, t)"
    using f sw next_element.IH by (subst item_loop.simps) simp
  then show ?case using skipSpace_starts [OF P next_element(2,1)] by simp
qed

lemma starts_member: "starts (member_text P)"
  by (auto simp: starts_def member_text_def json_string_def is_space_def hd_append)

lemma member_once:
  assumes P: "starts P" and fn: "\<And>k v t. P v \<Longrightarrow> ends_number t \<Longrightarrow> fn a k (v @ t) = Some (a, t)"
    and m: "member_text P m" and t: "ends_number t"
  shows "\<exists>q r. skipString (m @ t) = Some q \<and> skipSpace q = CHR '':'' # r \<and> (\<forall>k. fn a k (skipSpace r) = Some (a, t))"
proof -
  obtain k u u' v where k: "m = k @ u @ CHR '':'' # u' @ v" "json_string k" "blank u" "blank u'" "P v"
    using m by (auto simp: member_text_def)
  have "skipString (m @ t) = Some (u @ CHR '':'' # u' @ v @ t)" using skipString_complete [OF k(2)] k(1) by simp
  moreover have "\<not> is_space CHR '':''" by (simp add: is_space_def)
  then have "skipSpace (u @ CHR '':'' # u' @ v @ t) = CHR '':'' # u' @ v @ t" using k(3) by (intro skipSpace_append) auto
  moreover have "fn a key (skipSpace (u' @ v @ t)) = Some (a, t)" for key
    using fn [OF k(5) t] skipSpace_starts [OF P k(5,4)] by simp
  ultimately show ?thesis by blast
qed

lemma member_loop_complete:
  assumes P: "starts P" and fn: "\<And>k v t. P v \<Longrightarrow> ends_number t \<Longrightarrow> fn a k (v @ t) = Some (a, t)"
    and w: "element_list (member_text P) w"
  shows "member_loop fn a (skipSpace (w @ CHR ''}'' # t)) = Some (a, t)"
  using w
proof (induction rule: element_list.induct)
  case (last_element u v w)
  have "\<not> is_space CHR ''}''" by (simp add: is_space_def)
  then have sw: "skipSpace (w @ CHR ''}'' # t) = CHR ''}'' # t" using last_element by (intro skipSpace_append) auto
  have "ends_number (w @ CHR ''}'' # t)" using last_element by (intro ends_after) auto
  from member_once [where fn = fn and a = a, OF P fn last_element(2) this] obtain q r where "skipString (v @ w @ CHR ''}'' # t) = Some q"
    "skipSpace q = CHR '':'' # r" "\<forall>k. fn a k (skipSpace r) = Some (a, w @ CHR ''}'' # t)" by blast
  then have "member_loop fn a (v @ w @ CHR ''}'' # t) = Some (a, t)" using sw by (subst member_loop.simps) simp
  then show ?case using skipSpace_starts [OF starts_member last_element(2,1)] by simp
next
  case (next_element u v w s)
  let ?r = "CHR '','' # s @ CHR ''}'' # t"
  have "\<not> is_space CHR '',''" by (simp add: is_space_def)
  then have sw: "skipSpace (w @ ?r) = ?r" using next_element by (intro skipSpace_append) auto
  have "ends_number (w @ ?r)" using next_element by (intro ends_after) auto
  from member_once [where fn = fn and a = a, OF P fn next_element(2) this] obtain q r where "skipString (v @ w @ ?r) = Some q"
    "skipSpace q = CHR '':'' # r" "\<forall>k. fn a k (skipSpace r) = Some (a, w @ ?r)" by blast
  then have "member_loop fn a (v @ w @ ?r) = Some (a, t)" using sw next_element.IH by (subst member_loop.simps) simp
  then show ?case using skipSpace_starts [OF starts_member next_element(2,1)] by simp
qed

lemma members_sound:
  assumes "members lim d fn a s = Some (a', t)" "\<And>a k u a' t. fn a k u = Some (a', t) \<Longrightarrow> \<exists>v. u = v @ t \<and> P v"
  shows "d \<le> lim \<and> (\<exists>w. s = CHR ''{'' # w @ CHR ''}'' # t \<and> (blank w \<or> element_list (member_text P) w))"
proof -
  obtain r where r: "s = CHR ''{'' # r" "d \<le> lim"
    "(if skipSpace r \<noteq> [] \<and> hd (skipSpace r) = CHR ''}'' then Some (a, tl (skipSpace r)) else member_loop fn a (skipSpace r)) = Some (a', t)"
    using assms(1) by (auto simp: members_def Let_def split: list.splits if_splits)
  obtain u where u: "r = u @ skipSpace r" "blank u" using skipSpace_split [of r] by blast
  show ?thesis
  proof (cases "skipSpace r \<noteq> [] \<and> hd (skipSpace r) = CHR ''}''")
    case True
    then have "skipSpace r = CHR ''}'' # t" using r(3) by (cases "skipSpace r") auto
    then show ?thesis using r u by auto
  next
    case False
    then have "member_loop fn a (skipSpace r) = Some (a', t)" using r(3) by (simp only: if_False)
    then have "\<exists>w. skipSpace r = w @ CHR ''}'' # t \<and> element_list (member_text P) w"
      by (rule member_loop_sound) (rule assms(2))
    then obtain w where w: "skipSpace r = w @ CHR ''}'' # t" "element_list (member_text P) w" by blast
    from w(2) have "element_list (member_text P) (u @ w)"
    proof cases
      case (last_element y z z')
      then show ?thesis using u(2) element_list.last_element [of "u @ y" "member_text P" z z'] by (auto simp: blank_def)
    next
      case (next_element y z z' q)
      then show ?thesis using u(2) element_list.next_element [of "u @ y" "member_text P" z z' q] by (auto simp: blank_def)
    qed
    then show ?thesis using r u w by (metis append.assoc)
  qed
qed

lemma items_sound:
  assumes "items lim d fn a s = Some (a', t)" "\<And>a u a' t. fn a u = Some (a', t) \<Longrightarrow> \<exists>v. u = v @ t \<and> P v"
  shows "d \<le> lim \<and> (\<exists>w. s = CHR ''['' # w @ CHR '']'' # t \<and> (blank w \<or> element_list P w))"
proof -
  obtain r where r: "s = CHR ''['' # r" "d \<le> lim"
    "(if skipSpace r \<noteq> [] \<and> hd (skipSpace r) = CHR '']'' then Some (a, tl (skipSpace r)) else item_loop fn a (skipSpace r)) = Some (a', t)"
    using assms(1) by (auto simp: items_def Let_def split: list.splits if_splits)
  obtain u where u: "r = u @ skipSpace r" "blank u" using skipSpace_split [of r] by blast
  show ?thesis
  proof (cases "skipSpace r \<noteq> [] \<and> hd (skipSpace r) = CHR '']''")
    case True
    then have "skipSpace r = CHR '']'' # t" using r(3) by (cases "skipSpace r") auto
    then show ?thesis using r u by auto
  next
    case False
    then have "item_loop fn a (skipSpace r) = Some (a', t)" using r(3) by (simp only: if_False)
    then have "\<exists>w. skipSpace r = w @ CHR '']'' # t \<and> element_list P w"
      by (rule item_loop_sound) (rule assms(2))
    then obtain w where w: "skipSpace r = w @ CHR '']'' # t" "element_list P w" by blast
    from w(2) have "element_list P (u @ w)"
    proof cases
      case (last_element y z z')
      then show ?thesis using u(2) element_list.last_element [of "u @ y" P z z'] by (auto simp: blank_def)
    next
      case (next_element y z z' q)
      then show ?thesis using u(2) element_list.next_element [of "u @ y" P z z' q] by (auto simp: blank_def)
    qed
    then show ?thesis using r u w by (metis append.assoc)
  qed
qed

lemma element_list_start: "starts P \<Longrightarrow> element_list P w \<Longrightarrow> \<exists>u v. w = u @ v \<and> blank u \<and> v \<noteq> [] \<and> \<not> is_space (hd v) \<and> hd v \<noteq> CHR '']'' \<and> hd v \<noteq> CHR ''}''"
proof -
  assume P: "starts P" and w: "element_list P w"
  from w have "\<exists>u v r. w = u @ v @ r \<and> blank u \<and> P v" by cases blast+
  then obtain u v r where "w = u @ v @ r" "blank u" "P v" by blast
  moreover have "v \<noteq> [] \<and> \<not> is_space (hd v) \<and> hd v \<noteq> CHR '']'' \<and> hd v \<noteq> CHR ''}''"
    using P \<open>P v\<close> by (auto simp: starts_def)
  ultimately show ?thesis by (intro exI [of _ u] exI [of _ "v @ r"]) (auto simp: hd_append)
qed

lemma members_complete:
  assumes P: "starts P" and fn: "\<And>k v t. P v \<Longrightarrow> ends_number t \<Longrightarrow> fn a k (v @ t) = Some (a, t)"
    and w: "blank w \<or> element_list (member_text P) w" and d: "d \<le> lim"
  shows "members lim d fn a (CHR ''{'' # w @ CHR ''}'' # t) = Some (a, t)"
proof (cases "blank w")
  case True
  have "\<not> is_space CHR ''}''" by (simp add: is_space_def)
  then have "skipSpace (w @ CHR ''}'' # t) = CHR ''}'' # t" using True by (intro skipSpace_append) auto
  then show ?thesis using d by (simp add: members_def)
next
  case False
  then have w': "element_list (member_text P) w" using w by simp
  from element_list_start [OF starts_member this] obtain u v where v: "w = u @ v" "blank u" "v \<noteq> []" "\<not> is_space (hd v)" "hd v \<noteq> CHR ''}''" by blast
  have "skipSpace (w @ CHR ''}'' # t) = v @ CHR ''}'' # t" unfolding v(1) append.assoc using v by (intro skipSpace_append) auto
  then show ?thesis using d v member_loop_complete [where fn = fn and a = a and t = t, OF P fn w'] by (simp add: members_def)
qed

lemma items_complete:
  assumes P: "starts P" and fn: "\<And>v t. P v \<Longrightarrow> ends_number t \<Longrightarrow> fn a (v @ t) = Some (a, t)"
    and w: "blank w \<or> element_list P w" and d: "d \<le> lim"
  shows "items lim d fn a (CHR ''['' # w @ CHR '']'' # t) = Some (a, t)"
proof (cases "blank w")
  case True
  have "\<not> is_space CHR '']''" by (simp add: is_space_def)
  then have "skipSpace (w @ CHR '']'' # t) = CHR '']'' # t" using True by (intro skipSpace_append) auto
  then show ?thesis using d by (simp add: items_def)
next
  case False
  then have w': "element_list P w" using w by simp
  from element_list_start [OF P this] obtain u v where v: "w = u @ v" "blank u" "v \<noteq> []" "\<not> is_space (hd v)" "hd v \<noteq> CHR '']''" by blast
  have "skipSpace (w @ CHR '']'' # t) = v @ CHR '']'' # t" unfolding v(1) append.assoc using v by (intro skipSpace_append) auto
  then show ?thesis using d v item_loop_complete [where fn = fn and a = a and t = t, OF P fn w'] by (simp add: items_def)
qed

lemma number_start: "json_number w \<Longrightarrow> w \<noteq> [] \<and> (hd w = CHR ''-'' \<or> is_digit (hd w))"
  by (auto simp: json_number_def hd_append dest: int_text_start)

lemma scalar_start: "json_scalar w \<Longrightarrow> w \<noteq> [] \<and> \<not> is_space (hd w) \<and> hd w \<notin> {CHR '']'', CHR ''}'', CHR ''['', CHR ''{''}"
  using number_start [of w] digit_not [of "hd w"] by (auto simp: json_scalar_def json_string_def is_space_def)

lemma starts_json: "starts (json_text n)"
  unfolding starts_def using scalar_start by (cases n) (auto simp: is_space_def)

text \<open>The scanner at a depth, with \<open>n\<close> levels left below its limit.\<close>

abbreviation value_member :: "nat \<Rightarrow> nat \<Rightarrow> unit \<Rightarrow> string \<Rightarrow> string \<Rightarrow> (unit \<times> string) option" where
  "value_member lim d \<equiv> \<lambda>_ _ t. map_option (Pair ()) (skipValue lim (Suc d) t)"

abbreviation value_item :: "nat \<Rightarrow> nat \<Rightarrow> unit \<Rightarrow> string \<Rightarrow> (unit \<times> string) option" where
  "value_item lim d \<equiv> \<lambda>_ t. map_option (Pair ()) (skipValue lim (Suc d) t)"

lemma skipValue_cases:
  assumes "skipValue lim d s = Some t"
  obtains (scalar) v where "s = v @ t" "json_scalar v"
    | (obj) "d \<le> lim" "members lim d (value_member lim d) () s = Some ((), t)"
    | (arr) "d \<le> lim" "items lim d (value_item lim d) () s = Some ((), t)"
proof -
  obtain c r where s: "s = c # r" using assms by (cases s) (auto simp: skipValue.simps(1))
  note e = assms [unfolded s skipValue.simps(2)]
  consider (str) "c = quote" | (obj) "c = CHR ''{''" | (arr) "c = CHR ''[''"
    | (num) "c \<noteq> quote" "c \<noteq> CHR ''{''" "c \<noteq> CHR ''[''" "c = CHR ''-'' \<or> is_digit c"
    | (lit) "c \<noteq> quote" "c \<noteq> CHR ''{''" "c \<noteq> CHR ''[''" "\<not> (c = CHR ''-'' \<or> is_digit c)" by blast
  then show thesis
  proof cases
    case str
    then show thesis using e s skipString_sound [of s t] that(1) by (auto simp: json_scalar_def)
  next
    case obj
    then have "d \<le> lim \<and> members lim d (value_member lim d) () s = Some ((), t)" using e s by (simp split: if_splits)
    then show thesis using that(2) by blast
  next
    case arr
    then have "d \<le> lim \<and> items lim d (value_item lim d) () s = Some ((), t)" using e s by (simp split: if_splits)
    then show thesis using that(3) by blast
  next
    case num
    then show thesis using e s skipNumber_sound [of s t] that(1) by (auto simp: json_scalar_def)
  next
    case lit
    then have "skip_literal s = Some t" using e s by simp
    then show thesis using skip_literal_iff [of s t] that(1) by (auto simp: json_scalar_def)
  qed
qed

lemma skipValue_sound: "skipValue lim d s = Some t \<Longrightarrow> \<exists>v. s = v @ t \<and> json_text (Suc lim - d) v"
proof (induction "Suc lim - d" arbitrary: d s t)
  case 0
  from 0(2) show ?case using 0(1) by (cases rule: skipValue_cases) auto
next
  case (Suc n)
  have d: "Suc lim - d = Suc n" "n = Suc lim - Suc d" using Suc(2) by auto
  have fn: "\<exists>v. u = v @ t' \<and> json_text n v" if "map_option (Pair ()) (skipValue lim (Suc d) u) = Some (b, t')" for u b t'
    using Suc(1) [OF d(2), of u t'] that d(2) by auto
  from Suc(3) show ?case unfolding d(1)
  proof (cases rule: skipValue_cases)
    case (scalar v)
    then show "\<exists>v. s = v @ t \<and> json_text (Suc n) v" by auto
  next
    case obj
    from obj(2) have "d \<le> lim \<and> (\<exists>w. s = CHR ''{'' # w @ CHR ''}'' # t \<and> (blank w \<or> element_list (member_text (json_text n)) w))"
      by (rule members_sound) (rule fn)
    then obtain w where "s = CHR ''{'' # w @ CHR ''}'' # t" "blank w \<or> element_list (member_text (json_text n)) w" by blast
    then show "\<exists>v. s = v @ t \<and> json_text (Suc n) v" by (intro exI [of _ "CHR ''{'' # w @ ''}''"]) auto
  next
    case arr
    from arr(2) have "d \<le> lim \<and> (\<exists>w. s = CHR ''['' # w @ CHR '']'' # t \<and> (blank w \<or> element_list (json_text n) w))"
      by (rule items_sound) (rule fn)
    then obtain w where "s = CHR ''['' # w @ CHR '']'' # t" "blank w \<or> element_list (json_text n) w" by blast
    then show "\<exists>v. s = v @ t \<and> json_text (Suc n) v" by (intro exI [of _ "CHR ''['' # w @ '']''"]) auto
  qed
qed

lemma skipValue_scalar: "json_scalar v \<Longrightarrow> ends_number t \<Longrightarrow> skipValue lim d (v @ t) = Some t"
proof -
  assume v: "json_scalar v" and t: "ends_number t"
  then obtain c r where c: "v = c # r" using scalar_start [of v] by (cases v) auto
  consider (str) "json_string v" | (num) "json_number v" | (lit) "v \<in> {''true'', ''false'', ''null''}"
    using v by (auto simp: json_scalar_def)
  then show ?thesis
  proof cases
    case str
    then show ?thesis using skipString_complete [OF str, of t] c by (auto simp: json_string_def skipValue.simps)
  next
    case num
    then have "c = CHR ''-'' \<or> is_digit c" using number_start [OF num] c by auto
    then have "c \<noteq> quote" "c \<noteq> CHR ''{''" "c \<noteq> CHR ''[''" using digit_not [of c] by auto
    then show ?thesis using skipNumber_complete [OF num t] c \<open>c = CHR ''-'' \<or> is_digit c\<close> by (simp add: skipValue.simps)
  next
    case lit
    then have n: "\<not> is_digit c" "c \<noteq> CHR ''-''" "c \<noteq> quote" "c \<noteq> CHR ''{''" "c \<noteq> CHR ''[''" using c by (auto simp: is_digit_def)
    have "skip_literal (v @ t) = Some t" using lit skip_literal_iff by blast
    then show ?thesis using c n by (simp add: skipValue.simps)
  qed
qed

lemma skipValue_complete: "json_text n v \<Longrightarrow> n \<le> Suc lim - d \<Longrightarrow> ends_number t \<Longrightarrow> skipValue lim d (v @ t) = Some t"
proof (induction n arbitrary: d v t)
  case 0
  then show ?case using skipValue_scalar by simp
next
  case (Suc n)
  have d: "d \<le> lim" "n \<le> Suc lim - Suc d" using Suc(3) by auto
  have fn: "map_option (Pair ()) (skipValue lim (Suc d) (v @ t)) = Some ((), t)" if "json_text n v" "ends_number t" for v t
    using Suc(1) [OF that(1) d(2) that(2)] by simp
  consider (scalar) "json_scalar v"
    | (arr) w where "v = CHR ''['' # w @ '']''" "blank w \<or> element_list (json_text n) w"
    | (obj) w where "v = CHR ''{'' # w @ ''}''" "blank w \<or> element_list (member_text (json_text n)) w"
    using Suc(2) by auto
  then show ?case
  proof cases
    case scalar
    then show ?thesis using skipValue_scalar Suc(4) by blast
  next
    case arr
    have "items lim d (\<lambda>(_::unit) t. map_option (Pair ()) (skipValue lim (Suc d) t)) () (CHR ''['' # w @ CHR '']'' # t) = Some ((), t)"
      by (rule items_complete [OF starts_json _ arr(2) d(1)]) (rule fn)
    then show ?thesis using arr d(1) by (simp add: skipValue.simps)
  next
    case obj
    have "members lim d (\<lambda>(_::unit) _ t. map_option (Pair ()) (skipValue lim (Suc d) t)) () (CHR ''{'' # w @ CHR ''}'' # t) = Some ((), t)"
      by (rule members_complete [OF starts_json _ obj(2) d(1)]) (rule fn)
    then show ?thesis using obj d(1) by (simp add: skipValue.simps)
  qed
qed

text \<open>A text that is one value, with blanks around it.\<close>

definition valid_json :: "nat \<Rightarrow> nat \<Rightarrow> string \<Rightarrow> bool" where
  "valid_json lim d b \<longleftrightarrow> (case skipValue lim d (skipSpace b) of Some t \<Rightarrow> skipSpace t = [] | None \<Rightarrow> False)"

lemma skipSpace_blank: "skipSpace t = [] \<longleftrightarrow> blank t"
  by (auto simp: skipSpace_def blank_def)

lemma valid_json_iff:
  "valid_json lim d b \<longleftrightarrow> (\<exists>u v w. b = u @ v @ w \<and> blank u \<and> blank w \<and> json_text (Suc lim - d) v)"
proof
  assume "valid_json lim d b"
  then obtain t where t: "skipValue lim d (skipSpace b) = Some t" "skipSpace t = []"
    by (auto simp: valid_json_def split: option.splits)
  from skipValue_sound [OF t(1)] obtain v where "skipSpace b = v @ t" "json_text (Suc lim - d) v" by blast
  moreover obtain u where "b = u @ skipSpace b" "blank u" using skipSpace_split [of b] by blast
  ultimately show "\<exists>u v w. b = u @ v @ w \<and> blank u \<and> blank w \<and> json_text (Suc lim - d) v"
    using t(2) unfolding skipSpace_blank by metis
next
  assume "\<exists>u v w. b = u @ v @ w \<and> blank u \<and> blank w \<and> json_text (Suc lim - d) v"
  then obtain u v w where v: "b = u @ v @ w" "blank u" "blank w" "json_text (Suc lim - d) v" by blast
  have "skipSpace b = v @ w" using skipSpace_starts [OF starts_json v(4,2)] v(1) by simp
  moreover have "ends_number w"
  proof (cases w)
    case (Cons c r)
    then have c: "is_space c" using v(3) by (simp add: blank_def)
    moreover have "\<not> is_digit c" using c digit_not [of c] by blast
    ultimately show ?thesis using Cons by (auto simp: ends_number_def is_space_def)
  qed (simp add: ends_number_def)
  ultimately show "valid_json lim d b" using skipValue_complete [OF v(4) order_refl] v(3)
    by (simp add: valid_json_def skipSpace_blank)
qed

end
