(* ===== verification/Scan_Laws.thy ===== *)
theory Scan_Laws
  imports Scan
begin

text \<open>
  What the loops of the scanner (\<open>src/scan.go\<close>) make of their callbacks: two that end in the same places
  run alike, a deeper limit changes nothing, and a value reads the same whatever comes after it.
\<close>

section \<open>Callbacks\<close>

text \<open>Two callbacks that end in the same places, with what they make related.\<close>

lemma member_loop_sim:
  "member_loop fn a s = Some (a', t) \<Longrightarrow>
     (\<And>a k u b t c. fn a k u = Some (b, t) \<Longrightarrow> R a c \<Longrightarrow> \<exists>c'. fn' c k u = Some (c', t) \<and> R b c') \<Longrightarrow> R a c \<Longrightarrow>
     \<exists>c'. member_loop fn' c s = Some (c', t) \<and> R a' c'"
proof (induction fn a s arbitrary: c rule: member_loop.induct)
  case (1 fn a s)
  from 1(2) obtain q r where q: "skipString s = Some q" and r: "skipSpace q = CHR '':'' # r"
    by (subst (asm) member_loop.simps) (auto split: option.splits list.splits if_splits)
  let ?k = "butlast (tl (upto_rest s q))"
  from 1(2) q r obtain b u d x where f: "fn a ?k (skipSpace r) = Some (b, u)" and d: "skipSpace u = d # x"
    by (subst (asm) member_loop.simps) (auto split: option.splits prod.splits list.splits)
  obtain c1 where c1: "fn' c ?k (skipSpace r) = Some (c1, u)" "R b c1" using 1(3) [OF f 1(4)] by blast
  show ?case
  proof (cases "d = CHR ''}''")
    case True
    then have "(b, x) = (a', t)" using 1(2) q r f d by (subst (asm) member_loop.simps) auto
    then show ?thesis using q r c1 d True by (subst member_loop.simps) auto
  next
    case nd: False
    then have l: "d = CHR '','' \<and> length x < length s" "member_loop fn b (skipSpace x) = Some (a', t)"
      using 1(2) q r f d by (subst (asm) member_loop.simps, auto split: if_splits)+
    have "\<exists>c'. member_loop fn' c1 (skipSpace x) = Some (c', t) \<and> R a' c'"
      by (rule 1(1) [OF q r _ f refl d nd l(1) l(2) _ c1(2)]) (use 1(3) in blast)+
    then show ?thesis using q r c1 d nd l(1) by (subst member_loop.simps) auto
  qed
qed

lemma item_loop_sim:
  "item_loop fn a s = Some (a', t) \<Longrightarrow>
     (\<And>a u b t c. fn a u = Some (b, t) \<Longrightarrow> R a c \<Longrightarrow> \<exists>c'. fn' c u = Some (c', t) \<and> R b c') \<Longrightarrow> R a c \<Longrightarrow>
     \<exists>c'. item_loop fn' c s = Some (c', t) \<and> R a' c'"
proof (induction fn a s arbitrary: c rule: item_loop.induct)
  case (1 fn a s)
  from 1(2) obtain b u d x where f: "fn a s = Some (b, u)" and d: "skipSpace u = d # x"
    by (subst (asm) item_loop.simps) (auto split: option.splits prod.splits list.splits)
  obtain c1 where c1: "fn' c s = Some (c1, u)" "R b c1" using 1(3) [OF f 1(4)] by blast
  show ?case
  proof (cases "d = CHR '']''")
    case True
    then have "(b, x) = (a', t)" using 1(2) f d by (subst (asm) item_loop.simps) auto
    then show ?thesis using c1 d True by (subst item_loop.simps) auto
  next
    case nd: False
    then have l: "d = CHR '','' \<and> length x < length s" "item_loop fn b (skipSpace x) = Some (a', t)"
      using 1(2) f d by (subst (asm) item_loop.simps, auto split: if_splits)+
    have "\<exists>c'. item_loop fn' c1 (skipSpace x) = Some (c', t) \<and> R a' c'"
      by (rule 1(1) [OF f refl d nd l(1) l(2) _ c1(2)]) (use 1(3) in blast)+
    then show ?thesis using c1 d nd l(1) by (subst item_loop.simps) auto
  qed
qed

lemma members_sim:
  assumes "members lim d fn a s = Some (a', t)" "R a c" "d' \<le> lim'"
    and "\<And>a k u b t c. fn a k u = Some (b, t) \<Longrightarrow> R a c \<Longrightarrow> \<exists>c'. fn' c k u = Some (c', t) \<and> R b c'"
  shows "\<exists>c'. members lim' d' fn' c s = Some (c', t) \<and> R a' c'"
proof -
  obtain r where r: "s = CHR ''{'' # r" using assms(1) by (auto simp: members_def split: list.splits if_splits)
  show ?thesis
  proof (cases "skipSpace r \<noteq> [] \<and> hd (skipSpace r) = CHR ''}''")
    case True
    then show ?thesis using assms(1,2,3) r by (auto simp: members_def split: if_splits)
  next
    case False
    then have "member_loop fn a (skipSpace r) = Some (a', t)" using assms(1) r by (auto simp: members_def Let_def split: if_splits)
    then have "\<exists>c'. member_loop fn' c (skipSpace r) = Some (c', t) \<and> R a' c'"
      by (rule member_loop_sim [where R = R]) (use assms(2,4) in blast)+
    then show ?thesis using False r assms(3) by (auto simp: members_def Let_def)
  qed
qed

lemma items_sim:
  assumes "items lim d fn a s = Some (a', t)" "R a c" "d' \<le> lim'"
    and "\<And>a u b t c. fn a u = Some (b, t) \<Longrightarrow> R a c \<Longrightarrow> \<exists>c'. fn' c u = Some (c', t) \<and> R b c'"
  shows "\<exists>c'. items lim' d' fn' c s = Some (c', t) \<and> R a' c'"
proof -
  obtain r where r: "s = CHR ''['' # r" using assms(1) by (auto simp: items_def split: list.splits if_splits)
  show ?thesis
  proof (cases "skipSpace r \<noteq> [] \<and> hd (skipSpace r) = CHR '']''")
    case True
    then show ?thesis using assms(1,2,3) r by (auto simp: items_def split: if_splits)
  next
    case False
    then have "item_loop fn a (skipSpace r) = Some (a', t)" using assms(1) r by (auto simp: items_def Let_def split: if_splits)
    then have "\<exists>c'. item_loop fn' c (skipSpace r) = Some (c', t) \<and> R a' c'"
      by (rule item_loop_sim [where R = R]) (use assms(2,4) in blast)+
    then show ?thesis using False r assms(3) by (auto simp: items_def Let_def)
  qed
qed

text \<open>A limit that is not reached does not matter.\<close>

lemma skipValue_mono:
  "skipValue lim d s = Some t \<Longrightarrow> Suc lim - d \<le> Suc lim' - d' \<Longrightarrow> skipValue lim' d' s = Some t"
proof (induction "Suc lim - d" arbitrary: d d' s t)
  case 0
  then have "\<not> d \<le> lim" by simp
  obtain c r where s: "s = c # r" using 0(2) by (cases s) (auto simp: skipValue.simps(1))
  have "c \<noteq> CHR ''{''" "c \<noteq> CHR ''[''" using 0(2) \<open>\<not> d \<le> lim\<close> unfolding s skipValue.simps(2) by auto
  then show ?case using 0(2) unfolding s skipValue.simps(2) by (simp only: if_False)
next
  case (Suc n)
  obtain c r where s: "s = c # r" using Suc(3) by (cases s) (auto simp: skipValue.simps(1))
  have d: "n = Suc lim - Suc d" "n \<le> Suc lim' - Suc d'" "d \<le> lim" "d' \<le> lim'" using Suc(2,4) by auto
  have up: "\<exists>c'. map_option (Pair ()) (skipValue lim' (Suc d') u) = Some (c', t) \<and> b = c'"
    if "map_option (Pair ()) (skipValue lim (Suc d) u) = Some (b, t)" for u t b
  proof -
    have "skipValue lim (Suc d) u = Some t" using that by auto
    from Suc(1) [OF d(1) this, of "Suc d'"] d(1,2) show ?thesis using that by simp
  qed
  consider (obj) "c = CHR ''{''" | (arr) "c = CHR ''[''" | (other) "c \<noteq> CHR ''{''" "c \<noteq> CHR ''[''" by blast
  then show ?case
  proof cases
    case obj
    then have "members lim d (value_member lim d) () s = Some ((), t)" using Suc(3) d(3) unfolding s skipValue.simps(2) by auto
    then have "\<exists>c'. members lim' d' (value_member lim' d') () s = Some (c', t) \<and> () = c'"
      by (rule members_sim [where R = "(=)", OF _ refl d(4)]) (use up in blast)
    then show ?thesis using obj d(4) unfolding s skipValue.simps(2) by auto
  next
    case arr
    then have "items lim d (value_item lim d) () s = Some ((), t)" using Suc(3) d(3) unfolding s skipValue.simps(2) by auto
    then have "\<exists>c'. items lim' d' (value_item lim' d') () s = Some (c', t) \<and> () = c'"
      by (rule items_sim [where R = "(=)", OF _ refl d(4)]) (use up in blast)
    then show ?thesis using arr d(4) unfolding s skipValue.simps(2) by auto
  next
    case other
    then show ?thesis using Suc(3) unfolding s skipValue.simps(2) by (simp only: if_False)
  qed
qed

text \<open>What comes after a value does not matter either, if it cannot go on a number.\<close>

lemma upto_rest_append [simp]: "upto_rest (v @ t) t = v"
  by (simp add: upto_rest_def)

lemma skipValue_again:
  assumes "skipValue lim d s = Some t"
  shows "s = upto_rest s t @ t" "ends_number t' \<Longrightarrow> skipValue lim d (upto_rest s t @ t') = Some t'"
    and "upto_rest s t \<noteq> []" "\<not> is_space (hd (upto_rest s t))"
proof -
  obtain v where v: "s = v @ t" "json_text (Suc lim - d) v" using skipValue_sound [OF assms] by blast
  then show "s = upto_rest s t @ t" "ends_number t' \<Longrightarrow> skipValue lim d (upto_rest s t @ t') = Some t'"
    using skipValue_complete [OF v(2) order_refl] by simp_all
  show "upto_rest s t \<noteq> []" "\<not> is_space (hd (upto_rest s t))" using v starts_json unfolding starts_def by auto
qed

definition local_member :: "('a \<Rightarrow> string \<Rightarrow> string \<Rightarrow> ('a \<times> string) option) \<Rightarrow> bool" where
  "local_member fn \<longleftrightarrow> (\<forall>a k u b t. fn a k u = Some (b, t) \<longrightarrow>
     (\<exists>v. u = v @ t \<and> v \<noteq> [] \<and> \<not> is_space (hd v) \<and> (\<forall>t'. ends_number t' \<longrightarrow> fn a k (v @ t') = Some (b, t'))))"

lemma member_loop_again:
  "member_loop fn a s = Some (a', t) \<Longrightarrow> local_member fn \<Longrightarrow>
     \<exists>w. s = w @ CHR ''}'' # t \<and> w \<noteq> [] \<and> hd w = quote \<and> (\<forall>t'. member_loop fn a (w @ CHR ''}'' # t') = Some (a', t'))"
proof (induction fn a s rule: member_loop.induct)
  case (1 fn a s)
  from 1(2) obtain q r where q: "skipString s = Some q" and r: "skipSpace q = CHR '':'' # r"
    by (subst (asm) member_loop.simps) (auto split: option.splits list.splits if_splits)
  let ?key = "butlast (tl (upto_rest s q))"
  from 1(2) q r obtain b u d x where f: "fn a ?key (skipSpace r) = Some (b, u)" and d: "skipSpace u = d # x"
    by (subst (asm) member_loop.simps) (auto split: option.splits prod.splits list.splits)
  obtain k where k: "s = k @ q" "json_string k" using skipString_sound [OF q] by blast
  obtain y where y: "q = y @ CHR '':'' # r" "blank y" using skipSpace_split [of q] r by auto
  obtain z where z: "r = z @ skipSpace r" "blank z" using skipSpace_split [of r] by auto
  obtain v where v: "skipSpace r = v @ u" "v \<noteq> []" "\<not> is_space (hd v)" "\<And>t'. ends_number t' \<Longrightarrow> fn a ?key (v @ t') = Some (b, t')"
    using 1(3) f unfolding local_member_def by blast
  obtain w where w: "u = w @ d # x" "blank w" using skipSpace_split [of u] d by auto
  let ?m = "k @ y @ CHR '':'' # z @ v"
  have s: "s = ?m @ w @ d # x" using k y z v w by simp
  have kq: "?m \<noteq> []" "hd (?m @ p) = quote" for p using k(2) by (auto simp: json_string_def)
  have step: "skipString (?m @ p) = Some (y @ CHR '':'' # z @ v @ p)"
    "skipSpace (y @ CHR '':'' # z @ v @ p) = CHR '':'' # z @ v @ p"
    "butlast (tl (upto_rest (?m @ p) (y @ CHR '':'' # z @ v @ p))) = ?key" "skipSpace (z @ v @ p) = v @ p" for p
  proof -
    show "skipString (?m @ p) = Some (y @ CHR '':'' # z @ v @ p)"
      using skipString_complete [OF k(2), of "y @ CHR '':'' # z @ v @ p"] by simp
    have "\<not> is_space CHR '':''" by (simp add: is_space_def)
    then show "skipSpace (y @ CHR '':'' # z @ v @ p) = CHR '':'' # z @ v @ p" using y(2) by (intro skipSpace_append) auto
    show "butlast (tl (upto_rest (?m @ p) (y @ CHR '':'' # z @ v @ p))) = ?key"
      using upto_rest_append [of k "y @ CHR '':'' # z @ v @ p"] upto_rest_append [of k q] k(1) by simp
    show "skipSpace (z @ v @ p) = v @ p" using z(2) v(2,3) by (intro skipSpace_append) auto
  qed
  show ?case
  proof (cases "d = CHR ''}''")
    case True
    then have e: "(b, x) = (a', t)" using 1(2) q r f d by (subst (asm) member_loop.simps) auto
    have "member_loop fn a ((?m @ w) @ CHR ''}'' # t') = Some (a', t')" for t'
    proof -
      have "\<not> is_space CHR ''}''" by (simp add: is_space_def)
      then have "skipSpace (w @ CHR ''}'' # t') = CHR ''}'' # t'" using w(2) by (intro skipSpace_append) auto
      moreover have "ends_number (w @ CHR ''}'' # t')" using w(2) by (intro ends_after) auto
      ultimately show ?thesis
        using step [of "w @ CHR ''}'' # t'"] v(4) e by (subst member_loop.simps) simp
    qed
    then show ?thesis using s True e kq by (intro exI [of _ "?m @ w"]) auto
  next
    case nd: False
    then have c: "d = CHR '','' \<and> length x < length s" "member_loop fn b (skipSpace x) = Some (a', t)"
      using 1(2) q r f d by (subst (asm) member_loop.simps, auto split: if_splits)+
    have "\<exists>w. skipSpace x = w @ CHR ''}'' # t \<and> w \<noteq> [] \<and> hd w = quote \<and> (\<forall>t'. member_loop fn b (w @ CHR ''}'' # t') = Some (a', t'))"
      by (rule 1(1) [OF q r _ f refl d nd c(1) c(2) 1(3)]) simp
    then obtain p where p: "skipSpace x = p @ CHR ''}'' # t" "p \<noteq> []" "hd p = quote"
      "\<And>t'. member_loop fn b (p @ CHR ''}'' # t') = Some (a', t')" by blast
    obtain g where g: "x = g @ skipSpace x" "blank g" using skipSpace_split [of x] by blast
    have "member_loop fn a ((?m @ w @ CHR '','' # g @ p) @ CHR ''}'' # t') = Some (a', t')" for t'
    proof -
      let ?e = "CHR '','' # g @ p @ CHR ''}'' # t'"
      have "\<not> is_space CHR '',''" "\<not> is_space quote" by (simp_all add: is_space_def)
      then have "skipSpace (w @ ?e) = ?e" "skipSpace (g @ p @ CHR ''}'' # t') = p @ CHR ''}'' # t'"
        using w(2) g(2) p(2,3) by (auto intro!: skipSpace_append simp: hd_append)
      moreover have "ends_number (w @ ?e)" using w(2) by (intro ends_after) auto
      ultimately show ?thesis using step [of "w @ ?e"] v(4) p(4) by (subst member_loop.simps) simp
    qed
    then show ?thesis using s c(1) g p kq by (intro exI [of _ "?m @ w @ CHR '','' # g @ p"]) auto
  qed
qed

lemma members_again:
  assumes "members lim d fn a s = Some (a', t)" "local_member fn"
  shows "s = upto_rest s t @ t \<and> members lim d fn a (upto_rest s t @ t') = Some (a', t')"
proof -
  obtain r where r: "s = CHR ''{'' # r" "\<not> lim < d" using assms(1) by (auto simp: members_def split: list.splits if_splits)
  obtain u where u: "r = u @ skipSpace r" "blank u" using skipSpace_split [of r] by blast
  show ?thesis
  proof (cases "skipSpace r \<noteq> [] \<and> hd (skipSpace r) = CHR ''}''")
    case True
    then have e: "skipSpace r = CHR ''}'' # t" "a' = a" using assms(1) r by (cases "skipSpace r"; auto simp: members_def)+
    have s: "s = (CHR ''{'' # u @ ''}'') @ t" using r u e by simp
    have "\<not> is_space CHR ''}''" by (simp add: is_space_def)
    then have "skipSpace (u @ CHR ''}'' # t') = CHR ''}'' # t'" using u(2) by (intro skipSpace_append) auto
    then have "members lim d fn a ((CHR ''{'' # u @ ''}'') @ t') = Some (a', t')" using r(2) e(2) by (simp add: members_def)
    then show ?thesis using s upto_rest_append [of "CHR ''{'' # u @ ''}''" t] by metis
  next
    case False
    then have "member_loop fn a (skipSpace r) = Some (a', t)" using assms(1) r by (auto simp: members_def Let_def split: if_splits)
    from member_loop_again [OF this assms(2)] obtain w where w: "skipSpace r = w @ CHR ''}'' # t" "w \<noteq> []" "hd w = quote"
      "\<And>t'. member_loop fn a (w @ CHR ''}'' # t') = Some (a', t')" by blast
    have s: "s = (CHR ''{'' # u @ w @ ''}'') @ t" using r u w by simp
    have "\<not> is_space quote" by (simp add: is_space_def)
    then have "skipSpace (u @ w @ CHR ''}'' # t') = w @ CHR ''}'' # t'" using u(2) w(2,3) by (intro skipSpace_append) auto
    then have "members lim d fn a ((CHR ''{'' # u @ w @ ''}'') @ t') = Some (a', t')" using r(2) w by (simp add: members_def)
    then show ?thesis using s upto_rest_append [of "CHR ''{'' # u @ w @ ''}''" t] by metis
  qed
qed

text \<open>What a walk keeps, if the callback keeps it where less is left than there was.\<close>

lemma skipSpace_length: "length (skipSpace s) \<le> length s"
  by (simp add: skipSpace_def length_dropWhile_le)

lemma skipString_length: "skipString s = Some t \<Longrightarrow> length t < length s"
  using skipString_sound [of s t] by (auto simp: json_string_def)

lemma member_loop_keeps:
  "member_loop fn a s = Some (a', t) \<Longrightarrow> length s \<le> N \<Longrightarrow> P a \<Longrightarrow>
     (\<And>a k u b t. fn a k u = Some (b, t) \<Longrightarrow> length u < N \<Longrightarrow> P a \<Longrightarrow> P b) \<Longrightarrow> P a'"
proof (induction fn a s rule: member_loop.induct)
  case (1 fn a s)
  from 1(2) obtain q r where q: "skipString s = Some q" and r: "skipSpace q = CHR '':'' # r"
    by (subst (asm) member_loop.simps) (auto split: option.splits list.splits if_splits)
  let ?k = "butlast (tl (upto_rest s q))"
  from 1(2) q r obtain b u d x where f: "fn a ?k (skipSpace r) = Some (b, u)" and d: "skipSpace u = d # x"
    by (subst (asm) member_loop.simps) (auto split: option.splits prod.splits list.splits)
  have "length (skipSpace r) < N"
    using skipSpace_length [of r] skipSpace_length [of q] r skipString_length [OF q] 1(3) by simp
  then have b: "P b" by (rule 1(5) [OF f _ 1(4)])
  show ?case
  proof (cases "d = CHR ''}''")
    case True
    then have "b = a'" using 1(2) q r f d by (subst (asm) member_loop.simps) auto
    with b show ?thesis by simp
  next
    case nd: False
    then have l: "d = CHR '','' \<and> length x < length s" "member_loop fn b (skipSpace x) = Some (a', t)"
      using 1(2) q r f d by (subst (asm) member_loop.simps, auto split: if_splits)+
    show ?thesis
      by (rule 1(1) [OF q r _ f refl d nd l(1) l(2) _ b 1(5)]) (use l(1) 1(3) skipSpace_length [of x] in simp_all)
  qed
qed

lemma item_loop_keeps:
  "item_loop fn a s = Some (a', t) \<Longrightarrow> length s < N \<Longrightarrow> P a \<Longrightarrow>
     (\<And>a u b t. fn a u = Some (b, t) \<Longrightarrow> length u < N \<Longrightarrow> P a \<Longrightarrow> P b) \<Longrightarrow> P a'"
proof (induction fn a s rule: item_loop.induct)
  case (1 fn a s)
  from 1(2) obtain b u d x where f: "fn a s = Some (b, u)" and d: "skipSpace u = d # x"
    by (subst (asm) item_loop.simps) (auto split: option.splits prod.splits list.splits)
  have b: "P b" by (rule 1(5) [OF f 1(3,4)])
  show ?case
  proof (cases "d = CHR '']''")
    case True
    then have "b = a'" using 1(2) f d by (subst (asm) item_loop.simps) auto
    with b show ?thesis by simp
  next
    case nd: False
    then have l: "d = CHR '','' \<and> length x < length s" "item_loop fn b (skipSpace x) = Some (a', t)"
      using 1(2) f d by (subst (asm) item_loop.simps, auto split: if_splits)+
    show ?thesis
      by (rule 1(1) [OF f refl d nd l(1) l(2) _ b 1(5)]) (use l(1) 1(3) skipSpace_length [of x] in simp_all)
  qed
qed

lemma members_keeps:
  assumes "members lim d fn a s = Some (a', t)" "P a"
    and "\<And>a k u b t. fn a k u = Some (b, t) \<Longrightarrow> length u < length s \<Longrightarrow> P a \<Longrightarrow> P b"
  shows "P a'"
proof -
  obtain r where r: "s = CHR ''{'' # r" using assms(1) by (auto simp: members_def split: list.splits if_splits)
  show ?thesis
  proof (cases "skipSpace r \<noteq> [] \<and> hd (skipSpace r) = CHR ''}''")
    case True
    then show ?thesis using assms(1,2) r by (auto simp: members_def split: if_splits)
  next
    case False
    then have "member_loop fn a (skipSpace r) = Some (a', t)" using assms(1) r by (auto simp: members_def Let_def split: if_splits)
    then show ?thesis
      by (rule member_loop_keeps [where N = "length s"]) (use assms r skipSpace_length [of r] in auto)
  qed
qed

lemma items_keeps:
  assumes "items lim d fn a s = Some (a', t)" "P a"
    and "\<And>a u b t. fn a u = Some (b, t) \<Longrightarrow> length u < length s \<Longrightarrow> P a \<Longrightarrow> P b"
  shows "P a'"
proof -
  obtain r where r: "s = CHR ''['' # r" using assms(1) by (auto simp: items_def split: list.splits if_splits)
  show ?thesis
  proof (cases "skipSpace r \<noteq> [] \<and> hd (skipSpace r) = CHR '']''")
    case True
    then show ?thesis using assms(1,2) r by (auto simp: items_def split: if_splits)
  next
    case False
    then have "item_loop fn a (skipSpace r) = Some (a', t)" using assms(1) r by (auto simp: items_def Let_def split: if_splits)
    then show ?thesis
      by (rule item_loop_keeps [where N = "length s"]) (use assms r skipSpace_length [of r] in auto)
  qed
qed

lemma upto_rest_length: "length (upto_rest s t) \<le> length s"
  by (simp add: upto_rest_def)

end
