(* ===== verification/Json.thy ===== *)
theory Json
  imports Scan "HOL-Library.AList" "HOL-Library.Char_ord"
begin

text \<open>
  What the package uses of \<open>encoding/json\<close> and \<open>strconv\<close>: \<open>json.Unmarshal\<close> into the Go types that
  metadata is made of, and the reading of integers.

  \<open>Unmarshal\<close> validates the whole text, to a depth of 10000, and then decodes it into the value there
  is already: a reader is given that value and the text of the JSON value, and \<open>None\<close> is an error.
  \<open>null\<close> leaves a string, a number or a struct as it is, and makes a pointer, a slice or a map \<open>nil\<close>.
  The element of a slice that is decoded begins as zero, also where a document gives the slice twice.
\<close>

section \<open>Integers\<close>

definition digits_only :: "string \<Rightarrow> bool" where
  "digits_only s \<longleftrightarrow> (\<forall>c \<in> set s. is_digit c)"

text \<open>\<open>strconv.ParseUint\<close> and \<open>ParseInt\<close> in base 10, for a size in bits.\<close>

definition parse_uint :: "nat \<Rightarrow> string \<Rightarrow> nat option" where
  "parse_uint bits s = (if s \<noteq> [] \<and> digits_only s \<and> atoi s < 2 ^ bits then Some (atoi s) else None)"

definition parse_int :: "nat \<Rightarrow> string \<Rightarrow> int option" where
  "parse_int bits s =
     (let neg = (s \<noteq> [] \<and> hd s = CHR ''-'');
          ds = (if s \<noteq> [] \<and> (hd s = CHR ''-'' \<or> hd s = CHR ''+'') then tl s else s);
          n = int (atoi ds)
      in if ds = [] \<or> \<not> digits_only ds then None
         else if neg then (if n \<le> 2 ^ (bits - 1) then Some (- n) else None)
         else (if n < 2 ^ (bits - 1) then Some n else None))"

section \<open>Strings\<close>

definition continues :: "char \<Rightarrow> bool" where
  "continues c \<longleftrightarrow> 128 \<le> code c \<and> code c < 192"

text \<open>The length of the UTF-8 encoding a text begins with, and 0 if it does not begin with one.\<close>

definition rune_length :: "string \<Rightarrow> nat" where
  "rune_length s =
     (case s of
        [] \<Rightarrow> 0
      | c # r \<Rightarrow>
          if code c < 128 then 1
          else if 0xC2 \<le> code c \<and> code c < 0xE0 then (if r \<noteq> [] \<and> continues (hd r) then 2 else 0)
          else if 0xE0 \<le> code c \<and> code c < 0xF0 then
            (if 2 \<le> length r \<and> continues (r ! 0) \<and> continues (r ! 1) \<and> (code c = 0xE0 \<longrightarrow> 0xA0 \<le> code (r ! 0)) \<and>
                (code c = 0xED \<longrightarrow> code (r ! 0) < 0xA0) then 3 else 0)
          else if 0xF0 \<le> code c \<and> code c < 0xF5 then
            (if 3 \<le> length r \<and> continues (r ! 0) \<and> continues (r ! 1) \<and> continues (r ! 2) \<and>
                (code c = 0xF0 \<longrightarrow> 0x90 \<le> code (r ! 0)) \<and> (code c = 0xF4 \<longrightarrow> code (r ! 0) < 0x90) then 4 else 0)
          else 0)"

definition encode_rune :: "nat \<Rightarrow> string" where
  "encode_rune n =
     (if n < 0x80 then [char_of n]
      else if n < 0x800 then [char_of (0xC0 + n div 64), char_of (0x80 + n mod 64)]
      else if n < 0x10000 then [char_of (0xE0 + n div 4096), char_of (0x80 + n div 64 mod 64), char_of (0x80 + n mod 64)]
      else [char_of (0xF0 + n div 262144), char_of (0x80 + n div 4096 mod 64), char_of (0x80 + n div 64 mod 64),
            char_of (0x80 + n mod 64)])"

text \<open>\<open>utf8.RuneError\<close>, which stands for what is not UTF-8 and for half of a surrogate pair.\<close>

definition replacement :: string where
  "replacement = encode_rune 0xFFFD"

definition hex_digit :: "char \<Rightarrow> nat" where
  "hex_digit c = (if is_digit c then code c - 48 else if 97 \<le> code c then code c - 87 else code c - 55)"

definition hex4 :: "string \<Rightarrow> nat option" where
  "hex4 s =
     (if 4 \<le> length s \<and> (\<forall>c \<in> set (take 4 s). is_hex c)
      then Some (foldl (\<lambda>n c. 16 * n + hex_digit c) 0 (take 4 s)) else None)"

definition escaped :: "char \<Rightarrow> char" where
  "escaped e =
     (if e = CHR ''b'' then CHR 0x08 else if e = CHR ''f'' then CHR 0x0C else if e = CHR ''n'' then CHR 0x0A
      else if e = CHR ''r'' then CHR 0x0D else if e = CHR ''t'' then CHR 0x09 else e)"

text \<open>What is between the quotes of a valid JSON string, as a Go string.\<close>

function (sequential) unquote :: "string \<Rightarrow> string" where
  "unquote [] = []"
| "unquote (c # s) =
     (if c = backslash then
        (case s of
           [] \<Rightarrow> []
         | e # r \<Rightarrow>
             if e \<noteq> CHR ''u'' then escaped e # unquote r
             else
               (case hex4 r of
                  None \<Rightarrow> []
                | Some n \<Rightarrow>
                    if n < 0xD800 \<or> 0xE000 \<le> n then encode_rune n @ unquote (drop 4 r)
                    else
                      (case if prefix [backslash, CHR ''u''] (drop 4 r) then hex4 (drop 6 r) else None of
                         None \<Rightarrow> replacement @ unquote (drop 4 r)
                       | Some m \<Rightarrow>
                           if n < 0xDC00 \<and> 0xDC00 \<le> m \<and> m < 0xE000 then
                             encode_rune (0x10000 + (n - 0xD800) * 1024 + (m - 0xDC00)) @ unquote (drop 10 r)
                           else replacement @ unquote (drop 4 r))))
      else
        (let n = rune_length (c # s)
         in if n = 0 then replacement @ unquote s
            else c # take (n - 1) s @ unquote (drop (n - 1) s)))"
  by pat_completeness auto
termination by (relation "measure length") auto

declare unquote.simps [simp del]

lemma unquote_plain: "plainKey s \<Longrightarrow> unquote s = s"
  by (induction s) (auto simp: unquote.simps plainKey_def rune_length_def)

text \<open>
  How a key of an object finds a field: by its name, or by one that differs in case only, where a
  Kelvin sign and a long s are a K and an S.
\<close>

fun fold_name :: "string \<Rightarrow> string" where
  "fold_name (a # b # c # s) =
     (if code a = 0xE2 \<and> code b = 0x84 \<and> code c = 0xAA then CHR ''K'' # fold_name s
      else if code a = 0xC5 \<and> code b = 0xBF then CHR ''S'' # fold_name (c # s)
      else (if 97 \<le> code a \<and> code a \<le> 122 then char_of (code a - 32) else a) # fold_name (b # c # s))"
| "fold_name [a, b] =
     (if code a = 0xC5 \<and> code b = 0xBF then ''S''
      else [if 97 \<le> code a \<and> code a \<le> 122 then char_of (code a - 32) else a,
            if 97 \<le> code b \<and> code b \<le> 122 then char_of (code b - 32) else b])"
| "fold_name [a] = [if 97 \<le> code a \<and> code a \<le> 122 then char_of (code a - 32) else a]"
| "fold_name [] = []"

definition find_field :: "string list \<Rightarrow> string \<Rightarrow> string option" where
  "find_field names key =
     (if key \<in> set names then Some key else find (\<lambda>n. fold_name n = fold_name key) names)"

section \<open>Unmarshal\<close>

definition go_depth :: nat where
  "go_depth = 10000"

text \<open>The members of an object and the elements of an array, as they are written: what is between the
  quotes of a key, and the text of a value.\<close>

definition collect_member :: "nat \<Rightarrow> nat \<Rightarrow> (string \<times> string) list \<Rightarrow> string \<Rightarrow> string \<Rightarrow> ((string \<times> string) list \<times> string) option" where
  "collect_member lim d kvs k u = map_option (\<lambda>t. (kvs @ [(k, upto_rest u t)], t)) (skipValue lim (Suc d) u)"

definition collect_item :: "nat \<Rightarrow> nat \<Rightarrow> string list \<Rightarrow> string \<Rightarrow> (string list \<times> string) option" where
  "collect_item lim d vs u = map_option (\<lambda>t. (vs @ [upto_rest u t], t)) (skipValue lim (Suc d) u)"

definition raw_members :: "string \<Rightarrow> (string \<times> string) list option" where
  "raw_members raw = map_option fst (members go_depth 1 (collect_member go_depth 1) [] raw)"

definition raw_items :: "string \<Rightarrow> string list option" where
  "raw_items raw = map_option fst (items go_depth 1 (collect_item go_depth 1) [] raw)"

type_synonym 'a reader = "'a \<Rightarrow> string \<Rightarrow> 'a option"

fun ofold :: "('x \<Rightarrow> 'a \<Rightarrow> 'a option) \<Rightarrow> 'x list \<Rightarrow> 'a \<Rightarrow> 'a option" where
  "ofold f [] a = Some a"
| "ofold f (x # xs) a = Option.bind (f x a) (ofold f xs)"

fun omap :: "('x \<Rightarrow> 'a option) \<Rightarrow> 'x list \<Rightarrow> 'a list option" where
  "omap f [] = Some []"
| "omap f (x # xs) = Option.bind (f x) (\<lambda>y. map_option ((#) y) (omap f xs))"

abbreviation null :: string where
  "null \<equiv> ''null''"

abbreviation within_quotes :: "string \<Rightarrow> string" where
  "within_quotes raw \<equiv> butlast (tl raw)"

definition decode_string :: "string reader" where
  "decode_string old raw =
     (if raw = null then Some old
      else if raw \<noteq> [] \<and> hd raw = quote then Some (unquote (within_quotes raw)) else None)"

definition decode_int :: "int reader" where
  "decode_int old raw =
     (if raw = null then Some old
      else if raw \<noteq> [] \<and> (hd raw = CHR ''-'' \<or> is_digit (hd raw)) then parse_int 64 raw else None)"

definition decode_bool :: "bool reader" where
  "decode_bool old raw =
     (if raw = null then Some old else if raw = ''true'' then Some True else if raw = ''false'' then Some False else None)"

definition decode_raw :: "string reader" where
  "decode_raw old raw = Some raw"

definition decode_pointer :: "'a \<Rightarrow> 'a reader \<Rightarrow> 'a option reader" where
  "decode_pointer zero dec old raw =
     (if raw = null then Some None else map_option Some (dec (case old of None \<Rightarrow> zero | Some v \<Rightarrow> v) raw))"

definition decode_slice :: "'a \<Rightarrow> 'a reader \<Rightarrow> 'a list option reader" where
  "decode_slice zero dec old raw =
     (if raw = null then Some None
      else Option.bind (raw_items raw) (\<lambda>vs. map_option Some (omap (dec zero) vs)))"

definition decode_map :: "(string \<times> string) list reader" where
  "decode_map old raw =
     (if raw = null then Some []
      else map_option (\<lambda>kvs. fold (\<lambda>(k, v). AList.update (unquote k) v) kvs old) (raw_members raw))"

definition decode_struct :: "string list \<Rightarrow> (string \<Rightarrow> 'm reader) \<Rightarrow> 'm reader" where
  "decode_struct names field m raw =
     (if raw = null then Some m
      else Option.bind (raw_members raw)
        (\<lambda>kvs. ofold (\<lambda>(k, v) m. case find_field names (unquote k) of None \<Rightarrow> Some m | Some f \<Rightarrow> field f m v) kvs m))"

definition unmarshal :: "'a reader \<Rightarrow> 'a reader" where
  "unmarshal dec old b =
     (case skipValue go_depth 1 (skipSpace b) of
        None \<Rightarrow> None
      | Some t \<Rightarrow> if skipSpace t \<noteq> [] then None else dec old (upto_rest (skipSpace b) t))"

end
