(* ===== verification/Documents.thy ===== *)
theory Documents
  imports Metadata Json Stores
begin

text \<open>
  Reading the documents of nodes (\<open>src/metadata.go\<close>): in one pass where they are plain, and by
  \<open>encoding/json\<close> otherwise.

  The one pass is \<open>named_decode\<close>, \<open>decodeMetadata\<close> and what they call; \<open>decodeMetadataSlowly\<close> is what
  defines the result. \<open>fieldOf\<close> and \<open>decodeField\<close>, which are one function over pointers of any type in
  the source, are a function for each type a field has, and a record of how a document of arrays or of
  groups sets its fields.

  The lemmas: wherever the one pass decodes a document, it decodes it as \<open>encoding/json\<close> would.
\<close>

section \<open>Named\<close>

text \<open>\<open>strings.EqualFold\<close> of texts in ASCII.\<close>

definition lower :: "char \<Rightarrow> char" where
  "lower c = (if 65 \<le> code c \<and> code c \<le> 90 then char_of (code c + 32) else c)"

definition equal_fold :: "string \<Rightarrow> string \<Rightarrow> bool" where
  "equal_fold s t \<longleftrightarrow> map lower s = map lower t"

definition zero_named :: named where
  "zero_named = \<lparr>nName = [], nConfig = [], nMust = None\<rparr>"

text \<open>What the callback of \<open>Named.decode\<close> closes over: which fields it has seen, and the fields.\<close>

record named_state =
  has_name :: bool
  has_cfg :: bool
  has_must :: bool
  so_far :: named

definition named_member :: "named_state \<Rightarrow> string \<Rightarrow> string \<Rightarrow> (named_state \<times> string) option" where
  "named_member st key u =
     (case skipValue maxDepth 2 u of
        None \<Rightarrow> None
      | Some t \<Rightarrow>
          if \<not> plainKey key then None
          else
            (let raw = upto_rest u t
             in if key = ''name'' then
                  (if has_name st \<or> hd raw \<noteq> quote \<or> \<not> plainKey (within_quotes raw) then None
                   else Some (st\<lparr>has_name := True, so_far := (so_far st)\<lparr>nName := within_quotes raw\<rparr>\<rparr>, t))
                else if key = ''configuration'' then
                  (if has_cfg st then None
                   else Some (st\<lparr>has_cfg := True, so_far := (so_far st)\<lparr>nConfig := raw\<rparr>\<rparr>, t))
                else if key = ''must_understand'' then
                  (if has_must st \<or> raw \<noteq> ''true'' \<and> raw \<noteq> ''false'' then None
                   else Some (st\<lparr>has_must := True, so_far := (so_far st)\<lparr>nMust := Some (raw = ''true'')\<rparr>\<rparr>, t))
                else if \<exists>k \<in> set [''name'', ''configuration'', ''must_understand'']. equal_fold k key then None
                else Some (st, t)))"

definition named_decode :: "string \<Rightarrow> named option" where
  "named_decode b =
     (let s = skipSpace b
      in if s \<noteq> [] \<and> hd s = quote then
           (case skipString s of
              None \<Rightarrow> None
            | Some t \<Rightarrow>
                if skipSpace t \<noteq> [] \<or> \<not> plainKey (within_quotes (upto_rest s t)) then None
                else Some (zero_named\<lparr>nName := within_quotes (upto_rest s t)\<rparr>))
         else
           (case members maxDepth 1 named_member
                   \<lparr>has_name = False, has_cfg = False, has_must = False, so_far = zero_named\<rparr> s of
              None \<Rightarrow> None
            | Some (st, t) \<Rightarrow> if skipSpace t \<noteq> [] then None else Some (so_far st)))"

text \<open>\<open>namedJSON\<close>, as \<open>encoding/json\<close> decodes it.\<close>

definition named_field :: "string \<Rightarrow> named reader" where
  "named_field f n raw =
     (if f = ''name'' then map_option (\<lambda>v. n\<lparr>nName := v\<rparr>) (decode_string (nName n) raw)
      else if f = ''configuration'' then map_option (\<lambda>v. n\<lparr>nConfig := v\<rparr>) (decode_raw (nConfig n) raw)
      else map_option (\<lambda>v. n\<lparr>nMust := v\<rparr>) (decode_pointer False decode_bool (nMust n) raw))"

definition decode_namedJSON :: "named reader" where
  "decode_namedJSON = decode_struct [''name'', ''configuration'', ''must_understand''] named_field"

text \<open>\<open>bytes.TrimSpace\<close>, of blanks in ASCII.\<close>

definition go_space :: "char \<Rightarrow> bool" where
  "go_space c \<longleftrightarrow> c = CHR '' '' \<or> 9 \<le> code c \<and> code c \<le> 13"

definition trimSpace :: "string \<Rightarrow> string" where
  "trimSpace s = rev (dropWhile go_space (rev (dropWhile go_space s)))"

definition named_unmarshal :: "string \<Rightarrow> named option" where
  "named_unmarshal b =
     (case named_decode b of
        Some n \<Rightarrow> Some n
      | None \<Rightarrow>
          (let w = trimSpace b
           in if w \<noteq> [] \<and> hd w = quote then
                map_option (\<lambda>v. zero_named\<lparr>nName := v\<rparr>) (unmarshal decode_string [] w)
              else unmarshal decode_namedJSON zero_named w))"

definition decode_named :: "named reader" where
  "decode_named old raw = named_unmarshal raw"

section \<open>Fields in one pass\<close>

text \<open>\<open>decodeField\<close> for \<open>*DataType\<close>, \<open>*Endian\<close> and \<open>*IndexLocation\<close>, which are strings; for \<open>*[]Named\<close>, \<open>*[]int\<close>
  and \<open>*[]*string\<close>.\<close>

definition field_string :: "string reader" where
  "field_string old raw =
     (case plainString raw of Some s \<Rightarrow> Some s | None \<Rightarrow> unmarshal decode_string old raw)"

definition named_item :: "named list \<Rightarrow> string \<Rightarrow> (named list \<times> string) option" where
  "named_item ns u =
     (case skipValue maxDepth 2 u of
        None \<Rightarrow> None
      | Some t \<Rightarrow> map_option (\<lambda>n. (ns @ [n], t)) (named_decode (upto_rest u t)))"

definition field_nameds :: "named list option reader" where
  "field_nameds old raw =
     (case items maxDepth 1 named_item [] raw of
        Some (ns, _) \<Rightarrow> Some (Some ns)
      | None \<Rightarrow> unmarshal (decode_slice zero_named decode_named) old raw)"

definition int_item :: "int list \<Rightarrow> string \<Rightarrow> (int list \<times> string) option" where
  "int_item ns u =
     (let e = skipValue maxDepth 2 u;
          raw = (case e of None \<Rightarrow> [] | Some t \<Rightarrow> upto_rest u t);
          digits = (if raw \<noteq> [] \<and> hd raw = CHR ''-'' then tl raw else raw)
      in if digits = [] \<or> 18 < length digits \<or> \<not> digits_only digits then None
         else
           (case e of
              None \<Rightarrow> None
            | Some t \<Rightarrow> map_option (\<lambda>n. (ns @ [n], t)) (parse_int 64 raw)))"

definition field_ints :: "int list option reader" where
  "field_ints old raw =
     (case items maxDepth 1 int_item [] raw of
        Some (ns, _) \<Rightarrow> Some (Some ns)
      | None \<Rightarrow> unmarshal (decode_slice 0 decode_int) old raw)"

definition name_item :: "string option list \<Rightarrow> string \<Rightarrow> (string option list \<times> string) option" where
  "name_item ss u =
     (case skipValue maxDepth 2 u of
        None \<Rightarrow> None
      | Some t \<Rightarrow>
          if upto_rest u t = null then Some (ss @ [None], t)
          else map_option (\<lambda>s. (ss @ [Some s], t)) (plainString (upto_rest u t)))"

definition field_names :: "string option list option reader" where
  "field_names old raw =
     (case items maxDepth 1 name_item [] raw of
        Some (ss, _) \<Rightarrow> Some (Some ss)
      | None \<Rightarrow> unmarshal (decode_slice None (decode_pointer [] decode_string)) old raw)"

text \<open>\<open>decodeObject\<close>: the fields of a configuration.\<close>

definition object_member ::
    "string list \<Rightarrow> (string \<Rightarrow> 'm reader) \<Rightarrow> string list \<times> 'm \<Rightarrow> string \<Rightarrow> string \<Rightarrow> ((string list \<times> 'm) \<times> string) option" where
  "object_member keys field st key u =
     (case skipValue maxDepth 2 u of
        None \<Rightarrow> None
      | Some t \<Rightarrow>
          if \<not> plainKey key then None
          else if key \<in> set keys then
            (if key \<in> set (fst st) then None
             else map_option (\<lambda>m. ((key # fst st, m), t)) (field key (snd st) (upto_rest u t)))
          else if \<exists>k \<in> set keys. equal_fold k key then None
          else Some (st, t))"

definition decodeObject :: "string list \<Rightarrow> (string \<Rightarrow> 'm reader) \<Rightarrow> 'm \<Rightarrow> string \<Rightarrow> 'm option" where
  "decodeObject keys field m b =
     (case members maxDepth 1 (object_member keys field) ([], m) (skipSpace b) of
        None \<Rightarrow> None
      | Some (st, t) \<Rightarrow> if skipSpace t \<noteq> [] then None else Some (snd st))"

section \<open>Documents\<close>

fun dtype_name :: "dtype \<Rightarrow> string" where
  "dtype_name Bool = ''bool''"
| "dtype_name Int8 = ''int8''" | "dtype_name Int16 = ''int16''" | "dtype_name Int32 = ''int32''" | "dtype_name Int64 = ''int64''"
| "dtype_name Uint8 = ''uint8''" | "dtype_name Uint16 = ''uint16''" | "dtype_name Uint32 = ''uint32''" | "dtype_name Uint64 = ''uint64''"
| "dtype_name Float32 = ''float32''" | "dtype_name Float64 = ''float64''"
| "dtype_name (UnknownType s) = s"

definition dtype_of :: "string \<Rightarrow> dtype" where
  "dtype_of s =
     (case find (\<lambda>d. dtype_name d = s) [Bool, Int8, Int16, Int32, Int64, Uint8, Uint16, Uint32, Uint64, Float32, Float64] of
        Some d \<Rightarrow> d | None \<Rightarrow> UnknownType s)"

definition decode_dtype :: "dtype reader" where
  "decode_dtype old raw = map_option dtype_of (decode_string (dtype_name old) raw)"

abbreviation listed :: "'a list option \<Rightarrow> 'a list" where
  "listed v \<equiv> (case v of None \<Rightarrow> [] | Some xs \<Rightarrow> xs)"

definition arrayKeys :: "string list" where
  "arrayKeys = [''zarr_format'', ''node_type'', ''shape'', ''data_type'', ''chunk_grid'', ''chunk_key_encoding'', ''fill_value'',
     ''codecs'', ''attributes'', ''storage_transformers'', ''dimension_names'']"

definition groupKeys :: "string list" where
  "groupKeys = [''zarr_format'', ''node_type'', ''attributes'']"

definition zero_array :: array_metadata where
  "zero_array = \<lparr>mFormat = 0, mNode = [], mShape = [], mType = UnknownType [], mGrid = zero_named, mKeyEnc = zero_named,
     mFill = [], mCodecs = [], mAttrs = [], mTransformers = [], mDims = None\<rparr>"

definition zero_group :: group_metadata where
  "zero_group = \<lparr>gFormat = 0, gNode = [], gAttrs = []\<rparr>"

text \<open>\<open>decodeField\<close> of \<open>fieldOf\<close>, for an array and for a group.\<close>

definition array_field :: "string \<Rightarrow> array_metadata reader" where
  "array_field f m raw =
     (if f = ''shape'' then map_option (\<lambda>v. m\<lparr>mShape := listed v\<rparr>) (field_ints None raw)
      else if f = ''data_type'' then map_option (\<lambda>v. m\<lparr>mType := dtype_of v\<rparr>) (field_string (dtype_name (mType m)) raw)
      else if f = ''chunk_grid'' then map_option (\<lambda>v. m\<lparr>mGrid := v\<rparr>) (named_decode raw)
      else if f = ''chunk_key_encoding'' then map_option (\<lambda>v. m\<lparr>mKeyEnc := v\<rparr>) (named_decode raw)
      else if f = ''fill_value'' then Some (m\<lparr>mFill := raw\<rparr>)
      else if f = ''codecs'' then map_option (\<lambda>v. m\<lparr>mCodecs := listed v\<rparr>) (field_nameds None raw)
      else if f = ''attributes'' then map_option (\<lambda>v. m\<lparr>mAttrs := v\<rparr>) (unmarshal decode_map (mAttrs m) raw)
      else if f = ''storage_transformers'' then map_option (\<lambda>v. m\<lparr>mTransformers := listed v\<rparr>) (field_nameds None raw)
      else if f = ''dimension_names'' then map_option (\<lambda>v. m\<lparr>mDims := v\<rparr>) (field_names None raw)
      else None)"

definition group_field :: "string \<Rightarrow> group_metadata reader" where
  "group_field f m raw =
     (if f = ''attributes'' then map_option (\<lambda>v. m\<lparr>gAttrs := v\<rparr>) (unmarshal decode_map (gAttrs m) raw) else None)"

text \<open>The same fields as \<open>encoding/json\<close> decodes them.\<close>

definition array_slow :: "string \<Rightarrow> array_metadata reader" where
  "array_slow f m raw =
     (if f = ''zarr_format'' then map_option (\<lambda>v. m\<lparr>mFormat := v\<rparr>) (decode_int (mFormat m) raw)
      else if f = ''node_type'' then map_option (\<lambda>v. m\<lparr>mNode := v\<rparr>) (decode_string (mNode m) raw)
      else if f = ''shape'' then map_option (\<lambda>v. m\<lparr>mShape := listed v\<rparr>) (decode_slice 0 decode_int None raw)
      else if f = ''data_type'' then map_option (\<lambda>v. m\<lparr>mType := v\<rparr>) (decode_dtype (mType m) raw)
      else if f = ''chunk_grid'' then map_option (\<lambda>v. m\<lparr>mGrid := v\<rparr>) (decode_named (mGrid m) raw)
      else if f = ''chunk_key_encoding'' then map_option (\<lambda>v. m\<lparr>mKeyEnc := v\<rparr>) (decode_named (mKeyEnc m) raw)
      else if f = ''fill_value'' then map_option (\<lambda>v. m\<lparr>mFill := v\<rparr>) (decode_raw (mFill m) raw)
      else if f = ''codecs'' then map_option (\<lambda>v. m\<lparr>mCodecs := listed v\<rparr>) (decode_slice zero_named decode_named None raw)
      else if f = ''attributes'' then map_option (\<lambda>v. m\<lparr>mAttrs := v\<rparr>) (decode_map (mAttrs m) raw)
      else if f = ''storage_transformers'' then
        map_option (\<lambda>v. m\<lparr>mTransformers := listed v\<rparr>) (decode_slice zero_named decode_named None raw)
      else map_option (\<lambda>v. m\<lparr>mDims := v\<rparr>) (decode_slice None (decode_pointer [] decode_string) None raw))"

definition group_slow :: "string \<Rightarrow> group_metadata reader" where
  "group_slow f m raw =
     (if f = ''zarr_format'' then map_option (\<lambda>v. m\<lparr>gFormat := v\<rparr>) (decode_int (gFormat m) raw)
      else if f = ''node_type'' then map_option (\<lambda>v. m\<lparr>gNode := v\<rparr>) (decode_string (gNode m) raw)
      else map_option (\<lambda>v. m\<lparr>gAttrs := v\<rparr>) (decode_map (gAttrs m) raw))"

text \<open>A kind of document.\<close>

record 'm doc =
  d_known :: "string list"
  d_field :: "string \<Rightarrow> 'm reader"
  d_slow :: "string \<Rightarrow> 'm reader"
  d_attrs :: "(string \<times> string) list \<Rightarrow> 'm \<Rightarrow> 'm"
  d_head :: "int \<Rightarrow> string \<Rightarrow> 'm \<Rightarrow> 'm"
  d_zero :: 'm

definition array_doc :: "array_metadata doc" where
  "array_doc = \<lparr>d_known = arrayKeys, d_field = array_field, d_slow = array_slow, d_attrs = (\<lambda>v m. m\<lparr>mAttrs := v\<rparr>),
     d_head = (\<lambda>f n m. m\<lparr>mFormat := f, mNode := n\<rparr>), d_zero = zero_array\<rparr>"

definition group_doc :: "group_metadata doc" where
  "group_doc = \<lparr>d_known = groupKeys, d_field = group_field, d_slow = group_slow, d_attrs = (\<lambda>v m. m\<lparr>gAttrs := v\<rparr>),
     d_head = (\<lambda>f n m. m\<lparr>gFormat := f, gNode := n\<rparr>), d_zero = zero_group\<rparr>"

definition attribute_member :: "(string \<times> string) list \<Rightarrow> string \<Rightarrow> string \<Rightarrow> ((string \<times> string) list \<times> string) option" where
  "attribute_member m key u =
     (if \<not> plainKey key then None
      else map_option (\<lambda>t. (AList.update key (upto_rest u t) m, t)) (skipValue maxDepth 2 u))"

definition decodeAttributes :: "string \<Rightarrow> ((string \<times> string) list \<times> string) option" where
  "decodeAttributes u = members maxDepth 1 attribute_member [] u"

text \<open>A field that need not be understood says so.\<close>

definition decode_ext :: "bool option reader" where
  "decode_ext = decode_struct [''must_understand''] (\<lambda>_. decode_pointer False decode_bool)"

definition may_ignore :: "string \<Rightarrow> bool" where
  "may_ignore raw \<longleftrightarrow> unmarshal decode_ext None raw = Some (Some False)"

record 'm meta_state =
  seen :: "string list"
  is_format :: bool
  is_typed :: bool
  decoded :: 'm

definition metadata_member ::
    "'m doc \<Rightarrow> string \<Rightarrow> 'm meta_state \<Rightarrow> string \<Rightarrow> string \<Rightarrow> ('m meta_state \<times> string) option" where
  "metadata_member D node st key u =
     (if \<not> plainKey key then None
      else if key \<notin> set (d_known D) then
        (if \<exists>f \<in> set (d_known D). equal_fold f key then None
         else
           (case skipValue maxDepth 1 u of
              None \<Rightarrow> None
            | Some t \<Rightarrow> if may_ignore (upto_rest u t) then Some (st, t) else None))
      else if key \<in> set (seen st) then None
      else
        (let st = st\<lparr>seen := seen st @ [key]\<rparr>
         in if key = ''attributes'' \<and> u \<noteq> [] \<and> hd u = CHR ''{'' then
              map_option (\<lambda>(attrs, t). (st\<lparr>decoded := d_attrs D attrs (decoded st)\<rparr>, t)) (decodeAttributes u)
            else
              (case skipValue maxDepth 1 u of
                 None \<Rightarrow> None
               | Some t \<Rightarrow>
                   (let raw = upto_rest u t
                    in if key = ''zarr_format'' then
                         (if raw = ''3'' then Some (st\<lparr>is_format := True\<rparr>, t) else None)
                       else if key = ''node_type'' then
                         (if length raw = length node + 2 \<and> hd raw = quote \<and> within_quotes raw = node
                          then Some (st\<lparr>is_typed := True\<rparr>, t) else None)
                       else map_option (\<lambda>m. (st\<lparr>decoded := m\<rparr>, t)) (d_field D key (decoded st) raw)))))"

definition decodeMetadata :: "'m doc \<Rightarrow> string \<Rightarrow> string \<Rightarrow> 'm option" where
  "decodeMetadata D node b =
     (case members maxDepth 0 (metadata_member D node)
             \<lparr>seen = [], is_format = False, is_typed = False, decoded = d_zero D\<rparr> (skipSpace b) of
        None \<Rightarrow> None
      | Some (st, t) \<Rightarrow>
          if skipSpace t \<noteq> [] \<or> \<not> is_format st \<or> \<not> is_typed st then None
          else Some (d_head D 3 node (decoded st)))"

text \<open>\<open>head\<close>, and \<open>decodeMetadataSlowly\<close>; which of the fields that are not known is refused is the same
  error.\<close>

definition head_field :: "string \<Rightarrow> (int \<times> string) reader" where
  "head_field f h raw =
     (if f = ''zarr_format'' then map_option (\<lambda>v. (v, snd h)) (decode_int (fst h) raw)
      else map_option (\<lambda>v. (fst h, v)) (decode_string (snd h) raw))"

definition decode_head :: "(int \<times> string) reader" where
  "decode_head = decode_struct [''zarr_format'', ''node_type''] head_field"

definition decodeMetadataSlowly :: "'m doc \<Rightarrow> string \<Rightarrow> string \<Rightarrow> 'm res" where
  "decodeMetadataSlowly D node b =
     (case unmarshal decode_map [] b of
        None \<Rightarrow> Inl (ErrOther ''metadata'')
      | Some every \<Rightarrow>
          (case unmarshal decode_head (0, []) b of
             None \<Rightarrow> Inl (ErrOther ''metadata'')
           | Some (format, type) \<Rightarrow>
               if format \<noteq> 3 then Inl ErrUnsupported
               else if type \<noteq> node then Inl (ErrOther ''node type'')
               else if \<exists>(k, raw) \<in> set every. k \<notin> set (d_known D) \<and> \<not> may_ignore raw then Inl ErrUnsupported
               else
                 (case unmarshal (decode_struct (d_known D) (d_slow D)) (d_zero D) b of
                    None \<Rightarrow> Inl (ErrOther ''metadata'')
                  | Some m \<Rightarrow> Inr m)))"

definition parseMetadata :: "'m doc \<Rightarrow> string \<Rightarrow> string \<Rightarrow> 'm res" where
  "parseMetadata D node b =
     (case decodeMetadata D node b of Some m \<Rightarrow> Inr m | None \<Rightarrow> decodeMetadataSlowly D node b)"

section \<open>Documents in a store\<close>

definition text_of :: "bytes \<Rightarrow> string" where
  "text_of = map (\<lambda>w. char_of (unat w))"

definition bytes_of :: "string \<Rightarrow> bytes" where
  "bytes_of = map (\<lambda>c. word_of_nat (code c))"

definition readMetadata :: "'m doc \<Rightarrow> 's store_ops \<Rightarrow> string \<Rightarrow> string \<Rightarrow> ('s, 'm) io" where
  "readMetadata D ops path node =
     io_bind (io_lift (checkPath path)) (\<lambda>_.
     io_bind (st_get ops (metadataKey path)) (\<lambda>b. io_lift (parseMetadata D node (text_of b))))"

definition mustBeNew :: "'s store_ops \<Rightarrow> string \<Rightarrow> ('s, unit) io" where
  "mustBeNew ops path =
     io_bind (io_lift (checkPath path)) (\<lambda>_ s.
       (case st_get ops (metadataKey path) s of
          (Inr _, t) \<Rightarrow> (Inl ErrExists, t)
        | (Inl e, t) \<Rightarrow> if e = ErrNotFound then (Inr (), t) else (Inl e, t)))"

text \<open>\<open>withAttributes\<close>: each new attribute with what marshalling it gives; their order, which is that of a
  map, is any.\<close>

definition withAttributes ::
    "(string \<times> string) list \<Rightarrow> (string \<times> string res) list \<Rightarrow> (string \<times> string) list res" where
  "withAttributes attrs new =
     rfold (\<lambda>(k, v) out. rbind v (\<lambda>b. Inr (AList.update k b out))) new attrs"

end
