(* ===== verification/Agree.thy ===== *)
theory Agree
  imports Scan_Laws Documents
begin

text \<open>
  Where the one pass over a document decodes it, \<open>encoding/json\<close> decodes the same (\<open>src/metadata.go\<close>).

  A kind of document keeps the laws of the locale: its fields decode alike either way, one at a time.
  The whole document then does.
\<close>

section \<open>Values\<close>

definition raw_value :: "string \<Rightarrow> bool" where
  "raw_value raw \<longleftrightarrow> skipValue maxDepth 1 raw = Some []"

lemma raw_value_start: "raw_value raw \<Longrightarrow> raw \<noteq> [] \<and> \<not> is_space (hd raw)"
  using skipValue_again(3,4) [of maxDepth 1 raw "[]"] by (auto simp: raw_value_def upto_rest_def)

lemma ends_nothing [simp]: "ends_number []"
  by (simp add: ends_number_def)

lemma raw_value_of: "skipValue maxDepth d u = Some t \<Longrightarrow> 1 \<le> d \<Longrightarrow> raw_value (upto_rest u t)"
proof -
  assume u: "skipValue maxDepth d u = Some t" and d: "1 \<le> d"
  have "skipValue maxDepth d (upto_rest u t) = Some []" using skipValue_again(2) [OF u ends_nothing] by simp
  then show ?thesis unfolding raw_value_def by (rule skipValue_mono) (use d in simp)
qed

lemma deeper: "skipValue maxDepth d u = Some t \<Longrightarrow> d' \<le> Suc d \<Longrightarrow> skipValue go_depth d' u = Some t"
  by (erule skipValue_mono) (simp add: maxDepth_def go_depth_def)

lemma skipSpace_start: "u \<noteq> [] \<Longrightarrow> \<not> is_space (hd u) \<Longrightarrow> skipSpace u = u"
  by (cases u) (simp_all add: skipSpace_def)

lemma unmarshal_raw:
  assumes "raw_value raw"
  shows "unmarshal dec old raw = dec old raw"
proof -
  have s: "skipSpace raw = raw" using raw_value_start [OF assms] by (intro skipSpace_start) auto
  have "skipValue go_depth 1 raw = Some []" using assms unfolding raw_value_def by (rule deeper) simp
  then show ?thesis by (simp add: unmarshal_def s upto_rest_def) (simp add: skipSpace_def)
qed

lemma plainString_decode: "plainString raw = Some s \<Longrightarrow> decode_string old raw = Some s"
  by (cases raw) (auto simp: plainString_def decode_string_def unquote_plain split: if_splits)

lemma field_string_decode: "raw_value raw \<Longrightarrow> field_string old raw = decode_string old raw"
  by (auto simp: field_string_def unmarshal_raw plainString_decode split: option.split)

section \<open>Slices\<close>

lemma omap_append: "omap f (xs @ [x]) = Option.bind (omap f xs) (\<lambda>ys. map_option (\<lambda>y. ys @ [y]) (f x))"
  by (induction xs) (auto split: Option.bind_splits simp: option.map_comp comp_def)

lemma items_decode:
  assumes "items maxDepth 1 fn [] raw = Some (ns, t)"
    and "\<And>ns u ns' t. fn ns u = Some (ns', t) \<Longrightarrow>
      \<exists>n. skipValue maxDepth 2 u = Some t \<and> ns' = ns @ [n] \<and> f (upto_rest u t) = Some n"
  shows "\<exists>vs. raw_items raw = Some vs \<and> omap f vs = Some ns"
proof -
  have "\<exists>vs. items go_depth 1 (collect_item go_depth 1) [] raw = Some (vs, t) \<and> omap f vs = Some ns"
  proof (rule items_sim [where R = "\<lambda>ns vs. omap f vs = Some ns", OF assms(1)])
    fix a u b t c assume fn: "fn a u = Some (b, t)" and R: "omap f c = Some a"
    obtain n where n: "skipValue maxDepth 2 u = Some t" "b = a @ [n]" "f (upto_rest u t) = Some n" using assms(2) [OF fn] by blast
    have "skipValue go_depth 2 u = Some t" using n(1) by (rule deeper) simp
    then show "\<exists>c'. collect_item go_depth 1 c u = Some (c', t) \<and> omap f c' = Some b"
      using n R by (simp add: collect_item_def omap_append numeral_2_eq_2)
  qed (simp_all add: go_depth_def)
  then show ?thesis by (auto simp: raw_items_def)
qed

lemma items_not_null: "items lim d fn a raw = Some r \<Longrightarrow> raw \<noteq> null"
  by (auto simp: items_def)

lemma slice_decode:
  assumes "items maxDepth 1 fn [] raw = Some (ns, t)"
    and "\<And>ns u ns' t. fn ns u = Some (ns', t) \<Longrightarrow>
      \<exists>n. skipValue maxDepth 2 u = Some t \<and> ns' = ns @ [n] \<and> dec zero (upto_rest u t) = Some n"
  shows "decode_slice zero dec old raw = Some (Some ns)"
proof -
  have "\<exists>vs. raw_items raw = Some vs \<and> omap (dec zero) vs = Some ns"
    by (rule items_decode [OF assms(1)]) (rule assms(2))
  then show ?thesis using items_not_null [OF assms(1)] by (auto simp: decode_slice_def)
qed

lemma named_decode_agrees: "named_decode b = Some n \<Longrightarrow> decode_named old b = Some n"
  by (simp add: decode_named_def named_unmarshal_def)

lemma field_nameds_decode:
  assumes "raw_value raw" "field_nameds old raw = Some v"
  shows "decode_slice zero_named decode_named old raw = Some v"
proof (cases "items maxDepth 1 named_item [] raw")
  case None
  then show ?thesis using assms by (simp add: field_nameds_def unmarshal_raw)
next
  case (Some r)
  then obtain ns t where r: "items maxDepth 1 named_item [] raw = Some (ns, t)" by (cases r) auto
  have "decode_slice zero_named decode_named old raw = Some (Some ns)"
    by (rule slice_decode [OF r]) (auto simp: named_item_def named_decode_agrees split: option.splits)
  then show ?thesis using r assms(2) by (simp add: field_nameds_def)
qed

lemma int_item_decode:
  assumes "int_item ns u = Some (ns', t)"
  shows "\<exists>n. skipValue maxDepth 2 u = Some t \<and> ns' = ns @ [n] \<and> decode_int 0 (upto_rest u t) = Some n"
proof -
  let ?raw = "upto_rest u t"
  have v: "skipValue maxDepth 2 u = Some t" using assms by (auto simp: int_item_def Let_def split: option.splits if_splits)
  let ?d = "if ?raw \<noteq> [] \<and> hd ?raw = CHR ''-'' then tl ?raw else ?raw"
  have d: "?d \<noteq> []" "digits_only ?d" and n: "map_option (\<lambda>n. (ns @ [n], t)) (parse_int 64 ?raw) = Some (ns', t)"
    using assms v unfolding int_item_def Let_def by (simp_all split: if_splits)
  obtain n where n: "parse_int 64 ?raw = Some n" "ns' = ns @ [n]" using n by auto
  have h: "?raw \<noteq> [] \<and> (hd ?raw = CHR ''-'' \<or> is_digit (hd ?raw))"
    using d by (cases ?raw) (auto simp: digits_only_def split: if_splits)
  moreover have "?raw \<noteq> null" using h by (auto simp: is_digit_def)
  ultimately show ?thesis using v n by (auto simp: decode_int_def)
qed

lemma field_ints_decode:
  assumes "raw_value raw" "field_ints old raw = Some v"
  shows "decode_slice 0 decode_int old raw = Some v"
proof (cases "items maxDepth 1 int_item [] raw")
  case None
  then show ?thesis using assms by (simp add: field_ints_def unmarshal_raw)
next
  case (Some r)
  then obtain ns t where r: "items maxDepth 1 int_item [] raw = Some (ns, t)" by (cases r) auto
  have "decode_slice 0 decode_int old raw = Some (Some ns)"
    by (rule slice_decode [OF r]) (rule int_item_decode)
  then show ?thesis using r assms(2) by (simp add: field_ints_def)
qed

lemma field_names_decode:
  assumes "raw_value raw" "field_names old raw = Some v"
  shows "decode_slice None (decode_pointer [] decode_string) old raw = Some v"
proof (cases "items maxDepth 1 name_item [] raw")
  case None
  then show ?thesis using assms by (simp add: field_names_def unmarshal_raw)
next
  case (Some r)
  then obtain ns t where r: "items maxDepth 1 name_item [] raw = Some (ns, t)" by (cases r) auto
  have "decode_slice None (decode_pointer [] decode_string) old raw = Some (Some ns)"
    by (rule slice_decode [OF r])
      (auto simp: name_item_def decode_pointer_def plainString_decode split: option.splits if_splits)
  then show ?thesis using r assms(2) by (simp add: field_names_def)
qed

section \<open>Objects\<close>

lemma local_collect: "local_member (collect_member lim d)"
  unfolding local_member_def
proof (intro allI impI)
  fix a k u b t assume "collect_member lim d a k u = Some (b, t)"
  then have v: "skipValue lim (Suc d) u = Some t" "b = a @ [(k, upto_rest u t)]" by (auto simp: collect_member_def)
  show "\<exists>v. u = v @ t \<and> v \<noteq> [] \<and> \<not> is_space (hd v) \<and> (\<forall>t'. ends_number t' \<longrightarrow> collect_member lim d a k (v @ t') = Some (b, t'))"
    using skipValue_again [OF v(1)] v(2) by (intro exI [of _ "upto_rest u t"]) (auto simp: collect_member_def)
qed

text \<open>A walk over an object that ends where its values do gives the members, and what a fold over them
  gives.\<close>

lemma members_collect:
  assumes "members maxDepth d fn a s = Some (a', t)" "R a []"
    and "\<And>st k u st' t kvs. fn st k u = Some (st', t) \<Longrightarrow> R st kvs \<Longrightarrow>
      skipValue maxDepth (Suc d) u = Some t \<and> R st' (kvs @ [(k, upto_rest u t)])"
  shows "\<exists>kvs. raw_members (upto_rest s t) = Some kvs \<and> R a' kvs"
    and "skipValue go_depth 1 s = Some t" and "d = 1 \<Longrightarrow> skipValue maxDepth 1 s = Some t"
proof -
  obtain r where s: "s = CHR ''{'' # r" "\<not> maxDepth < d" using assms(1) by (auto simp: members_def split: list.splits if_splits)
  have "\<exists>kvs. members go_depth 1 (collect_member go_depth 1) [] s = Some (kvs, t) \<and> R a' kvs"
  proof (rule members_sim [where R = R, OF assms(1,2)])
    fix a k u b t c assume h: "fn a k u = Some (b, t)" "R a c"
    have "skipValue maxDepth (Suc d) u = Some t \<and> R b (c @ [(k, upto_rest u t)])" by (rule assms(3) [OF h])
    moreover from this have "skipValue go_depth 2 u = Some t" using deeper [of "Suc d" u t 2] by simp
    ultimately show "\<exists>c'. collect_member go_depth 1 c k u = Some (c', t) \<and> R b c'"
      by (simp add: collect_member_def numeral_2_eq_2)
  qed (simp add: go_depth_def)
  then obtain kvs where kvs: "members go_depth 1 (collect_member go_depth 1) [] s = Some (kvs, t)" "R a' kvs" by blast
  then show "\<exists>kvs. raw_members (upto_rest s t) = Some kvs \<and> R a' kvs"
    using members_again [OF kvs(1) local_collect, of "[]"] by (auto simp: raw_members_def)
  have "\<exists>c'. members lim d' (value_member lim d') () s = Some (c', t) \<and> (\<exists>kvs. R a' kvs)"
    if "d' \<le> lim" "\<And>u t. skipValue maxDepth (Suc d) u = Some t \<Longrightarrow> skipValue lim (Suc d') u = Some t" for lim d'
  proof (rule members_sim [where R = "\<lambda>st _. \<exists>kvs. R st kvs", OF assms(1)])
    show "\<exists>kvs. R a kvs" using assms(2) by blast
    show "d' \<le> lim" by (rule that(1))
    fix a k u b t c assume h: "fn a k u = Some (b, t)" "\<exists>kvs. R a kvs"
    then obtain kvs where "R a kvs" by blast
    from assms(3) [OF h(1) this] that(2)
    show "\<exists>c'. map_option (Pair ()) (skipValue lim (Suc d') u) = Some (c', t) \<and> (\<exists>kvs. R b kvs)" by auto
  qed
  then have v: "skipValue lim d' s = Some t"
    if "d' \<le> lim" "\<And>u t. skipValue maxDepth (Suc d) u = Some t \<Longrightarrow> skipValue lim (Suc d') u = Some t" for lim d'
    using that s by (auto simp: skipValue.simps(2))
  show "skipValue go_depth 1 s = Some t"
    by (rule v) (auto simp: go_depth_def intro: deeper [unfolded go_depth_def])
  show "skipValue maxDepth 1 s = Some t" if "d = 1"
    by (rule v) (use that in \<open>auto simp: maxDepth_def\<close>)
qed

lemma raw_members_not_null: "raw_members raw = Some kvs \<Longrightarrow> raw \<noteq> null"
  by (auto simp: raw_members_def members_def)

lemma decodeAttributes_decode:
  assumes "decodeAttributes u = Some (attrs, t)"
  shows "skipValue maxDepth 1 u = Some t \<and> decode_map [] (upto_rest u t) = Some attrs"
proof -
  let ?R = "\<lambda>m kvs. m = fold (\<lambda>(k, v). AList.update (unquote k) v) kvs []"
  have step: "skipValue maxDepth (Suc 1) u = Some t \<and> ?R st' (kvs @ [(k, upto_rest u t)])"
    if "attribute_member st k u = Some (st', t)" "?R st kvs" for st k u st' t kvs
    using that by (auto simp: attribute_member_def unquote_plain numeral_2_eq_2 split: if_splits)
  note a = assms [unfolded decodeAttributes_def]
  have "\<exists>kvs. raw_members (upto_rest u t) = Some kvs \<and> ?R attrs kvs"
    by (rule members_collect(1) [where R = ?R, OF a]) (simp, rule step)
  moreover have "skipValue maxDepth 1 u = Some t"
    by (rule members_collect(3) [where R = ?R, OF a]) (simp, rule step, simp_all)
  ultimately show ?thesis using raw_members_not_null by (auto simp: decode_map_def)
qed

section \<open>Names of fields\<close>

definition upper :: "char \<Rightarrow> char" where
  "upper c = (if 97 \<le> code c \<and> code c \<le> 122 then char_of (code c - 32) else c)"

lemma fold_name_plain: "plainKey s \<Longrightarrow> fold_name s = map upper s"
  by (induction s rule: fold_name.induct) (auto simp: plainKey_def upper_def)

lemma lower_upper: "lower (upper c) = lower c"
  by (auto simp: lower_def upper_def)

lemma fold_name_equal_fold: "plainKey s \<Longrightarrow> plainKey t \<Longrightarrow> fold_name s = fold_name t \<Longrightarrow> equal_fold s t"
proof -
  assume "plainKey s" "plainKey t" "fold_name s = fold_name t"
  then have "map lower (map upper s) = map lower (map upper t)" by (simp add: fold_name_plain)
  then show ?thesis by (simp add: equal_fold_def comp_def lower_upper)
qed

text \<open>A key that the one pass lets through finds just the field of its name.\<close>

lemma find_field_plain:
  assumes "\<forall>f \<in> set names. plainKey f" "plainKey k" "\<forall>f \<in> set names. \<not> equal_fold f k \<or> f = k"
  shows "find_field names k = (if k \<in> set names then Some k else None)"
proof (cases "k \<in> set names")
  case False
  have "fold_name f \<noteq> fold_name k" if "f \<in> set names" for f
    using that assms False fold_name_equal_fold by blast
  with False show ?thesis by (auto simp: find_field_def find_None_iff)
qed (simp add: find_field_def)

section \<open>Kinds of documents\<close>

abbreviation head_names :: "string list" where
  "head_names \<equiv> [''zarr_format'', ''node_type'']"

locale document =
  fixes D :: "'m doc" and attrs_of :: "'m \<Rightarrow> (string \<times> string) list"
  assumes known_plain: "\<forall>f \<in> set (d_known D). plainKey f"
    and known_head: "set head_names \<subseteq> set (d_known D)"
    and known_apart: "\<forall>f \<in> set head_names. \<forall>k \<in> set (d_known D). \<not> equal_fold f k \<or> f = k"
    and slow_format: "d_slow D ''zarr_format'' (d_head D f n m) raw = map_option (\<lambda>v. d_head D v n m) (decode_int f raw)"
    and slow_type: "d_slow D ''node_type'' (d_head D f n m) raw = map_option (\<lambda>v. d_head D f v m) (decode_string n raw)"
    and slow_field: "k \<in> set (d_known D) \<Longrightarrow> k \<notin> set head_names \<Longrightarrow> raw_value raw \<Longrightarrow> d_field D k m raw = Some m' \<Longrightarrow>
      d_slow D k (d_head D f n m) raw = Some (d_head D f n m') \<and> (k \<noteq> ''attributes'' \<longrightarrow> attrs_of m' = attrs_of m)"
    and slow_attrs: "attrs_of m = [] \<Longrightarrow> decode_map [] raw = Some attrs \<Longrightarrow>
      d_slow D ''attributes'' (d_head D f n m) raw = Some (d_head D f n (d_attrs D attrs m))"
    and zero_doc: "d_head D 0 [] (d_zero D) = d_zero D" "attrs_of (d_zero D) = []"
begin

abbreviation read_head :: "'m meta_state \<Rightarrow> string \<Rightarrow> int \<times> string" where
  "read_head st node \<equiv> (if is_format st then 3 else 0, if is_typed st then node else [])"

definition agrees :: "string \<Rightarrow> 'm meta_state \<Rightarrow> (string \<times> string) list \<Rightarrow> bool" where
  "agrees node st kvs \<longleftrightarrow>
     (\<forall>(k, v) \<in> set kvs. plainKey k \<and> (k \<notin> set (d_known D) \<longrightarrow> may_ignore v)) \<and>
     ofold (\<lambda>(k, v) m. case find_field head_names (unquote k) of None \<Rightarrow> Some m | Some f \<Rightarrow> head_field f m v) kvs (0, []) =
       Some (read_head st node) \<and>
     ofold (\<lambda>(k, v) m. case find_field (d_known D) (unquote k) of None \<Rightarrow> Some m | Some f \<Rightarrow> d_slow D f m v) kvs (d_zero D) =
       Some (d_head D (fst (read_head st node)) (snd (read_head st node)) (decoded st)) \<and>
     (''attributes'' \<notin> set (seen st) \<longrightarrow> attrs_of (decoded st) = [])"

lemma ofold_append: "ofold f (xs @ [x]) a = Option.bind (ofold f xs a) (f x)"
  by (induction xs arbitrary: a) (auto split: Option.bind_splits)

lemma agrees_step:
  assumes fn: "metadata_member D node st k u = Some (st', t)" and R: "agrees node st kvs" and node: "plainKey node"
  shows "skipValue maxDepth (Suc 0) u = Some t \<and> agrees node st' (kvs @ [(k, upto_rest u t)])"
proof -
  let ?raw = "upto_rest u t"
  have k: "plainKey k" using fn by (auto simp: metadata_member_def split: if_splits)
  note uk = unquote_plain [OF k]
  have hp: "\<forall>f \<in> set head_names. plainKey f" using known_plain known_head by blast
  show ?thesis
  proof (cases "k \<in> set (d_known D)")
    case False
    then have nf: "\<forall>f \<in> set (d_known D). \<not> equal_fold f k" and v: "skipValue maxDepth 1 u = Some t" "may_ignore ?raw" "st' = st"
      using fn by (auto simp: metadata_member_def split: if_splits option.splits)
    have "find_field (d_known D) k = None" "find_field head_names k = None"
      using find_field_plain [OF known_plain k] find_field_plain [OF hp k] nf False known_head by auto
    then show ?thesis using R v k uk by (auto simp: agrees_def ofold_append)
  next
    case known: True
    have find: "find_field (d_known D) k = Some k" using known by (simp add: find_field_def)
    have hfind: "find_field head_names k = (if k \<in> set head_names then Some k else None)"
      using known_apart known by (intro find_field_plain [OF hp k]) blast
    have ns: "k \<notin> set (seen st)" using fn known by (auto simp: metadata_member_def split: if_splits)
    let ?st = "st\<lparr>seen := seen st @ [k]\<rparr>"
    show ?thesis
    proof (cases "k = ''attributes'' \<and> u \<noteq> [] \<and> hd u = CHR ''{''")
      case True
      then obtain attrs where a: "decodeAttributes u = Some (attrs, t)" "st' = ?st\<lparr>decoded := d_attrs D attrs (decoded st)\<rparr>"
        using fn known ns k by (auto simp: metadata_member_def)
      have v: "skipValue maxDepth 1 u = Some t" "decode_map [] ?raw = Some attrs" using decodeAttributes_decode [OF a(1)] by simp_all
      have h: "k \<notin> set head_names" using True by auto
      have "attrs_of (decoded st) = []" using R ns True by (auto simp: agrees_def)
      from slow_attrs [OF this v(2)] show ?thesis using R v(1) a(2) uk find hfind h known k True
        by (auto simp: agrees_def ofold_append)
    next
      case na: False
      then have g: "(case skipValue maxDepth 1 u of None \<Rightarrow> None | Some t \<Rightarrow>
            (let raw = upto_rest u t
             in if k = ''zarr_format'' then (if raw = ''3'' then Some (?st\<lparr>is_format := True\<rparr>, t) else None)
                else if k = ''node_type'' then
                  (if length raw = length node + 2 \<and> hd raw = quote \<and> within_quotes raw = node
                   then Some (?st\<lparr>is_typed := True\<rparr>, t) else None)
                else map_option (\<lambda>m. (?st\<lparr>decoded := m\<rparr>, t)) (d_field D k (decoded ?st) raw))) = Some (st', t)"
        using fn unfolding metadata_member_def Let_def by (simp only: k known ns na not_True_eq_False not_False_eq_True if_False if_True)
      then have v: "skipValue maxDepth 1 u = Some t" by (auto simp: Let_def split: option.splits if_splits)
      note rv = raw_value_of [OF v order_refl]
      consider (format) "k = ''zarr_format''" | (type) "k = ''node_type''" | (field) "k \<notin> set head_names" by auto
      then show ?thesis
      proof cases
        case format
        then have st': "?raw = ''3''" "st' = ?st\<lparr>is_format := True\<rparr>" using g v by (auto simp: Let_def split: if_splits)
        have "decode_int x ''3'' = Some 3" for x
          by (simp add: decode_int_def is_digit_def parse_int_def digits_only_def atoi_def)
        then show ?thesis using R v st' uk find hfind known k format
          by (auto simp: agrees_def ofold_append head_field_def slow_format)
      next
        case type
        then have st': "hd ?raw = quote" "within_quotes ?raw = node" "st' = ?st\<lparr>is_typed := True\<rparr>" using g v by (auto simp: Let_def split: if_splits)
        have "decode_string x ?raw = Some node" for x
          using st' raw_value_start [OF rv] unquote_plain [OF node] by (auto simp: decode_string_def)
        then show ?thesis using R v st'(3) uk find hfind known k type
          by (auto simp: agrees_def ofold_append head_field_def slow_type)
      next
        case field
        then obtain m where m: "d_field D k (decoded st) ?raw = Some m" "st' = ?st\<lparr>decoded := m\<rparr>" using g v by (auto simp: Let_def)
        from slow_field [OF known field rv m(1)] show ?thesis using R v m(2) uk find hfind known k field
          by (auto simp: agrees_def ofold_append)
      qed
    qed
  qed
qed

lemma update_values: "(k, v) \<in> set (fold (\<lambda>(k, v). AList.update (unquote k) v) kvs m) \<Longrightarrow>
    (k, v) \<in> set m \<or> (\<exists>(k', v') \<in> set kvs. k = unquote k' \<and> v = v')"
proof (induction kvs arbitrary: m)
  case (Cons x kvs)
  from Cons(1) [of "AList.update (unquote (fst x)) (snd x) m"] Cons(2)
  have "(k, v) \<in> set (AList.update (unquote (fst x)) (snd x) m) \<or> (\<exists>(k', v') \<in> set kvs. k = unquote k' \<and> v = v')"
    by (simp add: case_prod_unfold)
  moreover have "set (AList.update a b m) \<subseteq> insert (a, b) (set m)" for a b
    by (induction m) auto
  ultimately show ?case by (cases x) auto
qed simp

theorem decodes_the_same:
  assumes "decodeMetadata D node b = Some m" "plainKey node"
  shows "decodeMetadataSlowly D node b = Inr m"
proof -
  let ?s = "skipSpace b"
  obtain st t where m: "members maxDepth 0 (metadata_member D node)
      \<lparr>seen = [], is_format = False, is_typed = False, decoded = d_zero D\<rparr> ?s = Some (st, t)"
    and t: "skipSpace t = []" "is_format st" "is_typed st" and d: "m = d_head D 3 node (decoded st)"
    using assms(1) by (auto simp: decodeMetadata_def split: option.splits prod.splits if_splits)
  have init: "agrees node \<lparr>seen = [], is_format = False, is_typed = False, decoded = d_zero D\<rparr> []"
    by (simp add: agrees_def zero_doc)
  have "\<exists>kvs. raw_members (upto_rest ?s t) = Some kvs \<and> agrees node st kvs"
    by (rule members_collect(1) [where R = "agrees node", OF m init]) (rule agrees_step [OF _ _ assms(2)])
  then obtain kvs where kvs: "raw_members (upto_rest ?s t) = Some kvs" "agrees node st kvs" by blast
  have v: "skipValue go_depth 1 ?s = Some t"
    by (rule members_collect(2) [where R = "agrees node", OF m init]) (rule agrees_step [OF _ _ assms(2)])
  have u: "unmarshal dec old b = dec old (upto_rest ?s t)" for dec :: "'x reader" and old
    using v t(1) by (simp add: unmarshal_def)
  note nn = raw_members_not_null [OF kvs(1)]
  have "\<not> (\<exists>(k, raw) \<in> set (fold (\<lambda>(k, v). AList.update (unquote k) v) kvs []). k \<notin> set (d_known D) \<and> \<not> may_ignore raw)"
    using update_values [of _ _ kvs "[]"] kvs(2) unquote_plain by (fastforce simp: agrees_def)
  then show ?thesis
    using kvs nn t d by (simp add: decodeMetadataSlowly_def u decode_map_def decode_head_def decode_struct_def agrees_def)
qed

end

lemma decode_dtype_agrees: "raw_value raw \<Longrightarrow> map_option dtype_of (field_string (dtype_name old) raw) = decode_dtype old raw"
  by (simp add: decode_dtype_def field_string_decode)

lemma find_apart:
  "\<forall>f \<in> set head_names. \<forall>k \<in> set arrayKeys. \<not> equal_fold f k \<or> f = k"
  "\<forall>f \<in> set head_names. \<forall>k \<in> set groupKeys. \<not> equal_fold f k \<or> f = k"
  by code_simp+

lemma head_order:
  "m\<lparr>mNode := n, mFormat := f\<rparr> = m\<lparr>mFormat := f, mNode := n\<rparr>" "g\<lparr>gNode := n, gFormat := f\<rparr> = g\<lparr>gFormat := f, gNode := n\<rparr>"
  by simp_all

interpretation arrays: document array_doc mAttrs
proof
  show "\<forall>f \<in> set head_names. \<forall>k \<in> set (d_known array_doc). \<not> equal_fold f k \<or> f = k"
    unfolding array_doc_def doc.simps by (rule find_apart(1))
  fix k raw m m' f n
  assume k: "k \<in> set (d_known array_doc)" "k \<notin> set head_names" and rv: "raw_value raw" and d: "d_field array_doc k m raw = Some m'"
  have u: "unmarshal dec old raw = dec old raw" for dec :: "'x reader" and old by (rule unmarshal_raw [OF rv])
  have "k \<in> {''shape'', ''data_type'', ''chunk_grid'', ''chunk_key_encoding'', ''fill_value'', ''codecs'', ''attributes'',
      ''storage_transformers'', ''dimension_names''}" using k by (simp add: array_doc_def arrayKeys_def)
  then show "d_slow array_doc k (d_head array_doc f n m) raw = Some (d_head array_doc f n m') \<and> (k \<noteq> ''attributes'' \<longrightarrow> mAttrs m' = mAttrs m)"
    using d field_nameds_decode [OF rv] field_ints_decode [OF rv] field_names_decode [OF rv]
      field_string_decode [OF rv] named_decode_agrees
    by (elim insertE emptyE) (auto simp: array_doc_def array_field_def array_slow_def u decode_raw_def decode_dtype_def)
qed (simp_all add: array_doc_def arrayKeys_def plainKey_def array_slow_def zero_array_def head_order)

interpretation groups: document group_doc gAttrs
proof
  show "\<forall>f \<in> set head_names. \<forall>k \<in> set (d_known group_doc). \<not> equal_fold f k \<or> f = k"
    unfolding group_doc_def doc.simps by (rule find_apart(2))
  fix k raw m m' f n
  assume k: "k \<in> set (d_known group_doc)" "k \<notin> set head_names" and rv: "raw_value raw" and d: "d_field group_doc k m raw = Some m'"
  have u: "unmarshal dec old raw = dec old raw" for dec :: "'x reader" and old by (rule unmarshal_raw [OF rv])
  have "k = ''attributes''" using k by (simp add: group_doc_def groupKeys_def)
  then show "d_slow group_doc k (d_head group_doc f n m) raw = Some (d_head group_doc f n m') \<and> (k \<noteq> ''attributes'' \<longrightarrow> gAttrs m' = gAttrs m)"
    using d by (auto simp: group_doc_def group_field_def group_slow_def u)
qed (simp_all add: group_doc_def groupKeys_def plainKey_def group_slow_def zero_group_def head_order)

end
