(* ===== verification/Text_Theorems.thy ===== *)
theory Text_Theorems
  imports Agree
begin

text \<open>
  What the reading of metadata is right about: the scanner knows JSON, and its one pass over a document
  is invisible.
\<close>

section \<open>The scanner\<close>

text \<open>C18: a text is one JSON value to the scanner, with nothing but blanks around it, just if it is one
  by the grammar of JSON whose arrays and objects are nested no deeper than 1001 levels: nothing
  else is let through, and nothing of that depth is left out. (\<open>skipValue\<close> at depth 0, between
  \<open>skipSpace\<close>.)\<close>

theorem scanner_knows_json:
  "(\<exists>t. skipValue maxDepth 0 (skipSpace b) = Some t \<and> skipSpace t = []) \<longleftrightarrow>
     (\<exists>u v w. b = u @ v @ w \<and> blank u \<and> blank w \<and> json_text (Suc maxDepth) v)"
proof -
  have "valid_json maxDepth 0 b \<longleftrightarrow> (\<exists>t. skipValue maxDepth 0 (skipSpace b) = Some t \<and> skipSpace t = [])"
    by (simp add: valid_json_def split: option.split)
  then show ?thesis using valid_json_iff [of maxDepth 0 b] by (simp only: diff_zero)
qed

section \<open>Documents\<close>

text \<open>C19: the one pass over the document of an array or of a group changes nothing: reading it is
  what reading it by \<open>encoding/json\<close> is, with the same metadata and the same refusals, whatever the
  bytes. (\<open>parseMetadata\<close>, \<open>decodeMetadata\<close> against \<open>decodeMetadataSlowly\<close>.)\<close>

theorem one_pass_is_invisible:
  assumes "plainKey node"
  shows "parseMetadata array_doc node b = decodeMetadataSlowly array_doc node b \<and>
    parseMetadata group_doc node b = decodeMetadataSlowly group_doc node b"
  using arrays.decodes_the_same [OF _ assms] groups.decodes_the_same [OF _ assms]
  by (auto simp: parseMetadata_def split: option.split)

definition demo_text :: string where
  "demo_text = ''{ \"node_type\": \"group\", \"attributes\": {\"a\":[1, {}]}, \"zarr_format\":3 }''"

lemma demo_text_read:
  "decodeMetadata group_doc ''group'' demo_text = Some \<lparr>gFormat = 3, gNode = ''group'', gAttrs = [(''a'', ''[1, {}]'')]\<rparr>"
  by code_simp

theorem one_pass_is_invisible_witness:
  "decodeMetadataSlowly group_doc ''group'' demo_text = Inr \<lparr>gFormat = 3, gNode = ''group'', gAttrs = [(''a'', ''[1, {}]'')]\<rparr>"
proof -
  have "plainKey ''group''" by (simp add: plainKey_def)
  from one_pass_is_invisible [OF this, of demo_text]
  have "parseMetadata group_doc ''group'' demo_text = decodeMetadataSlowly group_doc ''group'' demo_text" by (rule conjunct2)
  then show ?thesis by (simp add: parseMetadata_def demo_text_read)
qed

end
