(* ===== verification/Fills.thy ===== *)
theory Fills
  imports Documents
begin

text \<open>
  Fill values (\<open>fillFrom\<close>, \<open>parseFill\<close> and \<open>formatFill\<close> of \<open>src/dtype.go\<close>): from a Go value, and to and
  from metadata.

  The conversions between integers and floats are written out, with their rounding to nearest, ties
  to even. The texts of floats, \<open>strconv.ParseFloat\<close> and \<open>FormatFloat\<close> with the fewest digits, are
  parameters; what is relied on is that a finite float is read back from its text.
\<close>

section \<open>Floats\<close>

fun bit_length :: "nat \<Rightarrow> nat" where
  "bit_length n = (if n = 0 then 0 else Suc (bit_length (n div 2)))"

declare bit_length.simps [simp del]

definition half_even :: "nat \<Rightarrow> nat \<Rightarrow> nat" where
  "half_even m s =
     (let q = m div 2 ^ s; r = 2 * (m mod 2 ^ s) in if r > 2 ^ s \<or> r = 2 ^ s \<and> odd q then q + 1 else q)"

text \<open>The bits, without the sign, of the float of \<open>p\<close> bits of precision nearest to \<open>m * 2 ^ e\<close>: \<open>qmin\<close> is the
  exponent of the smallest float and \<open>infinity\<close> the bits of infinity.\<close>

definition round_float :: "nat \<Rightarrow> int \<Rightarrow> nat \<Rightarrow> nat \<Rightarrow> int \<Rightarrow> nat" where
  "round_float p qmin infinity m e =
     (if m = 0 then 0
      else
        (let q = max qmin (e + int (bit_length m) - int p);
             f = (if q \<le> e then m * 2 ^ nat (e - q) else half_even m (nat (q - e)))
         in min infinity (nat (q - qmin) * 2 ^ (p - 1) + f)))"

definition float64_of :: "nat \<Rightarrow> int \<Rightarrow> nat" where
  "float64_of = round_float 53 (-1074) (0x7FF * 2 ^ 52)"

definition float32_of :: "nat \<Rightarrow> int \<Rightarrow> nat" where
  "float32_of = round_float 24 (-149) (0xFF * 2 ^ 23)"

text \<open>A \<open>float64\<close> as its bits; \<open>float64(x)\<close> of an integer, and \<open>float32(f)\<close>.\<close>

definition int_to_float64 :: "int \<Rightarrow> nat" where
  "int_to_float64 x = (if x < 0 then 2 ^ 63 else 0) + float64_of (nat \<bar>x\<bar>) 0"

definition mantissa :: "nat \<Rightarrow> nat" where
  "mantissa w = (if w div 2 ^ 52 mod 2 ^ 11 = 0 then w mod 2 ^ 52 else w mod 2 ^ 52 + 2 ^ 52)"

definition exponent :: "nat \<Rightarrow> int" where
  "exponent w = int (max 1 (w div 2 ^ 52 mod 2 ^ 11)) - 1075"

definition finite64 :: "nat \<Rightarrow> bool" where
  "finite64 w \<longleftrightarrow> w div 2 ^ 52 mod 2 ^ 11 \<noteq> 0x7FF"

definition nan64 :: "nat \<Rightarrow> bool" where
  "nan64 w \<longleftrightarrow> \<not> finite64 w \<and> w mod 2 ^ 52 \<noteq> 0"

definition to_float32 :: "nat \<Rightarrow> nat" where
  "to_float32 w =
     (if w \<ge> 2 ^ 63 then 2 ^ 31 else 0) +
     (if finite64 w then float32_of (mantissa w) (exponent w)
      else if nan64 w then 0x7FC00000 + w mod 2 ^ 51 div 2 ^ 29
      else 0x7F800000)"

text \<open>The value of a float that is a whole number.\<close>

definition whole :: "nat \<Rightarrow> int option" where
  "whole w =
     (let m = mantissa w; e = exponent w; s = (if w \<ge> 2 ^ 63 then -1 else 1)
      in if \<not> finite64 w then None
         else if 0 \<le> e then Some (s * int m * 2 ^ nat e)
         else if m mod 2 ^ nat (- e) = 0 then Some (s * int (m div 2 ^ nat (- e)))
         else None)"

section \<open>From a Go value\<close>

text \<open>A value of an interface, by its kind; a \<open>float32\<close> is the \<open>float64\<close> it is converted to.\<close>

datatype go_value = GoNil | GoBool bool | GoInt int | GoUint nat | GoFloat nat | GoOther

definition bits_of_type :: "dtype \<Rightarrow> nat" where
  "bits_of_type d = dsize d * 8"

text \<open>\<open>SetInt\<close>, \<open>SetUint\<close> and \<open>SetFloat\<close> of a variable of the type.\<close>

definition set_int :: "dtype \<Rightarrow> int \<Rightarrow> elem" where
  "set_int d x = of_bits d (nat (x mod 2 ^ bits_of_type d))"

definition set_float :: "dtype \<Rightarrow> nat \<Rightarrow> elem" where
  "set_float d w = (if d = Float32 then VFloat32 (word_of_nat (to_float32 w)) else VFloat64 (word_of_nat w))"

definition fits_int :: "dtype \<Rightarrow> int \<Rightarrow> bool" where
  "fits_int d x \<longleftrightarrow> - (2 ^ (bits_of_type d - 1)) \<le> x \<and> x < 2 ^ (bits_of_type d - 1)"

definition fits_uint :: "dtype \<Rightarrow> int \<Rightarrow> bool" where
  "fits_uint d x \<longleftrightarrow> 0 \<le> x \<and> x < 2 ^ bits_of_type d"

abbreviation bad_fill :: "'a res" where
  "bad_fill \<equiv> Inl (ErrOther ''fill value'')"

definition fillFrom :: "dtype \<Rightarrow> go_value \<Rightarrow> elem res" where
  "fillFrom d v =
     (if \<not> known d then Inl Panic
      else
        (case v of
           GoNil \<Rightarrow> Inr (zero_of d)
         | GoBool b \<Rightarrow> if d \<noteq> Bool then bad_fill else Inr (VBool b)
         | GoInt x \<Rightarrow>
             if is_signed d \<and> fits_int d x then Inr (set_int d x)
             else if is_float d then Inr (set_float d (int_to_float64 x))
             else if d \<noteq> Bool \<and> \<not> is_signed d \<and> x \<ge> 0 \<and> fits_uint d x then Inr (set_int d x)
             else bad_fill
         | GoUint x \<Rightarrow>
             if is_signed d \<and> int x \<le> maxInt64 \<and> fits_int d (int x) then Inr (set_int d (int x))
             else if is_float d then Inr (set_float d (int_to_float64 (int x)))
             else if d \<noteq> Bool \<and> \<not> is_signed d \<and> fits_uint d (int x) then Inr (set_int d (int x))
             else bad_fill
         | GoFloat f \<Rightarrow>
             if is_float d then Inr (set_float d f)
             else
               (case whole f of
                  None \<Rightarrow> bad_fill
                | Some x \<Rightarrow>
                    if is_signed d \<and> minInt64 \<le> x \<and> x < 2 ^ 63 \<and> fits_int d x then Inr (set_int d x)
                    else if d \<noteq> Bool \<and> \<not> is_signed d \<and> x \<ge> 0 \<and> x < 2 ^ 64 \<and> fits_uint d x then Inr (set_int d x)
                    else bad_fill)
         | GoOther \<Rightarrow> bad_fill))"

section \<open>In metadata\<close>

text \<open>The texts of floats of 32 or 64 bits: what is read is the bits of a float, or an error.\<close>

record float_text =
  read_float :: "nat \<Rightarrow> string \<Rightarrow> nat option"
  write_float :: "nat \<Rightarrow> nat \<Rightarrow> string"

definition parse_hex :: "nat \<Rightarrow> string \<Rightarrow> nat option" where
  "parse_hex bits s =
     (let n = foldl (\<lambda>n c. 16 * n + hex_digit c) 0 s
      in if s \<noteq> [] \<and> (\<forall>c \<in> set s. is_hex c) \<and> n < 2 ^ bits then Some n else None)"

definition nan_bits :: "dtype \<Rightarrow> nat" where
  "nan_bits d = (if d = Float32 then 0x7FC00000 else 0x7FF8000000000001)"

definition inf_bits :: "dtype \<Rightarrow> nat" where
  "inf_bits d = (if d = Float32 then 0xFF * 2 ^ 23 else 0x7FF * 2 ^ 52)"

definition parse_float_fill :: "float_text \<Rightarrow> dtype \<Rightarrow> string \<Rightarrow> elem res" where
  "parse_float_fill ft d raw =
     (if hd raw = quote then
        (case unmarshal decode_string [] raw of
           None \<Rightarrow> bad_fill
         | Some s \<Rightarrow>
             if s = ''NaN'' then Inr (of_bits d (nan_bits d))
             else if s = ''Infinity'' then Inr (of_bits d (inf_bits d))
             else if s = ''-Infinity'' then Inr (of_bits d (2 ^ (bits_of_type d - 1) + inf_bits d))
             else if prefix ''0x'' s \<and> length s = 2 + bits_of_type d div 4 then
               (case parse_hex (bits_of_type d) (drop 2 s) of None \<Rightarrow> bad_fill | Some u \<Rightarrow> Inr (of_bits d u))
             else bad_fill)
      else
        (case read_float ft (bits_of_type d) raw of None \<Rightarrow> bad_fill | Some u \<Rightarrow> Inr (of_bits d u)))"

definition parseFill :: "float_text \<Rightarrow> dtype \<Rightarrow> string \<Rightarrow> elem res" where
  "parseFill ft d raw =
     (let raw = trimSpace raw
      in if raw = [] \<or> raw = null then Inl (ErrOther ''an array must have a fill_value'')
         else if \<not> known d then Inl Panic
         else if d = Bool then
           (case unmarshal decode_bool False raw of None \<Rightarrow> bad_fill | Some b \<Rightarrow> Inr (VBool b))
         else if is_float d then parse_float_fill ft d raw
         else if is_signed d then
           (case parse_int (bits_of_type d) raw of None \<Rightarrow> bad_fill | Some x \<Rightarrow> Inr (set_int d x))
         else
           (case parse_uint (bits_of_type d) raw of None \<Rightarrow> bad_fill | Some x \<Rightarrow> Inr (set_int d (int x))))"

definition format_int :: "int \<Rightarrow> string" where
  "format_int x = (if x < 0 then CHR ''-'' # itoa (nat (- x)) else itoa (nat x))"

definition formatFloat :: "float_text \<Rightarrow> dtype \<Rightarrow> nat \<Rightarrow> string" where
  "formatFloat ft d u =
     (let v = of_bits d u; q = [quote]
      in if is_nan v then q @ ''NaN'' @ q
         else if u = inf_bits d then q @ ''Infinity'' @ q
         else if u = 2 ^ (bits_of_type d - 1) + inf_bits d then q @ ''-Infinity'' @ q
         else write_float ft (bits_of_type d) u)"

definition formatFill :: "float_text \<Rightarrow> elem \<Rightarrow> string" where
  "formatFill ft v =
     (case v of
        VBool b \<Rightarrow> if b then ''true'' else ''false''
      | VInt8 w \<Rightarrow> format_int (sint w) | VInt16 w \<Rightarrow> format_int (sint w)
      | VInt32 w \<Rightarrow> format_int (sint w) | VInt64 w \<Rightarrow> format_int (sint w)
      | VUint8 w \<Rightarrow> itoa (unat w) | VUint16 w \<Rightarrow> itoa (unat w)
      | VUint32 w \<Rightarrow> itoa (unat w) | VUint64 w \<Rightarrow> itoa (unat w)
      | VFloat32 w \<Rightarrow> formatFloat ft Float32 (unat w)
      | VFloat64 w \<Rightarrow> formatFloat ft Float64 (unat w))"

section \<open>Fill values survive metadata\<close>

text \<open>What is relied on of the texts of floats: a finite one is read back, and is plain.\<close>

definition finite_bits :: "dtype \<Rightarrow> nat \<Rightarrow> bool" where
  "finite_bits d u \<longleftrightarrow> u mod 2 ^ (bits_of_type d - 1) < inf_bits d"

definition float_text_ok :: "float_text \<Rightarrow> bool" where
  "float_text_ok ft \<longleftrightarrow>
     (\<forall>d \<in> {Float32, Float64}. \<forall>u < 2 ^ bits_of_type d. finite_bits d u \<longrightarrow>
        (let w = write_float ft (bits_of_type d) u
         in read_float ft (bits_of_type d) w = Some u \<and> w \<noteq> [] \<and>
            (\<forall>c \<in> set w. is_digit c \<or> c \<in> {CHR ''-'', CHR ''+'', CHR ''.'', CHR ''e''})))"

lemma trim_plain: "(\<forall>c \<in> set s. \<not> go_space c) \<Longrightarrow> trimSpace s = s"
proof -
  have d: "dropWhile go_space t = t" if "\<forall>c \<in> set t. \<not> go_space c" for t using that by (cases t) auto
  assume "\<forall>c \<in> set s. \<not> go_space c"
  then show ?thesis by (simp add: trimSpace_def d)
qed

lemma digit_no_space: "is_digit c \<Longrightarrow> \<not> go_space c"
  by (auto simp: is_digit_def go_space_def)

lemma word_of_sint_mod: "(of_nat (nat (sint (w :: 'a::len word) mod 2 ^ LENGTH('a))) :: 'a word) = w"
proof -
  have "(of_nat (nat (sint w mod 2 ^ LENGTH('a))) :: 'a word) = of_int (sint w mod 2 ^ LENGTH('a))" by simp
  also have "\<dots> = of_int (sint w)" by (simp add: word_of_int_eq_iff take_bit_eq_mod del: of_int_sint)
  finally show ?thesis by simp
qed

lemma parse_format_int:
  assumes "- (2 ^ (bits - 1)) \<le> x" "x < 2 ^ (bits - 1)"
  shows "parse_int bits (format_int x) = Some x"
proof (cases "x < 0")
  case True
  then show ?thesis using assms itoa_digits [of "nat (- x)"]
    by (simp add: parse_int_def format_int_def Let_def digits_only_def itoa_not_Nil atoi_itoa)
next
  case False
  have "itoa (nat x) \<noteq> [] \<and> (\<forall>c \<in> set (itoa (nat x)). is_digit c)" using itoa_digits itoa_not_Nil by blast
  then have "is_digit (hd (itoa (nat x)))" by simp
  then have "hd (itoa (nat x)) \<noteq> CHR ''-''" "hd (itoa (nat x)) \<noteq> CHR ''+''" using digit_not by blast+
  then show ?thesis using assms False itoa_digits [of "nat x"]
    by (simp add: parse_int_def format_int_def Let_def digits_only_def itoa_not_Nil atoi_itoa)
qed

lemma parse_itoa: "n < 2 ^ bits \<Longrightarrow> parse_uint bits (itoa n) = Some n"
  by (simp add: parse_uint_def itoa_not_Nil itoa_digits digits_only_def atoi_itoa)

lemma itoa_text: "trimSpace (itoa n) = itoa n" "itoa n \<noteq> null"
proof -
  show "trimSpace (itoa n) = itoa n" using itoa_digits digit_no_space by (intro trim_plain) blast
  show "itoa n \<noteq> null"
  proof
    assume "itoa n = null"
    then have "is_digit CHR ''n''" using itoa_digits [of n] by simp
    then show False by (simp add: is_digit_def)
  qed
qed

lemma format_int_text: "trimSpace (format_int x) = format_int x" "format_int x \<noteq> null" "format_int x \<noteq> []"
proof -
  have "\<forall>c \<in> set (format_int x). \<not> go_space c"
    using itoa_digits digit_no_space by (auto simp: format_int_def go_space_def)
  then show "trimSpace (format_int x) = format_int x" by (rule trim_plain)
  show "format_int x \<noteq> null" using itoa_text(2) by (auto simp: format_int_def)
  show "format_int x \<noteq> []" by (simp add: format_int_def itoa_not_Nil)
qed

lemma parse_format_signed:
  assumes "is_signed d" "fits_int d x"
  shows "parseFill ft d (format_int x) = Inr (set_int d x)"
  using assms format_int_text parse_format_int [of "bits_of_type d" x]
  by (auto simp: parseFill_def fits_int_def is_signed_def is_float_def)

lemma parse_format_unsigned:
  assumes "d \<in> {Uint8, Uint16, Uint32, Uint64}" "n < 2 ^ bits_of_type d"
  shows "parseFill ft d (itoa n) = Inr (set_int d (int n))"
  using assms itoa_text itoa_not_Nil parse_itoa [of n "bits_of_type d"]
  by (auto simp: parseFill_def is_signed_def is_float_def)

lemma quoted_texts:
  "trimSpace ([quote] @ ''NaN'' @ [quote]) = [quote] @ ''NaN'' @ [quote]"
  "trimSpace ([quote] @ ''Infinity'' @ [quote]) = [quote] @ ''Infinity'' @ [quote]"
  "trimSpace ([quote] @ ''-Infinity'' @ [quote]) = [quote] @ ''-Infinity'' @ [quote]"
  "unmarshal decode_string [] ([quote] @ ''NaN'' @ [quote]) = Some ''NaN''"
  "unmarshal decode_string [] ([quote] @ ''Infinity'' @ [quote]) = Some ''Infinity''"
  "unmarshal decode_string [] ([quote] @ ''-Infinity'' @ [quote]) = Some ''-Infinity''"
  by code_simp+

lemma nan_bits_nan: "d \<in> {Float32, Float64} \<Longrightarrow> is_nan (of_bits d (nan_bits d))"
  by (auto simp: nan_bits_def is_nan_def go_eq_def isNaN32_def isNaN64_def)

lemma finite_or_special:
  assumes "d \<in> {Float32, Float64}" "u < 2 ^ bits_of_type d" "\<not> is_nan (of_bits d u)"
    and "u \<noteq> inf_bits d" "u \<noteq> 2 ^ (bits_of_type d - 1) + inf_bits d"
  shows "finite_bits d u"
proof -
  have le: "u mod 2 ^ (bits_of_type d - 1) \<le> inf_bits d"
  proof (cases "d = Float32")
    case True
    then have u: "u < 2 ^ 32" using assms(2) by (simp add: bits_of_type_def)
    have m: "(0x7FFFFFFF :: 32 word) = mask 31" by (simp add: mask_eq_exp_minus_1)
    have "\<not> isNaN32 (of_nat u)" using assms(3) True by (auto simp: is_nan_def go_eq_def)
    then have "unat (take_bit 31 (of_nat u :: 32 word)) \<le> unat (0x7F800000 :: 32 word)"
      unfolding isNaN32_def m take_bit_eq_mask [symmetric] by (simp add: word_le_nat_alt word_less_nat_alt not_less)
    then have "take_bit 31 u \<le> 0x7F800000" using u by (simp add: unsigned_take_bit_eq unat_of_nat take_bit_take_bit take_bit_nat_eq_self)
    then show ?thesis using True by (simp add: take_bit_eq_mod inf_bits_def bits_of_type_def)
  next
    case False
    then have d: "d = Float64" using assms(1) by simp
    then have u: "u < 2 ^ 64" using assms(2) by (simp add: bits_of_type_def)
    have m: "(0x7FFFFFFFFFFFFFFF :: 64 word) = mask 63" by (simp add: mask_eq_exp_minus_1)
    have "\<not> isNaN64 (of_nat u)" using assms(3) d by (auto simp: is_nan_def go_eq_def)
    then have "unat (take_bit 63 (of_nat u :: 64 word)) \<le> unat (0x7FF0000000000000 :: 64 word)"
      unfolding isNaN64_def m take_bit_eq_mask [symmetric] by (simp add: word_le_nat_alt word_less_nat_alt not_less)
    then have "take_bit 63 u \<le> 0x7FF0000000000000" using u by (simp add: unsigned_take_bit_eq unat_of_nat take_bit_take_bit take_bit_nat_eq_self)
    then show ?thesis using d by (simp add: take_bit_eq_mod inf_bits_def bits_of_type_def)
  qed
  have "u mod 2 ^ (bits_of_type d - 1) \<noteq> inf_bits d"
  proof
    assume e: "u mod 2 ^ (bits_of_type d - 1) = inf_bits d"
    have "u div 2 ^ (bits_of_type d - 1) \<in> {0, 1}" using assms(1,2) by (auto simp: bits_of_type_def)
    then have "u = inf_bits d \<or> u = 2 ^ (bits_of_type d - 1) + inf_bits d"
      using div_mult_mod_eq [of u "2 ^ (bits_of_type d - 1)"] e by auto
    with assms(4,5) show False by blast
  qed
  with le show ?thesis by (simp add: finite_bits_def)
qed

lemma parse_format_float:
  assumes ft: "float_text_ok ft" and d: "d \<in> {Float32, Float64}" and u: "u < 2 ^ bits_of_type d"
  shows "\<exists>v. parseFill ft d (formatFloat ft d u) = Inr v \<and> veq (of_bits d u) v"
proof -
  have k: "known d" "d \<noteq> Bool" "is_float d" using d by (auto simp: is_float_def)
  have p: "parseFill ft d w = parse_float_fill ft d w" if "trimSpace w = w" "w \<noteq> []" "w \<noteq> null" for w
    using that k by (simp add: parseFill_def)
  consider (nan) "is_nan (of_bits d u)" | (inf) "\<not> is_nan (of_bits d u)" "u = inf_bits d"
    | (ninf) "\<not> is_nan (of_bits d u)" "u \<noteq> inf_bits d" "u = 2 ^ (bits_of_type d - 1) + inf_bits d"
    | (finite) "\<not> is_nan (of_bits d u)" "u \<noteq> inf_bits d" "u \<noteq> 2 ^ (bits_of_type d - 1) + inf_bits d" by blast
  then show ?thesis
  proof cases
    case nan
    have "parseFill ft d ([quote] @ ''NaN'' @ [quote]) = Inr (of_bits d (nan_bits d))"
      by (subst p [OF quoted_texts(1)], simp, simp, unfold parse_float_fill_def quoted_texts) simp
    moreover have "veq (of_bits d u) (of_bits d (nan_bits d))"
      using nan nan_bits_nan [OF d] type_of_bits [OF k(1)] by (simp add: veq_def)
    ultimately show ?thesis using nan by (auto simp: formatFloat_def)
  next
    case inf
    have "parseFill ft d ([quote] @ ''Infinity'' @ [quote]) = Inr (of_bits d (inf_bits d))"
      by (subst p [OF quoted_texts(2)], simp, simp, unfold parse_float_fill_def quoted_texts) simp
    then show ?thesis using inf by (auto simp: formatFloat_def)
  next
    case ninf
    have "parseFill ft d ([quote] @ ''-Infinity'' @ [quote]) = Inr (of_bits d (2 ^ (bits_of_type d - 1) + inf_bits d))"
      by (subst p [OF quoted_texts(3)], simp, simp, unfold parse_float_fill_def quoted_texts) simp
    then show ?thesis using ninf by (auto simp: formatFloat_def)
  next
    case finite
    let ?w = "write_float ft (bits_of_type d) u"
    have "finite_bits d u" by (rule finite_or_special [OF d u finite])
    then have w: "read_float ft (bits_of_type d) ?w = Some u" "?w \<noteq> []"
      "\<And>c. c \<in> set ?w \<Longrightarrow> is_digit c \<or> c \<in> {CHR ''-'', CHR ''+'', CHR ''.'', CHR ''e''}"
      using ft d u unfolding float_text_ok_def Let_def by blast+
    have "\<not> go_space c" if "c \<in> set ?w" for c using w(3) [OF that] digit_no_space by (auto simp: go_space_def)
    then have t: "trimSpace ?w = ?w" by (intro trim_plain) blast
    have n: "?w \<noteq> null"
    proof
      assume "?w = null"
      then have "CHR ''n'' \<in> set ?w" by simp
      from w(3) [OF this] show False by (auto simp: is_digit_def)
    qed
    have "hd ?w \<noteq> quote"
    proof
      assume "hd ?w = quote"
      then have "quote \<in> set ?w" using w(2) by (metis hd_in_set)
      from w(3) [OF this] show False by (auto simp: is_digit_def)
    qed
    then have "parseFill ft d ?w = Inr (of_bits d u)" using p [OF t w(2) n] w(1) by (simp add: parse_float_fill_def)
    then show ?thesis using finite by (auto simp: formatFloat_def)
  qed
qed

lemma set_int_bits: "known d \<Longrightarrow> n < 2 ^ bits_of_type d \<Longrightarrow> set_int d (int n) = of_bits d n"
  by (simp add: set_int_def zmod_int [symmetric] nat_mod_distrib)

lemma parse_format_fill:
  assumes "float_text_ok ft"
  shows "\<exists>v'. parseFill ft (type_of v) (formatFill ft v) = Inr v' \<and> veq v v'"
proof -
  have s: "is_signed d \<Longrightarrow> fits_int d x \<Longrightarrow> set_int d x = v \<Longrightarrow> \<exists>v'. parseFill ft d (format_int x) = Inr v' \<and> veq v v'" for d x v
    using parse_format_signed [of d x ft] by simp
  have u: "d \<in> {Uint8, Uint16, Uint32, Uint64} \<Longrightarrow> n < 2 ^ bits_of_type d \<Longrightarrow> of_bits d n = v \<Longrightarrow>
      \<exists>v'. parseFill ft d (itoa n) = Inr v' \<and> veq v v'" for d n v
    using parse_format_unsigned [of d n ft] set_int_bits [of d n] by auto
  note fl = parse_format_float [OF assms]
  show ?thesis
  proof (cases v)
    case (VBool b)
    have "parseFill ft Bool ''true'' = Inr (VBool True)" "parseFill ft Bool ''false'' = Inr (VBool False)"
      by code_simp+
    then show ?thesis by (simp add: VBool formatFill_def)
  next
    case (VInt8 w)
    show ?thesis unfolding VInt8 formatFill_def type_of.simps elem.case
      by (rule s) (use sint_ge [of w] sint_lt [of w] word_of_sint_mod [of w] in \<open>simp_all add: is_signed_def fits_int_def bits_of_type_def set_int_def\<close>)
  next
    case (VInt16 w)
    show ?thesis unfolding VInt16 formatFill_def type_of.simps elem.case
      by (rule s) (use sint_ge [of w] sint_lt [of w] word_of_sint_mod [of w] in \<open>simp_all add: is_signed_def fits_int_def bits_of_type_def set_int_def\<close>)
  next
    case (VInt32 w)
    show ?thesis unfolding VInt32 formatFill_def type_of.simps elem.case
      by (rule s) (use sint_ge [of w] sint_lt [of w] word_of_sint_mod [of w] in \<open>simp_all add: is_signed_def fits_int_def bits_of_type_def set_int_def\<close>)
  next
    case (VInt64 w)
    show ?thesis unfolding VInt64 formatFill_def type_of.simps elem.case
      by (rule s) (use sint_ge [of w] sint_lt [of w] word_of_sint_mod [of w] in \<open>simp_all add: is_signed_def fits_int_def bits_of_type_def set_int_def\<close>)
  next
    case (VUint8 w)
    show ?thesis unfolding VUint8 formatFill_def type_of.simps elem.case
      by (rule u) (use unsigned_less [of w] in \<open>simp_all add: bits_of_type_def\<close>)
  next
    case (VUint16 w)
    show ?thesis unfolding VUint16 formatFill_def type_of.simps elem.case
      by (rule u) (use unsigned_less [of w] in \<open>simp_all add: bits_of_type_def\<close>)
  next
    case (VUint32 w)
    show ?thesis unfolding VUint32 formatFill_def type_of.simps elem.case
      by (rule u) (use unsigned_less [of w] in \<open>simp_all add: bits_of_type_def\<close>)
  next
    case (VUint64 w)
    show ?thesis unfolding VUint64 formatFill_def type_of.simps elem.case
      by (rule u) (use unsigned_less [of w] in \<open>simp_all add: bits_of_type_def\<close>)
  next
    case (VFloat32 w)
    then show ?thesis using fl [of Float32 "unat w"] unsigned_less [of w] by (simp add: formatFill_def bits_of_type_def)
  next
    case (VFloat64 w)
    then show ?thesis using fl [of Float64 "unat w"] unsigned_less [of w] by (simp add: formatFill_def bits_of_type_def)
  qed
qed

section \<open>Types of fill values\<close>

lemma set_int_type: "known d \<Longrightarrow> type_of (set_int d x) = d"
  by (simp add: set_int_def type_of_bits)

lemma set_float_type: "is_float d \<Longrightarrow> type_of (set_float d w) = d"
  by (auto simp: set_float_def is_float_def)

lemma fillFrom_type: "fillFrom d v = Inr x \<Longrightarrow> type_of x = d"
  by (auto simp: fillFrom_def set_int_type set_float_type split: if_splits go_value.splits option.splits)

lemma parseFill_type: "parseFill ft d raw = Inr x \<Longrightarrow> type_of x = d"
  by (auto simp: parseFill_def parse_float_fill_def Let_def set_int_type type_of_bits split: if_splits option.splits)

end
