(* ===== verification/Configs.thy ===== *)
theory Configs
  imports Agree Fills Pipelines
begin

text \<open>
  Codecs from their names and configurations in metadata (\<open>parseCodec\<close>, \<open>newPipeline\<close> and the parsers
  of \<open>src/codec.go\<close>, \<open>src/shard.go\<close> and \<open>src/shuffle.go\<close>).

  The parsers that a program registers are a parameter; the built-in ones are those of \<open>init\<close>, where none
  is registered in their place. A pipeline is kept as the list of codecs it is made of. The parser of
  the sharding codec calls \<open>parseCodec\<close> for the codecs within it, whose configurations are parts of its
  own text; the test of the lengths, for which the code has no counterpart, is shown never to fail.
\<close>

section \<open>The parsers\<close>

type_synonym registry = "string \<Rightarrow> (string \<Rightarrow> dtype \<Rightarrow> codec res) option"

definition RegisterCodec :: "string \<Rightarrow> (string \<Rightarrow> dtype \<Rightarrow> codec res) \<Rightarrow> registry \<Rightarrow> registry" where
  "RegisterCodec name parse reg = reg(name \<mapsto> parse)"

abbreviation config_error :: "'a res" where
  "config_error \<equiv> Inl (ErrOther ''codec configuration'')"

definition endian_field :: "string \<Rightarrow> string reader" where
  "endian_field _ = field_string"

definition decode_endian :: "string reader" where
  "decode_endian = decode_struct [''endian''] (\<lambda>_. decode_string)"

definition parseBytes :: "string \<Rightarrow> dtype \<Rightarrow> codec res" where
  "parseBytes cfg d =
     rbind
       (if cfg = [] then Inr []
        else
          (case decodeObject [''endian''] endian_field [] cfg of
             Some e \<Rightarrow> Inr e
           | None \<Rightarrow> (case unmarshal decode_endian [] cfg of Some e \<Rightarrow> Inr e | None \<Rightarrow> config_error)))
       (\<lambda>e. rbind (bytes_order e d) (\<lambda>_. Inr (BytesCodec e)))"

text \<open>A pointer to an \<open>int\<close> under a name: \<open>nil\<close> if there is none.\<close>

definition decode_one_int :: "string \<Rightarrow> int option reader" where
  "decode_one_int name = decode_struct [name] (\<lambda>_. decode_pointer 0 decode_int)"

definition parseGzip :: "string \<Rightarrow> dtype \<Rightarrow> codec res" where
  "parseGzip cfg d =
     (case unmarshal (decode_one_int ''level'') None cfg of
        Some (Some n) \<Rightarrow> if n < 0 \<or> n > 9 then config_error else Inr (GzipCodec n)
      | _ \<Rightarrow> config_error)"

definition parseZlib :: "string \<Rightarrow> dtype \<Rightarrow> codec res" where
  "parseZlib cfg d =
     (case unmarshal (decode_one_int ''level'') None cfg of
        Some (Some n) \<Rightarrow> if n < 0 \<or> n > 9 then config_error else Inr (ZlibCodec n)
      | _ \<Rightarrow> config_error)"

definition parseShuffle :: "string \<Rightarrow> dtype \<Rightarrow> codec res" where
  "parseShuffle cfg d =
     (case unmarshal (decode_one_int ''elementsize'') None cfg of
        Some (Some n) \<Rightarrow> if n < 0 then config_error else Inr (ShuffleCodec n)
      | _ \<Rightarrow> config_error)"

text \<open>\<open>shardingJSON\<close>: a list that is there is not \<open>nil\<close>.\<close>

record sharding_json =
  sChunk :: "int list option"
  sCodecs :: "named list option"
  sIndex :: "named list option"
  sLocation :: string

definition zero_sharding :: sharding_json where
  "zero_sharding = \<lparr>sChunk = None, sCodecs = None, sIndex = None, sLocation = []\<rparr>"

definition shardingKeys :: "string list" where
  "shardingKeys = [''chunk_shape'', ''codecs'', ''index_codecs'', ''index_location'']"

definition sharding_field :: "string \<Rightarrow> sharding_json reader" where
  "sharding_field f j raw =
     (if f = ''chunk_shape'' then map_option (\<lambda>v. j\<lparr>sChunk := v\<rparr>) (field_ints (sChunk j) raw)
      else if f = ''codecs'' then map_option (\<lambda>v. j\<lparr>sCodecs := v\<rparr>) (field_nameds (sCodecs j) raw)
      else if f = ''index_codecs'' then map_option (\<lambda>v. j\<lparr>sIndex := v\<rparr>) (field_nameds (sIndex j) raw)
      else map_option (\<lambda>v. j\<lparr>sLocation := v\<rparr>) (field_string (sLocation j) raw))"

definition sharding_slow :: "string \<Rightarrow> sharding_json reader" where
  "sharding_slow f j raw =
     (if f = ''chunk_shape'' then map_option (\<lambda>v. j\<lparr>sChunk := v\<rparr>) (decode_slice 0 decode_int (sChunk j) raw)
      else if f = ''codecs'' then map_option (\<lambda>v. j\<lparr>sCodecs := v\<rparr>) (decode_slice zero_named decode_named (sCodecs j) raw)
      else if f = ''index_codecs'' then map_option (\<lambda>v. j\<lparr>sIndex := v\<rparr>) (decode_slice zero_named decode_named (sIndex j) raw)
      else map_option (\<lambda>v. j\<lparr>sLocation := v\<rparr>) (decode_string (sLocation j) raw))"

definition sharding_config :: "string \<Rightarrow> sharding_json option" where
  "sharding_config cfg =
     (case decodeObject shardingKeys sharding_field zero_sharding cfg of
        Some j \<Rightarrow> Some j
      | None \<Rightarrow> unmarshal (decode_struct shardingKeys sharding_slow) zero_sharding cfg)"

text \<open>\<open>newPipeline\<close>, for a way of parsing one codec.\<close>

definition newPipeline ::
    "env \<Rightarrow> (named \<Rightarrow> dtype \<Rightarrow> codec res) \<Rightarrow> named list \<Rightarrow> dtype \<Rightarrow> codec list res" where
  "newPipeline env parse names d =
     rbind (rmap (\<lambda>n. parse n d) names) (\<lambda>cs. rbind (codec_pipeline env cs) (\<lambda>_. Inr cs))"

definition parseSharding ::
    "env \<Rightarrow> (named \<Rightarrow> dtype \<Rightarrow> codec res) \<Rightarrow> string \<Rightarrow> dtype \<Rightarrow> codec res" where
  "parseSharding env parse cfg d =
     (case sharding_config cfg of
        None \<Rightarrow> config_error
      | Some j \<Rightarrow>
          (case (sChunk j, sCodecs j, sIndex j) of
             (Some ch, Some ns, Some xs) \<Rightarrow>
               rbind (newPipeline env parse ns d) (\<lambda>inner.
               rbind (newPipeline env parse xs Uint64) (\<lambda>index.
               rbind (prepare ch (sLocation j) (map (codec_iface env) inner) (map (codec_iface env) index)) (\<lambda>_.
                 Inr (ShardingCodec ch (Some inner) (Some index) (sLocation j)))))
           | _ \<Rightarrow> config_error))"

function (sequential) parseCodec :: "env \<Rightarrow> registry \<Rightarrow> named \<Rightarrow> dtype \<Rightarrow> codec res" where
  "parseCodec env reg n d =
     (case reg (nName n) of
        Some parse \<Rightarrow> parse (nConfig n) d
      | None \<Rightarrow>
          if nName n = ''bytes'' then parseBytes (nConfig n) d
          else if nName n = ''gzip'' \<or> nName n = ''numcodecs.gzip'' then parseGzip (nConfig n) d
          else if nName n = ''sharding_indexed'' then
            parseSharding env
              (\<lambda>m d'. if length (nConfig m) < length (nConfig n) then parseCodec env reg m d' else Inl Panic) (nConfig n) d
          else if nName n = ''crc32c'' then Inr CRC32CCodec
          else if nName n = ''numcodecs.shuffle'' then parseShuffle (nConfig n) d
          else if nName n = ''numcodecs.zlib'' then parseZlib (nConfig n) d
          else Inl ErrUnsupported)"
  by pat_completeness auto
termination by (relation "measure (\<lambda>(env, reg, n, d). length (nConfig n))") auto

declare parseCodec.simps [simp del]

section \<open>The codecs within a shard are parts of its text\<close>

abbreviation shorter :: "nat \<Rightarrow> named \<Rightarrow> bool" where
  "shorter N n \<equiv> length (nConfig n) < N"

lemma raw_members_short: "raw_members raw = Some kvs \<Longrightarrow> (k, v) \<in> set kvs \<Longrightarrow> length v < length raw"
proof -
  assume a: "raw_members raw = Some kvs" "(k, v) \<in> set kvs"
  then obtain t where "members go_depth 1 (collect_member go_depth 1) [] raw = Some (kvs, t)" by (auto simp: raw_members_def)
  then have "\<forall>(k, v) \<in> set kvs. length v < length raw"
    by (rule members_keeps) (use le_less_trans [OF upto_rest_length] in \<open>auto simp: collect_member_def\<close>)
  with a(2) show ?thesis by blast
qed

lemma raw_items_short: "raw_items raw = Some vs \<Longrightarrow> v \<in> set vs \<Longrightarrow> length v < length raw"
proof -
  assume a: "raw_items raw = Some vs" "v \<in> set vs"
  then obtain t where "items go_depth 1 (collect_item go_depth 1) [] raw = Some (vs, t)" by (auto simp: raw_items_def)
  then have "\<forall>v \<in> set vs. length v < length raw"
    by (rule items_keeps) (use le_less_trans [OF upto_rest_length] in \<open>auto simp: collect_item_def\<close>)
  with a(2) show ?thesis by blast
qed

lemma ofold_keeps: "ofold f xs a = Some b \<Longrightarrow> P a \<Longrightarrow> (\<And>x a b. x \<in> set xs \<Longrightarrow> f x a = Some b \<Longrightarrow> P a \<Longrightarrow> P b) \<Longrightarrow> P b"
proof (induction xs arbitrary: a)
  case (Cons x xs)
  from Cons.prems(1) obtain c where c: "f x a = Some c" "ofold f xs c = Some b" by (auto simp: bind_eq_Some_conv)
  have "P c" by (rule Cons.prems(3) [OF _ c(1) Cons.prems(2)]) simp
  then show ?case by (rule Cons.IH [OF c(2)]) (rule Cons.prems(3), simp_all)
qed simp

lemma decode_struct_keeps:
  assumes "decode_struct names field m raw = Some m'" "P m"
    and "\<And>f m v m'. field f m v = Some m' \<Longrightarrow> length v < length raw \<Longrightarrow> P m \<Longrightarrow> P m'"
  shows "P m'"
proof (cases "raw = null")
  case False
  then obtain kvs where kvs: "raw_members raw = Some kvs"
    "ofold (\<lambda>(k, v) m. case find_field names (unquote k) of None \<Rightarrow> Some m | Some f \<Rightarrow> field f m v) kvs m = Some m'"
    using assms(1) by (auto simp: decode_struct_def bind_eq_Some_conv)
  from kvs(2) assms(2) show ?thesis
  proof (rule ofold_keeps)
    fix x a b assume "x \<in> set kvs"
      "(case x of (k, v) \<Rightarrow> \<lambda>m. case find_field names (unquote k) of None \<Rightarrow> Some m | Some f \<Rightarrow> field f m v) a = Some b" "P a"
    moreover obtain k v where x: "x = (k, v)" by (cases x)
    ultimately show "P b" using raw_members_short [OF kvs(1), of k v] assms(3) [of _ a v b] by (auto split: option.splits)
  qed
qed (use assms in \<open>simp add: decode_struct_def\<close>)

lemma unmarshal_keeps:
  assumes "unmarshal dec old b = Some x" "\<And>raw. length raw \<le> length b \<Longrightarrow> dec old raw = Some x \<Longrightarrow> Q"
  shows Q
proof -
  obtain t where "dec old (upto_rest (skipSpace b) t) = Some x" using assms(1) by (auto simp: unmarshal_def split: option.splits if_splits)
  moreover have "length (upto_rest (skipSpace b) t) \<le> length b" using upto_rest_length skipSpace_length by (rule le_trans)
  ultimately show Q using assms(2) by blast
qed

lemma named_decode_short: "named_decode b = Some n \<Longrightarrow> length (nConfig n) \<le> length b"
proof -
  assume d: "named_decode b = Some n"
  let ?s = "skipSpace b"
  show ?thesis
  proof (cases "?s \<noteq> [] \<and> hd ?s = quote")
    case True
    with d have "nConfig n = []" by (auto simp: named_decode_def Let_def zero_named_def split: option.splits if_splits)
    then show ?thesis by simp
  next
    case False
    with d obtain st t where st: "members maxDepth 1 named_member
        \<lparr>has_name = False, has_cfg = False, has_must = False, so_far = zero_named\<rparr> ?s = Some (st, t)" "n = so_far st"
      by (auto simp: named_decode_def Let_def split: option.splits if_splits)
    from st(1) have "length (nConfig (so_far st)) \<le> length ?s"
    proof (rule members_keeps)
      fix a k u c t assume "named_member a k u = Some (c, t)" "length u < length ?s" "length (nConfig (so_far a)) \<le> length ?s"
      then show "length (nConfig (so_far c)) \<le> length ?s"
        using upto_rest_length [of u t] by (auto simp: named_member_def Let_def split: option.splits if_splits)
    qed (simp add: zero_named_def)
    then show ?thesis using skipSpace_length [of b] st(2) by simp
  qed
qed

lemma trimSpace_length: "length (trimSpace b) \<le> length b"
  unfolding trimSpace_def using length_dropWhile_le [of go_space b] length_dropWhile_le [of go_space "rev (dropWhile go_space b)"] by simp

lemma named_unmarshal_short: "named_unmarshal b = Some n \<Longrightarrow> length (nConfig n) \<le> length b"
proof (cases "named_decode b")
  case None
  assume "named_unmarshal b = Some n"
  then consider (str) "nConfig n = []" | (obj) "unmarshal decode_namedJSON zero_named (trimSpace b) = Some n"
    using None by (auto simp: named_unmarshal_def Let_def zero_named_def split: if_splits)
  then show ?thesis
  proof cases
    case obj
    then show ?thesis
    proof (rule unmarshal_keeps)
      fix raw assume r: "length raw \<le> length (trimSpace b)" "decode_namedJSON zero_named raw = Some n"
      from r(2) have "length (nConfig n) \<le> length raw"
        unfolding decode_namedJSON_def
        by (rule decode_struct_keeps) (auto simp: zero_named_def named_field_def decode_raw_def split: if_splits)
      then show ?thesis using r(1) trimSpace_length [of b] by simp
    qed
  qed simp
qed (simp add: named_unmarshal_def named_decode_short)

lemma omap_all: "omap f xs = Some ys \<Longrightarrow> y \<in> set ys \<Longrightarrow> \<exists>x \<in> set xs. f x = Some y"
  by (induction xs arbitrary: ys) (auto simp: bind_eq_Some_conv)

lemma nameds_short:
  assumes "decode_slice zero_named decode_named old raw = Some v" "n \<in> set (listed v)"
  shows "shorter (length raw) n"
proof -
  obtain vs ns where vs: "raw_items raw = Some vs" "omap (decode_named zero_named) vs = Some ns" "n \<in> set ns"
    using assms by (auto simp: decode_slice_def bind_eq_Some_conv split: if_splits)
  from omap_all [OF vs(2,3)] obtain x where "x \<in> set vs" "named_unmarshal x = Some n" by (auto simp: decode_named_def)
  then show ?thesis using raw_items_short [OF vs(1)] named_unmarshal_short le_less_trans by blast
qed

lemma field_nameds_short:
  assumes "field_nameds old raw = Some v" "n \<in> set (listed v)"
  shows "shorter (length raw) n"
proof (cases "items maxDepth 1 named_item [] raw")
  case None
  then have "unmarshal (decode_slice zero_named decode_named) old raw = Some v" using assms(1) by (simp add: field_nameds_def)
  then show ?thesis by (rule unmarshal_keeps) (use nameds_short [OF _ assms(2)] less_le_trans in blast)
next
  case (Some r)
  then obtain ns t where r: "items maxDepth 1 named_item [] raw = Some (ns, t)" "v = Some ns"
    using assms(1) by (cases r) (auto simp: field_nameds_def)
  from r(1) have "\<forall>n \<in> set ns. shorter (length raw) n"
  proof (rule items_keeps)
    fix a u b t assume u: "named_item a u = Some (b, t)" "length u < length raw" and a: "\<forall>n \<in> set a. shorter (length raw) n"
    then obtain n where n: "b = a @ [n]" "named_decode (upto_rest u t) = Some n" by (auto simp: named_item_def split: option.splits)
    have "length (nConfig n) < length raw"
      using named_decode_short [OF n(2)] upto_rest_length [of u t] u(2) by simp
    with a n(1) show "\<forall>n \<in> set b. shorter (length raw) n" by auto
  qed simp
  with r(2) assms(2) show ?thesis by simp
qed

definition parts_shorter :: "nat \<Rightarrow> sharding_json \<Rightarrow> bool" where
  "parts_shorter N j \<longleftrightarrow> (\<forall>n \<in> set (listed (sCodecs j)) \<union> set (listed (sIndex j)). shorter N n)"

lemma sharding_slow_keeps: "sharding_slow f j v = Some j' \<Longrightarrow> length v < N \<Longrightarrow> parts_shorter N j \<Longrightarrow> parts_shorter N j'"
  using nameds_short less_trans by (fastforce simp: sharding_slow_def parts_shorter_def split: if_splits)

lemma sharding_field_keeps: "sharding_field f j v = Some j' \<Longrightarrow> length v < N \<Longrightarrow> parts_shorter N j \<Longrightarrow> parts_shorter N j'"
  using field_nameds_short less_trans by (fastforce simp: sharding_field_def parts_shorter_def split: if_splits)

lemma sharding_config_short: "sharding_config cfg = Some j \<Longrightarrow> parts_shorter (length cfg) j"
proof (cases "decodeObject shardingKeys sharding_field zero_sharding cfg")
  case None
  assume "sharding_config cfg = Some j"
  then have "unmarshal (decode_struct shardingKeys sharding_slow) zero_sharding cfg = Some j" using None by (simp add: sharding_config_def)
  then show ?thesis
  proof (rule unmarshal_keeps)
    fix raw assume r: "length raw \<le> length cfg" "decode_struct shardingKeys sharding_slow zero_sharding raw = Some j"
    from r(2) show "parts_shorter (length cfg) j"
    proof (rule decode_struct_keeps)
      show "parts_shorter (length cfg) zero_sharding" by (simp add: parts_shorter_def zero_sharding_def)
      fix f m v m' assume "sharding_slow f m v = Some m'" "length v < length raw" "parts_shorter (length cfg) m"
      then show "parts_shorter (length cfg) m'" using sharding_slow_keeps r(1) less_le_trans by blast
    qed
  qed
next
  case (Some k)
  assume "sharding_config cfg = Some j"
  with Some obtain st t where st: "members maxDepth 1 (object_member shardingKeys sharding_field) ([], zero_sharding) (skipSpace cfg) = Some (st, t)"
    "j = snd st" by (auto simp: sharding_config_def decodeObject_def split: option.splits if_splits)
  from st(1) have "parts_shorter (length cfg) (snd st)"
  proof (rule members_keeps)
    fix a k u b t assume h: "object_member shardingKeys sharding_field a k u = Some (b, t)" "length u < length (skipSpace cfg)"
      "parts_shorter (length cfg) (snd a)"
    have "length (upto_rest u t) < length cfg" using h(2) upto_rest_length [of u t] skipSpace_length [of cfg] by simp
    then show "parts_shorter (length cfg) (snd b)"
      using h(1,3) sharding_field_keeps by (auto simp: object_member_def split: option.splits if_splits)
  qed (simp add: parts_shorter_def zero_sharding_def)
  with st(2) show ?thesis by simp
qed

lemma newPipeline_cong: "(\<And>n. n \<in> set ns \<Longrightarrow> p n d = q n d) \<Longrightarrow> newPipeline env p ns d = newPipeline env q ns d"
proof -
  assume "\<And>n. n \<in> set ns \<Longrightarrow> p n d = q n d"
  then have "rmap (\<lambda>n. p n d) ns = rmap (\<lambda>n. q n d) ns" by (induction ns) auto
  then show ?thesis by (simp add: newPipeline_def)
qed

text \<open>What \<open>parseCodec\<close> is, without a test of lengths.\<close>

lemma parseCodec_eq:
  "parseCodec env reg n d =
     (case reg (nName n) of
        Some parse \<Rightarrow> parse (nConfig n) d
      | None \<Rightarrow>
          if nName n = ''bytes'' then parseBytes (nConfig n) d
          else if nName n = ''gzip'' \<or> nName n = ''numcodecs.gzip'' then parseGzip (nConfig n) d
          else if nName n = ''sharding_indexed'' then parseSharding env (parseCodec env reg) (nConfig n) d
          else if nName n = ''crc32c'' then Inr CRC32CCodec
          else if nName n = ''numcodecs.shuffle'' then parseShuffle (nConfig n) d
          else if nName n = ''numcodecs.zlib'' then parseZlib (nConfig n) d
          else Inl ErrUnsupported)"
proof -
  let ?g = "\<lambda>m d'. if length (nConfig m) < length (nConfig n) then parseCodec env reg m d' else Inl Panic"
  have "parseSharding env ?g (nConfig n) d = parseSharding env (parseCodec env reg) (nConfig n) d"
  proof (cases "sharding_config (nConfig n)")
    case (Some j)
    have "newPipeline env ?g ns d' = newPipeline env (parseCodec env reg) ns d'"
      if "set ns \<subseteq> set (listed (sCodecs j)) \<union> set (listed (sIndex j))" for ns d'
      by (rule newPipeline_cong) (use sharding_config_short [OF Some] that in \<open>auto simp: parts_shorter_def\<close>)
    then show ?thesis using Some by (simp add: parseSharding_def split: option.split)
  qed (simp add: parseSharding_def)
  then show ?thesis by (subst parseCodec.simps) (simp split: option.split)
qed

end
