(* ===== verification/Prints.thy ===== *)
theory Prints
  imports Configs
begin

text \<open>
  Writing documents (\<open>writeMetadata\<close> of \<open>src/metadata.go\<close>, \<open>namedCodec\<close> of \<open>src/codec.go\<close>), with what they
  use of \<open>json.Marshal\<close> and \<open>json.MarshalIndent\<close>: strings are quoted and safe in HTML, a \<open>json.RawMessage\<close>
  is compacted, and the whole is indented afterwards.
\<close>

section \<open>Texts of values\<close>

definition hex_char :: "nat \<Rightarrow> char" where
  "hex_char n = char_of (if n < 10 then 48 + n else 87 + n)"

definition unicode_escape :: "nat \<Rightarrow> string" where
  "unicode_escape n = [backslash, CHR ''u'', hex_char (n div 4096 mod 16), hex_char (n div 256 mod 16), hex_char (n div 16 mod 16), hex_char (n mod 16)]"

definition html_char :: "char \<Rightarrow> bool" where
  "html_char c \<longleftrightarrow> c \<in> {CHR ''<'', CHR ''>'', CHR ''&''}"

definition quote_char :: "char \<Rightarrow> string" where
  "quote_char c =
     (if c = quote \<or> c = backslash then [backslash, c]
      else if c = CHR 0x08 then [backslash, CHR ''b''] else if c = CHR 0x0C then [backslash, CHR ''f'']
      else if c = CHR 0x0A then [backslash, CHR ''n''] else if c = CHR 0x0D then [backslash, CHR ''r'']
      else if c = CHR 0x09 then [backslash, CHR ''t'']
      else if code c < 32 \<or> html_char c then unicode_escape (code c)
      else [c])"

text \<open>A line separator or a paragraph separator, which JavaScript does not take in a string.\<close>

definition separator :: "string \<Rightarrow> bool" where
  "separator r \<longleftrightarrow> r = [CHR 0xE2, CHR 0x80, CHR 0xA8] \<or> r = [CHR 0xE2, CHR 0x80, CHR 0xA9]"

function (sequential) quote_body :: "string \<Rightarrow> string" where
  "quote_body [] = []"
| "quote_body (c # s) =
     (if code c < 128 then quote_char c @ quote_body s
      else
        (let n = rune_length (c # s); r = take n (c # s)
         in if n = 0 then unicode_escape 0xFFFD @ quote_body s
            else (if separator r then unicode_escape (0x2028 + code (r ! 2) - 0xA8) else r) @ quote_body (drop (n - 1) s)))"
  by pat_completeness auto
termination by (relation "measure length") auto

declare quote_body.simps [simp del]

definition marshal_string :: "string \<Rightarrow> string" where
  "marshal_string s = [quote] @ quote_body s @ [quote]"

definition marshal_list :: "('a \<Rightarrow> string) \<Rightarrow> 'a list \<Rightarrow> string" where
  "marshal_list f xs = ''['' @ str_join '','' (map f xs) @ '']''"

definition marshal_object :: "(string \<times> string) list \<Rightarrow> string" where
  "marshal_object kvs = ''{'' @ str_join '','' (map (\<lambda>(k, v). marshal_string k @ '':'' @ v) kvs) @ ''}''"

text \<open>\<open>json.Compact\<close>: a valid text without its blanks, safe in HTML. \<open>instr\<close> says that a string has begun,
  and \<open>esc\<close> that the next character is escaped.\<close>

fun compact_text :: "bool \<Rightarrow> bool \<Rightarrow> string \<Rightarrow> string" where
  "compact_text instr esc [] = []"
| "compact_text instr esc (c # s) =
     (if \<not> instr then (if is_space c then compact_text False False s else c # compact_text (c = quote) False s)
      else if esc then c # compact_text True False s
      else if c = quote then c # compact_text False False s
      else if html_char c then unicode_escape (code c) @ compact_text True False s
      else if separator (take 3 (c # s)) then unicode_escape (0x2028 + code (s ! 1) - 0xA8) @ compact_text True False (drop 2 s)
      else c # compact_text True (c = backslash) s)"

definition marshal_raw :: "string \<Rightarrow> string res" where
  "marshal_raw raw =
     (if raw = [] then Inr null
      else if valid_json go_depth 1 raw then Inr (compact_text False False raw)
      else Inl (ErrOther ''json''))"

definition marshal_named :: "named \<Rightarrow> string res" where
  "marshal_named n =
     rbind (if nConfig n = [] then Inr [] else rbind (marshal_raw (nConfig n)) (\<lambda>c. Inr [(''configuration'', c)])) (\<lambda>cfg.
       Inr (marshal_object
         ([(''name'', marshal_string (nName n))] @ cfg @
          (case nMust n of None \<Rightarrow> [] | Some b \<Rightarrow> [(''must_understand'', if b then ''true'' else ''false'')]))))"

definition marshal_named_list :: "named list \<Rightarrow> string res" where
  "marshal_named_list ns = rbind (rmap marshal_named ns) (\<lambda>ts. Inr (marshal_list (\<lambda>t. t) ts))"

text \<open>A map, in the order of its keys.\<close>

definition marshal_attrs :: "(string \<times> string) list \<Rightarrow> string res" where
  "marshal_attrs kvs =
     rbind (rmap (\<lambda>(k, v). rbind (marshal_raw v) (\<lambda>t. Inr (k, t))) (sort_key fst kvs)) (\<lambda>ts. Inr (marshal_object ts))"

section \<open>Documents\<close>

definition marshal_array :: "array_metadata \<Rightarrow> string res" where
  "marshal_array m =
     rbind (marshal_named (mGrid m)) (\<lambda>grid.
     rbind (marshal_named (mKeyEnc m)) (\<lambda>enc.
     rbind (marshal_raw (mFill m)) (\<lambda>fill.
     rbind (marshal_named_list (mCodecs m)) (\<lambda>cs.
     rbind (if mAttrs m = [] then Inr [] else rbind (marshal_attrs (mAttrs m)) (\<lambda>t. Inr [(''attributes'', t)])) (\<lambda>attrs.
     rbind (if mTransformers m = [] then Inr []
            else rbind (marshal_named_list (mTransformers m)) (\<lambda>t. Inr [(''storage_transformers'', t)])) (\<lambda>ts.
       Inr (marshal_object
         ([(''zarr_format'', format_int (mFormat m)), (''node_type'', marshal_string (mNode m)),
           (''shape'', marshal_list format_int (mShape m)), (''data_type'', marshal_string (dtype_name (mType m))),
           (''chunk_grid'', grid), (''chunk_key_encoding'', enc), (''fill_value'', fill), (''codecs'', cs)] @ attrs @ ts @
          (case mDims m of None \<Rightarrow> [] | Some [] \<Rightarrow> []
           | Some ds \<Rightarrow> [(''dimension_names'', marshal_list (case_option null marshal_string) ds)])))))))))"

definition marshal_group :: "group_metadata \<Rightarrow> string res" where
  "marshal_group m =
     rbind (if gAttrs m = [] then Inr [] else rbind (marshal_attrs (gAttrs m)) (\<lambda>t. Inr [(''attributes'', t)])) (\<lambda>attrs.
       Inr (marshal_object ([(''zarr_format'', format_int (gFormat m)), (''node_type'', marshal_string (gNode m))] @ attrs)))"

text \<open>\<open>json.Indent\<close> of a compact text, by two blanks: \<open>need\<close> says that an object or an array has just begun.\<close>

definition newline :: "nat \<Rightarrow> string" where
  "newline depth = CHR 0x0A # concat (replicate depth ''  '')"

fun indent_text :: "bool \<Rightarrow> bool \<Rightarrow> bool \<Rightarrow> nat \<Rightarrow> string \<Rightarrow> string" where
  "indent_text instr esc need depth [] = []"
| "indent_text instr esc need depth (c # s) =
     (if instr then
        (if esc then c # indent_text True False need depth s
         else if c = quote then c # indent_text False False need depth s
         else c # indent_text True (c = backslash) need depth s)
      else
        (let close = (c = CHR ''}'' \<or> c = CHR '']'');
             pre = (if need \<and> \<not> close then newline (Suc depth) else []);
             d = (if need \<and> \<not> close then Suc depth else depth)
         in if close then
              (if need then c # indent_text False False False depth s
               else newline (depth - 1) @ [c] @ indent_text False False False (depth - 1) s)
            else if c = CHR ''{'' \<or> c = CHR ''['' then pre @ [c] @ indent_text False False True d s
            else if c = CHR '','' then pre @ [c] @ newline d @ indent_text False False False d s
            else if c = CHR '':'' then pre @ '': '' @ indent_text False False False d s
            else pre @ [c] @ indent_text (c = quote) False False d s))"

definition indented :: "string \<Rightarrow> string" where
  "indented t = indent_text False False False 0 t"

definition writeMetadata :: "'s store_ops \<Rightarrow> string \<Rightarrow> string res \<Rightarrow> ('s, unit) io" where
  "writeMetadata ops path doc = io_bind (io_lift doc) (\<lambda>t. st_set ops (metadataKey path) (bytes_of (indented t)))"

section \<open>Codecs in documents\<close>

text \<open>\<open>Name\<close> and \<open>Configuration\<close>, as JSON; a codec from outside has both from a parameter.\<close>

definition json_ints :: "int list \<Rightarrow> string" where
  "json_ints = marshal_list format_int"

primrec named_codec :: "(string \<Rightarrow> named res) \<Rightarrow> codec \<Rightarrow> named res" where
  "named_codec ext (BytesCodec e) = Inr \<lparr>nName = ''bytes'', nConfig = (if e = [] then [] else marshal_object [(''endian'', marshal_string e)]), nMust = None\<rparr>"
| "named_codec ext (FortranBytes e) = Inr \<lparr>nName = ''bytes'', nConfig = (if e = [] then [] else marshal_object [(''endian'', marshal_string e)]), nMust = None\<rparr>"
| "named_codec ext (ShardingCodec cs inner index loc) =
     rbind (rmap (\<lambda>n. rbind n marshal_named)
              (case map_option (map (named_codec ext)) inner of
                 None \<Rightarrow> [Inr \<lparr>nName = ''bytes'', nConfig = marshal_object [(''endian'', marshal_string ''little'')], nMust = None\<rparr>]
               | Some ns \<Rightarrow> ns)) (\<lambda>ins.
     rbind (rmap (\<lambda>n. rbind n marshal_named)
              (case map_option (map (named_codec ext)) index of
                 None \<Rightarrow> [Inr \<lparr>nName = ''bytes'', nConfig = marshal_object [(''endian'', marshal_string ''little'')], nMust = None\<rparr>,
                          Inr \<lparr>nName = ''crc32c'', nConfig = [], nMust = None\<rparr>]
               | Some ns \<Rightarrow> ns)) (\<lambda>ixs.
       Inr \<lparr>nName = ''sharding_indexed'',
            nConfig = marshal_object
              [(''chunk_shape'', json_ints cs), (''codecs'', marshal_list (\<lambda>t. t) ins), (''index_codecs'', marshal_list (\<lambda>t. t) ixs),
               (''index_location'', marshal_string (if loc = [] then ''end'' else loc))],
            nMust = None\<rparr>))"
| "named_codec ext (GzipCodec level) = Inr \<lparr>nName = ''gzip'', nConfig = marshal_object [(''level'', format_int level)], nMust = None\<rparr>"
| "named_codec ext (ZlibCodec level) = Inr \<lparr>nName = ''numcodecs.zlib'', nConfig = marshal_object [(''level'', format_int level)], nMust = None\<rparr>"
| "named_codec ext CRC32CCodec = Inr \<lparr>nName = ''crc32c'', nConfig = [], nMust = None\<rparr>"
| "named_codec ext (ShuffleCodec es) = Inr \<lparr>nName = ''numcodecs.shuffle'', nConfig = marshal_object [(''elementsize'', format_int es)], nMust = None\<rparr>"
| "named_codec ext (ExtCodec name) = ext name"

definition namedCodecs :: "(string \<Rightarrow> named res) \<Rightarrow> codec list \<Rightarrow> named list res" where
  "namedCodecs ext cs = rmap (named_codec ext) cs"

end
