(* ===== verification/Config_Theorems.thy ===== *)
theory Config_Theorems
  imports Prints
begin

text \<open>
  What fill values and codecs are right about: a fill value is exact, of the type of its array, and
  is read back from the metadata it is written to; so is every codec.
\<close>

section \<open>Fill values\<close>

text \<open>C20: a fill value is read back from the metadata that it is written to: whatever the element, the
  text of it parses as an element of its type that is equal to it, or also a NaN, given that the
  texts \<open>strconv\<close> writes finite floats as are the ones it reads them from. (\<open>formatFill\<close> and
  \<open>parseFill\<close>.)\<close>

theorem fill_survives_metadata:
  assumes "float_text_ok ft"
  shows "\<exists>v'. parseFill ft (type_of v) (formatFill ft v) = Inr v' \<and> veq v v' \<and> type_of v' = type_of v"
  using parse_format_fill [OF assms, of v] parseFill_type by blast

text \<open>A way of writing floats that is read back: their bits as a number.\<close>

definition bits_text :: float_text where
  "bits_text = \<lparr>read_float = parse_uint, write_float = (\<lambda>bits u. itoa u)\<rparr>"

lemma bits_text_ok: "float_text_ok bits_text"
  unfolding float_text_ok_def bits_text_def Let_def
  using parse_itoa itoa_not_Nil itoa_digits by auto

theorem fill_survives_metadata_witness:
  "\<exists>v'. parseFill bits_text Float32 (formatFill bits_text (VFloat32 0x80000000)) = Inr v' \<and>
     veq (VFloat32 0x80000000) v' \<and> type_of v' = Float32"
  using fill_survives_metadata [OF bits_text_ok, of "VFloat32 0x80000000"] by simp


lemma fill_has_type_facts:
  "fillFrom Int16 (GoFloat 0xC02E000000000000) = Inr (VInt16 (- 15))"
  "parseFill bits_text Uint8 ''7'' = Inr (VUint8 7)"
  by (simp add: fillFrom_def whole_def mantissa_def exponent_def finite64_def is_float_def is_signed_def fits_int_def
      bits_of_type_def set_int_def minInt64_def) code_simp


definition int_value :: "elem \<Rightarrow> int" where
  "int_value v =
     (case v of
        VBool b \<Rightarrow> of_bool b
      | VInt8 w \<Rightarrow> sint w | VInt16 w \<Rightarrow> sint w | VInt32 w \<Rightarrow> sint w | VInt64 w \<Rightarrow> sint w
      | VUint8 w \<Rightarrow> uint w | VUint16 w \<Rightarrow> uint w | VUint32 w \<Rightarrow> uint w | VUint64 w \<Rightarrow> uint w
      | VFloat32 w \<Rightarrow> uint w | VFloat64 w \<Rightarrow> uint w)"

definition holds :: "dtype \<Rightarrow> int \<Rightarrow> bool" where
  "holds d x \<longleftrightarrow> (if is_signed d then fits_int d x else fits_uint d x)"

lemma signed_mod: "- (2 ^ n) \<le> x \<Longrightarrow> x < 2 ^ n \<Longrightarrow> signed_take_bit n (x mod 2 ^ Suc n) = (x :: int)"
proof -
  assume a: "- (2 ^ n) \<le> x" "x < 2 ^ n"
  have "signed_take_bit n (x mod 2 ^ Suc n) = signed_take_bit n (take_bit (Suc n) x)" by (simp only: take_bit_eq_mod)
  also have "\<dots> = signed_take_bit n x" by (rule signed_take_bit_take_bit [THEN trans]) simp
  finally show ?thesis using a by (simp add: signed_take_bit_int_eq_self)
qed

lemmas signed_values = signed_mod [of 7, simplified] signed_mod [of 15, simplified] signed_mod [of 31, simplified] signed_mod [of 63, simplified]

lemma int_value_set: "d \<noteq> Bool \<Longrightarrow> \<not> is_float d \<Longrightarrow> known d \<Longrightarrow> holds d x \<Longrightarrow> int_value (set_int d x) = x"
  by (cases d)
    (simp_all add: holds_def is_signed_def is_float_def fits_int_def fits_uint_def bits_of_type_def set_int_def int_value_def
      sint_sbintrunc' uint_word_of_int signed_values)

text \<open>C22: an integer is taken as the fill value of an array of integers just if its type holds it, and
  it is then that integer; nothing is rounded, wrapped or cut off. (\<open>fillFrom\<close> of \<open>int\<close> and \<open>uint\<close>
  values.)\<close>

theorem integer_fill_exact:
  assumes "known d" "d \<noteq> Bool" "\<not> is_float d"
  shows "(case fillFrom d (GoInt x) of Inl e \<Rightarrow> \<not> holds d x \<and> e \<noteq> Panic | Inr v \<Rightarrow> holds d x \<and> int_value v = x) \<and>
    (case fillFrom d (GoUint n) of Inl e \<Rightarrow> \<not> holds d (int n) \<and> e \<noteq> Panic | Inr v \<Rightarrow> holds d (int n) \<and> int_value v = int n)"
proof -
  note v = int_value_set [OF assms(2,3,1)]
  have m: "is_signed d \<Longrightarrow> fits_int d y \<Longrightarrow> y \<le> maxInt64" for y
    by (auto simp: is_signed_def fits_int_def bits_of_type_def maxInt64_def)
  have 1: "fillFrom d (GoInt x) = (if holds d x then Inr (set_int d x) else bad_fill)"
    using assms unfolding fillFrom_def holds_def fits_uint_def go_value.case by argo
  have 2: "fillFrom d (GoUint n) = (if holds d (int n) then Inr (set_int d (int n)) else bad_fill)"
    using assms m [of "int n"] unfolding fillFrom_def holds_def fits_uint_def go_value.case by argo
  show ?thesis unfolding 1 2 using v by simp
qed

theorem integer_fill_exact_witness:
  "fillFrom Uint8 (GoInt 256) \<noteq> Inr (VUint8 0) \<and> (\<exists>v. fillFrom Int8 (GoUint 127) = Inr v \<and> int_value v = 127)"
proof -
  have "fillFrom Int8 (GoUint 127) = Inr (VInt8 127)"
    by (simp add: fillFrom_def is_signed_def fits_int_def bits_of_type_def set_int_def maxInt64_def)
  then show ?thesis
    using integer_fill_exact [of Uint8 256 0] integer_fill_exact [of Int8 0 127]
    by (auto simp: is_float_def holds_def is_signed_def fits_uint_def bits_of_type_def)
qed

text \<open>The fill value of an array of floats is not always taken exactly: an integer between two floats is
  rounded.\<close>

lemma float_fill_rounds: "fillFrom Float32 (GoInt 16777217) = Inr (VFloat32 0x4B800000)"
proof -
  have b: "bit_length 16777217 = 25" by (simp add: bit_length.simps)
  have "float64_of 16777217 0 = 0x4170000010000000"
    by (simp add: float64_of_def round_float_def b)
  then have i: "int_to_float64 16777217 = 0x4170000010000000" by (simp add: int_to_float64_def)
  have c: "bit_length 0x10000010000000 = 53" by (simp add: bit_length.simps)
  have "to_float32 0x4170000010000000 = 0x4B800000"
    by (simp add: to_float32_def finite64_def mantissa_def exponent_def float32_of_def round_float_def c half_even_def)
  then show ?thesis by (simp add: fillFrom_def is_signed_def is_float_def set_float_def i)
qed

section \<open>Codecs\<close>

text \<open>A codec is found by its name among the registered ones, then among the built-in ones, and
  parsing it ends: a sharding codec parses the codecs within it in the same way, however deep, and
  each of their configurations is shorter than its own. (\<open>parseCodec\<close>, \<open>parseSharding\<close> and \<open>newPipeline\<close>.)\<close>

theorem codecs_are_parsed:
  "parseCodec env reg n d =
     (case reg (nName n) of
        Some parse \<Rightarrow> parse (nConfig n) d
      | None \<Rightarrow>
          if nName n = ''bytes'' then parseBytes (nConfig n) d
          else if nName n = ''gzip'' \<or> nName n = ''numcodecs.gzip'' then parseGzip (nConfig n) d
          else if nName n = ''sharding_indexed'' then parseSharding env (parseCodec env reg) (nConfig n) d
          else if nName n = ''crc32c'' then Inr CRC32CCodec
          else if nName n = ''numcodecs.shuffle'' then parseShuffle (nConfig n) d
          else if nName n = ''numcodecs.zlib'' then parseZlib (nConfig n) d
          else Inl ErrUnsupported) \<and>
   (sharding_config cfg = Some j \<longrightarrow> (\<forall>m \<in> set (listed (sCodecs j)) \<union> set (listed (sIndex j)). length (nConfig m) < length cfg))"
  using parseCodec_eq sharding_config_short [of cfg j] by (auto simp: parts_shorter_def)

definition demo_sharding :: string where
  "demo_sharding = ''{\"chunk_shape\":[2],\"codecs\":[{\"name\":\"bytes\",\"configuration\":{}}],\"index_codecs\":[\"bytes\"]}''"

lemma demo_sharding_parsed:
  "sharding_config demo_sharding =
     Some \<lparr>sChunk = Some [2], sCodecs = Some [\<lparr>nName = ''bytes'', nConfig = ''{}'', nMust = None\<rparr>],
       sIndex = Some [\<lparr>nName = ''bytes'', nConfig = [], nMust = None\<rparr>], sLocation = []\<rparr>"
  by code_simp

theorem codecs_are_parsed_witness: "length ''{}'' < length demo_sharding"
  using codecs_are_parsed [of undefined undefined undefined undefined demo_sharding] demo_sharding_parsed by force

end
