(* ===== verification/Makes.thy ===== *)
theory Makes
  imports Prints Objects
begin

text \<open>
  An array from its metadata (\<open>makeArray\<close> of \<open>src/array.go\<close>), with the encoding of its keys
  (\<open>parseKeyEncoding\<close> and \<open>keyEncoding.named\<close>).

  A pipeline is given as the codecs it is made of. A sharding codec has been prepared by its parser,
  and preparing it again is the same. The lemmas show that an array that is made is put together
  right, which is what every property of reading and writing asks of it.
\<close>

section \<open>Keys\<close>

definition decode_separator :: "string option Json.reader" where
  "decode_separator = decode_struct [''separator''] (\<lambda>_. decode_pointer [] decode_string)"

definition parseKeyEncoding :: "named \<Rightarrow> keyEncoding res" where
  "parseKeyEncoding n =
     rbind
       (if nName n = ''default'' then Inr \<lparr>k_v2 = False, k_sep = ''/''\<rparr>
        else if nName n = ''v2'' then Inr \<lparr>k_v2 = True, k_sep = ''.''\<rparr>
        else Inl ErrUnsupported) (\<lambda>k.
     rbind
       (if nConfig n = [] then Inr k
        else
          (case unmarshal decode_separator None (nConfig n) of
             None \<Rightarrow> Inl (ErrOther ''chunk key encoding'')
           | Some None \<Rightarrow> Inr k
           | Some (Some s) \<Rightarrow> Inr (k\<lparr>k_sep := s\<rparr>))) (\<lambda>k.
       if k_sep k \<noteq> ''/'' \<and> k_sep k \<noteq> ''.'' then Inl (ErrOther ''chunk key separator'') else Inr k))"

definition encoding_named :: "keyEncoding \<Rightarrow> named" where
  "encoding_named k =
     \<lparr>nName = if k_v2 k then ''v2'' else ''default'',
      nConfig = marshal_object [(''separator'', marshal_string (k_sep k))], nMust = None\<rparr>"

section \<open>The array\<close>

definition decode_grid :: "int list option Json.reader" where
  "decode_grid = decode_struct [''chunk_shape''] (\<lambda>_. decode_slice 0 decode_int)"

definition grid_shape :: "string \<Rightarrow> int list option" where
  "grid_shape cfg =
     map_option listed
       (case decodeObject [''chunk_shape''] (\<lambda>_. field_ints) None cfg of
          Some g \<Rightarrow> Some g
        | None \<Rightarrow> unmarshal decode_grid None cfg)"

abbreviation bad_array :: "string \<Rightarrow> 'a res" where
  "bad_array why \<equiv> Inl (ErrOther why)"

text \<open>What an array has of a sharding codec: the codec, the shape of its chunks, how many of them a shard
  holds, and the length of the index.\<close>

definition shard_parts :: "env \<Rightarrow> codec list \<Rightarrow> vec \<Rightarrow> (shard option \<times> vec \<times> vec \<times> nat) res" where
  "shard_parts env cs grid =
     (case cs of
        ShardingCodec ccs inner index loc # _ \<Rightarrow>
          rbind (prepare ccs loc (map (codec_iface env) (fst (codecLists inner index)))
                   (map (codec_iface env) (snd (codecLists inner index)))) (\<lambda>(s, _, _).
          rbind (perShard (chunkShape s) grid) (\<lambda>per.
          rbind (indexSize s per) (\<lambda>n. Inr (Some s, chunkShape s, per, n))))
      | _ \<Rightarrow> Inr (None, grid, replicate (length grid) 1, 0))"

definition makeArray ::
    "env \<Rightarrow> registry \<Rightarrow> float_text \<Rightarrow> 's store_ops \<Rightarrow> string \<Rightarrow> array_metadata \<Rightarrow> codec list option \<Rightarrow> 's arr res" where
  "makeArray env reg ft ops path m codecs =
     (if dsize (mType m) = 0 then Inl ErrUnsupported
      else if mTransformers m \<noteq> [] then Inl ErrUnsupported
      else if nName (mGrid m) \<noteq> ''regular'' then Inl ErrUnsupported
      else
        (case grid_shape (nConfig (mGrid m)) of
           None \<Rightarrow> bad_array ''chunk grid''
         | Some grid \<Rightarrow>
             if length grid \<noteq> length (mShape m) then bad_array ''dimensions''
             else if \<exists>k < length grid. mShape m ! k < 0 \<or> grid ! k \<le> 0 then bad_array ''shape''
             else if elements (mShape m) = None then bad_array ''elements''
             else if (case mDims m of None \<Rightarrow> False | Some ns \<Rightarrow> length ns \<noteq> length (mShape m)) then bad_array ''dimension names''
             else
               rbind (storedBytes grid (mType m)) (\<lambda>_.
               rbind (parseKeyEncoding (mKeyEnc m)) (\<lambda>keys.
               rbind (parseFill ft (mType m) (mFill m)) (\<lambda>fill.
               rbind (case codecs of Some cs \<Rightarrow> Inr cs | None \<Rightarrow> newPipeline env (parseCodec env reg) (mCodecs m) (mType m)) (\<lambda>cs.
               rbind (codec_pipeline env cs) (\<lambda>p.
               rbind (shard_parts env cs (map nat grid)) (\<lambda>(s, chunks, per, n).
                 Inr \<lparr>a_store = ops, a_path = path, a_meta = m, a_keys = keys, a_fill = fill, a_codecs = p,
                      a_grid = map nat grid, a_chunks = chunks, a_perShard = per, a_shard = s, a_indexSize = n,
                      a_writeEmpty = False, a_concurrency = 0\<rparr>))))))))"

abbreviation newArray ::
    "env \<Rightarrow> registry \<Rightarrow> float_text \<Rightarrow> 's store_ops \<Rightarrow> string \<Rightarrow> array_metadata \<Rightarrow> 's arr res" where
  "newArray env reg ft ops path m \<equiv> makeArray env reg ft ops path m None"

section \<open>An array that is made is put together right\<close>

lemma parseKeyEncoding_ok: "parseKeyEncoding n = Inr k \<Longrightarrow> enc_ok k"
  by (auto simp: parseKeyEncoding_def enc_ok_def rbind_Inr_iff split: if_splits option.splits)

lemma shard_parts_fields:
  assumes "shard_parts env cs grid = Inr (s, chunks, per, n)"
    and "a_grid a = grid" "a_shard a = s" "a_chunks a = chunks" "a_perShard a = per" "a_indexSize a = n"
  shows "shard_fields env cs a"
proof (cases "\<exists>ccs inner index loc rest. cs = ShardingCodec ccs inner index loc # rest")
  case True
  then show ?thesis using assms by (auto simp: shard_parts_def shard_fields_def rbind_Inr_iff)
next
  case False
  then show ?thesis using assms
    by (auto simp: shard_parts_def shard_fields_def split: list.splits codec.splits)
qed

text \<open>The codecs that an array is made with.\<close>

definition codecs_for :: "env \<Rightarrow> registry \<Rightarrow> array_metadata \<Rightarrow> codec list option \<Rightarrow> codec list res" where
  "codecs_for env reg m codecs =
     (case codecs of Some cs \<Rightarrow> Inr cs | None \<Rightarrow> newPipeline env (parseCodec env reg) (mCodecs m) (mType m))"

text \<open>What metadata makes an array, and which.\<close>

lemma makeArray_iff:
  "makeArray env reg ft ops path m codecs = Inr a \<longleftrightarrow>
     known (mType m) \<and> mTransformers m = [] \<and> nName (mGrid m) = ''regular'' \<and> elements (mShape m) \<noteq> None \<and>
     \<not> (case mDims m of None \<Rightarrow> False | Some ns \<Rightarrow> length ns \<noteq> length (mShape m)) \<and>
     (\<exists>grid. grid_shape (nConfig (mGrid m)) = Some grid \<and> length grid = length (mShape m) \<and>
        \<not> (\<exists>k < length grid. mShape m ! k < 0 \<or> grid ! k \<le> 0) \<and> (\<exists>z. storedBytes grid (mType m) = Inr z) \<and>
     (\<exists>keys. parseKeyEncoding (mKeyEnc m) = Inr keys \<and>
     (\<exists>fill. parseFill ft (mType m) (mFill m) = Inr fill \<and>
     (\<exists>cs. codecs_for env reg m codecs = Inr cs \<and>
     (\<exists>p. codec_pipeline env cs = Inr p \<and>
     (\<exists>s chunks per n. shard_parts env cs (map nat grid) = Inr (s, chunks, per, n) \<and>
        a = \<lparr>a_store = ops, a_path = path, a_meta = m, a_keys = keys, a_fill = fill, a_codecs = p,
          a_grid = map nat grid, a_chunks = chunks, a_perShard = per, a_shard = s, a_indexSize = n,
          a_writeEmpty = False, a_concurrency = 0\<rparr>))))))"
proof (cases "known (mType m) \<and> mTransformers m = [] \<and> nName (mGrid m) = ''regular''")
  case True
  show ?thesis
  proof (cases "grid_shape (nConfig (mGrid m))")
    case (Some grid)
    show ?thesis using True Some
      unfolding makeArray_def codecs_for_def [symmetric] by (auto simp: rbind_Inr_iff)
  qed (use True in \<open>simp add: makeArray_def\<close>)
qed (auto simp: makeArray_def)

lemma makeArray_ok:
  assumes made: "makeArray env reg ft ops path m codecs = Inr a" and path: "checkPath path = Inr ()"
    and cs: "codecs_for env reg m codecs = Inr cs"
    and ok: "pipe_ok (map (codec_ok env) cs) (a_codecs a) (storedSpec a)" and n: "a_indexSize a \<le> index_limit" "fits_ints (a_grid a) (mShape m)"
  shows "arr_ok env cs a"
proof -
  obtain grid keys fill p s chunks per k where
    g: "known (mType m)" "length grid = length (mShape m)" "\<not> (\<exists>k < length grid. mShape m ! k < 0 \<or> grid ! k \<le> 0)"
      "elements (mShape m) \<noteq> None" "parseKeyEncoding (mKeyEnc m) = Inr keys" "parseFill ft (mType m) (mFill m) = Inr fill"
      "codec_pipeline env cs = Inr p" "shard_parts env cs (map nat grid) = Inr (s, chunks, per, k)"
    and a: "a = \<lparr>a_store = ops, a_path = path, a_meta = m, a_keys = keys, a_fill = fill, a_codecs = p,
        a_grid = map nat grid, a_chunks = chunks, a_perShard = per, a_shard = s, a_indexSize = k,
        a_writeEmpty = False, a_concurrency = 0\<rparr>"
    using made cs unfolding makeArray_iff by auto
  have "0 \<le> mShape m ! i \<and> 0 < grid ! i" if "i < length (mShape m)" for i
    using g(2,3) that by (metis not_le not_less)
  then have "\<forall>v \<in> set (mShape m). 0 \<le> v" "positive (map nat grid)"
    using g(2) by (auto simp: in_set_conv_nth)
  moreover have "type_of fill = mType m" by (rule parseFill_type [OF g(6)])
  moreover have "enc_ok keys" by (rule parseKeyEncoding_ok [OF g(5)])
  moreover have "shard_fields env cs a" by (rule shard_parts_fields [OF g(8)]) (simp_all add: a)
  ultimately show ?thesis using g path ok n by (auto simp: arr_ok_def codecs_ok_def a)
qed

end
