(* ===== verification/V2.thy ===== *)
theory V2
  imports Makes Fortran
begin

text \<open>
  Nodes of Zarr version 2 (\<open>src/v2.go\<close>): an array's \<open>.zarray\<close> as the metadata version 3 would have and
  the codecs of its chunks, a group's \<open>.zgroup\<close>, and the \<open>.zattrs\<close> beside either.

  A codec that a program registers has its name and configuration in metadata, and its parser, as
  parameters. The error of a \<open>zarr.json\<close> that is not there, which is handed on, is an argument.
\<close>

section \<open>Types and fill values\<close>

definition typestr_of :: "string \<Rightarrow> dtype option" where
  "typestr_of k =
     map_of [(''b1'', Bool), (''i1'', Int8), (''i2'', Int16), (''i4'', Int32), (''i8'', Int64),
       (''u1'', Uint8), (''u2'', Uint16), (''u4'', Uint32), (''u8'', Uint64), (''f4'', Float32), (''f8'', Float64)] k"

abbreviation bad_dtype :: "'a res" where
  "bad_dtype \<equiv> Inl (ErrOther ''dtype'')"

definition parseTypestr :: "string \<Rightarrow> (dtype \<times> string) res" where
  "parseTypestr raw =
     (case unmarshal decode_string [] raw of
        None \<Rightarrow> bad_dtype
      | Some s \<Rightarrow>
          if length s < 2 then bad_dtype
          else
            (case typestr_of (tl s) of
               None \<Rightarrow> bad_dtype
             | Some d \<Rightarrow>
                 if dsize d = 1 \<and> hd s \<in> {CHR ''|'', CHR ''<'', CHR ''>''} then Inr (d, [])
                 else if hd s = CHR ''<'' then Inr (d, ''little'')
                 else if hd s = CHR ''>'' then Inr (d, ''big'')
                 else bad_dtype))"

definition decode_float :: "float_text \<Rightarrow> nat Json.reader" where
  "decode_float ft old raw =
     (if raw = null then Some old
      else if raw \<noteq> [] \<and> (hd raw = CHR ''-'' \<or> is_digit (hd raw)) then read_float ft 64 raw else None)"

definition parseFillV2 :: "float_text \<Rightarrow> dtype \<Rightarrow> string \<Rightarrow> elem res" where
  "parseFillV2 ft d raw =
     (let raw = trimSpace raw
      in if raw = [] \<or> raw = null then fillFrom d GoNil
         else
           (case parseFill ft d raw of
              Inr v \<Rightarrow> Inr v
            | Inl e \<Rightarrow>
                if d = Bool \<or> is_float d \<or> hd raw = quote then Inl e
                else
                  (case unmarshal (decode_float ft) 0 raw of
                     None \<Rightarrow> Inl e
                   | Some f \<Rightarrow> (case fillFrom d (GoFloat f) of Inr v \<Rightarrow> Inr v | Inl _ \<Rightarrow> Inl e))))"

section \<open>Codecs\<close>

text \<open>The parser registered under a name.\<close>

definition builtin_names :: "string list" where
  "builtin_names = [''bytes'', ''gzip'', ''sharding_indexed'', ''crc32c'', ''numcodecs.shuffle'', ''numcodecs.zlib'', ''numcodecs.gzip'']"

definition parser_of :: "env \<Rightarrow> registry \<Rightarrow> string \<Rightarrow> (string \<Rightarrow> dtype \<Rightarrow> codec res) option" where
  "parser_of env reg name =
     (case reg name of
        Some parse \<Rightarrow> Some parse
      | None \<Rightarrow>
          if name \<in> set builtin_names then Some (\<lambda>cfg d. parseCodec env reg \<lparr>nName = name, nConfig = cfg, nMust = None\<rparr> d)
          else None)"

definition codec_id :: "string \<Rightarrow> ((string \<times> string) list \<times> string) option" where
  "codec_id raw =
     (case unmarshal decode_map [] raw of
        None \<Rightarrow> None
      | Some cfg \<Rightarrow>
          (case map_of cfg ''id'' of
             None \<Rightarrow> None
           | Some v \<Rightarrow>
               (case unmarshal decode_string [] v of
                  None \<Rightarrow> None
                | Some name \<Rightarrow> if name = [] then None else Some (cfg, name))))"

definition parseCodecV2 :: "env \<Rightarrow> registry \<Rightarrow> string \<Rightarrow> dtype \<Rightarrow> codec res" where
  "parseCodecV2 env reg raw d =
     (case codec_id raw of
        None \<Rightarrow> Inl (ErrOther ''not an object with an id'')
      | Some (cfg, name) \<Rightarrow>
          (let cfg = AList.delete ''id'' cfg;
               own = parser_of env reg (''numcodecs.'' @ name);
               z = (own = None \<and> name = ''zstd'');
               cfg = (if z \<and> map_of cfg ''checksum'' = None then AList.update ''checksum'' ''false'' cfg else cfg)
           in case if z then parser_of env reg ''zstd'' else own of
                None \<Rightarrow> Inl ErrUnsupported
              | Some parse \<Rightarrow>
                  rbind (marshal_attrs cfg) (\<lambda>rest.
                  rbind (parse rest d) (\<lambda>c.
                    case codec_iface env c of BytesBytes _ \<Rightarrow> Inr c | ArrayBytes _ \<Rightarrow> Inl ErrUnsupported))))"

section \<open>Arrays\<close>

record zarray =
  zFormat :: int
  zShape :: "int list option"
  zChunks :: "int list option"
  zDType :: string
  zFill :: string
  zOrder :: string
  zCompressor :: string
  zFilters :: "string list option"
  zSep :: string

definition zero_zarray :: zarray where
  "zero_zarray = \<lparr>zFormat = 0, zShape = None, zChunks = None, zDType = [], zFill = [], zOrder = [], zCompressor = [],
     zFilters = None, zSep = []\<rparr>"

definition zarray_field :: "string \<Rightarrow> zarray Json.reader" where
  "zarray_field f z raw =
     (if f = ''zarr_format'' then map_option (\<lambda>v. z\<lparr>zFormat := v\<rparr>) (decode_int (zFormat z) raw)
      else if f = ''shape'' then map_option (\<lambda>v. z\<lparr>zShape := v\<rparr>) (decode_slice 0 decode_int (zShape z) raw)
      else if f = ''chunks'' then map_option (\<lambda>v. z\<lparr>zChunks := v\<rparr>) (decode_slice 0 decode_int (zChunks z) raw)
      else if f = ''dtype'' then map_option (\<lambda>v. z\<lparr>zDType := v\<rparr>) (decode_raw (zDType z) raw)
      else if f = ''fill_value'' then map_option (\<lambda>v. z\<lparr>zFill := v\<rparr>) (decode_raw (zFill z) raw)
      else if f = ''order'' then map_option (\<lambda>v. z\<lparr>zOrder := v\<rparr>) (decode_string (zOrder z) raw)
      else if f = ''compressor'' then map_option (\<lambda>v. z\<lparr>zCompressor := v\<rparr>) (decode_raw (zCompressor z) raw)
      else if f = ''filters'' then map_option (\<lambda>v. z\<lparr>zFilters := v\<rparr>) (decode_slice [] decode_raw (zFilters z) raw)
      else map_option (\<lambda>v. z\<lparr>zSep := v\<rparr>) (decode_string (zSep z) raw))"

definition decode_zarray :: "zarray Json.reader" where
  "decode_zarray =
     decode_struct [''zarr_format'', ''shape'', ''chunks'', ''dtype'', ''fill_value'', ''order'', ''compressor'', ''filters'',
       ''dimension_separator''] zarray_field"

text \<open>The first codec of a layout, and the transposition that version 3 would have.\<close>

definition order_codecs :: "string \<Rightarrow> string \<Rightarrow> nat \<Rightarrow> (codec \<times> named list) res" where
  "order_codecs order endian dims =
     (if order = [] \<or> order = ''C'' then Inr (BytesCodec endian, [])
      else if order = ''F'' then
        Inr (FortranBytes endian,
          [\<lparr>nName = ''transpose'', nConfig = marshal_object [(''order'', json_ints (map int (rev [0 ..< dims])))], nMust = None\<rparr>])
      else bad_array ''order'')"

definition parseZarray :: "env \<Rightarrow> registry \<Rightarrow> float_text \<Rightarrow> (string \<Rightarrow> named res) \<Rightarrow> string \<Rightarrow> (array_metadata \<times> codec list) res" where
  "parseZarray env reg ft ext b =
     (case unmarshal decode_zarray zero_zarray b of
        None \<Rightarrow> bad_array ''zarray''
      | Some z \<Rightarrow>
          if zFormat z \<noteq> 2 then Inl ErrUnsupported
          else
            (case (zShape z, zChunks z) of
               (Some shape, Some chunks) \<Rightarrow>
                 rbind (case parseTypestr (zDType z) of Inl _ \<Rightarrow> Inl ErrUnsupported | Inr r \<Rightarrow> Inr r) (\<lambda>(d, endian).
                 rbind (parseFillV2 ft d (zFill z)) (\<lambda>fill.
                 rbind (if zSep z = [] then Inr ''.''
                        else if zSep z = ''.'' \<or> zSep z = ''/'' then Inr (zSep z)
                        else bad_array ''dimension separator'') (\<lambda>sep.
                 rbind (order_codecs (zOrder z) endian (length shape)) (\<lambda>(arr, transpose).
                 rbind (rmap (\<lambda>f. parseCodecV2 env reg f d) (listed (zFilters z))) (\<lambda>filters.
                 rbind (let c = trimSpace (zCompressor z)
                        in if c = [] \<or> c = null then Inr [] else rbind (parseCodecV2 env reg c d) (\<lambda>c. Inr [c])) (\<lambda>comp.
                 let cs = arr # filters @ comp in
                 rbind (codec_pipeline env cs) (\<lambda>_.
                 rbind (namedCodecs ext cs) (\<lambda>ns.
                   Inr (\<lparr>mFormat = 2, mNode = ''array'', mShape = shape, mType = d,
                     mGrid = \<lparr>nName = ''regular'', nConfig = marshal_object [(''chunk_shape'', json_ints chunks)], nMust = None\<rparr>,
                     mKeyEnc = encoding_named \<lparr>k_v2 = True, k_sep = sep\<rparr>, mFill = formatFill ft fill,
                     mCodecs = transpose @ ns, mAttrs = [], mTransformers = [], mDims = None\<rparr>, cs)))))))))
             | _ \<Rightarrow> bad_array ''zarray has no shape or no chunks''))"

text \<open>\<open>attribute\<close> of \<open>src/metadata.go\<close>: whether there is one, and what decoding it gives.\<close>

definition attribute :: "(string \<times> string) list \<Rightarrow> string \<Rightarrow> 'a Json.reader \<Rightarrow> 'a \<Rightarrow> bool \<times> 'a option" where
  "attribute attrs name dec old =
     (case map_of attrs name of None \<Rightarrow> (False, Some old) | Some raw \<Rightarrow> (True, unmarshal dec old raw))"

definition dimensionsAttribute :: string where
  "dimensionsAttribute = ''_ARRAY_DIMENSIONS''"

definition newArrayV2 ::
    "env \<Rightarrow> registry \<Rightarrow> float_text \<Rightarrow> (string \<Rightarrow> named res) \<Rightarrow> 's store_ops \<Rightarrow> string \<Rightarrow> string \<Rightarrow> (string \<times> string) list \<Rightarrow> 's arr res" where
  "newArrayV2 env reg ft ext ops path b attrs =
     rbind (parseZarray env reg ft ext b) (\<lambda>(m, cs).
       let m = m\<lparr>mAttrs := attrs\<rparr>;
           m = (case attribute attrs dimensionsAttribute (decode_slice [] decode_string) None of
                  (True, Some names) \<Rightarrow>
                    if length (listed names) = length (mShape m) \<and> listed names \<noteq> [] then m\<lparr>mDims := Some (map Some (listed names))\<rparr>
                    else m
                | _ \<Rightarrow> m)
       in makeArray env reg ft ops path m (Some cs))"

section \<open>In a store\<close>

definition readAttributesV2 :: "'s store_ops \<Rightarrow> string \<Rightarrow> ('s, (string \<times> string) list) io" where
  "readAttributesV2 ops path =
     io_try (st_get ops (join_path path ''.zattrs'')) (\<lambda>r.
       case r of
         Inl e \<Rightarrow> if e = ErrNotFound then io_ret [] else io_err e
       | Inr b \<Rightarrow> (case unmarshal decode_map [] (text_of b) of None \<Rightarrow> io_err (ErrOther ''attributes'') | Some attrs \<Rightarrow> io_ret attrs))"

definition readV2 :: "'s store_ops \<Rightarrow> string \<Rightarrow> string \<Rightarrow> error \<Rightarrow> ('s, string \<times> (string \<times> string) list) io" where
  "readV2 ops path node notFound =
     (let key = (if node = ''group'' then ''.zgroup'' else ''.zarray'');
          other = (if node = ''group'' then ''.zarray'' else ''.zgroup'')
      in io_try (st_get ops (join_path path key)) (\<lambda>r.
           case r of
             Inl e \<Rightarrow>
               if e = ErrNotFound then
                 io_try (st_get ops (join_path path other)) (\<lambda>r.
                   case r of
                     Inr _ \<Rightarrow> io_err (ErrOther ''another kind of node'')
                   | Inl e \<Rightarrow> if e = ErrNotFound then io_err notFound else io_err e)
               else io_err e
           | Inr b \<Rightarrow> io_bind (readAttributesV2 ops path) (\<lambda>attrs. io_ret (text_of b, attrs))))"

definition openArrayV2 ::
    "env \<Rightarrow> registry \<Rightarrow> float_text \<Rightarrow> (string \<Rightarrow> named res) \<Rightarrow> 's store_ops \<Rightarrow> string \<Rightarrow> error \<Rightarrow> ('s, 's arr) io" where
  "openArrayV2 env reg ft ext ops path notFound =
     io_bind (readV2 ops path ''array'' notFound) (\<lambda>(b, attrs). io_lift (newArrayV2 env reg ft ext ops path b attrs))"

record 's group =
  g_store :: "'s store_ops"
  g_path :: string
  g_meta :: group_metadata

definition decode_format :: "int Json.reader" where
  "decode_format = decode_struct [''zarr_format''] (\<lambda>_. decode_int)"

definition openGroupV2 :: "'s store_ops \<Rightarrow> string \<Rightarrow> error \<Rightarrow> ('s, 's group) io" where
  "openGroupV2 ops path notFound =
     io_bind (readV2 ops path ''group'' notFound) (\<lambda>(b, attrs).
       case unmarshal decode_format 0 b of
         None \<Rightarrow> io_err (ErrOther ''zgroup'')
       | Some n \<Rightarrow>
           if n \<noteq> 2 then io_err ErrUnsupported
           else io_ret \<lparr>g_store = ops, g_path = path, g_meta = \<lparr>gFormat = 2, gNode = ''group'', gAttrs = attrs\<rparr>\<rparr>)"

definition v2Child :: "'s store_ops \<Rightarrow> string \<Rightarrow> ('s, (string \<times> string) option) io" where
  "v2Child ops path =
     io_try (st_get ops (join_path path ''.zarray'')) (\<lambda>r.
       case r of
         Inr b \<Rightarrow> io_ret (Some (''array'', text_of b))
       | Inl e \<Rightarrow>
           if e \<noteq> ErrNotFound then io_err e
           else
             io_try (st_get ops (join_path path ''.zgroup'')) (\<lambda>r.
               case r of
                 Inr b \<Rightarrow> io_ret (Some (''group'', text_of b))
               | Inl e \<Rightarrow> if e \<noteq> ErrNotFound then io_err e else io_ret None))"

end
