(* ===== verification/Nodes.thy ===== *)
theory Nodes
  imports V2 Resizes Deletes
begin

text \<open>
  Creating, opening and changing nodes: \<open>CreateArray\<close>, \<open>OpenArray\<close> and \<open>SetAttributes\<close> of \<open>src/array.go\<close>,
  \<open>Resize\<close>, \<open>Append\<close> and \<open>Refresh\<close> of \<open>src/resize.go\<close>, and \<open>src/group.go\<close>.

  An operation that changes an array or a group gives it as it is afterwards; one that fails leaves it
  as it was. What a program brings along is an argument: the machine and its compressors, the codecs
  that are registered, their names and configurations, and the texts of floats.
\<close>

record world =
  w_env :: env
  w_reg :: registry
  w_float :: float_text
  w_named :: "string \<Rightarrow> named res"

section \<open>Arrays\<close>

record array_options =
  oShape :: "int list"
  oChunk :: "int list"
  oShard :: "int list option"
  oType :: dtype
  oFill :: go_value
  oCodecs :: "codec list option"
  oSep :: string
  oDims :: "string list option"
  oAttrs :: "(string \<times> string res) list"

definition dimension_names :: "string list option \<Rightarrow> string option list option" where
  "dimension_names names =
     (case names of None \<Rightarrow> None | Some [] \<Rightarrow> None
      | Some ns \<Rightarrow> Some (map (\<lambda>n. if n = [] then None else Some n) ns))"

text \<open>The codecs of a stored object, its shape, and the metadata, for what is asked for.\<close>

definition option_codecs :: "array_options \<Rightarrow> codec list" where
  "option_codecs opts =
     (let codecs = (case oCodecs opts of None \<Rightarrow> [BytesCodec ''little''] | Some cs \<Rightarrow> cs)
      in case oShard opts of None \<Rightarrow> codecs | Some _ \<Rightarrow> [ShardingCodec (oChunk opts) (Some codecs) None []])"

definition option_grid :: "array_options \<Rightarrow> int list" where
  "option_grid opts = (case oShard opts of None \<Rightarrow> oChunk opts | Some g \<Rightarrow> g)"

definition option_metadata ::
    "float_text \<Rightarrow> array_options \<Rightarrow> elem \<Rightarrow> named list \<Rightarrow> (string \<times> string) list \<Rightarrow> array_metadata" where
  "option_metadata ft opts fill ns attrs =
     \<lparr>mFormat = 3, mNode = ''array'', mShape = oShape opts, mType = oType opts,
      mGrid = \<lparr>nName = ''regular'', nConfig = marshal_object [(''chunk_shape'', json_ints (option_grid opts))], nMust = None\<rparr>,
      mKeyEnc = encoding_named \<lparr>k_v2 = False, k_sep = if oSep opts = [] then ''/'' else oSep opts\<rparr>,
      mFill = formatFill ft fill, mCodecs = ns, mAttrs = attrs, mTransformers = [], mDims = dimension_names (oDims opts)\<rparr>"

definition CreateArray :: "world \<Rightarrow> 's store_ops \<Rightarrow> string \<Rightarrow> array_options \<Rightarrow> ('s, 's arr) io" where
  "CreateArray W ops path opts =
     io_bind (mustBeNew ops path) (\<lambda>_.
     io_bind (io_lift (rguard (dsize (oType opts) \<noteq> 0) ErrUnsupported)) (\<lambda>_.
     io_bind (io_lift (fillFrom (oType opts) (oFill opts))) (\<lambda>fill.
     io_bind (io_lift (namedCodecs (w_named W) (option_codecs opts))) (\<lambda>ns.
     io_bind (io_lift (withAttributes [] (oAttrs opts))) (\<lambda>attrs.
     io_bind (io_lift (newArray (w_env W) (w_reg W) (w_float W) ops path (option_metadata (w_float W) opts fill ns attrs))) (\<lambda>a.
     io_bind (writeMetadata ops path (marshal_array (a_meta a))) (\<lambda>_. io_ret a)))))))"

definition OpenArray :: "world \<Rightarrow> 's store_ops \<Rightarrow> string \<Rightarrow> ('s, 's arr) io" where
  "OpenArray W ops path =
     io_try (readMetadata array_doc ops path ''array'') (\<lambda>r.
       case r of
         Inl e \<Rightarrow>
           if e = ErrNotFound then openArrayV2 (w_env W) (w_reg W) (w_float W) (w_named W) ops path e else io_err e
       | Inr m \<Rightarrow> io_lift (newArray (w_env W) (w_reg W) (w_float W) ops path m))"

definition arr_SetAttributes :: "'s arr \<Rightarrow> (string \<times> string res) list \<Rightarrow> ('s, 's arr) io" where
  "arr_SetAttributes a new =
     io_bind (io_lift (writable a)) (\<lambda>_.
     io_bind (io_lift (withAttributes (mAttrs (a_meta a)) new)) (\<lambda>merged.
     let m = (a_meta a)\<lparr>mAttrs := merged\<rparr>
     in io_bind (writeMetadata (a_store a) (a_path a) (marshal_array m)) (\<lambda>_. io_ret (a\<lparr>a_meta := m\<rparr>))))"

section \<open>Changing the shape\<close>

definition withShape :: "world \<Rightarrow> 's arr \<Rightarrow> int list \<Rightarrow> 's arr res" where
  "withShape W a shape =
     (if length shape \<noteq> length (mShape (a_meta a)) then Inl (ErrOther ''shape of another number of dimensions'')
      else
        rbind (newArray (w_env W) (w_reg W) (w_float W) (a_store a) (a_path a) ((a_meta a)\<lparr>mShape := shape\<rparr>)) (\<lambda>b.
          Inr (b\<lparr>a_writeEmpty := a_writeEmpty a, a_concurrency := a_concurrency a\<rparr>)))"

definition Resize :: "world \<Rightarrow> (nat \<Rightarrow> nat list) \<Rightarrow> 's arr \<Rightarrow> int list \<Rightarrow> ('s, 's arr) io" where
  "Resize W sched a shape =
     io_bind (io_lift (writable a)) (\<lambda>_.
     io_bind (io_lift (withShape W a shape)) (\<lambda>b.
     io_bind (resizeStored sched a b) (\<lambda>_.
     io_bind (writeMetadata (a_store a) (a_path a) (marshal_array (a_meta b))) (\<lambda>_. io_ret b))))"

text \<open>How many elements a slice across the axis has, with the products of \<open>int\<close>s as they are.\<close>

definition across :: "int list \<Rightarrow> nat \<Rightarrow> int" where
  "across shape axis = fold (\<lambda>k n. if k \<noteq> axis then wrap64 (n * shape ! k) else n) [0 ..< length shape] 1"

definition Append :: "world \<Rightarrow> (nat \<Rightarrow> nat list) \<Rightarrow> 's arr \<Rightarrow> dtype \<Rightarrow> int \<Rightarrow> elem list \<Rightarrow> ('s, int \<times> 's arr) io" where
  "Append W sched a t axis data =
     io_bind (io_lift (writable a)) (\<lambda>_.
     io_bind (io_lift (checkType a t)) (\<lambda>_.
     let shape = mShape (a_meta a)
     in if axis < 0 \<or> axis \<ge> int (length shape) then io_err (ErrOther ''append along no axis'')
        else
          (let k = nat axis; acr = across shape k
           in if acr = 0 then io_err (ErrOther ''holds nothing across the axis'')
              else if int (length data) smod acr \<noteq> 0 then io_err (ErrOther ''not a whole number of slices'')
              else
                (let at = shape ! k; n = int (length data) sdiv acr
                 in if n = 0 then io_ret (at, a)
                    else if at > wrap64 (maxInt64 - n) then io_err (ErrOther ''more than an int can count'')
                    else
                      io_bind (io_lift (withShape W a (shape[k := wrap64 (at + n)]))) (\<lambda>b.
                      let start = (replicate (length shape) 0)[k := at]; region = shape[k := n]
                      in io_bind (arr_write sched b t (Some start) (Some region) data) (\<lambda>_.
                         io_bind (writeMetadata (a_store a) (a_path a) (marshal_array (a_meta b))) (\<lambda>_. io_ret (at, b))))))))"

definition Refresh :: "world \<Rightarrow> 's arr \<Rightarrow> ('s, 's arr) io" where
  "Refresh W a =
     io_bind (OpenArray W (a_store a) (a_path a)) (\<lambda>b.
       io_ret (b\<lparr>a_writeEmpty := a_writeEmpty a, a_concurrency := a_concurrency a\<rparr>))"

section \<open>Groups\<close>

definition CreateGroup :: "'s store_ops \<Rightarrow> string \<Rightarrow> (string \<times> string res) list \<Rightarrow> ('s, 's group) io" where
  "CreateGroup ops path attrs =
     io_bind (mustBeNew ops path) (\<lambda>_.
     io_bind (io_lift (withAttributes [] attrs)) (\<lambda>kvs.
     let m = \<lparr>gFormat = 3, gNode = ''group'', gAttrs = kvs\<rparr>
     in io_bind (writeMetadata ops path (marshal_group m)) (\<lambda>_.
          io_ret \<lparr>g_store = ops, g_path = path, g_meta = m\<rparr>)))"

definition OpenGroup :: "'s store_ops \<Rightarrow> string \<Rightarrow> ('s, 's group) io" where
  "OpenGroup ops path =
     io_try (readMetadata group_doc ops path ''group'') (\<lambda>r.
       case r of
         Inl e \<Rightarrow> if e = ErrNotFound then openGroupV2 ops path e else io_err e
       | Inr m \<Rightarrow> io_ret \<lparr>g_store = ops, g_path = path, g_meta = m\<rparr>)"

definition group_writable :: "'s group \<Rightarrow> unit res" where
  "group_writable g = readOnly (gFormat (g_meta g))"

definition group_SetAttributes :: "'s group \<Rightarrow> (string \<times> string res) list \<Rightarrow> ('s, 's group) io" where
  "group_SetAttributes g new =
     io_bind (io_lift (group_writable g)) (\<lambda>_.
     io_bind (io_lift (withAttributes (gAttrs (g_meta g)) new)) (\<lambda>merged.
     let m = (g_meta g)\<lparr>gAttrs := merged\<rparr>
     in io_bind (writeMetadata (g_store g) (g_path g) (marshal_group m)) (\<lambda>_. io_ret (g\<lparr>g_meta := m\<rparr>))))"

definition group_CreateArray :: "world \<Rightarrow> 's group \<Rightarrow> string \<Rightarrow> array_options \<Rightarrow> ('s, 's arr) io" where
  "group_CreateArray W g name opts =
     io_bind (io_lift (group_writable g)) (\<lambda>_. CreateArray W (g_store g) (join_path (g_path g) name) opts)"

definition group_OpenArray :: "world \<Rightarrow> 's group \<Rightarrow> string \<Rightarrow> ('s, 's arr) io" where
  "group_OpenArray W g name = OpenArray W (g_store g) (join_path (g_path g) name)"

definition group_CreateGroup :: "'s group \<Rightarrow> string \<Rightarrow> (string \<times> string res) list \<Rightarrow> ('s, 's group) io" where
  "group_CreateGroup g name attrs =
     io_bind (io_lift (group_writable g)) (\<lambda>_. CreateGroup (g_store g) (join_path (g_path g) name) attrs)"

definition group_OpenGroup :: "'s group \<Rightarrow> string \<Rightarrow> ('s, 's group) io" where
  "group_OpenGroup g name = OpenGroup (g_store g) (join_path (g_path g) name)"

text \<open>A child: its name, its type, and the metadata it was found by; a slot with none is no child.\<close>

type_synonym child = "string \<times> string \<times> string"

definition child_names :: "'s group \<Rightarrow> string list \<Rightarrow> string list" where
  "child_names g names =
     sort (map butlast
       (filter (\<lambda>name. name \<noteq> [] \<and> last name = CHR ''/'' \<and> checkPath (join_path (g_path g) (butlast name)) = Inr ()) names))"

text \<open>A type that is no string is passed over: \<open>Unmarshal\<close> goes on after it, and its error is ignored.\<close>

definition decode_node :: "string Json.reader" where
  "decode_node =
     decode_struct [''node_type''] (\<lambda>_ old raw. Some (case decode_string old raw of None \<Rightarrow> old | Some typ \<Rightarrow> typ))"

definition find_child :: "'s group \<Rightarrow> string \<Rightarrow> ('s, child option) io" where
  "find_child g name =
     (let path = join_path (g_path g) name
      in if gFormat (g_meta g) = 2 then
           io_bind (v2Child (g_store g) path) (\<lambda>c. io_ret (map_option (\<lambda>(typ, b). (name, typ, b)) c))
         else
           io_try (st_get (g_store g) (metadataKey path)) (\<lambda>r.
             case r of
               Inl e \<Rightarrow> if e = ErrNotFound then io_ret None else io_err e
             | Inr b \<Rightarrow>
                 io_ret (Some (name, (case unmarshal decode_node [] (text_of b) of None \<Rightarrow> [] | Some typ \<Rightarrow> typ), text_of b))))"

definition group_children :: "(nat \<Rightarrow> nat list) \<Rightarrow> 's group \<Rightarrow> ('s, child list) io" where
  "group_children sched g =
     io_bind (list_dir (g_store g) (if g_path g = [] then [] else g_path g @ ''/'')) (\<lambda>listed.
     let names = child_names g listed; n = length names
     in if n = 0 then io_ret []
        else
          (\<lambda>s. case eachSpan sched (min (nat defaultConcurrency) n) [0] [n - 1] (\<lambda>i _.
                  io_bind (io_fst (find_child g (names ! i))) (\<lambda>c st. io_put (Inr ((snd st)[i := c])) st)) (s, replicate n None) of
                 (Inl e, st) \<Rightarrow> (Inl e, fst st)
               | (Inr _, st) \<Rightarrow> (Inr (List.map_filter id (snd st)), fst st)))"

definition Children :: "(nat \<Rightarrow> nat list) \<Rightarrow> 's group \<Rightarrow> ('s, (string \<times> string) list) io" where
  "Children sched g = io_bind (group_children sched g) (\<lambda>found. io_ret (map (\<lambda>(name, typ, _). (name, typ)) found))"

definition open_child :: "world \<Rightarrow> 's group \<Rightarrow> child \<Rightarrow> ('s, 's arr) io" where
  "open_child W g c =
     (case c of (name, _, b) \<Rightarrow>
        (let path = join_path (g_path g) name
         in if gFormat (g_meta g) = 2 then
              io_bind (readAttributesV2 (g_store g) path) (\<lambda>attrs.
                io_lift (newArrayV2 (w_env W) (w_reg W) (w_float W) (w_named W) (g_store g) path b attrs))
            else
              io_lift (rbind (parseMetadata array_doc ''array'' b) (\<lambda>m.
                newArray (w_env W) (w_reg W) (w_float W) (g_store g) path m))))"

definition OpenArrays :: "world \<Rightarrow> (nat \<Rightarrow> nat list) \<Rightarrow> 's group \<Rightarrow> ('s, 's arr list) io" where
  "OpenArrays W sched g =
     io_bind (group_children sched g) (\<lambda>found.
     let named = filter (\<lambda>(_, typ, _). typ = ''array'') found; n = length named
     in if n = 0 then io_ret []
        else
          (\<lambda>s. case eachSpan sched (min (nat defaultConcurrency) n) [0] [n - 1] (\<lambda>i _.
                  io_bind (io_fst (open_child W g (named ! i))) (\<lambda>a st. io_put (Inr ((snd st)[i := Some a])) st)) (s, replicate n None) of
                 (Inl e, st) \<Rightarrow> (Inl e, fst st)
               | (Inr _, st) \<Rightarrow> (Inr (List.map_filter id (snd st)), fst st)))"

end
