(* ===== verification/Node_Laws.thy ===== *)
theory Node_Laws
  imports Nodes
begin

text \<open>
  What the operations on nodes do to a store that keeps its contract: what a step of them reads or
  writes, and that an array whose shape changes is the same array at another shape.
\<close>

section \<open>Steps\<close>

lemma io_lift_bind: "io_bind (io_lift r) f s = (case r of Inl e \<Rightarrow> (Inl e, s) | Inr x \<Rightarrow> f x s)"
  by (simp add: io_bind_def split: sum.split)

context store_laws
begin

lemma mustBeNew_spec:
  assumes "mustBeNew ops path s = (r, t)"
  shows "contents t = contents s" and "r = Inr u \<Longrightarrow> contents s (metadataKey path) = None \<and> checkPath path = Inr ()"
proof -
  have "contents t = contents s \<and> (\<forall>u. r = Inr u \<longrightarrow> contents s (metadataKey path) = None \<and> checkPath path = Inr ())"
  proof (cases "checkPath path")
    case (Inr v)
    obtain r' t' where g: "st_get ops (metadataKey path) s = (r', t')" by fastforce
    have "contents t' = contents s" by (rule get_contents [OF g])
    moreover have "r' = Inl ErrNotFound \<Longrightarrow> contents s (metadataKey path) = None" using g get_missing by blast
    ultimately show ?thesis using assms Inr g by (auto simp: mustBeNew_def io_bind_def split: sum.splits if_splits)
  qed (use assms in \<open>auto simp: mustBeNew_def io_bind_def\<close>)
  then show "contents t = contents s" and "r = Inr u \<Longrightarrow> contents s (metadataKey path) = None \<and> checkPath path = Inr ()" by auto
qed

lemma writeMetadata_spec:
  assumes "writeMetadata ops path doc s = (r, t)"
  shows "case r of
      Inl e \<Rightarrow> contents t = contents s
    | Inr _ \<Rightarrow> \<exists>d. doc = Inr d \<and> contents t = (contents s)(metadataKey path := Some (bytes_of (indented d)))"
  using assms set_failed set_done
  by (cases doc) (auto simp: writeMetadata_def io_lift_bind split: sum.split)

lemma readMetadata_contents: "readMetadata D ops path node s = (r, t) \<Longrightarrow> contents t = contents s"
  by (auto simp: readMetadata_def io_bind_def split: sum.splits prod.splits dest: get_contents)

lemma readAttributesV2_contents: "readAttributesV2 ops path s = (r, t) \<Longrightarrow> contents t = contents s"
  by (auto simp: readAttributesV2_def io_try_def split: sum.splits prod.splits if_splits option.splits dest: get_contents)

lemma readV2_contents: "readV2 ops path node e s = (r, t) \<Longrightarrow> contents t = contents s"
  unfolding readV2_def io_try_def io_bind_def Let_def
  by (auto split: sum.splits prod.splits if_splits dest!: get_contents readAttributesV2_contents)

lemma openArrayV2_contents: "openArrayV2 env reg ft ext ops path e s = (r, t) \<Longrightarrow> contents t = contents s"
  by (auto simp: openArrayV2_def io_bind_def split: sum.splits prod.splits dest: readV2_contents)

lemma openGroupV2_contents: "openGroupV2 ops path e s = (r, t) \<Longrightarrow> contents t = contents s"
  by (auto simp: openGroupV2_def io_bind_def split: sum.splits prod.splits option.splits if_splits dest: readV2_contents)

lemma OpenArray_contents: "OpenArray W ops path s = (r, t) \<Longrightarrow> contents t = contents s"
  by (auto simp: OpenArray_def io_try_def split: sum.splits prod.splits if_splits dest!: readMetadata_contents openArrayV2_contents)

lemma OpenGroup_contents: "OpenGroup ops path s = (r, t) \<Longrightarrow> contents t = contents s"
  by (auto simp: OpenGroup_def io_try_def split: sum.splits prod.splits if_splits dest!: readMetadata_contents openGroupV2_contents)

end

section \<open>An array and its metadata\<close>

text \<open>An array is what its own metadata makes it, but for the two settings that are not in it.\<close>

definition made :: "world \<Rightarrow> 's arr \<Rightarrow> bool" where
  "made W a \<longleftrightarrow>
     newArray (w_env W) (w_reg W) (w_float W) (a_store a) (a_path a) (a_meta a) = Inr (a\<lparr>a_writeEmpty := False, a_concurrency := 0\<rparr>)"

lemma newArray_made: "newArray (w_env W) (w_reg W) (w_float W) ops path m = Inr a \<Longrightarrow>
    made W a \<and> a_store a = ops \<and> a_path a = path \<and> a_meta a = m"
proof -
  assume m: "newArray (w_env W) (w_reg W) (w_float W) ops path m = Inr a"
  then have f: "a_store a = ops \<and> a_path a = path \<and> a_meta a = m \<and> a_writeEmpty a = False \<and> a_concurrency a = 0"
    unfolding makeArray_iff by auto
  then have "a\<lparr>a_writeEmpty := False, a_concurrency := 0\<rparr> = a" by (cases a) simp
  then show ?thesis using m f by (simp add: made_def)
qed

text \<open>All that the shape decides is whether there is an array.\<close>

lemma newArray_shape:
  assumes a: "newArray env reg ft ops path m = Inr a" and b: "newArray env reg ft ops path (m\<lparr>mShape := S\<rparr>) = Inr b"
    and l: "length S = length (mShape m)"
  shows "b = reshaped a S \<and> (\<forall>v \<in> set S. 0 \<le> v) \<and> elements S \<noteq> None"
proof -
  have S: "\<forall>v \<in> set S. 0 \<le> v" if "\<not> (\<exists>k < length g. S ! k < 0 \<or> g ! k \<le> 0)" "length g = length S" for g :: "int list"
    using that by (metis in_set_conv_nth not_less)
  have c: "codecs_for env reg (m\<lparr>mShape := S\<rparr>) None = codecs_for env reg m None" by (simp add: codecs_for_def)
  show ?thesis using a b S l unfolding makeArray_iff c by (auto simp: reshaped_def split: option.splits)
qed

lemma newArray_reshaped:
  assumes a: "newArray env reg ft ops path m = Inr a" and l: "length S = length (mShape m)"
    and S: "\<forall>v \<in> set S. 0 \<le> v" "elements S \<noteq> None"
  shows "newArray env reg ft ops path (m\<lparr>mShape := S\<rparr>) = Inr (reshaped a S)"
proof -
  have c: "codecs_for env reg (m\<lparr>mShape := S\<rparr>) None = codecs_for env reg m None" by (simp add: codecs_for_def)
  have "\<not> S ! k < 0" if "k < length S" for k using S(1) that by (simp add: not_less)
  then show ?thesis using a l S(2) unfolding makeArray_iff c by (auto simp: reshaped_def split: option.splits)
qed

lemma withShape_reshaped:
  assumes "made W a" "withShape W a S = Inr b"
  shows "b = reshaped a S \<and> length S = length (mShape (a_meta a)) \<and> (\<forall>v \<in> set S. 0 \<le> v) \<and> elements S \<noteq> None"
proof -
  obtain c where c: "length S = length (mShape (a_meta a))"
    "newArray (w_env W) (w_reg W) (w_float W) (a_store a) (a_path a) ((a_meta a)\<lparr>mShape := S\<rparr>) = Inr c"
    "b = c\<lparr>a_writeEmpty := a_writeEmpty a, a_concurrency := a_concurrency a\<rparr>"
    using assms(2) by (auto simp: withShape_def rbind_Inr_iff split: if_splits)
  from newArray_shape [OF assms(1) [unfolded made_def] c(2,1)]
  show ?thesis using c by (simp add: reshaped_def)
qed

section \<open>Operations\<close>

context store_laws
begin

lemma CreateArray_spec:
  assumes "CreateArray W ops path opts s = (r, t)"
  shows "case r of
      Inl e \<Rightarrow> contents t = contents s
    | Inr a \<Rightarrow>
        contents s (metadataKey path) = None \<and> checkPath path = Inr () \<and>
        (\<exists>doc. marshal_array (a_meta a) = Inr doc \<and>
           contents t = (contents s)(metadataKey path := Some (bytes_of (indented doc)))) \<and>
        a_store a = ops \<and> a_path a = path \<and> mShape (a_meta a) = oShape opts \<and> a_type a = oType opts \<and> made W a \<and>
        (\<exists>fill. fillFrom (oType opts) (oFill opts) = Inr fill \<and> mFill (a_meta a) = formatFill (w_float W) fill)"
  using assms unfolding CreateArray_def Let_def
proof (rule io_bind_split)
  fix e assume "mustBeNew ops path s = (Inl e, t)" "r = Inl e"
  then show ?thesis using mustBeNew_spec(1) by simp
next
  fix u v
  assume new: "mustBeNew ops path s = (Inr u, v)"
  note n = mustBeNew_spec(1) [OF new] mustBeNew_spec(2) [OF new refl]
  assume "io_bind (io_lift (rguard (dsize (oType opts) \<noteq> 0) ErrUnsupported)) (\<lambda>_.
     io_bind (io_lift (fillFrom (oType opts) (oFill opts))) (\<lambda>fill.
     io_bind (io_lift (namedCodecs (w_named W) (option_codecs opts))) (\<lambda>ns.
     io_bind (io_lift (withAttributes [] (oAttrs opts))) (\<lambda>attrs.
     io_bind (io_lift (newArray (w_env W) (w_reg W) (w_float W) ops path (option_metadata (w_float W) opts fill ns attrs))) (\<lambda>a.
     io_bind (writeMetadata ops path (marshal_array (a_meta a))) (\<lambda>_. io_ret a)))))) v = (r, t)"
  then consider (no) e where "r = Inl e" "t = v"
    | (made) fill ns attrs a where "fillFrom (oType opts) (oFill opts) = Inr fill"
       "newArray (w_env W) (w_reg W) (w_float W) ops path (option_metadata (w_float W) opts fill ns attrs) = Inr a"
       "io_bind (writeMetadata ops path (marshal_array (a_meta a))) (\<lambda>_. io_ret a) v = (r, t)"
    unfolding io_lift_bind by (auto dest!: sym [of "Inl _"] sym [of "Inr _"] split: sum.split_asm)
  then show ?thesis
  proof cases
    case made
    note m = newArray_made [OF made(2)]
    from made(3) show ?thesis
    proof (rule io_bind_split)
      fix e assume "writeMetadata ops path (marshal_array (a_meta a)) v = (Inl e, t)" "r = Inl e"
      then show ?thesis using writeMetadata_spec [of path _ v] n(1) by fastforce
    next
      fix x u assume w: "writeMetadata ops path (marshal_array (a_meta a)) v = (Inr x, u)" "io_ret a u = (r, t)"
      from writeMetadata_spec [OF w(1)] show ?thesis using w(2) m n made(1) by (auto simp: option_metadata_def)
    qed
  qed (use n(1) in simp)
qed

text \<open>Nothing is asked of a store that may fail at any time.\<close>

lemma may_fail: "store_laws ops contents (\<lambda>_. False)"
proof
  show "\<And>f k off len s b t. st_range ops = Some f \<Longrightarrow> f k off len s = (Inr b, t) \<Longrightarrow> in_int64 off \<Longrightarrow> in_int64 len \<Longrightarrow>
      (\<And>v. contents s k = Some v \<Longrightarrow> int (length v) \<le> maxInt64) \<Longrightarrow>
      \<exists>v. contents s k = Some v \<and> range_in v off len \<and> b = sub_bytes v off len"
    by (rule range_found)
qed (use get_contents get_found get_missing range_contents range_missing set_done set_failed
    delete_done delete_failed list_contents list_keys in \<open>simp_all\<close>)

end

lemma done_elsewhere: "done_at a m f e \<Longrightarrow> m' (cell_key a e) = m (cell_key a e) \<Longrightarrow> done_at a m' f e"
  by (simp add: done_at_def value_at_def)

lemma metadata_apart: "\<not> own_key a (metadataKey (a_path a))" "cell_key a e \<noteq> metadataKey (a_path a)"
  using enc_key_not_metadata by (auto simp: own_key_def cell_key_def storedKey_def) metis+

text \<open>What an operation on an array left behind when it failed, or when it was done.\<close>

definition metadata_kept :: "'s arr \<Rightarrow> (string \<Rightarrow> bytes option) \<Rightarrow> (string \<Rightarrow> bytes option) \<Rightarrow> (vec \<Rightarrow> elem) \<Rightarrow> bool" where
  "metadata_kept a m m' f \<longleftrightarrow>
     m' (metadataKey (a_path a)) = m (metadataKey (a_path a)) \<and> half_written a m m' f"

definition metadata_set :: "'s arr \<Rightarrow> array_metadata \<Rightarrow> (string \<Rightarrow> bytes option) \<Rightarrow> (string \<Rightarrow> bytes option) \<Rightarrow> (vec \<Rightarrow> elem) \<Rightarrow> bool" where
  "metadata_set a meta m m' f \<longleftrightarrow>
     (\<exists>doc. marshal_array meta = Inr doc \<and> m' (metadataKey (a_path a)) = Some (bytes_of (indented doc))) \<and>
     (\<forall>key. \<not> own_key a key \<longrightarrow> key \<noteq> metadataKey (a_path a) \<longrightarrow> m' key = m key) \<and>
     (\<forall>e. inside e (a_shape a) \<longrightarrow> done_at a m' f e)"

lemma half_written_kept: "half_written a m m' f \<Longrightarrow> metadata_kept a m m' f"
  using metadata_apart(1) [of a] by (simp add: metadata_kept_def half_written_def)

lemma half_written_same: "m' = m \<Longrightarrow> half_written a m m' f"
  by (simp add: half_written_def)

context store_laws
begin

text \<open>Stored objects first, metadata then.\<close>

lemma write_then_metadata:
  assumes w: "wp (\<lambda>_. False) act s (\<lambda>_ t. written a (contents s) (contents t) f) (\<lambda>t. half_written a (contents s) (contents t) f)"
    and r: "io_bind act (\<lambda>_. io_bind (writeMetadata ops (a_path a) (marshal_array meta)) (\<lambda>_. io_ret x)) s = (r, t)"
  shows "case r of
      Inl _ \<Rightarrow> metadata_kept a (contents s) (contents t) f
    | Inr y \<Rightarrow> y = x \<and> metadata_set a meta (contents s) (contents t) f"
  using r
proof (rule io_bind_split)
  fix e assume "act s = (Inl e, t)" "r = Inl e"
  then show ?thesis using wp_Inl [OF w] half_written_kept by fastforce
next
  fix u v assume v: "act s = (Inr u, v)"
  have wr: "written a (contents s) (contents v) f" using wp_Inr [OF w v] by simp
  then have h: "half_written a (contents s) (contents v) f" by (auto simp: written_def half_written_def)
  assume "io_bind (writeMetadata ops (a_path a) (marshal_array meta)) (\<lambda>_. io_ret x) v = (r, t)"
  then show ?thesis
  proof (rule io_bind_split)
    fix e assume m: "writeMetadata ops (a_path a) (marshal_array meta) v = (Inl e, t)" "r = Inl e"
    have "contents t = contents v" using writeMetadata_spec [OF m(1)] by simp
    then show ?thesis using half_written_kept [OF h] m(2) by simp
  next
    fix z w assume m: "writeMetadata ops (a_path a) (marshal_array meta) v = (Inr z, w)" and "io_ret x w = (r, t)"
    then have r: "r = Inr x" "t = w" by auto
    from writeMetadata_spec [OF m] obtain doc where d: "marshal_array meta = Inr doc"
      "contents w = (contents v)(metadataKey (a_path a) := Some (bytes_of (indented doc)))" by auto
    have "done_at a (contents w) f e" if "inside e (a_shape a)" for e
      by (rule done_elsewhere [where m = "contents v"]) (use wr that d(2) metadata_apart(2) in \<open>auto simp: written_def\<close>)
    then show ?thesis using wr d r by (auto simp: metadata_set_def written_def)
  qed
qed

lemma Resize_spec:
  assumes r: "Resize W sched a S s = (r, t)" and made: "made W a" and ok: "arr_ok env cs a" and st: "a_store a = ops"
    and rd: "readable a (contents s)" and sched: "sched_ok sched"
    and fit: "fits_ints (a_grid a) S"
  shows "case r of
      Inl _ \<Rightarrow> metadata_kept a (contents s) (contents t) (resized_value a (reshaped a S) (contents s))
    | Inr b \<Rightarrow> b = reshaped a S \<and> metadata_set a (a_meta b) (contents s) (contents t) (resized_value a (reshaped a S) (contents s))"
proof -
  consider (refused) e where "r = Inl e" "t = s"
    | (go) b where "withShape W a S = Inr b" "io_bind (resizeStored sched a b) (\<lambda>_.
         io_bind (writeMetadata ops (a_path a) (marshal_array (a_meta b))) (\<lambda>_. io_ret b)) s = (r, t)"
    using r st unfolding Resize_def io_lift_bind by (auto dest!: sym [of "Inl _"] split: sum.split_asm)
  then show ?thesis
  proof cases
    case refused
    then show ?thesis by (simp add: half_written_kept half_written_same)
  next
    case go
    note b = withShape_reshaped [OF made go(1)]
    have okb: "arr_ok env cs (reshaped a S)" by (rule reshaped_ok [OF ok _ _ _ fit]) (use b in auto)
    have "wp (\<lambda>_. False) (resizeStored sched a b) s
        (\<lambda>_ t. written a (contents s) (contents t) (resized_value a (reshaped a S) (contents s)))
        (\<lambda>t. half_written a (contents s) (contents t) (resized_value a (reshaped a S) (contents s)))"
      using store_laws.wp_resizeStored [OF may_fail ok okb refl st rd sched] b by simp
    from write_then_metadata [OF this go(2)] show ?thesis using b by (auto split: sum.splits)
  qed
qed

end

end
