(* ===== verification/Appends.thy ===== *)
theory Appends
  imports Node_Laws
begin

text \<open>
  Appending to an array (\<open>Append\<close> of \<open>src/resize.go\<close>): the arithmetic of its shape on 64-bit integers,
  and what it leaves in a store.
\<close>

section \<open>Slices across an axis\<close>

abbreviation others :: "int list \<Rightarrow> nat \<Rightarrow> int" where
  "others S k \<equiv> (\<Prod>j \<in> {..<length S} - {k}. S ! j)"

lemma prod_list_nth: "prod_list xs = (\<Prod>j \<in> {..<length xs}. xs ! j)" for xs :: "int list"
proof (induction xs rule: rev_induct)
  case (snoc x xs)
  have "(\<Prod>j \<in> {..<length xs}. (xs @ [x]) ! j) = (\<Prod>j \<in> {..<length xs}. xs ! j)" by (rule prod.cong) (auto simp: nth_append)
  then show ?case using snoc by simp
qed simp

lemma prod_update: "k < length S \<Longrightarrow> prod_list (S[k := p]) = p * others S k"
proof -
  assume k: "k < length S"
  have "prod_list (S[k := p]) = (\<Prod>j \<in> {..<length S}. S[k := p] ! j)"
    by (subst prod_list_nth) simp
  also have "\<dots> = S[k := p] ! k * (\<Prod>j \<in> {..<length S} - {k}. S[k := p] ! j)" by (rule prod.remove) (use k in auto)
  also have "(\<Prod>j \<in> {..<length S} - {k}. S[k := p] ! j) = others S k" by (rule prod.cong) auto
  finally show ?thesis using k by simp
qed

lemma across_exact:
  assumes k: "k < length S" and pos: "\<forall>j < length S. j \<noteq> k \<longrightarrow> 0 < S ! j" and p: "0 < p" "prod_list (S[k := p]) \<le> maxInt64"
  shows "across S k = others S k" and "0 < others S k"
proof -
  show o: "0 < others S k" using pos by (intro prod_pos) auto
  have bound: "others S k \<le> maxInt64"
  proof -
    have "1 * others S k \<le> p * others S k" by (rule mult_right_mono) (use p(1) o in auto)
    then show ?thesis using p(2) by (simp add: prod_update [OF k])
  qed
  have "fold (\<lambda>j n. if j \<noteq> k then wrap64 (n * S ! j) else n) [0 ..< m] 1 = (\<Prod>j \<in> {..<m} - {k}. S ! j)" if "m \<le> length S" for m
    using that
  proof (induction m)
    case (Suc m)
    show ?case
    proof (cases "m = k")
      case True
      then have "{..<Suc m} - {k} = {..<m} - {k}" by auto
      then show ?thesis using Suc True by simp
    next
      case False
      have "{..<Suc m} - {k} = insert m ({..<m} - {k})" using False by auto
      then have e: "(\<Prod>j \<in> {..<Suc m} - {k}. S ! j) = (\<Prod>j \<in> {..<m} - {k}. S ! j) * S ! m" by simp
      have "(\<Prod>j \<in> {..<Suc m} - {k}. S ! j) \<le> others S k"
      proof (rule prod_mono2)
        fix j assume "j \<in> {..<length S} - {k} - ({..<Suc m} - {k})"
        then show "1 \<le> S ! j" using pos by (auto simp: int_one_le_iff_zero_less)
      next
        fix j assume "j \<in> {..<Suc m} - {k}"
        then have "j < length S" "j \<noteq> k" using Suc.prems by auto
        then show "0 \<le> S ! j" using pos by (simp add: less_imp_le)
      qed (use Suc.prems in auto)
      moreover have "0 \<le> (\<Prod>j \<in> {..<Suc m} - {k}. S ! j)" 
      proof (rule prod_nonneg)
        fix j assume "j \<in> {..<Suc m} - {k}"
        then have "j < length S" "j \<noteq> k" using Suc.prems by auto
        then show "0 \<le> S ! j" using pos by (simp add: less_imp_le)
      qed
      ultimately have "wrap64 ((\<Prod>j \<in> {..<m} - {k}. S ! j) * S ! m) = (\<Prod>j \<in> {..<m} - {k}. S ! j) * S ! m"
        using bound e by (intro wrap64_id) (simp add: in_int64_def minInt64_def)
      then show ?thesis using Suc False e by simp
    qed
  qed simp
  from this [of "length S"] show "across S k = others S k" by (simp add: across_def)
qed

lemma across_zero:
  assumes "j < length S" "j \<noteq> k" "S ! j = 0"
  shows "across S k = 0"
proof -
  let ?f = "\<lambda>j n. if j \<noteq> k then wrap64 (n * S ! j) else n"
  have w: "wrap64 0 = 0" by (simp add: wrap64_def)
  have z: "fold ?f js 0 = 0" for js by (induction js) (auto simp: w)
  have s: "fold ?f js n = 0" if "j \<in> set js" for js n
    using that by (induction js arbitrary: n) (auto simp: z w assms)
  show ?thesis unfolding across_def by (rule s) (use assms(1) in simp)
qed

lemma abs_sdiv_le: "\<bar>x sdiv y\<bar> \<le> \<bar>x :: int\<bar>"
proof -
  have "\<bar>x\<bar> div \<bar>y\<bar> \<le> \<bar>x\<bar>"
  proof (cases "y = 0")
    case False
    then show ?thesis using zdiv_mono2 [of "\<bar>x\<bar>" 1 "\<bar>y\<bar>"] by simp
  qed simp
  moreover have "0 \<le> \<bar>x\<bar> div \<bar>y\<bar>" by (simp add: div_int_pos_iff)
  ultimately show ?thesis by (auto simp: signed_divide_int_def sgn_if)
qed

text \<open>Whatever wraps around on the way, an append that is not refused has the new end where it should be.\<close>

lemma append_shape:
  assumes k: "k < length S" and nonneg: "\<forall>v \<in> set S. 0 \<le> v" and el: "elements S \<noteq> None"
    and acr: "across S k \<noteq> 0" "int N smod across S k = 0" and n: "n = int N sdiv across S k" "n \<noteq> 0"
    and at: "S ! k \<le> wrap64 (maxInt64 - n)" and N: "int N \<le> maxInt64"
    and S': "\<forall>v \<in> set (S[k := wrap64 (S ! k + n)]). 0 \<le> v" "elements (S[k := wrap64 (S ! k + n)]) \<noteq> None"
  shows "0 < n" and "wrap64 (S ! k + n) = S ! k + n" and "int N = prod_list (S[k := n])"
proof -
  let ?a = "across S k" and ?p = "wrap64 (S ! k + n)"
  have sk: "0 \<le> S ! k" using nonneg k by simp
  have pos: "\<forall>j < length S. j \<noteq> k \<longrightarrow> 0 < S ! j"
    using across_zero acr(1) nonneg by (metis nth_mem order_le_less)
  have exact: "?a = others S k \<and> 0 < ?a" if "0 < p" "elements (S[k := p]) \<noteq> None" for p
  proof -
    obtain m where "elements (S[k := p]) = Some m" using \<open>elements (S[k := p]) \<noteq> None\<close> by auto
    from elements_exact [OF this] have "prod_list (S[k := p]) \<le> maxInt64" by auto
    from across_exact [OF k pos that(1) this] show ?thesis by simp
  qed
  have div: "n = int N div ?a \<and> ?a * n = int N" if "0 < ?a"
    using that acr(2) n(1) by (auto simp: signed_divide_int_def signed_modulo_int_def sgn_if)
  have le: "\<bar>n\<bar> \<le> int N" using abs_sdiv_le [of "int N" ?a] n(1) by simp
  have 1: "0 < n \<and> ?p = S ! k + n"
  proof (cases "S ! k = 0")
    case True
    from le have "in_int64 (S ! k + n)" using N True by (simp add: in_int64_def minInt64_def maxInt64_def abs_le_iff)
    then have "?p = S ! k + n" by (rule wrap64_id)
    then show ?thesis using S'(1) True n(2) k by (metis add_0 nth_list_update_eq nth_mem length_list_update order_le_less)
  next
    case False
    then have "0 < S ! k" using sk by simp
    moreover have "elements (S[k := S ! k]) \<noteq> None" using el by simp
    ultimately have a: "0 < ?a" using exact by blast
    then have "0 \<le> n" using div by (simp add: pos_imp_zdiv_nonneg_iff)
    then have "0 < n" using n(2) by simp
    moreover have "wrap64 (maxInt64 - n) = maxInt64 - n"
      by (rule wrap64_id) (use \<open>0 < n\<close> le N in \<open>simp add: in_int64_def minInt64_def\<close>)
    then have "in_int64 (S ! k + n)" using at sk \<open>0 < n\<close> by (simp add: in_int64_def minInt64_def)
    ultimately show ?thesis using wrap64_id by simp
  qed
  then show "0 < n" "?p = S ! k + n" by auto
  have "?a = others S k \<and> 0 < ?a" by (rule exact [of ?p]) (use 1 sk S'(2) in simp_all)
  then show "int N = prod_list (S[k := n])" using div by (metis prod_update [OF k] mult.commute)
qed

section \<open>What is written\<close>

text \<open>The elements of an array that has been appended to: the slices are past the old end.\<close>

definition appended :: "'s arr \<Rightarrow> nat \<Rightarrow> elem list \<Rightarrow> (string \<Rightarrow> bytes option) \<Rightarrow> vec \<Rightarrow> elem" where
  "appended a k data m e =
     (let at = a_shape a ! k; n = length data div product_of ((a_shape a)[k := 1])
      in if e ! k < at then value_at a m e else data ! lin ((a_shape a)[k := n]) (e[k := e ! k - at]))"

context store_laws
begin

lemma metadata_cong:
  assumes "\<And>e. inside e (a_shape a) \<Longrightarrow> f e = g e"
  shows "metadata_kept a m m' f = metadata_kept a m m' g" "metadata_set a x m m' f = metadata_set a x m m' g"
  using assms by (auto simp: metadata_kept_def half_written_def metadata_set_def done_at_def)

lemma Append_spec:
  assumes r: "Append W sched a (a_type a) axis data s = (r, t)" and made: "made W a" and ok: "arr_ok env cs a" and st: "a_store a = ops"
    and wr: "mFormat (a_meta a) \<noteq> 2" and sched: "sched_ok sched"
    and rd: "\<And>S. readable (reshaped a S) (contents s)"
    and fit: "fits_ints (a_grid a) (map (\<lambda>v. v + int (length data)) (mShape (a_meta a)))"
    and d: "int (length data) \<le> maxInt64" "\<forall>x \<in> set data. type_of x = a_type a"
  shows "case r of
      Inl _ \<Rightarrow> metadata_kept a (contents s) (contents t) (value_at a (contents s))
    | Inr (at, b) \<Rightarrow> nat axis < length (mShape (a_meta a)) \<and> at = mShape (a_meta a) ! nat axis \<and>
        (data = [] \<and> b = a \<and> t = s \<or>
         b = reshaped a ((mShape (a_meta a))[nat axis := at + int (length data div product_of ((a_shape a)[nat axis := 1]))]) \<and>
         metadata_set b (a_meta b) (contents s) (contents t) (appended a (nat axis) data (contents s)))"
proof -
  let ?S = "mShape (a_meta a)" let ?k = "nat axis" let ?a = "across ?S ?k"
  let ?n = "int (length data) sdiv ?a" let ?S' = "?S[?k := wrap64 (?S ! ?k + ?n)]"
  consider (refused) e where "r = Inl e" "t = s" | (same) "?k < length ?S" "?a \<noteq> 0" "int (length data) smod ?a = 0" "?n = 0" "r = Inr (?S ! ?k, a)" "t = s"
    | (go) b where "?k < length ?S" "?a \<noteq> 0" "int (length data) smod ?a = 0" "?n \<noteq> 0" "?S ! ?k \<le> wrap64 (maxInt64 - ?n)"
        "withShape W a ?S' = Inr b"
        "io_bind (arr_write sched b (a_type a) (Some ((replicate (length ?S) 0)[?k := ?S ! ?k])) (Some (?S[?k := ?n])) data) (\<lambda>_.
           io_bind (writeMetadata ops (a_path a) (marshal_array (a_meta b))) (\<lambda>_. io_ret (?S ! ?k, b))) s = (r, t)"
    using r st unfolding Append_def io_lift_bind Let_def
    by (auto simp: not_le dest!: sym [of "Inl _"] split: sum.split_asm if_split_asm)
  then show ?thesis
  proof cases
    case refused
    then show ?thesis by (simp add: half_written_kept half_written_same)
  next
    case same
    from same(2-4) have "\<bar>int (length data)\<bar> div \<bar>?a\<bar> = 0" "\<bar>int (length data)\<bar> mod \<bar>?a\<bar> = 0"
      by (auto simp: signed_divide_int_def signed_modulo_int_def sgn_if split: if_splits)
    then have "data = []" using div_mult_mod_eq [of "\<bar>int (length data)\<bar>" "\<bar>?a\<bar>"] by simp
    then show ?thesis using same by simp
  next
    case go
    note b = withShape_reshaped [OF made go(6)]
    have nonneg: "\<forall>v \<in> set ?S. 0 \<le> v" and el: "elements ?S \<noteq> None" using ok by (auto simp: arr_ok_def)
    note n = append_shape [OF go(1) nonneg el go(2,3) refl go(4,5) d(1)]
    have k: "?k < length (a_shape a)" using go(1) by simp
    have bS: "b = reshaped a ?S'" using b by simp
    have S': "\<forall>v \<in> set ?S'. 0 \<le> v" "elements ?S' \<noteq> None" using b by auto
    note n = n [OF S']
    have sk: "0 \<le> ?S ! ?k" using nonneg go(1) by simp
    have le: "?n \<le> int (length data)" using abs_sdiv_le [of "int (length data)" ?a] by simp
    have okb: "arr_ok env cs b" unfolding bS
    proof (rule reshaped_ok [OF ok S'])
      show "fits_ints (a_grid a) ?S'"
        unfolding fits_ints_def
      proof (intro allI impI)
        fix i assume i: "i < length ?S'"
        then have "?S ! i + int (length data) + int (a_grid a ! i) \<le> maxInt64" using fit by (simp add: fits_ints_def)
        moreover have "?S' ! i \<le> ?S ! i + int (length data)" using i n(2) le by (cases "i = ?k") auto
        ultimately show "?S' ! i + int (a_grid a ! i) \<le> maxInt64" by simp
      qed
    qed simp
    let ?at = "nat (?S ! ?k)"
    let ?st = "(zeros (length ?S))[?k := ?at]" let ?sh = "(a_shape a)[?k := nat ?n]"
    have ints: "map int (a_shape a) = ?S" using nonneg by (auto simp: map_idI)
    have i1: "(replicate (length ?S) 0)[?k := ?S ! ?k] = ints ?st" using sk by (simp add: map_update)
    have i2: "?S[?k := ?n] = ints ?sh" using n(1) ints by (simp add: map_update del: map_map)
    have shb: "a_shape b = (a_shape a)[?k := ?at + nat ?n]"
      using n(1,2) sk by (simp add: bS map_update nat_add_distrib)
    have others: "int (length data) = ?n * others ?S ?k" using n(3) prod_update [OF go(1)] by simp
    have slices: "length data div product_of ((a_shape a)[?k := 1]) = nat ?n"
    proof -
      have "int (product_of ((a_shape a)[?k := 1])) = prod_list (?S[?k := 1])" using ints by (simp add: prod_ints [symmetric] map_update)
      then have o: "int (product_of ((a_shape a)[?k := 1])) = others ?S ?k" using prod_update [OF go(1)] by simp
      have "others ?S ?k \<noteq> 0"
      proof
        assume "others ?S ?k = 0"
        then have "int (length data) = 0" using others by (simp only: mult_zero_right)
        then show False using n(1) by (simp add: signed_divide_int_def)
      qed
      then have "int (length data) div others ?S ?k = ?n" using others by (metis nonzero_mult_div_cancel_right)
      then show ?thesis by (metis o nat_int of_nat_div)
    qed
    have fits: "fits ?st ?sh (a_shape b)" unfolding shb using go(1) by (auto simp: fits_nth nth_list_update)
    obtain lo hi where rg: "region b (Some (ints ?st)) (Some (ints ?sh)) (a_grid b) = Inr (?st, ?sh, lo, hi, 0 \<in> set ?sh)"
      using region_within [OF fits] S'(1) unfolding bS reshaped_simps by metis
    have "int (length data) = int (product_of ?sh)" using n(3) unfolding i2 by (simp add: prod_ints)
    then have len: "length data = product_of ?sh" by simp
    have "wp (\<lambda>_. False) (arr_write sched b (a_type b) (Some (ints ?st)) (Some (ints ?sh)) data) s
        (\<lambda>_ t. written b (contents s) (contents t) (new_value b (contents s) ?st ?sh data))
        (\<lambda>t. half_written b (contents s) (contents t) (new_value b (contents s) ?st ?sh data))"
      by (rule store_laws.write_correct [OF may_fail okb _ _ _ sched _ rg len])
        (use st rd wr d(2) bS in \<open>auto simp: reshaped_def\<close>)
    note w = write_then_metadata [OF this]
    have f: "new_value b (contents s) ?st ?sh data e = appended a ?k data (contents s) e" if e: "inside e (a_shape b)" for e
    proof -
      have le: "length e = length ?S" "\<And>j. j < length ?S \<Longrightarrow> e ! j < a_shape b ! j"
        using e bS by (auto simp: list_all2_conv_all_nth)
      have lk: "e ! ?k < ?at + nat ?n" using le(2) [OF go(1)] go(1) by (simp add: shb)
      have lj: "e ! j < nat (?S ! j)" if "j < length ?S" "?k \<noteq> j" for j using le(2) [OF that(1)] that by (simp add: shb)
      have "in_block ?st ?sh e \<longleftrightarrow> ?at \<le> e ! ?k"
        using le(1) lk lj go(1) by (auto simp: in_block_nth nth_list_update)
      moreover have "minusV e ?st = e[?k := e ! ?k - ?at]"
        by (rule nth_equalityI) (use le go(1) in \<open>auto simp: minusV_def nth_list_update\<close>)
      moreover have "length data div product_of ((a_shape a)[?k := 1]) = nat ?n" by (rule slices)
      ultimately show ?thesis using go(1) by (simp add: new_value_def appended_def Let_def bS not_le)
    qed
    have act: "io_bind (arr_write sched b (a_type b) (Some (ints ?st)) (Some (ints ?sh)) data) (\<lambda>_.
        io_bind (writeMetadata ops (a_path b) (marshal_array (a_meta b))) (\<lambda>_. io_ret (?S ! ?k, b))) s = (r, t)"
      using go(7) unfolding i1 i2 by (simp add: bS)
    note w = w [OF act]
    note cong = metadata_cong [where a = b and f = "new_value b (contents s) ?st ?sh data" and g = "appended a ?k data (contents s)"]
    have p: "b = reshaped a (?S[?k := ?S ! ?k + int (length data div product_of ((a_shape a)[?k := 1]))])"
      using slices n(1,2) by (simp add: bS)
    show ?thesis
    proof (cases r)
      case (Inl e)
      then have kept: "metadata_kept b (contents s) (contents t) (appended a ?k data (contents s))"
        using w cong(1) [OF f] by simp
      have old: "e ! ?k < ?at \<and> inside e (a_shape b)" if "inside e (a_shape a)" for e
        using that go(1) unfolding shb by (fastforce simp: list_all2_conv_all_nth nth_list_update)
      have eq: "own_key b = own_key a" "done_at b = done_at a" "cell_key b = cell_key a" "a_path b = a_path a"
        by (simp_all add: own_key_def done_at_def fun_eq_iff bS)
      have "half_written a (contents s) (contents t) (value_at a (contents s))"
        unfolding half_written_def
      proof (intro conjI allI impI)
        fix key assume "\<not> own_key a key"
        then show "contents t key = contents s key" using kept eq(1) by (auto simp: metadata_kept_def half_written_def)
      next
        fix e assume e: "inside e (a_shape a)"
        have "contents t (cell_key a e) = contents s (cell_key a e) \<or> done_at a (contents t) (appended a ?k data (contents s)) e"
          using kept old [OF e] unfolding metadata_kept_def half_written_def eq by blast
        moreover have "appended a ?k data (contents s) e = value_at a (contents s) e"
          using old [OF e] go(1) by (simp add: appended_def Let_def)
        ultimately show "contents t (cell_key a e) = contents s (cell_key a e) \<or> done_at a (contents t) (value_at a (contents s)) e"
          unfolding done_at_def by (simp only:)
      qed
      then have "metadata_kept a (contents s) (contents t) (value_at a (contents s))" by (rule half_written_kept)
      then show ?thesis using Inl by simp
    next
      case (Inr y)
      then have "y = (?S ! ?k, b)" "metadata_set b (a_meta b) (contents s) (contents t) (appended a ?k data (contents s))"
        using w cong(2) [OF f] by simp_all
      then show ?thesis using Inr p go(1) by simp
    qed
  qed
qed

end

end
