(* ===== verification/Node_Examples.thy ===== *)
theory Node_Examples
  imports Appends Array_Theorems Config_Theorems
begin

text \<open>
  An array of three bytes in chunks of two, created in a memory store, on which the properties of
  nodes are shown to apply.
\<close>

definition demo_world :: world where
  "demo_world = \<lparr>w_env = demo_env, w_reg = (\<lambda>_. None), w_float = bits_text, w_named = (\<lambda>_. Inl ErrUnsupported)\<rparr>"

definition demo_options :: array_options where
  "demo_options = \<lparr>oShape = [3], oChunk = [2], oShard = None, oType = Uint8, oFill = GoInt 7, oCodecs = None, oSep = [],
     oDims = None, oAttrs = []\<rparr>"

definition node_meta :: array_metadata where
  "node_meta = option_metadata bits_text demo_options (VUint8 7)
     [\<lparr>nName = ''bytes'', nConfig = marshal_object [(''endian'', marshal_string ''little'')], nMust = None\<rparr>] []"

definition node_array :: "memstore arr" where
  "node_array =
     \<lparr>a_store = memory_ops, a_path = ''y'', a_meta = node_meta, a_keys = \<lparr>k_v2 = False, k_sep = ''/''\<rparr>,
      a_fill = VUint8 7, a_codecs = demo_pipe, a_grid = [2], a_chunks = [2], a_perShard = [1], a_shard = None, a_indexSize = 0,
      a_writeEmpty = False, a_concurrency = 0\<rparr>"

lemma node_fields: "mShape node_meta = [3]" "mType node_meta = Uint8" "mFormat node_meta = 3" "mTransformers node_meta = []"
    "nName (mGrid node_meta) = ''regular''" "mDims node_meta = None"
    "mCodecs node_meta = [\<lparr>nName = ''bytes'', nConfig = marshal_object [(''endian'', marshal_string ''little'')], nMust = None\<rparr>]"
  by (simp_all add: node_meta_def option_metadata_def demo_options_def dimension_names_def)

lemma node_parses:
  "grid_shape (nConfig (mGrid node_meta)) = Some [2]"
  "parseKeyEncoding (mKeyEnc node_meta) = Inr \<lparr>k_v2 = False, k_sep = ''/''\<rparr>"
  "parseFill bits_text Uint8 (mFill node_meta) = Inr (VUint8 7)"
  "parseBytes (marshal_object [(''endian'', marshal_string ''little'')]) Uint8 = Inr (BytesCodec ''little'')"
  by code_simp+

lemma node_codecs: "codecs_for demo_env (\<lambda>_. None) node_meta None = Inr [BytesCodec ''little'']"
proof -
  have "parseCodec demo_env (\<lambda>_. None) \<lparr>nName = ''bytes'', nConfig = marshal_object [(''endian'', marshal_string ''little'')], nMust = None\<rparr> Uint8 =
      Inr (BytesCodec ''little'')"
    by (subst parseCodec_eq) (simp add: node_parses)
  then show ?thesis by (simp add: codecs_for_def newPipeline_def node_fields codec_pipeline_def)
qed

lemma node_newArray: "newArray demo_env (\<lambda>_. None) bits_text memory_ops ''y'' node_meta = Inr node_array"
  unfolding makeArray_iff node_array_def
  by (simp add: node_fields node_parses node_codecs codec_pipeline_def demo_pipe_def shard_parts_def elements_def maxInt64_def
      storedBytes_def maxStoredBytes_def wrap64_id in_int64_def minInt64_def)

lemma node_made: "made demo_world node_array"
  using node_newArray by (simp add: made_def demo_world_def) (simp add: node_array_def)

lemma node_ok: "arr_ok demo_env plain_codecs node_array"
proof -
  have p: "plain_array = node_array\<lparr>a_meta := a_meta plain_array, a_concurrency := 1\<rparr>" by (simp add: plain_array_def node_array_def)
  have "storedSpec node_array = storedSpec plain_array" "shard_fields demo_env plain_codecs node_array"
    by (simp_all add: storedSpec_def plain_array_def node_array_def node_fields demo_meta_def shard_fields_def plain_codecs_def)
  then show ?thesis using plain_ok
    by (simp add: arr_ok_def index_limit_def fits_ints_def node_fields) (simp add: plain_array_def node_array_def node_fields demo_meta_def)
qed

lemma node_document: "\<exists>doc. marshal_array node_meta = Inr doc"
proof -
  have "(case marshal_array node_meta of Inl _ \<Rightarrow> False | Inr _ \<Rightarrow> True)" by code_simp
  then show ?thesis by (auto split: sum.splits)
qed

text \<open>The metadata of the array at other shapes is written too.\<close>

lemma node_documents: "\<exists>doc. marshal_array (node_meta\<lparr>mShape := S\<rparr>) = Inr doc"
  using node_document by (auto simp: marshal_array_def rbind_Inr_iff)

lemma node_withShape:
  assumes "elements [n] \<noteq> None" "0 \<le> n"
  shows "withShape demo_world node_array [n] = Inr (reshaped node_array [n])"
proof -
  have f: "a_store node_array = memory_ops" "a_path node_array = ''y''" "a_meta node_array = node_meta" by (simp_all add: node_array_def)
  have "newArray demo_env (\<lambda>_. None) bits_text memory_ops ''y'' (node_meta\<lparr>mShape := [n]\<rparr>) = Inr (reshaped node_array [n])"
    by (rule newArray_reshaped [OF node_newArray]) (use assms in \<open>simp_all add: node_fields\<close>)
  then show ?thesis using f by (simp add: withShape_def demo_world_def node_fields) (simp add: reshaped_def node_array_def)
qed

lemma node_writeMetadata:
  assumes "mem_live s" "doc = Inr d"
  shows "\<exists>t. writeMetadata memory_ops ''y'' doc s = (Inr (), t)"
proof -
  have "checkKey ''y/zarr.json'' = Inr ()" by (simp add: checkKey_def validSegments_def)
  from memory.set_live [OF assms(1) this, of "bytes_of (indented d)"] show ?thesis using assms(2)
    by (auto simp: writeMetadata_def metadataKey_def join_path_def)
qed

abbreviation (input) backwards :: "nat \<Rightarrow> nat list" where
  "backwards \<equiv> \<lambda>n. rev [0 ..< n]"

lemma node_store: "readable (reshaped node_array S) (mem_contents newMemoryStore)" "readable node_array (mem_contents newMemoryStore)"
  by (simp_all add: readable_def sound_object_def demo_new content_def)

lemma node_resize: "\<exists>t. Resize demo_world backwards node_array [1] newMemoryStore = (Inr (reshaped node_array [1]), t)"
proof -
  let ?b = "reshaped node_array [1]"
  have el: "elements [1] \<noteq> None" by (simp add: elements_def maxInt64_def)
  have b: "withShape demo_world node_array [1] = Inr ?b" by (rule node_withShape [OF el]) simp
  have okb: "arr_ok demo_env plain_codecs ?b" by (rule reshaped_ok [OF node_ok]) (use el in \<open>simp_all add: node_array_def node_fields fits_ints_def maxInt64_def\<close>)
  have "wp mem_live (resizeStored backwards node_array ?b) newMemoryStore
      (\<lambda>_ t. written node_array (mem_contents newMemoryStore) (mem_contents t) (resized_value node_array ?b (mem_contents newMemoryStore)))
      (\<lambda>t. half_written node_array (mem_contents newMemoryStore) (mem_contents t) (resized_value node_array ?b (mem_contents newMemoryStore)))"
    by (rule memory.wp_resizeStored [OF node_ok okb refl _ node_store(2)])
      (use demo_sched in \<open>simp_all add: node_array_def node_fields maxInt64_def\<close>)
  then obtain t where t: "resizeStored backwards node_array ?b newMemoryStore = (Inr (), t)" "mem_live t"
    using wp_live demo_new(2) by fastforce
  obtain d where "marshal_array (node_meta\<lparr>mShape := [1]\<rparr>) = Inr d" using node_documents by blast
  from node_writeMetadata [OF t(2) this] show ?thesis
    using b t(1) by (auto simp: Resize_def io_lift_bind io_bind_def writable_def readOnly_def node_array_def node_fields reshaped_def)
qed

lemma node_append:
  "\<exists>t. Append demo_world backwards node_array Uint8 0 [VUint8 1, VUint8 2] newMemoryStore = (Inr (3, reshaped node_array [5]), t)"
proof -
  let ?b = "reshaped node_array [5]"
  have el: "elements [5] \<noteq> None" by (simp add: elements_def maxInt64_def)
  have b: "withShape demo_world node_array [5] = Inr ?b" by (rule node_withShape [OF el]) simp
  have okb: "arr_ok demo_env plain_codecs ?b" by (rule reshaped_ok [OF node_ok]) (use el in \<open>simp_all add: node_array_def node_fields fits_ints_def maxInt64_def\<close>)
  have f: "a_type ?b = Uint8" "a_store ?b = memory_ops" "mFormat (a_meta ?b) \<noteq> 2" "a_shape ?b = [5]" "mShape (a_meta ?b) = [5]"
    by (simp_all add: reshaped_def node_array_def node_fields)
  obtain lo hi where rg: "region ?b (Some (ints [3])) (Some (ints [2])) (a_grid ?b) = Inr ([3], [2], lo, hi, 0 \<in> set [2 :: nat])"
    using region_within [of "[3]" "[2]" ?b "a_grid ?b"] f by auto
  have "wp mem_live (arr_write backwards ?b (a_type ?b) (Some (ints [3])) (Some (ints [2])) [VUint8 1, VUint8 2]) newMemoryStore
      (\<lambda>_ t. written ?b (mem_contents newMemoryStore) (mem_contents t) (new_value ?b (mem_contents newMemoryStore) [3] [2] [VUint8 1, VUint8 2]))
      (\<lambda>t. half_written ?b (mem_contents newMemoryStore) (mem_contents t) (new_value ?b (mem_contents newMemoryStore) [3] [2] [VUint8 1, VUint8 2]))"
    by (rule memory.write_correct [OF okb f(2) node_store(1) f(3) _ _ rg]) (use demo_sched f(1) in simp_all)
  then obtain t where t: "arr_write backwards ?b Uint8 (Some [3]) (Some [2]) [VUint8 1, VUint8 2] newMemoryStore = (Inr (), t)" "mem_live t"
    using wp_live demo_new(2) f(1) by fastforce
  obtain d where "marshal_array (node_meta\<lparr>mShape := [5]\<rparr>) = Inr d" using node_documents by blast
  from node_writeMetadata [OF t(2) this] obtain u where u: "writeMetadata memory_ops ''y'' (marshal_array (a_meta ?b)) t = (Inr (), u)"
    by (auto simp: reshaped_def node_array_def)
  have w: "wrap64 1 = 1" "wrap64 9223372036854775805 = 9223372036854775805" "wrap64 5 = 5" by (simp_all add: wrap64_def)
  have a: "across [3] 0 = 1" by (simp add: across_def)
  have g: "mShape (a_meta node_array) = [3]" "a_store node_array = memory_ops" "a_path node_array = ''y''" "writable node_array = Inr ()"
    "checkType node_array Uint8 = Inr ()"
    by (simp_all add: node_array_def node_fields writable_def readOnly_def checkType_def)
  show ?thesis unfolding Append_def io_lift_bind Let_def g
    by (simp add: a w b t(1) u io_bind_def maxInt64_def signed_divide_int_def signed_modulo_int_def)
qed

end
