(* ===== verification/Node_Theorems.thy ===== *)
theory Node_Theorems
  imports Node_Examples
begin

text \<open>
  What creating, opening and changing nodes is right about, over any store that keeps its contract.
\<close>

section \<open>Creating\<close>

text \<open>C23: creating an array where there is no node writes its metadata and nothing else, and gives the
  array of that metadata, with the shape, the type and the fill value that were asked for; where there
  is a node already, or anything is refused or fails, nothing is written. (\<open>CreateArray\<close>, \<open>mustBeNew\<close> and
  \<open>writeMetadata\<close>.)\<close>

theorem create_array_exact:
  assumes "store_laws ops contents live" "float_text_ok (w_float W)"
  shows "case CreateArray W ops path opts s of
      (Inl e, t) \<Rightarrow> contents t = contents s
    | (Inr a, t) \<Rightarrow>
        contents s (metadataKey path) = None \<and>
        (\<exists>doc. marshal_array (a_meta a) = Inr doc \<and>
           contents t = (contents s)(metadataKey path := Some (bytes_of (indented doc)))) \<and>
        a_store a = ops \<and> a_path a = path \<and> mShape (a_meta a) = oShape opts \<and> a_type a = oType opts \<and> made W a \<and>
        (\<exists>fill. fillFrom (oType opts) (oFill opts) = Inr fill \<and> veq fill (a_fill a))"
proof -
  obtain r t where rt: "CreateArray W ops path opts s = (r, t)" by fastforce
  have fill: "veq fill (a_fill a)"
    if "made W a" "fillFrom (a_type a) v = Inr fill" "mFill (a_meta a) = formatFill (w_float W) fill" for a :: "'a arr" and v fill
  proof -
    have "parseFill (w_float W) (a_type a) (mFill (a_meta a)) = Inr (a_fill a)"
      using that(1) unfolding made_def makeArray_iff by (cases a) auto
    then show ?thesis using parse_format_fill [OF assms(2), of fill] fillFrom_type [OF that(2)] that(3) by auto
  qed
  from store_laws.CreateArray_spec [OF assms(1) rt] show ?thesis
    unfolding rt using fill by (cases r) auto
qed

theorem create_array_exact_witness:
  "\<exists>a t doc. CreateArray demo_world memory_ops ''y'' demo_options newMemoryStore = (Inr a, t) \<and>
     marshal_array (a_meta a) = Inr doc \<and> mem_contents t = [''y/zarr.json'' \<mapsto> bytes_of (indented doc)] \<and> veq (VUint8 7) (a_fill a)"
proof -
  have w: "float_text_ok (w_float demo_world)" using bits_text_ok by (simp add: demo_world_def)
  have f: "fillFrom Uint8 (GoInt 7) = Inr (VUint8 7)"
    by (simp add: fillFrom_def is_signed_def is_float_def fits_uint_def bits_of_type_def set_int_def)
  have k: "metadataKey ''y'' = ''y/zarr.json''" by (simp add: metadataKey_def join_path_def)
  obtain doc where doc: "marshal_array node_meta = Inr doc" using node_document by blast
  have "CreateArray demo_world memory_ops ''y'' demo_options newMemoryStore =
      io_bind (writeMetadata memory_ops ''y'' (marshal_array node_meta)) (\<lambda>_. io_ret node_array) newMemoryStore"
  proof -
    have "mustBeNew memory_ops ''y'' newMemoryStore = (Inr (), newMemoryStore)"
      by (simp add: mustBeNew_def io_bind_def memory_ops_def mem_get_def checkPath_def validSegments_def newMemoryStore_def ctx_Err_def
          lookup_empty k checkKey_def)
    moreover have "namedCodecs (w_named demo_world) (option_codecs demo_options) =
        Inr [\<lparr>nName = ''bytes'', nConfig = marshal_object [(''endian'', marshal_string ''little'')], nMust = None\<rparr>]"
      by (simp add: namedCodecs_def option_codecs_def demo_options_def)
    moreover have "withAttributes [] (oAttrs demo_options) = Inr []" by (simp add: withAttributes_def demo_options_def)
    moreover have "oType demo_options = Uint8" "oFill demo_options = GoInt 7" "a_meta node_array = node_meta"
      "w_env demo_world = demo_env" "w_reg demo_world = (\<lambda>_. None)" "w_float demo_world = bits_text"
      by (simp_all add: demo_options_def node_array_def demo_world_def)
    ultimately show ?thesis
      using f node_newArray by (simp add: CreateArray_def io_lift_bind io_bind_def [of "mustBeNew _ _"] node_meta_def [symmetric])
  qed
  moreover have "\<exists>t. writeMetadata memory_ops ''y'' (marshal_array node_meta) newMemoryStore = (Inr (), t)"
    by (simp add: writeMetadata_def doc memory_ops_def mem_set_def newMemoryStore_def ctx_Err_def k checkKey_def validSegments_def io_bind_def)
  ultimately obtain t where c: "CreateArray demo_world memory_ops ''y'' demo_options newMemoryStore = (Inr node_array, t)"
    by (auto simp: io_bind_def)
  from create_array_exact [OF memory.store_laws_axioms w, where path = "''y''" and opts = demo_options and s = newMemoryStore]
  show ?thesis unfolding c k using f by (auto simp: demo_options_def demo_new)
qed

section \<open>Changing the shape\<close>

text \<open>C24: resizing an array cuts off or adds what its new shape does, and only then writes its metadata: in
  the new array every element within both shapes is as it was, and every element of the old one past
  the new end has become the fill value. A resize that is refused or fails leaves the metadata as it was,
  and each stored object as it was or done. (\<open>Resize\<close>, with \<open>withShape\<close>, \<open>resizeStored\<close> and \<open>writeMetadata\<close>.)\<close>

theorem resize_array_exact:
  assumes "store_laws ops contents live" "made W a" "arr_ok env cs a" "a_store a = ops" "readable a (contents s)" "sched_ok sched"
    and "fits_ints (a_grid a) S"
  shows "case Resize W sched a S s of
      (Inl _, t) \<Rightarrow>
        contents t (metadataKey (a_path a)) = contents s (metadataKey (a_path a)) \<and>
        (\<forall>key. \<not> own_key a key \<longrightarrow> contents t key = contents s key) \<and>
        (\<forall>e. inside e (a_shape a) \<longrightarrow> contents t (cell_key a e) = contents s (cell_key a e) \<or>
           done_at a (contents t) (\<lambda>e. if inside e (map nat S) then value_at a (contents s) e else a_fill a) e)
    | (Inr b, t) \<Rightarrow>
        b = reshaped a S \<and>
        (\<exists>doc. marshal_array (a_meta b) = Inr doc \<and> contents t (metadataKey (a_path a)) = Some (bytes_of (indented doc))) \<and>
        (\<forall>key. \<not> own_key a key \<longrightarrow> key \<noteq> metadataKey (a_path a) \<longrightarrow> contents t key = contents s key) \<and>
        (\<forall>e. inside e (a_shape a) \<longrightarrow>
           done_at a (contents t) (\<lambda>e. if inside e (map nat S) then value_at a (contents s) e else a_fill a) e)"
proof -
  obtain r t where rt: "Resize W sched a S s = (r, t)" by fastforce
  have f: "done_at a m (resized_value a (reshaped a S) (contents s)) e \<longleftrightarrow>
      done_at a m (\<lambda>e. if inside e (map nat S) then value_at a (contents s) e else a_fill a) e"
    if "inside e (a_shape a)" for m e
    using that by (simp add: done_at_def resized_value_def)
  from store_laws.Resize_spec [OF assms(1) rt assms(2-7)] show ?thesis
    unfolding rt by (cases r) (simp_all add: metadata_kept_def half_written_def metadata_set_def f)
qed

theorem resize_array_exact_witness:
  "\<exists>t. Resize demo_world backwards node_array [1] newMemoryStore = (Inr (reshaped node_array [1]), t) \<and>
     done_at node_array (mem_contents t) (\<lambda>_. VUint8 7) [2]"
proof -
  obtain t where t: "Resize demo_world backwards node_array [1] newMemoryStore = (Inr (reshaped node_array [1]), t)"
    using node_resize by blast
  have f: "a_store node_array = memory_ops" "a_shape node_array = [3]" "a_fill node_array = VUint8 7" "mShape (a_meta node_array) = [3]"
    "a_grid node_array = [2]" by (simp_all add: node_array_def node_fields)
  from resize_array_exact [OF memory.store_laws_axioms node_made node_ok f(1) node_store(2), of backwards "[1]"]
  have "done_at node_array (mem_contents t) (\<lambda>e. if inside e [1] then value_at node_array (mem_contents newMemoryStore) e else a_fill node_array) [2]"
    unfolding t using demo_sched by (auto simp: maxInt64_def fits_ints_def f)
  then show ?thesis using t by (simp add: done_at_def f)
qed

text \<open>C25: appending to an array along an axis puts the slices past its old end and gives the index they begin
  at: in the new array every old element is as it was, and the new ones are the data, in its order. An
  append that is refused or fails leaves the metadata as it was, and with it an array whose every element
  is as it was - whatever wraps around on the way, no append that is not refused is of another shape.
  (\<open>Append\<close>, with \<open>withShape\<close>, \<open>Write\<close> and \<open>writeMetadata\<close>.)\<close>

theorem append_exact:
  assumes "store_laws ops contents live" "made W a" "arr_ok env cs a" "a_store a = ops" "mFormat (a_meta a) \<noteq> 2" "sched_ok sched"
    and "\<forall>S. readable (reshaped a S) (contents s)" "fits_ints (a_grid a) (map (\<lambda>v. v + int (length data)) (mShape (a_meta a)))"
    and "int (length data) \<le> maxInt64" "\<forall>x \<in> set data. type_of x = a_type a"
  shows "case Append W sched a (a_type a) axis data s of
      (Inl _, t) \<Rightarrow>
        contents t (metadataKey (a_path a)) = contents s (metadataKey (a_path a)) \<and>
        (\<forall>e. inside e (a_shape a) \<longrightarrow> contents t (cell_key a e) = contents s (cell_key a e) \<or>
           done_at a (contents t) (value_at a (contents s)) e)
    | (Inr (at, b), t) \<Rightarrow>
        at = mShape (a_meta a) ! nat axis \<and>
        (data = [] \<and> b = a \<and> t = s \<or>
         (let n = length data div product_of ((a_shape a)[nat axis := 1])
          in b = reshaped a ((mShape (a_meta a))[nat axis := at + int n]) \<and>
             (\<exists>doc. marshal_array (a_meta b) = Inr doc \<and> contents t (metadataKey (a_path a)) = Some (bytes_of (indented doc))) \<and>
             (\<forall>e. inside e (a_shape b) \<longrightarrow>
                done_at b (contents t) (\<lambda>e. if e ! nat axis < nat at then value_at a (contents s) e
                   else data ! lin ((a_shape a)[nat axis := n]) (e[nat axis := e ! nat axis - nat at])) e)))"
proof -
  obtain r t where rt: "Append W sched a (a_type a) axis data s = (r, t)" by fastforce
  have rd: "readable (reshaped a S) (contents s)" for S using assms(7) by simp
  note spec = store_laws.Append_spec [OF assms(1) rt assms(2-6) rd assms(8-10)]
  show ?thesis
  proof (cases r)
    case (Inl e)
    then show ?thesis using spec unfolding rt by (simp add: metadata_kept_def half_written_def)
  next
    case (Inr y)
    obtain at b where y: "y = (at, b)" by (cases y)
    have k: "nat axis < length (mShape (a_meta a))" "at = mShape (a_meta a) ! nat axis" using spec unfolding Inr y by simp_all
    have f: "appended a (nat axis) data (contents s) = (\<lambda>e. if e ! nat axis < nat at then value_at a (contents s) e
        else data ! lin ((a_shape a)[nat axis := length data div product_of ((a_shape a)[nat axis := 1])])
               (e[nat axis := e ! nat axis - nat at]))"
      using k by (simp add: fun_eq_iff appended_def Let_def)
    have "data = [] \<and> b = a \<and> t = s \<or>
        b = reshaped a ((mShape (a_meta a))[nat axis := at + int (length data div product_of ((a_shape a)[nat axis := 1]))]) \<and>
        metadata_set b (a_meta b) (contents s) (contents t) (appended a (nat axis) data (contents s))"
      using spec unfolding Inr y sum.case prod.case by blast
    then show ?thesis
    proof (elim disjE conjE)
      assume b: "b = reshaped a ((mShape (a_meta a))[nat axis := at + int (length data div product_of ((a_shape a)[nat axis := 1]))])"
        and m: "metadata_set b (a_meta b) (contents s) (contents t) (appended a (nat axis) data (contents s))"
      have p: "a_path b = a_path a" by (simp add: b)
      note m = m [unfolded metadata_set_def f p]
      show ?thesis unfolding rt Inr y Let_def prod.case sum.case
        by (intro conjI disjI2, rule k(2), rule b, rule conjunct1 [OF m], rule conjunct2 [OF conjunct2 [OF m]])
    next
      assume "data = []" "b = a" "t = s"
      then show ?thesis unfolding rt Inr y sum.case prod.case using k(2) by simp
    qed
  qed
qed

theorem append_exact_witness:
  "\<exists>t. Append demo_world backwards node_array Uint8 0 [VUint8 1, VUint8 2] newMemoryStore = (Inr (3, reshaped node_array [5]), t) \<and>
     done_at (reshaped node_array [5]) (mem_contents t) (\<lambda>e. [VUint8 1, VUint8 2] ! (e ! 0 - 3)) [4]"
proof -
  obtain t where t: "Append demo_world backwards node_array Uint8 0 [VUint8 1, VUint8 2] newMemoryStore = (Inr (3, reshaped node_array [5]), t)"
    using node_append by blast
  have f: "a_type node_array = Uint8" "a_store node_array = memory_ops" "mFormat (a_meta node_array) \<noteq> 2"
    "mShape (a_meta node_array) = [3]"
    by (simp_all add: node_array_def node_fields)
  have g: "a_grid node_array = [2]" by (simp add: node_array_def)
  have "\<forall>S. readable (reshaped node_array S) (mem_contents newMemoryStore)" using node_store(1) by simp
  from append_exact [OF memory.store_laws_axioms node_made node_ok f(2,3) _ this _, of backwards "[VUint8 1, VUint8 2]" 0]
  have "\<forall>e. inside e (a_shape (reshaped node_array [5])) \<longrightarrow> done_at (reshaped node_array [5]) (mem_contents t)
      (\<lambda>e. if e ! 0 < 3 then value_at node_array (mem_contents newMemoryStore) e else [VUint8 1, VUint8 2] ! lin [Suc (Suc 0)] (e[0 := e ! 0 - 3])) e"
    unfolding f(1) t using demo_sched by (auto simp: maxInt64_def fits_ints_def g f cong: if_cong)
  then have "done_at (reshaped node_array [5]) (mem_contents t)
      (\<lambda>e. if e ! 0 < 3 then value_at node_array (mem_contents newMemoryStore) e else [VUint8 1, VUint8 2] ! lin [Suc (Suc 0)] (e[0 := e ! 0 - 3])) [4]"
    by simp
  then show ?thesis using t by (simp add: done_at_def)
qed

end
