(* ===== verification/Open_Laws.thy ===== *)
theory Open_Laws
  imports Node_Laws
begin

text \<open>
  What holds of an array that opens: its codecs are ones that decode what they encode, and it is put
  together as reading and writing ask.
\<close>

text \<open>Every parser that is registered makes codecs of its own.\<close>

definition registry_ok :: "registry \<Rightarrow> bool" where
  "registry_ok reg \<longleftrightarrow> (\<forall>name parse cfg d c. reg name = Some parse \<longrightarrow> parse cfg d = Inr c \<longrightarrow> (\<exists>x. c = ExtCodec x))"

text \<open>A codec that holds others, or is from outside.\<close>

definition foreign :: "codec \<Rightarrow> bool" where
  "foreign c \<longleftrightarrow> (case c of ShardingCodec _ _ _ _ \<Rightarrow> True | ExtCodec _ \<Rightarrow> True | _ \<Rightarrow> False)"

lemma parsed_codec_ok:
  assumes c: "parseCodec env reg n d = Inr c" and reg: "registry_ok reg" and env: "env_ok env" and f: "\<not> foreign c"
    and spec: "spType spec = d" "storedBytes (ints (spShape spec)) d = Inr z"
  shows "codec_ok env c spec"
proof -
  have b: "codec_ok env c spec" if "parseBytes cfg d = Inr c" for cfg
    using that spec by (auto simp: parseBytes_def rbind_Inr_iff bytes_ok_def split: if_splits option.splits)
  have g: "codec_ok env c spec" if "parseGzip cfg d = Inr c \<or> parseZlib cfg d = Inr c \<or> parseShuffle cfg d = Inr c" for cfg
    using that env by (auto simp: parseGzip_def parseZlib_def parseShuffle_def split: if_splits option.splits)
  show ?thesis
  proof (cases "reg (nName n)")
    case None
    then show ?thesis using c f b g unfolding parseCodec_eq [of env reg n d]
      by (auto simp: parseSharding_def foreign_def rbind_Inr_iff split: if_splits option.splits prod.splits)
  next
    case (Some p)
    then have "p (nConfig n) d = Inr c" using c by (subst (asm) parseCodec_eq) simp
    then obtain x where "c = ExtCodec x" using reg Some unfolding registry_ok_def by blast
    then show ?thesis using f by (simp add: foreign_def)
  qed
qed

lemma made_array_ok:
  assumes made: "newArray (w_env W) (w_reg W) (w_float W) ops path m = Inr a" and path: "checkPath path = Inr ()"
    and cs: "newPipeline (w_env W) (parseCodec (w_env W) (w_reg W)) (mCodecs m) (mType m) = Inr cs"
    and ok: "env_ok (w_env W)" "registry_ok (w_reg W)" "limits_known (a_codecs a) (storedSpec a)" "a_indexSize a \<le> index_limit" "fits_ints (a_grid a) (mShape m)"
    and foreign: "\<forall>c \<in> set cs. foreign c \<longrightarrow> codec_ok (w_env W) c (storedSpec a)"
  shows "arr_ok (w_env W) cs a"
proof -
  have c: "codecs_for (w_env W) (w_reg W) m None = Inr cs" using cs by (simp add: codecs_for_def)
  obtain grid z where g: "\<forall>k < length grid. 0 < grid ! k" "storedBytes grid (mType m) = Inr z"
    "a_grid a = map nat grid" "a_type a = mType m"
    using made unfolding makeArray_iff by (elim conjE exE) (rule that, auto simp: not_le)
  have "ints (map nat grid) = grid" by (rule nth_equalityI) (use g(1) in \<open>auto simp: less_imp_le\<close>)
  then have s: "spType (storedSpec a) = mType m" "storedBytes (ints (spShape (storedSpec a))) (mType m) = Inr z"
    using g by (simp_all add: storedSpec_def)
  obtain ps where "rmap (\<lambda>n. parseCodec (w_env W) (w_reg W) n (mType m)) (mCodecs m) = Inr cs"
    using cs by (auto simp: newPipeline_def rbind_Inr_iff)
  then have "\<exists>n. parseCodec (w_env W) (w_reg W) n (mType m) = Inr c" if "c \<in> set cs" for c
    using that by (auto simp: rmap_Inr_iff list_all2_conv_all_nth in_set_conv_nth)
  then have "codec_ok (w_env W) c (storedSpec a)" if "c \<in> set cs" for c
    using parsed_codec_ok [OF _ ok(2,1) _ s] foreign that by blast
  then have "pipe_ok (map (codec_ok (w_env W)) cs) (a_codecs a) (storedSpec a)" using ok(3) by (simp add: pipe_ok_def)
  from makeArray_ok [OF made path c this ok(4,5)] show ?thesis .
qed

lemma readMetadata_path: "readMetadata D ops path node s = (r, t) \<Longrightarrow> r = Inl (ErrOther ''bad path'') \<or> checkPath path = Inr ()"
  by (cases "checkPath path") (auto simp: readMetadata_def io_bind_def checkPath_def rguard_def split: if_splits)

lemma parseZarray_format: "parseZarray env reg ft ext b = Inr (m, cs) \<Longrightarrow> mFormat m = 2"
  by (auto simp: parseZarray_def rbind_Inr_iff Let_def split: option.splits if_splits)

lemma makeArray_meta: "makeArray env reg ft ops path m codecs = Inr a \<Longrightarrow> a_meta a = m"
  unfolding makeArray_iff by auto

lemma v2_format: "newArrayV2 env reg ft ext ops path b attrs = Inr a \<Longrightarrow> mFormat (a_meta a) = 2"
  by (auto simp: newArrayV2_def rbind_Inr_iff Let_def dest!: parseZarray_format makeArray_meta
      split: option.split if_split bool.split prod.split)

lemma OpenArray_format:
  assumes "OpenArray W ops path s = (Inr a, t)" "mFormat (a_meta a) \<noteq> 2"
  shows "checkPath path = Inr () \<and> newArray (w_env W) (w_reg W) (w_float W) ops path (a_meta a) = Inr a"
proof -
  obtain r u where r: "readMetadata array_doc ops path ''array'' s = (r, u)" by fastforce
  show ?thesis
  proof (cases r)
    case (Inl e)
    then have "e = ErrNotFound" "openArrayV2 (w_env W) (w_reg W) (w_float W) (w_named W) ops path e u = (Inr a, t)"
      using assms(1) r by (auto simp: OpenArray_def io_try_def split: if_splits)
    then have "mFormat (a_meta a) = 2" by (auto simp: openArrayV2_def io_bind_eq_Inr_iff dest: v2_format)
    then show ?thesis using assms(2) by simp
  next
    case (Inr m)
    then have "newArray (w_env W) (w_reg W) (w_float W) ops path m = Inr a"
      using assms(1) r by (simp add: OpenArray_def io_try_def)
    then show ?thesis using readMetadata_path [OF r] Inr makeArray_meta by fastforce
  qed
qed

end
