(* ===== verification/Open_Examples.thy ===== *)
theory Open_Examples
  imports Node_Examples Open_Laws
begin

text \<open>
  The metadata of a small array of version 3 and of one of version 2, read from their texts, on which
  the properties of opening nodes are shown to apply.
\<close>

section \<open>Small texts\<close>

text \<open>A text that is nested only a little is read without the limit of Go.\<close>

lemma small_unmarshal: "skipValue n 1 raw = Some [] \<Longrightarrow> n \<le> go_depth \<Longrightarrow> unmarshal dec old raw = dec old raw"
proof -
  assume v: "skipValue n 1 raw = Some []" and n: "n \<le> go_depth"
  have "raw \<noteq> []" "\<not> is_space (hd raw)" using skipValue_again(3,4) [OF v] by (auto simp: upto_rest_def)
  then have "skipSpace raw = raw" by (rule skipSpace_start)
  moreover have "skipValue go_depth 1 raw = Some []" by (rule skipValue_mono [OF v]) (use n in simp)
  ultimately show ?thesis by (simp add: unmarshal_def upto_rest_def) (simp add: skipSpace_def)
qed

lemma small_members:
  assumes "members n 1 (collect_member n 1) [] raw = Some (kvs, t)" "n \<le> go_depth"
  shows "raw_members raw = Some kvs"
proof -
  have "\<exists>c'. members go_depth 1 (collect_member go_depth 1) [] raw = Some (c', t) \<and> kvs = c'"
  proof (rule members_sim [where R = "(=)", OF assms(1) refl])
    fix a k u b t c assume h: "collect_member n 1 a k u = Some (b, t)" "a = c"
    then have "skipValue n 2 u = Some t" by (auto simp: collect_member_def numeral_2_eq_2)
    then have "skipValue go_depth 2 u = Some t" by (rule skipValue_mono) (use assms(2) in simp)
    then show "\<exists>c'. collect_member go_depth 1 c k u = Some (c', t) \<and> b = c'" using h by (auto simp: collect_member_def numeral_2_eq_2)
  qed (simp add: go_depth_def)
  then show ?thesis by (auto simp: raw_members_def)
qed

lemma small_items:
  assumes "items n 1 (collect_item n 1) [] raw = Some (vs, t)" "n \<le> go_depth"
  shows "raw_items raw = Some vs"
proof -
  have "\<exists>c'. items go_depth 1 (collect_item go_depth 1) [] raw = Some (c', t) \<and> vs = c'"
  proof (rule items_sim [where R = "(=)", OF assms(1) refl])
    fix a u b t c assume h: "collect_item n 1 a u = Some (b, t)" "a = c"
    then have "skipValue n 2 u = Some t" by (auto simp: collect_item_def numeral_2_eq_2)
    then have "skipValue go_depth 2 u = Some t" by (rule skipValue_mono) (use assms(2) in simp)
    then show "\<exists>c'. collect_item go_depth 1 c u = Some (c', t) \<and> b = c'" using h by (auto simp: collect_item_def numeral_2_eq_2)
  qed (simp add: go_depth_def)
  then show ?thesis by (auto simp: raw_items_def)
qed

definition zarray_text :: string where
  "zarray_text = ''{\"zarr_format\":2,\"shape\":[2],\"chunks\":[2],\"dtype\":\"|u1\",\"fill_value\":null,\"order\":\"C\"}''"

lemma zarray_members: "skipValue 3 1 zarray_text = Some []" "raw_items ''[2]'' = Some [''2'']"
  "raw_members zarray_text = Some [(''zarr_format'', ''2''), (''shape'', ''[2]''), (''chunks'', ''[2]''), (''dtype'', ''\"|u1\"''),
     (''fill_value'', null), (''order'', ''\"C\"'')]"
proof -
  show "skipValue 3 1 zarray_text = Some []" by code_simp
  have "items 3 1 (collect_item 3 1) [] ''[2]'' = Some ([''2''], [])" by code_simp
  then show "raw_items ''[2]'' = Some [''2'']" by (rule small_items) (simp add: go_depth_def)
  have "members 3 1 (collect_member 3 1) [] zarray_text = Some ([(''zarr_format'', ''2''), (''shape'', ''[2]''), (''chunks'', ''[2]''), (''dtype'', ''\"|u1\"''),
     (''fill_value'', null), (''order'', ''\"C\"'')], [])" by code_simp
  then show "raw_members zarray_text = Some [(''zarr_format'', ''2''), (''shape'', ''[2]''), (''chunks'', ''[2]''), (''dtype'', ''\"|u1\"''),
     (''fill_value'', null), (''order'', ''\"C\"'')]" by (rule small_members) (simp add: go_depth_def)
qed

lemma zarray_parsed:
  "unmarshal decode_zarray zero_zarray zarray_text =
     Some \<lparr>zFormat = 2, zShape = Some [2], zChunks = Some [2], zDType = ''\"|u1\"'', zFill = null, zOrder = ''C'',
       zCompressor = [], zFilters = None, zSep = []\<rparr>"
proof -
  have "unmarshal decode_zarray zero_zarray zarray_text = decode_zarray zero_zarray zarray_text"
    by (rule small_unmarshal [OF zarray_members(1)]) (simp add: go_depth_def)
  also have "\<dots> = Some \<lparr>zFormat = 2, zShape = Some [2], zChunks = Some [2], zDType = ''\"|u1\"'', zFill = null, zOrder = ''C'',
       zCompressor = [], zFilters = None, zSep = []\<rparr>"
  proof -
    have k: "unquote ''zarr_format'' = ''zarr_format''" "unquote ''shape'' = ''shape''" "unquote ''chunks'' = ''chunks''" "unquote ''dtype'' = ''dtype''"
      "unquote ''fill_value'' = ''fill_value''" "unquote ''order'' = ''order''" "unquote ''C'' = ''C''"
      by (rule unquote_plain, simp add: plainKey_def)+
    have "zarray_text \<noteq> null" by (simp add: zarray_text_def)
    then show ?thesis unfolding decode_zarray_def decode_struct_def zarray_members(3)
      by (simp add: k find_field_def zarray_field_def decode_int_def decode_slice_def zarray_members(2) decode_raw_def decode_string_def
          parse_int_def digits_only_def is_digit_def atoi_def zero_zarray_def)
  qed
  finally show ?thesis .
qed

lemma v2_texts:
  "parseTypestr ''\"|u1\"'' = Inr (Uint8, [])" "trimSpace null = null"
proof -
  have v: "skipValue 3 1 ''\"|u1\"'' = Some []" by code_simp
  have "unmarshal decode_string [] ''\"|u1\"'' = decode_string [] ''\"|u1\"''" by (rule small_unmarshal [OF v]) (simp add: go_depth_def)
  moreover have "unquote ''|u1'' = ''|u1''" by (rule unquote_plain) (simp add: plainKey_def)
  ultimately show "parseTypestr ''\"|u1\"'' = Inr (Uint8, [])"
    by (simp add: parseTypestr_def decode_string_def typestr_of_def)
  show "trimSpace null = null" by code_simp
qed

lemma v2_more: "grid_shape (marshal_object [(''chunk_shape'', json_ints [2])]) = Some [2]"
  "parseFill bits_text Uint8 (formatFill bits_text (VUint8 0)) = Inr (VUint8 0)"
  by code_simp+

lemma v2_key:
  "parseKeyEncoding (encoding_named \<lparr>k_v2 = True, k_sep = ''.''\<rparr>) = Inr \<lparr>k_v2 = True, k_sep = ''.''\<rparr>"
  by code_simp

section \<open>An array of version 3\<close>

lemma demo_env_ok: "env_ok demo_env"
  by (auto simp: env_ok_def demo_env_def yields_def stored_bound_def stream.defs)

definition plain_text :: string where
  "plain_text = ''{\"zarr_format\":3,\"node_type\":\"array\",\"shape\":[3],\"data_type\":\"uint8\",\"chunk_grid\":{\"name\":\"regular\",\"configuration\":{\"chunk_shape\":[2]}},\"chunk_key_encoding\":\"default\",\"fill_value\":7,\"codecs\":[{\"name\":\"bytes\",\"configuration\":{\"endian\":\"little\"}}]}''"

definition plain_meta :: array_metadata where
  "plain_meta =
  \<lparr>mFormat = 3, mNode = ''array'', mShape = [3], mType = Uint8, mGrid = \<lparr>nName = ''regular'', nConfig = ''{\"chunk_shape\":[2]}'', nMust = None\<rparr>,
   mKeyEnc = \<lparr>nName = ''default'', nConfig = [], nMust = None\<rparr>, mFill = ''7'', mCodecs = [\<lparr>nName = ''bytes'', nConfig = ''{\"endian\":\"little\"}'', nMust = None\<rparr>],
   mAttrs = [], mTransformers = [], mDims = None\<rparr>"

lemma plain_text_decoded: "decodeMetadata array_doc ''array'' plain_text = Some plain_meta"
  by code_simp

lemma plain_configs: "nConfig (mGrid node_meta) = ''{\"chunk_shape\":[2]}''"
  "marshal_object [(''endian'', marshal_string ''little'')] = ''{\"endian\":\"little\"}''"
  by code_simp+

lemma plain_newArray: "newArray demo_env (\<lambda>_. None) bits_text memory_ops ''y'' plain_meta = Inr (node_array\<lparr>a_meta := plain_meta\<rparr>)"
proof -
  have f: "mShape plain_meta = [3]" "mType plain_meta = Uint8" "mTransformers plain_meta = []" "mDims plain_meta = None"
    "nName (mGrid plain_meta) = ''regular''" "nConfig (mGrid plain_meta) = nConfig (mGrid node_meta)"
    "mKeyEnc plain_meta = \<lparr>nName = ''default'', nConfig = [], nMust = None\<rparr>" "mFill plain_meta = ''7''" "mCodecs plain_meta = mCodecs node_meta"
    by (simp_all add: plain_meta_def plain_configs node_fields)
  have c: "codecs_for demo_env (\<lambda>_. None) plain_meta None = Inr [BytesCodec ''little'']"
    using node_codecs by (simp add: codecs_for_def f node_fields)
  show ?thesis
    unfolding makeArray_iff node_array_def
    by (simp add: f node_parses c codec_pipeline_def demo_pipe_def shard_parts_def elements_def maxInt64_def parseKeyEncoding_def
        fill_has_type_facts(2) storedBytes_def maxStoredBytes_def wrap64_id in_int64_def minInt64_def)
qed

section \<open>A store of three nodes\<close>

lemma text_of_bytes_of: "text_of (bytes_of s) = s"
proof -
  have "char_of (unat (word_of_nat (code c) :: 8 word)) = c" for c
  proof -
    have "code c < 256" by (rule nat_of_char_less_256)
    then show ?thesis by (simp add: unat_of_nat)
  qed
  then show ?thesis by (simp add: text_of_def bytes_of_def comp_def)
qed

definition open_store :: memstore where
  "open_store =
     newMemoryStore\<lparr>entries := DAList.update ''y/zarr.json'' (bytes_of plain_text)
        (DAList.update ''z/.zarray'' (bytes_of zarray_text)
          (DAList.update ''g/.zgroup'' (bytes_of ''{\"zarr_format\":2}'') DAList.empty))\<rparr>"

lemma open_get:
  "st_get memory_ops k open_store =
     ((if k = ''y/zarr.json'' then Inr (bytes_of plain_text)
       else if k = ''z/.zarray'' then Inr (bytes_of zarray_text)
       else if k = ''g/.zgroup'' then Inr (bytes_of ''{\"zarr_format\":2}'') else Inl ErrNotFound), open_store)"
  by (simp add: memory_ops_def mem_get_def io_bind_def ctx_Err_def open_store_def newMemoryStore_def lookup_update lookup_empty)

lemma plain_opened: "OpenArray demo_world memory_ops ''y'' open_store = (Inr (node_array\<lparr>a_meta := plain_meta\<rparr>), open_store)"
proof -
  have k: "metadataKey ''y'' = ''y/zarr.json''" "checkPath ''y'' = Inr ()"
    by (simp_all add: metadataKey_def join_path_def checkPath_def validSegments_def)
  have "parseMetadata array_doc ''array'' plain_text = Inr plain_meta"
    by (simp add: parseMetadata_def plain_text_decoded)
  then have "readMetadata array_doc memory_ops ''y'' ''array'' open_store = (Inr plain_meta, open_store)"
    by (simp add: readMetadata_def k io_bind_def open_get text_of_bytes_of)
  then show ?thesis using plain_newArray
    by (simp add: OpenArray_def io_try_def demo_world_def)
qed

lemma zarray_array:
  "\<exists>a. newArrayV2 demo_env (\<lambda>_. None) bits_text (\<lambda>_. Inl ErrUnsupported) memory_ops ''z'' zarray_text [] = Inr a"
proof -
  have f: "fillFrom Uint8 GoNil = Inr (VUint8 0)" by (simp add: fillFrom_def set_int_def)
  have t: "trimSpace [] = []" by code_simp
  let ?m = "\<lparr>mFormat = 2, mNode = ''array'', mShape = [2], mType = Uint8,
    mGrid = \<lparr>nName = ''regular'', nConfig = marshal_object [(''chunk_shape'', json_ints [2])], nMust = None\<rparr>,
    mKeyEnc = encoding_named \<lparr>k_v2 = True, k_sep = ''.''\<rparr>, mFill = formatFill bits_text (VUint8 0),
    mCodecs = [\<lparr>nName = ''bytes'', nConfig = [], nMust = None\<rparr>], mAttrs = [], mTransformers = [], mDims = None\<rparr>"
  have p: "codec_pipeline demo_env [BytesCodec []] = Inr \<lparr>parray = bytes_iface demo_env [], pbytes = []\<rparr>"
    by (simp add: codec_pipeline_def)
  have "parseZarray demo_env (\<lambda>_. None) bits_text (\<lambda>_. Inl ErrUnsupported) zarray_text = Inr (?m, [BytesCodec []])"
    unfolding parseZarray_def zarray_parsed
    by (simp add: v2_texts parseFillV2_def f order_codecs_def t p namedCodecs_def)
  then have "newArrayV2 demo_env (\<lambda>_. None) bits_text (\<lambda>_. Inl ErrUnsupported) memory_ops ''z'' zarray_text [] =
      makeArray demo_env (\<lambda>_. None) bits_text memory_ops ''z'' ?m (Some [BytesCodec []])"
    by (simp add: newArrayV2_def attribute_def)
  moreover have "\<exists>a. makeArray demo_env (\<lambda>_. None) bits_text memory_ops ''z'' ?m (Some [BytesCodec []]) = Inr a"
    unfolding makeArray_iff
    by (simp add: v2_more v2_key p codecs_for_def shard_parts_def elements_def maxInt64_def
      storedBytes_def maxStoredBytes_def wrap64_id in_int64_def minInt64_def fill_has_type_facts(2))
  ultimately show ?thesis by simp
qed

lemma zarray_opened: "\<exists>a. OpenArray demo_world memory_ops ''z'' open_store = (Inr a, open_store) \<and> mFormat (a_meta a) = 2"
proof -
  obtain a where a: "newArrayV2 demo_env (\<lambda>_. None) bits_text (\<lambda>_. Inl ErrUnsupported) memory_ops ''z'' zarray_text [] = Inr a"
    using zarray_array by blast
  have k: "metadataKey ''z'' = ''z/zarr.json''" "checkPath ''z'' = Inr ()" "join_path ''z'' ''.zarray'' = ''z/.zarray''"
    "join_path ''z'' ''.zattrs'' = ''z/.zattrs''"
    by (simp_all add: metadataKey_def join_path_def checkPath_def validSegments_def)
  have "OpenArray demo_world memory_ops ''z'' open_store = (Inr a, open_store)" using a
    by (simp add: OpenArray_def io_try_def readMetadata_def k io_bind_def open_get openArrayV2_def readV2_def readAttributesV2_def
        text_of_bytes_of demo_world_def)
  then show ?thesis using v2_format [OF a] by blast
qed

lemma zgroup_opened: "\<exists>g. OpenGroup memory_ops ''g'' open_store = (Inr g, open_store) \<and> gFormat (g_meta g) = 2"
proof -
  have k: "metadataKey ''g'' = ''g/zarr.json''" "checkPath ''g'' = Inr ()" "join_path ''g'' ''.zgroup'' = ''g/.zgroup''"
    "join_path ''g'' ''.zattrs'' = ''g/.zattrs''"
    by (simp_all add: metadataKey_def join_path_def checkPath_def validSegments_def)
  have v: "skipValue 3 1 ''{\"zarr_format\":2}'' = Some []" by code_simp
  have "members 3 1 (collect_member 3 1) [] ''{\"zarr_format\":2}'' = Some ([(''zarr_format'', ''2'')], [])" by code_simp
  then have m: "raw_members ''{\"zarr_format\":2}'' = Some [(''zarr_format'', ''2'')]" by (rule small_members) (simp add: go_depth_def)
  have u: "unquote ''zarr_format'' = ''zarr_format''" by (rule unquote_plain) (simp add: plainKey_def)
  have "unmarshal decode_format 0 ''{\"zarr_format\":2}'' = decode_format 0 ''{\"zarr_format\":2}''"
    by (rule small_unmarshal [OF v]) (simp add: go_depth_def)
  also have "\<dots> = Some 2" unfolding decode_format_def decode_struct_def m
    by (simp add: u find_field_def decode_int_def parse_int_def digits_only_def is_digit_def atoi_def)
  finally have "unmarshal decode_format 0 ''{\"zarr_format\":2}'' = Some 2" .
  then show ?thesis
    by (simp add: OpenGroup_def io_try_def readMetadata_def k io_bind_def open_get openGroupV2_def readV2_def readAttributesV2_def
        text_of_bytes_of)
qed

end
