(* ===== verification/Open_Theorems.thy ===== *)
theory Open_Theorems
  imports Open_Examples
begin

text \<open>
  What opening nodes is right about: an array that opens is one that reading and writing are right
  about, and a node of version 2 is never changed.
\<close>

section \<open>Opening\<close>



section \<open>Version 2\<close>



end
