(* ===== verification/Http.thy ===== *)
theory Http
  imports Fills
begin

text \<open>
  The store that is read over HTTP (\<open>src/http.go\<close>).

  The server is a parameter: a client does a request - a method, a URL and a \<open>Range\<close> header, which is
  empty if there is none - on a state of the world, and gives an answer or an error. A body is a
  stream of bytes that ends, or fails after what it holds. Errors are told apart as far as
  \<open>errors.Is\<close> does for a caller. \<open>net/url\<close>'s parsing and writing of the base URL are parameters of
  \<open>newHTTPStore\<close>.
\<close>

section \<open>URLs\<close>

text \<open>\<open>url.PathEscape\<close>, of one segment.\<close>

definition url_plain :: "char \<Rightarrow> bool" where
  "url_plain c \<longleftrightarrow>
     (48 \<le> code c \<and> code c \<le> 57) \<or> (65 \<le> code c \<and> code c \<le> 90) \<or> (97 \<le> code c \<and> code c \<le> 122) \<or>
     c \<in> set ''-_.~$&+:=@''"

definition hex_digit :: "nat \<Rightarrow> char" where
  "hex_digit n = ''0123456789ABCDEF'' ! n"

definition url_escape :: "char \<Rightarrow> string" where
  "url_escape c = (if url_plain c then [c] else [CHR ''%'', hex_digit (code c div 16), hex_digit (code c mod 16)])"

definition path_escape :: "string \<Rightarrow> string" where
  "path_escape s = concat (map url_escape s)"

record http_store =
  h_base :: string
  h_query :: string
  h_forbidden :: bool
  h_max :: int

definition http_url :: "http_store \<Rightarrow> string \<Rightarrow> string" where
  "http_url h key =
     h_base h @ ''/'' @ str_join ''/'' (map path_escape (str_split (CHR ''/'') key)) @
     (if h_query h \<noteq> [] then ''?'' @ h_query h else [])"

record url =
  u_scheme :: string
  u_host :: string
  u_path :: string
  u_rawpath :: string
  u_query :: string
  u_fragment :: string

definition trim_right :: "char \<Rightarrow> string \<Rightarrow> string" where
  "trim_right c s = rev (dropWhile (\<lambda>x. x = c) (rev s))"

definition newHTTPStore :: "(string \<Rightarrow> url res) \<Rightarrow> (url \<Rightarrow> string) \<Rightarrow> string \<Rightarrow> http_store res" where
  "newHTTPStore parse render baseURL =
     rbind (parse baseURL) (\<lambda>u.
       if (u_scheme u \<noteq> ''http'' \<and> u_scheme u \<noteq> ''https'') \<or> u_host u = [] then Inl (ErrOther ''base URL'')
       else
         Inr \<lparr>h_base = render (u\<lparr>u_path := trim_right (CHR ''/'') (u_path u), u_rawpath := trim_right (CHR ''/'') (u_rawpath u),
                u_query := [], u_fragment := []\<rparr>),
              h_query = u_query u, h_forbidden = False, h_max = 2 ^ 32\<rparr>)"

section \<open>Requests\<close>

datatype http_method = GET | HEAD

record body =
  b_bytes :: bytes
  b_error :: "error option"

record response =
  rs_status :: nat
  rs_length :: int
  rs_range :: string
  rs_body :: body

type_synonym 's client = "http_method \<Rightarrow> string \<Rightarrow> string \<Rightarrow> ('s, response) io"

definition http_do :: "http_store \<Rightarrow> 's client \<Rightarrow> http_method \<Rightarrow> string \<Rightarrow> string \<Rightarrow> ('s, response) io" where
  "http_do h client m key rng = io_bind (io_lift (checkKey key)) (\<lambda>_. client m (http_url h key) rng)"

text \<open>\<open>io.ReadAll\<close>, of a body and of a \<open>LimitReader\<close> on one, and \<open>io.CopyN\<close> to nowhere. A limit that is not
  positive reads nothing; an error comes after the last byte, in a read of its own.\<close>

definition read_all :: "body \<Rightarrow> bytes res" where
  "read_all b = (case b_error b of None \<Rightarrow> Inr (b_bytes b) | Some e \<Rightarrow> Inl e)"

definition read_limited :: "int \<Rightarrow> body \<Rightarrow> bytes res" where
  "read_limited n b =
     (if n \<le> 0 then Inr []
      else if n \<le> int (length (b_bytes b)) then Inr (take (nat n) (b_bytes b))
      else read_all b)"

definition skip_bytes :: "int \<Rightarrow> body \<Rightarrow> body res" where
  "skip_bytes n b =
     (if n \<le> int (length (b_bytes b)) then Inr (b\<lparr>b_bytes := drop (nat n) (b_bytes b)\<rparr>)
      else (case b_error b of None \<Rightarrow> Inl (ErrOther ''EOF'') | Some e \<Rightarrow> Inl e))"

definition http_fail :: "http_store \<Rightarrow> response \<Rightarrow> error" where
  "http_fail h resp =
     (if rs_status resp = 404 \<or> rs_status resp = 410 then ErrNotFound
      else if rs_status resp = 403 \<and> h_forbidden h then ErrNotFound
      else if rs_status resp = 403 then ErrOther ''403 Forbidden''
      else ErrOther ''status'')"

abbreviation tooLarge :: error where
  "tooLarge \<equiv> ErrOther ''too large''"

abbreviation outside :: error where
  "outside \<equiv> ErrOther ''range is outside''"

text \<open>What \<open>Get\<close> makes of an answer.\<close>

definition get_answer :: "http_store \<Rightarrow> response \<Rightarrow> bytes res" where
  "get_answer h resp =
     (if rs_status resp \<noteq> 200 then Inl (http_fail h resp)
      else if h_max h \<le> 0 then read_all (rs_body resp)
      else if rs_length resp > h_max h then Inl tooLarge
      else rbind (read_limited (wrap64 (h_max h + 1)) (rs_body resp)) (\<lambda>b.
        if int (length b) > h_max h then Inl tooLarge else Inr b))"

definition http_get :: "http_store \<Rightarrow> 's client \<Rightarrow> string \<Rightarrow> ('s, bytes) io" where
  "http_get h client key = io_bind (http_do h client GET key []) (\<lambda>resp. io_lift (get_answer h resp))"

section \<open>Ranges\<close>

definition str_cut :: "char \<Rightarrow> string \<Rightarrow> (string \<times> string) option" where
  "str_cut c s = (case dropWhile (\<lambda>x. x \<noteq> c) s of [] \<Rightarrow> None | _ # r \<Rightarrow> Some (takeWhile (\<lambda>x. x \<noteq> c) s, r))"

definition parseContentRange :: "string \<Rightarrow> (int \<times> int \<times> int) option" where
  "parseContentRange h =
     (if \<not> prefix ''bytes '' h then None
      else
        (case str_cut (CHR ''/'') (drop 6 h) of
           None \<Rightarrow> None
         | Some (sp, tot) \<Rightarrow>
             (case str_cut (CHR ''-'') sp of
                None \<Rightarrow> None
              | Some (lo, hi) \<Rightarrow>
                  (case (parse_int 64 lo, parse_int 64 hi) of
                     (Some a, Some z) \<Rightarrow>
                       if a < 0 \<or> z < a then None
                       else if tot \<noteq> ''*'' then
                         (case parse_int 64 tot of
                            None \<Rightarrow> None
                          | Some n \<Rightarrow> if n \<le> z then None else Some (a, z, n))
                       else Some (a, z, - 1)
                   | _ \<Rightarrow> None))))"

definition cutRange :: "http_store \<Rightarrow> body \<Rightarrow> int \<Rightarrow> int \<Rightarrow> bytes res" where
  "cutRange h bd offset len =
     (if offset \<ge> 0 then
        if h_max h > 0 \<and> wrap64 (offset + len) > h_max h then Inl tooLarge
        else
          (case skip_bytes offset bd of
             Inl e \<Rightarrow> Inl (if e = ErrOther ''EOF'' then outside else e)
           | Inr bd \<Rightarrow>
               rbind (read_limited len bd) (\<lambda>b. if int (length b) \<noteq> len then Inl outside else Inr b))
      else
        rbind
          (if h_max h > 0 then
             rbind (read_limited (wrap64 (h_max h + 1)) bd) (\<lambda>all.
               if int (length all) > h_max h then Inl tooLarge else Inr all)
           else read_all bd) (\<lambda>all.
        if int (length all) < wrap64 (- offset) then Inl outside
        else
          (let at = int (length all) + offset
           in if 0 \<le> at \<and> 0 \<le> len \<and> at + len \<le> int (length all) then Inr (take (nat len) (drop (nat at) all)) else Inl Panic)))"

definition empty_answer :: "http_store \<Rightarrow> int \<Rightarrow> response \<Rightarrow> bytes res" where
  "empty_answer h offset resp =
     (if rs_status resp \<noteq> 200 then Inl (http_fail h resp)
      else if rs_length resp < 0 then Inl (ErrOther ''no length'')
      else if offset > rs_length resp then Inl outside
      else Inr [])"

definition emptyRange :: "http_store \<Rightarrow> 's client \<Rightarrow> string \<Rightarrow> int \<Rightarrow> ('s, bytes) io" where
  "emptyRange h client key offset =
     io_bind (http_do h client HEAD key []) (\<lambda>resp. io_lift (empty_answer h offset resp))"

text \<open>The \<open>Range\<close> header of a request.\<close>

definition range_header :: "int \<Rightarrow> int \<Rightarrow> string" where
  "range_header offset len =
     (if offset < 0 then ''bytes='' @ format_int offset
      else ''bytes='' @ format_int offset @ ''-'' @ format_int (wrap64 (offset + len - 1)))"

text \<open>What is made of an answer to it; \<open>want\<close> is how many bytes were asked for.\<close>

definition range_answer :: "http_store \<Rightarrow> int \<Rightarrow> int \<Rightarrow> int \<Rightarrow> response \<Rightarrow> bytes res" where
  "range_answer h want offset len resp =
     (if rs_status resp = 200 then cutRange h (rs_body resp) offset len
      else if rs_status resp = 416 then Inl outside
      else if rs_status resp \<noteq> 206 then Inl (http_fail h resp)
      else
        (case parseContentRange (rs_range resp) of
           None \<Rightarrow> Inl (ErrOther ''a 206 without a Content-Range'')
         | Some (a, z, sz) \<Rightarrow>
             if wrap64 (z - a + 1) \<noteq> want then Inl outside
             else if (offset \<ge> 0 \<and> a \<noteq> offset) \<or> (offset < 0 \<and> (sz < 0 \<or> z \<noteq> sz - 1))
             then Inl (ErrOther ''another range'')
             else
               rbind (read_limited (wrap64 (want + 1)) (rs_body resp)) (\<lambda>b.
                 if int (length b) \<noteq> want then Inl (ErrOther ''a range of another length'')
                 else Inr (take (nat len) b))))"

definition http_range :: "http_store \<Rightarrow> 's client \<Rightarrow> string \<Rightarrow> int \<Rightarrow> int \<Rightarrow> ('s, bytes) io" where
  "http_range h client key offset len =
     (if len < 0 \<or> (offset < 0 \<and> len > wrap64 (- offset)) \<or> offset > maxInt64 - len then io_err outside
      else if offset \<ge> 0 \<and> len = 0 then emptyRange h client key offset
      else
        (let want = (if offset < 0 then wrap64 (- offset) else len)
         in if h_max h > 0 \<and> want > h_max h then io_err tooLarge
            else
              io_bind (http_do h client GET key (range_header offset len)) (\<lambda>resp.
                io_lift (range_answer h want offset len resp))))"

section \<open>The store\<close>

definition http_list :: "string \<Rightarrow> ('s, string list) io" where
  "http_list p = io_bind (io_lift (checkPrefix p)) (\<lambda>_. io_err (ErrOther ''HTTP has no way to list''))"

definition http_ops :: "http_store \<Rightarrow> 's client \<Rightarrow> 's store_ops" where
  "http_ops h client =
     \<lparr>st_get = http_get h client, st_range = Some (http_range h client),
      st_set = (\<lambda>_ _. io_err ErrReadOnly), st_delete = (\<lambda>_. io_err ErrReadOnly), st_list = http_list, st_listdir = None\<rparr>"

end
