(* ===== verification/Http_Laws.thy ===== *)
theory Http_Laws
  imports Http
begin

text \<open>
  What the HTTP store relies on of a server, and that it is then a store that can be read: it gives
  what the server has under a key, and any range of it, however the server answers a request for one.
\<close>

section \<open>URLs\<close>

lemma hex_digit_inj: "m < 16 \<Longrightarrow> n < 16 \<Longrightarrow> hex_digit m = hex_digit n \<longleftrightarrow> m = n"
  unfolding hex_digit_def by (rule nth_eq_iff_index_eq) simp_all

lemma url_escape_cancel: "url_escape c @ x = url_escape d @ y \<Longrightarrow> c = d \<and> x = y"
proof -
  assume e: "url_escape c @ x = url_escape d @ y"
  have p: "\<not> url_plain CHR ''%''" by (simp add: url_plain_def)
  show ?thesis
  proof (cases "url_plain c \<or> url_plain d")
    case True
    then show ?thesis using e p by (auto simp: url_escape_def split: if_splits)
  next
    case False
    have m: "code k div 16 < 16" for k using nat_of_char_less_256 [of k] by linarith
    from e False have "code c div 16 = code d div 16" "code c mod 16 = code d mod 16" and xy: "x = y"
      by (simp_all add: url_escape_def hex_digit_inj [OF m m] hex_digit_inj)
    then have "code c = code d" by (metis div_mult_mod_eq)
    then show ?thesis using xy by simp
  qed
qed

text \<open>A path is escaped one character at a time, slashes as they are.\<close>

definition url_char :: "char \<Rightarrow> string" where
  "url_char c = (if c = CHR ''/'' then ''/'' else url_escape c)"

lemma url_char_cancel: "url_char c @ x = url_char d @ y \<Longrightarrow> c = d \<and> x = y"
proof -
  have "\<not> url_plain CHR ''/''" by (simp add: url_plain_def)
  then have "hd (url_escape k) \<noteq> CHR ''/''" for k by (auto simp: url_escape_def)
  moreover have "url_escape k \<noteq> []" for k by (simp add: url_escape_def)
  ultimately show "url_char c @ x = url_char d @ y \<Longrightarrow> ?thesis" using url_escape_cancel [of c x d y]
    by (auto simp: url_char_def split: if_splits) (metis hd_append2 list.sel(1))+
qed

lemma url_chars_inj: "concat (map url_char k) = concat (map url_char k') \<Longrightarrow> k = k'"
proof (induction k arbitrary: k')
  case Nil
  then show ?case by (cases k') (auto simp: url_char_def url_escape_def split: if_splits)
next
  case (Cons c k)
  then obtain d k2 where k': "k' = d # k2" by (cases k') (auto simp: url_char_def url_escape_def split: if_splits)
  with Cons.prems have "url_char c @ concat (map url_char k) = url_char d @ concat (map url_char k2)" by simp
  from url_char_cancel [OF this] Cons.IH k' show ?case by blast
qed

lemma url_path: "str_join ''/'' (map path_escape (str_split (CHR ''/'') key)) = concat (map url_char key)"
proof (induction key)
  case (Cons c key)
  obtain seg segs where s: "str_split (CHR ''/'') key = seg # segs" by (cases "str_split (CHR ''/'') key") auto
  show ?case
  proof (cases "c = CHR ''/''")
    case True
    then show ?thesis using Cons s by (simp add: path_escape_def url_char_def str_join_Cons)
  next
    case False
    have "str_join ''/'' ((x @ y) # ss) = x @ str_join ''/'' (y # ss)" for x y ss by (cases ss) simp_all
    with False Cons s show ?thesis by (simp add: path_escape_def url_char_def)
  qed
qed (simp add: path_escape_def)

lemma http_url_inj: "http_url h k = http_url h k' \<Longrightarrow> k = k'"
  by (auto simp: http_url_def url_path intro: url_chars_inj)

section \<open>Content-Range\<close>

definition content_range :: "int \<Rightarrow> int \<Rightarrow> string \<Rightarrow> string" where
  "content_range a z tot = ''bytes '' @ format_int a @ ''-'' @ format_int z @ ''/'' @ tot"

lemma str_cut_append: "c \<notin> set s \<Longrightarrow> str_cut c (s @ c # r) = Some (s, r)"
proof -
  assume "c \<notin> set s"
  then have "dropWhile (\<lambda>x. x \<noteq> c) (s @ c # r) = c # r" "takeWhile (\<lambda>x. x \<noteq> c) (s @ c # r) = s"
    by (auto simp: dropWhile_append takeWhile_append)
  then show ?thesis by (simp add: str_cut_def)
qed

lemma format_int_chars: "0 \<le> n \<Longrightarrow> c \<in> set (format_int n) \<Longrightarrow> is_digit c"
  using itoa_digits [of "nat n"] by (simp add: format_int_def)

lemma parse_content_range:
  assumes "0 \<le> a" "a \<le> z" "z < n" "n \<le> maxInt64"
  shows "parseContentRange (content_range a z (format_int n)) = Some (a, z, n)"
    and "parseContentRange (content_range a z ''*'') = Some (a, z, - 1)"
proof -
  have p: "parse_int 64 (format_int k) = Some k" if "0 \<le> k" "k \<le> n" for k
    by (rule parse_format_int) (use that assms(4) in \<open>simp_all add: maxInt64_def\<close>)
  have d: "c \<notin> set (format_int k)" if "0 \<le> k" "\<not> is_digit c" for k c using format_int_chars that by blast
  have c: "str_cut (CHR ''-'') (format_int a @ CHR ''-'' # format_int z) = Some (format_int a, format_int z)"
    by (rule str_cut_append) (rule d, use assms in \<open>simp_all add: is_digit_def\<close>)
  have s: "str_cut (CHR ''/'') ((format_int a @ CHR ''-'' # format_int z) @ CHR ''/'' # t) = Some (format_int a @ CHR ''-'' # format_int z, t)" for t
    by (rule str_cut_append) (use d [of a "CHR ''/''"] d [of z "CHR ''/''"] assms in \<open>simp add: is_digit_def\<close>)
  have star: "format_int n \<noteq> ''*''" using format_int_chars [of n "CHR ''*''"] assms by (auto simp: is_digit_def)
  show "parseContentRange (content_range a z (format_int n)) = Some (a, z, n)"
    using s [of "format_int n"] c star p [of a] p [of z] p [of n] assms by (simp add: parseContentRange_def content_range_def)
  show "parseContentRange (content_range a z ''*'') = Some (a, z, - 1)"
    using s [of "''*''"] c p [of a] p [of z] assms by (simp add: parseContentRange_def content_range_def)
qed

section \<open>What is asked of a server\<close>

text \<open>A body that is so many bytes of a value, as far as it comes.\<close>

definition gives :: "body \<Rightarrow> bytes \<Rightarrow> bool" where
  "gives bd b \<longleftrightarrow> prefix (b_bytes bd) b \<and> (b_error bd = None \<longrightarrow> b_bytes bd = b) \<and> b_error bd \<noteq> Some ErrNotFound"

text \<open>
  What HTTP says an answer means, of a key with a value or without one: a 200 is the whole value, a 206
  is the part of it that its \<open>Content-Range\<close> names, a 404 or a 410 is that there is none, and so is a
  403 where the store is told that it is.
\<close>

definition answers :: "http_store \<Rightarrow> http_method \<Rightarrow> bytes option \<Rightarrow> response \<Rightarrow> bool" where
  "answers h m v resp \<longleftrightarrow>
     (rs_status resp = 200 \<longrightarrow>
        (\<exists>b. v = Some b \<and> (rs_length resp < 0 \<or> rs_length resp = int (length b)) \<and> (m = GET \<longrightarrow> gives (rs_body resp) b))) \<and>
     (rs_status resp = 206 \<longrightarrow>
        (\<exists>b a z tot. v = Some b \<and> 0 \<le> a \<and> a \<le> z \<and> z < int (length b) \<and> (tot = ''*'' \<or> tot = format_int (int (length b))) \<and>
           rs_range resp = content_range a z tot \<and> gives (rs_body resp) (take (nat (z - a + 1)) (drop (nat a) b)))) \<and>
     (rs_status resp \<in> {404, 410} \<or> rs_status resp = 403 \<and> h_forbidden h \<longrightarrow> v = None)"

text \<open>An answer that is all that was asked for: of a range within the value, the range or all of it.\<close>

definition asked :: "string \<Rightarrow> bytes \<Rightarrow> int \<Rightarrow> int \<Rightarrow> bool" where
  "asked rng b a z \<longleftrightarrow>
     0 \<le> a \<and> a \<le> z \<and> z < int (length b) \<and>
     (rng = ''bytes='' @ format_int a @ ''-'' @ format_int z \<or>
      z = int (length b) - 1 \<and> rng = ''bytes='' @ format_int (a - int (length b)))"

definition full_answer :: "http_method \<Rightarrow> string \<Rightarrow> bytes option \<Rightarrow> response \<Rightarrow> bool" where
  "full_answer m rng v resp \<longleftrightarrow>
     (case v of
        None \<Rightarrow> rs_status resp = 404
      | Some b \<Rightarrow>
          b_error (rs_body resp) = None \<and>
          (rng = [] \<longrightarrow> rs_status resp = 200 \<and> (m = HEAD \<longrightarrow> rs_length resp = int (length b))) \<and>
          (\<forall>a z. asked rng b a z \<longrightarrow> rs_status resp = 200 \<or>
             rs_status resp = 206 \<and> rs_range resp = content_range a z (format_int (int (length b)))))"

text \<open>
  A server that has \<open>served s key\<close> under a key: it says nothing that is not so, and while it is \<open>live\<close>
  it answers in full.
\<close>

definition serves :: "http_store \<Rightarrow> 's client \<Rightarrow> ('s \<Rightarrow> string \<Rightarrow> bytes option) \<Rightarrow> ('s \<Rightarrow> bool) \<Rightarrow> bool" where
  "serves h client served live \<longleftrightarrow>
     (\<forall>m key rng s r t. client m (http_url h key) rng s = (r, t) \<longrightarrow>
        served t = served s \<and> r \<noteq> Inl ErrNotFound \<and> (\<forall>resp. r = Inr resp \<longrightarrow> answers h m (served s key) resp)) \<and>
     (\<forall>m key rng s. live s \<longrightarrow>
        (\<exists>resp t. client m (http_url h key) rng s = (Inr resp, t) \<and> live t \<and> full_answer m rng (served s key) resp))"

section \<open>Bodies\<close>

lemma read_all_gives:
  "gives bd b \<Longrightarrow> read_all bd = Inr x \<Longrightarrow> x = b" "gives bd b \<Longrightarrow> read_all bd \<noteq> Inl ErrNotFound"
  by (auto simp: gives_def read_all_def split: option.splits)

lemma read_limited_gives:
  "gives bd b \<Longrightarrow> read_limited n bd = Inr x \<Longrightarrow> x = take (nat n) b" "gives bd b \<Longrightarrow> read_limited n bd \<noteq> Inl ErrNotFound"
  by (auto simp: gives_def read_limited_def read_all_def prefix_def nat_le_iff split: option.splits if_splits)

lemma read_limited_full: "gives bd b \<Longrightarrow> b_error bd = None \<Longrightarrow> read_limited n bd = Inr (take (nat n) b)"
  by (auto simp: gives_def read_limited_def read_all_def)

lemma limited_whole: "gives bd b \<Longrightarrow> 0 < n \<Longrightarrow> read_limited (n + 1) bd = Inr x \<Longrightarrow> int (length x) \<le> n \<Longrightarrow> x = b"
  by (drule (1) read_limited_gives(1)) (auto simp: min_def split: if_splits)

lemma skip_bytes_gives:
  assumes "gives bd b" "0 \<le> n"
  shows "skip_bytes n bd = Inr bd' \<Longrightarrow> gives bd' (drop (nat n) b) \<and> n \<le> int (length b) \<and> b_error bd' = b_error bd"
    and "skip_bytes n bd \<noteq> Inl ErrNotFound"
    and "b_error bd = None \<Longrightarrow> n \<le> int (length b) \<Longrightarrow> \<exists>bd'. skip_bytes n bd = Inr bd'"
  using assms by (auto simp: gives_def skip_bytes_def prefix_def nat_le_iff split: option.splits if_splits)

section \<open>Answers\<close>

lemma get_answer_sound:
  assumes "answers h GET v resp" "h_max h < maxInt64"
  shows "get_answer h resp = Inr b \<Longrightarrow> v = Some b" and "get_answer h resp = Inl ErrNotFound \<Longrightarrow> v = None"
proof -
  have w: "wrap64 (h_max h + 1) = h_max h + 1" if "\<not> h_max h \<le> 0"
    by (rule wrap64_id) (use that assms(2) in \<open>simp add: in_int64_def minInt64_def maxInt64_def\<close>)
  have g: "\<exists>c. v = Some c \<and> gives (rs_body resp) c" if "rs_status resp = 200" using assms(1) that by (auto simp: answers_def)
  show "v = Some b" if r: "get_answer h resp = Inr b"
  proof -
    have "rs_status resp = 200" using r by (simp add: get_answer_def split: if_splits)
    from g [OF this] obtain c where c: "v = Some c" "gives (rs_body resp) c" by blast
    have "c = b"
    proof (cases "h_max h \<le> 0")
      case True
      then show ?thesis using r read_all_gives(1) [OF c(2)] by (simp add: get_answer_def split: if_splits)
    next
      case False
      then have "read_limited (h_max h + 1) (rs_body resp) = Inr b" "int (length b) \<le> h_max h"
        using r w by (auto simp: get_answer_def rbind_Inr_iff split: if_splits)
      with limited_whole [OF c(2), of "h_max h" b] False show ?thesis by simp
    qed
    then show ?thesis using c(1) by simp
  qed
  show "get_answer h resp = Inl ErrNotFound \<Longrightarrow> v = None"
    using assms(1) g read_all_gives(2) read_limited_gives(2)
    by (auto simp: get_answer_def answers_def rbind_Inl_iff http_fail_def split: if_splits)
qed

lemma get_answer_full:
  assumes "answers h GET v resp" "full_answer GET [] v resp" "h_max h < maxInt64"
    and "\<And>b. v = Some b \<Longrightarrow> 0 < h_max h \<Longrightarrow> int (length b) \<le> h_max h"
  shows "get_answer h resp = (case v of None \<Rightarrow> Inl ErrNotFound | Some b \<Rightarrow> Inr b)"
proof (cases v)
  case None
  then show ?thesis using assms(2) by (simp add: full_answer_def get_answer_def http_fail_def)
next
  case (Some b)
  then have g: "gives (rs_body resp) b" "b_error (rs_body resp) = None" "rs_status resp = 200"
    "rs_length resp < 0 \<or> rs_length resp = int (length b)"
    using assms(1,2) by (auto simp: full_answer_def answers_def)
  have w: "wrap64 (h_max h + 1) = h_max h + 1" if "\<not> h_max h \<le> 0"
    by (rule wrap64_id) (use that assms(3) in \<open>simp add: in_int64_def minInt64_def maxInt64_def\<close>)
  have ra: "read_all (rs_body resp) = Inr b" using g by (simp add: read_all_def gives_def)
  show ?thesis
  proof (cases "h_max h \<le> 0")
    case True
    then show ?thesis using g ra Some by (simp add: get_answer_def)
  next
    case False
    then have l: "int (length b) \<le> h_max h" using assms(4) [OF Some] by simp
    then have "read_limited (h_max h + 1) (rs_body resp) = Inr b" using read_limited_full [OF g(1,2)] by simp
    then show ?thesis using g l w [OF False] False Some by (auto simp: get_answer_def)
  qed
qed

text \<open>The guards of \<open>GetRange\<close>: the sum of the range does not overflow, nor does the offset's negation.\<close>

definition range_fit :: "int \<Rightarrow> int \<Rightarrow> bool" where
  "range_fit offset len \<longleftrightarrow>
     in_int64 offset \<and> 0 \<le> len \<and> offset + len \<le> maxInt64 \<and> (offset < 0 \<longrightarrow> len \<le> - offset \<and> - offset \<le> maxInt64)"

lemma range_fit_guard:
  assumes "in_int64 offset" "in_int64 len" "\<not> (len < 0 \<or> (offset < 0 \<and> len > wrap64 (- offset)) \<or> offset > maxInt64 - len)"
  shows "range_fit offset len"
proof -
  have "- offset \<le> maxInt64 \<and> len \<le> - offset" if "offset < 0"
  proof (cases "offset = minInt64")
    case True
    then have "wrap64 (- offset) < 0" by (simp add: wrap64_def minInt64_def)
    then show ?thesis using assms(3) that by linarith
  next
    case False
    then have "in_int64 (- offset)" using assms(1) by (auto simp: in_int64_def minInt64_def maxInt64_def)
    then show ?thesis using assms(3) that by (auto simp: wrap64_id in_int64_def)
  qed
  then show ?thesis using assms by (auto simp: range_fit_def)
qed

lemma cutRange_error: "gives bd v \<Longrightarrow> cutRange h bd offset len \<noteq> Inl ErrNotFound"
  using read_all_gives(2) [of bd v] read_limited_gives(2) skip_bytes_gives(1,2) [of bd v offset]
  by (auto simp: cutRange_def rbind_Inl_iff Let_def split: sum.splits if_splits)

lemma cutRange_sound:
  assumes "gives bd v" "range_fit offset len" "h_max h < maxInt64"
  shows "cutRange h bd offset len = Inr b \<Longrightarrow> range_in v offset len \<and> b = sub_bytes v offset len"
proof -
  have w: "wrap64 (h_max h + 1) = h_max h + 1" if "0 < h_max h"
    by (rule wrap64_id) (use that assms(3) in \<open>simp add: in_int64_def minInt64_def maxInt64_def\<close>)
  have m: "wrap64 (- offset) = - offset" if "offset < 0"
    by (rule wrap64_id) (use that assms(2) in \<open>auto simp: range_fit_def in_int64_def minInt64_def maxInt64_def\<close>)
  note f = assms(2) [unfolded range_fit_def]
  show "range_in v offset len \<and> b = sub_bytes v offset len" if c: "cutRange h bd offset len = Inr b"
  proof (cases "0 \<le> offset")
    case True
    then obtain bd' where s: "skip_bytes offset bd = Inr bd'" and r: "read_limited len bd' = Inr b" "int (length b) = len"
      using c by (auto simp: cutRange_def rbind_Inr_iff split: sum.splits if_splits)
    from skip_bytes_gives(1) [OF assms(1) True s] read_limited_gives(1) [OF _ r(1)]
    have "b = take (nat len) (drop (nat offset) v)" "offset \<le> int (length v)" by blast+
    then show ?thesis using r(2) True by (auto simp: range_in_def range_at_def sub_bytes_def)
  next
    case False
    then have "(if h_max h > 0 then
             rbind (read_limited (wrap64 (h_max h + 1)) bd) (\<lambda>all.
               if int (length all) > h_max h then Inl tooLarge else Inr all)
           else read_all bd) = Inr all \<Longrightarrow> all = v" for all
      using read_all_gives(1) [OF assms(1)] limited_whole [OF assms(1)] w
      by (auto simp: rbind_Inr_iff split: if_splits)
    then show ?thesis using c False f m
      by (auto simp: cutRange_def rbind_Inr_iff Let_def range_in_def range_at_def sub_bytes_def add.commute split: if_splits)
  qed
qed

lemma cutRange_full:
  assumes "gives bd v" "b_error bd = None" "range_fit offset len" "h_max h < maxInt64" "range_in v offset len"
    and "0 < h_max h \<Longrightarrow> int (length v) \<le> h_max h"
  shows "cutRange h bd offset len = Inr (sub_bytes v offset len)"
proof (cases "0 \<le> offset")
  case True
  have f: "offset \<le> int (length v)" "offset + len \<le> int (length v)" "0 \<le> len" using assms(5) True by (auto simp: range_in_def range_at_def)
  obtain bd' where s: "skip_bytes offset bd = Inr bd'" using skip_bytes_gives(3) [OF assms(1) True assms(2) f(1)] by blast
  from skip_bytes_gives(1) [OF assms(1) True s] assms(2)
  have "read_limited len bd' = Inr (take (nat len) (drop (nat offset) v))" by (simp add: read_limited_full)
  moreover have "wrap64 (offset + len) = offset + len"
    by (rule wrap64_id) (use assms(3) True in \<open>auto simp: range_fit_def in_int64_def minInt64_def\<close>)
  ultimately show ?thesis using True s f assms(6)
    by (auto simp: cutRange_def sub_bytes_def range_at_def)
next
  case False
  have w: "wrap64 (h_max h + 1) = h_max h + 1" if "0 < h_max h"
    by (rule wrap64_id) (use that assms(4) in \<open>simp add: in_int64_def minInt64_def maxInt64_def\<close>)
  have m: "wrap64 (- offset) = - offset"
    by (rule wrap64_id) (use False assms(3) in \<open>auto simp: range_fit_def in_int64_def minInt64_def maxInt64_def\<close>)
  have f: "- offset \<le> int (length v)" "0 \<le> len" "len \<le> - offset"
    using assms(3,5) False by (auto simp: range_in_def range_at_def range_fit_def)
  have "read_all bd = Inr v" using assms(1,2) by (simp add: read_all_def gives_def)
  then show ?thesis using False f assms(6) w m read_limited_full [OF assms(1,2)]
    by (auto simp: cutRange_def sub_bytes_def range_at_def Let_def add.commute)
qed

lemma range_answer_missing:
  assumes "answers h GET v resp" "range_answer h want offset len resp = Inl ErrNotFound"
  shows "v = None"
proof (cases "rs_status resp \<in> {404, 410} \<or> rs_status resp = 403 \<and> h_forbidden h")
  case True
  then show ?thesis using assms(1) by (simp add: answers_def)
next
  case False
  have "rs_status resp \<noteq> 200" using assms cutRange_error by (auto simp: range_answer_def answers_def)
  with False assms(2) have "rs_status resp = 206" by (auto simp: range_answer_def http_fail_def split: if_splits)
  moreover from this assms(1) obtain p where "gives (rs_body resp) p" by (auto simp: answers_def)
  from read_limited_gives(2) [OF this] have "read_limited n (rs_body resp) \<noteq> Inl ErrNotFound" for n .
  ultimately show ?thesis using assms(2)
    by (auto simp: range_answer_def rbind_Inl_iff split: option.splits prod.splits if_splits)
qed

lemma range_answer_sound:
  assumes "answers h GET v resp" "h_max h < maxInt64" "range_fit offset len" "want = (if offset < 0 then - offset else len)" "0 < want"
    and "\<And>b. v = Some b \<Longrightarrow> int (length b) \<le> maxInt64"
  shows "range_answer h want offset len resp = Inr x \<Longrightarrow> \<exists>b. v = Some b \<and> range_in b offset len \<and> x = sub_bytes b offset len"
proof -
  have whole: "\<exists>b. v = Some b \<and> gives (rs_body resp) b" if "rs_status resp = 200"
    using assms(1) that by (auto simp: answers_def)
  have part: "\<exists>b a z tot. v = Some b \<and> 0 \<le> a \<and> a \<le> z \<and> z < int (length b) \<and> (tot = ''*'' \<or> tot = format_int (int (length b))) \<and>
      rs_range resp = content_range a z tot \<and> gives (rs_body resp) (take (nat (z - a + 1)) (drop (nat a) b)) \<and>
      (\<exists>n. parseContentRange (rs_range resp) = Some (a, z, n) \<and> (n = int (length b) \<or> n = - 1))" if "rs_status resp = 206"
    using assms(1) that parse_content_range assms(6) unfolding answers_def by fastforce
  note f = assms(3) [unfolded range_fit_def]
  show "\<exists>b. v = Some b \<and> range_in b offset len \<and> x = sub_bytes b offset len" if r: "range_answer h want offset len resp = Inr x"
  proof (cases "rs_status resp = 200")
    case True
    with whole obtain b where b: "v = Some b" "gives (rs_body resp) b" by blast
    from cutRange_sound(1) [OF b(2) assms(3,2)] r True b(1) show ?thesis by (auto simp: range_answer_def)
  next
    case False
    then have "rs_status resp = 206" using r by (simp add: range_answer_def split: if_splits)
    from part [OF this] obtain b a z n where b: "v = Some b" "0 \<le> a" "a \<le> z" "z < int (length b)"
      "gives (rs_body resp) (take (nat (z - a + 1)) (drop (nat a) b))"
      "parseContentRange (rs_range resp) = Some (a, z, n)" "n = int (length b) \<or> n = - 1" by blast
    have w: "wrap64 (z - a + 1) = z - a + 1"
      by (rule wrap64_id) (use b(2-4) assms(6) [OF b(1)] in \<open>simp add: in_int64_def minInt64_def maxInt64_def\<close>)
    from r False b(6) w obtain c where c: "read_limited (wrap64 (want + 1)) (rs_body resp) = Inr c" "int (length c) = want" "x = take (nat len) c"
      and at: "z - a + 1 = want" "offset \<ge> 0 \<longrightarrow> a = offset" "offset < 0 \<longrightarrow> \<not> n < 0 \<and> z = n - 1"
      by (auto simp: range_answer_def rbind_Inr_iff split: if_splits)
    from read_limited_gives(1) [OF b(5) c(1)] c(2) at(1)
    have "c = take (nat want) (drop (nat a) b)" by (simp add: min_def split: if_splits)
    moreover have "a = range_at b offset" "range_in b offset len" "len \<le> want"
      using at assms(4) b(2-4,7) f by (auto simp: range_at_def range_in_def split: if_splits)
    ultimately show ?thesis using c(3) b(1) by (auto simp: sub_bytes_def min_def nat_le_eq_zle)
  qed
qed

lemma range_answer_full:
  assumes "answers h GET (Some b) resp" "full_answer GET (range_header offset len) (Some b) resp" "h_max h < maxInt64" "range_fit offset len"
    and "want = (if offset < 0 then - offset else len)" "0 < want" "range_in b offset len"
    and "0 < h_max h \<Longrightarrow> int (length b) \<le> h_max h" "int (length b) < maxInt64"
  shows "range_answer h want offset len resp = Inr (sub_bytes b offset len)"
proof -
  note f = assms(4) [unfolded range_fit_def] and i = assms(7) [unfolded range_in_def range_at_def]
  define a where "a = range_at b offset"
  define z where "z = a + want - 1"
  have az: "0 \<le> a" "a \<le> z" "z < int (length b)" using assms(5,6) f i by (auto simp: a_def z_def range_at_def split: if_splits)
  have wr: "wrap64 (offset + len - 1) = offset + len - 1" if "0 \<le> offset"
    by (rule wrap64_id) (use f i that in \<open>auto simp: in_int64_def minInt64_def\<close>)
  have "asked (range_header offset len) b a z"
    using az assms(5) wr by (auto simp: asked_def range_header_def a_def z_def range_at_def add_ac split: if_splits)
  then have c: "b_error (rs_body resp) = None" "rs_status resp = 200 \<or>
      rs_status resp = 206 \<and> rs_range resp = content_range a z (format_int (int (length b)))"
    using assms(2) by (auto simp: full_answer_def)
  from c(2) show ?thesis
  proof
    assume s: "rs_status resp = 200"
    then have "gives (rs_body resp) b" using assms(1) by (auto simp: answers_def)
    from cutRange_full [OF this c(1) assms(4,3,7,8)] s show ?thesis by (simp add: range_answer_def)
  next
    assume s: "rs_status resp = 206 \<and> rs_range resp = content_range a z (format_int (int (length b)))"
    have p: "parseContentRange (content_range a z (format_int (int (length b)))) = Some (a, z, int (length b))"
      by (rule parse_content_range) (use az assms(9) in simp_all)
    obtain a' z' tot where g: "0 \<le> a'" "a' \<le> z'" "z' < int (length b)" "tot = ''*'' \<or> tot = format_int (int (length b))"
      "rs_range resp = content_range a' z' tot" "gives (rs_body resp) (take (nat (z' - a' + 1)) (drop (nat a') b))"
      using assms(1) s by (auto simp: answers_def)
    have "\<exists>n. parseContentRange (content_range a' z' tot) = Some (a', z', n)"
      using parse_content_range [OF g(1-3)] g(4) assms(9) by auto
    then have e: "a' = a" "z' = z" using s g(5) p by auto
    have w: "wrap64 (want + 1) = want + 1" "wrap64 (z - a + 1) = want"
      using az assms(6,9) by (auto simp: z_def intro!: wrap64_id simp: in_int64_def minInt64_def maxInt64_def)
    have "read_limited (want + 1) (rs_body resp) = Inr (take (nat want) (drop (nat a) b))"
      using read_limited_full [OF g(6) c(1), of "want + 1"] assms(6) by (simp add: e z_def min_def)
    moreover have "nat a + nat want \<le> length b" "len \<le> want" "offset < 0 \<longrightarrow> z = int (length b) - 1" "0 \<le> offset \<longrightarrow> a = offset"
      using az assms(5,6) f by (auto simp: z_def a_def range_at_def)
    ultimately show ?thesis using s p w az assms(6)
      by (auto simp: range_answer_def sub_bytes_def a_def [symmetric] min_def nat_le_eq_zle)
  qed
qed

section \<open>The store\<close>

lemma http_asks:
  "io_bind (http_do h client m key rng) (\<lambda>resp. io_lift (g resp)) s = (r, t) \<Longrightarrow>
     (\<exists>e. checkKey key = Inl e \<and> r = Inl e \<and> t = s) \<or>
     (checkKey key = Inr () \<and> (\<exists>q. client m (http_url h key) rng s = (q, t) \<and> r = rbind q g))"
  by (cases "checkKey key") (auto simp: http_do_def io_bind_def split: prod.splits sum.splits)

lemma http_asked:
  "checkKey key = Inr () \<Longrightarrow> client m (http_url h key) rng s = (Inr resp, t) \<Longrightarrow>
     io_bind (http_do h client m key rng) (\<lambda>resp. io_lift (g resp)) s = (g resp, t)"
  by (simp add: http_do_def io_bind_def)

lemma checkKey_error: "checkKey k \<noteq> Inl ErrNotFound"
  by (simp add: checkKey_def rguard_def)

lemma servesD:
  assumes "serves h client served live" "client m (http_url h key) rng s = (r, t)"
  shows "served t = served s" "r \<noteq> Inl ErrNotFound" "r = Inr resp \<Longrightarrow> answers h m (served s key) resp"
  using assms unfolding serves_def by blast+

lemma serves_live:
  assumes "serves h client served live" "live s"
  obtains resp t where "client m (http_url h key) rng s = (Inr resp, t)" "live t" "full_answer m rng (served s key) resp"
    "answers h m (served s key) resp" "served t = served s"
proof -
  obtain resp t where "client m (http_url h key) rng s = (Inr resp, t)" "live t" "full_answer m rng (served s key) resp"
    using assms unfolding serves_def by blast
  with servesD [OF assms(1) this(1)] show ?thesis using that by blast
qed

text \<open>A state in which the server is live and what it has is no more than the store is to read of it.\<close>

definition http_live :: "http_store \<Rightarrow> ('s \<Rightarrow> string \<Rightarrow> bytes option) \<Rightarrow> ('s \<Rightarrow> bool) \<Rightarrow> 's \<Rightarrow> bool" where
  "http_live h served live s \<longleftrightarrow>
     live s \<and> (0 < h_max h \<longrightarrow> int index_limit \<le> h_max h) \<and> (\<forall>k b. served s k = Some b \<longrightarrow> int (length b) < maxInt64 \<and> (0 < h_max h \<longrightarrow> int (length b) \<le> h_max h))"

lemma http_range_kept:
  assumes srv: "serves h client served live" and r: "http_range h client key offset len s = (r, t)"
  shows "served t = served s" and "r = Inl ErrNotFound \<Longrightarrow> served s key = None"
proof -
  have ask: "served t = served s \<and> (r = Inl ErrNotFound \<longrightarrow> served s key = None)"
    if "io_bind (http_do h client m key rng) (\<lambda>resp. io_lift (g resp)) s = (r, t)"
      and "\<And>resp. answers h m (served s key) resp \<Longrightarrow> g resp = Inl ErrNotFound \<Longrightarrow> served s key = None" for m rng g
    using http_asks [OF that(1)] checkKey_error [of key]
  proof (elim disjE exE conjE)
    fix q assume q: "client m (http_url h key) rng s = (q, t)" "r = rbind q g"
    from servesD [OF srv q(1)] that(2) q(2) show ?thesis by (cases q) auto
  qed auto
  have "served t = served s \<and> (r = Inl ErrNotFound \<longrightarrow> served s key = None)"
    using r unfolding http_range_def emptyRange_def Let_def
    by (auto dest!: ask range_answer_missing split: if_splits simp: empty_answer_def answers_def http_fail_def)
  then show "served t = served s" "r = Inl ErrNotFound \<Longrightarrow> served s key = None" by blast+
qed

lemma http_range_found:
  assumes srv: "serves h client served live" and mx: "h_max h < maxInt64" and i: "in_int64 offset" "in_int64 len"
    and l: "\<And>v. served s key = Some v \<Longrightarrow> int (length v) \<le> maxInt64"
    and r: "http_range h client key offset len s = (Inr b, t)"
  shows "\<exists>v. served s key = Some v \<and> range_in v offset len \<and> b = sub_bytes v offset len"
proof -
  have guard: "\<not> (len < 0 \<or> (offset < 0 \<and> len > wrap64 (- offset)) \<or> offset > maxInt64 - len)"
    using r by (auto simp: http_range_def)
  note f = range_fit_guard [OF i guard]
  show ?thesis
  proof (cases "offset \<ge> 0 \<and> len = 0")
    case True
    with r guard have "io_bind (http_do h client HEAD key []) (\<lambda>resp. io_lift (empty_answer h offset resp)) s = (Inr b, t)"
      by (simp add: http_range_def emptyRange_def)
    from http_asks [OF this] obtain resp where q: "client HEAD (http_url h key) [] s = (Inr resp, t)" "empty_answer h offset resp = Inr b"
      by (auto simp: rbind_Inr_iff dest!: sym [of "Inr _"])
    from servesD(3) [OF srv q(1) refl] q(2) True show ?thesis
      by (auto simp: empty_answer_def answers_def range_in_def range_at_def sub_bytes_def split: if_splits)
  next
    case False
    let ?w = "if offset < 0 then wrap64 (- offset) else len"
    have w: "?w = (if offset < 0 then - offset else len)" "0 < ?w"
      using f False by (auto simp: range_fit_def wrap64_id in_int64_def minInt64_def)
    from r guard False have "io_bind (http_do h client GET key (range_header offset len)) (\<lambda>resp.
        io_lift (range_answer h ?w offset len resp)) s = (Inr b, t)"
      by (simp add: http_range_def Let_def split: if_splits)
    from http_asks [OF this] obtain resp where q: "client GET (http_url h key) (range_header offset len) s = (Inr resp, t)"
      "range_answer h ?w offset len resp = Inr b"
      by (auto simp: rbind_Inr_iff dest!: sym [of "Inr _"])
    from range_answer_sound [OF servesD(3) [OF srv q(1) refl] mx f w l q(2)] show ?thesis by blast
  qed
qed

lemma http_range_full:
  assumes srv: "serves h client served live" and mx: "h_max h < maxInt64" and k: "checkKey key = Inr ()"
    and s: "http_live h served live s" and b: "served s key = Some b" "range_in b offset len"
  shows "\<exists>t. http_live h served live t \<and> http_range h client key offset len s = (Inr (sub_bytes b offset len), t)"
proof -
  have lv: "live s" and lb: "int (length b) < maxInt64" "0 < h_max h \<Longrightarrow> int (length b) \<le> h_max h"
    using s b(1) by (auto simp: http_live_def)
  have i: "0 \<le> len" "offset < 0 \<longrightarrow> len \<le> - offset \<and> - offset \<le> int (length b)" "0 \<le> offset \<longrightarrow> offset + len \<le> int (length b)"
    using b(2) by (auto simp: range_in_def range_at_def split: if_splits)
  have f: "range_fit offset len" using i lb(1) by (auto simp: range_fit_def in_int64_def minInt64_def maxInt64_def)
  have w: "offset < 0 \<Longrightarrow> wrap64 (- offset) = - offset"
    using i(2) lb(1) by (intro wrap64_id) (auto simp: in_int64_def minInt64_def)
  have guard: "\<not> (len < 0 \<or> (offset < 0 \<and> len > wrap64 (- offset)) \<or> offset > maxInt64 - len)"
    using i lb(1) w by (auto simp: maxInt64_def)
  have same: "served t = served s \<Longrightarrow> live t \<Longrightarrow> http_live h served live t" for t using s by (simp add: http_live_def)
  show ?thesis
  proof (cases "offset \<ge> 0 \<and> len = 0")
    case True
    obtain resp t where q: "client HEAD (http_url h key) [] s = (Inr resp, t)" "live t" "full_answer HEAD [] (served s key) resp"
      "served t = served s" by (rule serves_live [OF srv lv])
    have "empty_answer h offset resp = Inr (sub_bytes b offset len)"
      using q(3) b(1) i(3) True by (simp add: full_answer_def empty_answer_def sub_bytes_def)
    with http_asked [where client = client, OF k q(1), where g = "empty_answer h offset"] True guard same [OF q(4,2)] show ?thesis
      by (auto simp: http_range_def emptyRange_def)
  next
    case False
    obtain resp t where q: "client GET (http_url h key) (range_header offset len) s = (Inr resp, t)" "live t"
      "full_answer GET (range_header offset len) (served s key) resp" "answers h GET (served s key) resp" "served t = served s"
      by (rule serves_live [OF srv lv])
    define want where "want = (if offset < 0 then wrap64 (- offset) else len)"
    have wt: "want = (if offset < 0 then - offset else len)" "0 < want" using w i(1) False by (auto simp: want_def)
    have a: "range_answer h want offset len resp = Inr (sub_bytes b offset len)"
      by (rule range_answer_full [OF _ _ mx f wt b(2) lb(2,1)]) (use q(3,4) b(1) in simp_all)
    have "\<not> (h_max h > 0 \<and> want > h_max h)" using wt i lb(2) by auto
    with http_asked [where client = client, OF k q(1), where g = "range_answer h want offset len"] False guard same [OF q(5,2)] a show ?thesis
      by (auto simp: http_range_def want_def [symmetric] Let_def)
  qed
qed

lemma http_range_full_missing:
  assumes srv: "serves h client served live" and k: "checkKey key = Inr ()" and s: "http_live h served live s"
    and n: "served s key = None" "range_in v offset len" "length v \<le> index_limit"
  shows "\<exists>t. http_live h served live t \<and> http_range h client key offset len s = (Inl ErrNotFound, t)"
proof -
  have lv: "live s" and mx: "0 < h_max h \<Longrightarrow> int index_limit \<le> h_max h" using s by (auto simp: http_live_def)
  have i: "0 \<le> len" "offset < 0 \<longrightarrow> len \<le> - offset \<and> - offset \<le> int index_limit" "0 \<le> offset \<longrightarrow> offset + len \<le> int index_limit"
    using n(2,3) by (auto simp: range_in_def range_at_def split: if_splits)
  have w: "offset < 0 \<Longrightarrow> wrap64 (- offset) = - offset"
    using i(2) by (intro wrap64_id) (auto simp: in_int64_def minInt64_def maxInt64_def index_limit_def)
  have guard: "\<not> (len < 0 \<or> (offset < 0 \<and> len > wrap64 (- offset)) \<or> offset > maxInt64 - len)"
    using i w by (auto simp: maxInt64_def index_limit_def)
  have ask: "\<exists>t. http_live h served live t \<and> io_bind (http_do h client m key rng) (\<lambda>resp. io_lift (g resp)) s = (Inl ErrNotFound, t)"
    if "\<And>resp. rs_status resp = 404 \<Longrightarrow> g resp = Inl ErrNotFound" for m rng g
  proof -
    obtain resp t where q: "client m (http_url h key) rng s = (Inr resp, t)" "live t" "full_answer m rng (served s key) resp"
      "answers h m (served s key) resp" "served t = served s"
      by (rule serves_live [OF srv lv])
    have "g resp = Inl ErrNotFound" using that q(3) n(1) by (simp add: full_answer_def)
    with http_asked [where client = client, OF k q(1), where g = g] q s show ?thesis by (auto simp: http_live_def)
  qed
  show ?thesis
  proof (cases "offset \<ge> 0 \<and> len = 0")
    case True
    have "http_range h client key offset len = io_bind (http_do h client HEAD key []) (\<lambda>resp. io_lift (empty_answer h offset resp))"
      using True guard by (simp add: http_range_def emptyRange_def)
    then show ?thesis using ask [of "empty_answer h offset" HEAD "[]"] by (simp add: empty_answer_def http_fail_def)
  next
    case False
    let ?w = "if offset < 0 then wrap64 (- offset) else len"
    have "\<not> (h_max h > 0 \<and> ?w > h_max h)" using i w mx by auto
    then have "http_range h client key offset len = io_bind (http_do h client GET key (range_header offset len))
        (\<lambda>resp. io_lift (range_answer h ?w offset len resp))"
      using False guard unfolding http_range_def Let_def by auto
    then show ?thesis using ask [of "range_answer h ?w offset len" GET "range_header offset len"]
      by (simp add: range_answer_def http_fail_def)
  qed
qed

lemma http_get_spec:
  assumes srv: "serves h client served live" and mx: "h_max h < maxInt64" and r: "http_get h client key s = (r, t)"
  shows "served t = served s" "r = Inr b \<Longrightarrow> served s key = Some b" "r = Inl ErrNotFound \<Longrightarrow> served s key = None"
proof -
  have "served t = served s \<and> (\<forall>b. r = Inr b \<longrightarrow> served s key = Some b) \<and> (r = Inl ErrNotFound \<longrightarrow> served s key = None)"
    using http_asks [OF r [unfolded http_get_def]] checkKey_error [of key]
  proof (elim disjE exE conjE)
    fix q assume q: "client GET (http_url h key) [] s = (q, t)" "r = rbind q (get_answer h)"
    note sv = servesD [OF srv q(1)]
    show ?thesis
    proof (cases q)
      case (Inr resp)
      from get_answer_sound [OF sv(3) [OF Inr] mx] sv(1) Inr q(2) show ?thesis by auto
    qed (use sv q(2) in auto)
  qed auto
  then show "served t = served s" "r = Inr b \<Longrightarrow> served s key = Some b" "r = Inl ErrNotFound \<Longrightarrow> served s key = None" by blast+
qed

lemma http_get_full:
  assumes srv: "serves h client served live" and mx: "h_max h < maxInt64" and k: "checkKey key = Inr ()" and s: "http_live h served live s"
  shows "\<exists>t. http_live h served live t \<and>
    http_get h client key s = (case served s key of None \<Rightarrow> Inl ErrNotFound | Some b \<Rightarrow> Inr b, t)"
proof -
  have lv: "live s" using s by (simp add: http_live_def)
  obtain resp t where q: "client GET (http_url h key) [] s = (Inr resp, t)" "live t" "full_answer GET [] (served s key) resp"
    "answers h GET (served s key) resp" "served t = served s"
    by (rule serves_live [OF srv lv])
  have "get_answer h resp = (case served s key of None \<Rightarrow> Inl ErrNotFound | Some b \<Rightarrow> Inr b)"
    by (rule get_answer_full [OF q(4,3) mx]) (use s in \<open>simp add: http_live_def\<close>)
  with http_asked [where client = client, OF k q(1), where g = "get_answer h"] q s show ?thesis by (auto simp: http_get_def http_live_def)
qed

text \<open>A server that says what is so makes the HTTP store one that can be read.\<close>

lemma http_store_reads:
  assumes srv: "serves h client served live" and mx: "h_max h < maxInt64"
  shows "store_reads (http_ops h client) served (http_live h served live)"
proof -
  have ops: "st_get (http_ops h client) = http_get h client" "st_range (http_ops h client) = Some (http_range h client)"
    by (simp_all add: http_ops_def)
  show ?thesis
    unfolding store_reads_def ops option.inject
    by (intro conjI allI impI; (hypsubst)?;
      (erule http_range_kept(1) [OF srv] | erule http_get_spec(1) [OF srv mx])?)
      (use http_get_spec(2,3) [OF srv mx] http_get_full [OF srv mx] http_range_kept(2) [OF srv] http_range_found [OF srv mx]
        http_range_full [OF srv mx] http_range_full_missing [OF srv] in \<open>metis | blast\<close>)+
qed

end
