(* ===== verification/Http_Theorems.thy ===== *)
theory Http_Theorems
  imports Http_Laws Array_Theorems
begin

text \<open>
  What reading over HTTP is right about, and a server on which that is shown to apply.
\<close>

section \<open>Whatever the server says\<close>

lemma cutRange_length: "cutRange h bd offset len = Inr b \<Longrightarrow> 0 \<le> len \<Longrightarrow> int (length b) = len"
  by (auto simp: cutRange_def rbind_Inr_iff Let_def split: sum.splits if_splits)

lemma range_answer_length:
  assumes "range_answer h want offset len resp = Inr b" "0 \<le> len" "len \<le> want"
  shows "int (length b) = len"
proof (cases "rs_status resp = 200")
  case True
  then show ?thesis using assms cutRange_length by (simp add: range_answer_def)
next
  case False
  then show ?thesis using assms
    by (auto simp: range_answer_def rbind_Inr_iff split: if_splits option.splits prod.splits)
qed

text \<open>\<open>GetRange\<close> over HTTP gives just as many bytes as it was asked for, or an error, whatever the server
  answers: a status, headers and a body of any kind. (\<open>GetRange\<close>, \<open>cutRange\<close>, \<open>emptyRange\<close>.)\<close>

theorem http_range_length:
  assumes "http_range h client key offset len s = (Inr b, t)"
  shows "0 \<le> len \<and> int (length b) = len"
proof -
  have l: "0 \<le> len" "offset < 0 \<Longrightarrow> len \<le> wrap64 (- offset)" using assms by (auto simp: http_range_def split: if_splits)
  have "int (length b) = len"
    using assms range_answer_length [OF _ l(1)] l(2) unfolding http_range_def emptyRange_def Let_def
    by (auto split: if_splits dest!: http_asks simp: rbind_Inr_iff empty_answer_def dest!: sym [of "Inr _"])
  with l(1) show ?thesis by blast
qed

text \<open>A limit of the greatest integer there is reads nothing: one more than it wraps around.\<close>

lemma greatest_limit_reads_nothing: "h_max h = maxInt64 \<Longrightarrow> get_answer h resp = Inr b \<Longrightarrow> b = []"
proof -
  have "wrap64 (maxInt64 + 1) = minInt64" by (simp add: wrap64_def maxInt64_def minInt64_def)
  moreover assume "h_max h = maxInt64" "get_answer h resp = Inr b"
  ultimately show ?thesis
    by (auto simp: get_answer_def read_limited_def rbind_Inr_iff maxInt64_def minInt64_def split: if_splits)
qed

section \<open>A server\<close>

text \<open>A server of files, which answers a request for a range with the range.\<close>

definition header_range :: "string \<Rightarrow> bytes \<Rightarrow> (int \<times> int) option" where
  "header_range rng b =
     (if \<not> prefix ''bytes='' rng then None
      else
        (let r = drop 6 rng; n = int (length b)
         in if r \<noteq> [] \<and> hd r = CHR ''-'' then
              map_option (\<lambda>k. (max 0 (n + k), n - 1)) (parse_int 64 r)
            else
              (case str_cut (CHR ''-'') r of
                 None \<Rightarrow> None
               | Some (lo, hi) \<Rightarrow>
                   (case (parse_int 64 lo, parse_int 64 hi) of
                      (Some a, Some z) \<Rightarrow> Some (a, min z (n - 1))
                    | _ \<Rightarrow> None))))"

definition file_answer :: "http_method \<Rightarrow> string \<Rightarrow> bytes \<Rightarrow> response" where
  "file_answer m rng b =
     (let whole = \<lparr>rs_status = 200, rs_length = int (length b), rs_range = [], rs_body = \<lparr>b_bytes = b, b_error = None\<rparr>\<rparr>
      in case (if m = GET then header_range rng b else None) of
           None \<Rightarrow> whole
         | Some (a, z) \<Rightarrow>
             if 0 \<le> a \<and> a \<le> z \<and> z < int (length b) then
               \<lparr>rs_status = 206, rs_length = z - a + 1, rs_range = content_range a z (format_int (int (length b))),
                rs_body = \<lparr>b_bytes = take (nat (z - a + 1)) (drop (nat a) b), b_error = None\<rparr>\<rparr>
             else whole\<lparr>rs_status := 416\<rparr>)"

definition file_client :: "http_store \<Rightarrow> (string \<times> bytes) list \<Rightarrow> 's client" where
  "file_client h files m url rng =
     io_ret (case find (\<lambda>(k, _). http_url h k = url) files of
        None \<Rightarrow> \<lparr>rs_status = 404, rs_length = 0, rs_range = [], rs_body = \<lparr>b_bytes = [], b_error = None\<rparr>\<rparr>
      | Some (_, b) \<Rightarrow> file_answer m rng b)"

lemma find_file: "find (\<lambda>(k, _). http_url h k = http_url h key) files = map_option (\<lambda>b. (key, b)) (map_of files key)"
  by (induction files) (auto dest: http_url_inj)

lemma header_range_asked:
  assumes "asked rng b a z" "int (length b) \<le> maxInt64"
  shows "header_range rng b = Some (a, z)"
proof -
  have az: "0 \<le> a" "a \<le> z" "z < int (length b)" using assms(1) by (auto simp: asked_def)
  have p: "parse_int 64 (format_int k) = Some k" if "- int (length b) \<le> k" "k \<le> int (length b)" for k
    by (rule parse_format_int) (use that assms(2) in \<open>simp_all add: maxInt64_def\<close>)
  from assms(1) consider "rng = ''bytes='' @ format_int a @ ''-'' @ format_int z"
    | "z = int (length b) - 1" "rng = ''bytes='' @ format_int (a - int (length b))" by (auto simp: asked_def)
  then show ?thesis
  proof cases
    case 1
    have d: "c \<in> set (format_int a) \<Longrightarrow> is_digit c" for c by (rule format_int_chars [OF az(1)])
    have "format_int a \<noteq> []" using az(1) by (simp add: format_int_def itoa_not_Nil)
    then have h: "hd (format_int a) \<noteq> CHR ''-''" using d [of "hd (format_int a)"] by (auto simp: is_digit_def)
    have "str_cut (CHR ''-'') (format_int a @ CHR ''-'' # format_int z) = Some (format_int a, format_int z)"
      by (rule str_cut_append) (use d in \<open>force simp: is_digit_def\<close>)
    then show ?thesis using 1 az h p [of a] p [of z] \<open>format_int a \<noteq> []\<close> by (simp add: header_range_def)
  next
    case 2
    have "format_int (a - int (length b)) = CHR ''-'' # itoa (nat (int (length b) - a))" using az by (simp add: format_int_def)
    then show ?thesis using 2 az p [of "a - int (length b)"] by (simp add: header_range_def)
  qed
qed

lemma file_client_serves:
  assumes "\<forall>b \<in> snd ` set files. int (length b) \<le> maxInt64"
  shows "serves h (file_client h files) (\<lambda>_. map_of files) (\<lambda>_. True)"
proof -
  have a: "answers h m (Some b) (file_answer m rng b)" for m rng b
    by (auto simp: answers_def file_answer_def gives_def Let_def split: option.splits)
  have f: "full_answer m rng (Some b) (file_answer m rng b)" if "int (length b) \<le> maxInt64" for m rng b
  proof -
    have "header_range [] b = None" by (simp add: header_range_def)
    then show ?thesis using header_range_asked [OF _ that, of rng]
      by (cases m) (auto simp: full_answer_def file_answer_def Let_def asked_def split: option.splits)
  qed
  have l: "int (length b) \<le> maxInt64" if "map_of files key = Some b" for key b
    using assms map_of_SomeD [OF that] by force
  show ?thesis
    unfolding serves_def file_client_def find_file using a f l
    by (auto simp: answers_def full_answer_def split: option.split)
qed

definition file_store :: http_store where
  "file_store = \<lparr>h_base = ''http://a'', h_query = [], h_forbidden = False, h_max = 2 ^ 32\<rparr>"

definition demo_files :: "(string \<times> bytes) list" where
  "demo_files = [(''y/c/0'', [5, 6])]"

lemma demo_serves: "serves file_store (file_client file_store demo_files) (\<lambda>_. map_of demo_files) (\<lambda>_. True)"
  by (rule file_client_serves) (simp add: demo_files_def maxInt64_def)

lemma file_store_max: "h_max file_store < maxInt64"
  by (simp add: file_store_def maxInt64_def)

lemma demo_files_live: "http_live file_store (\<lambda>_. map_of demo_files) (\<lambda>_. True) s"
  by (simp add: http_live_def file_store_def demo_files_def index_limit_def maxInt64_def)

section \<open>Whole values\<close>

text \<open>C35: over a server that says what is so, \<open>Get\<close> gives the whole value of a key or an error, \<open>ErrNotFound\<close> only
  if there is none, and while the server answers in full it gives every value that is no longer than
  \<open>MaxObjectBytes\<close>. That is so of every limit but the greatest integer there is, with which no byte of any
  value is read. (\<open>HTTPStore.Get\<close>.)\<close>

theorem http_get_exact:
  assumes "serves h client served live"
  shows "case http_get h client key s of
      (Inr b, t) \<Rightarrow> served t = served s \<and> (if h_max h < maxInt64 then served s key = Some b else h_max h = maxInt64 \<longrightarrow> b = [])
    | (Inl e, t) \<Rightarrow> served t = served s \<and> (h_max h < maxInt64 \<longrightarrow> (e = ErrNotFound \<longrightarrow> served s key = None) \<and>
        (http_live h served live s \<and> checkKey key = Inr () \<longrightarrow> e = ErrNotFound))"
proof -
  obtain r t where r: "http_get h client key s = (r, t)" by fastforce
  have kept: "served t = served s" and no_byte: "h_max h = maxInt64 \<Longrightarrow> r = Inr b \<Longrightarrow> b = []" for b
    using http_asks [OF r [unfolded http_get_def]] servesD(1) [OF assms] greatest_limit_reads_nothing [of h]
    by (fastforce, auto simp: rbind_Inr_iff eq_commute [of "Inr _"])
  show ?thesis
  proof (cases r)
    case (Inl e)
    have "e = ErrNotFound" if "h_max h < maxInt64" "http_live h served live s" "checkKey key = Inr ()"
      using http_get_full [OF assms that(1,3,2)] r Inl by (auto split: option.splits)
    then show ?thesis using http_get_spec(3) [OF assms _ r] kept unfolding r Inl by auto
  next
    case (Inr b)
    then have n: "h_max h = maxInt64 \<longrightarrow> b = []" using no_byte Inr by blast
    from Inr show ?thesis using http_get_spec(2) [OF assms _ r] kept unfolding r Inr by (simp add: n)
  qed
qed

theorem http_get_exact_witness: "fst (http_get file_store (file_client file_store demo_files) ''y/c/0'' ()) = Inr [5, 6]"
proof -
  have "checkKey ''y/c/0'' = Inr ()" by (simp add: checkKey_def validSegments_def)
  then show ?thesis
    using http_get_exact [OF demo_serves, where key = "''y/c/0''" and s = "()"] http_get_full [OF demo_serves file_store_max _ demo_files_live [of "()"], of "''y/c/0''"]
      file_store_max
    by (auto simp: demo_files_def split: prod.splits sum.splits)
qed

section \<open>Ranges\<close>

lemma demo_range: "\<exists>t. http_range file_store (file_client file_store demo_files) ''y/c/0'' (- 1) 1 () = (Inr [6], t)"
proof -
  have "checkKey ''y/c/0'' = Inr ()" by (simp add: checkKey_def validSegments_def)
  moreover have "range_in [5, 6] (- 1) 1" by (simp add: range_in_def range_at_def)
  ultimately show ?thesis
    using http_range_full [OF demo_serves file_store_max _ demo_files_live, of "''y/c/0''" "[5, 6]" "- 1" 1 "()"]
    by (auto simp: demo_files_def sub_bytes_def range_at_def)
qed

theorem http_range_length_witness:
  "\<exists>b t. http_range file_store (file_client file_store demo_files) ''y/c/0'' (- 1) 1 () = (Inr b, t) \<and> int (length b) = 1"
proof -
  obtain t where r: "http_range file_store (file_client file_store demo_files) ''y/c/0'' (- 1) 1 () = (Inr [6], t)"
    using demo_range by blast
  from http_range_length [OF r] r show ?thesis by blast
qed

text \<open>C36: over a server that says what is so, \<open>GetRange\<close> gives the bytes of the value that were asked for, whether
  the server answers with the range or with all of the value, or else an error; and while the server
  answers in full, it gives them if they are within the value, \<open>ErrNotFound\<close> if there is none, and
  otherwise an error that is not \<open>ErrNotFound\<close>. (\<open>GetRange\<close>, \<open>cutRange\<close>, \<open>parseContentRange\<close>.)\<close>

theorem http_range_exact:
  assumes "serves h client served live" "h_max h < maxInt64" "in_int64 offset" "in_int64 len"
    and "\<forall>v. served s key = Some v \<longrightarrow> int (length v) \<le> maxInt64"
  shows "case http_range h client key offset len s of
      (Inr b, t) \<Rightarrow> served t = served s \<and> (\<exists>v. served s key = Some v \<and> range_in v offset len \<and> b = sub_bytes v offset len)
    | (Inl e, t) \<Rightarrow> served t = served s \<and> (e = ErrNotFound \<longrightarrow> served s key = None) \<and>
        (http_live h served live s \<and> checkKey key = Inr () \<longrightarrow> (\<forall>v. served s key = Some v \<longrightarrow> \<not> range_in v offset len))"
proof -
  obtain r t where r: "http_range h client key offset len s = (r, t)" by fastforce
  note k = http_range_kept [OF assms(1) r]
  show ?thesis
  proof (cases r)
    case (Inl e)
    have "\<not> range_in v offset len" if "http_live h served live s" "checkKey key = Inr ()" "served s key = Some v" for v
      using http_range_full [OF assms(1,2) that(2,1,3)] r Inl by fastforce
    with k show ?thesis unfolding r Inl by simp
  next
    case (Inr b)
    from http_range_found [OF assms(1-4) _ r [unfolded Inr]] assms(5) k(1) show ?thesis unfolding r Inr by simp
  qed
qed

theorem http_range_exact_witness:
  "fst (http_range file_store (file_client file_store demo_files) ''y/c/0'' (- 1) 1 ()) = Inr [6]"
proof -
  have k: "checkKey ''y/c/0'' = Inr ()" by (simp add: checkKey_def validSegments_def)
  have r: "range_in [5, 6] (- 1) 1" by (simp add: range_in_def range_at_def)
  show ?thesis
    using http_range_exact [OF demo_serves file_store_max, where offset = "- 1" and len = 1 and s = "()" and key = "''y/c/0''"]
      demo_files_live [of "()"] k r
    by (auto simp: demo_files_def in_int64_def minInt64_def maxInt64_def sub_bytes_def range_at_def http_live_def split: prod.splits sum.splits)
qed

section \<open>Arrays\<close>

text \<open>C37: an array is read over HTTP as it is from any other store: from a server that says what is so, reading a
  region that is within the array gives the element at every index, in whatever order the requests are
  made, and fails only if a request does, or is cancelled; nothing is written. (\<open>Read\<close> over \<open>HTTPStore\<close>.)\<close>

theorem read_over_http_exact:
  assumes "serves h client served live" "h_max h < maxInt64"
    and "arr_ok env cs a" "a_store a = http_ops h client" "readable a (served s)"
    and "sched_ok sched" "fits start shape (a_shape a)"
    and "int (product_of shape) \<le> maxInt64 div int (dsize (a_type a))"
  shows "(case arr_read sched a (a_type a) (Some (ints start)) (Some (ints shape)) s of
      (Inr out, t) \<Rightarrow> served t = served s \<and> length out = product_of shape \<and>
        (\<forall>idx. inside idx shape \<longrightarrow> out ! lin shape idx = value_at a (served s) (plusV start idx))
    | (Inl e, t) \<Rightarrow> \<not> (http_live h served live s \<and> sched_full sched) \<and> served t = served s) \<and>
    st_set (a_store a) k b s = (Inl ErrReadOnly, s) \<and> st_delete (a_store a) k s = (Inl ErrReadOnly, s)"
proof -
  note rd = http_store_reads [OF assms(1,2)]
  obtain lo hi where r: "region a (Some (ints start)) (Some (ints shape)) (a_chunks a) = Inr (start, shape, lo, hi, 0 \<in> set shape)"
    using region_given [OF assms(3,7)] by blast
  have "wp (\<lambda>s. http_live h served live s \<and> sched_full sched) (arr_read sched a (a_type a) (Some (ints start)) (Some (ints shape))) s
      (\<lambda>out t. served t = served s \<and> region_values a (served s) start shape out) (\<lambda>t. served t = served s)"
    by (rule store_reads.read_correct [OF store_reads_conj [OF rd] assms(3-6) _ r assms(8)]) simp
  then show ?thesis using assms(4) by (auto simp: wp_def region_values_def http_ops_def split: prod.splits sum.splits)
qed

definition http_array :: "unit arr" where
  "http_array =
     \<lparr>a_store = http_ops file_store (file_client file_store demo_files), a_path = ''y'', a_meta = a_meta plain_array,
      a_keys = \<lparr>k_v2 = False, k_sep = ''/''\<rparr>, a_fill = VUint8 7, a_codecs = demo_pipe, a_grid = [2], a_chunks = [2],
      a_perShard = [1], a_shard = None, a_indexSize = 0, a_writeEmpty = False, a_concurrency = 1\<rparr>"

lemma http_array_ok: "arr_ok demo_env plain_codecs http_array"
proof -
  have "storedSpec http_array = storedSpec plain_array"
    by (simp add: http_array_def plain_array_def storedSpec_def)
  then show ?thesis using plain_ok
    by (simp add: arr_ok_def http_array_def shard_fields_def plain_codecs_def) (simp add: plain_array_def)
qed

lemma http_content: "content http_array (Some [5, 6]) = Inr [VUint8 5, VUint8 6]"
  by code_simp

theorem read_over_http_exact_witness:
  "\<exists>out t. arr_read (\<lambda>n. rev [0 ..< n]) http_array Uint8 (Some [1]) (Some [2]) () = (Inr out, t) \<and>
     out ! 0 = VUint8 6 \<and> out ! 1 = VUint8 7"
proof -
  have f: "a_store http_array = http_ops file_store (file_client file_store demo_files)" "a_type http_array = Uint8"
    "a_shape http_array = [3]"
    by (simp_all add: http_array_def plain_array_def demo_meta_def)
  have k: "cell_key http_array [1] = ''y/c/0''" "cell_key http_array [2] = ''y/c/1''" by code_simp+
  have rd: "readable http_array (map_of demo_files)"
    by (auto simp: readable_def sound_object_def http_content demo_files_def) (simp add: content_def)
  have v: "value_at http_array (map_of demo_files) [1] = VUint8 6" "value_at http_array (map_of demo_files) [2] = VUint8 7"
    unfolding value_at_def k using http_content
    by (simp_all add: demo_files_def) (simp_all add: content_def http_array_def filled_replicate fill_elem_def go_eq_def modV_def)
  obtain r t where rt: "arr_read (\<lambda>n. rev [0 ..< n]) http_array Uint8 (Some [1]) (Some [2]) () = (r, t)" by (rule prod.exhaust)
  have live: "http_live file_store (\<lambda>_. map_of demo_files) (\<lambda>_. True) () \<and> sched_full (\<lambda>n. rev [0 ..< n])"
    by (rule conjI [OF demo_files_live conjunct2 [OF demo_sched]])
  have "case (r, t) of
      (Inr out, t) \<Rightarrow> map_of demo_files = map_of demo_files \<and> length out = product_of [2] \<and>
        (\<forall>idx. inside idx [2] \<longrightarrow> out ! lin [2] idx = value_at http_array (map_of demo_files) (plusV [1] idx))
    | (Inl e, t) \<Rightarrow> \<not> (http_live file_store (\<lambda>_. map_of demo_files) (\<lambda>_. True) () \<and> sched_full (\<lambda>n. rev [0 ..< n])) \<and>
        map_of demo_files = map_of demo_files"
    using read_over_http_exact [OF demo_serves file_store_max http_array_ok f(1) rd, where s = "()" and sched = "\<lambda>n. rev [0 ..< n]" and start = "[1]" and shape = "[2]",
      THEN conjunct1] demo_sched rt f by (simp add: maxInt64_def)
  then obtain out t where o: "arr_read (\<lambda>n. rev [0 ..< n]) http_array Uint8 (Some [1]) (Some [2]) () = (Inr out, t)"
    "\<And>idx. inside idx [2] \<Longrightarrow> out ! lin [2] idx = value_at http_array (map_of demo_files) (plusV [1] idx)"
    using live rt by (auto split: sum.splits)
  from o(2) [of "[0]"] o(2) [of "[1]"] v have "out ! 0 = VUint8 6" "out ! 1 = VUint8 7" by (simp_all add: numeral_2_eq_2)
  with o(1) show ?thesis by blast
qed

end
