(* ===== verification/Dirs.thy ===== *)
theory Dirs
  imports Stores
begin

text \<open>
  The store of files under a directory (\<open>DirStore\<close> of \<open>src/store.go\<close>), on a file system.

  A tree has a file or a directory at a path, which is the list of the names below the root of the
  store; the root is at the empty path. What the system calls to come do is given: each works, or fails
  after so many bytes or directories. The state keeps every tree that another process may have seen,
  latest first. A context is how many more times \<open>ctx.Err()\<close> is nil, as for the memory store. What
  \<open>os.CreateTemp\<close> puts in the name of a file is an argument.
\<close>

section \<open>The file system\<close>

datatype fsnode = FsFile bytes | FsDir

datatype fs_error = NotExist | NotDir | IsDir | NotEmpty | FsExists | FsFault

type_synonym fstree = "(string list, fsnode) alist"

record dirstore =
  d_tree :: fstree
  d_seen :: "fstree list"
  d_calls :: "nat option list"
  d_ctx :: "nat option"
  d_dirsize :: int

type_synonym 'a fs = "dirstore \<Rightarrow> (fs_error + 'a) \<times> dirstore"

abbreviation fs_at :: "fstree \<Rightarrow> string list \<Rightarrow> fsnode option" where
  "fs_at t \<equiv> DAList.lookup t"

text \<open>A system call that works, or is broken.\<close>

definition fs_call :: "(nat \<Rightarrow> 'a fs) \<Rightarrow> 'a fs \<Rightarrow> 'a fs" where
  "fs_call broken works s =
     (case d_calls s of
        [] \<Rightarrow> works s
      | None # calls \<Rightarrow> works (s\<lparr>d_calls := calls\<rparr>)
      | Some n # calls \<Rightarrow> broken n (s\<lparr>d_calls := calls\<rparr>))"

abbreviation fs_fails :: "nat \<Rightarrow> 'a fs" where
  "fs_fails n s \<equiv> (Inl FsFault, s)"

definition fs_put :: "fstree \<Rightarrow> dirstore \<Rightarrow> dirstore" where
  "fs_put t s = s\<lparr>d_tree := t, d_seen := t # d_seen s\<rparr>"

text \<open>What is at a path: a name below a file is not a directory's.\<close>

definition fs_find :: "fstree \<Rightarrow> string list \<Rightarrow> fs_error + fsnode" where
  "fs_find t p =
     (case fs_at t p of
        Some n \<Rightarrow> Inr n
      | None \<Rightarrow>
          if \<exists>i < length p. fs_at t (take i p) \<notin> {None, Some FsDir} then Inl NotDir else Inl NotExist)"

definition fs_entries :: "fstree \<Rightarrow> string list \<Rightarrow> string list" where
  "fs_entries t p = sort (map last (filter (\<lambda>q. q \<noteq> [] \<and> butlast q = p) (map fst (DAList.impl_of t))))"

definition os_stat :: "string list \<Rightarrow> fsnode fs" where
  "os_stat p = fs_call fs_fails (\<lambda>s. (fs_find (d_tree s) p, s))"

definition os_ReadFile :: "string list \<Rightarrow> bytes fs" where
  "os_ReadFile p = fs_call fs_fails (\<lambda>s.
     (case fs_find (d_tree s) p of Inl e \<Rightarrow> Inl e | Inr FsDir \<Rightarrow> Inl IsDir | Inr (FsFile b) \<Rightarrow> Inr b, s))"

definition os_ReadDir :: "string list \<Rightarrow> string list fs" where
  "os_ReadDir p = fs_call fs_fails (\<lambda>s.
     (case fs_find (d_tree s) p of Inl e \<Rightarrow> Inl e | Inr (FsFile _) \<Rightarrow> Inl NotDir | Inr FsDir \<Rightarrow> Inr (fs_entries (d_tree s) p), s))"

text \<open>\<open>os.MkdirAll\<close>: the directories of a path from the root down; one that breaks has made some of them.\<close>

fun mk_dirs :: "string list list \<Rightarrow> unit fs" where
  "mk_dirs [] s = (Inr (), s)"
| "mk_dirs (q # qs) s =
     (case fs_at (d_tree s) q of
        None \<Rightarrow> mk_dirs qs (fs_put (DAList.update q FsDir (d_tree s)) s)
      | Some FsDir \<Rightarrow> mk_dirs qs s
      | Some (FsFile _) \<Rightarrow> (Inl NotDir, s))"

definition ancestors :: "string list \<Rightarrow> string list list" where
  "ancestors p = map (\<lambda>i. take i p) [0 ..< Suc (length p)]"

definition os_MkdirAll :: "string list \<Rightarrow> unit fs" where
  "os_MkdirAll p =
     fs_call (\<lambda>n s. (Inl FsFault, snd (mk_dirs (take n (ancestors p)) s))) (mk_dirs (ancestors p))"

definition os_CreateTemp :: "string list \<Rightarrow> string fs" where
  "os_CreateTemp p = fs_call fs_fails (\<lambda>s.
     if fs_at (d_tree s) p \<noteq> None then (Inl FsExists, s)
     else if fs_at (d_tree s) (butlast p) \<noteq> Some FsDir then (Inl NotExist, s)
     else (Inr (last p), fs_put (DAList.update p (FsFile []) (d_tree s)) s))"

text \<open>\<open>f.Write\<close>: others may see any part of what is written.\<close>

definition fs_write :: "string list \<Rightarrow> bytes \<Rightarrow> dirstore \<Rightarrow> dirstore" where
  "fs_write p b s = fold (\<lambda>n. fs_put (DAList.update p (FsFile (take n b)) (d_tree s))) [0 ..< Suc (length b)] s"

definition file_Write :: "string list \<Rightarrow> bytes \<Rightarrow> unit fs" where
  "file_Write p b = fs_call (\<lambda>n s. (Inl FsFault, fs_write p (take n b) s)) (\<lambda>s. (Inr (), fs_write p b s))"

text \<open>A call that only tells, or lets go of a file.\<close>

definition fs_quiet :: "unit fs" where
  "fs_quiet = fs_call fs_fails (\<lambda>s. (Inr (), s))"

definition os_Rename :: "string list \<Rightarrow> string list \<Rightarrow> unit fs" where
  "os_Rename p q = fs_call fs_fails (\<lambda>s.
     case (fs_at (d_tree s) p, fs_at (d_tree s) q) of
       (None, _) \<Rightarrow> (Inl NotExist, s)
     | (_, Some FsDir) \<Rightarrow> (Inl FsExists, s)
     | (Some FsDir, _) \<Rightarrow> (Inl NotDir, s)
     | (Some n, _) \<Rightarrow>
         if fs_at (d_tree s) (butlast q) \<noteq> Some FsDir then (Inl NotExist, s)
         else (Inr (), fs_put (DAList.update q n (DAList.delete p (d_tree s))) s))"

definition os_Remove :: "string list \<Rightarrow> unit fs" where
  "os_Remove p = fs_call fs_fails (\<lambda>s.
     case fs_find (d_tree s) p of
       Inl e \<Rightarrow> (Inl e, s)
     | Inr FsDir \<Rightarrow>
         if fs_entries (d_tree s) p \<noteq> [] then (Inl NotEmpty, s) else (Inr (), fs_put (DAList.delete p (d_tree s)) s)
     | Inr (FsFile _) \<Rightarrow> (Inr (), fs_put (DAList.delete p (d_tree s)) s))"

section \<open>The store\<close>

text \<open>An error of the file system, as the caller of a store tells it apart.\<close>

abbreviation other_error :: error where
  "other_error \<equiv> ErrOther ''file system''"

definition fs_lift :: "(fs_error \<Rightarrow> error) \<Rightarrow> 'a fs \<Rightarrow> (dirstore, 'a) io" where
  "fs_lift err f s = (case f s of (Inl e, t) \<Rightarrow> (Inl (err e), t) | (Inr x, t) \<Rightarrow> (Inr x, t))"

definition not_found :: "fs_error \<Rightarrow> error" where
  "not_found e = (if e = NotExist then ErrNotFound else other_error)"

definition dir_Err :: "(dirstore, unit) io" where
  "dir_Err s =
     (case d_ctx s of
        None \<Rightarrow> (Inr (), s)
      | Some 0 \<Rightarrow> (Inl ErrCtx, s)
      | Some (Suc n) \<Rightarrow> (Inr (), s\<lparr>d_ctx := Some n\<rparr>))"

definition dir_path :: "string \<Rightarrow> string list res" where
  "dir_path key = rbind (checkKey key) (\<lambda>_. Inr (str_split (CHR ''/'') key))"

definition dir_get :: "string \<Rightarrow> (dirstore, bytes) io" where
  "dir_get key = io_bind dir_Err (\<lambda>_. io_bind (io_lift (dir_path key)) (\<lambda>p. fs_lift not_found (os_ReadFile p)))"

text \<open>\<open>make\<close> panics at more bytes than a process of 48-bit addresses can hold.\<close>

definition max_alloc :: int where
  "max_alloc = 2 ^ 48"

text \<open>\<open>os.Open\<close>, \<open>f.Stat\<close>, \<open>span\<close>, \<open>make\<close>, and \<open>f.ReadAt\<close>, which reads no directory and nothing past the end.\<close>

definition dir_range :: "string \<Rightarrow> int \<Rightarrow> int \<Rightarrow> (dirstore, bytes) io" where
  "dir_range key offset len =
     io_bind dir_Err (\<lambda>_.
     io_bind (io_lift (dir_path key)) (\<lambda>p.
     io_bind (fs_lift not_found (os_stat p)) (\<lambda>n.
     io_bind (fs_lift (\<lambda>_. other_error) fs_quiet) (\<lambda>_ s.
       let size = (case n of FsFile b \<Rightarrow> int (length b) | FsDir \<Rightarrow> d_dirsize s)
       in io_bind (io_lift (span size offset len)) (\<lambda>at.
          if len > max_alloc then io_err Panic
          else if len = 0 then io_ret []
          else
            io_bind (fs_lift (\<lambda>_. other_error) fs_quiet) (\<lambda>_.
              case n of
                FsFile b \<Rightarrow> if at + len > size then io_err other_error else io_ret (take (nat len) (drop (nat at) b))
              | FsDir \<Rightarrow> io_err other_error)) s))))"

definition temp_name :: "string \<Rightarrow> string \<Rightarrow> string" where
  "temp_name base rnd = ''.'' @ base @ ''.'' @ rnd"

text \<open>From \<open>f.Write\<close> on: the temporary file is renamed to the key's, or removed.\<close>

definition set_temp :: "string list \<Rightarrow> string list \<Rightarrow> bytes \<Rightarrow> (dirstore, unit) io" where
  "set_temp temp p v =
     io_try (fs_lift (\<lambda>_. other_error) (file_Write temp v)) (\<lambda>werr.
     io_try (fs_lift (\<lambda>_. other_error) fs_quiet) (\<lambda>cerr.
     io_try (io_bind (io_lift werr) (\<lambda>_. io_bind (io_lift cerr) (\<lambda>_. fs_lift (\<lambda>_. other_error) (os_Rename temp p)))) (\<lambda>werr.
       case werr of
         Inr _ \<Rightarrow> io_ret ()
       | Inl e \<Rightarrow> io_try (fs_lift (\<lambda>_. other_error) (os_Remove temp)) (\<lambda>_. io_err e))))"

definition dir_set :: "(dirstore \<Rightarrow> string) \<Rightarrow> string \<Rightarrow> bytes \<Rightarrow> (dirstore, unit) io" where
  "dir_set rnd key v =
     io_bind dir_Err (\<lambda>_.
     io_bind (io_lift (dir_path key)) (\<lambda>p.
     io_bind (fs_lift (\<lambda>_. other_error) (os_MkdirAll (butlast p))) (\<lambda>_ s.
       let temp = butlast p @ [temp_name (last p) (rnd s)]
       in io_bind (fs_lift (\<lambda>_. other_error) (os_CreateTemp temp)) (\<lambda>_. set_temp temp p v) s)))"

definition dir_delete :: "string \<Rightarrow> (dirstore, unit) io" where
  "dir_delete key =
     io_bind dir_Err (\<lambda>_. io_bind (io_lift (dir_path key)) (\<lambda>p.
     io_try (fs_lift not_found (os_Remove p)) (\<lambda>r.
       case r of Inl e \<Rightarrow> if e \<noteq> ErrNotFound then io_err e else io_ret () | Inr _ \<Rightarrow> io_ret ())))"

section \<open>Listing\<close>

definition hidden :: "string \<Rightarrow> bool \<Rightarrow> bool" where
  "hidden name dir \<longleftrightarrow>
     prefix ''.'' name \<and> (if name \<in> {''.zarray'', ''.zgroup'', ''.zattrs'', ''.zmetadata''} then dir else True)"

text \<open>\<open>walk\<close>: the directory of a prefix, and the rest.\<close>

definition dir_walk :: "string \<Rightarrow> (string list \<times> string) res" where
  "dir_walk p =
     rbind (checkPrefix p) (\<lambda>_.
       let segs = str_split (CHR ''/'') p in Inr (butlast segs, last segs))"

text \<open>\<open>filepath.WalkDir\<close> with the callback of \<open>List\<close>, from a path that is below the root of the walk; the
  fuel is for the depth of the tree.\<close>

fun walk_dir :: "nat \<Rightarrow> string list \<Rightarrow> string \<Rightarrow> string list \<Rightarrow> (dirstore, string list) io"
  and walk_names :: "nat \<Rightarrow> string list \<Rightarrow> string \<Rightarrow> string list \<Rightarrow> string list \<Rightarrow> (dirstore, string list) io" where
  "walk_dir 0 root base p = io_ret []"
| "walk_dir (Suc fuel) root base p =
     io_try (fs_lift not_found (os_ReadDir p)) (\<lambda>r.
       case r of
         Inl e \<Rightarrow> if e = ErrNotFound then io_ret [] else io_err e
       | Inr names \<Rightarrow> walk_names fuel root base p names)"
| "walk_names fuel root base p [] = io_ret []"
| "walk_names fuel root base p (name # names) =
     io_bind (\<lambda>s. (Inr (fs_at (d_tree s) (p @ [name]) = Some FsDir), s)) (\<lambda>dir.
     io_bind dir_Err (\<lambda>_.
     io_bind
       (if hidden name dir \<or> (p = root \<and> \<not> prefix base name) then io_ret []
        else if dir then walk_dir fuel root base (p @ [name])
        else if checkKey (str_join ''/'' (p @ [name])) \<noteq> Inr () then io_ret []
        else io_ret [str_join ''/'' (p @ [name])]) (\<lambda>keys.
     io_bind (walk_names fuel root base p names) (\<lambda>rest. io_ret (keys @ rest)))))"

definition fs_depth :: "fstree \<Rightarrow> nat" where
  "fs_depth t = Max (set (0 # map (length \<circ> fst) (DAList.impl_of t)))"

definition dir_list :: "string \<Rightarrow> (dirstore, string list) io" where
  "dir_list p =
     io_bind dir_Err (\<lambda>_. io_bind (io_lift (dir_walk p)) (\<lambda>(root, base).
     io_try (fs_lift not_found (os_stat root)) (\<lambda>r.
       case r of
         Inl e \<Rightarrow> if e = ErrNotFound then io_ret [] else io_err e
       | Inr n \<Rightarrow> io_bind dir_Err (\<lambda>_ s.
           (if n = FsDir then walk_dir (Suc (fs_depth (d_tree s))) root base root else io_ret []) s))))"

definition dir_listdir :: "string \<Rightarrow> (dirstore, string list) io" where
  "dir_listdir p =
     io_bind dir_Err (\<lambda>_. io_bind (io_lift (dir_walk p)) (\<lambda>(root, base).
     io_try (fs_lift not_found (os_ReadDir root)) (\<lambda>r s.
       case r of
         Inl e \<Rightarrow> (if e = ErrNotFound then io_ret [] else io_err e) s
       | Inr names \<Rightarrow>
           (let dir = (\<lambda>name. fs_at (d_tree s) (root @ [name]) = Some FsDir)
            in io_ret (map (\<lambda>name. drop (length base) name @ (if dir name then ''/'' else []))
                 (filter (\<lambda>name. \<not> hidden name (dir name) \<and> prefix base name \<and> checkKey (str_join ''/'' (root @ [name])) = Inr ())
                   names)) s))))"

definition dir_ops :: "(dirstore \<Rightarrow> string) \<Rightarrow> dirstore store_ops" where
  "dir_ops rnd =
     \<lparr>st_get = dir_get, st_range = Some dir_range, st_set = dir_set rnd, st_delete = dir_delete,
      st_list = dir_list, st_listdir = Some dir_listdir\<rparr>"

definition newDirStore :: "fstree \<Rightarrow> dirstore" where
  "newDirStore t = \<lparr>d_tree = t, d_seen = [t], d_calls = [], d_ctx = None, d_dirsize = 4096\<rparr>"

end
