(* ===== verification/Dir_Laws.thy ===== *)
theory Dir_Laws
  imports Dirs
begin

text \<open>
  The store of files keeps its tree a tree, and each system call leaves the files at other paths as they are.
\<close>

section \<open>Trees and files\<close>

definition clean_path :: "string list \<Rightarrow> bool" where
  "clean_path p \<longleftrightarrow> (\<forall>name \<in> set p. name \<noteq> [] \<and> CHR ''/'' \<notin> set name)"

text \<open>Every path of a tree is below a directory.\<close>

definition fs_ok :: "fstree \<Rightarrow> bool" where
  "fs_ok t \<longleftrightarrow>
     (\<forall>(p, n) \<in> set (DAList.impl_of t). clean_path p \<and> (p \<noteq> [] \<longrightarrow> fs_at t (butlast p) = Some FsDir))"

definition file_of :: "fstree \<Rightarrow> string list \<Rightarrow> bytes option" where
  "file_of t p = (case fs_at t p of Some (FsFile b) \<Rightarrow> Some b | _ \<Rightarrow> None)"

definition dir_contents :: "dirstore \<Rightarrow> string \<Rightarrow> bytes option" where
  "dir_contents s key = file_of (d_tree s) (str_split (CHR ''/'') key)"

lemma str_split_eq [simp]: "str_split c k = str_split c k' \<longleftrightarrow> k = k'"
  by (metis join_split)

lemma clean_path_simps [simp]: "clean_path []" "clean_path (name # p) \<longleftrightarrow> name \<noteq> [] \<and> CHR ''/'' \<notin> set name \<and> clean_path p"
  "clean_path (p @ q) \<longleftrightarrow> clean_path p \<and> clean_path q"
  by (auto simp: clean_path_def)

lemma clean_path_take: "clean_path p \<Longrightarrow> clean_path (take n p)"
  unfolding clean_path_def by (meson in_set_takeD)

lemma impl_of_fs_at: "(p, n) \<in> set (DAList.impl_of t) \<longleftrightarrow> fs_at t p = Some n"
  using impl_of [of t] by (simp add: DAList.lookup_def)

lemma fs_okD: "fs_ok t \<Longrightarrow> fs_at t p = Some n \<Longrightarrow> clean_path p" "fs_ok t \<Longrightarrow> fs_at t p = Some n \<Longrightarrow> p \<noteq> [] \<Longrightarrow> fs_at t (butlast p) = Some FsDir"
  unfolding fs_ok_def using impl_of_fs_at by fast+

lemma fs_okI: "(\<And>p n. fs_at t p = Some n \<Longrightarrow> clean_path p \<and> (p \<noteq> [] \<longrightarrow> fs_at t (butlast p) = Some FsDir)) \<Longrightarrow> fs_ok t"
  unfolding fs_ok_def impl_of_fs_at by (clarsimp simp: impl_of_fs_at)

lemma file_of_update: "file_of (DAList.update p n t) q = (if q = p then (case n of FsFile b \<Rightarrow> Some b | FsDir \<Rightarrow> None) else file_of t q)"
  by (auto simp: file_of_def lookup_update split: fsnode.split)

lemma file_of_delete: "file_of (DAList.delete p t) q = (if q = p then None else file_of t q)"
  by (auto simp: file_of_def lookup_delete)

lemma butlast_same: "butlast p = p \<longleftrightarrow> p = []"
  by (metis append_butlast_last_id append_self_conv butlast.simps(1) list.discI)

lemma fs_ok_update:
  assumes "fs_ok t" "clean_path p" "p \<noteq> [] \<Longrightarrow> fs_at t (butlast p) = Some FsDir" "fs_at t p = Some FsDir \<Longrightarrow> n = FsDir"
  shows "fs_ok (DAList.update p n t)"
  by (rule fs_okI) (use assms fs_okD [OF assms(1)] in \<open>auto simp: lookup_update butlast_same split: if_splits\<close>)

lemma fs_entries_set: "set (fs_entries t p) = {last q | q. fs_at t q \<noteq> None \<and> q \<noteq> [] \<and> butlast q = p}"
proof -
  have "q \<in> fst ` set (DAList.impl_of t) \<longleftrightarrow> fs_at t q \<noteq> None" for q
    using impl_of_fs_at [of q _ t] by (cases "fs_at t q") force+
  then show ?thesis by (simp add: fs_entries_def) blast
qed

lemma fs_ok_delete:
  assumes "fs_ok t" "fs_at t p = Some FsDir \<Longrightarrow> fs_entries t p = []"
  shows "fs_ok (DAList.delete p t)"
proof (rule fs_okI)
  fix q n assume q: "fs_at (DAList.delete p t) q = Some n"
  then have f: "fs_at t q = Some n" "q \<noteq> p" by (auto simp: lookup_delete split: if_splits)
  have "butlast q \<noteq> p" if "q \<noteq> []"
  proof
    assume b: "butlast q = p"
    with fs_okD(2) [OF assms(1) f(1) that] assms(2) have "fs_entries t p = []" by simp
    moreover have "last q \<in> set (fs_entries t p)" unfolding fs_entries_set using f(1) b that by blast
    ultimately show False by simp
  qed
  with f fs_okD [OF assms(1) f(1)] show "clean_path q \<and> (q \<noteq> [] \<longrightarrow> fs_at (DAList.delete p t) (butlast q) = Some FsDir)"
    by (simp add: lookup_delete)
qed

section \<open>What a call keeps\<close>

text \<open>A call keeps a tree a tree, and leaves the files that are not at paths of a set, in what others see on the way too.\<close>

definition leaves :: "string list set \<Rightarrow> fstree \<Rightarrow> fstree \<Rightarrow> bool" where
  "leaves T t u \<longleftrightarrow> (fs_ok t \<longrightarrow> fs_ok u) \<and> (\<forall>q. q \<notin> T \<longrightarrow> file_of u q = file_of t q)"

definition keeps :: "string list set \<Rightarrow> dirstore \<Rightarrow> dirstore \<Rightarrow> bool" where
  "keeps T s t \<longleftrightarrow> (\<exists>seen. d_seen t = seen @ d_seen s \<and> (\<forall>u \<in> insert (d_tree t) (set seen). leaves T (d_tree s) u))"

lemma keeps_refl [simp]: "d_tree t = d_tree s \<Longrightarrow> d_seen t = d_seen s \<Longrightarrow> keeps T s t"
  by (simp add: keeps_def leaves_def)

lemma keeps_trans: "keeps T s t \<Longrightarrow> keeps T t u \<Longrightarrow> keeps T s u"
  unfolding keeps_def leaves_def by (elim exE conjE, rule_tac x = "seena @ seen" in exI) auto

lemma keeps_mono: "keeps T s t \<Longrightarrow> T \<subseteq> T' \<Longrightarrow> keeps T' s t"
  unfolding keeps_def leaves_def by blast

lemma keeps_cong: "d_tree s' = d_tree s \<Longrightarrow> d_seen s' = d_seen s \<Longrightarrow> keeps T s' t = keeps T s t"
  by (simp add: keeps_def)

lemma keeps_put: "leaves T (d_tree s) u \<Longrightarrow> keeps T s (fs_put u s)"
  unfolding keeps_def fs_put_def by (intro exI [of _ "[u]"]) auto

lemma keeps_leaves: "keeps T s t \<Longrightarrow> leaves T (d_tree s) (d_tree t)"
  by (auto simp: keeps_def)

section \<open>System calls\<close>

lemma fs_call_cases:
  assumes "fs_call broken works s = (r, t)"
  obtains s' where "d_tree s' = d_tree s" "d_seen s' = d_seen s" "works s' = (r, t) \<or> (\<exists>n. broken n s' = (r, t))"
proof -
  have "\<exists>s'. d_tree s' = d_tree s \<and> d_seen s' = d_seen s \<and> (works s' = (r, t) \<or> (\<exists>n. broken n s' = (r, t)))"
  proof (cases "d_calls s")
    case (Cons c calls)
    then show ?thesis using assms
      by (intro exI [of _ "s\<lparr>d_calls := calls\<rparr>"]) (auto simp: fs_call_def split: option.splits)
  qed (use assms in \<open>auto simp: fs_call_def\<close>)
  with that show thesis by blast
qed

lemma fs_quiet_spec: "fs_quiet s = (r, t) \<Longrightarrow> d_tree t = d_tree s \<and> d_seen t = d_seen s"
  unfolding fs_quiet_def by (erule fs_call_cases) auto

lemma mk_dirs_keeps:
  "mk_dirs qs s = (r, t) \<Longrightarrow> qs = map (\<lambda>i. take i p) [j ..< m] \<Longrightarrow> m \<le> Suc (length p) \<Longrightarrow> clean_path p \<Longrightarrow>
   (0 < j \<Longrightarrow> fs_at (d_tree s) (take (j - 1) p) = Some FsDir) \<Longrightarrow> keeps {} s t"
proof (induction qs s arbitrary: j rule: mk_dirs.induct)
  case (2 q qs s)
  then have j: "q = take j p" "qs = map (\<lambda>i. take i p) [Suc j ..< m]" "j < m"
    by (cases "j < m"; simp add: upt_conv_Cons)+
  have up: "butlast q = take (j - 1) p" if "q \<noteq> []" using j 2(5) by (simp add: butlast_take)
  have j0: "0 < j" if "q \<noteq> []" using that j by (cases j) auto
  show ?case
  proof (cases "fs_at (d_tree s) q")
    case None
    let ?s = "fs_put (DAList.update q FsDir (d_tree s)) s"
    have "fs_ok (DAList.update q FsDir (d_tree s))" if "fs_ok (d_tree s)"
      by (rule fs_ok_update [OF that]) (use None up j0 2(6,7) clean_path_take j in auto)
    then have "keeps {} s ?s"
      using None by (intro keeps_put) (auto simp: leaves_def file_of_update, simp add: file_of_def)
    moreover have "keeps {} ?s t"
      by (rule "2.IH"(1) [OF None _ j(2)]) (use "2.prems" None j in \<open>simp_all add: fs_put_def lookup_update\<close>)
    ultimately show ?thesis by (rule keeps_trans)
  next
    case (Some n)
    then show ?thesis using 2 j by (cases n) auto
  qed
qed simp

lemma os_MkdirAll_keeps: "os_MkdirAll p s = (r, t) \<Longrightarrow> clean_path p \<Longrightarrow> keeps {} s t"
proof -
  assume c: "clean_path p" and o: "os_MkdirAll p s = (r, t)"
  have a: "take n (ancestors p) = map (\<lambda>i. take i p) [0 ..< min n (Suc (length p))]" for n
    by (cases "n \<le> Suc (length p)") (simp_all add: ancestors_def take_map min_def del: upt_Suc)
  have k: "keeps {} s' (snd (mk_dirs (take n (ancestors p)) s'))" for n s'
    using mk_dirs_keeps [OF prod.collapse [symmetric] a _ c] by simp
  from o [unfolded os_MkdirAll_def] show ?thesis
  proof (rule fs_call_cases)
    fix s' assume s': "d_tree s' = d_tree s" "d_seen s' = d_seen s"
      and "mk_dirs (ancestors p) s' = (r, t) \<or> (\<exists>n. (Inl FsFault, snd (mk_dirs (take n (ancestors p)) s')) = (r, t))"
    then show ?thesis using k [of s' "length (ancestors p)"] k [of s'] keeps_cong [OF s', of "{}"] by auto
  qed
qed

lemma os_CreateTemp_spec:
  assumes "os_CreateTemp p s = (r, t)" "clean_path p"
  obtains (failed) e where "r = Inl e" "d_tree t = d_tree s" "d_seen t = d_seen s"
    | (made) "r = Inr (last p)" "fs_at (d_tree s) p = None" "fs_at (d_tree t) p = Some (FsFile [])" "keeps {p} s t"
proof -
  have k: "keeps {p} s' (fs_put (DAList.update p (FsFile []) (d_tree s')) s')"
    if "fs_at (d_tree s') p = None" "fs_at (d_tree s') (butlast p) = Some FsDir" for s'
    using fs_ok_update [OF _ assms(2), of "d_tree s'" "FsFile []"] that
    by (intro keeps_put) (simp add: leaves_def file_of_update)
  from assms(1) [unfolded os_CreateTemp_def] show ?thesis
  proof (rule fs_call_cases)
    fix s' assume s': "d_tree s' = d_tree s" "d_seen s' = d_seen s"
      and h: "(if fs_at (d_tree s') p \<noteq> None then (Inl FsExists, s')
        else if fs_at (d_tree s') (butlast p) \<noteq> Some FsDir then (Inl NotExist, s')
        else (Inr (last p), fs_put (DAList.update p (FsFile []) (d_tree s')) s')) = (r, t) \<or> (\<exists>n. (Inl FsFault, s') = (r, t))"
    show ?thesis
    proof (cases "r = Inl FsFault \<or> fs_at (d_tree s') p \<noteq> None \<or> fs_at (d_tree s') (butlast p) \<noteq> Some FsDir")
      case True
      then show ?thesis using h s' failed by (auto split: if_splits)
    next
      case False
      then show ?thesis using h s' k [of s'] keeps_cong [OF s', of "{p}"] made
        by (auto simp: fs_put_def lookup_update)
    qed
  qed
qed

lemma fs_write_spec:
  shows "fs_at (d_tree (fs_write p b s)) p = Some (FsFile b)"
    and "clean_path p \<Longrightarrow> fs_at (d_tree s) p = Some (FsFile b') \<Longrightarrow> keeps {p} s (fs_write p b s)"
proof -
  have "keeps {p} s (fold (\<lambda>n. fs_put (DAList.update p (FsFile (take n b)) (d_tree s))) ns s)"
    if "clean_path p" "fs_at (d_tree s) p = Some (FsFile b')" for ns
  proof (induction ns rule: rev_induct)
    case (snoc n ns)
    let ?u = "DAList.update p (FsFile (take n b)) (d_tree s)"
    have "fs_ok ?u" if "fs_ok (d_tree s)"
      by (rule fs_ok_update) (use that \<open>clean_path p\<close> fs_okD(2) [OF that] \<open>fs_at (d_tree s) p = _\<close> in auto)
    then have l: "leaves {p} (d_tree s) ?u" by (simp add: leaves_def file_of_update)
    from snoc obtain seen where "d_seen (fold (\<lambda>n. fs_put (DAList.update p (FsFile (take n b)) (d_tree s))) ns s) = seen @ d_seen s"
      "\<forall>u \<in> set seen. leaves {p} (d_tree s) u" by (auto simp: keeps_def)
    with l show ?case unfolding keeps_def by (intro exI [of _ "?u # seen"]) (simp add: fs_put_def)
  qed simp
  then show "clean_path p \<Longrightarrow> fs_at (d_tree s) p = Some (FsFile b') \<Longrightarrow> keeps {p} s (fs_write p b s)" unfolding fs_write_def .
  show "fs_at (d_tree (fs_write p b s)) p = Some (FsFile b)"
    by (simp add: fs_write_def fs_put_def lookup_update)
qed

lemma file_Write_spec:
  assumes "file_Write p b s = (r, t)" "clean_path p" "fs_at (d_tree s) p = Some (FsFile b')"
  shows "keeps {p} s t" and "r = Inr x \<Longrightarrow> fs_at (d_tree t) p = Some (FsFile b)"
proof -
  have k: "keeps {p} s' (fs_write p b'' s')" if "d_tree s' = d_tree s" for b'' s'
    using fs_write_spec(2) [OF assms(2), of s' b'] assms(3) that by simp
  from assms(1) [unfolded file_Write_def] have "keeps {p} s t \<and> (r = Inr x \<longrightarrow> fs_at (d_tree t) p = Some (FsFile b))"
  proof (rule fs_call_cases)
    fix s' assume s': "d_tree s' = d_tree s" "d_seen s' = d_seen s"
      and "(Inr (), fs_write p b s') = (r, t) \<or> (\<exists>n. (Inl FsFault, fs_write p (take n b) s') = (r, t))"
    then show ?thesis using k [OF s'(1)] keeps_cong [OF s', of "{p}"] by (auto simp: fs_write_spec(1))
  qed
  then show "keeps {p} s t" "r = Inr x \<Longrightarrow> fs_at (d_tree t) p = Some (FsFile b)" by blast+
qed

lemma os_Rename_spec:
  assumes "os_Rename p q s = (r, t)"
  obtains (failed) e where "r = Inl e" "d_tree t = d_tree s" "d_seen t = d_seen s"
    | (moved) b where "r = Inr ()" "fs_at (d_tree s) p = Some (FsFile b)" "fs_at (d_tree s) q \<noteq> Some FsDir"
       "fs_at (d_tree s) (butlast q) = Some FsDir"
       "d_tree t = DAList.update q (FsFile b) (DAList.delete p (d_tree s))" "d_seen t = d_tree t # d_seen s"
  using assms unfolding os_Rename_def
proof (rule fs_call_cases)
  fix s' assume "d_tree s' = d_tree s" "d_seen s' = d_seen s"
    and "(case (fs_at (d_tree s') p, fs_at (d_tree s') q) of
       (None, _) \<Rightarrow> (Inl NotExist, s')
     | (_, Some FsDir) \<Rightarrow> (Inl FsExists, s')
     | (Some FsDir, _) \<Rightarrow> (Inl NotDir, s')
     | (Some n, _) \<Rightarrow>
         if fs_at (d_tree s') (butlast q) \<noteq> Some FsDir then (Inl NotExist, s')
         else (Inr (), fs_put (DAList.update q n (DAList.delete p (d_tree s'))) s')) = (r, t)
     \<or> (\<exists>n. (Inl FsFault, s') = (r, t))"
  then show thesis using failed moved
    by (auto simp: fs_put_def split: option.splits fsnode.splits if_splits)
qed

lemma fs_find_at: "fs_find t p = Inl e \<Longrightarrow> fs_at t p = None" "fs_find t p = Inr n \<longleftrightarrow> fs_at t p = Some n"
  by (auto simp: fs_find_def split: option.splits if_splits)

lemma os_Remove_spec:
  assumes "os_Remove p s = (r, t)"
  obtains (failed) e where "r = Inl e" "d_tree t = d_tree s" "d_seen t = d_seen s" "e = NotExist \<Longrightarrow> fs_at (d_tree s) p = None"
    | (removed) "r = Inr ()" "d_tree t = DAList.delete p (d_tree s)" "d_seen t = d_tree t # d_seen s"
       "fs_at (d_tree s) p = Some FsDir \<Longrightarrow> fs_entries (d_tree s) p = []"
  using assms unfolding os_Remove_def
proof (rule fs_call_cases)
  fix s' assume "d_tree s' = d_tree s" "d_seen s' = d_seen s"
    and "(case fs_find (d_tree s') p of
       Inl e \<Rightarrow> (Inl e, s')
     | Inr FsDir \<Rightarrow>
         if fs_entries (d_tree s') p \<noteq> [] then (Inl NotEmpty, s') else (Inr (), fs_put (DAList.delete p (d_tree s')) s')
     | Inr (FsFile _) \<Rightarrow> (Inr (), fs_put (DAList.delete p (d_tree s')) s')) = (r, t)
     \<or> (\<exists>n. (Inl FsFault, s') = (r, t))"
  then show thesis using failed removed fs_find_at
    by (auto simp: fs_put_def split: sum.splits fsnode.splits if_splits)
qed

end
