(* ===== verification/Dir_Ops.thy ===== *)
theory Dir_Ops
  imports Dir_Laws
begin

text \<open>
  The operations of the store of files: what each makes of the map from keys to files.
\<close>

section \<open>Writing\<close>

lemma dir_Err_spec: "dir_Err s = (r, t) \<Longrightarrow> d_tree t = d_tree s \<and> d_seen t = d_seen s \<and> d_calls t = d_calls s"
  by (auto simp: dir_Err_def split: option.splits nat.splits)

lemma fs_lift_Inr: "fs_lift err f s = (Inr x, t) \<longleftrightarrow> f s = (Inr x, t)"
  and fs_lift_Inl: "fs_lift err f s = (Inl e, t) \<longleftrightarrow> (\<exists>e'. f s = (Inl e', t) \<and> e = err e')"
  by (auto simp: fs_lift_def split: prod.splits sum.splits)

lemma dir_path_Inr: "dir_path key = Inr p \<longleftrightarrow> checkKey key = Inr () \<and> p = str_split (CHR ''/'') key"
  by (auto simp: dir_path_def rbind_Inr_iff)

lemma clean_key: "checkKey key = Inr () \<Longrightarrow> clean_path (str_split (CHR ''/'') key)"
  using str_split_segments [of _ "CHR ''/''" key] by (auto simp: clean_path_def checkKey_iff)

text \<open>How a value comes to be at a path, in one step from where others see it or do not.\<close>

definition moved_to :: "string list \<Rightarrow> string list \<Rightarrow> bytes \<Rightarrow> dirstore \<Rightarrow> dirstore \<Rightarrow> bool" where
  "moved_to temp p v u t \<longleftrightarrow>
     fs_at (d_tree u) temp = Some (FsFile v) \<and> fs_at (d_tree u) p \<noteq> Some FsDir \<and> fs_at (d_tree u) (butlast p) = Some FsDir \<and>
     d_tree t = DAList.update p (FsFile v) (DAList.delete temp (d_tree u)) \<and> d_seen t = d_tree t # d_seen u"

lemma set_temp_spec:
  assumes "set_temp temp p v s = (r, t)" "clean_path temp" "fs_at (d_tree s) temp = Some (FsFile b)"
  obtains (failed) e where "r = Inl e" "keeps {temp} s t"
    | (renamed) u where "r = Inr ()" "keeps {temp} s u" "moved_to temp p v u t"
proof -
  obtain w s1 where w: "file_Write temp v s = (w, s1)" by fastforce
  obtain c s2 where c: "fs_quiet s1 = (c, s2)" by fastforce
  obtain m s3 where m: "os_Rename temp p s2 = (m, s3)" by fastforce
  note w' = file_Write_spec [OF w assms(2,3)]
  note c' = fs_quiet_spec [OF c]
  have k2: "keeps {temp} s s2" using w'(1) c' by (simp add: keeps_def)
  have rem: "keeps {temp} u (snd (os_Remove temp u))" for u
  proof -
    obtain q u' where o: "os_Remove temp u = (q, u')" by fastforce
    from o show ?thesis
    proof (cases rule: os_Remove_spec)
      case removed
      have "leaves {temp} (d_tree u) (d_tree u')"
        unfolding removed(2) leaves_def using fs_ok_delete removed(4) by (auto simp: file_of_delete)
      with removed show ?thesis unfolding keeps_def o by (intro exI [of _ "[d_tree u']"]) simp
    qed (simp add: o)
  qed
  have fin: "r = Inl e \<and> t = snd (os_Remove temp u)"
    if "io_try (fs_lift (\<lambda>_. other_error) (os_Remove temp)) (\<lambda>_. io_err e) u = (r, t)" for e u
    using that by (auto simp: io_try_def fs_lift_def split: prod.splits sum.splits)
  show thesis
  proof (cases "\<exists>x y z. w = Inr x \<and> c = Inr y \<and> m = Inr z")
    case True
    then have "r = Inr () \<and> t = s3" "w = Inr ()" using assms(1) w c m
      by (auto simp: set_temp_def io_try_def fs_lift_def io_bind_def)
    with m True show thesis
    proof (cases rule: os_Rename_spec)
      case (moved b)
      then have "b = v" using w'(2) \<open>w = Inr ()\<close> c' by simp
      with moved \<open>r = Inr () \<and> t = s3\<close> show thesis by (intro renamed [OF _ k2]) (simp_all add: moved_to_def)
    qed auto
  next
    case False
    obtain e u where u: "io_try (fs_lift (\<lambda>_. other_error) (os_Remove temp)) (\<lambda>_. io_err e) u = (r, t)" "u = s2 \<or> u = s3 \<and> (\<exists>e. m = Inl e)"
      using assms(1) w c m False
      by (cases w; cases c; cases m) (auto simp: set_temp_def io_try_def fs_lift_def io_bind_def)
    have "keeps {temp} s u" using u(2)
    proof (elim disjE conjE exE)
      fix e assume "u = s3" "m = Inl e"
      with m show ?thesis by (cases rule: os_Rename_spec) (use k2 in \<open>auto simp: keeps_def\<close>)
    qed (use k2 in simp)
    from keeps_trans [OF this rem [of u]] fin [OF u(1)] show thesis by (intro failed) auto
  qed
qed

definition temp_path :: "string list \<Rightarrow> string \<Rightarrow> string list" where
  "temp_path p x = butlast p @ [temp_name (last p) x]"

lemma temp_path_not_key: "p \<noteq> [] \<Longrightarrow> temp_path p x \<noteq> p"
proof
  assume "p \<noteq> []" "temp_path p x = p"
  then have "length (last (temp_path p x)) = length (last p)" by simp
  then show False by (simp add: temp_path_def temp_name_def)
qed

lemma temp_path_hidden: "hidden (last (temp_path p x)) False"
proof -
  have "CHR ''.'' \<in> set (tl (last (temp_path p x)))" by (simp add: temp_path_def temp_name_def)
  then have "last (temp_path p x) \<notin> {''.zarray'', ''.zgroup'', ''.zattrs'', ''.zmetadata''}" by auto
  then show ?thesis by (simp add: hidden_def temp_path_def temp_name_def)
qed

lemma dir_set_spec:
  assumes "dir_set rnd key v s = (r, t)" "\<And>s. CHR ''/'' \<notin> set (rnd s)"
  obtains (failed) e x where "r = Inl e" "keeps {temp_path (str_split (CHR ''/'') key) x} s t"
    | (done_) x u where "r = Inr ()" "checkKey key = Inr ()" "keeps {temp_path (str_split (CHR ''/'') key) x} s u"
       "moved_to (temp_path (str_split (CHR ''/'') key) x) (str_split (CHR ''/'') key) v u t"
       "file_of (d_tree s) (temp_path (str_split (CHR ''/'') key) x) = None"
proof -
  let ?p = "str_split (CHR ''/'') key"
  have same: "keeps T s u" if "d_tree u = d_tree s" "d_seen u = d_seen s" for T u using that by simp
  from assms(1) [unfolded dir_set_def] show thesis
  proof (cases rule: io_bind_split)
    case (failed e)
    then show thesis using that(1) same dir_Err_spec by blast
  next
    case (went_on _ s1)
    note s1 = dir_Err_spec [OF went_on(1)]
    from went_on(2) show thesis
    proof (cases rule: io_bind_split)
      case (failed e)
      then show thesis using that(1) same s1 by auto
    next
      case (went_on p s2)
      then have p: "checkKey key = Inr ()" "p = ?p" "s2 = s1" by (auto simp: dir_path_Inr)
      note clean = clean_key [OF p(1)]
      have cl: "clean_path (butlast ?p)" using clean by (metis clean_path_take butlast_conv_take)
      from went_on(2) show thesis
      proof (cases rule: io_bind_split)
        case (failed e)
        then have "keeps {} s1 t" using os_MkdirAll_keeps p cl by (auto simp: fs_lift_Inl)
        then have "keeps {} s t" using s1 keeps_cong by metis
        then show thesis using that(1) failed keeps_mono by blast
      next
        case (went_on _ s3)
        then have "keeps {} s1 s3" using os_MkdirAll_keeps p cl by (auto simp: fs_lift_Inr)
        then have k3: "keeps {} s s3" using s1 keeps_cong by metis
        define temp where "temp = temp_path ?p (rnd s3)"
        have ct: "clean_path temp" using cl clean assms(2) [of s3] by (simp add: temp_def temp_path_def temp_name_def clean_path_def) 
        from went_on(2) have "io_bind (fs_lift (\<lambda>_. other_error) (os_CreateTemp temp)) (\<lambda>_. set_temp temp ?p v) s3 = (r, t)"
          by (simp add: p temp_def temp_path_def Let_def)
        then show thesis
        proof (cases rule: io_bind_split)
          case (failed e)
          then obtain e' where "os_CreateTemp temp s3 = (Inl e', t)" by (auto simp: fs_lift_Inl)
          then have "keeps {} s3 t" using ct by (cases rule: os_CreateTemp_spec) auto
          then have "keeps {} s t" using k3 keeps_trans by blast
          then show thesis using that(1) failed keeps_mono by blast
        next
          case (went_on x s4)
          then have o: "os_CreateTemp temp s3 = (Inr x, s4)" by (simp add: fs_lift_Inr)
          from o ct show thesis
          proof (cases rule: os_CreateTemp_spec)
            case made
            have k4: "keeps {temp} s s4" using k3 made(4) keeps_mono keeps_trans by (meson empty_subsetI)
            have "file_of (d_tree s) temp = file_of (d_tree s3) temp"
              using keeps_leaves [OF k3] by (simp add: leaves_def)
            then have n: "file_of (d_tree s) temp = None" using made(2) by (simp add: file_of_def)
            from went_on(2) ct made(3) show thesis
            proof (cases rule: set_temp_spec)
              case (failed e)
              then show thesis using that(1) keeps_trans [OF k4] temp_def by blast
            next
              case (renamed u)
              then show thesis using that(2) keeps_trans [OF k4] temp_def p(1) n by blast
            qed
          qed auto
        qed
      qed
    qed
  qed
qed

text \<open>The trees on the way of a value that moves into its place.\<close>

lemma moved_to_files:
  assumes "moved_to temp p v u t" "temp \<noteq> p"
  shows "file_of (d_tree t) q = (if q = p then Some v else if q = temp then None else file_of (d_tree u) q)"
    and "clean_path p \<Longrightarrow> fs_ok (d_tree u) \<Longrightarrow> fs_ok (d_tree t)"
proof -
  show "file_of (d_tree t) q = (if q = p then Some v else if q = temp then None else file_of (d_tree u) q)"
    using assms by (auto simp: moved_to_def file_of_update file_of_delete)
  assume ok: "fs_ok (d_tree u)" and p: "clean_path p"
  have d: "fs_ok (DAList.delete temp (d_tree u))" using assms by (intro fs_ok_delete [OF ok]) (simp add: moved_to_def)
  have "butlast p \<noteq> temp" using assms by (auto simp: moved_to_def)
  then show "fs_ok (d_tree t)" using assms p
    by (auto simp: moved_to_def lookup_delete intro!: fs_ok_update [OF d])
qed

section \<open>Reading\<close>

abbreviation same_dir :: "dirstore \<Rightarrow> dirstore \<Rightarrow> bool" where
  "same_dir s t \<equiv> d_tree t = d_tree s \<and> d_seen t = d_seen s"

text \<open>No system call breaks, and the context is not cancelled.\<close>

definition dir_live :: "dirstore \<Rightarrow> bool" where
  "dir_live s \<longleftrightarrow> d_calls s = [] \<and> d_ctx s = None"

lemma dir_live_simps:
  "dir_live s \<Longrightarrow> dir_Err s = (Inr (), s)" "dir_live s \<Longrightarrow> fs_call broken works s = works s"
  by (simp_all add: dir_live_def dir_Err_def fs_call_def)

lemma os_stat_spec: "os_stat p s = (r, t) \<Longrightarrow> same_dir s t \<and> (r = fs_find (d_tree s) p \<or> r = Inl FsFault)"
  unfolding os_stat_def by (erule fs_call_cases) auto

lemma os_ReadFile_spec:
  assumes "os_ReadFile p s = (r, t)"
  shows "same_dir s t" "r = Inr b \<Longrightarrow> file_of (d_tree s) p = Some b" "r = Inl NotExist \<Longrightarrow> fs_at (d_tree s) p = None"
proof -
  from assms[unfolded os_ReadFile_def]
  have "same_dir s t \<and> (r = Inr b \<longrightarrow> file_of (d_tree s) p = Some b) \<and> (r = Inl NotExist \<longrightarrow> fs_at (d_tree s) p = None)"
    by (rule fs_call_cases)
      (auto simp: file_of_def fs_find_at dest: fs_find_at(1) split: sum.splits fsnode.splits)
  then show "same_dir s t" "r = Inr b \<Longrightarrow> file_of (d_tree s) p = Some b" "r = Inl NotExist \<Longrightarrow> fs_at (d_tree s) p = None"
    by blast+
qed

lemma other_not_found [simp]: "not_found e = ErrNotFound \<longleftrightarrow> e = NotExist"
  by (simp add: not_found_def)

lemma dir_get_spec:
  assumes "dir_get key s = (r, t)"
  shows "same_dir s t" "r = Inr b \<Longrightarrow> dir_contents s key = Some b" "r = Inl ErrNotFound \<Longrightarrow> dir_contents s key = None"
    "dir_live s \<Longrightarrow> checkKey key = Inr () \<Longrightarrow> dir_contents s key = Some v \<Longrightarrow> r = Inr v"
proof -
  from assms [unfolded dir_get_def]
  have "same_dir s t \<and> (r = Inr b \<longrightarrow> dir_contents s key = Some b) \<and> (r = Inl ErrNotFound \<longrightarrow> dir_contents s key = None)"
  proof (cases rule: io_bind_split)
    case (failed e)
    then show ?thesis using dir_Err_spec [of s] by (auto simp: dir_Err_def split: option.splits nat.splits)
  next
    case (went_on _ s1)
    note s1 = dir_Err_spec [OF went_on(1)]
    from went_on(2) show ?thesis
    proof (cases rule: io_bind_split)
      case (failed e)
      then show ?thesis using s1 by (auto simp: dir_path_def checkKey_def rguard_def split: if_splits)
    next
      case (went_on p s2)
      then have p: "p = str_split (CHR ''/'') key" "s2 = s1" by (auto simp: dir_path_Inr)
      from went_on(2) obtain q where "os_ReadFile p s1 = (q, t)" "r = (case q of Inl e \<Rightarrow> Inl (not_found e) | Inr x \<Rightarrow> Inr x)"
        by (auto simp: p fs_lift_def split: prod.splits sum.splits)
      with os_ReadFile_spec [OF this(1)] s1 p show ?thesis
        by (auto simp: dir_contents_def file_of_def split: sum.splits)
    qed
  qed
  then show "same_dir s t" "r = Inr b \<Longrightarrow> dir_contents s key = Some b" "r = Inl ErrNotFound \<Longrightarrow> dir_contents s key = None"
    by blast+
  show "r = Inr v" if "dir_live s" "checkKey key = Inr ()" "dir_contents s key = Some v"
    using assms that
    by (auto simp: dir_get_def io_bind_def dir_live_simps dir_path_def os_ReadFile_def fs_lift_def dir_contents_def
        file_of_def fs_find_def split: option.splits fsnode.splits)
qed

text \<open>What \<open>GetRange\<close> makes of what it opened, if no call breaks.\<close>

definition range_of :: "int \<Rightarrow> fsnode \<Rightarrow> int \<Rightarrow> int \<Rightarrow> bytes res" where
  "range_of dirsize n off len =
     (let size = (case n of FsFile b \<Rightarrow> int (length b) | FsDir \<Rightarrow> dirsize)
      in rbind (span size off len) (\<lambda>at.
           if len > max_alloc then Inl Panic
           else if len = 0 then Inr []
           else case n of
                  FsFile b \<Rightarrow> if at + len > size then Inl other_error else Inr (take (nat len) (drop (nat at) b))
                | FsDir \<Rightarrow> Inl other_error))"

definition range_end :: "fsnode \<Rightarrow> int \<Rightarrow> int \<Rightarrow> (dirstore, bytes) io" where
  "range_end n offset len s =
     (let size = (case n of FsFile b \<Rightarrow> int (length b) | FsDir \<Rightarrow> d_dirsize s)
      in io_bind (io_lift (span size offset len)) (\<lambda>at.
         if len > max_alloc then io_err Panic
         else if len = 0 then io_ret []
         else
           io_bind (fs_lift (\<lambda>_. other_error) fs_quiet) (\<lambda>_.
             case n of
               FsFile b \<Rightarrow> if at + len > size then io_err other_error else io_ret (take (nat len) (drop (nat at) b))
             | FsDir \<Rightarrow> io_err other_error)) s)"

lemma range_end_spec:
  assumes "range_end n off len s = (r, t)"
  shows "same_dir s t \<and> (r = Inl other_error \<or> r = range_of (d_dirsize s) n off len)"
    and "dir_live s \<Longrightarrow> r = range_of (d_dirsize s) n off len"
proof -
  obtain q u where q: "fs_quiet s = (q, u)" by fastforce
  note u = fs_quiet_spec [OF q]
  show "same_dir s t \<and> (r = Inl other_error \<or> r = range_of (d_dirsize s) n off len)"
    using assms u unfolding range_end_def range_of_def Let_def
    by (cases q) (auto simp: io_bind_def rbind_def fs_lift_def q split: fsnode.splits if_splits sum.splits)
  show "dir_live s \<Longrightarrow> r = range_of (d_dirsize s) n off len"
    using assms unfolding range_end_def range_of_def Let_def
    by (auto simp: io_bind_def rbind_def fs_lift_def fs_quiet_def dir_live_simps split: fsnode.splits if_splits sum.splits)
qed

lemma dir_range_end:
  "dir_range key off len =
     io_bind dir_Err (\<lambda>_. io_bind (io_lift (dir_path key)) (\<lambda>p. io_bind (fs_lift not_found (os_stat p)) (\<lambda>n.
       io_bind (fs_lift (\<lambda>_. other_error) fs_quiet) (\<lambda>_. range_end n off len))))"
  unfolding dir_range_def range_end_def by (rule refl)

lemma range_of_size: "range_of d (FsFile b) off len = range_of d' (FsFile b) off len"
  by (simp add: range_of_def)

lemma dir_range_spec:
  assumes "dir_range key off len s = (r, t)"
  shows "same_dir s t \<and> (r = Inl ErrCtx \<or> r = Inl other_error \<or> checkKey key = Inl (ErrOther ''bad key'') \<and> r = Inl (ErrOther ''bad key'') \<or>
      (\<exists>d. r = (case fs_find (d_tree s) (str_split (CHR ''/'') key) of
             Inl e \<Rightarrow> Inl (not_found e) | Inr n \<Rightarrow> range_of d n off len)))"
    and "dir_live s \<Longrightarrow> checkKey key = Inr () \<Longrightarrow>
      r = (case fs_find (d_tree s) (str_split (CHR ''/'') key) of
             Inl e \<Rightarrow> Inl (not_found e) | Inr n \<Rightarrow> range_of (d_dirsize s) n off len)"
proof -
  from assms [unfolded dir_range_end]
  show "same_dir s t \<and> (r = Inl ErrCtx \<or> r = Inl other_error \<or> checkKey key = Inl (ErrOther ''bad key'') \<and> r = Inl (ErrOther ''bad key'') \<or>
      (\<exists>d. r = (case fs_find (d_tree s) (str_split (CHR ''/'') key) of
             Inl e \<Rightarrow> Inl (not_found e) | Inr n \<Rightarrow> range_of d n off len)))"
  proof (cases rule: io_bind_split)
    case (failed e)
    then show ?thesis using dir_Err_spec [of s] by (auto simp: dir_Err_def split: option.splits nat.splits)
  next
    case (went_on _ s1)
    note s1 = dir_Err_spec [OF went_on(1)]
    from went_on(2) show ?thesis
    proof (cases rule: io_bind_split)
      case (failed e)
      then show ?thesis using s1 by (auto simp: dir_path_def checkKey_def rguard_def split: if_splits)
    next
      case (went_on p s2)
      then have p: "p = str_split (CHR ''/'') key" "s2 = s1" by (auto simp: dir_path_Inr)
      from went_on(2) show ?thesis
      proof (cases rule: io_bind_split)
        case (failed e)
        then obtain e' where "os_stat p s1 = (Inl e', t)" "e = not_found e'" by (auto simp: p fs_lift_Inl)
        with os_stat_spec [OF this(1)] s1 failed p show ?thesis
          by (cases "fs_find (d_tree s) p") (auto simp: not_found_def)
      next
        case (went_on n s3)
        then have "os_stat p s1 = (Inr n, s3)" by (simp add: p fs_lift_Inr)
        from os_stat_spec [OF this] s1 have n: "same_dir s s3" "fs_find (d_tree s) p = Inr n" by auto
        from went_on(2) show ?thesis
        proof (cases rule: io_bind_split)
          case (failed e)
          then obtain e' where "fs_quiet s3 = (Inl e', t)" by (auto simp: fs_lift_Inl)
          with fs_quiet_spec [OF this] n failed show ?thesis by (auto simp: fs_lift_Inl)
        next
          case (went_on _ s4)
          then obtain x where "fs_quiet s3 = (Inr x, s4)" by (auto simp: fs_lift_Inr)
          with fs_quiet_spec [OF this] range_end_spec(1) [OF went_on(2)] n p show ?thesis by auto
        qed
      qed
    qed
  qed
  assume live: "dir_live s" "checkKey key = Inr ()"
  then show "r = (case fs_find (d_tree s) (str_split (CHR ''/'') key) of
             Inl e \<Rightarrow> Inl (not_found e) | Inr n \<Rightarrow> range_of (d_dirsize s) n off len)"
    using assms range_end_spec(2) [of _ off len s r t]
    by (auto simp: dir_range_end io_bind_def dir_live_simps dir_path_def os_stat_def fs_quiet_def fs_lift_def split: sum.splits)
qed

lemma range_of_file:
  assumes "int (length b) \<le> max_alloc" "in_int64 off" "in_int64 len"
  shows "range_of d (FsFile b) off len = Inr v \<longleftrightarrow> range_in b off len \<and> v = sub_bytes b off len"
    and "range_of d (FsFile b) off len \<noteq> Inl ErrNotFound"
proof -
  have s: "int (length b) \<le> maxInt64" using assms by (simp add: max_alloc_def maxInt64_def)
  note sp = span_in [OF _ s assms(2,3), of at for at]
  show "range_of d (FsFile b) off len = Inr v \<longleftrightarrow> range_in b off len \<and> v = sub_bytes b off len"
    using assms sp s
    by (auto simp: range_of_def rbind_Inr_iff range_in_def sub_bytes_def range_at_def Let_def in_int64_def maxInt64_def max_alloc_def)
  show "range_of d (FsFile b) off len \<noteq> Inl ErrNotFound"
    by (auto simp: range_of_def rbind_Inl_iff span_def Let_def split: if_splits)
qed

lemma range_of_dir:
  "range_of d FsDir off len = Inr v \<Longrightarrow> len = 0 \<and> v = []" "range_of d FsDir off len \<noteq> Inl ErrNotFound"
  by (auto simp: range_of_def rbind_Inr_iff rbind_Inl_iff span_def Let_def split: if_splits)

section \<open>Deleting\<close>

lemma dir_delete_spec:
  assumes "dir_delete key s = (r, t)"
  obtains (failed) e where "r = Inl e" "same_dir s t"
    | (gone) "r = Inr ()" "checkKey key = Inr ()" "same_dir s t" "fs_at (d_tree s) (str_split (CHR ''/'') key) = None"
    | (removed) "r = Inr ()" "checkKey key = Inr ()" "d_tree t = DAList.delete (str_split (CHR ''/'') key) (d_tree s)"
       "d_seen t = d_tree t # d_seen s"
       "fs_at (d_tree s) (str_split (CHR ''/'') key) = Some FsDir \<Longrightarrow> fs_entries (d_tree s) (str_split (CHR ''/'') key) = []"
proof -
  from assms [unfolded dir_delete_def] show thesis
  proof (cases rule: io_bind_split)
    case (failed e)
    then show thesis using that(1) dir_Err_spec by blast
  next
    case (went_on _ s1)
    note s1 = dir_Err_spec [OF went_on(1)]
    from went_on(2) show thesis
    proof (cases rule: io_bind_split)
      case (failed e)
      then show thesis using that(1) s1 by auto
    next
      case (went_on p s2)
      then have p: "checkKey key = Inr ()" "p = str_split (CHR ''/'') key" "s2 = s1" by (auto simp: dir_path_Inr)
      obtain q u where o: "os_Remove p s1 = (q, u)" by fastforce
      from o show thesis
      proof (cases rule: os_Remove_spec)
        case (failed e)
        then have "t = u" "r = (if e = NotExist then Inr () else Inl (not_found e))"
          using went_on(2) o p by (auto simp: io_try_def fs_lift_def split: if_splits)
        then show thesis using failed s1 p that(1,2) by (cases "e = NotExist") auto
      next
        case removed
        then have "t = u" "r = Inr ()" using went_on(2) o p by (auto simp: io_try_def fs_lift_def)
        then show thesis using removed s1 p that(3) by auto
      qed
    qed
  qed
qed

end
