(* ===== verification/Dir_Lists.thy ===== *)
theory Dir_Lists
  imports Dir_Ops
begin

text \<open>
  The listing of a store of files gives the keys of the files it shows, each once.
\<close>

section \<open>What a walk shows\<close>

text \<open>Of a file below the root of a walk: no directory on the way is hidden, nor is the file.\<close>

definition shown :: "string list \<Rightarrow> bool" where
  "shown rest \<longleftrightarrow> (\<forall>name \<in> set (butlast rest). \<not> prefix ''.'' name) \<and> \<not> hidden (last rest) False"

definition walk_keys :: "fstree \<Rightarrow> string list \<Rightarrow> string \<Rightarrow> string list \<Rightarrow> string list set \<Rightarrow> string set" where
  "walk_keys t root base p Q =
     {str_join ''/'' (p @ rest) | rest. rest \<in> Q \<and> file_of t (p @ rest) \<noteq> None \<and> shown rest \<and> (p = root \<longrightarrow> prefix base (hd rest)) \<and>
        checkKey (str_join ''/'' (p @ rest)) = Inr ()}"

definition starts_in :: "string list \<Rightarrow> string list set" where
  "starts_in names = {rest. rest \<noteq> [] \<and> hd rest \<in> set names}"

lemma hidden_dir: "hidden name True \<longleftrightarrow> prefix ''.'' name"
  by (auto simp: hidden_def)

lemma shown_Cons: "shown (name # rest) \<longleftrightarrow> (if rest = [] then \<not> hidden name False else \<not> hidden name True \<and> shown rest)"
  by (auto simp: shown_def hidden_dir)

lemma file_above:
  assumes "fs_ok t" "fs_at t (p @ q) = Some n" "q \<noteq> []"
  shows "fs_at t p = Some FsDir"
  using assms(2,3)
proof (induction q arbitrary: n rule: rev_induct)
  case (snoc x q)
  from fs_okD(2) [OF assms(1) snoc.prems(1)] have "fs_at t (p @ q) = Some FsDir" by (simp add: butlast_append)
  then show ?case using snoc.IH by (cases "q = []") auto
qed simp

lemma walk_keys_file:
  assumes "fs_ok t" "fs_at t (p @ [name]) \<noteq> Some FsDir"
  shows "walk_keys t root base p (starts_in [name]) =
    (if fs_at t (p @ [name]) = None \<or> hidden name False \<or> (p = root \<and> \<not> prefix base name) \<or> checkKey (str_join ''/'' (p @ [name])) \<noteq> Inr ()
     then {} else {str_join ''/'' (p @ [name])})"
proof -
  have one: "rest = [name]" if "rest \<in> starts_in [name]" "file_of t (p @ rest) \<noteq> None" for rest
  proof -
    from that obtain more where r: "rest = name # more" by (cases rest) (auto simp: starts_in_def)
    from that(2) obtain b where "fs_at t ((p @ [name]) @ more) = Some (FsFile b)" by (auto simp: file_of_def r split: option.splits fsnode.splits)
    with file_above [OF assms(1) this] assms(2) show ?thesis using r by auto
  qed
  have "file_of t (p @ [name]) \<noteq> None \<longleftrightarrow> fs_at t (p @ [name]) \<noteq> None"
    using assms(2) by (auto simp: file_of_def split: option.splits fsnode.splits)
  with one have "rest \<in> starts_in [name] \<and> file_of t (p @ rest) \<noteq> None \<longleftrightarrow> rest = [name] \<and> fs_at t (p @ [name]) \<noteq> None" for rest
    by (fastforce simp: starts_in_def)
  then have "walk_keys t root base p (starts_in [name]) =
     {str_join ''/'' (p @ rest) | rest. (rest = [name] \<and> fs_at t (p @ [name]) \<noteq> None) \<and> shown rest \<and> (p = root \<longrightarrow> prefix base (hd rest)) \<and>
        checkKey (str_join ''/'' (p @ rest)) = Inr ()}"
    unfolding walk_keys_def by blast
  then show ?thesis by (auto simp: shown_Cons)
qed

lemma walk_keys_dir:
  assumes "fs_at t (p @ [name]) = Some FsDir" "p @ [name] \<noteq> root"
  shows "walk_keys t root base p (starts_in [name]) =
    (if hidden name True \<or> (p = root \<and> \<not> prefix base name) then {} else walk_keys t root base (p @ [name]) {rest. rest \<noteq> []})"
proof -
  have "rest \<in> starts_in [name] \<and> file_of t (p @ rest) \<noteq> None \<longleftrightarrow> (\<exists>more. rest = name # more \<and> more \<noteq> [] \<and> file_of t (p @ rest) \<noteq> None)" for rest
    using assms(1) by (cases rest) (auto simp: starts_in_def file_of_def)
  then have "walk_keys t root base p (starts_in [name]) =
     {str_join ''/'' (p @ rest) | rest. (\<exists>more. rest = name # more \<and> more \<noteq> [] \<and> file_of t (p @ rest) \<noteq> None) \<and> shown rest \<and>
        (p = root \<longrightarrow> prefix base (hd rest)) \<and> checkKey (str_join ''/'' (p @ rest)) = Inr ()}"
    unfolding walk_keys_def by blast
  also have "\<dots> = (if hidden name True \<or> (p = root \<and> \<not> prefix base name) then {} else walk_keys t root base (p @ [name]) {rest. rest \<noteq> []})"
    using assms(2) by (auto simp: walk_keys_def shown_Cons)
  finally show ?thesis .
qed

lemma walk_keys_names: "walk_keys t root base p (starts_in (name # names)) = walk_keys t root base p (starts_in [name]) \<union> walk_keys t root base p (starts_in names)"
  by (auto simp: walk_keys_def starts_in_def)

lemma walk_keys_apart:
  assumes "fs_ok t" "name \<notin> set names"
  shows "walk_keys t root base p (starts_in [name]) \<inter> walk_keys t root base p (starts_in names) = {}"
proof -
  have "rest = rest'" if "file_of t (p @ rest) \<noteq> None" "file_of t (p @ rest') \<noteq> None" "rest \<noteq> []" "rest' \<noteq> []"
    "str_join ''/'' (p @ rest) = str_join ''/'' (p @ rest')" for rest rest'
  proof -
    have "CHR ''/'' \<notin> set seg" if "seg \<in> set (p @ r)" "file_of t (p @ r) \<noteq> None" for seg r
    proof -
      from that(2) obtain n where "fs_at t (p @ r) = Some n" by (cases "fs_at t (p @ r)") (auto simp: file_of_def)
      with fs_okD(1) [OF assms(1) this] that(1) show ?thesis by (simp only: clean_path_def) blast
    qed
    then have sp: "str_split CHR ''/'' (str_join ''/'' (p @ r)) = p @ r" if "file_of t (p @ r) \<noteq> None" "r \<noteq> []" for r
      using that by (intro split_join) auto
    have "p @ rest = p @ rest'" using sp [OF that(1,3)] sp [OF that(2,4)] that(5) by metis
    then show ?thesis by simp
  qed
  then have "hd rest = hd rest'" if "rest \<in> starts_in [name]" "rest' \<in> starts_in names" "file_of t (p @ rest) \<noteq> None"
    "file_of t (p @ rest') \<noteq> None" "str_join ''/'' (p @ rest) = str_join ''/'' (p @ rest')" for rest rest'
    using that unfolding starts_in_def by blast
  then have "name \<in> set names" if "k \<in> walk_keys t root base p (starts_in [name])" "k \<in> walk_keys t root base p (starts_in names)" for k
    using that unfolding walk_keys_def starts_in_def by fastforce
  then show ?thesis using assms(2) by blast
qed

section \<open>The walk\<close>

lemma distinct_entries: "distinct (fs_entries t p)"
proof -
  let ?qs = "filter (\<lambda>q. q \<noteq> [] \<and> butlast q = p) (map fst (DAList.impl_of t))"
  have "distinct ?qs" using impl_of [of t] by simp
  moreover have "inj_on last (set ?qs)" by (rule inj_onI) (simp, metis append_butlast_last_id)
  ultimately show ?thesis by (simp add: fs_entries_def distinct_map)
qed

lemma walk_keys_entries:
  assumes "fs_ok t"
  shows "walk_keys t root base p (starts_in (fs_entries t p)) = walk_keys t root base p {rest. rest \<noteq> []}"
proof -
  have "hd rest \<in> set (fs_entries t p)" if "file_of t (p @ rest) \<noteq> None" "rest \<noteq> []" for rest
  proof -
    from that obtain name more where r: "rest = name # more" by (cases rest) auto
    from that(1) obtain n where "fs_at t ((p @ [name]) @ more) = Some n" by (auto simp: r file_of_def split: option.splits)
    with file_above [OF assms this] have "fs_at t (p @ [name]) \<noteq> None" by (cases "more = []") auto
    then show ?thesis unfolding fs_entries_set r by (intro CollectI exI [of _ "p @ [name]"]) simp
  qed
  then show ?thesis by (auto simp: walk_keys_def starts_in_def)
qed

lemma os_ReadDir_spec: "os_ReadDir p s = (r, t) \<Longrightarrow> same_dir s t \<and>
   (r = Inl FsFault \<or> r = (case fs_find (d_tree s) p of Inl e \<Rightarrow> Inl e | Inr (FsFile _) \<Rightarrow> Inl NotDir | Inr FsDir \<Rightarrow> Inr (fs_entries (d_tree s) p)))"
  unfolding os_ReadDir_def by (erule fs_call_cases) (auto split: sum.splits fsnode.splits)

definition walk_right :: "string list \<Rightarrow> string \<Rightarrow> string list \<Rightarrow> string list set \<Rightarrow> dirstore \<Rightarrow> string list \<Rightarrow> dirstore \<Rightarrow> bool" where
  "walk_right root base p Q s ks t \<longleftrightarrow> same_dir s t \<and> distinct ks \<and> set ks = walk_keys (d_tree s) root base p Q"

lemma io_bind_get: "io_bind (\<lambda>s. (Inr (g s), s)) f s = f (g s) s"
  by (simp add: io_bind_def)

lemma walk_spec:
  "\<And>s ks t. walk_dir fuel root base p s = (Inr ks, t) \<Longrightarrow> fs_ok (d_tree s) \<Longrightarrow> prefix root p \<Longrightarrow>
     fs_at (d_tree s) p = Some FsDir \<Longrightarrow> \<forall>q. fs_at (d_tree s) q \<noteq> None \<longrightarrow> length q < length p + fuel \<Longrightarrow>
     walk_right root base p {rest. rest \<noteq> []} s ks t"
  "\<And>s ks t. walk_names fuel root base p names s = (Inr ks, t) \<Longrightarrow> fs_ok (d_tree s) \<Longrightarrow> prefix root p \<Longrightarrow>
     distinct names \<Longrightarrow> \<forall>name \<in> set names. fs_at (d_tree s) (p @ [name]) \<noteq> None \<Longrightarrow> \<forall>q. fs_at (d_tree s) q \<noteq> None \<longrightarrow> length q < Suc (length p) + fuel \<Longrightarrow>
     walk_right root base p (starts_in names) s ks t"
proof (induction fuel root base p and fuel root base p names rule: walk_dir_walk_names.induct)
  case (1 root base p)
  then show ?case by auto
next
  case (2 fuel root base p)
  obtain r u where r: "os_ReadDir p s = (r, u)" by fastforce
  have f: "fs_find (d_tree s) p = Inr FsDir" using 2(5) by (simp add: fs_find_at)
  with os_ReadDir_spec [OF r] have u: "same_dir s u" "r = Inl FsFault \<or> r = Inr (fs_entries (d_tree s) p)" by auto
  with 2(2) r have n: "walk_names fuel root base p (fs_entries (d_tree s) p) u = (Inr ks, t)" "r = Inr (fs_entries (d_tree s) p)"
    by (auto simp: io_try_def fs_lift_def not_found_def)
  have "walk_right root base p (starts_in (fs_entries (d_tree s) p)) u ks t"
    by (rule "2.IH" [OF n(1)]) (use 2 u distinct_entries fs_entries_set [of "d_tree s" p] in \<open>auto simp: append_butlast_last_id\<close>)
  then show ?case using u walk_keys_entries [OF 2(3)] by (simp add: walk_right_def)
next
  case (3 fuel root base p)
  then show ?case by (simp add: walk_right_def walk_keys_def starts_in_def)
next
  case (4 fuel root base p name names)
  let ?t = "d_tree s"
  define dir where "dir \<longleftrightarrow> fs_at ?t (p @ [name]) = Some FsDir"
  from 4(3) obtain u where u: "dir_Err s = (Inr (), u)" by (auto simp: io_bind_def split: prod.splits sum.splits)
  note same = dir_Err_spec [OF u]
  from 4(3) have "io_bind
       (if hidden name dir \<or> (p = root \<and> \<not> prefix base name) then io_ret []
        else if dir then walk_dir fuel root base (p @ [name])
        else if checkKey (str_join ''/'' (p @ [name])) \<noteq> Inr () then io_ret []
        else io_ret [str_join ''/'' (p @ [name])]) (\<lambda>keys.
     io_bind (walk_names fuel root base p names) (\<lambda>rest. io_ret (keys @ rest))) u = (Inr ks, t)"
    by (simp only: walk_names.simps io_bind_get io_bind_Inr [where m = dir_Err, OF u] dir_def)
  then obtain k1 k2 v where k: "(if hidden name dir \<or> (p = root \<and> \<not> prefix base name) then io_ret []
        else if dir then walk_dir fuel root base (p @ [name])
        else if checkKey (str_join ''/'' (p @ [name])) \<noteq> Inr () then io_ret []
        else io_ret [str_join ''/'' (p @ [name])]) u = (Inr k1, v)"
      "walk_names fuel root base p names v = (Inr k2, t)" "ks = k1 @ k2"
    by (auto simp: io_bind_eq_Inr_iff)
  have first_: "walk_right root base p (starts_in [name]) u k1 v"
  proof (cases dir)
    case True
    then have d: "fs_at ?t (p @ [name]) = Some FsDir" "p @ [name] \<noteq> root" using 4(5) by (auto simp: dir_def)
    show ?thesis
    proof (cases "hidden name True \<or> (p = root \<and> \<not> prefix base name)")
      case True
      then show ?thesis using k(1) same walk_keys_dir [OF d, of base] \<open>dir\<close> by (simp add: walk_right_def)
    next
      case False
      then have "walk_right root base (p @ [name]) {rest. rest \<noteq> []} u k1 v"
        using k(1) \<open>dir\<close> 4 d same by (intro 4(1)) auto
      with False same walk_keys_dir [OF d, of base] show ?thesis by (auto simp: walk_right_def)
    qed
  next
    case False
    have "fs_at ?t (p @ [name]) \<noteq> None" using 4(7) by simp
    with walk_keys_file [OF 4(4), of p name root base] False have w: "walk_keys ?t root base p (starts_in [name]) =
      (if hidden name False \<or> (p = root \<and> \<not> prefix base name) \<or> checkKey (str_join ''/'' (p @ [name])) \<noteq> Inr ()
       then {} else {str_join ''/'' (p @ [name])})" by (simp add: dir_def)
    have "v = u" "k1 = (if hidden name False \<or> (p = root \<and> \<not> prefix base name) \<or> checkKey (str_join ''/'' (p @ [name])) \<noteq> Inr ()
       then [] else [str_join ''/'' (p @ [name])])"
      using k(1) False by (auto split: if_splits)
    with w same show ?thesis by (simp add: walk_right_def)
  qed
  then have v: "same_dir s v" using same by (simp add: walk_right_def)
  have "walk_right root base p (starts_in names) v k2 t"
    by (rule 4(2) [OF k(2)]) (use 4 v in auto)
  with first_ v same k(3) walk_keys_names [of ?t root base p name names] walk_keys_apart [OF 4(4), of name names root base p] 4(6)
  show ?case by (auto simp: walk_right_def)
qed

section \<open>Prefixes\<close>

lemma split_append:
  "str_split c (p @ x) = butlast (str_split c p) @ (last (str_split c p) @ hd (str_split c x)) # tl (str_split c x)"
proof (induction p)
  case Nil
  have "str_split c x \<noteq> []" by simp
  then show ?case by simp
next
  case (Cons a p)
  obtain seg segs where s: "str_split c p = seg # segs" by (cases "str_split c p") auto
  with Cons show ?case by (cases segs) auto
qed

lemma prefix_split:
  assumes "str_split c k = butlast (str_split c p) @ rest" "rest \<noteq> []"
  shows "prefix p k \<longleftrightarrow> prefix (last (str_split c p)) (hd rest)"
proof
  assume "prefix p k"
  then obtain x where "k = p @ x" by (auto simp: prefix_def)
  with split_append [of c p x] assms show "prefix (last (str_split c p)) (hd rest)" by auto
next
  assume "prefix (last (str_split c p)) (hd rest)"
  then obtain y where y: "hd rest = last (str_split c p) @ y" by (auto simp: prefix_def)
  define x where "x = str_join [c] (y # tl rest)"
  have "c \<notin> set seg" if "seg \<in> set (y # tl rest)" for seg
  proof -
    have z: "c \<notin> set z" if "z \<in> set rest" for z using str_split_segments [of z c k] assms that by simp
    have "c \<notin> set y" using z [OF hd_in_set [OF assms(2)]] y by simp
    then show ?thesis using that z list.set_sel(2) [OF assms(2)] by auto
  qed
  then have "str_split c x = y # tl rest" unfolding x_def by (intro split_join) auto
  then have "str_split c (p @ x) = str_split c k" using assms y by (simp add: split_append flip: y)
  then have "p @ x = k" by simp
  then show "prefix p k" by (metis prefixI)
qed

lemma prefix_root: "prefix p k \<Longrightarrow> \<exists>rest. rest \<noteq> [] \<and> str_split c k = butlast (str_split c p) @ rest"
  by (auto simp: prefix_def split_append)

text \<open>What \<open>List\<close> does not pass over, of the keys with a prefix.\<close>

definition dir_listed :: "string \<Rightarrow> string \<Rightarrow> bool" where
  "dir_listed p key \<longleftrightarrow> shown (drop (length (butlast (str_split (CHR ''/'') p))) (str_split (CHR ''/'') key))"

lemma walk_keys_list:
  assumes "fs_ok (d_tree s)"
  shows "walk_keys (d_tree s) (butlast (str_split CHR ''/'' p)) (last (str_split CHR ''/'' p)) (butlast (str_split CHR ''/'' p)) {rest. rest \<noteq> []} =
     {k. dir_contents s k \<noteq> None \<and> prefix p k \<and> checkKey k = Inr () \<and> dir_listed p k}" (is "walk_keys ?t ?root ?base ?root _ = ?K")
proof (intro equalityI subsetI)
  fix k assume "k \<in> walk_keys ?t ?root ?base ?root {rest. rest \<noteq> []}"
  then obtain rest where r: "k = str_join ''/'' (?root @ rest)" "rest \<noteq> []" "file_of ?t (?root @ rest) \<noteq> None" "shown rest"
    "prefix ?base (hd rest)" "checkKey k = Inr ()" by (auto simp: walk_keys_def)
  then obtain n where "fs_at ?t (?root @ rest) = Some n" by (cases "fs_at ?t (?root @ rest)") (auto simp: file_of_def)
  with fs_okD(1) [OF assms this] have "\<forall>seg \<in> set (?root @ rest). CHR ''/'' \<notin> set seg" by (simp only: clean_path_def) blast
  then have "str_split CHR ''/'' k = ?root @ rest" unfolding r(1) by (rule split_join) (simp add: r(2))
  with r prefix_split [OF this r(2)] show "k \<in> ?K" by (simp add: dir_contents_def dir_listed_def)
next
  fix k assume k: "k \<in> ?K"
  then obtain rest where r: "rest \<noteq> []" "str_split CHR ''/'' k = ?root @ rest" using prefix_root by blast
  moreover have "k = str_join ''/'' (?root @ rest)" using join_split [of "CHR ''/''" k] r by simp
  ultimately show "k \<in> walk_keys ?t ?root ?base ?root {rest. rest \<noteq> []}"
    using k prefix_split [OF r(2,1)] unfolding walk_keys_def
    by (auto simp: dir_contents_def dir_listed_def intro!: exI [of _ rest])
qed

section \<open>List\<close>

lemma depth_bound: "fs_at t q \<noteq> None \<Longrightarrow> length q \<le> fs_depth t"
proof -
  assume "fs_at t q \<noteq> None"
  then obtain n where "(q, n) \<in> set (DAList.impl_of t)" using impl_of_fs_at by fast
  then have "length q \<in> set (0 # map (length \<circ> fst) (DAList.impl_of t))" by force
  then show ?thesis unfolding fs_depth_def by (intro Max_ge) auto
qed

lemma dir_walk_Inr: "dir_walk p = Inr (root, base) \<longleftrightarrow>
   checkPrefix p = Inr () \<and> root = butlast (str_split CHR ''/'' p) \<and> base = last (str_split CHR ''/'' p)"
  by (auto simp: dir_walk_def rbind_Inr_iff Let_def)

lemma dir_list_spec:
  assumes "dir_list p s = (Inr ks, t)" "fs_ok (d_tree s)"
  shows "same_dir s t \<and> distinct ks \<and> set ks = {k. dir_contents s k \<noteq> None \<and> prefix p k \<and> checkKey k = Inr () \<and> dir_listed p k}"
proof -
  let ?root = "butlast (str_split CHR ''/'' p)" and ?base = "last (str_split CHR ''/'' p)"
  from assms(1) obtain s1 where s1: "dir_Err s = (Inr (), s1)"
    "io_try (fs_lift not_found (os_stat ?root)) (\<lambda>r.
       case r of
         Inl e \<Rightarrow> if e = ErrNotFound then io_ret [] else io_err e
       | Inr n \<Rightarrow> io_bind dir_Err (\<lambda>_ s.
           (if n = FsDir then walk_dir (Suc (fs_depth (d_tree s))) ?root ?base ?root else io_ret []) s)) s1 = (Inr ks, t)"
    by (auto simp: dir_list_def io_bind_eq_Inr_iff dir_walk_Inr)
  obtain r s2 where o: "os_stat ?root s1 = (r, s2)" by fastforce
  note same = dir_Err_spec [OF s1(1)] os_stat_spec [OF o]
  have none: "{k. dir_contents s k \<noteq> None \<and> prefix p k \<and> checkKey k = Inr () \<and> dir_listed p k} = {}" if "fs_at (d_tree s) ?root \<noteq> Some FsDir"
  proof -
    have "dir_contents s k = None" if "prefix p k" for k
    proof -
      from prefix_root [OF that] obtain rest where "rest \<noteq> []" "str_split CHR ''/'' k = ?root @ rest" by blast
      then show ?thesis using file_above [OF assms(2), of ?root rest] \<open>fs_at (d_tree s) ?root \<noteq> Some FsDir\<close>
        by (cases "fs_at (d_tree s) (?root @ rest)") (auto simp: dir_contents_def file_of_def)
    qed
    then show ?thesis unfolding Collect_empty_eq by meson
  qed
  show ?thesis
  proof (cases r)
    case (Inl e)
    then have "e = NotExist" "ks = []" "t = s2" using s1(2) o by (auto simp: io_try_def fs_lift_def split: if_splits)
    then show ?thesis using same none Inl fs_find_at(1) [of "d_tree s" ?root e] by auto
  next
    case (Inr n)
    then have n: "fs_at (d_tree s) ?root = Some n" using same fs_find_at(2) [of "d_tree s" ?root n] by auto
    from s1(2) Inr o have "io_bind dir_Err (\<lambda>_ s.
           (if n = FsDir then walk_dir (Suc (fs_depth (d_tree s))) ?root ?base ?root else io_ret []) s) s2 = (Inr ks, t)"
      by (simp add: io_try_def fs_lift_def)
    then obtain s3 where s3: "dir_Err s2 = (Inr (), s3)"
      "(if n = FsDir then walk_dir (Suc (fs_depth (d_tree s3))) ?root ?base ?root else io_ret []) s3 = (Inr ks, t)"
      by (auto simp: io_bind_eq_Inr_iff)
    note same3 = same dir_Err_spec [OF s3(1)]
    show ?thesis
    proof (cases n)
      case FsDir
      have "walk_right ?root ?base ?root {rest. rest \<noteq> []} s3 ks t"
        using s3(2) FsDir assms(2) same3 n depth_bound [of "d_tree s3"] by (intro walk_spec(1) [of "Suc (fs_depth (d_tree s3))"]) (auto simp: less_Suc_eq_le trans_le_add2)
      then show ?thesis using same3 walk_keys_list [OF assms(2), of p] by (simp add: walk_right_def)
    next
      case (FsFile b)
      then show ?thesis using s3(2) same3 none n by auto
    qed
  qed
qed

end
