(* ===== verification/Dir_Theorems.thy ===== *)
theory Dir_Theorems
  imports Dir_Lists
begin

text \<open>
  The properties of the store of files.
\<close>

section \<open>An example\<close>

definition demo_disk :: dirstore where
  "demo_disk = newDirStore (DAList.update [''a'', ''b''] (FsFile [1, 2, 3])
     (DAList.update [''a'', ''.h''] (FsFile [9]) (DAList.update [''a''] FsDir (DAList.update [] FsDir DAList.empty))))"

definition broken_disk :: dirstore where
  "broken_disk = demo_disk\<lparr>d_calls := [None, None, Some 1]\<rparr>"

lemma demo_disk_ok: "fs_ok (d_tree demo_disk)" "fs_ok (d_tree broken_disk)"
  by code_simp+

lemma demo_disk_set:
  "fst (dir_set (\<lambda>_. ''1'') ''a/b'' [4, 5] demo_disk) = Inr ()"
  "fst (dir_set (\<lambda>_. ''1'') ''a/b'' [4, 5] broken_disk) = Inl other_error"
  by code_simp+

lemma demo_disk_contents:
  "dir_contents demo_disk ''a/b'' = Some [1, 2, 3]" "dir_contents broken_disk ''a/b'' = Some [1, 2, 3]"
  by code_simp+

lemma demo_disk_list: "dir_list ''a/'' demo_disk = (Inr [''a/b''], demo_disk)"
  by code_simp

lemma demo_disk_delete: "fst (dir_delete ''a/b'' demo_disk) = Inr ()"
  by code_simp

lemma demo_disk_live: "dir_live demo_disk"
  by (simp add: dir_live_def demo_disk_def newDirStore_def)

section \<open>Writing\<close>

text \<open>C28: \<open>Set\<close> is atomic, whatever system call breaks and however much of the value was written by then: every tree that
  another process may see on the way has at each key its old value or the whole new one, but for the file
  in the writing, which is at no key that is listed; a \<open>Set\<close> that worked has replaced the value, one that
  did not has changed nothing else; and what was a tree of files and directories stays one.
  (\<open>DirStore.Set\<close>.)\<close>

theorem dir_set_atomic:
  assumes "\<And>s. CHR ''/'' \<notin> set (rnd s)" "dir_set rnd key v s = (r, t)"
  shows "\<exists>temp seen. hidden (last temp) False \<and> temp \<noteq> str_split (CHR ''/'') key \<and> d_seen t = seen @ d_seen s \<and>
    (\<forall>u \<in> set seen.
       \<forall>k. str_split (CHR ''/'') k \<noteq> temp \<longrightarrow>
         file_of u (str_split (CHR ''/'') k) \<in> {dir_contents s k, ((dir_contents s)(key \<mapsto> v)) k}) \<and>
    (fs_ok (d_tree s) \<longrightarrow> (\<forall>u \<in> insert (d_tree t) (set seen). fs_ok u)) \<and>
    (case r of
       Inr _ \<Rightarrow> dir_contents t = (dir_contents s)(key \<mapsto> v)
     | Inl _ \<Rightarrow> \<forall>k. str_split (CHR ''/'') k \<noteq> temp \<longrightarrow> dir_contents t k = dir_contents s k)"
  using assms(2,1)
proof (cases rule: dir_set_spec)
  case (failed e x)
  then obtain seen where "d_seen t = seen @ d_seen s" "\<forall>u \<in> insert (d_tree t) (set seen). leaves {temp_path (str_split CHR ''/'' key) x} (d_tree s) u"
    by (auto simp: keeps_def)
  then show ?thesis using failed temp_path_hidden temp_path_not_key
    by (intro exI [of _ "temp_path (str_split CHR ''/'' key) x"] exI [of _ seen]) (auto simp: leaves_def dir_contents_def)
next
  case (done_ x u)
  let ?p = "str_split CHR ''/'' key"
  let ?temp = "temp_path ?p x"
  note m = moved_to_files [OF done_(4) temp_path_not_key]
  from done_(3) obtain seen where s: "d_seen u = seen @ d_seen s" "\<forall>w \<in> insert (d_tree u) (set seen). leaves {?temp} (d_tree s) w"
    by (auto simp: keeps_def)
  have t: "d_seen t = (d_tree t # seen) @ d_seen s" using done_(4) s by (simp add: moved_to_def)
  have f: "dir_contents t = (dir_contents s)(key \<mapsto> v)"
    using m(1) s(2) done_(5) by (auto simp: dir_contents_def leaves_def)
  have ok: "fs_ok (d_tree t)" if "fs_ok (d_tree s)" using m(2) clean_key [OF done_(2)] s(2) that by (simp add: leaves_def)
  show ?thesis
    using done_(1) temp_path_hidden [of ?p x] temp_path_not_key [of ?p x] t f ok s(2)
    by (intro exI [of _ ?temp] exI [of _ "d_tree t # seen"]) (auto simp: leaves_def dir_contents_def fun_eq_iff)
qed

lemma dir_set_atomic_witness:
  "dir_contents (snd (dir_set (\<lambda>_. ''1'') ''a/b'' [4, 5] demo_disk)) ''a/b'' = Some [4, 5] \<and>
   dir_contents (snd (dir_set (\<lambda>_. ''1'') ''a/b'' [4, 5] broken_disk)) ''a/b'' = Some [1, 2, 3]"
  using dir_set_atomic [of "\<lambda>_. ''1''", OF _ prod.collapse [symmetric], of "''a/b''" "[4, 5]" demo_disk]
    dir_set_atomic [of "\<lambda>_. ''1''", OF _ prod.collapse [symmetric], of "''a/b''" "[4, 5]" broken_disk]
  by (auto simp: demo_disk_set demo_disk_contents)

lemma mk_dirs_live:
  "\<forall>q \<in> set qs. \<forall>b. fs_at (d_tree s) q \<noteq> Some (FsFile b) \<Longrightarrow>
   \<exists>t. mk_dirs qs s = (Inr (), t) \<and> d_calls t = d_calls s \<and> d_ctx t = d_ctx s \<and>
     (\<forall>q. fs_at (d_tree t) q = (if q \<in> set qs then Some FsDir else fs_at (d_tree s) q))"
proof (induction qs s rule: mk_dirs.induct)
  case (2 q qs s)
  show ?case
  proof (cases "fs_at (d_tree s) q")
    case None
    let ?s = "fs_put (DAList.update q FsDir (d_tree s)) s"
    have at: "fs_at (d_tree ?s) q' = (if q' = q then Some FsDir else fs_at (d_tree s) q')" for q'
      by (simp add: fs_put_def lookup_update)
    have "\<forall>q' \<in> set qs. \<forall>b. fs_at (d_tree ?s) q' \<noteq> Some (FsFile b)" using "2.prems" by (simp add: at)
    from "2.IH"(1) [OF None this] obtain t where "mk_dirs qs ?s = (Inr (), t)" "d_calls t = d_calls s" "d_ctx t = d_ctx s"
      "\<forall>q'. fs_at (d_tree t) q' = (if q' \<in> set qs then Some FsDir else fs_at (d_tree ?s) q')" by (auto simp: fs_put_def)
    then show ?thesis by (intro exI [of _ t]) (simp add: None at)
  next
    case (Some n)
    with 2(3) have "n = FsDir" by (cases n) auto
    with "2.IH"(2) [OF Some this] "2.prems" Some show ?thesis by fastforce
  qed
qed simp

lemma set_temp_live:
  assumes "dir_live s" "fs_at (d_tree s) p \<noteq> Some FsDir" "fs_at (d_tree s) (butlast p) = Some FsDir" "temp \<noteq> p" "temp \<noteq> butlast p"
  shows "\<exists>t. set_temp temp p v s = (Inr (), t) \<and> dir_live t"
proof -
  have w: "file_Write temp v s = (Inr (), fs_write temp v s)" using assms(1) by (simp add: file_Write_def dir_live_simps)
  have n: "d_calls (fs_write temp v s) = [] \<and> d_ctx (fs_write temp v s) = None"
    if "d_calls s = [] \<and> d_ctx s = None" for s
  proof -
    have "d_calls (fold (\<lambda>n. fs_put (f n)) ns s) = [] \<and> d_ctx (fold (\<lambda>n. fs_put (f n)) ns s) = None" for ns f
      using that by (induction ns arbitrary: s) (simp_all add: fs_put_def)
    then show ?thesis by (simp add: fs_write_def del: upt_Suc)
  qed
  let ?u = "fs_write temp v s"
  have l: "dir_live ?u" using n assms(1) by (simp add: dir_live_def)
  have t: "d_tree ?u = DAList.update temp (FsFile v) (d_tree s)" by (simp add: fs_write_def fs_put_def)
  have r: "os_Rename temp p ?u = (Inr (), fs_put (DAList.update p (FsFile v) (DAList.delete temp (d_tree ?u))) ?u)"
    using assms l by (auto simp: os_Rename_def dir_live_simps t lookup_update split: option.split fsnode.split)
  show ?thesis
    using w r l by (auto simp: set_temp_def io_try_def io_bind_def fs_lift_def fs_quiet_def dir_live_simps, simp add: dir_live_def fs_put_def)
qed

text \<open>While no system call breaks, \<open>Set\<close> of a key works if no file is where a directory of its path is to be, the key is no
  directory's and the temporary name is free; then \<open>Get\<close> gives the value that was set.
  (\<open>DirStore.Set\<close>, \<open>DirStore.Get\<close>.)\<close>

theorem dir_set_works:
  fixes key :: string
  defines "p \<equiv> str_split (CHR ''/'') key"
  assumes "\<And>s. CHR ''/'' \<notin> set (rnd s)" "dir_live s" "checkKey key = Inr ()"
    and "\<forall>i < length p. \<forall>b. fs_at (d_tree s) (take i p) \<noteq> Some (FsFile b)" "fs_at (d_tree s) p \<noteq> Some FsDir"
    and "\<forall>x. fs_at (d_tree s) (butlast p @ [temp_name (last p) x]) = None"
  shows "\<exists>t. dir_set rnd key v s = (Inr (), t) \<and> dir_contents t = (dir_contents s)(key \<mapsto> v) \<and> fst (dir_get key t) = Inr v"
proof -
  have p: "p \<noteq> []" "clean_path p" using clean_key [OF assms(4)] by (simp_all add: p_def)
  have anc: "ancestors (butlast p) = map (\<lambda>i. take i p) [0 ..< length p]"
    using p(1) by (auto simp: ancestors_def take_butlast simp del: upt_Suc)
  from assms(5) obtain s1 where s1: "mk_dirs (ancestors (butlast p)) s = (Inr (), s1)" "d_calls s1 = d_calls s" "d_ctx s1 = d_ctx s"
    "\<forall>q. fs_at (d_tree s1) q = (if q \<in> set (ancestors (butlast p)) then Some FsDir else fs_at (d_tree s) q)"
    using mk_dirs_live [of "ancestors (butlast p)" s] by (auto simp: anc)
  have l1: "dir_live s1" using s1 assms(3) by (simp add: dir_live_def)
  define temp where "temp = temp_path p (rnd s1)"
  have len: "q \<in> set (ancestors (butlast p)) \<Longrightarrow> length q < length p" for q by (auto simp: anc)
  have lt: "length temp = length p" using p(1) by (simp add: temp_def temp_path_def)
  have far: "temp \<notin> set (ancestors (butlast p))" "p \<notin> set (ancestors (butlast p))" using len lt by force+
  have up: "butlast p \<in> set (ancestors (butlast p))" "butlast temp = butlast p"
    using p(1) by (auto simp: ancestors_def temp_def temp_path_def simp del: upt_Suc intro!: image_eqI [of _ _ "length p - 1"])
  define s2 where "s2 = fs_put (DAList.update temp (FsFile []) (d_tree s1)) s1"
  have "fs_at (d_tree s1) temp = None" using s1(4) far assms(7) by (simp add: temp_def temp_path_def)
  then have o: "os_CreateTemp temp s1 = (Inr (last temp), s2)"
    using s1(4) up by (simp add: os_CreateTemp_def dir_live_simps l1 s2_def)
  have l2: "dir_live s2" using l1 by (simp add: s2_def fs_put_def dir_live_def)
  have tp: "temp \<noteq> p" unfolding temp_def using p(1) by (rule temp_path_not_key)
  have tb: "temp \<noteq> butlast p" using far up by metis
  have at2: "fs_at (d_tree s2) q = (if q = temp then Some (FsFile []) else fs_at (d_tree s1) q)" for q
    by (simp add: s2_def fs_put_def lookup_update)
  have "fs_at (d_tree s2) p \<noteq> Some FsDir" "fs_at (d_tree s2) (butlast p) = Some FsDir"
    using at2 s1(4) far up assms(6) tp tb by simp_all
  from set_temp_live [OF l2 this tp tb] obtain t where t: "set_temp temp p v s2 = (Inr (), t)" "dir_live t" by blast
  have "dir_set rnd key v s = (Inr (), t)"
    using s1(1) o t(1) assms(3,4) l1
    by (simp add: dir_set_def io_bind_def dir_live_simps dir_path_def fs_lift_def os_MkdirAll_def temp_def temp_path_def p_def)
  moreover from this assms(2) have "dir_contents t = (dir_contents s)(key \<mapsto> v)"
  proof (cases rule: dir_set_spec)
    case (done_ x u)
    note m = moved_to_files(1) [OF done_(4) temp_path_not_key]
    show ?thesis using m keeps_leaves [OF done_(3)] done_(5) by (auto simp: dir_contents_def leaves_def)
  qed simp
  moreover from this have "fst (dir_get key t) = Inr v"
    using dir_get_spec(4) [OF prod.collapse [symmetric] t(2) assms(4)] by simp
  ultimately show ?thesis by blast
qed

lemma dir_set_works_witness:
  "\<exists>t. dir_set (\<lambda>_. ''1'') ''a/c'' [4, 5] demo_disk = (Inr (), t) \<and> dir_contents t = (dir_contents demo_disk)(''a/c'' \<mapsto> [4, 5]) \<and>
     fst (dir_get ''a/c'' t) = Inr [4, 5]"
proof (rule dir_set_works)
  have s: "str_split (CHR ''/'') ''a/c'' = [''a'', ''c'']" by code_simp
  show "checkKey ''a/c'' = Inr ()" by code_simp
  show "\<forall>i < length (str_split CHR ''/'' ''a/c''). \<forall>b. fs_at (d_tree demo_disk) (take i (str_split CHR ''/'' ''a/c'')) \<noteq> Some (FsFile b)"
    unfolding s by (auto simp: demo_disk_def newDirStore_def lookup_update less_Suc_eq)
  show "fs_at (d_tree demo_disk) (str_split CHR ''/'' ''a/c'') \<noteq> Some FsDir"
    unfolding s by (simp add: demo_disk_def newDirStore_def lookup_update)
  show "\<forall>x. fs_at (d_tree demo_disk) (butlast (str_split CHR ''/'' ''a/c'') @ [temp_name (last (str_split CHR ''/'' ''a/c'')) x]) = None"
    unfolding s by (simp add: demo_disk_def newDirStore_def lookup_update temp_name_def)
qed (simp_all add: demo_disk_live)

text \<open>C29: \<open>Get\<close> gives the value of a key or an error, and \<open>GetRange\<close> that part of it - or nothing at all, of no bytes of a
  directory; neither changes anything, \<open>ErrNotFound\<close> says that the key has no value, and while no system call breaks
  every value is given, and every part that is one. (\<open>DirStore.Get\<close>, \<open>DirStore.GetRange\<close>.)\<close>

theorem dir_read_exact:
  assumes "\<forall>v. dir_contents s key = Some v \<longrightarrow> int (length v) \<le> max_alloc" "in_int64 off" "in_int64 len"
  shows "(case dir_get key s of
      (Inr b, t) \<Rightarrow> same_dir s t \<and> dir_contents s key = Some b
    | (Inl e, t) \<Rightarrow> same_dir s t \<and> (e = ErrNotFound \<or> dir_live s \<and> checkKey key = Inr () \<longrightarrow> dir_contents s key = None)) \<and>
   (case dir_range key off len s of
      (Inr b, t) \<Rightarrow> same_dir s t \<and>
        ((\<exists>v. dir_contents s key = Some v \<and> range_in v off len \<and> b = sub_bytes v off len) \<or>
         fs_at (d_tree s) (str_split (CHR ''/'') key) = Some FsDir \<and> len = 0 \<and> b = [])
    | (Inl e, t) \<Rightarrow> same_dir s t \<and> (e = ErrNotFound \<longrightarrow> dir_contents s key = None) \<and>
        (dir_live s \<and> checkKey key = Inr () \<longrightarrow> (\<forall>v. dir_contents s key = Some v \<longrightarrow> \<not> range_in v off len)))"
    (is "?get \<and> ?range")
proof (rule conjI)
  obtain r t where g: "dir_get key s = (r, t)" by fastforce
  show ?get
  proof (cases r)
    case (Inl e)
    then show ?thesis using dir_get_spec(1,3,4) [OF g] g by (cases "dir_contents s key") auto
  qed (use dir_get_spec(1,2) [OF g] g in simp)
  let ?p = "str_split CHR ''/'' key"
  obtain r t where g: "dir_range key off len s = (r, t)" by fastforce
  have found: "fs_find (d_tree s) ?p = Inr (FsFile v)" if "dir_contents s key = Some v" for v
    using that by (auto simp: dir_contents_def file_of_def fs_find_at split: option.splits fsnode.splits)
  have none: "dir_contents s key = None" if "fs_at (d_tree s) ?p = None" using that by (simp add: dir_contents_def file_of_def)
  have same: "same_dir s t" and res: "r = Inl ErrCtx \<or> r = Inl other_error \<or> r = Inl (ErrOther ''bad key'') \<or>
      (\<exists>d. r = (case fs_find (d_tree s) ?p of Inl e \<Rightarrow> Inl (not_found e) | Inr n \<Rightarrow> range_of d n off len))"
    using dir_range_spec(1) [OF g] by blast+
  show ?range
  proof (cases r)
    case (Inr b)
    then obtain n d where n: "fs_find (d_tree s) ?p = Inr n" "range_of d n off len = Inr b" using res by (cases "fs_find (d_tree s) ?p") auto
    show ?thesis
    proof (cases n)
      case (FsFile v)
      then have "dir_contents s key = Some v" using n by (simp add: dir_contents_def file_of_def fs_find_at)
      then show ?thesis using range_of_file(1) [of v off len d b] assms n FsFile same g Inr by auto
    next
      case FsDir
      then show ?thesis using range_of_dir(1) n fs_find_at(2) [of "d_tree s" ?p n] same g Inr by auto
    qed
  next
    case (Inl e)
    have "dir_contents s key = None" if nf: "e = ErrNotFound"
    proof (cases "fs_find (d_tree s) ?p")
      case (Inl e')
      then show ?thesis using none [OF fs_find_at(1) [OF Inl]] by simp
    next
      case (Inr n)
      then obtain d where "range_of d n off len = Inl ErrNotFound" using res Inl nf Inr by auto
      then show ?thesis using range_of_file(2) range_of_dir(2) assms found Inr by (cases n) (auto simp: range_of_def rbind_Inl_iff span_def Let_def split: if_splits)
    qed
    moreover have "\<not> range_in v off len" if "dir_live s" "checkKey key = Inr ()" "dir_contents s key = Some v" for v
    proof
      assume "range_in v off len"
      then have "range_of (d_dirsize s) (FsFile v) off len = Inr (sub_bytes v off len)"
        using range_of_file(1) assms that(3) by blast
      then show False using dir_range_spec(2) [OF g that(1,2)] found [OF that(3)] Inl by simp
    qed
    ultimately show ?thesis using same g Inl by auto
  qed
qed

lemma dir_read_exact_witness:
  "fst (dir_get ''a/b'' demo_disk) = Inr [1, 2, 3] \<and> fst (dir_range ''a/b'' (-2) 2 demo_disk) = Inr [2, 3]"
proof -
  have k: "checkKey ''a/b'' = Inr ()" by code_simp
  have "\<forall>v. dir_contents demo_disk ''a/b'' = Some v \<longrightarrow> int (length v) \<le> max_alloc" by (simp add: demo_disk_contents max_alloc_def)
  moreover have "range_in [1, 2, 3] (-2) 2" "sub_bytes [1, 2, 3] (-2) 2 = [2, 3]" by code_simp+
  moreover have "fs_at (d_tree demo_disk) (str_split (CHR ''/'') ''a/b'') = Some (FsFile [1, 2, 3])" by code_simp
  ultimately show ?thesis
    using dir_read_exact [of demo_disk "''a/b''" "- 2" 2]
    by (auto simp: k demo_disk_contents demo_disk_live in_int64_def minInt64_def maxInt64_def split: prod.splits sum.splits)
qed

text \<open>\<open>Delete\<close> removes the value of a key and nothing else, and one that fails removes nothing; while no system call breaks
  it removes every value there is. What was a tree stays one. (\<open>DirStore.Delete\<close>.)\<close>

theorem dir_delete_exact:
  "case dir_delete key s of
     (Inr _, t) \<Rightarrow> dir_contents t = (dir_contents s)(key := None) \<and> (fs_ok (d_tree s) \<longrightarrow> fs_ok (d_tree t))
   | (Inl _, t) \<Rightarrow> d_tree t = d_tree s \<and> (dir_live s \<and> checkKey key = Inr () \<longrightarrow> dir_contents s key = None)"
proof -
  let ?p = "str_split CHR ''/'' key"
  obtain r t where g: "dir_delete key s = (r, t)" by fastforce
  then show ?thesis
  proof (cases rule: dir_delete_spec)
    case (failed e)
    have "dir_contents s key = None" if live: "dir_live s" "checkKey key = Inr ()"
    proof (rule ccontr)
      assume "dir_contents s key \<noteq> None"
      then obtain b where "fs_find (d_tree s) ?p = Inr (FsFile b)"
        by (auto simp: dir_contents_def file_of_def fs_find_at split: option.splits fsnode.splits)
      then show False using g failed live
        by (simp add: dir_delete_def io_bind_def io_try_def fs_lift_def dir_live_simps dir_path_def os_Remove_def)
    qed
    with failed g show ?thesis by simp
  next
    case gone
    then have "dir_contents s key = None" by (simp add: dir_contents_def file_of_def)
    with gone g show ?thesis by (auto simp: dir_contents_def fun_eq_iff)
  next
    case removed
    with g show ?thesis using fs_ok_delete [of "d_tree s" ?p] by (auto simp: dir_contents_def fun_eq_iff file_of_delete)
  qed
qed

lemma dir_delete_exact_witness:
  "dir_contents (snd (dir_delete ''a/b'' demo_disk)) = (dir_contents demo_disk)(''a/b'' := None) \<and>
   fs_ok (d_tree (snd (dir_delete ''a/b'' demo_disk)))"
  using dir_delete_exact [of demo_disk "''a/b''"] demo_disk_ok(1) demo_disk_delete
  by (cases "dir_delete ''a/b'' demo_disk") simp

lemma walk_live:
  "dir_live s \<Longrightarrow> fs_at (d_tree s) p = Some FsDir \<Longrightarrow> \<exists>ks. walk_dir fuel root base p s = (Inr ks, s)"
  "dir_live s \<Longrightarrow> \<exists>ks. walk_names fuel root base p names s = (Inr ks, s)"
proof (induction fuel root base p and fuel root base p names rule: walk_dir_walk_names.induct)
  case (2 fuel root base p)
  then have "os_ReadDir p s = (Inr (fs_entries (d_tree s) p), s)"
    by (simp add: os_ReadDir_def dir_live_simps fs_find_def)
  with 2 show ?case by (simp add: io_try_def fs_lift_def)
next
  case (4 fuel root base p name names)
  define dir where "dir \<longleftrightarrow> fs_at (d_tree s) (p @ [name]) = Some FsDir"
  have "\<exists>ks. (if hidden name dir \<or> (p = root \<and> \<not> prefix base name) then io_ret []
        else if dir then walk_dir fuel root base (p @ [name])
        else if checkKey (str_join ''/'' (p @ [name])) \<noteq> Inr () then io_ret []
        else io_ret [str_join ''/'' (p @ [name])]) s = (Inr ks, s)"
    using 4(1) 4(3) by (auto simp: dir_def)
  with 4(2) [OF 4(3)] obtain k1 k2 where k: "(if hidden name dir \<or> (p = root \<and> \<not> prefix base name) then io_ret []
        else if dir then walk_dir fuel root base (p @ [name])
        else if checkKey (str_join ''/'' (p @ [name])) \<noteq> Inr () then io_ret []
        else io_ret [str_join ''/'' (p @ [name])]) s = (Inr k1, s)" "walk_names fuel root base p names s = (Inr k2, s)" by blast
  have "walk_names fuel root base p (name # names) s = (Inr (k1 @ k2), s)"
    unfolding walk_names.simps io_bind_get io_bind_Inr [where m = dir_Err, OF dir_live_simps(1) [OF 4(3)]] dir_def [symmetric]
    using k by (simp add: io_bind_def)
  then show ?case by blast
qed simp_all

text \<open>C30: \<open>List\<close> gives, each once, the keys with the prefix that have a value, but those it passes over: below the directory
  of the prefix, what is in a directory whose name begins with a dot, or is itself a hidden file. It changes
  nothing, and while no system call breaks it works, unless a file is where a directory of the prefix should be.
  (\<open>DirStore.List\<close>.)\<close>

theorem dir_list_exact:
  assumes "fs_ok (d_tree s)"
  shows "case dir_list p s of
      (Inr ks, t) \<Rightarrow> d_tree t = d_tree s \<and> distinct ks \<and>
        set ks = {k. dir_contents s k \<noteq> None \<and> prefix p k \<and> checkKey k = Inr () \<and> dir_listed p k}
    | (Inl e, t) \<Rightarrow> dir_live s \<and> checkPrefix p = Inr () \<longrightarrow> fs_find (d_tree s) (butlast (str_split (CHR ''/'') p)) = Inl NotDir"
proof -
  let ?root = "butlast (str_split CHR ''/'' p)" and ?base = "last (str_split CHR ''/'' p)"
  obtain r t where g: "dir_list p s = (r, t)" by fastforce
  show ?thesis
  proof (cases r)
    case (Inr ks)
    then show ?thesis using dir_list_spec [OF _ assms, of p ks t] g by simp
  next
    case (Inl e)
    have "fs_find (d_tree s) ?root = Inl NotDir" if live: "dir_live s" "checkPrefix p = Inr ()"
    proof (rule ccontr)
      assume nd: "fs_find (d_tree s) ?root \<noteq> Inl NotDir"
      have w: "dir_walk p = Inr (?root, ?base)" using live by (simp add: dir_walk_Inr)
      show False
      proof (cases "fs_find (d_tree s) ?root")
        case (Inl e')
        with nd have "e' = NotExist" by (auto simp: fs_find_def split: option.splits if_splits)
        then show False using g w live \<open>r = Inl e\<close> Inl
          by (simp add: dir_list_def io_bind_def io_try_def fs_lift_def dir_live_simps os_stat_def not_found_def)
      next
        case (Inr n)
        have "\<exists>ks. (if n = FsDir then walk_dir (Suc (fs_depth (d_tree s))) ?root ?base ?root else io_ret []) s = (Inr ks, s)"
          using walk_live(1) [OF live(1), of ?root "Suc (fs_depth (d_tree s))" ?root ?base] Inr fs_find_at(2) [of "d_tree s" ?root n]
          by (simp del: walk_dir.simps)
        then show False using g w live \<open>r = Inl e\<close> Inr
          by (auto simp: dir_list_def io_bind_def io_try_def fs_lift_def dir_live_simps os_stat_def simp del: walk_dir.simps)
      qed
    qed
    with g Inl show ?thesis by simp
  qed
qed

lemma dir_list_exact_witness:
  "{k. dir_contents demo_disk k \<noteq> None \<and> prefix ''a/'' k \<and> checkKey k = Inr () \<and> dir_listed ''a/'' k} = {''a/b''}"
  using dir_list_exact [OF demo_disk_ok(1), of "''a/''"] demo_disk_list by simp

end
