(* ===== verification/Cache.thy ===== *)
theory Cache
  imports Stores
begin

text \<open>
  The cache in front of a store (\<open>CachedStore\<close> of \<open>src/geodb/cache.go\<close>): the values that were read, the least
  recently used going first when they are too many, and the reads under way.

  A \<open>*list.Element\<close> and a \<open>*flight\<close> are addresses. What runs under \<open>mu\<close> is one function of the cache; a panic - a
  nil element that is removed - is an error. The first part has these functions, the second the operations of
  one goroutine on its own, and \<open>Cache_Steps\<close> those of many at once. The count of bytes is an \<open>int\<close>: it stays within
  the size of the cache.
\<close>

section \<open>The state\<close>

record cache_key =
  ck_key :: string
  ck_off :: int
  ck_len :: int
  ck_whole :: bool

record cache_entry =
  ce_key :: cache_key
  ce_value :: bytes
  ce_missing :: bool

record flight =
  fl_done :: "bytes res option"
  fl_stale :: bool

record cache =
  c_max :: int
  c_meta :: bool
  c_lru :: "(nat \<times> cache_entry) list"
  c_entries :: "(cache_key, nat) alist"
  c_byKey :: "(string, cache_key list) alist"
  c_flights :: "(cache_key, nat) alist"
  c_flight :: "flight list"
  c_next :: nat
  c_bytes :: int
  c_hits :: int
  c_misses :: int

definition newCache :: "int \<Rightarrow> bool \<Rightarrow> cache" where
  "newCache most meta =
     \<lparr>c_max = (if most \<le> 0 then 256 * 2 ^ 20 else most), c_meta = meta, c_lru = [], c_entries = DAList.empty,
      c_byKey = DAList.empty, c_flights = DAList.empty, c_flight = [], c_next = 0, c_bytes = 0, c_hits = 0, c_misses = 0\<rparr>"

record cache_stats =
  cs_hits :: int
  cs_misses :: int
  cs_bytes :: int
  cs_entries :: int

definition cache_Stats :: "cache \<Rightarrow> cache_stats" where
  "cache_Stats c =
     \<lparr>cs_hits = c_hits c, cs_misses = c_misses c, cs_bytes = c_bytes c,
      cs_entries = int (length (DAList.impl_of (c_entries c)))\<rparr>"

definition cacheable :: "cache \<Rightarrow> string \<Rightarrow> bool" where
  "cacheable c key \<longleftrightarrow> c_meta c \<or> \<not> (key = ''zarr.json'' \<or> suffix ''/zarr.json'' key)"

section \<open>Entries\<close>

definition entry_size :: "cache_entry \<Rightarrow> int" where
  "entry_size e = int (length (ce_value e)) + int (length (ck_key (ce_key e)))"

definition cache_remove :: "nat \<Rightarrow> cache \<Rightarrow> cache res" where
  "cache_remove el c =
     (case map_of (c_lru c) el of
        None \<Rightarrow> Inl Panic
      | Some e \<Rightarrow>
          let k = ce_key e
          in Inr (c\<lparr>c_lru := filter (\<lambda>(i, _). i \<noteq> el) (c_lru c),
                   c_entries := DAList.delete k (c_entries c),
                   c_byKey :=
                     (case DAList.lookup (c_byKey c) (ck_key k) of
                        None \<Rightarrow> c_byKey c
                      | Some keys \<Rightarrow>
                          let keys = removeAll k keys
                          in if keys = [] then DAList.delete (ck_key k) (c_byKey c)
                             else DAList.update (ck_key k) keys (c_byKey c)),
                   c_bytes := c_bytes c - entry_size e\<rparr>))"

text \<open>\<open>for c.bytes+size > c.max\<close>: one element goes each time, and \<open>Back\<close> of an empty list is nil.\<close>

fun make_room :: "nat \<Rightarrow> int \<Rightarrow> cache \<Rightarrow> cache res" where
  "make_room 0 sz c = (if c_bytes c + sz \<le> c_max c then Inr c else Inl Panic)"
| "make_room (Suc n) sz c =
     (if c_bytes c + sz \<le> c_max c then Inr c
      else if c_lru c = [] then Inl Panic
      else rbind (cache_remove (fst (last (c_lru c))) c) (make_room n sz))"

definition cache_put :: "cache_entry \<Rightarrow> cache \<Rightarrow> cache res" where
  "cache_put e c =
     (let sz = entry_size e; k = ce_key e
      in if sz > c_max c then Inr c
         else
           rbind (case DAList.lookup (c_entries c) k of None \<Rightarrow> Inr c | Some old \<Rightarrow> cache_remove old c) (\<lambda>c.
           rbind (make_room (length (c_lru c)) sz c) (\<lambda>c.
             let keys = (case DAList.lookup (c_byKey c) (ck_key k) of None \<Rightarrow> [] | Some keys \<Rightarrow> keys)
             in Inr (c\<lparr>c_lru := (c_next c, e) # c_lru c, c_next := Suc (c_next c),
                      c_entries := DAList.update k (c_next c) (c_entries c),
                      c_byKey := DAList.update (ck_key k) (List.insert k keys) (c_byKey c),
                      c_bytes := c_bytes c + sz\<rparr>))))"

definition remove_key :: "cache_key \<Rightarrow> cache \<Rightarrow> cache res" where
  "remove_key k c = (case DAList.lookup (c_entries c) k of None \<Rightarrow> Inl Panic | Some el \<Rightarrow> cache_remove el c)"

text \<open>Reads under way that are let finish, but are neither kept nor joined.\<close>

definition drop_flights :: "(string \<Rightarrow> bool) \<Rightarrow> cache \<Rightarrow> cache" where
  "drop_flights drop_it c =
     (let hit = map snd (filter (\<lambda>(k, f). drop_it (ck_key k)) (DAList.impl_of (c_flights c)))
      in c\<lparr>c_flight := fold (\<lambda>f fs. fs[f := (fs ! f)\<lparr>fl_stale := True\<rparr>]) hit (c_flight c),
          c_flights := DAList.filter (\<lambda>(k, f). \<not> drop_it (ck_key k)) (c_flights c)\<rparr>)"

definition cache_forget :: "string \<Rightarrow> cache \<Rightarrow> cache res" where
  "cache_forget key c =
     rbind (rfold remove_key (case DAList.lookup (c_byKey c) key of None \<Rightarrow> [] | Some keys \<Rightarrow> keys) c) (\<lambda>c.
       Inr (drop_flights (\<lambda>k. k = key) c))"

definition cache_forgetIf :: "(string \<Rightarrow> bool) \<Rightarrow> cache \<Rightarrow> cache res" where
  "cache_forgetIf drop_it c =
     rbind (rfold (\<lambda>(key, keys) c. if drop_it key then rfold remove_key keys c else Inr c) (DAList.impl_of (c_byKey c)) c) (\<lambda>c.
       Inr (drop_flights drop_it c))"

definition cache_Purge :: "(string \<Rightarrow> bool) option \<Rightarrow> cache \<Rightarrow> cache res" where
  "cache_Purge keep = cache_forgetIf (\<lambda>k. case keep of None \<Rightarrow> True | Some f \<Rightarrow> \<not> f k)"

section \<open>Reads\<close>

definition cache_answer :: "bytes \<Rightarrow> bool \<Rightarrow> bytes res" where
  "cache_answer v missing = (if missing then Inl ErrNotFound else Inr v)"

text \<open>What a read finds under the mutex: the value, a read to join, or that it is to read the store itself.\<close>

datatype look = Hit "bytes res" | Join nat | Lead nat

definition cache_look :: "nat \<Rightarrow> cache_key \<Rightarrow> cache \<Rightarrow> (look \<times> cache) res" where
  "cache_look attempt k c =
     (case DAList.lookup (c_entries c) k of
        Some el \<Rightarrow>
          (case map_of (c_lru c) el of
             None \<Rightarrow> Inl Panic
           | Some e \<Rightarrow>
               Inr (Hit (cache_answer (ce_value e) (ce_missing e)),
                 c\<lparr>c_lru := (el, e) # filter (\<lambda>(i, _). i \<noteq> el) (c_lru c), c_hits := c_hits c + 1\<rparr>))
      | None \<Rightarrow>
          (case (DAList.lookup (c_flights c) k, attempt < 3) of
             (Some f, True) \<Rightarrow> Inr (Join f, c)
           | _ \<Rightarrow>
               Inr (Lead (length (c_flight c)),
                 c\<lparr>c_flight := c_flight c @ [\<lparr>fl_done = None, fl_stale = False\<rparr>],
                   c_flights := DAList.update k (length (c_flight c)) (c_flights c), c_misses := c_misses c + 1\<rparr>)))"

text \<open>What the read that was to read the store does with what it got, a nil error or \<open>ErrNotFound\<close> being kept.\<close>

definition cache_finish :: "cache_key \<Rightarrow> nat \<Rightarrow> bytes res \<Rightarrow> cache \<Rightarrow> cache res" where
  "cache_finish k f r c =
     (let c = (if DAList.lookup (c_flights c) k = Some f then c\<lparr>c_flights := DAList.delete k (c_flights c)\<rparr> else c);
          stale = fl_stale (c_flight c ! f)
      in rbind
           (case r of
              Inr v \<Rightarrow> if stale then Inr c else cache_put \<lparr>ce_key = k, ce_value = v, ce_missing = False\<rparr> c
            | Inl e \<Rightarrow> if e = ErrNotFound \<and> \<not> stale then cache_put \<lparr>ce_key = k, ce_value = [], ce_missing = True\<rparr> c else Inr c)
           (\<lambda>c. Inr (c\<lparr>c_flight := (c_flight c)[f := (c_flight c ! f)\<lparr>fl_done := Some r\<rparr>]\<rparr>)))"

section \<open>One goroutine\<close>

record 's cached =
  cd_cache :: cache
  cd_inner :: 's

definition on_cache :: "(cache \<Rightarrow> cache res) \<Rightarrow> ('s cached, unit) io" where
  "on_cache f s = (case f (cd_cache s) of Inl e \<Rightarrow> (Inl e, s) | Inr c \<Rightarrow> (Inr (), s\<lparr>cd_cache := c\<rparr>))"

definition on_inner :: "('s, 'a) io \<Rightarrow> ('s cached, 'a) io" where
  "on_inner f s = (case f (cd_inner s) of (r, t) \<Rightarrow> (r, s\<lparr>cd_inner := t\<rparr>))"

definition whole_key :: "string \<Rightarrow> cache_key" where
  "whole_key key = \<lparr>ck_key = key, ck_off = 0, ck_len = 0, ck_whole = True\<rparr>"

definition range_key :: "string \<Rightarrow> int \<Rightarrow> int \<Rightarrow> cache_key" where
  "range_key key off len = \<lparr>ck_key = key, ck_off = off, ck_len = len, ck_whole = False\<rparr>"

text \<open>A read under way that nobody finishes is waited for until the context ends the wait.\<close>

definition cache_read :: "cache_key \<Rightarrow> ('s, bytes) io \<Rightarrow> ('s cached, bytes) io" where
  "cache_read k fetch s =
     (case cache_look 0 k (cd_cache s) of
        Inl e \<Rightarrow> (Inl e, s)
      | Inr (Hit r, c) \<Rightarrow> (r, s\<lparr>cd_cache := c\<rparr>)
      | Inr (Join f, c) \<Rightarrow> (Inl ErrCtx, s\<lparr>cd_cache := c\<rparr>)
      | Inr (Lead f, c) \<Rightarrow>
          (case fetch (cd_inner s) of (r, t) \<Rightarrow>
             case cache_finish k f r c of
               Inl e \<Rightarrow> (Inl e, \<lparr>cd_cache = c, cd_inner = t\<rparr>)
             | Inr c \<Rightarrow> (r, \<lparr>cd_cache = c, cd_inner = t\<rparr>)))"

definition cached_get :: "'s store_ops \<Rightarrow> string \<Rightarrow> ('s cached, bytes) io" where
  "cached_get ops key s =
     (if \<not> cacheable (cd_cache s) key then on_inner (st_get ops key) s
      else cache_read (whole_key key) (st_get ops key) s)"

text \<open>\<open>cut\<close>: a range of a value that was read whole.\<close>

definition cut_range :: "bytes \<Rightarrow> int \<Rightarrow> int \<Rightarrow> bytes res" where
  "cut_range b offset len =
     (let sz = int (length b);
          offset = (if offset < 0 then wrap64 (offset + sz) else offset)
      in if offset < 0 \<or> len < 0 \<or> offset > sz \<or> len > sz - offset then Inl (ErrOther ''range'')
         else Inr (take (nat len) (drop (nat offset) b)))"

definition cache_fetch :: "'s store_ops \<Rightarrow> string \<Rightarrow> int \<Rightarrow> int \<Rightarrow> ('s, bytes) io" where
  "cache_fetch ops key offset len =
     (case st_range ops of
        Some get_range \<Rightarrow> get_range key offset len
      | None \<Rightarrow> io_bind (st_get ops key) (\<lambda>b. io_lift (cut_range b offset len)))"

definition cached_range :: "'s store_ops \<Rightarrow> string \<Rightarrow> int \<Rightarrow> int \<Rightarrow> ('s cached, bytes) io" where
  "cached_range ops key offset len s =
     (if \<not> cacheable (cd_cache s) key then on_inner (cache_fetch ops key offset len) s
      else cache_read (range_key key offset len) (cache_fetch ops key offset len) s)"

definition cached_set :: "'s store_ops \<Rightarrow> string \<Rightarrow> bytes \<Rightarrow> ('s cached, unit) io" where
  "cached_set ops key v =
     io_bind (on_cache (cache_forget key)) (\<lambda>_.
     io_try (on_inner (st_set ops key v)) (\<lambda>err.
     io_bind (on_cache (cache_forget key)) (\<lambda>_. io_lift err)))"

definition cached_delete :: "'s store_ops \<Rightarrow> string \<Rightarrow> ('s cached, unit) io" where
  "cached_delete ops key =
     io_bind (on_cache (cache_forget key)) (\<lambda>_.
     io_try (on_inner (st_delete ops key)) (\<lambda>err.
     io_bind (on_cache (cache_forget key)) (\<lambda>_. io_lift err)))"

definition cached_list :: "'s store_ops \<Rightarrow> string \<Rightarrow> ('s cached, string list) io" where
  "cached_list ops p = on_inner (st_list ops p)"

definition cached_listdir :: "'s store_ops \<Rightarrow> string \<Rightarrow> ('s cached, string list) io" where
  "cached_listdir ops p = on_inner (list_dir ops p)"

definition cache_ops :: "'s store_ops \<Rightarrow> 's cached store_ops" where
  "cache_ops ops =
     \<lparr>st_get = cached_get ops, st_range = Some (cached_range ops), st_set = cached_set ops, st_delete = cached_delete ops,
      st_list = cached_list ops, st_listdir = Some (cached_listdir ops)\<rparr>"

end
