(* ===== verification/Cache_Laws.thy ===== *)
theory Cache_Laws
  imports Cache
begin

text \<open>
  The cache's list, its two indices and its count of bytes agree, and it holds no more than its size.
\<close>

section \<open>The invariant\<close>

definition cache_ok :: "cache \<Rightarrow> bool" where
  "cache_ok c \<longleftrightarrow>
     distinct (map fst (c_lru c)) \<and> (\<forall>(i, e) \<in> set (c_lru c). i < c_next c) \<and>
     (\<forall>k i. DAList.lookup (c_entries c) k = Some i \<longleftrightarrow> (\<exists>e. (i, e) \<in> set (c_lru c) \<and> ce_key e = k)) \<and>
     (\<forall>key ks. DAList.lookup (c_byKey c) key = Some ks \<longrightarrow>
        ks \<noteq> [] \<and> distinct ks \<and> set ks = {k. ck_key k = key \<and> DAList.lookup (c_entries c) k \<noteq> None}) \<and>
     (\<forall>k. DAList.lookup (c_entries c) k \<noteq> None \<longrightarrow> DAList.lookup (c_byKey c) (ck_key k) \<noteq> None) \<and>
     c_bytes c = sum_list (map (entry_size \<circ> snd) (c_lru c)) \<and> c_bytes c \<le> c_max c \<and>
     (\<forall>k f. DAList.lookup (c_flights c) k = Some f \<longrightarrow> f < length (c_flight c))"

lemma cache_okD:
  assumes "cache_ok c"
  shows "distinct (map fst (c_lru c))" "(i, e) \<in> set (c_lru c) \<Longrightarrow> i < c_next c"
    "DAList.lookup (c_entries c) k = Some i \<longleftrightarrow> (\<exists>e. (i, e) \<in> set (c_lru c) \<and> ce_key e = k)"
    "DAList.lookup (c_byKey c) key = Some ks \<Longrightarrow> ks \<noteq> [] \<and> distinct ks \<and> set ks = {k. ck_key k = key \<and> DAList.lookup (c_entries c) k \<noteq> None}"
    "DAList.lookup (c_entries c) k \<noteq> None \<Longrightarrow> DAList.lookup (c_byKey c) (ck_key k) \<noteq> None"
    "c_bytes c = sum_list (map (entry_size \<circ> snd) (c_lru c))" "c_bytes c \<le> c_max c"
    "DAList.lookup (c_flights c) k = Some f \<Longrightarrow> f < length (c_flight c)"
  using assms unfolding cache_ok_def by (blast, fast, blast, blast, blast, blast, blast, blast)

text \<open>What the cache holds.\<close>

definition kept :: "cache \<Rightarrow> cache_entry set" where
  "kept c = snd ` set (c_lru c)"

text \<open>What a change of the entries leaves as it is.\<close>

definition apart_entries :: "cache \<Rightarrow> cache \<Rightarrow> bool" where
  "apart_entries c d \<longleftrightarrow>
     c_max d = c_max c \<and> c_meta d = c_meta c \<and> c_flights d = c_flights c \<and> c_flight d = c_flight c \<and>
     c_hits d = c_hits c \<and> c_misses d = c_misses c"

lemma apart_entries_trans [trans]: "apart_entries c d \<Longrightarrow> apart_entries d e \<Longrightarrow> apart_entries c e"
  and apart_entries_refl [simp]: "apart_entries c c"
  by (simp_all add: apart_entries_def)

lemma newCache_ok: "cache_ok (newCache most meta)" "kept (newCache most meta) = {}"
  by (simp_all add: cache_ok_def newCache_def kept_def)

lemma cache_ok_lru:
  assumes "cache_ok c" "(i, e) \<in> set (c_lru c)"
  shows "map_of (c_lru c) i = Some e" "DAList.lookup (c_entries c) (ce_key e) = Some i"
  using cache_okD(1,3) [OF assms(1)] assms(2) by auto

lemma cache_ok_same_key:
  assumes "cache_ok c" "(i, e) \<in> set (c_lru c)" "(j, d) \<in> set (c_lru c)" "ce_key d = ce_key e"
  shows "j = i" "d = e"
proof -
  show "j = i" using cache_ok_lru(2) [OF assms(1,2)] cache_ok_lru(2) [OF assms(1,3)] assms(4) by simp
  then show "d = e" using cache_ok_lru(1) [OF assms(1,2)] cache_ok_lru(1) [OF assms(1,3)] by simp
qed

lemma sum_filter_key:
  assumes "distinct (map fst xs)" "(i, e) \<in> set xs"
  shows "sum_list (map (entry_size \<circ> snd) (filter (\<lambda>(j, _). j \<noteq> i) xs)) = sum_list (map (entry_size \<circ> snd) xs) - entry_size e"
    and "length (filter (\<lambda>(j, _). j \<noteq> i) xs) = length xs - 1"
proof -
  from split_list [OF assms(2)] obtain ys zs where x: "xs = ys @ (i, e) # zs" by blast
  with assms(1) have "i \<notin> fst ` set ys" "i \<notin> fst ` set zs" by auto
  then have "filter (\<lambda>(j, _). j \<noteq> i) ys = ys" "filter (\<lambda>(j, _). j \<noteq> i) zs = zs"
    by (auto simp: filter_id_conv image_iff split: prod.splits)
  then show "sum_list (map (entry_size \<circ> snd) (filter (\<lambda>(j, _). j \<noteq> i) xs)) = sum_list (map (entry_size \<circ> snd) xs) - entry_size e"
    "length (filter (\<lambda>(j, _). j \<noteq> i) xs) = length xs - 1"
    unfolding x by simp_all
qed

section \<open>Removing\<close>

lemma cache_remove_spec:
  assumes "cache_ok c" "(i, e) \<in> set (c_lru c)"
  obtains d where "cache_remove i c = Inr d" "cache_ok d" "set (c_lru d) = set (c_lru c) - {(i, e)}"
    "length (c_lru d) = length (c_lru c) - 1" "apart_entries c d" "c_next d = c_next c"
proof -
  let ?k = "ce_key e"
  let ?by = "case DAList.lookup (c_byKey c) (ck_key ?k) of
                        None \<Rightarrow> c_byKey c
                      | Some keys \<Rightarrow>
                          let keys = removeAll ?k keys
                          in if keys = [] then DAList.delete (ck_key ?k) (c_byKey c)
                             else DAList.update (ck_key ?k) keys (c_byKey c)"
  define d where "d = c\<lparr>c_lru := filter (\<lambda>(j, _). j \<noteq> i) (c_lru c), c_entries := DAList.delete ?k (c_entries c),
     c_byKey := ?by, c_bytes := c_bytes c - entry_size e\<rparr>"
  note ok = cache_okD [OF assms(1)]
  have at: "DAList.lookup (c_entries d) k = (if k = ?k then None else DAList.lookup (c_entries c) k)" for k
    by (simp add: d_def)
  have s: "set (c_lru d) = set (c_lru c) - {(i, e)}"
  proof -
    have "(i, e') \<in> set (c_lru c) \<Longrightarrow> e' = e" for e' using eq_key_imp_eq_value [OF ok(1) assms(2)] by metis
    then have "(j, e') \<in> set (c_lru c) \<and> j \<noteq> i \<longleftrightarrow> (j, e') \<in> set (c_lru c) \<and> (j, e') \<noteq> (i, e)" for j e'
      using assms(2) by blast
    then have "{p \<in> set (c_lru c). case p of (j, _) \<Rightarrow> j \<noteq> i} = set (c_lru c) - {(i, e)}"
      by (simp only: set_eq_iff split_paired_All mem_Collect_eq case_prod_conv Diff_iff singleton_iff) blast
    then show ?thesis by (simp add: d_def)
  qed
  have "DAList.lookup (c_byKey c) (ck_key ?k) \<noteq> None" by (rule ok(5)) (simp add: cache_ok_lru(2) [OF assms])
  then obtain ks where k: "DAList.lookup (c_byKey c) (ck_key ?k) = Some ks" by blast
  note ks = ok(4) [OF k]
  have by_at: "DAList.lookup (c_byKey d) key = (if key \<noteq> ck_key ?k then DAList.lookup (c_byKey c) key
      else if removeAll ?k ks = [] then None else Some (removeAll ?k ks))" for key
    by (simp add: d_def k Let_def lookup_update)
  have "cache_ok d"
    unfolding cache_ok_def
  proof (intro conjI allI)
    show "distinct (map fst (c_lru d))" using ok(1) by (simp add: d_def distinct_map_filter)
    show "\<forall>(j, e') \<in> set (c_lru d). j < c_next d" using ok(2) unfolding s by (auto simp: d_def)
    show "(DAList.lookup (c_entries d) k = Some j) = (\<exists>e'. (j, e') \<in> set (c_lru d) \<and> ce_key e' = k)" for k j
    proof -
      have "(j, e') \<in> set (c_lru c) \<and> ce_key e' = k \<longleftrightarrow> (j, e') \<in> set (c_lru d) \<and> ce_key e' = k" if "k \<noteq> ?k" for e'
        unfolding s using that by auto
      moreover have "\<not> ((j, e') \<in> set (c_lru d) \<and> ce_key e' = ?k)" for e'
        unfolding s using cache_ok_same_key [OF assms, of j e'] by auto
      ultimately show ?thesis unfolding at using ok(3) by (cases "k = ?k") auto
    qed
    show "DAList.lookup (c_byKey d) key = Some ks' \<longrightarrow>
        ks' \<noteq> [] \<and> distinct ks' \<and> set ks' = {k. ck_key k = key \<and> DAList.lookup (c_entries d) k \<noteq> None}" for key ks'
    proof (cases "key = ck_key ?k")
      case True
      have "set (removeAll ?k ks) = {k. ck_key k = key \<and> DAList.lookup (c_entries d) k \<noteq> None}"
        unfolding at using ks True by auto
      then show ?thesis unfolding by_at using True ks by (auto simp: distinct_removeAll simp del: set_removeAll)
    next
      case False
      then have "{k. ck_key k = key \<and> DAList.lookup (c_entries d) k \<noteq> None} = {k. ck_key k = key \<and> DAList.lookup (c_entries c) k \<noteq> None}"
        unfolding at by auto
      with False show ?thesis unfolding by_at using ok(4) by simp
    qed
    show "DAList.lookup (c_entries d) k \<noteq> None \<longrightarrow> DAList.lookup (c_byKey d) (ck_key k) \<noteq> None" for k
    proof
      assume a: "DAList.lookup (c_entries d) k \<noteq> None"
      then have "k \<in> set (removeAll ?k ks)" if "ck_key k = ck_key ?k" using that ks by (auto simp: at split: if_splits)
      then show "DAList.lookup (c_byKey d) (ck_key k) \<noteq> None"
        unfolding by_at using ok(5) [of k] a by (auto simp: at simp del: set_removeAll split: if_splits)
    qed
    have "0 \<le> entry_size e" by (simp add: entry_size_def)
    then show "c_bytes d = sum_list (map (entry_size \<circ> snd) (c_lru d))" "c_bytes d \<le> c_max d"
      using ok(6,7) sum_filter_key(1) [OF ok(1) assms(2)] by (simp_all add: d_def)
    show "DAList.lookup (c_flights d) k = Some f \<longrightarrow> f < length (c_flight d)" for k f using ok(8) by (simp add: d_def)
  qed
  moreover have "cache_remove i c = Inr d"
    using cache_ok_lru(1) [OF assms] by (simp add: cache_remove_def d_def Let_def)
  ultimately show thesis
    using that s sum_filter_key(2) [OF ok(1) assms(2)] by (simp add: d_def apart_entries_def)
qed

lemma remove_keys_spec:
  "cache_ok c \<Longrightarrow> distinct ks \<Longrightarrow> \<forall>k \<in> set ks. DAList.lookup (c_entries c) k \<noteq> None \<Longrightarrow>
   \<exists>d. rfold remove_key ks c = Inr d \<and> cache_ok d \<and> set (c_lru d) = {p \<in> set (c_lru c). ce_key (snd p) \<notin> set ks} \<and> apart_entries c d"
proof (induction ks arbitrary: c)
  case (Cons k ks)
  then obtain i where i: "DAList.lookup (c_entries c) k = Some i" by auto
  then obtain e where e: "(i, e) \<in> set (c_lru c)" "ce_key e = k" using cache_okD(3) [OF Cons.prems(1)] by auto
  from cache_remove_spec [OF Cons.prems(1) e(1)] obtain d where d: "cache_remove i c = Inr d" "cache_ok d"
    "set (c_lru d) = set (c_lru c) - {(i, e)}" "apart_entries c d" by metis
  have "DAList.lookup (c_entries d) k' \<noteq> None" if k': "k' \<in> set ks" for k'
  proof -
    obtain i' where i': "DAList.lookup (c_entries c) k' = Some i'" using Cons.prems(3) k' by auto
    then obtain e' where "(i', e') \<in> set (c_lru c)" "ce_key e' = k'" using cache_okD(3) [OF Cons.prems(1)] by auto
    then have "(i', e') \<in> set (c_lru d)" "ce_key e' = k'" using Cons.prems(2) k' e(2) by (auto simp: d(3))
    then have "DAList.lookup (c_entries d) k' = Some i'" using cache_okD(3) [OF d(2)] by blast
    then show ?thesis by simp
  qed
  with Cons.IH [OF d(2)] Cons.prems(2) obtain d' where d': "rfold remove_key ks d = Inr d'" "cache_ok d'"
    "set (c_lru d') = {p \<in> set (c_lru d). ce_key (snd p) \<notin> set ks}" "apart_entries d d'" by auto
  have same: "p = (i, e)" if "p \<in> set (c_lru c)" "ce_key (snd p) = k" for p
    using cache_ok_same_key [OF Cons.prems(1) e(1), of "fst p" "snd p"] that e(2) by (cases p) simp
  have "p \<in> set (c_lru d) \<longleftrightarrow> p \<in> set (c_lru c) \<and> ce_key (snd p) \<noteq> k" for p
    unfolding d(3) using e(2) same [of p] by (cases "p = (i, e)") (simp, simp, blast)
  then have "set (c_lru d') = {p \<in> set (c_lru c). ce_key (snd p) \<notin> set (k # ks)}"
    by (simp add: d'(3) conj_assoc)
  then show ?case using d(1) d' apart_entries_trans [OF d(4) d'(4)] by (intro exI [of _ d']) (simp add: remove_key_def [of k c] i)
qed simp

section \<open>Putting\<close>

lemma make_room_spec:
  "cache_ok c \<Longrightarrow> sz \<le> c_max c \<Longrightarrow> length (c_lru c) = n \<Longrightarrow>
   \<exists>d. make_room n sz c = Inr d \<and> cache_ok d \<and> set (c_lru d) \<subseteq> set (c_lru c) \<and> apart_entries c d \<and> c_next d = c_next c \<and>
     c_bytes d + sz \<le> c_max d"
proof (induction n arbitrary: c)
  case 0
  then have "c_bytes c = 0" using cache_okD(6) by simp
  with 0 show ?case by simp
next
  case (Suc n)
  show ?case
  proof (cases "c_bytes c + sz \<le> c_max c")
    case False
    have ne: "c_lru c \<noteq> []" using Suc.prems(3) by auto
    obtain i e where l: "last (c_lru c) = (i, e)" by fastforce
    with ne have "(i, e) \<in> set (c_lru c)" by (metis last_in_set)
    from cache_remove_spec [OF Suc.prems(1) this] obtain d where d: "cache_remove i c = Inr d" "cache_ok d"
      "set (c_lru d) = set (c_lru c) - {(i, e)}" "length (c_lru d) = length (c_lru c) - 1" "apart_entries c d" "c_next d = c_next c" by metis
    have "sz \<le> c_max d" "length (c_lru d) = n" using d Suc.prems by (simp_all add: apart_entries_def)
    from Suc.IH [OF d(2) this] obtain d' where d': "make_room n sz d = Inr d'" "cache_ok d'" "set (c_lru d') \<subseteq> set (c_lru d)" "apart_entries d d'"
      "c_next d' = c_next d" "c_bytes d' + sz \<le> c_max d'" by blast
    then show ?thesis using False ne d l apart_entries_trans [OF d(5) d'(4)] by (intro exI [of _ d']) auto
  qed (use Suc.prems in auto)
qed

lemma cache_add_ok:
  assumes "cache_ok c" "DAList.lookup (c_entries c) (ce_key e) = None" "c_bytes c + entry_size e \<le> c_max c"
    and "keys = (case DAList.lookup (c_byKey c) (ck_key (ce_key e)) of None \<Rightarrow> [] | Some keys \<Rightarrow> keys)"
  shows "cache_ok (c\<lparr>c_lru := (c_next c, e) # c_lru c, c_next := Suc (c_next c),
     c_entries := DAList.update (ce_key e) (c_next c) (c_entries c),
     c_byKey := DAList.update (ck_key (ce_key e)) (List.insert (ce_key e) keys) (c_byKey c),
     c_bytes := c_bytes c + entry_size e\<rparr>)" (is "cache_ok ?d")
  unfolding cache_ok_def
proof (intro conjI allI)
  note ok = cache_okD [OF assms(1)]
  let ?k = "ce_key e"
  have at: "DAList.lookup (c_entries ?d) k = (if k = ?k then Some (c_next c) else DAList.lookup (c_entries c) k)" for k
    by (simp add: lookup_update)
  have by_at: "DAList.lookup (c_byKey ?d) key = (if key = ck_key ?k then Some (List.insert ?k keys) else DAList.lookup (c_byKey c) key)" for key
    by (simp add: lookup_update)
  have fresh: "c_next c \<notin> fst ` set (c_lru c)" using ok(2) by fastforce
  show "distinct (map fst (c_lru ?d))" using ok(1) fresh by simp
  show "\<forall>(i, e') \<in> set (c_lru ?d). i < c_next ?d" using ok(2) by (auto simp: less_Suc_eq)
  show "(DAList.lookup (c_entries ?d) k = Some i) = (\<exists>e'. (i, e') \<in> set (c_lru ?d) \<and> ce_key e' = k)" for k i
  proof -
    have "\<not> (\<exists>e'. (i, e') \<in> set (c_lru c) \<and> ce_key e' = ?k)" using ok(3) [of ?k i] assms(2) by simp
    then show ?thesis unfolding at using ok(3) [of k i] by (auto simp del: split_paired_Ex)
  qed
  have ks: "distinct keys" "set keys = {k. ck_key k = ck_key ?k \<and> DAList.lookup (c_entries c) k \<noteq> None}"
  proof -
    have "distinct keys \<and> set keys = {k. ck_key k = ck_key ?k \<and> DAList.lookup (c_entries c) k \<noteq> None}"
    proof (cases "DAList.lookup (c_byKey c) (ck_key ?k)")
      case None
      then have "\<not> (ck_key k = ck_key ?k \<and> DAList.lookup (c_entries c) k \<noteq> None)" for k using ok(5) [of k] by metis
      then show ?thesis using None assms(4) by simp
    next
      case (Some ks)
      then show ?thesis using ok(4) assms(4) by simp
    qed
    then show "distinct keys" "set keys = {k. ck_key k = ck_key ?k \<and> DAList.lookup (c_entries c) k \<noteq> None}" by blast+
  qed
  show "DAList.lookup (c_byKey ?d) key = Some ks' \<longrightarrow>
      ks' \<noteq> [] \<and> distinct ks' \<and> set ks' = {k. ck_key k = key \<and> DAList.lookup (c_entries ?d) k \<noteq> None}" for key ks'
  proof (cases "key = ck_key ?k")
    case True
    have "List.insert ?k keys \<noteq> []"
    proof
      assume "List.insert ?k keys = []"
      then have "set (List.insert ?k keys) = {}" by (simp only: list.set)
      then show False by simp
    qed
    moreover have "set (List.insert ?k keys) = {k. ck_key k = key \<and> DAList.lookup (c_entries ?d) k \<noteq> None}"
      unfolding at using ks True by auto
    moreover have "distinct (List.insert ?k keys)" using ks(1) by simp
    moreover have "DAList.lookup (c_byKey ?d) key = Some (List.insert ?k keys)" unfolding by_at using True by (rule if_P)
    ultimately show ?thesis by (metis option.inject)
  next
    case False
    then have "{k. ck_key k = key \<and> DAList.lookup (c_entries ?d) k \<noteq> None} = {k. ck_key k = key \<and> DAList.lookup (c_entries c) k \<noteq> None}"
      unfolding at by auto
    with False show ?thesis unfolding by_at using ok(4) by simp
  qed
  show "DAList.lookup (c_entries ?d) k \<noteq> None \<longrightarrow> DAList.lookup (c_byKey ?d) (ck_key k) \<noteq> None" for k
    unfolding by_at at using ok(5) [of k] by simp
  show "c_bytes ?d = sum_list (map (entry_size \<circ> snd) (c_lru ?d))" "c_bytes ?d \<le> c_max ?d"
    using ok(6) assms(3) by simp_all
  show "DAList.lookup (c_flights ?d) k = Some f \<longrightarrow> f < length (c_flight ?d)" for k f using ok(8) by simp
qed

lemma cache_put_spec:
  assumes "cache_ok c"
  shows "\<exists>d. cache_put e c = Inr d \<and> cache_ok d \<and> apart_entries c d \<and> kept d \<subseteq> insert e (kept c) \<and>
     (entry_size e \<le> c_max c \<longrightarrow> e \<in> kept d)"
proof (cases "entry_size e > c_max c")
  case True
  then show ?thesis using assms by (auto simp: cache_put_def Let_def)
next
  case False
  let ?k = "ce_key e"
  obtain d where d: "(case DAList.lookup (c_entries c) ?k of None \<Rightarrow> Inr c | Some old \<Rightarrow> cache_remove old c) = Inr d"
    "cache_ok d" "set (c_lru d) \<subseteq> set (c_lru c)" "apart_entries c d" "DAList.lookup (c_entries d) ?k = None"
  proof (cases "DAList.lookup (c_entries c) ?k")
    case None
    then show thesis using that [of c] assms by simp
  next
    case (Some i)
    then obtain e' where e': "(i, e') \<in> set (c_lru c)" "ce_key e' = ?k" using cache_okD(3) [OF assms] by auto
    from cache_remove_spec [OF assms e'(1)] obtain d where d: "cache_remove i c = Inr d" "cache_ok d"
      "set (c_lru d) = set (c_lru c) - {(i, e')}" "apart_entries c d" by metis
    have "DAList.lookup (c_entries d) ?k \<noteq> Some j" for j
    proof
      assume "DAList.lookup (c_entries d) ?k = Some j"
      then obtain f where "(j, f) \<in> set (c_lru c)" "(j, f) \<noteq> (i, e')" "ce_key f = ?k" using cache_okD(3) [OF d(2)] by (auto simp: d(3))
      then show False using cache_ok_same_key [OF assms e'(1), of j f] e'(2) by simp
    qed
    then have "DAList.lookup (c_entries d) ?k = None" by (metis option.exhaust)
    moreover have "set (c_lru d) \<subseteq> set (c_lru c)" unfolding d(3) by (rule Diff_subset)
    ultimately show thesis using that [of d] d(1,2,4) Some by simp
  qed
  have "entry_size e \<le> c_max d" using False d(4) by (simp add: apart_entries_def)
  from make_room_spec [OF d(2) this refl] obtain r where r: "make_room (length (c_lru d)) (entry_size e) d = Inr r" "cache_ok r"
    "set (c_lru r) \<subseteq> set (c_lru d)" "apart_entries d r" "c_bytes r + entry_size e \<le> c_max r" by blast
  have "DAList.lookup (c_entries r) ?k \<noteq> Some j" for j
  proof
    assume "DAList.lookup (c_entries r) ?k = Some j"
    then obtain f where "(j, f) \<in> set (c_lru d)" "ce_key f = ?k" using cache_okD(3) [OF r(2)] r(3) by auto
    then show False using cache_ok_lru(2) [OF d(2)] d(5) by fastforce
  qed
  then have n: "DAList.lookup (c_entries r) ?k = None" by (metis option.exhaust)
  let ?keys = "case DAList.lookup (c_byKey r) (ck_key ?k) of None \<Rightarrow> [] | Some keys \<Rightarrow> keys"
  define t where "t = r\<lparr>c_lru := (c_next r, e) # c_lru r, c_next := Suc (c_next r),
     c_entries := DAList.update ?k (c_next r) (c_entries r),
     c_byKey := DAList.update (ck_key ?k) (List.insert ?k ?keys) (c_byKey r),
     c_bytes := c_bytes r + entry_size e\<rparr>"
  have "cache_ok t" unfolding t_def by (rule cache_add_ok [OF r(2) n r(5) refl])
  moreover have "cache_put e c = Inr t" using False d(1) r(1) by (simp add: cache_put_def Let_def t_def)
  moreover have "apart_entries c t" using d(4) r(4) by (simp add: apart_entries_def t_def)
  moreover have "kept t = insert e (kept r)" by (simp add: kept_def t_def)
  moreover have "kept r \<subseteq> kept c" unfolding kept_def using r(3) d(3) by (intro image_mono) blast
  ultimately show ?thesis by (intro exI [of _ t]) auto
qed

section \<open>Forgetting\<close>

lemma lookup_filter: "DAList.lookup (DAList.filter P al) k = (case DAList.lookup al k of None \<Rightarrow> None | Some v \<Rightarrow> if P (k, v) then Some v else None)"
proof (transfer, goal_cases)
  case (1 P al k)
  have m: "map_of (filter P al) k = Some v \<longleftrightarrow> map_of al k = Some v \<and> P (k, v)" for v
    using 1 by (simp add: map_of_eq_Some_iff distinct_map_filter)
  show ?case
  proof (rule option.expand)
    show "(map_of (filter P al) k = None) = ((case map_of al k of None \<Rightarrow> None | Some v \<Rightarrow> if P (k, v) then Some v else None) = None)"
    proof -
      have "map_of (filter P al) k = None \<longleftrightarrow> (\<forall>v. \<not> (map_of al k = Some v \<and> P (k, v)))" using m by (metis not_Some_eq)
      then show ?thesis by (auto split: option.split)
    qed
    show "the (map_of (filter P al) k) = the (case map_of al k of None \<Rightarrow> None | Some v \<Rightarrow> if P (k, v) then Some v else None)"
      if "map_of (filter P al) k \<noteq> None"
    proof -
      from that obtain v where "map_of (filter P al) k = Some v" by blast
      moreover from this have "map_of al k = Some v" "P (k, v)" using m by blast+
      ultimately show ?thesis by simp
    qed
  qed
qed

lemma stale_fold:
  "length (fold (\<lambda>f fs. fs[f := (fs ! f)\<lparr>fl_stale := True\<rparr>]) hit fs) = length fs"
  "i < length fs \<Longrightarrow> fold (\<lambda>f fs. fs[f := (fs ! f)\<lparr>fl_stale := True\<rparr>]) hit fs ! i =
     (if i \<in> set hit then (fs ! i)\<lparr>fl_stale := True\<rparr> else fs ! i)"
proof (induction hit arbitrary: fs)
  case (Cons a hit)
  case 2
  then show ?case using Cons.IH(2) [of "fs[a := (fs ! a)\<lparr>fl_stale := True\<rparr>]"] by (cases "a = i") simp_all
qed simp_all

text \<open>What dropping the reads under way of some keys does.\<close>

lemma drop_flights_spec:
  "DAList.lookup (c_flights (drop_flights P c)) k = (if P (ck_key k) then None else DAList.lookup (c_flights c) k)"
  "length (c_flight (drop_flights P c)) = length (c_flight c)"
  "f < length (c_flight c) \<Longrightarrow> fl_done (c_flight (drop_flights P c) ! f) = fl_done (c_flight c ! f)"
  "f < length (c_flight c) \<Longrightarrow> fl_stale (c_flight (drop_flights P c) ! f) \<longleftrightarrow>
     fl_stale (c_flight c ! f) \<or> (\<exists>k. P (ck_key k) \<and> DAList.lookup (c_flights c) k = Some f)"
  "c_lru (drop_flights P c) = c_lru c" "c_max (drop_flights P c) = c_max c" "c_meta (drop_flights P c) = c_meta c"
proof -
  have mem: "f \<in> set (map snd (filter (\<lambda>(k, f). P (ck_key k)) (DAList.impl_of al))) \<longleftrightarrow> (\<exists>k. P (ck_key k) \<and> DAList.lookup al k = Some f)" for f al
  proof -
    have l: "DAList.lookup al k = Some f \<longleftrightarrow> (k, f) \<in> set (DAList.impl_of al)" for k
      using impl_of [of al] by (simp add: DAList.lookup_def)
    have "f \<in> set (map snd (filter (\<lambda>(k, f). P (ck_key k)) (DAList.impl_of al))) \<longleftrightarrow> (\<exists>k. (k, f) \<in> set (DAList.impl_of al) \<and> P (ck_key k))"
      by force
    then show ?thesis unfolding l by blast
  qed
  show "f < length (c_flight c) \<Longrightarrow> fl_stale (c_flight (drop_flights P c) ! f) \<longleftrightarrow>
     fl_stale (c_flight c ! f) \<or> (\<exists>k. P (ck_key k) \<and> DAList.lookup (c_flights c) k = Some f)"
    by (simp add: drop_flights_def Let_def stale_fold mem del: set_map set_filter) blast
qed (simp_all add: drop_flights_def Let_def stale_fold lookup_filter split: option.split)

lemma drop_flights_ok: "cache_ok c \<Longrightarrow> cache_ok (drop_flights P c)"
  using drop_flights_spec(1,2) [of P c] unfolding cache_ok_def by (simp add: drop_flights_def Let_def)

lemma kept_drop [simp]: "kept (drop_flights P c) = kept c"
  by (simp add: kept_def drop_flights_spec)

lemma cache_forget_spec:
  assumes "cache_ok c"
  shows "\<exists>e. cache_forget key c = Inr (drop_flights (\<lambda>k. k = key) e) \<and> cache_ok e \<and> apart_entries c e \<and>
    kept e = {x \<in> kept c. ck_key (ce_key x) \<noteq> key}"
proof -
  let ?ks = "case DAList.lookup (c_byKey c) key of None \<Rightarrow> [] | Some keys \<Rightarrow> keys"
  have ks: "distinct ?ks \<and> set ?ks = {k. ck_key k = key \<and> DAList.lookup (c_entries c) k \<noteq> None}"
  proof (cases "DAList.lookup (c_byKey c) key")
    case None
    then have "\<not> (ck_key k = key \<and> DAList.lookup (c_entries c) k \<noteq> None)" for k using cache_okD(5) [OF assms, of k] by metis
    then show ?thesis using None by simp
  next
    case (Some ks)
    then show ?thesis using cache_okD(4) [OF assms] by simp
  qed
  then obtain d where d: "rfold remove_key ?ks c = Inr d" "cache_ok d" "set (c_lru d) = {p \<in> set (c_lru c). ce_key (snd p) \<notin> set ?ks}" "apart_entries c d"
    using remove_keys_spec [OF assms, of ?ks] by blast
  have "ce_key (snd p) \<in> set ?ks \<longleftrightarrow> ck_key (ce_key (snd p)) = key" if "p \<in> set (c_lru c)" for p
    using ks cache_ok_lru(2) [OF assms, of "fst p" "snd p"] that by simp
  then have "set (c_lru d) = {p \<in> set (c_lru c). ck_key (ce_key (snd p)) \<noteq> key}" unfolding d(3) by blast
  then have "kept d = {x \<in> kept c. ck_key (ce_key x) \<noteq> key}" unfolding kept_def by auto
  then show ?thesis using d(1,2,4) by (intro exI [of _ d]) (simp add: cache_forget_def)
qed

end
