(* ===== verification/Cache_Ops.thy ===== *)
theory Cache_Ops
  imports Cache_Laws
begin

text \<open>
  What a read does to a cache under its mutex, and that one goroutine's operations on a store behind a cache are
  those of the store.
\<close>

section \<open>Looking and finishing\<close>

lemma cache_look_spec:
  assumes "cache_ok c"
  obtains (hit) d e where "cache_look att k c = Inr (Hit (cache_answer (ce_value e) (ce_missing e)), d)" "cache_ok d" "kept d = kept c"
      "e \<in> kept c" "ce_key e = k" "c_max d = c_max c" "c_meta d = c_meta c" "c_flights d = c_flights c" "c_flight d = c_flight c"
    | (join) f where "cache_look att k c = Inr (Join f, c)" "DAList.lookup (c_flights c) k = Some f" "att < 3"
    | (lead) d where "cache_look att k c = Inr (Lead (length (c_flight c)), d)" "cache_ok d" "kept d = kept c" "c_max d = c_max c" "c_meta d = c_meta c"
      "c_flights d = DAList.update k (length (c_flight c)) (c_flights c)" "c_flight d = c_flight c @ [\<lparr>fl_done = None, fl_stale = False\<rparr>]"
      "att < 3 \<Longrightarrow> DAList.lookup (c_flights c) k = None"
proof (cases "DAList.lookup (c_entries c) k")
  case (Some i)
  note ok = cache_okD [OF assms]
  obtain e where e: "(i, e) \<in> set (c_lru c)" "ce_key e = k" using ok(3) Some by blast
  note m = cache_ok_lru [OF assms e(1)]
  define d where "d = c\<lparr>c_lru := (i, e) # filter (\<lambda>(j, _). j \<noteq> i) (c_lru c), c_hits := c_hits c + 1\<rparr>"
  have s: "set (c_lru d) = set (c_lru c)"
  proof -
    have "p \<in> set (c_lru d) \<longleftrightarrow> p \<in> set (c_lru c)" for p
      using eq_key_imp_eq_value [OF ok(1) e(1), of "snd p"] e(1) by (cases p; cases "fst p = i") (auto simp: d_def)
    then show ?thesis by blast
  qed
  have "cache_ok d"
    unfolding cache_ok_def s
  proof (intro conjI allI)
    have "i \<notin> fst ` set (filter (\<lambda>(j, _). j \<noteq> i) (c_lru c))" by auto
    then show "distinct (map fst (c_lru d))" using ok(1) by (simp add: d_def distinct_map_filter)
    show "c_bytes d = sum_list (map (entry_size \<circ> snd) (c_lru d))"
      using ok(6) sum_filter_key(1) [OF ok(1) e(1)] by (simp add: d_def)
  qed (use ok in \<open>auto simp: d_def\<close>)
  moreover have "cache_look att k c = Inr (Hit (cache_answer (ce_value e) (ce_missing e)), d)"
    using Some m(1) by (simp add: cache_look_def d_def)
  moreover have "e \<in> kept c" using e(1) unfolding kept_def by force
  moreover have "kept d = kept c" unfolding kept_def s ..
  ultimately show thesis using e(2) by (intro hit [of e d]) (simp_all add: d_def)
next
  case None
  define d where "d = c\<lparr>c_flight := c_flight c @ [\<lparr>fl_done = None, fl_stale = False\<rparr>],
                   c_flights := DAList.update k (length (c_flight c)) (c_flights c), c_misses := c_misses c + 1\<rparr>"
  show thesis
  proof (cases "\<exists>f. DAList.lookup (c_flights c) k = Some f \<and> att < 3")
    case True
    then show thesis using None join by (auto simp: cache_look_def)
  next
    case False
    have "cache_ok d" using assms cache_okD(8) [OF assms] unfolding cache_ok_def d_def by (auto simp: lookup_update less_SucI)
    moreover have "cache_look att k c = Inr (Lead (length (c_flight c)), d)"
      using None False by (auto simp: cache_look_def d_def split: option.split)
    ultimately show thesis using lead [of d] False by (auto simp: d_def kept_def)
  qed
qed

text \<open>What is kept of a read that is not stale.\<close>

fun found :: "cache_key \<Rightarrow> bytes res \<Rightarrow> cache_entry set" where
  "found k (Inr v) = {\<lparr>ce_key = k, ce_value = v, ce_missing = False\<rparr>}"
| "found k (Inl e) = (if e = ErrNotFound then {\<lparr>ce_key = k, ce_value = [], ce_missing = True\<rparr>} else {})"

lemma cache_finish_spec:
  assumes "cache_ok c" "f < length (c_flight c)"
  obtains d where "cache_finish k f r c = Inr d" "cache_ok d" "c_max d = c_max c" "c_meta d = c_meta c"
    "kept d \<subseteq> kept c \<union> (if fl_stale (c_flight c ! f) then {} else found k r)"
    "c_flights d = (if DAList.lookup (c_flights c) k = Some f then DAList.delete k (c_flights c) else c_flights c)"
    "c_flight d = (c_flight c)[f := (c_flight c ! f)\<lparr>fl_done := Some r\<rparr>]"
proof -
  let ?stale = "fl_stale (c_flight c ! f)"
  define b where "b = (if DAList.lookup (c_flights c) k = Some f then c\<lparr>c_flights := DAList.delete k (c_flights c)\<rparr> else c)"
  have b: "cache_ok b" "kept b = kept c" "c_max b = c_max c" "c_meta b = c_meta c" "c_flight b = c_flight c"
    "c_flights b = (if DAList.lookup (c_flights c) k = Some f then DAList.delete k (c_flights c) else c_flights c)"
    using assms(1) by (auto simp: b_def cache_ok_def kept_def)
  define put where "put = (case r of
              Inr v \<Rightarrow> if ?stale then Inr b else cache_put \<lparr>ce_key = k, ce_value = v, ce_missing = False\<rparr> b
            | Inl e \<Rightarrow> if e = ErrNotFound \<and> \<not> ?stale then cache_put \<lparr>ce_key = k, ce_value = [], ce_missing = True\<rparr> b else Inr b)"
  obtain d where d: "put = Inr d" "cache_ok d" "apart_entries b d" "kept d \<subseteq> kept c \<union> (if ?stale then {} else found k r)"
  proof (cases "?stale \<or> (\<exists>e. r = Inl e \<and> e \<noteq> ErrNotFound)")
    case True
    then show thesis using that [of b] b by (auto simp: put_def split: sum.split)
  next
    case False
    then obtain e where e: "found k r = {e}" "put = cache_put e b" by (cases r) (auto simp: put_def)
    from cache_put_spec [OF b(1), of e] show thesis using that False unfolding e b(2) by auto
  qed
  define t where "t = d\<lparr>c_flight := (c_flight d)[f := (c_flight d ! f)\<lparr>fl_done := Some r\<rparr>]\<rparr>"
  have "cache_ok t" using d(2) by (simp add: cache_ok_def t_def)
  moreover have "cache_finish k f r c = Inr t"
    using d(1) unfolding cache_finish_def Let_def b_def [symmetric] put_def b(5) by (simp only: rbind_simps t_def)
  ultimately show thesis using that d b by (simp add: apart_entries_def t_def kept_def)
qed

section \<open>Purging\<close>

lemma rfold_nested:
  "rfold (\<lambda>(key, ks) c. if P key then rfold f ks c else Inr c) xs c = rfold f (concat (map snd (filter (P \<circ> fst) xs))) c"
proof -
  have "rfold (\<lambda>(key, ks) c. if P key then rfold f ks c else Inr c) xs = rfold f (concat (map snd (filter (P \<circ> fst) xs)))"
  proof (induction xs)
    case (Cons x xs)
    show ?case by (rule ext, cases x) (simp add: rfold_append Cons.IH)
  qed (rule ext, simp)
  then show ?thesis by simp
qed

lemma cache_forgetIf_spec:
  assumes "cache_ok c"
  shows "\<exists>e. cache_forgetIf P c = Inr (drop_flights P e) \<and> cache_ok e \<and> apart_entries c e \<and> kept e = {x \<in> kept c. \<not> P (ck_key (ce_key x))}"
proof -
  note ok = cache_okD [OF assms]
  let ?xs = "filter (P \<circ> fst) (DAList.impl_of (c_byKey c))"
  let ?ks = "concat (map snd ?xs)"
  have l: "(key, ks) \<in> set (DAList.impl_of (c_byKey c)) \<longleftrightarrow> DAList.lookup (c_byKey c) key = Some ks" for key ks
    using impl_of [of "c_byKey c"] by (simp add: DAList.lookup_def)
  have k: "k \<in> set ?ks \<longleftrightarrow> P (ck_key k) \<and> DAList.lookup (c_entries c) k \<noteq> None" for k
  proof
    assume "k \<in> set ?ks"
    then obtain key ks where "P key" "DAList.lookup (c_byKey c) key = Some ks" "k \<in> set ks" using l by auto
    with ok(4) [OF this(2)] show "P (ck_key k) \<and> DAList.lookup (c_entries c) k \<noteq> None" by simp
  next
    assume a: "P (ck_key k) \<and> DAList.lookup (c_entries c) k \<noteq> None"
    then obtain ks where b: "DAList.lookup (c_byKey c) (ck_key k) = Some ks" using ok(5) [of k] by auto
    with a ok(4) [OF b] have "k \<in> set ks" by simp
    moreover have "(ck_key k, ks) \<in> set ?xs" using l b a by simp
    ultimately show "k \<in> set ?ks" by force
  qed
  have "distinct (concat (map snd zs))" if "distinct (map fst zs)" "set zs \<subseteq> set (DAList.impl_of (c_byKey c))" for zs
    using that
  proof (induction zs)
    case (Cons z zs)
    obtain key ks where z: "z = (key, ks)" by (cases z)
    have "DAList.lookup (c_byKey c) key = Some ks" using Cons.prems(2) l by (simp add: z)
    note ks = ok(4) [OF this]
    have "ck_key k \<noteq> key" if "k \<in> set (concat (map snd zs))" for k
    proof -
      from that obtain key' ks' where b: "(key', ks') \<in> set zs" "k \<in> set ks'" by auto
      then have "DAList.lookup (c_byKey c) key' = Some ks'" using Cons.prems(2) l by auto
      from ok(4) [OF this] b have "ck_key k = key'" by simp
      moreover have "key' \<in> fst ` set zs" using b(1) by force
      ultimately show ?thesis using Cons.prems(1) z by auto
    qed
    moreover have "ck_key k = key" if "k \<in> set ks" for k using ks that by simp
    ultimately have "set ks \<inter> set (concat (map snd zs)) = {}" by blast
    then show ?case using Cons ks z by simp
  qed simp
  then have "distinct ?ks" using impl_of [of "c_byKey c"] by (simp add: distinct_map_filter)
  from remove_keys_spec [OF assms this] obtain d where d: "rfold remove_key ?ks c = Inr d" "cache_ok d"
    "set (c_lru d) = {p \<in> set (c_lru c). ce_key (snd p) \<notin> set ?ks}" "apart_entries c d" using k by blast
  have "ce_key (snd p) \<in> set ?ks \<longleftrightarrow> P (ck_key (ce_key (snd p)))" if "p \<in> set (c_lru c)" for p
    unfolding k using cache_ok_lru(2) [OF assms, of "fst p" "snd p"] that by simp
  then have "set (c_lru d) = {p \<in> set (c_lru c). \<not> P (ck_key (ce_key (snd p)))}" unfolding d(3) by blast
  then have "kept d = {x \<in> kept c. \<not> P (ck_key (ce_key x))}" unfolding kept_def by auto
  then show ?thesis using d(1,2,4) by (intro exI [of _ d]) (simp add: cache_forgetIf_def rfold_nested)
qed

section \<open>A store behind a cache\<close>

text \<open>An entry that says of a key what a store holds.\<close>

definition right :: "(string \<Rightarrow> bytes option) \<Rightarrow> cache_entry \<Rightarrow> bool" where
  "right m e \<longleftrightarrow>
     (let k = ce_key e
      in if ce_missing e then m (ck_key k) = None
         else case m (ck_key k) of
                None \<Rightarrow> False
              | Some v \<Rightarrow>
                  if ck_whole k then ce_value e = v
                  else range_in v (ck_off k) (ck_len k) \<and> ce_value e = sub_bytes v (ck_off k) (ck_len k))"

definition mirrors :: "('s \<Rightarrow> string \<Rightarrow> bytes option) \<Rightarrow> 's cached \<Rightarrow> bool" where
  "mirrors contents s \<longleftrightarrow>
     cache_ok (cd_cache s) \<and> (\<forall>k. DAList.lookup (c_flights (cd_cache s)) k = None) \<and>
     (\<forall>e \<in> kept (cd_cache s). right (contents (cd_inner s)) e)"

lemma answer_found: "ce_key e = k \<Longrightarrow> right m e \<Longrightarrow> \<forall>x \<in> found k (cache_answer (ce_value e) (ce_missing e)). right m x"
  by (cases "ce_missing e") (auto simp: cache_answer_def right_def Let_def split: option.splits)

lemma cache_read_spec:
  assumes "mirrors contents s" "cache_read k fetch s = (r, t)"
    and "\<And>q u. fetch (cd_inner s) = (q, u) \<Longrightarrow> contents u = contents (cd_inner s) \<and> (\<forall>x \<in> found k q. right (contents (cd_inner s)) x)"
  shows "mirrors contents t \<and> contents (cd_inner t) = contents (cd_inner s) \<and> (\<forall>x \<in> found k r. right (contents (cd_inner s)) x) \<and>
    ((\<exists>u. fetch (cd_inner s) = (r, u)) \<or> r = Inl ErrNotFound \<or> (\<exists>b. r = Inr b))"
proof -
  have ok: "cache_ok (cd_cache s)" and none: "\<And>k. DAList.lookup (c_flights (cd_cache s)) k = None"
    and rt: "\<And>e. e \<in> kept (cd_cache s) \<Longrightarrow> right (contents (cd_inner s)) e" using assms(1) by (auto simp: mirrors_def)
  from ok show ?thesis
  proof (cases rule: cache_look_spec [where att = 0 and k = k])
    case (hit d e)
    then have "r = cache_answer (ce_value e) (ce_missing e)" "t = s\<lparr>cd_cache := d\<rparr>" using assms(2) by (simp_all add: cache_read_def)
    then show ?thesis using hit none rt answer_found [OF hit(5) rt [OF hit(4)]]
      by (simp add: mirrors_def) (simp add: cache_answer_def)
  next
    case (join f)
    then show ?thesis using none by simp
  next
    case (lead d)
    obtain q u where q: "fetch (cd_inner s) = (q, u)" by fastforce
    let ?f = "length (c_flight (cd_cache s))"
    have "?f < length (c_flight d)" by (simp add: lead(7))
    from lead(2) this obtain d' where d': "cache_finish k ?f q d = Inr d'" "cache_ok d'"
      "kept d' \<subseteq> kept d \<union> (if fl_stale (c_flight d ! ?f) then {} else found k q)"
      "c_flights d' = (if DAList.lookup (c_flights d) k = Some ?f then DAList.delete k (c_flights d) else c_flights d)"
      by (rule cache_finish_spec [of d ?f k q]) blast
    have t: "r = q" "t = \<lparr>cd_cache = d', cd_inner = u\<rparr>" using assms(2) lead(1) q d'(1) by (simp_all add: cache_read_def)
    have "DAList.lookup (c_flights d') k' = None" for k'
      using none by (simp add: d'(4) lead(6) lookup_update)
    moreover have "right (contents (cd_inner s)) e" if "e \<in> kept d'" for e
      using d'(3) that rt assms(3) [OF q] unfolding lead(3) by (auto split: if_splits)
    ultimately show ?thesis using t d'(2) q assms(3) [OF q] by (simp add: mirrors_def)
  qed
qed

end
