(* ===== verification/Cache_Store.thy ===== *)
theory Cache_Store
  imports Cache_Ops
begin

text \<open>
  The operations of one goroutine on a store behind a cache, over any store that keeps its contract.
\<close>

definition newCachedStore :: "int \<Rightarrow> bool \<Rightarrow> 's \<Rightarrow> 's cached" where
  "newCachedStore most meta s = \<lparr>cd_cache = newCache most meta, cd_inner = s\<rparr>"

lemma newCachedStore_agrees: "mirrors contents (newCachedStore most meta s)"
  using newCache_ok [of most meta] by (simp add: mirrors_def newCachedStore_def) (simp add: newCache_def)

lemma on_inner_agrees: "mirrors contents s \<Longrightarrow> contents u = contents (cd_inner s) \<Longrightarrow> mirrors contents (s\<lparr>cd_inner := u\<rparr>)"
  by (simp add: mirrors_def)

definition fits_int64 :: "(string \<Rightarrow> bytes option) \<Rightarrow> string \<Rightarrow> bool" where
  "fits_int64 m key \<longleftrightarrow> (\<forall>v. m key = Some v \<longrightarrow> int (length v) \<le> maxInt64)"

context store_reads
begin

lemma get_found_right:
  "st_get ops key u = (q, v) \<Longrightarrow> contents v = contents u \<and> (\<forall>x \<in> found (whole_key key) q. right (contents u) x)"
  using get_contents [of key u q v] get_found [of key u _ v] get_missing [of key u v]
  by (cases q) (auto simp: right_def Let_def whole_key_def)

lemma cached_get_spec:
  assumes "mirrors contents s" "cached_get ops key s = (r, t)"
  shows "mirrors contents t \<and> contents (cd_inner t) = contents (cd_inner s) \<and>
    (case r of
       Inr b \<Rightarrow> contents (cd_inner s) key = Some b
     | Inl e \<Rightarrow> (e = ErrNotFound \<longrightarrow> contents (cd_inner s) key = None) \<and>
         (live (cd_inner s) \<and> checkKey key = Inr () \<longrightarrow> e = ErrNotFound))"
proof -
  have live: "r = Inl ErrNotFound \<or> (\<exists>b. r = Inr b)" if "st_get ops key (cd_inner s) = (r, u)" "live (cd_inner s)" "checkKey key = Inr ()" for u
    using get_live [OF that(2,3)] that(1) by (auto split: option.splits)
  show ?thesis
  proof (cases "cacheable (cd_cache s) key")
    case False
    obtain u where u: "st_get ops key (cd_inner s) = (r, u)" "t = s\<lparr>cd_inner := u\<rparr>"
      using assms(2) False by (auto simp: cached_get_def on_inner_def split: prod.splits)
    from get_found_right [OF u(1)] have "contents u = contents (cd_inner s)" ..
    then show ?thesis
      using on_inner_agrees [OF assms(1), of u] u live [OF u(1)] get_found [of key "cd_inner s" _ u] get_missing [of key "cd_inner s" u]
      by (auto split: sum.split)
  next
    case True
    then have "cache_read (whole_key key) (st_get ops key) s = (r, t)" using assms(2) by (simp add: cached_get_def)
    from cache_read_spec [OF assms(1) this get_found_right]
    show ?thesis using live by (auto simp: right_def Let_def whole_key_def split: sum.split option.splits if_splits)
  qed
qed

lemma cut_range_spec:
  assumes "in_int64 off" "in_int64 len" "int (length v) \<le> maxInt64"
  shows "cut_range v off len = (if range_in v off len then Inr (sub_bytes v off len) else Inl (ErrOther ''range''))"
  using assms wrap64_id [of "off + int (length v)"]
  by (auto simp: cut_range_def range_in_def range_at_def sub_bytes_def Let_def in_int64_def maxInt64_def minInt64_def)

lemma fetch_found_right:
  assumes "cache_fetch ops key off len u = (q, v)" "in_int64 off" "in_int64 len" "fits_int64 (contents u) key"
  shows "contents v = contents u \<and> (\<forall>x \<in> found (range_key key off len) q. right (contents u) x)"
proof (cases "st_range ops")
  case (Some f)
  then have f: "f key off len u = (q, v)" using assms(1) by (simp add: cache_fetch_def)
  show ?thesis
  proof (cases q)
    case (Inl e)
    then show ?thesis using range_contents [OF Some f] range_missing [OF Some, of key off len u v] f
      by (simp add: right_def Let_def range_key_def)
  next
    case (Inr b)
    have "\<exists>x. contents u key = Some x \<and> range_in x off len \<and> b = sub_bytes x off len"
      by (rule range_found [OF Some f [unfolded Inr] assms(2,3)]) (use assms(4) in \<open>simp add: fits_int64_def\<close>)
    then obtain x where "contents u key = Some x" "range_in x off len" "b = sub_bytes x off len" by blast
    moreover have "contents v = contents u" by (rule range_contents [OF Some f])
    ultimately show ?thesis using Inr by (simp add: right_def Let_def range_key_def)
  qed
next
  case None
  obtain p w where g: "st_get ops key u = (p, w)" by fastforce
  then have q: "q = rbind p (\<lambda>b. cut_range b off len)" "v = w"
    using assms(1) by (cases p; auto simp: cache_fetch_def io_bind_def None g)+
  have c: "contents v = contents u" using get_contents [OF g] q by simp
  show ?thesis
  proof (cases p)
    case (Inr b)
    with g have b: "contents u key = Some b" using get_found by blast
    then have "int (length b) \<le> maxInt64" using assms(4) by (simp add: fits_int64_def)
    from cut_range_spec [OF assms(2,3) this] show ?thesis using q Inr c b
      by (auto simp: right_def Let_def range_key_def)
  next
    case (Inl e)
    then show ?thesis using q c g get_missing [of key u w] by (auto simp: right_def Let_def range_key_def)
  qed
qed

lemma fetch_live:
  assumes "cache_fetch ops key off len u = (q, v)" "live u" "checkKey key = Inr ()" "in_int64 off" "in_int64 len"
    and "contents u key = Some b" "range_in b off len" "int (length b) \<le> maxInt64"
  shows "q = Inr (sub_bytes b off len)"
proof (cases "st_range ops")
  case (Some f)
  then show ?thesis using range_live [OF Some assms(2,3,6,7,8)] assms(1) by (auto simp: cache_fetch_def)
next
  case None
  then show ?thesis using get_live [OF assms(2,3)] assms(1,6,7) cut_range_spec [OF assms(4,5,8)]
    by (auto simp: cache_fetch_def io_bind_def)
qed

lemma cached_range_spec:
  assumes "mirrors contents s" "cached_range ops key off len s = (r, t)" "in_int64 off" "in_int64 len" "fits_int64 (contents (cd_inner s)) key"
  shows "mirrors contents t \<and> contents (cd_inner t) = contents (cd_inner s) \<and>
    (case r of
       Inr b \<Rightarrow> \<exists>v. contents (cd_inner s) key = Some v \<and> range_in v off len \<and> b = sub_bytes v off len
     | Inl e \<Rightarrow> (e = ErrNotFound \<longrightarrow> contents (cd_inner s) key = None) \<and>
         (live (cd_inner s) \<and> checkKey key = Inr () \<longrightarrow>
            (\<forall>v. contents (cd_inner s) key = Some v \<longrightarrow> \<not> range_in v off len)))"
proof -
  let ?m = "contents (cd_inner s)"
  have live: "\<not> range_in v off len" if "cache_fetch ops key off len (cd_inner s) = (Inl e, u)" "live (cd_inner s)" "checkKey key = Inr ()"
    "?m key = Some v" for u v e
    using fetch_live [OF that(1-3) assms(3,4) that(4)] assms(5) that(4) by (auto simp: fits_int64_def)
  have res: ?thesis if "mirrors contents t \<and> contents (cd_inner t) = ?m" "\<forall>x \<in> found (range_key key off len) r. right ?m x"
    "(\<exists>u. cache_fetch ops key off len (cd_inner s) = (r, u)) \<or> r = Inl ErrNotFound \<or> (\<exists>b. r = Inr b)"
  proof (cases r)
    case (Inr b)
    then show ?thesis using that(1,2) by (auto simp: right_def Let_def range_key_def split: option.splits)
  next
    case (Inl e)
    have "?m key = None" if "e = ErrNotFound"
      using \<open>\<forall>x \<in> found (range_key key off len) r. right ?m x\<close> that Inl by (simp add: right_def Let_def range_key_def)
    with Inl that(1,3) live show ?thesis by auto
  qed
  show ?thesis
  proof (cases "cacheable (cd_cache s) key")
    case False
    obtain u where u: "cache_fetch ops key off len (cd_inner s) = (r, u)" "t = s\<lparr>cd_inner := u\<rparr>"
      using assms(2) False by (auto simp: cached_range_def on_inner_def split: prod.splits)
    note f = fetch_found_right [OF u(1) assms(3-5)]
    have "mirrors contents t" unfolding u(2) using on_inner_agrees [OF assms(1)] f by blast
    then show ?thesis using f u by (intro res) auto
  next
    case True
    then have c: "cache_read (range_key key off len) (cache_fetch ops key off len) s = (r, t)" using assms(2) by (simp add: cached_range_def)
    from cache_read_spec [OF assms(1) c fetch_found_right [OF _ assms(3-5)]] show ?thesis by (intro res) blast+
  qed
qed

end

lemma forget_agrees:
  assumes "mirrors contents s"
  obtains t where "on_cache (cache_forget key) s = (Inr (), t)" "mirrors contents t" "cd_inner t = cd_inner s"
    "\<forall>e \<in> kept (cd_cache t). ck_key (ce_key e) \<noteq> key"
proof -
  from assms have ok: "cache_ok (cd_cache s)" by (simp add: mirrors_def)
  from cache_forget_spec [OF ok, of key] obtain e where e: "cache_forget key (cd_cache s) = Inr (drop_flights (\<lambda>k. k = key) e)"
    "cache_ok e" "apart_entries (cd_cache s) e" "kept e = {x \<in> kept (cd_cache s). ck_key (ce_key x) \<noteq> key}" by blast
  let ?t = "s\<lparr>cd_cache := drop_flights (\<lambda>k. k = key) e\<rparr>"
  have "on_cache (cache_forget key) s = (Inr (), ?t)" by (simp add: on_cache_def e(1))
  moreover have "mirrors contents ?t"
    using assms e(3,4) drop_flights_ok [OF e(2)] by (simp add: mirrors_def drop_flights_spec apart_entries_def)
  ultimately show thesis using that e(4) by simp
qed

lemma right_elsewhere: "(\<And>k. k \<noteq> key \<Longrightarrow> m' k = m k) \<Longrightarrow> ck_key (ce_key e) \<noteq> key \<Longrightarrow> right m e \<Longrightarrow> right m' e"
  by (simp add: right_def Let_def)

text \<open>A change of one key in the store, between two times that the cache forgets it.\<close>

lemma change_agrees:
  assumes "mirrors contents s"
    and "io_bind (on_cache (cache_forget key)) (\<lambda>_. io_try (on_inner f) (\<lambda>err.
      io_bind (on_cache (cache_forget key)) (\<lambda>_. io_lift err))) s = (r, t)"
    and "\<And>q u. f (cd_inner s) = (q, u) \<Longrightarrow> \<forall>k. k \<noteq> key \<longrightarrow> contents u k = contents (cd_inner s) k"
  shows "mirrors contents t \<and> f (cd_inner s) = (r, cd_inner t)"
proof -
  from forget_agrees [OF assms(1), of key] obtain s1 where s1: "on_cache (cache_forget key) s = (Inr (), s1)" "mirrors contents s1"
    "cd_inner s1 = cd_inner s" "\<forall>e \<in> kept (cd_cache s1). ck_key (ce_key e) \<noteq> key" by blast
  obtain q u where q: "f (cd_inner s) = (q, u)" by fastforce
  let ?s2 = "s1\<lparr>cd_inner := u\<rparr>"
  have "right (contents u) e" if "e \<in> kept (cd_cache s1)" for e
    using right_elsewhere [of key "contents u" "contents (cd_inner s)" e] assms(3) [OF q] s1 that by (auto simp: mirrors_def)
  then have "mirrors contents ?s2" using s1(2) by (simp add: mirrors_def)
  from forget_agrees [OF this, of key] obtain s3 where s3: "on_cache (cache_forget key) ?s2 = (Inr (), s3)" "mirrors contents s3" "cd_inner s3 = u"
    by auto
  have "r = q" "t = s3" using assms(2) s1(1,3) q s3(1) by (simp_all add: io_bind_def io_try_def on_inner_def)
  with s3 q show ?thesis by simp
qed

context store_laws
begin

lemma cached_set_spec:
  assumes "mirrors contents s" "cached_set ops key v s = (r, t)"
  shows "mirrors contents t \<and>
    contents (cd_inner t) = (case r of Inr _ \<Rightarrow> (contents (cd_inner s))(key \<mapsto> v) | Inl _ \<Rightarrow> contents (cd_inner s)) \<and>
    (live (cd_inner s) \<and> checkKey key = Inr () \<longrightarrow> r = Inr ())"
proof -
  have other: "\<forall>k. k \<noteq> key \<longrightarrow> contents u k = contents (cd_inner s) k" if "st_set ops key v (cd_inner s) = (q, u)" for q u
    using set_done [of key v "cd_inner s" _ u] set_failed [of key v "cd_inner s" _ u] that by (cases q) auto
  have "mirrors contents t \<and> st_set ops key v (cd_inner s) = (r, cd_inner t)"
    by (rule change_agrees [OF assms(1) assms(2) [unfolded cached_set_def]]) (rule other)
  then have a: "mirrors contents t" "st_set ops key v (cd_inner s) = (r, cd_inner t)" by blast+
  have "r = Inr ()" if "live (cd_inner s)" "checkKey key = Inr ()" using set_live [OF that, of v] a(2) by auto
  then show ?thesis using a set_done [of key v "cd_inner s" _ "cd_inner t"] set_failed [of key v "cd_inner s" _ "cd_inner t"]
    by (cases r) auto
qed

lemma cached_delete_spec:
  assumes "mirrors contents s" "cached_delete ops key s = (r, t)"
  shows "mirrors contents t \<and>
    contents (cd_inner t) = (case r of Inr _ \<Rightarrow> (contents (cd_inner s))(key := None) | Inl _ \<Rightarrow> contents (cd_inner s)) \<and>
    (live (cd_inner s) \<longrightarrow> r = Inr ())"
proof -
  have other: "\<forall>k. k \<noteq> key \<longrightarrow> contents u k = contents (cd_inner s) k" if "st_delete ops key (cd_inner s) = (q, u)" for q u
    using delete_done [of key "cd_inner s" _ u] delete_failed [of key "cd_inner s" _ u] that by (cases q) auto
  have "mirrors contents t \<and> st_delete ops key (cd_inner s) = (r, cd_inner t)"
    by (rule change_agrees [OF assms(1) assms(2) [unfolded cached_delete_def]]) (rule other)
  then have a: "mirrors contents t" "st_delete ops key (cd_inner s) = (r, cd_inner t)" by blast+
  have "r = Inr ()" if "live (cd_inner s)" using delete_live [OF that, of key] a(2) by auto
  then show ?thesis using a delete_done [of key "cd_inner s" _ "cd_inner t"] delete_failed [of key "cd_inner s" _ "cd_inner t"]
    by (cases r) auto
qed

end

end
