(* ===== verification/Cache_Steps.thy ===== *)
theory Cache_Steps
  imports Cache_Store
begin

text \<open>
  A cache that many goroutines use at once (\<open>CachedStore.read\<close>, \<open>Set\<close>, \<open>Delete\<close> and \<open>Purge\<close> of \<open>src/geodb/cache.go\<close>).

  What runs under \<open>mu\<close> is one step, and so are a read and a change of the store below. Between the steps of one
  goroutine any other may make steps; a read of the store may fail, and a context may be cancelled while its
  goroutine waits.
\<close>

section \<open>Goroutines\<close>

text \<open>Where a goroutine is: before it looks for the \<open>n\<close>-th time, waiting for another's read, reading the store, having
  read it, with its answer; or in a \<open>Set\<close> or a \<open>Delete\<close>, before the first \<open>forget\<close>, the change, and the second.\<close>

datatype cproc =
    AtRest
  | Looks cache_key nat
  | Waits cache_key nat nat
  | Fetches cache_key nat
  | HasFetched cache_key nat "bytes res"
  | Got "bytes res"
  | Changes string "bytes option" nat

datatype cache_event =
    Ask nat cache_key
  | Look nat
  | Wake nat bool
  | GiveUp nat
  | Fetch nat "error option"
  | Finish nat
  | Change nat string "bytes option"
  | Forget nat
  | Put nat bool
  | Purge "string list"

record cache_system =
  y_cache :: cache
  y_store :: "string \<Rightarrow> bytes option"
  y_procs :: "cproc list"

text \<open>What the store gives of a key of the cache.\<close>

definition store_gives :: "(string \<Rightarrow> bytes option) \<Rightarrow> cache_key \<Rightarrow> bytes res" where
  "store_gives m k =
     (case m (ck_key k) of
        None \<Rightarrow> Inl ErrNotFound
      | Some v \<Rightarrow>
          if ck_whole k then Inr v
          else if range_in v (ck_off k) (ck_len k) then Inr (sub_bytes v (ck_off k) (ck_len k))
          else Inl (ErrOther ''range''))"

definition goes :: "nat \<Rightarrow> cproc \<Rightarrow> cache_system \<Rightarrow> cache_system" where
  "goes p q s = s\<lparr>y_procs := (y_procs s)[p := q]\<rparr>"

definition with_cache :: "cache res \<Rightarrow> cache_system \<Rightarrow> cache_system option" where
  "with_cache r s = (case r of Inl e \<Rightarrow> None | Inr c \<Rightarrow> Some (s\<lparr>y_cache := c\<rparr>))"

definition cproc_at :: "cache_system \<Rightarrow> nat \<Rightarrow> cproc option" where
  "cproc_at s p = (if p < length (y_procs s) then Some (y_procs s ! p) else None)"

definition idle :: "cproc option \<Rightarrow> bool" where
  "idle q \<longleftrightarrow> q = Some AtRest \<or> (\<exists>r. q = Some (Got r))"

lemma idle_code [code]: "idle q = (case q of Some AtRest \<Rightarrow> True | Some (Got r) \<Rightarrow> True | _ \<Rightarrow> False)"
  by (auto simp: idle_def split: option.splits cproc.splits)

fun cache_step :: "cache_event \<Rightarrow> cache_system \<Rightarrow> cache_system option" where
  "cache_step (Ask p k) s = (if idle (cproc_at s p) then Some (goes p (Looks k 0) s) else None)"
| "cache_step (Look p) s =
     (case cproc_at s p of
        Some (Looks k att) \<Rightarrow>
          (case cache_look att k (y_cache s) of
             Inl e \<Rightarrow> None
           | Inr (Hit r, c) \<Rightarrow> Some (goes p (Got r) (s\<lparr>y_cache := c\<rparr>))
           | Inr (Join f, c) \<Rightarrow> Some (goes p (Waits k att f) (s\<lparr>y_cache := c\<rparr>))
           | Inr (Lead f, c) \<Rightarrow> Some (goes p (Fetches k f) (s\<lparr>y_cache := c\<rparr>)))
      | _ \<Rightarrow> None)"
| "cache_step (Wake p cancelled) s =
     (case cproc_at s p of
        Some (Waits k att f) \<Rightarrow>
          (case fl_done (c_flight (y_cache s) ! f) of
             None \<Rightarrow> None
           | Some (Inr v) \<Rightarrow> Some (goes p (Got (Inr v)) (s\<lparr>y_cache := (y_cache s)\<lparr>c_hits := c_hits (y_cache s) + 1\<rparr>\<rparr>))
           | Some (Inl e) \<Rightarrow>
               if e = ErrNotFound then Some (goes p (Got (Inl e)) (s\<lparr>y_cache := (y_cache s)\<lparr>c_hits := c_hits (y_cache s) + 1\<rparr>\<rparr>))
               else if e = ErrCtx \<and> \<not> cancelled then Some (goes p (Looks k (Suc att)) s)
               else Some (goes p (Got (Inl e)) s))
      | _ \<Rightarrow> None)"
| "cache_step (GiveUp p) s =
     (case cproc_at s p of Some (Waits k att f) \<Rightarrow> Some (goes p (Got (Inl ErrCtx)) s) | _ \<Rightarrow> None)"
| "cache_step (Fetch p err) s =
     (case cproc_at s p of
        Some (Fetches k f) \<Rightarrow>
          (case err of
             None \<Rightarrow> Some (goes p (HasFetched k f (store_gives (y_store s) k)) s)
           | Some e \<Rightarrow> if e = ErrNotFound then None else Some (goes p (HasFetched k f (Inl e)) s))
      | _ \<Rightarrow> None)"
| "cache_step (Finish p) s =
     (case cproc_at s p of
        Some (HasFetched k f r) \<Rightarrow> map_option (goes p (Got r)) (with_cache (cache_finish k f r (y_cache s)) s)
      | _ \<Rightarrow> None)"
| "cache_step (Change p key v) s = (if idle (cproc_at s p) then Some (goes p (Changes key v 0) s) else None)"
| "cache_step (Forget p) s =
     (case cproc_at s p of
        Some (Changes key v n) \<Rightarrow>
          if n = 0 then map_option (goes p (Changes key v 1)) (with_cache (cache_forget key (y_cache s)) s)
          else if n = 2 then map_option (goes p AtRest) (with_cache (cache_forget key (y_cache s)) s)
          else None
      | _ \<Rightarrow> None)"
| "cache_step (Put p fails) s =
     (case cproc_at s p of
        Some (Changes key v n) \<Rightarrow>
          if n \<noteq> 1 then None
          else Some (goes p (Changes key v 2) (if fails then s else s\<lparr>y_store := (y_store s)(key := v)\<rparr>))
      | _ \<Rightarrow> None)"
| "cache_step (Purge keep) s = with_cache (cache_Purge (Some (\<lambda>k. k \<in> set keep)) (y_cache s)) s"

text \<open>A look that puts its own read in the place of another's, after it waited for three that were cancelled.\<close>

definition overwrites :: "cache_event \<Rightarrow> cache_system \<Rightarrow> bool" where
  "overwrites ev s \<longleftrightarrow>
     (case ev of
        Look p \<Rightarrow>
          (case cproc_at s p of
             Some (Looks k att) \<Rightarrow>
               3 \<le> att \<and> DAList.lookup (c_entries (y_cache s)) k = None \<and> DAList.lookup (c_flights (y_cache s)) k \<noteq> None
           | _ \<Rightarrow> False)
      | _ \<Rightarrow> False)"

inductive cache_run :: "cache_system \<Rightarrow> cache_system \<Rightarrow> bool" where
  cache_start: "cache_run s s"
| cache_next: "cache_run s t \<Longrightarrow> cache_step ev t = Some u \<Longrightarrow> cache_run s u"

inductive calm_run :: "cache_system \<Rightarrow> cache_system \<Rightarrow> bool" where
  calm_start: "calm_run s s"
| calm_next: "calm_run s t \<Longrightarrow> cache_step ev t = Some u \<Longrightarrow> \<not> overwrites ev t \<Longrightarrow> calm_run s u"

fun run_events :: "cache_event list \<Rightarrow> cache_system \<Rightarrow> cache_system option" where
  "run_events [] s = Some s"
| "run_events (ev # evs) s = (case cache_step ev s of None \<Rightarrow> None | Some t \<Rightarrow> run_events evs t)"

lemma run_events_run: "run_events evs t = Some u \<Longrightarrow> cache_run s t \<Longrightarrow> cache_run s u"
  by (induction evs t rule: run_events.induct) (auto split: option.splits intro: cache_run.intros)

definition cache_system_of :: "int \<Rightarrow> (string \<Rightarrow> bytes option) \<Rightarrow> nat \<Rightarrow> cache_system" where
  "cache_system_of most m n = \<lparr>y_cache = newCache most False, y_store = m, y_procs = replicate n AtRest\<rparr>"

end
