(* ===== verification/Cache_Runs.thy ===== *)
theory Cache_Runs
  imports Cache_Steps
begin

text \<open>
  What the cache keeps is what the store has, in every run in which no read takes the place of another's.
\<close>

section \<open>The invariant\<close>

text \<open>A change of the key was made in the store, and the cache has not forgotten the key since.\<close>

definition unsettled :: "cache_system \<Rightarrow> string \<Rightarrow> bool" where
  "unsettled s key \<longleftrightarrow> (\<exists>p v. cproc_at s p = Some (Changes key v 2))"

definition leads :: "cache_system \<Rightarrow> nat \<Rightarrow> cache_key \<Rightarrow> nat \<Rightarrow> bool" where
  "leads s p k f \<longleftrightarrow> cproc_at s p = Some (Fetches k f) \<or> (\<exists>r. cproc_at s p = Some (HasFetched k f r))"

definition flight_ok :: "cache_system \<Rightarrow> nat \<Rightarrow> cache_key \<Rightarrow> nat \<Rightarrow> bool" where
  "flight_ok s p k f \<longleftrightarrow>
     f < length (c_flight (y_cache s)) \<and>
     (fl_stale (c_flight (y_cache s) ! f) \<or> DAList.lookup (c_flights (y_cache s)) k = Some f) \<and>
     (\<forall>r. cproc_at s p = Some (HasFetched k f r) \<longrightarrow>
        fl_stale (c_flight (y_cache s) ! f) \<or> unsettled s (ck_key k) \<or> (\<forall>x \<in> found k r. right (y_store s) x)) \<and>
     (\<forall>q k'. leads s q k' f \<longrightarrow> q = p)"

definition cache_system_ok :: "cache_system \<Rightarrow> bool" where
  "cache_system_ok s \<longleftrightarrow>
     cache_ok (y_cache s) \<and> (\<forall>e \<in> kept (y_cache s). right (y_store s) e \<or> unsettled s (ck_key (ce_key e))) \<and>
     (\<forall>p k f. leads s p k f \<longrightarrow> flight_ok s p k f)"

lemma cproc_at_goes: "cproc_at (goes p q s) p' = (if p' = p \<and> p < length (y_procs s) then Some q else cproc_at s p')"
  by (auto simp: cproc_at_def goes_def)

lemma goes_simps [simp]:
  "y_cache (goes p q s) = y_cache s" "y_store (goes p q s) = y_store s" "length (y_procs (goes p q s)) = length (y_procs s)"
  by (simp_all add: goes_def)

lemma cproc_at_simps [simp]:
  "cproc_at (s\<lparr>y_cache := c\<rparr>) p = cproc_at s p" "cproc_at (s\<lparr>y_store := m\<rparr>) p = cproc_at s p"
  by (simp_all add: cproc_at_def)

lemma cproc_at_length: "cproc_at s p = Some q \<Longrightarrow> p < length (y_procs s)"
  by (simp add: cproc_at_def split: if_splits)

lemma start_ok: "cache_system_ok (cache_system_of most m n)"
  using newCache_ok [of most False]
  by (auto simp: cache_system_ok_def cache_system_of_def leads_def cproc_at_def)

lemma system_okD:
  assumes "cache_system_ok s"
  shows "cache_ok (y_cache s)" "e \<in> kept (y_cache s) \<Longrightarrow> right (y_store s) e \<or> unsettled s (ck_key (ce_key e))"
    "leads s p k f \<Longrightarrow> flight_ok s p k f"
  using assms by (auto simp: cache_system_ok_def)

text \<open>A step of a goroutine that was in no change and starts no read of the store.\<close>

lemma proc_moves_ok:
  assumes "cache_system_ok s" "cproc_at s p = Some old" "\<And>key v. old \<noteq> Changes key v 2"
    and "cache_ok c" "kept c = kept (y_cache s)" "c_flights c = c_flights (y_cache s)" "c_flight c = c_flight (y_cache s)"
    and "\<And>k f. new = Fetches k f \<Longrightarrow> leads s p k f"
    and "\<And>k f r. new = HasFetched k f r \<Longrightarrow> leads s p k f \<and> (\<forall>x \<in> found k r. right (y_store s) x)"
  shows "cache_system_ok (goes p new (s\<lparr>y_cache := c\<rparr>))" (is "cache_system_ok ?t")
proof -
  note len = cproc_at_length [OF assms(2)]
  have at: "cproc_at ?t p' = (if p' = p then Some new else cproc_at s p')" for p'
    using len by (simp add: cproc_at_goes)
  have uns: "unsettled s key \<Longrightarrow> unsettled ?t key" for key
    unfolding unsettled_def at using assms(2,3) by (metis option.inject)
  have ld: "leads ?t q k f \<Longrightarrow> leads s q k f" for q k f
    unfolding leads_def at using assms(8,9) unfolding leads_def by (auto split: if_splits)
  show ?thesis
    unfolding cache_system_ok_def
  proof (intro conjI ballI allI impI)
    show "cache_ok (y_cache ?t)" using assms(4) by simp
    show "right (y_store ?t) e \<or> unsettled ?t (ck_key (ce_key e))" if "e \<in> kept (y_cache ?t)" for e
      using system_okD(2) [OF assms(1), of e] that assms(5) uns by auto
    fix q k f assume l: "leads ?t q k f"
    note o = system_okD(3) [OF assms(1) ld [OF l], unfolded flight_ok_def]
    show "flight_ok ?t q k f"
      unfolding flight_ok_def
    proof (intro conjI allI impI)
      show "f < length (c_flight (y_cache ?t))" using o assms(7) by simp
      show "fl_stale (c_flight (y_cache ?t) ! f) \<or> DAList.lookup (c_flights (y_cache ?t)) k = Some f" using o assms(6,7) by simp
      show "q' = q" if "leads ?t q' k' f" for q' k' using o ld [OF that] by blast
      fix r assume r: "cproc_at ?t q = Some (HasFetched k f r)"
      show "fl_stale (c_flight (y_cache ?t) ! f) \<or> unsettled ?t (ck_key k) \<or> (\<forall>x \<in> found k r. right (y_store ?t) x)"
      proof (cases "q = p")
        case True
        then show ?thesis using r assms(9) by (simp add: at)
      next
        case False
        then show ?thesis using r o uns assms(7) by (auto simp: at)
      qed
    qed
  qed
qed

lemma gives_found: "\<forall>x \<in> found k (store_gives m k). right m x"
  by (auto simp: store_gives_def right_def Let_def split: option.split)

lemma lead_ok:
  assumes "cache_system_ok s" "cproc_at s p = Some (Looks k att)" "cache_ok d" "kept d = kept (y_cache s)"
    and "c_flights d = DAList.update k (length (c_flight (y_cache s))) (c_flights (y_cache s))"
    and "c_flight d = c_flight (y_cache s) @ [\<lparr>fl_done = None, fl_stale = False\<rparr>]"
    and "DAList.lookup (c_flights (y_cache s)) k = None"
  shows "cache_system_ok (goes p (Fetches k (length (c_flight (y_cache s)))) (s\<lparr>y_cache := d\<rparr>))" (is "cache_system_ok ?t")
proof -
  let ?f = "length (c_flight (y_cache s))"
  note len = cproc_at_length [OF assms(2)]
  have at: "cproc_at ?t p' = (if p' = p then Some (Fetches k ?f) else cproc_at s p')" for p'
    using len by (simp add: cproc_at_goes)
  have uns: "unsettled s key \<Longrightarrow> unsettled ?t key" for key
    unfolding unsettled_def at using assms(2) by (metis cproc.distinct(21) option.inject cproc.simps)
  have ld: "leads ?t q k' f \<longleftrightarrow> (if q = p then k' = k \<and> f = ?f else leads s q k' f)" for q k' f
    unfolding leads_def at by auto
  show ?thesis
    unfolding cache_system_ok_def
  proof (intro conjI ballI allI impI)
    show "cache_ok (y_cache ?t)" using assms(3) by simp
    show "right (y_store ?t) e \<or> unsettled ?t (ck_key (ce_key e))" if "e \<in> kept (y_cache ?t)" for e
      using system_okD(2) [OF assms(1), of e] that assms(4) uns by auto
    fix q k' f assume l: "leads ?t q k' f"
    show "flight_ok ?t q k' f"
    proof (cases "q = p")
      case True
      then have kf: "k' = k" "f = ?f" using l ld by auto
      have "q' = p" if "leads ?t q' k'' ?f" for q' k''
        using that ld system_okD(3) [OF assms(1), of q' k'' ?f] by (auto simp: flight_ok_def split: if_splits)
      then show ?thesis using True kf assms(5,6) by (simp add: flight_ok_def at lookup_update)
    next
      case False
      then have "leads s q k' f" using l ld by simp
      note o = system_okD(3) [OF assms(1) this, unfolded flight_ok_def]
      have "q' = q" if "leads ?t q' k'' f" for q' k'' using that ld o by (auto split: if_splits)
      moreover have "fl_stale (c_flight d ! f) = fl_stale (c_flight (y_cache s) ! f)" using o assms(6) by (simp add: nth_append)
      moreover have "fl_stale (c_flight d ! f) \<or> DAList.lookup (c_flights d) k' = Some f"
        using o assms(5,7) calculation(2) by (auto simp: lookup_update)
      ultimately show ?thesis using o False uns assms(6) by (auto simp: flight_ok_def at)
    qed
  qed
qed

lemma finish_ok:
  assumes "cache_system_ok s" "cproc_at s p = Some (HasFetched k f r)" "cache_ok d"
    and "kept d \<subseteq> kept (y_cache s) \<union> (if fl_stale (c_flight (y_cache s) ! f) then {} else found k r)"
    and "c_flights d = (if DAList.lookup (c_flights (y_cache s)) k = Some f then DAList.delete k (c_flights (y_cache s)) else c_flights (y_cache s))"
    and "c_flight d = (c_flight (y_cache s))[f := (c_flight (y_cache s) ! f)\<lparr>fl_done := Some r\<rparr>]"
  shows "cache_system_ok (goes p (Got r) (s\<lparr>y_cache := d\<rparr>))" (is "cache_system_ok ?t")
proof -
  note len = cproc_at_length [OF assms(2)]
  have at: "cproc_at ?t p' = (if p' = p then Some (Got r) else cproc_at s p')" for p'
    using len by (simp add: cproc_at_goes)
  have uns: "unsettled ?t key \<longleftrightarrow> unsettled s key" for key
    unfolding unsettled_def at using assms(2) by (intro arg_cong [where f = Ex] ext) auto
  have ld: "leads ?t q k' f' \<longleftrightarrow> q \<noteq> p \<and> leads s q k' f'" for q k' f'
    unfolding leads_def at by auto
  have p: "leads s p k f" using assms(2) by (simp add: leads_def)
  note op = system_okD(3) [OF assms(1) p, unfolded flight_ok_def]
  show ?thesis
    unfolding cache_system_ok_def
  proof (intro conjI ballI allI impI)
    show "cache_ok (y_cache ?t)" using assms(3) by simp
    have "ce_key e = k" if "e \<in> found k r" for e using that by (cases r) (auto split: if_splits)
    then show "right (y_store ?t) e \<or> unsettled ?t (ck_key (ce_key e))" if "e \<in> kept (y_cache ?t)" for e
      using system_okD(2) [OF assms(1), of e] that assms(2,4) uns op by (auto split: if_splits)
    fix q k' f' assume "leads ?t q k' f'"
    then have l: "q \<noteq> p" "leads s q k' f'" using ld by auto
    note o = system_okD(3) [OF assms(1) l(2), unfolded flight_ok_def]
    have "f' \<noteq> f" using l op by blast
    then have fl: "c_flight d ! f' = c_flight (y_cache s) ! f'" using assms(6) by simp
    have "DAList.lookup (c_flights d) k' = Some f'" if "DAList.lookup (c_flights (y_cache s)) k' = Some f'"
      using that \<open>f' \<noteq> f\<close> assms(5) by auto
    then show "flight_ok ?t q k' f'" using o l(1) fl uns ld assms(6) by (auto simp: flight_ok_def at)
  qed
qed

text \<open>What forgetting keys does, and the goroutine that may be done with its change.\<close>

lemma forget_ok:
  assumes "cache_system_ok s" "cache_ok e" "apart_entries (y_cache s) e" "kept e = {x \<in> kept (y_cache s). \<not> P (ck_key (ce_key x))}"
    and "\<And>q. cproc_at t q = cproc_at s q \<or> (\<exists>key v n. P key \<and> cproc_at s q = Some (Changes key v n) \<and>
        (cproc_at t q = Some AtRest \<or> cproc_at t q = Some (Changes key v 1)))"
    and "y_cache t = drop_flights P e" "y_store t = y_store s"
  shows "cache_system_ok t"
proof -
  have uns: "unsettled t key" if "unsettled s key" "\<not> P key" for key
    using that assms(5) unfolding unsettled_def by (metis cproc.inject(6) option.inject)
  have ld: "leads t q k f \<longleftrightarrow> leads s q k f" "cproc_at t q = Some (HasFetched k f r) \<longleftrightarrow> cproc_at s q = Some (HasFetched k f r)" for q k f r
  proof -
    from assms(5) [of q] show "cproc_at t q = Some (HasFetched k f r) \<longleftrightarrow> cproc_at s q = Some (HasFetched k f r)"
      by (elim disjE exE conjE) simp_all
    from assms(5) [of q] show "leads t q k f \<longleftrightarrow> leads s q k f"
      unfolding leads_def by (elim disjE exE conjE) simp_all
  qed
  have same: "c_flights e = c_flights (y_cache s)" "c_flight e = c_flight (y_cache s)" using assms(3) by (simp_all add: apart_entries_def)
  show ?thesis
    unfolding cache_system_ok_def
  proof (intro conjI ballI allI impI)
    show "cache_ok (y_cache t)" using drop_flights_ok [OF assms(2)] assms(6) by simp
    show "right (y_store t) x \<or> unsettled t (ck_key (ce_key x))" if "x \<in> kept (y_cache t)" for x
      using system_okD(2) [OF assms(1), of x] that uns assms(4,6,7) by auto
    fix q k f assume l: "leads t q k f"
    note o = system_okD(3) [OF assms(1) l [unfolded ld(1)], unfolded flight_ok_def]
    have st: "fl_stale (c_flight (y_cache t) ! f) \<longleftrightarrow> fl_stale (c_flight (y_cache s) ! f) \<or>
        (\<exists>k. P (ck_key k) \<and> DAList.lookup (c_flights (y_cache s)) k = Some f)"
      using o drop_flights_spec(4) [of f e P] assms(6) same by simp
    show "flight_ok t q k f"
      unfolding flight_ok_def
    proof (intro conjI allI impI)
      show "f < length (c_flight (y_cache t))" using o drop_flights_spec(2) [of P e] assms(6) same by simp
      show "fl_stale (c_flight (y_cache t) ! f) \<or> DAList.lookup (c_flights (y_cache t)) k = Some f"
        using o st drop_flights_spec(1) [of P e k] assms(6) same by auto
      show "q' = q" if "leads t q' k' f" for q' k' using o that ld by blast
      fix r assume "cproc_at t q = Some (HasFetched k f r)"
      then show "fl_stale (c_flight (y_cache t) ! f) \<or> unsettled t (ck_key k) \<or> (\<forall>x \<in> found k r. right (y_store t) x)"
        using o st uns [of "ck_key k"] assms(7) ld(2) by metis
    qed
  qed
qed

lemma put_ok:
  assumes "cache_system_ok s" "cproc_at s p = Some (Changes key v 1)" "m = y_store s \<or> m = (y_store s)(key := v)"
  shows "cache_system_ok (goes p (Changes key v 2) (s\<lparr>y_store := m\<rparr>))" (is "cache_system_ok ?t")
proof -
  note len = cproc_at_length [OF assms(2)]
  have at: "cproc_at ?t p' = (if p' = p then Some (Changes key v 2) else cproc_at s p')" for p'
    using len by (simp add: cproc_at_goes)
  have uns: "unsettled s key' \<Longrightarrow> unsettled ?t key'" "unsettled ?t key" for key'
    unfolding unsettled_def at using assms(2) by (metis cproc.inject(6) numeral_eq_one_iff option.inject semiring_norm(85), auto)
  have r: "right (y_store ?t) x \<or> unsettled ?t (ck_key (ce_key x))" if "right (y_store s) x" for x
    using right_elsewhere [of key m "y_store s" x] that assms(3) uns(2) by (cases "ck_key (ce_key x) = key") auto
  have k: "ce_key x = k" if "x \<in> found k r" for x k r using that by (cases r) (auto split: if_splits)
  have ld: "leads ?t q k f \<longleftrightarrow> leads s q k f" "cproc_at ?t q = Some (HasFetched k f r) \<longleftrightarrow> cproc_at s q = Some (HasFetched k f r)" for q k f r
    unfolding leads_def at using assms(2) by auto
  show ?thesis
    unfolding cache_system_ok_def
  proof (intro conjI ballI allI impI)
    show "cache_ok (y_cache ?t)" using system_okD(1) [OF assms(1)] by simp
    show "right (y_store ?t) x \<or> unsettled ?t (ck_key (ce_key x))" if "x \<in> kept (y_cache ?t)" for x
      using system_okD(2) [OF assms(1), of x] that uns(1) r by auto
    fix q k f assume l: "leads ?t q k f"
    note o = system_okD(3) [OF assms(1) l [unfolded ld(1)], unfolded flight_ok_def]
    have "unsettled ?t (ck_key k) \<or> (\<forall>x \<in> found k q'. right (y_store ?t) x)" if "\<forall>x \<in> found k q'. right (y_store s) x" for q'
      using that r \<open>\<And>x k r. x \<in> found k r \<Longrightarrow> ce_key x = k\<close> by blast
    then show "flight_ok ?t q k f" using o ld uns(1) by (auto simp: flight_ok_def)
  qed
qed

end
