(* ===== verification/Cache_Theorems.thy ===== *)
theory Cache_Theorems
  imports Cache_Runs
begin

text \<open>
  The properties of the cache in front of a store.
\<close>

section \<open>Steps\<close>

lemma with_cache_Some: "with_cache r s = Some t \<longleftrightarrow> (\<exists>c. r = Inr c \<and> t = s\<lparr>y_cache := c\<rparr>)"
  by (cases r) (auto simp: with_cache_def)

lemma idle_not [simp]: "\<not> idle (Some (Changes key v n))"
  by (auto simp: idle_def)

lemma quiet_ok:
  assumes "cache_system_ok s" "cproc_at s p = Some old" "\<And>key v. old \<noteq> Changes key v 2"
    and "\<And>k f. new \<noteq> Fetches k f" "\<And>k f r. new \<noteq> HasFetched k f r"
  shows "cache_system_ok (goes p new s)" "cache_system_ok (goes p new (s\<lparr>y_cache := (y_cache s)\<lparr>c_hits := h\<rparr>\<rparr>))"
proof -
  have "cache_system_ok (goes p new (s\<lparr>y_cache := y_cache s\<rparr>))"
    by (rule proc_moves_ok [OF assms(1-3)]) (use assms(4,5) system_okD(1) [OF assms(1)] in auto)
  then show "cache_system_ok (goes p new s)" by simp
  have "cache_ok ((y_cache s)\<lparr>c_hits := h\<rparr>)" using system_okD(1) [OF assms(1)] by (simp add: cache_ok_def)
  then show "cache_system_ok (goes p new (s\<lparr>y_cache := (y_cache s)\<lparr>c_hits := h\<rparr>\<rparr>))"
    by (intro proc_moves_ok [OF assms(1-3)]) (use assms(4,5) in \<open>auto simp: kept_def\<close>)
qed

lemma calm_step_ok:
  assumes "cache_system_ok s" "cache_step ev s = Some t" "\<not> overwrites ev s"
  shows "cache_system_ok t"
proof (cases ev)
  case (Ask p k)
  with assms(2) have i: "idle (cproc_at s p)" "t = goes p (Looks k 0) s" by (auto split: if_splits)
  then obtain old where "cproc_at s p = Some old" by (auto simp: idle_def)
  with i show ?thesis by (auto intro!: quiet_ok(1) [OF assms(1)])
next
  case (Look p)
  with assms(2) obtain k att where p: "cproc_at s p = Some (Looks k att)" by (auto split: option.splits cproc.splits)
  from system_okD(1) [OF assms(1)] show ?thesis
  proof (cases rule: cache_look_spec [where att = att and k = k])
    case (hit d e)
    then have "t = goes p (Got (cache_answer (ce_value e) (ce_missing e))) (s\<lparr>y_cache := d\<rparr>)" using assms(2) Look p by simp
    then show ?thesis using hit by (auto intro!: proc_moves_ok [OF assms(1) p])
  next
    case (join f)
    then have "t = goes p (Waits k att f) (s\<lparr>y_cache := y_cache s\<rparr>)" using assms(2) Look p by simp
    then show ?thesis using quiet_ok(1) [OF assms(1) p] by simp
  next
    case (lead d)
    then have t: "t = goes p (Fetches k (length (c_flight (y_cache s)))) (s\<lparr>y_cache := d\<rparr>)" using assms(2) Look p by simp
    have "DAList.lookup (c_flights (y_cache s)) k = None"
    proof (cases "att < 3")
      case False
      have "DAList.lookup (c_entries (y_cache s)) k = None"
        using lead(1) by (auto simp: cache_look_def split: option.splits)
      with False assms(3) Look p show ?thesis by (auto simp: overwrites_def)
    qed (use lead(8) in simp)
    from lead_ok [OF assms(1) p lead(2,3,6,7) this] show ?thesis unfolding t .
  qed
next
  case (Wake p cancelled)
  with assms(2) obtain k att f where p: "cproc_at s p = Some (Waits k att f)" by (auto split: option.splits cproc.splits)
  note q = quiet_ok [OF assms(1) p]
  obtain r where r: "fl_done (c_flight (y_cache s) ! f) = Some r" using assms(2) Wake p by (auto split: option.splits)
  show ?thesis using assms(2) Wake p r q by (cases r) (auto split: if_splits)
next
  case (GiveUp p)
  with assms(2) obtain k att f where p: "cproc_at s p = Some (Waits k att f)" by (auto split: option.splits cproc.splits)
  then show ?thesis using assms(2) GiveUp quiet_ok(1) [OF assms(1) p] by auto
next
  case (Fetch p err)
  with assms(2) obtain k f where p: "cproc_at s p = Some (Fetches k f)" by (auto split: option.splits cproc.splits)
  have l: "leads s p k f" using p by (simp add: leads_def)
  have "cache_system_ok (goes p (HasFetched k f r) (s\<lparr>y_cache := y_cache s\<rparr>))" if "\<forall>x \<in> found k r. right (y_store s) x" for r
    by (rule proc_moves_ok [OF assms(1) p]) (use that l system_okD(1) [OF assms(1)] in auto)
  then show ?thesis using assms(2) Fetch p gives_found by (auto split: option.splits if_splits)
next
  case (Finish p)
  with assms(2) obtain k f r where p: "cproc_at s p = Some (HasFetched k f r)" by (auto split: option.splits cproc.splits)
  have "f < length (c_flight (y_cache s))" using system_okD(3) [OF assms(1), of p k f] p by (auto simp: leads_def flight_ok_def)
  with system_okD(1) [OF assms(1)] obtain d where d: "cache_finish k f r (y_cache s) = Inr d" "cache_ok d"
    "kept d \<subseteq> kept (y_cache s) \<union> (if fl_stale (c_flight (y_cache s) ! f) then {} else found k r)"
    "c_flights d = (if DAList.lookup (c_flights (y_cache s)) k = Some f then DAList.delete k (c_flights (y_cache s)) else c_flights (y_cache s))"
    "c_flight d = (c_flight (y_cache s))[f := (c_flight (y_cache s) ! f)\<lparr>fl_done := Some r\<rparr>]"
    by (rule cache_finish_spec [where k = k and r = r]) blast
  have "t = goes p (Got r) (s\<lparr>y_cache := d\<rparr>)" using assms(2) Finish p d(1) by (simp add: with_cache_def)
  then show ?thesis using finish_ok [OF assms(1) p d(2-5)] by simp
next
  case (Change p key v)
  with assms(2) have i: "idle (cproc_at s p)" "t = goes p (Changes key v 0) s" by (auto split: if_splits)
  then obtain old where "cproc_at s p = Some old" by (auto simp: idle_def)
  with i show ?thesis by (auto intro!: quiet_ok(1) [OF assms(1)])
next
  case (Forget p)
  with assms(2) obtain key v n where p: "cproc_at s p = Some (Changes key v n)" by (auto split: option.splits cproc.splits)
  from cache_forget_spec [OF system_okD(1) [OF assms(1)], of key] obtain e where e:
    "cache_forget key (y_cache s) = Inr (drop_flights (\<lambda>k. k = key) e)" "cache_ok e" "apart_entries (y_cache s) e"
    "kept e = {x \<in> kept (y_cache s). ck_key (ce_key x) \<noteq> key}" by blast
  have t: "t = goes p (if n = 0 then Changes key v 1 else AtRest) (s\<lparr>y_cache := drop_flights (\<lambda>k. k = key) e\<rparr>)"
    using assms(2) Forget p e(1) by (auto simp: with_cache_def split: if_splits)
  show ?thesis
    by (rule forget_ok [OF assms(1) e(2,3), where P = "\<lambda>k. k = key"])
      (use e(4) t p cproc_at_length [OF p] in \<open>auto simp: cproc_at_goes\<close>)
next
  case (Put p fails)
  with assms(2) obtain key v n where p: "cproc_at s p = Some (Changes key v n)" by (auto split: option.splits cproc.splits)
  with assms(2) Put have "n = 1" "t = goes p (Changes key v 2) (s\<lparr>y_store := if fails then y_store s else (y_store s)(key := v)\<rparr>)"
    by (auto split: if_splits)
  then show ?thesis using put_ok [OF assms(1), of p key v] p by simp
next
  case (Purge keep)
  from cache_forgetIf_spec [OF system_okD(1) [OF assms(1)], of "\<lambda>k. k \<notin> set keep"] obtain e where e:
    "cache_forgetIf (\<lambda>k. k \<notin> set keep) (y_cache s) = Inr (drop_flights (\<lambda>k. k \<notin> set keep) e)" "cache_ok e" "apart_entries (y_cache s) e"
    "kept e = {x \<in> kept (y_cache s). \<not> ck_key (ce_key x) \<notin> set keep}" by blast
  have "t = s\<lparr>y_cache := drop_flights (\<lambda>k. k \<notin> set keep) e\<rparr>"
    using assms(2) Purge e(1) by (simp add: cache_Purge_def with_cache_def)
  then show ?thesis by (intro forget_ok [OF assms(1) e(2,3,4)]) simp_all
qed

lemma calm_run_ok: "calm_run s t \<Longrightarrow> cache_system_ok s \<Longrightarrow> cache_system_ok t"
  by (induction rule: calm_run.induct) (auto intro: calm_step_ok)

text \<open>In every run, calm or not, the cache is in order and each read of the store has its place in it.\<close>

definition run_ok :: "cache_system \<Rightarrow> bool" where
  "run_ok s \<longleftrightarrow> cache_ok (y_cache s) \<and> (\<forall>p k f. leads s p k f \<longrightarrow> f < length (c_flight (y_cache s)))"

lemma run_ok_goes:
  assumes "run_ok s" "cache_ok c" "length (c_flight (y_cache s)) \<le> length (c_flight c)"
    and "\<And>k f. new = Fetches k f \<or> (\<exists>r. new = HasFetched k f r) \<Longrightarrow> f < length (c_flight c)"
  shows "run_ok (goes p new (s\<lparr>y_cache := c, y_store := m\<rparr>))"
proof -
  let ?t = "goes p new (s\<lparr>y_cache := c, y_store := m\<rparr>)"
  have "cproc_at ?t q = (if q = p \<and> p < length (y_procs s) then Some new else cproc_at s q)" for q
    by (simp add: cproc_at_goes)
  then have "leads ?t q k f \<Longrightarrow> leads s q k f \<or> new = Fetches k f \<or> (\<exists>r. new = HasFetched k f r)" for q k f
    unfolding leads_def by (auto split: if_splits)
  then have "f < length (c_flight c)" if "leads ?t q k f" for q k f
    using assms(1,3) assms(4) [of k f] that unfolding run_ok_def by (meson less_le_trans)
  then show ?thesis using assms(2) by (simp add: run_ok_def)
qed

lemma run_step_ok:
  assumes "run_ok s" "cache_step ev s = Some t"
  shows "run_ok t"
proof -
  have ok: "cache_ok (y_cache s)" using assms(1) by (simp add: run_ok_def)
  have g: "run_ok (goes p new s)" if "\<And>k f. new = Fetches k f \<or> (\<exists>r. new = HasFetched k f r) \<Longrightarrow> f < length (c_flight (y_cache s))" for p new
  proof -
    have "run_ok (goes p new (s\<lparr>y_cache := y_cache s, y_store := y_store s\<rparr>))"
      by (rule run_ok_goes [OF assms(1) ok order_refl]) (rule that)
    then show ?thesis by simp
  qed
  have gh: "run_ok (goes p (Got r) (s\<lparr>y_cache := (y_cache s)\<lparr>c_hits := h\<rparr>\<rparr>))" for p r h
    using run_ok_goes [OF assms(1), of "(y_cache s)\<lparr>c_hits := h\<rparr>" "Got r" p "y_store s"] ok by (simp add: cache_ok_def)
  have gc: "run_ok (goes p new (s\<lparr>y_cache := drop_flights P e\<rparr>))" "run_ok (s\<lparr>y_cache := drop_flights P e\<rparr>)"
    if "cache_ok e" "apart_entries (y_cache s) e" "\<And>k f. new \<noteq> Fetches k f" "\<And>k f r. new \<noteq> HasFetched k f r" for p new P e
    using run_ok_goes [OF assms(1) drop_flights_ok [OF that(1), of P], of new p "y_store s"] that drop_flights_ok [OF that(1), of P] assms(1)
    by (auto simp: drop_flights_spec apart_entries_def run_ok_def leads_def)
  show ?thesis
  proof (cases ev)
    case (Look p)
    with assms(2) obtain k att where p: "cproc_at s p = Some (Looks k att)" by (auto split: option.splits cproc.splits)
    from ok show ?thesis
    proof (cases rule: cache_look_spec [where att = att and k = k])
      case (hit d e)
      then show ?thesis using assms(2) Look p run_ok_goes [OF assms(1) hit(2), of _ p "y_store s"] by auto
    next
      case (join f)
      then show ?thesis using assms(2) Look p g by auto
    next
      case (lead d)
      then show ?thesis using assms(2) Look p run_ok_goes [OF assms(1) lead(2), of _ p "y_store s"] by auto
    qed
  next
    case (Finish p)
    with assms(2) obtain k f r where p: "cproc_at s p = Some (HasFetched k f r)" by (auto split: option.splits cproc.splits)
    have "f < length (c_flight (y_cache s))" using assms(1) p by (auto simp: leads_def run_ok_def)
    with ok obtain d where d: "cache_finish k f r (y_cache s) = Inr d" "cache_ok d"
      "c_flight d = (c_flight (y_cache s))[f := (c_flight (y_cache s) ! f)\<lparr>fl_done := Some r\<rparr>]"
      by (rule cache_finish_spec [where k = k and r = r]) blast
    then show ?thesis using assms(2) Finish p run_ok_goes [OF assms(1) d(2), of "Got r" p "y_store s"] by (simp add: with_cache_def)
  next
    case (Forget p)
    with assms(2) obtain key v n where p: "cproc_at s p = Some (Changes key v n)" by (auto split: option.splits cproc.splits)
    from cache_forget_spec [OF ok, of key] obtain e where "cache_forget key (y_cache s) = Inr (drop_flights (\<lambda>k. k = key) e)"
      "cache_ok e" "apart_entries (y_cache s) e" by blast
    then show ?thesis using assms(2) Forget p gc(1) by (auto simp: with_cache_def split: if_splits)
  next
    case (Purge keep)
    from cache_forgetIf_spec [OF ok, of "\<lambda>k. k \<notin> set keep"] obtain e where "cache_forgetIf (\<lambda>k. k \<notin> set keep) (y_cache s) = Inr (drop_flights (\<lambda>k. k \<notin> set keep) e)"
      "cache_ok e" "apart_entries (y_cache s) e" by blast
    then show ?thesis using assms(2) Purge gc(2) [of e AtRest] by (auto simp: cache_Purge_def with_cache_def)
  next
    case (Put p fails)
    with assms(2) obtain key v n where "cproc_at s p = Some (Changes key v n)" by (auto split: option.splits cproc.splits)
    then show ?thesis using assms(2) Put g [of "Changes key v 2" p] run_ok_goes [OF assms(1) ok order_refl, of "Changes key v 2" p]
      by (auto split: if_splits)
  next
    case (Fetch p err)
    with assms(2) obtain k f where p: "cproc_at s p = Some (Fetches k f)" by (auto split: option.splits cproc.splits)
    then have "f < length (c_flight (y_cache s))" using assms(1) by (auto simp: leads_def run_ok_def)
    then show ?thesis using assms(2) Fetch p g by (auto split: option.splits if_splits)
  next
    case (Wake p cancelled)
    with assms(2) obtain k att f where "cproc_at s p = Some (Waits k att f)" by (auto split: option.splits cproc.splits)
    then show ?thesis using assms(2) Wake g gh by (auto split: option.splits sum.splits if_splits)
  next
    case (GiveUp p)
    with assms(2) obtain k att f where "cproc_at s p = Some (Waits k att f)" by (auto split: option.splits cproc.splits)
    then show ?thesis using assms(2) GiveUp g by auto
  qed (use assms(2) g in \<open>auto split: if_splits\<close>)
qed

lemma run_ok_run: "cache_run s t \<Longrightarrow> run_ok s \<Longrightarrow> run_ok t"
  by (induction rule: cache_run.induct) (auto intro: run_step_ok)

section \<open>One goroutine\<close>

text \<open>C31: a cache in front of a store is invisible to one goroutine: over any store that keeps its contract, with a cache of any
  size that agrees with it, \<open>Get\<close>, \<open>GetRange\<close>, \<open>Set\<close> and \<open>Delete\<close> give what the store would have given and do to it what
  they would have done, and the cache agrees with it again. (\<open>CachedStore\<close>.)\<close>

theorem cache_is_invisible:
  assumes "store_laws ops contents live" "mirrors contents s" "in_int64 off" "in_int64 len" "fits_int64 (contents (cd_inner s)) key"
  shows "(case st_get (cache_ops ops) key s of (r, t) \<Rightarrow>
      mirrors contents t \<and> contents (cd_inner t) = contents (cd_inner s) \<and>
      (case r of
         Inr b \<Rightarrow> contents (cd_inner s) key = Some b
       | Inl e \<Rightarrow> (e = ErrNotFound \<longrightarrow> contents (cd_inner s) key = None) \<and>
           (live (cd_inner s) \<and> checkKey key = Inr () \<longrightarrow> e = ErrNotFound))) \<and>
    (case the (st_range (cache_ops ops)) key off len s of (r, t) \<Rightarrow>
      mirrors contents t \<and> contents (cd_inner t) = contents (cd_inner s) \<and>
      (case r of
         Inr b \<Rightarrow> \<exists>v. contents (cd_inner s) key = Some v \<and> range_in v off len \<and> b = sub_bytes v off len
       | Inl e \<Rightarrow> (e = ErrNotFound \<longrightarrow> contents (cd_inner s) key = None) \<and>
           (live (cd_inner s) \<and> checkKey key = Inr () \<longrightarrow>
              (\<forall>v. contents (cd_inner s) key = Some v \<longrightarrow> \<not> range_in v off len)))) \<and>
    (case st_set (cache_ops ops) key v s of (r, t) \<Rightarrow>
      mirrors contents t \<and>
      contents (cd_inner t) = (case r of Inr _ \<Rightarrow> (contents (cd_inner s))(key \<mapsto> v) | Inl _ \<Rightarrow> contents (cd_inner s)) \<and>
      (live (cd_inner s) \<and> checkKey key = Inr () \<longrightarrow> r = Inr ())) \<and>
    (case st_delete (cache_ops ops) key s of (r, t) \<Rightarrow>
      mirrors contents t \<and>
      contents (cd_inner t) = (case r of Inr _ \<Rightarrow> (contents (cd_inner s))(key := None) | Inl _ \<Rightarrow> contents (cd_inner s)) \<and>
      (live (cd_inner s) \<longrightarrow> r = Inr ()))"
proof -
  note l = assms(1) and r = store_laws.axioms(1) [OF assms(1)]
  show ?thesis
  proof (intro conjI)
  qed (rule case_prodI2,
      (rule store_reads.cached_get_spec [OF r assms(2)] store_reads.cached_range_spec [OF r assms(2) _ assms(3-5)]
        store_laws.cached_set_spec [OF l assms(2)] store_laws.cached_delete_spec [OF l assms(2)]),
      simp add: cache_ops_def)+
qed

definition demo_cached :: "memstore cached" where
  "demo_cached = newCachedStore 100 False (newMemoryStore\<lparr>entries := DAList.update ''k'' [1, 2] DAList.empty\<rparr>)"

lemma cache_is_invisible_witness:
  "fst (st_get (cache_ops memory_ops) ''k'' demo_cached) = Inr [1, 2] \<and>
   mem_contents (cd_inner (snd (st_set (cache_ops memory_ops) ''k'' [3] demo_cached))) = (mem_contents (cd_inner demo_cached))(''k'' \<mapsto> [3])"
proof -
  have m: "mem_contents (cd_inner demo_cached) = [''k'' \<mapsto> [1, 2]]" "mem_live (cd_inner demo_cached)"
    by (auto simp: mem_contents_def mem_live_def demo_cached_def newCachedStore_def newMemoryStore_def)
  have k: "checkKey ''k'' = Inr ()" by code_simp
  have a: "mirrors mem_contents demo_cached" unfolding demo_cached_def by (rule newCachedStore_agrees)
  have f: "fits_int64 (mem_contents (cd_inner demo_cached)) ''k''" by (simp add: m fits_int64_def maxInt64_def)
  show ?thesis
    using cache_is_invisible [OF memory.store_laws_axioms a _ _ f, of 0 0 "[3]"]
    by (auto simp: m k in_int64_def minInt64_def maxInt64_def split: prod.splits sum.splits)
qed

section \<open>Example runs\<close>

fun calm_events :: "cache_event list \<Rightarrow> cache_system \<Rightarrow> cache_system option" where
  "calm_events [] s = Some s"
| "calm_events (ev # evs) s =
     (if overwrites ev s then None else case cache_step ev s of None \<Rightarrow> None | Some t \<Rightarrow> calm_events evs t)"

lemma calm_events_run: "calm_events evs t = Some u \<Longrightarrow> calm_run s t \<Longrightarrow> calm_run s u"
  by (induction evs t rule: calm_events.induct) (auto split: if_splits option.splits intro: calm_run.intros)

lemma calm_run_run: "calm_run s t \<Longrightarrow> cache_run s t"
  by (induction rule: calm_run.induct) (auto intro: cache_run.intros)

lemma no_changes:
  "list_all (\<lambda>q. case q of Changes key v n \<Rightarrow> False | _ \<Rightarrow> True) (y_procs s) \<Longrightarrow> cproc_at s p \<noteq> Some (Changes key v n)"
proof
  assume "list_all (\<lambda>q. case q of Changes key v n \<Rightarrow> False | _ \<Rightarrow> True) (y_procs s)" "cproc_at s p = Some (Changes key v n)"
  then have "Changes key v n \<in> set (y_procs s)" "\<forall>q \<in> set (y_procs s). case q of Changes key v n \<Rightarrow> False | _ \<Rightarrow> True"
    by (auto simp: cproc_at_def list_all_iff in_set_conv_nth split: if_splits)
  then show False by force
qed

definition demo_key :: cache_key where
  "demo_key = whole_key ''k''"

definition one_value :: "string \<Rightarrow> bytes option" where
  "one_value = (\<lambda>k. if k = ''k'' then Some [1] else None)"

definition demo_reads :: cache_system where
  "demo_reads = the (calm_events [Ask 0 demo_key, Look 0, Fetch 0 None, Finish 0] (cache_system_of 100 one_value 2))"

lemma demo_reads_run: "calm_run (cache_system_of 100 one_value 2) demo_reads"
proof -
  have "calm_events [Ask 0 demo_key, Look 0, Fetch 0 None, Finish 0] (cache_system_of 100 one_value 2) \<noteq> None" by code_simp
  then have "calm_events [Ask 0 demo_key, Look 0, Fetch 0 None, Finish 0] (cache_system_of 100 one_value 2) = Some demo_reads"
    unfolding demo_reads_def by (rule option.collapse [symmetric])
  then show ?thesis by (rule calm_events_run) (rule calm_start)
qed

text \<open>
  Goroutine 1 waits for three reads that are cancelled, finds a fourth, and puts its own in its place. The fourth has
  read the old value when goroutine 5 sets a new one: the cache does not know of the fourth read any more and
  cannot mark it stale.
\<close>

definition stale_events :: "cache_event list" where
  "stale_events =
     [Ask 0 demo_key, Look 0, Ask 1 demo_key, Look 1, Fetch 0 (Some ErrCtx), Finish 0,
      Ask 2 demo_key, Look 2, Wake 1 False, Look 1, Fetch 2 (Some ErrCtx), Finish 2,
      Ask 3 demo_key, Look 3, Wake 1 False, Look 1, Fetch 3 (Some ErrCtx), Finish 3,
      Ask 4 demo_key, Look 4, Wake 1 False, Look 1, Fetch 4 None,
      Change 5 ''k'' (Some [2]), Forget 5, Put 5 False, Forget 5, Finish 4, Fetch 1 None, Finish 1]"

definition stale_system :: cache_system where
  "stale_system = the (run_events stale_events (cache_system_of 100 one_value 6))"

section \<open>Bounds\<close>

text \<open>C32: however many goroutines use it, and whatever they do, a cache holds no more bytes than its size, counts them right,
  never panics, and the list of its entries has each key once. (\<open>put\<close>, \<open>remove\<close>, \<open>forget\<close> and \<open>read\<close> of \<open>CachedStore\<close>.)\<close>

theorem cache_keeps_its_bounds:
  assumes "cache_run (cache_system_of most m n) s"
  shows "c_bytes (y_cache s) = (\<Sum>(i, e) \<leftarrow> c_lru (y_cache s). entry_size e) \<and> c_bytes (y_cache s) \<le> c_max (y_cache s) \<and>
    distinct (map (ce_key \<circ> snd) (c_lru (y_cache s))) \<and>
    (\<exists>x. cache_look att k (y_cache s) = Inr x) \<and> (\<exists>c. cache_forget key (y_cache s) = Inr c) \<and> (\<exists>c. cache_Purge keep (y_cache s) = Inr c) \<and>
    (\<exists>c. cache_put e (y_cache s) = Inr c)"
proof -
  have "run_ok (cache_system_of most m n)"
    using start_ok [of most m n] by (auto simp: run_ok_def cache_system_ok_def flight_ok_def)
  with run_ok_run [OF assms] have ok: "cache_ok (y_cache s)" by (simp add: run_ok_def)
  note o = cache_okD [OF ok]
  have "inj_on (ce_key \<circ> snd) (set (c_lru (y_cache s)))"
  proof (rule inj_onI)
    fix x y assume x: "x \<in> set (c_lru (y_cache s))" "y \<in> set (c_lru (y_cache s))" "(ce_key \<circ> snd) x = (ce_key \<circ> snd) y"
    obtain i e j d where xy: "x = (i, e)" "y = (j, d)" by (cases x; cases y) blast
    show "x = y" using cache_ok_same_key [OF ok x(1,2) [unfolded xy]] x(3) by (simp add: xy)
  qed
  moreover have "distinct (c_lru (y_cache s))" using o(1) by (simp add: distinct_map)
  ultimately have "distinct (map (ce_key \<circ> snd) (c_lru (y_cache s)))" by (simp add: distinct_map)
  moreover have "\<exists>x. cache_look att k (y_cache s) = Inr x" using ok by (cases rule: cache_look_spec [where att = att and k = k]) auto
  moreover have "c_bytes (y_cache s) = (\<Sum>(i, e) \<leftarrow> c_lru (y_cache s). entry_size e)" using o(6) by (simp add: comp_def case_prod_unfold)
  moreover have "\<exists>c. cache_Purge keep (y_cache s) = Inr c" unfolding cache_Purge_def using cache_forgetIf_spec [OF ok] by blast
  ultimately show ?thesis
    using o(7) cache_forget_spec [OF ok, of key] cache_put_spec [OF ok, of e] by blast
qed

section \<open>Many goroutines\<close>

lemma right_gives: "right m e \<Longrightarrow> cache_answer (ce_value e) (ce_missing e) = store_gives m (ce_key e)"
  by (auto simp: right_def cache_answer_def store_gives_def Let_def split: option.splits if_splits)

text \<open>C33: among any number of goroutines that read, set, delete and purge through a cache, and of which no read takes the place
  of another's, what the cache gives of a key is what the store has of it, unless a \<open>Set\<close> or a \<open>Delete\<close> of the key has
  changed the store and is about to forget the key. (\<open>CachedStore.read\<close>, \<open>Set\<close>, \<open>Delete\<close>, \<open>forget\<close>.)\<close>

theorem cache_hits_are_current:
  assumes "calm_run (cache_system_of most m n) s" "cache_look att k (y_cache s) = Inr (Hit r, d)"
    and "\<not> unsettled s (ck_key k)"
  shows "r = store_gives (y_store s) k"
proof -
  have ok: "cache_system_ok s" using calm_run_ok [OF assms(1) start_ok] .
  from system_okD(1) [OF ok] show ?thesis
  proof (cases rule: cache_look_spec [where att = att and k = k])
    case (hit d' e)
    then have "right (y_store s) e" using system_okD(2) [OF ok hit(4)] assms(3) by simp
    with hit assms(2) right_gives show ?thesis by auto
  qed (use assms(2) in auto)
qed

lemma cache_hits_are_current_witness: "store_gives (y_store demo_reads) (whole_key ''k'') = Inr [1]"
proof -
  have "cache_look 0 (whole_key ''k'') (y_cache demo_reads) =
      Inr (Hit (Inr [1]), snd (projr (cache_look 0 (whole_key ''k'') (y_cache demo_reads))))" by code_simp
  moreover have "list_all (\<lambda>q. case q of Changes key v n \<Rightarrow> False | _ \<Rightarrow> True) (y_procs demo_reads)" by code_simp
  then have "\<not> unsettled demo_reads (ck_key (whole_key ''k''))"
    using no_changes unfolding unsettled_def by blast
  ultimately show ?thesis using cache_hits_are_current [OF demo_reads_run] by fastforce
qed

lemma cache_keeps_its_bounds_witness:
  "c_bytes (y_cache demo_reads) \<le> c_max (y_cache demo_reads) \<and> (\<exists>x. cache_look 0 (whole_key ''k'') (y_cache demo_reads) = Inr x)"
  using cache_keeps_its_bounds [OF calm_run_run [OF demo_reads_run]] by blast


end
