(* ===== verification/Boxes.thy ===== *)
theory Boxes
  imports Fills
begin

text \<open>
  Points and boxes (\<open>src/geodb/geom.go\<close>) and the arithmetic of \<open>float64\<close> they use.

  A \<open>float64\<close> is its bits. \<open>magnitude\<close> orders the floats that are not NaN, the two zeros being one; a comparison
  with a NaN is false. The four operations round the exact result to nearest, ties to even, as IEEE 754 has them and
  Go on a machine that does not fuse a product and a sum. The NaN of an operation is the operand that is one, or
  the quiet NaN.

  The lemmas show that what meets a box meets every box it was added to, as long as no NaN is.
\<close>

section \<open>Floats\<close>

type_synonym f64 = "64 word"

definition f_nan :: f64 where
  "f_nan = 0x7FF8000000000000"

definition f_inf :: "bool \<Rightarrow> f64" where
  "f_inf neg = (if neg then 0xFFF0000000000000 else 0x7FF0000000000000)"

definition f_neg :: "f64 \<Rightarrow> bool" where
  "f_neg x \<longleftrightarrow> 2 ^ 63 \<le> uint x"

definition magnitude :: "f64 \<Rightarrow> int" where
  "magnitude x = (if f_neg x then 2 ^ 63 - uint x else uint x)"

definition f_le :: "f64 \<Rightarrow> f64 \<Rightarrow> bool" where
  "f_le x y \<longleftrightarrow> \<not> isNaN64 x \<and> \<not> isNaN64 y \<and> magnitude x \<le> magnitude y"

definition f_lt :: "f64 \<Rightarrow> f64 \<Rightarrow> bool" where
  "f_lt x y \<longleftrightarrow> \<not> isNaN64 x \<and> \<not> isNaN64 y \<and> magnitude x < magnitude y"

definition f_finite :: "f64 \<Rightarrow> bool" where
  "f_finite x \<longleftrightarrow> finite64 (unat x)"

text \<open>\<open>min\<close> and \<open>max\<close> of the language: a NaN if there is one, and -0 is less than +0.\<close>

definition f_min :: "f64 \<Rightarrow> f64 \<Rightarrow> f64" where
  "f_min x y =
     (if isNaN64 x then x else if isNaN64 y then y
      else if magnitude x < magnitude y then x else if magnitude y < magnitude x then y else x OR y)"

definition f_max :: "f64 \<Rightarrow> f64 \<Rightarrow> f64" where
  "f_max x y =
     (if isNaN64 x then x else if isNaN64 y then y
      else if magnitude x < magnitude y then y else if magnitude y < magnitude x then x else x AND y)"

text \<open>\<open>math.Min\<close> and \<open>math.Max\<close>, in which an infinity goes before a NaN.\<close>

definition math_Min :: "f64 \<Rightarrow> f64 \<Rightarrow> f64" where
  "math_Min x y = (if x = f_inf True \<or> y = f_inf True then f_inf True else f_min x y)"

definition math_Max :: "f64 \<Rightarrow> f64 \<Rightarrow> f64" where
  "math_Max x y = (if x = f_inf False \<or> y = f_inf False then f_inf False else f_max x y)"

text \<open>A finite float is its signed mantissa times a power of two.\<close>

definition signed_mantissa :: "f64 \<Rightarrow> int" where
  "signed_mantissa x = (if f_neg x then - int (mantissa (unat x)) else int (mantissa (unat x)))"

definition f_round :: "bool \<Rightarrow> nat \<Rightarrow> int \<Rightarrow> f64" where
  "f_round neg m e = of_nat ((if neg then 2 ^ 63 else 0) + float64_of m e)"

definition f_add :: "f64 \<Rightarrow> f64 \<Rightarrow> f64" where
  "f_add x y =
     (if isNaN64 x then x else if isNaN64 y then y
      else if \<not> f_finite x then (if \<not> f_finite y \<and> f_neg x \<noteq> f_neg y then f_nan else x)
      else if \<not> f_finite y then y
      else
        (let ex = exponent (unat x); ey = exponent (unat y); e = min ex ey;
             m = signed_mantissa x * 2 ^ nat (ex - e) + signed_mantissa y * 2 ^ nat (ey - e)
         in f_round (m < 0 \<or> m = 0 \<and> f_neg x \<and> f_neg y) (nat \<bar>m\<bar>) e))"

definition f_opposite :: "f64 \<Rightarrow> f64" where
  "f_opposite x = x XOR 0x8000000000000000"

definition f_sub :: "f64 \<Rightarrow> f64 \<Rightarrow> f64" where
  "f_sub x y = (if isNaN64 x then x else if isNaN64 y then y else f_add x (f_opposite y))"

definition f_mul :: "f64 \<Rightarrow> f64 \<Rightarrow> f64" where
  "f_mul x y =
     (let neg = (f_neg x \<noteq> f_neg y)
      in if isNaN64 x then x else if isNaN64 y then y
         else if \<not> f_finite x \<or> \<not> f_finite y then (if isZero64 x \<or> isZero64 y then f_nan else f_inf neg)
         else f_round neg (mantissa (unat x) * mantissa (unat y)) (exponent (unat x) + exponent (unat y)))"

text \<open>The quotient of the mantissas to 119 bits more, and one bit for whether there is a remainder.\<close>

definition f_div :: "f64 \<Rightarrow> f64 \<Rightarrow> f64" where
  "f_div x y =
     (let neg = (f_neg x \<noteq> f_neg y)
      in if isNaN64 x then x else if isNaN64 y then y
         else if \<not> f_finite x then (if \<not> f_finite y then f_nan else f_inf neg)
         else if \<not> f_finite y then f_round neg 0 0
         else if isZero64 y then (if isZero64 x then f_nan else f_inf neg)
         else
           (let m = mantissa (unat x) * 2 ^ 119; n = mantissa (unat y)
            in f_round neg (2 * (m div n) + (if m mod n = 0 then 0 else 1)) (exponent (unat x) - exponent (unat y) - 120)))"

text \<open>\<open>uint32(x)\<close> is the whole part of a float that it fits; \<open>other\<close> is what the machine makes of another.\<close>

definition f_to_uint32 :: "(f64 \<Rightarrow> 32 word) \<Rightarrow> f64 \<Rightarrow> 32 word" where
  "f_to_uint32 other x =
     (let m = mantissa (unat x); e = exponent (unat x); n = (if 0 \<le> e then m * 2 ^ nat e else m div 2 ^ nat (- e))
      in if f_finite x \<and> n < 2 ^ 32 \<and> (f_neg x \<longrightarrow> n = 0) then of_nat n else other x)"

section \<open>Boxes\<close>

record point =
  p_X :: f64
  p_Y :: f64

record bbox =
  b_MinX :: f64
  b_MinY :: f64
  b_MaxX :: f64
  b_MaxY :: f64

definition emptyBBox :: bbox where
  "emptyBBox = \<lparr>b_MinX = f_inf False, b_MinY = f_inf False, b_MaxX = f_inf True, b_MaxY = f_inf True\<rparr>"

definition bbox_Valid :: "bbox \<Rightarrow> bool" where
  "bbox_Valid b \<longleftrightarrow>
     f_finite (b_MinX b) \<and> f_finite (b_MinY b) \<and> f_finite (b_MaxX b) \<and> f_finite (b_MaxY b) \<and>
     f_le (b_MinX b) (b_MaxX b) \<and> f_le (b_MinY b) (b_MaxY b)"

definition bbox_Intersects :: "bbox \<Rightarrow> bbox \<Rightarrow> bool" where
  "bbox_Intersects b u \<longleftrightarrow>
     f_le (b_MinX b) (b_MaxX u) \<and> f_le (b_MinX u) (b_MaxX b) \<and>
     f_le (b_MinY b) (b_MaxY u) \<and> f_le (b_MinY u) (b_MaxY b)"

definition bbox_Contains :: "bbox \<Rightarrow> point \<Rightarrow> bool" where
  "bbox_Contains b p \<longleftrightarrow>
     f_le (b_MinX b) (p_X p) \<and> f_le (p_X p) (b_MaxX b) \<and> f_le (b_MinY b) (p_Y p) \<and> f_le (p_Y p) (b_MaxY b)"

definition bbox_extend :: "bbox \<Rightarrow> point \<Rightarrow> bbox" where
  "bbox_extend b p =
     \<lparr>b_MinX = f_min (b_MinX b) (p_X p), b_MinY = f_min (b_MinY b) (p_Y p),
      b_MaxX = f_max (b_MaxX b) (p_X p), b_MaxY = f_max (b_MaxY b) (p_Y p)\<rparr>"

definition bbox_union :: "bbox \<Rightarrow> bbox \<Rightarrow> bbox" where
  "bbox_union b u =
     \<lparr>b_MinX = f_min (b_MinX b) (b_MinX u), b_MinY = f_min (b_MinY b) (b_MinY u),
      b_MaxX = f_max (b_MaxX b) (b_MaxX u), b_MaxY = f_max (b_MaxY b) (b_MaxY u)\<rparr>"

definition bbox_center :: "bbox \<Rightarrow> point" where
  "bbox_center b =
     (let two = 0x4000000000000000
      in \<lparr>p_X = f_div (f_add (b_MinX b) (b_MaxX b)) two, p_Y = f_div (f_add (b_MinY b) (b_MaxY b)) two\<rparr>)"

section \<open>What meets a box\<close>

text \<open>A box without a NaN.\<close>

definition bbox_ok :: "bbox \<Rightarrow> bool" where
  "bbox_ok b \<longleftrightarrow> \<not> isNaN64 (b_MinX b) \<and> \<not> isNaN64 (b_MinY b) \<and> \<not> isNaN64 (b_MaxX b) \<and> \<not> isNaN64 (b_MaxY b)"

lemma f_le_trans: "f_le x y \<Longrightarrow> f_le y z \<Longrightarrow> f_le x z"
  by (auto simp: f_le_def)

lemma emptyBBox_ok [simp]: "bbox_ok emptyBBox"
  by (simp add: bbox_ok_def emptyBBox_def f_inf_def isNaN64_def)

lemma same_magnitude:
  assumes "magnitude x = magnitude y"
  shows "x = y \<or> x \<in> {0, 0x8000000000000000} \<and> y \<in> {0, 0x8000000000000000}"
proof -
  have zeros: "u = 0x8000000000000000 \<and> v = 0" if "magnitude u = magnitude v" "f_neg u" "\<not> f_neg v" for u v :: f64
  proof -
    have "uint u = 2 ^ 63" "uint v = 0"
      using that uint_ge_0 [of v] unfolding magnitude_def f_neg_def by presburger+
    then show ?thesis by (simp add: word_uint_eq_iff)
  qed
  moreover have "x = y" if "f_neg x = f_neg y"
  proof -
    have "uint x = uint y" using assms that unfolding magnitude_def by presburger
    then show ?thesis by (simp only: word_uint_eq_iff)
  qed
  moreover have ?thesis if "f_neg x" "\<not> f_neg y" using zeros [OF assms that] by simp
  moreover have ?thesis if "f_neg y" "\<not> f_neg x" using zeros [OF assms [symmetric] that] by simp
  ultimately show ?thesis by blast
qed

lemma zeros [simp]:
  "magnitude 0 = 0" "magnitude 0x8000000000000000 = 0" "\<not> isNaN64 0" "\<not> isNaN64 0x8000000000000000"
  by (simp_all add: magnitude_def f_neg_def isNaN64_def)

lemma f_min_le:
  assumes "\<not> isNaN64 x" "\<not> isNaN64 y"
  shows "f_le (f_min x y) x" "f_le (f_min x y) y"
proof -
  have "f_le (f_min x y) x \<and> f_le (f_min x y) y"
  proof (cases "magnitude x = magnitude y")
    case True
    from same_magnitude [OF this] show ?thesis
      using assms by (elim disjE) (auto simp: f_min_def f_le_def)
  qed (use assms in \<open>auto simp: f_min_def f_le_def\<close>)
  then show "f_le (f_min x y) x" "f_le (f_min x y) y" by auto
qed

lemma f_max_ge:
  assumes "\<not> isNaN64 x" "\<not> isNaN64 y"
  shows "f_le x (f_max x y)" "f_le y (f_max x y)"
proof -
  have "f_le x (f_max x y) \<and> f_le y (f_max x y)"
  proof (cases "magnitude x = magnitude y")
    case True
    from same_magnitude [OF this] show ?thesis
      using assms by (elim disjE) (auto simp: f_max_def f_le_def)
  qed (use assms in \<open>auto simp: f_max_def f_le_def\<close>)
  then show "f_le x (f_max x y)" "f_le y (f_max x y)" by auto
qed

lemma f_min_nan [simp]: "\<not> isNaN64 x \<Longrightarrow> \<not> isNaN64 y \<Longrightarrow> \<not> isNaN64 (f_min x y)"
  using f_min_le(1) [of x y] by (simp add: f_le_def)

lemma f_max_nan [simp]: "\<not> isNaN64 x \<Longrightarrow> \<not> isNaN64 y \<Longrightarrow> \<not> isNaN64 (f_max x y)"
  using f_max_ge(1) [of x y] by (simp add: f_le_def)

lemma bbox_ok_union [simp]: "bbox_ok b \<Longrightarrow> bbox_ok u \<Longrightarrow> bbox_ok (bbox_union b u)"
  by (simp add: bbox_ok_def bbox_union_def)

lemma bbox_ok_extend [simp]: "bbox_ok b \<Longrightarrow> \<not> isNaN64 (p_X p) \<Longrightarrow> \<not> isNaN64 (p_Y p) \<Longrightarrow> bbox_ok (bbox_extend b p)"
  by (simp add: bbox_ok_def bbox_extend_def)

lemma Intersects_union:
  assumes "bbox_ok b" "bbox_ok u" "bbox_Intersects b q \<or> bbox_Intersects u q"
  shows "bbox_Intersects (bbox_union b u) q"
  using assms unfolding bbox_Intersects_def bbox_union_def bbox_ok_def bbox.simps
  by (meson f_le_trans f_min_le f_max_ge)

lemma foldl_union:
  assumes "bbox_ok b" "\<forall>c \<in> set bs. bbox_ok c"
  shows "bbox_ok (foldl bbox_union b bs) \<and>
    ((\<exists>c \<in> insert b (set bs). bbox_Intersects c q) \<longrightarrow> bbox_Intersects (foldl bbox_union b bs) q)"
  using assms
proof (induction bs arbitrary: b)
  case (Cons c bs)
  then show ?case using Intersects_union [of b c q] bbox_ok_union [of b c] by auto
qed simp

end
