(* ===== verification/Trees.thy ===== *)
theory Trees
  imports Boxes
begin

text \<open>
  The packed R-tree over boxes (\<open>rtree\<close> of \<open>src/geodb/index.go\<close>): the first level is the boxes, and each box of a
  level is the union of the next sixteen of the level under it. An index out of range is a panic; a search is the
  list of what its callback is called with.

  Shown: a search calls its callback with just the items that meet the query, each once and in order, as a scan would.
\<close>

section \<open>The tree\<close>

definition nodeSize :: nat where
  "nodeSize = 16"

function pack :: "bbox list \<Rightarrow> bbox list" where
  "pack level =
     (if level = [] then []
      else foldl bbox_union emptyBBox (take nodeSize level) # pack (drop nodeSize level))"
  by auto

termination by (relation "measure length") (auto simp: nodeSize_def)

declare pack.simps [simp del]

lemma length_pack: "length (pack level) = (length level + 15) div 16"
proof (induction level rule: pack.induct)
  case (1 level)
  have "level \<noteq> [] \<Longrightarrow> Suc ((length level - 16 + 15) div 16) = (length level + 15) div 16"
    by (cases "length level \<ge> 16") (auto simp: neq_Nil_conv)
  with 1 show ?case by (simp add: pack.simps [of level] nodeSize_def)
qed

function levels_over :: "bbox list \<Rightarrow> bbox list list" where
  "levels_over level = (if length level > 1 then (let up = pack level in up # levels_over up) else [])"
  by auto

termination by (relation "measure length") (auto simp: length_pack)

declare levels_over.simps [simp del]

record rtree =
  r_levels :: "bbox list list"

definition newRTree :: "bbox list \<Rightarrow> rtree" where
  "newRTree boxes = \<lparr>r_levels = boxes # levels_over boxes\<rparr>"

definition at_index :: "'a list \<Rightarrow> nat \<Rightarrow> 'a res" where
  "at_index xs i = (if i < length xs then Inr (xs ! i) else Inl Panic)"

fun rtree_walk :: "rtree \<Rightarrow> bbox \<Rightarrow> nat \<Rightarrow> nat \<Rightarrow> nat list res" where
  "rtree_walk t q 0 node =
     rbind (at_index (r_levels t) 0) (\<lambda>boxes. rbind (at_index boxes node) (\<lambda>b.
       Inr (if bbox_Intersects b q then [node] else [])))"
| "rtree_walk t q (Suc level) node =
     rbind (at_index (r_levels t) (Suc level)) (\<lambda>boxes. rbind (at_index boxes node) (\<lambda>b.
       if \<not> bbox_Intersects b q then Inr []
       else
         rbind (at_index (r_levels t) level) (\<lambda>below.
         rbind (rmap (rtree_walk t q level) [node * nodeSize..<min ((node + 1) * nodeSize) (length below)]) (\<lambda>found.
           Inr (concat found)))))"

definition rtree_search :: "rtree \<Rightarrow> bbox \<Rightarrow> nat list res" where
  "rtree_search t q =
     rbind (at_index (r_levels t) 0) (\<lambda>boxes.
       if boxes = [] then Inr [] else rtree_walk t q (length (r_levels t) - 1) 0)"

section \<open>Levels\<close>

lemma nth_pack:
  assumes "i < length (pack level)"
  shows "pack level ! i = foldl bbox_union emptyBBox (take 16 (drop (i * 16) level))"
  using assms
proof (induction level arbitrary: i rule: pack.induct)
  case (1 level)
  then have "level \<noteq> []" by (auto simp: pack.simps [of "[]"])
  with 1 show ?case
    by (cases i) (auto simp: pack.simps [of level] nodeSize_def add.commute)
qed

lemma pack_covers:
  assumes "\<forall>b \<in> set level. bbox_ok b" "i < length level" "bbox_Intersects (level ! i) q"
  shows "bbox_Intersects (pack level ! (i div 16)) q"
proof -
  let ?cs = "take 16 (drop (i div 16 * 16) level)"
  have i: "i mod 16 + i div 16 * 16 = i" by simp
  then have "i mod 16 < length level - i div 16 * 16" using assms(2) by (metis less_diff_conv)
  then have "?cs ! (i mod 16) = level ! i" "i mod 16 < length ?cs" by auto
  then have "level ! i \<in> set ?cs" by (metis nth_mem)
  moreover have "\<forall>c \<in> set ?cs. bbox_ok c" using assms(1) by (meson in_set_dropD in_set_takeD)
  ultimately have "bbox_Intersects (foldl bbox_union emptyBBox ?cs) q"
    using assms(3) foldl_union [OF emptyBBox_ok, of ?cs q] by blast
  moreover have "i div 16 < length (pack level)" using assms(2) by (simp add: length_pack)
  ultimately show ?thesis by (simp add: nth_pack)
qed

lemma pack_ok:
  assumes "\<forall>b \<in> set level. bbox_ok b"
  shows "\<forall>b \<in> set (pack level). bbox_ok b"
proof -
  have "bbox_ok (foldl bbox_union emptyBBox (take 16 (drop (i * 16) level)))" for i
    using assms foldl_union [OF emptyBBox_ok, of "take 16 (drop (i * 16) level)"] by (meson in_set_dropD in_set_takeD)
  then show ?thesis by (auto simp: in_set_conv_nth nth_pack)
qed

text \<open>Each level is packed from the one under it, and the last has one box.\<close>

fun stacked :: "bbox list list \<Rightarrow> bool" where
  "stacked [] \<longleftrightarrow> False"
| "stacked [level] \<longleftrightarrow> length level \<le> 1"
| "stacked (level # up # rest) \<longleftrightarrow> up = pack level \<and> stacked (up # rest)"

lemma levels_stacked: "stacked (level # levels_over level)"
proof (induction level rule: levels_over.induct)
  case (1 level)
  then show ?case by (simp add: levels_over.simps [of level] Let_def)
qed

lemma stacked_nth: "stacked ls \<Longrightarrow> Suc l < length ls \<Longrightarrow> ls ! Suc l = pack (ls ! l)"
proof (induction ls arbitrary: l rule: stacked.induct)
  case (3 level up rest)
  then show ?case by (cases l) auto
qed auto

lemma stacked_last: "stacked ls \<Longrightarrow> length (ls ! (length ls - 1)) \<le> 1"
  by (induction ls rule: stacked.induct) auto

lemma stacked_ok:
  assumes "stacked ls" "\<forall>b \<in> set (ls ! 0). bbox_ok b" "l < length ls"
  shows "\<forall>b \<in> set (ls ! l). bbox_ok b"
  using assms(3)
proof (induction l)
  case (Suc l)
  then show ?case using pack_ok stacked_nth [OF assms(1) Suc.prems] by simp
qed (use assms(2) in simp)

lemma stacked_covers:
  assumes "stacked ls" "\<forall>b \<in> set (ls ! 0). bbox_ok b" "l < length ls" "i < length (ls ! 0)"
  shows "i div 16 ^ l < length (ls ! l) \<and> (bbox_Intersects (ls ! 0 ! i) q \<longrightarrow> bbox_Intersects (ls ! l ! (i div 16 ^ l)) q)"
  using assms(3)
proof (induction l)
  case (Suc l)
  let ?j = "i div 16 ^ l"
  have j: "?j < length (ls ! l)" "bbox_Intersects (ls ! 0 ! i) q \<longrightarrow> bbox_Intersects (ls ! l ! ?j) q" using Suc by auto
  have up: "ls ! Suc l = pack (ls ! l)" using stacked_nth [OF assms(1) Suc.prems] .
  have "i div 16 ^ Suc l = ?j div 16" by (metis div_mult2_eq power_Suc2)
  then show ?case using j pack_covers [OF stacked_ok [OF assms(1,2), of l] j(1), of q] Suc.prems
    by (auto simp: up length_pack)
qed (use assms(4) in simp)

section \<open>A search is a scan\<close>

lemma rmap_map: "(\<And>x. x \<in> set xs \<Longrightarrow> f x = Inr (g x)) \<Longrightarrow> rmap f xs = Inr (map g xs)"
  by (induction xs) auto

text \<open>The items under some nodes one after the other are the items under their parent.\<close>

lemma concat_ranges:
  assumes "a \<le> b"
  shows "concat (map (\<lambda>c. filter P [c * m..<min ((c + 1) * m) n]) [a..<b]) = filter P [a * m..<min (b * m) n]"
  using assms
proof (induction b rule: dec_induct)
  case (step b)
  have "[a * m..<min (b * m) n] @ [b * m..<min ((b + 1) * m) n] = [a * m..<min ((b + 1) * m) n]"
  proof (cases "b * m \<le> n")
    case True
    then show ?thesis using upt_add_eq_append [of "a * m" "b * m" "min ((b + 1) * m) n - b * m"] step.hyps(1) by simp
  qed simp
  then show ?case using step by (simp flip: filter_append)
qed simp

lemma walk_is_scan:
  assumes "stacked (r_levels t)" "\<forall>b \<in> set (r_levels t ! 0). bbox_ok b"
    and "l < length (r_levels t)" "node < length (r_levels t ! l)"
  shows "rtree_walk t q l node =
    Inr (filter (\<lambda>i. bbox_Intersects (r_levels t ! 0 ! i) q)
      [node * 16 ^ l..<min ((node + 1) * 16 ^ l) (length (r_levels t ! 0))])"
  using assms(3,4)
proof (induction l arbitrary: node)
  case 0
  then have "min (node + 1) (length (r_levels t ! 0)) = Suc node" by simp
  with 0 show ?case by (simp add: at_index_def)
next
  case (Suc l)
  let ?ls = "r_levels t" and ?P = "\<lambda>i. bbox_Intersects (r_levels t ! 0 ! i) q"
  let ?n = "length (?ls ! 0)" and ?below = "length (?ls ! l)" and ?m = "(16 :: nat) ^ l"
  let ?range = "[node * 16 ^ Suc l..<min ((node + 1) * 16 ^ Suc l) ?n]"
  show ?case
  proof (cases "bbox_Intersects (?ls ! Suc l ! node) q")
    case False
    have "\<not> ?P i" if "i \<in> set ?range" for i
    proof -
      have "i div 16 ^ Suc l = node" using that by (simp add: div_nat_eqI algebra_simps)
      then show ?thesis using stacked_covers [OF assms(1,2) Suc.prems(1), of i q] that False by auto
    qed
    then have "filter ?P ?range = []" by (meson filter_False)
    then show ?thesis using Suc.prems False by (simp add: at_index_def)
  next
    case True
    let ?b = "min ((node + 1) * 16) ?below"
    have ls: "?ls ! Suc l = pack (?ls ! l)" using stacked_nth [OF assms(1) Suc.prems(1)] .
    have "rmap (rtree_walk t q l) [node * 16..<?b] =
        Inr (map (\<lambda>c. filter ?P [c * ?m..<min ((c + 1) * ?m) ?n]) [node * 16..<?b])"
      using Suc.IH Suc.prems(1) by (intro rmap_map) simp
    moreover have "node * 16 \<le> ?b" using Suc.prems(2) by (simp add: ls length_pack)
    moreover have "min (?b * ?m) ?n = min ((node + 1) * 16 ^ Suc l) ?n"
    proof -
      have below: "?n \<le> ?below * ?m"
        using stacked_covers [OF assms(1,2), of l "?n - 1"] Suc.prems(1)
        by (cases ?n) (auto simp: div_less_iff_less_mult Suc_le_eq)
      have m: "(node + 1) * 16 ^ Suc l = (node + 1) * 16 * ?m" by (simp only: power_Suc mult.assoc)
      show ?thesis
      proof (cases "(node + 1) * 16 \<le> ?below")
        case False
        then have "?below * ?m \<le> (node + 1) * 16 * ?m" by (intro mult_le_mono1) simp
        with below have "?n \<le> (node + 1) * 16 * ?m" by (rule le_trans)
        with False below show ?thesis unfolding m by (simp only: min_absorb2 not_le less_imp_le)
      qed (simp only: m min_absorb1)
    qed
    ultimately show ?thesis
      using Suc.prems True concat_ranges [of "node * 16" ?b ?P ?m ?n] by (simp add: at_index_def nodeSize_def mult.assoc)
  qed
qed

theorem search_is_scan:
  assumes "\<forall>b \<in> set boxes. bbox_ok b"
  shows "rtree_search (newRTree boxes) q = Inr (filter (\<lambda>i. bbox_Intersects (boxes ! i) q) [0..<length boxes])"
proof (cases "boxes = []")
  case False
  let ?t = "newRTree boxes" let ?l = "length (r_levels ?t) - 1"
  have t: "stacked (r_levels ?t)" "r_levels ?t ! 0 = boxes" by (simp_all add: newRTree_def levels_stacked)
  have l: "?l < length (r_levels ?t)" by (simp add: newRTree_def)
  have c: "i div 16 ^ ?l < length (r_levels ?t ! ?l)" if "i < length boxes" for i
    using stacked_covers [OF t(1) _ l, of i] assms that t(2) by auto
  have "length (r_levels ?t ! ?l) \<le> 1" using stacked_last [OF t(1)] .
  moreover have "(length boxes - 1) div 16 ^ ?l < length (r_levels ?t ! ?l)" using c False by simp
  ultimately have "(length boxes - 1) div 16 ^ ?l < 1" "0 < length (r_levels ?t ! ?l)" by linarith+
  then have "length boxes - 1 < 1 * 16 ^ ?l" "0 < length (r_levels ?t ! ?l)"
    by (simp_all only: div_less_iff_less_mult zero_less_power zero_less_numeral)
  then have "length boxes \<le> 16 ^ ?l" "0 < length (r_levels ?t ! ?l)" by linarith+
  then show ?thesis
    using walk_is_scan [OF t(1) _ l, of 0 q] assms False l t(2) by (auto simp: rtree_search_def at_index_def)
qed (simp add: newRTree_def rtree_search_def at_index_def)

end
