(* ===== verification/Curve.thy ===== *)
theory Curve
  imports Boxes
begin

text \<open>
  The Hilbert curve that orders boxes (\<open>hilbert\<close> and \<open>hilbertKeys\<close> of \<open>src/geodb/index.go\<close>).

  \<open>curve k\<close> is the curve of order \<open>k\<close> on natural numbers, by its recursion on quadrants; the loop of the source, on
  words, is \<open>curve 16\<close>. Shown: the curve visits each cell of the square once, and goes from a cell to one beside it.
\<close>

section \<open>The loop\<close>

function hilbert_loop :: "32 word \<Rightarrow> 64 word \<Rightarrow> 32 word \<Rightarrow> 32 word \<Rightarrow> 64 word" where
  "hilbert_loop s d x y =
     (if s = 0 then d
      else
        (let rx = (if x AND s \<noteq> 0 then 1 else 0 :: 32 word);
             ry = (if y AND s \<noteq> 0 then 1 else 0 :: 32 word);
             d = d + ucast s * ucast s * ucast ((3 * rx) XOR ry);
             (x, y) = (if ry = 0 \<and> rx = 1 then (2 ^ 16 - 1 - x, 2 ^ 16 - 1 - y) else (x, y));
             (x, y) = (if ry = 0 then (y, x) else (x, y))
         in hilbert_loop (s div 2) d x y))"
  by auto

termination
proof (relation "measure (\<lambda>(s, _). unat s)")
  fix s :: "32 word"
  assume "s \<noteq> 0"
  then have "unat (s div 2) < unat s" by (simp add: unat_div unat_gt_0)
  then show "((s div 2, d, x, y), s, d', x', y') \<in> measure (\<lambda>(s, _). unat s)" for d x y d' x' y'
    by simp
qed auto

declare hilbert_loop.simps [simp del]

definition hilbert :: "32 word \<Rightarrow> 32 word \<Rightarrow> 64 word" where
  "hilbert x y = hilbert_loop (2 ^ 16 div 2) 0 x y"

text \<open>\<open>hilbertKeys\<close>: the centres of boxes, scaled to the square that the curve fills.\<close>

definition hilbert_scale :: "(f64 \<Rightarrow> 32 word) \<Rightarrow> f64 \<Rightarrow> f64 \<Rightarrow> f64 \<Rightarrow> 32 word" where
  "hilbert_scale other v lo extent =
     (if f_le extent 0 then 0
      else f_to_uint32 other (math_Min 0x40EFFFE000000000 (math_Max 0 (f_mul (f_div (f_sub v lo) extent) 0x40EFFFE000000000))))"

definition hilbertKeys :: "(f64 \<Rightarrow> 32 word) \<Rightarrow> bbox list \<Rightarrow> 64 word list" where
  "hilbertKeys other boxes =
     (let all = foldl bbox_union emptyBBox boxes;
          w = f_sub (b_MaxX all) (b_MinX all);
          h = f_sub (b_MaxY all) (b_MinY all)
      in map (\<lambda>b. let c = bbox_center b
                   in hilbert (hilbert_scale other (p_X c) (b_MinX all) w) (hilbert_scale other (p_Y c) (b_MinY all) h)) boxes)"

section \<open>The curve\<close>

text \<open>Which quarter of the curve a quadrant has, and the cell in it, as the quarter turns it.\<close>

definition quarter :: "nat \<Rightarrow> nat \<Rightarrow> nat \<Rightarrow> nat" where
  "quarter s x y = (if x < s then (if y < s then 0 else 1) else (if y < s then 3 else 2))"

definition turned :: "nat \<Rightarrow> nat \<Rightarrow> nat \<Rightarrow> nat \<times> nat" where
  "turned s x y =
     (if y < s then (if x < s then (y, x) else (s - 1 - y, s - 1 - (x - s)))
      else (if x < s then x else x - s, y - s))"

fun curve :: "nat \<Rightarrow> nat \<times> nat \<Rightarrow> nat" where
  "curve 0 p = 0"
| "curve (Suc k) (x, y) = 4 ^ k * quarter (2 ^ k) x y + curve k (turned (2 ^ k) x y)"

definition square :: "nat \<Rightarrow> (nat \<times> nat) set" where
  "square n = {..<n} \<times> {..<n}"

lemma turned_in: "(x, y) \<in> square (2 * s) \<Longrightarrow> turned s x y \<in> square s"
  by (auto simp: square_def turned_def)

lemma quarter_lt: "quarter s x y < 4"
  by (simp add: quarter_def)

lemma curve_lt: "p \<in> square (2 ^ k) \<Longrightarrow> curve k p < 4 ^ k"
proof (induction k arbitrary: p)
  case (Suc k)
  obtain x y where p: "p = (x, y)" by fastforce
  then have "curve k (turned (2 ^ k) x y) < 4 ^ k" using Suc turned_in [of x y "2 ^ k"] by simp
  moreover have "4 ^ k * quarter (2 ^ k) x y \<le> 4 ^ k * 3" using quarter_lt [of "2 ^ k" x y] by (intro mult_le_mono2) simp
  ultimately show ?case unfolding p curve.simps power_Suc by linarith
qed simp

lemma quarters_differ:
  fixes m :: nat
  assumes "m * a + b = m * c + d" "b < m" "d < m"
  shows "a = c \<and> b = d"
proof -
  have "(m * a + b) div m = a" "(m * c + d) div m = c" using assms(2,3) by simp_all
  then show ?thesis using assms(1) by simp
qed

lemma turned_inj:
  "(x, y) \<in> square (2 * s) \<Longrightarrow> (x', y') \<in> square (2 * s) \<Longrightarrow> quarter s x y = quarter s x' y' \<Longrightarrow>
     turned s x y = turned s x' y' \<Longrightarrow> x = x' \<and> y = y'"
  by (auto simp: square_def turned_def quarter_def split: if_splits)

lemma curve_inj: "p \<in> square (2 ^ k) \<Longrightarrow> q \<in> square (2 ^ k) \<Longrightarrow> curve k p = curve k q \<Longrightarrow> p = q"
proof (induction k arbitrary: p q)
  case 0
  then show ?case by (auto simp: square_def)
next
  case (Suc k)
  obtain x y x' y' where p: "p = (x, y)" "q = (x', y')" by fastforce
  let ?t = "turned (2 ^ k) x y" and ?t' = "turned (2 ^ k) x' y'"
  have t: "?t \<in> square (2 ^ k)" "?t' \<in> square (2 ^ k)" using Suc.prems(1,2) p by (auto intro: turned_in)
  have "quarter (2 ^ k) x y = quarter (2 ^ k) x' y' \<and> curve k ?t = curve k ?t'"
    using Suc.prems(3) p t by (intro quarters_differ [of "4 ^ k"]) (auto intro: curve_lt)
  then show ?case using Suc.IH [OF t] turned_inj [of x y "2 ^ k" x' y'] Suc.prems(1,2) p by simp
qed

lemma curve_bij: "bij_betw (curve k) (square (2 ^ k)) {..<4 ^ k}"
proof -
  have "inj_on (curve k) (square (2 ^ k))" using curve_inj by (intro inj_onI)
  moreover have "curve k ` square (2 ^ k) \<subseteq> {..<4 ^ k}" using curve_lt by blast
  moreover have "card (square (2 ^ k)) = 4 ^ k"
    by (simp add: square_def card_cartesian_product flip: power_mult_distrib)
  ultimately show ?thesis by (simp add: bij_betw_def card_image card_subset_eq)
qed

section \<open>Steps of the curve\<close>

lemma curve_begins: "curve k (0, 0) = 0"
  by (induction k) (simp_all add: quarter_def turned_def)

lemma curve_ends: "curve k (2 ^ k - 1, 0) = 4 ^ k - 1"
proof (induction k)
  case (Suc k)
  have "(2::nat) * 2 ^ k - 1 - 2 ^ k = 2 ^ k - 1" "\<not> 2 * 2 ^ k - 1 < (2::nat) ^ k" by auto
  then show ?case using Suc by (simp add: quarter_def turned_def)
qed simp

definition beside :: "nat \<times> nat \<Rightarrow> nat \<times> nat \<Rightarrow> bool" where
  "beside p q \<longleftrightarrow>
     (fst p = fst q \<and> (snd q = snd p + 1 \<or> snd p = snd q + 1)) \<or>
     (snd p = snd q \<and> (fst q = fst p + 1 \<or> fst p = fst q + 1))"

lemma turned_beside:
  "(x, y) \<in> square (2 * s) \<Longrightarrow> (x', y') \<in> square (2 * s) \<Longrightarrow> quarter s x y = quarter s x' y' \<Longrightarrow>
     beside (turned s x y) (turned s x' y') \<Longrightarrow> beside (x, y) (x', y')"
  unfolding square_def turned_def quarter_def beside_def
  by (cases "x < s"; cases "y < s"; cases "x' < s"; cases "y' < s"; simp; linarith)

lemma next_quarter:
  "(x, y) \<in> square (2 * s) \<Longrightarrow> (x', y') \<in> square (2 * s) \<Longrightarrow> quarter s x' y' = quarter s x y + 1 \<Longrightarrow>
     turned s x y = (s - 1, 0) \<Longrightarrow> turned s x' y' = (0, 0) \<Longrightarrow> beside (x, y) (x', y')"
  unfolding square_def turned_def quarter_def beside_def
  by (cases "x < s"; cases "y < s"; cases "x' < s"; cases "y' < s"; simp; linarith)

lemma quarters_follow:
  fixes m :: nat
  assumes "m * c + d = Suc (m * a + b)" "b < m" "d < m"
  shows "a = c \<and> d = Suc b \<or> c = Suc a \<and> b = m - 1 \<and> d = 0"
proof (cases "Suc b < m")
  case True
  then show ?thesis using quarters_differ [of m c d a "Suc b"] assms by simp
next
  case False
  then have "m * c + d = m * Suc a + 0" using assms by simp
  then show ?thesis using quarters_differ [of m c d "Suc a" 0] assms False by simp
qed

lemma curve_steps:
  "p \<in> square (2 ^ k) \<Longrightarrow> q \<in> square (2 ^ k) \<Longrightarrow> curve k q = Suc (curve k p) \<Longrightarrow> beside p q"
proof (induction k arbitrary: p q)
  case (Suc k)
  obtain x y x' y' where p: "p = (x, y)" "q = (x', y')" by fastforce
  let ?t = "turned (2 ^ k) x y" and ?t' = "turned (2 ^ k) x' y'"
  have in_square: "(x, y) \<in> square (2 * 2 ^ k)" "(x', y') \<in> square (2 * 2 ^ k)" using Suc.prems(1,2) p by simp_all
  then have t: "?t \<in> square (2 ^ k)" "?t' \<in> square (2 ^ k)" by (auto intro: turned_in)
  have corners: "(0, 0) \<in> square (2 ^ k)" "(2 ^ k - 1, 0) \<in> square (2 ^ k)" by (auto simp: square_def)
  have "quarter (2 ^ k) x y = quarter (2 ^ k) x' y' \<and> curve k ?t' = Suc (curve k ?t) \<or>
      quarter (2 ^ k) x' y' = Suc (quarter (2 ^ k) x y) \<and> curve k ?t = 4 ^ k - 1 \<and> curve k ?t' = 0"
    using Suc.prems(3) p t by (intro quarters_follow) (auto intro: curve_lt)
  then show ?case
  proof
    assume "quarter (2 ^ k) x y = quarter (2 ^ k) x' y' \<and> curve k ?t' = Suc (curve k ?t)"
    then show ?thesis using Suc.IH [OF t] turned_beside [OF in_square] p by simp
  next
    assume "quarter (2 ^ k) x' y' = Suc (quarter (2 ^ k) x y) \<and> curve k ?t = 4 ^ k - 1 \<and> curve k ?t' = 0"
    then show ?thesis using next_quarter [OF in_square] p
        curve_inj [OF t(1) corners(2)] curve_inj [OF t(2) corners(1)] curve_begins [of k] curve_ends [of k] by simp
  qed
qed simp

section \<open>The loop is the curve\<close>

lemma mod_half:
  fixes x s :: nat
  assumes "0 < s"
  shows "x mod (2 * s) = (if x mod (2 * s) < s then x mod s else s + x mod s)"
proof -
  have "x mod s = x mod (2 * s) mod s" by (simp add: mod_mod_cancel)
  moreover have "x mod (2 * s) < 2 * s" using assms by simp
  ultimately show ?thesis by (simp add: le_mod_geq)
qed

lemma mod_flip:
  fixes x s n :: nat
  assumes "s dvd n" "x < n"
  shows "(n - 1 - x) mod s = s - 1 - x mod s"
proof -
  obtain c where c: "n = s * c" using assms(1) by auto
  have s: "0 < s" using assms c by (cases s) auto
  have "x div s < c" using assms(2) c by (simp add: less_mult_imp_div_less mult.commute)
  then obtain d where d: "c = x div s + Suc d" using less_iff_Suc_add by auto
  have x: "x = s * (x div s) + x mod s" "x mod s < s" using s by auto
  have "n = s * (x div s) + s * Suc d" using c d by (simp add: distrib_left)
  moreover have "s * Suc d = s * d + s" by simp
  ultimately have "n - 1 - x = s * d + (s - 1 - x mod s)" using x by linarith
  then show ?thesis using s by simp
qed

lemma bit_half:
  fixes x :: "32 word"
  assumes "k \<le> 15"
  shows "x AND 2 ^ k = 0 \<longleftrightarrow> unat x mod (2 * 2 ^ k) < 2 ^ k"
proof -
  have "x AND 2 ^ k = 0 \<longleftrightarrow> \<not> bit x k"
    by (rule and_exp_eq_0_iff_not_bit)
  also have "bit x k \<longleftrightarrow> odd (unat x div 2 ^ k)" by (metis bit_unsigned_iff bit_iff_odd possible_bit_nat)
  also have "odd (unat x div 2 ^ k) \<longleftrightarrow> \<not> unat x mod (2 * 2 ^ k) < 2 ^ k"
    using mod_mult2_eq [of "unat x" "2 ^ k" 2]
    by (cases "odd (unat x div 2 ^ k)") (simp_all add: odd_iff_mod_2_eq_one even_iff_mod_2_eq_zero mult.commute)
  finally show ?thesis by simp
qed


lemma small_powers:
  assumes "k \<le> 15"
  shows "2 ^ Suc k div 2 = (2 ^ k :: 32 word)" "(2 ^ k :: 32 word) \<noteq> 0"
    "ucast (2 ^ k :: 32 word) * ucast (2 ^ k :: 32 word) = (4 ^ k :: 64 word)"
proof -
  have "\<forall>k \<in> set [0..<16]. 2 ^ Suc k div 2 = (2 ^ k :: 32 word) \<and> (2 ^ k :: 32 word) \<noteq> 0 \<and>
      ucast (2 ^ k :: 32 word) * ucast (2 ^ k :: 32 word) = (4 ^ k :: 64 word)"
    by (simp add: upt_rec)
  moreover have "k \<in> set [0..<16]" using assms by simp
  ultimately show "2 ^ Suc k div 2 = (2 ^ k :: 32 word)" "(2 ^ k :: 32 word) \<noteq> 0"
    "ucast (2 ^ k :: 32 word) * ucast (2 ^ k :: 32 word) = (4 ^ k :: 64 word)"
    by blast+
qed

lemma unat_flip:
  fixes x :: "32 word"
  assumes "unat x < 2 ^ 16"
  shows "unat (2 ^ 16 - 1 - x) = 2 ^ 16 - 1 - unat x"
proof -
  have "x \<le> 2 ^ 16 - 1" using assms by (simp add: word_le_nat_alt)
  then show ?thesis by (simp add: unat_sub)
qed

lemma loop_is_curve:
  assumes "k \<le> 16" "unat x < 2 ^ 16" "unat y < 2 ^ 16"
  shows "hilbert_loop (2 ^ k div 2) d x y = d + of_nat (curve k (unat x mod 2 ^ k, unat y mod 2 ^ k))"
  using assms
proof (induction k arbitrary: d x y)
  case 0
  then show ?case by (simp add: hilbert_loop.simps)
next
  case (Suc k)
  let ?s = "2 ^ k :: 32 word" and ?n = "2 ^ k :: nat"
  let ?X = "unat x mod (2 * ?n)" and ?Y = "unat y mod (2 * ?n)"
  have k: "k \<le> 15" "k \<le> 16" using Suc.prems(1) by auto
  note s = small_powers [OF k(1)]
  have "(2::nat) ^ k dvd 2 ^ 16" using k(2) by (rule le_imp_power_dvd)
  note flip = mod_flip [OF this]
  have turned: "turned ?n ?X ?Y =
      (if ?Y < ?n then (if ?X < ?n then (unat y mod ?n, unat x mod ?n)
                        else (unat (2 ^ 16 - 1 - y) mod ?n, unat (2 ^ 16 - 1 - x) mod ?n))
       else (unat x mod ?n, unat y mod ?n))"
    using mod_half [of ?n "unat x"] mod_half [of ?n "unat y"]
    by (simp only: turned_def unat_flip [OF Suc.prems(2)] unat_flip [OF Suc.prems(3)]
        flip [OF Suc.prems(2)] flip [OF Suc.prems(3)]) (auto split: if_splits)
  have step: "hilbert_loop (2 ^ Suc k div 2) d x y =
      (let d = d + 4 ^ k * of_nat (quarter ?n ?X ?Y)
       in if ?Y < ?n then (if ?X < ?n then hilbert_loop (?s div 2) d y x
                           else hilbert_loop (?s div 2) d (2 ^ 16 - 1 - y) (2 ^ 16 - 1 - x))
          else hilbert_loop (?s div 2) d x y)"
    unfolding s(1) hilbert_loop.simps [of ?s] using s(2,3)
    by (simp add: Let_def bit_half [OF k(1)] quarter_def)
  have flipped: "unat (2 ^ 16 - 1 - x) < 2 ^ 16" "unat (2 ^ 16 - 1 - y) < 2 ^ 16"
    using unat_flip Suc.prems(2,3) by simp_all
  show ?case
    unfolding step unfolding power_Suc curve.simps turned
    using Suc.IH [OF k(2)] Suc.prems(2,3) flipped by (auto simp: Let_def)
qed

lemma hilbert_is_curve:
  assumes "unat x < 2 ^ 16" "unat y < 2 ^ 16"
  shows "unat (hilbert x y) = curve 16 (unat x, unat y)"
proof -
  have "curve 16 (unat x, unat y) < 4 ^ 16" using assms by (intro curve_lt) (simp add: square_def)
  then show ?thesis
    using loop_is_curve [of 16 x y 0] assms by (simp add: hilbert_def unsigned_of_nat take_bit_nat_eq_self)
qed

end
