(* ===== verification/Parcels.thy ===== *)
theory Parcels
  imports Trees Curve
begin

text \<open>
  Parcels and their index (\<open>src/geodb/parcels.go\<close>): which parcels are taken, the vectors they are laid out in, in the
  order of the curve, and what is made of the vectors again.

  \<open>laid_out\<close> is what \<open>PutParcels\<close> writes and \<open>loadParcels\<close> reads back: each vector is an array of its own, and that an
  array gives back what was written to it is shown elsewhere. The order of the parcels is a stable sort by the keys
  of \<open>hilbertKeys\<close>. An index or a slice out of range is a panic. The lemmas are in \<open>Parcel_Laws\<close>.
\<close>

section \<open>Parcels\<close>

record parcel =
  pc_ID :: int
  pc_Rings :: "point list list"

definition on_earth :: "point \<Rightarrow> bool" where
  "on_earth p \<longleftrightarrow>
     f_le 0xC066800000000000 (p_X p) \<and> f_le (p_X p) 0x4066800000000000 \<and>
     f_le 0xC056800000000000 (p_Y p) \<and> f_le (p_Y p) 0x4056800000000000"

definition valid_ring :: "point list \<Rightarrow> unit res" where
  "valid_ring r =
     (if length r < 3 then Inl (ErrOther ''points'')
      else rbind (rmap (\<lambda>p. rguard (on_earth p) (ErrOther ''longitude and latitude'')) r) (\<lambda>_. Inr ()))"

definition valid_parcel :: "parcel \<Rightarrow> int list \<Rightarrow> int list res" where
  "valid_parcel p known_ids =
     (if pc_ID p \<in> set known_ids then Inl (ErrOther ''twice'')
      else if pc_Rings p = [] then Inl (ErrOther ''rings'')
      else rbind (rmap valid_ring (pc_Rings p)) (\<lambda>_. Inr (pc_ID p # known_ids)))"

definition validateParcels :: "parcel list \<Rightarrow> unit res" where
  "validateParcels ps = rbind (rfold valid_parcel ps []) (\<lambda>_. Inr ())"

definition ringsBBox :: "point list list \<Rightarrow> bbox" where
  "ringsBBox rings = foldl (\<lambda>b r. foldl bbox_extend b r) emptyBBox rings"

section \<open>The vectors\<close>

record parcel_vectors =
  v_id :: "int list"
  v_bbox :: "f64 list"
  v_ring_offset :: "int list"
  v_coord_offset :: "int list"
  v_coords :: "f64 list"

definition add_ring :: "point list \<Rightarrow> parcel_vectors \<Rightarrow> parcel_vectors" where
  "add_ring r v =
     (let coords = v_coords v @ concat (map (\<lambda>p. [p_X p, p_Y p]) r)
      in v\<lparr>v_coords := coords, v_coord_offset := v_coord_offset v @ [int (length coords div 2)]\<rparr>)"

definition add_parcel :: "parcel \<Rightarrow> parcel_vectors \<Rightarrow> parcel_vectors" where
  "add_parcel p v =
     (let b = ringsBBox (pc_Rings p);
          v = v\<lparr>v_id := v_id v @ [pc_ID p], v_bbox := v_bbox v @ [b_MinX b, b_MinY b, b_MaxX b, b_MaxY b]\<rparr>;
          v = fold add_ring (pc_Rings p) v
      in v\<lparr>v_ring_offset := v_ring_offset v @ [int (length (v_coord_offset v)) - 1]\<rparr>)"

definition laid_out :: "parcel list \<Rightarrow> parcel_vectors" where
  "laid_out ps =
     fold add_parcel ps \<lparr>v_id = [], v_bbox = [], v_ring_offset = [0], v_coord_offset = [0], v_coords = []\<rparr>"

definition parcel_order :: "(f64 \<Rightarrow> 32 word) \<Rightarrow> parcel list \<Rightarrow> nat list" where
  "parcel_order other ps =
     (let keys = hilbertKeys other (map (\<lambda>p. ringsBBox (pc_Rings p)) ps) in sort_key (\<lambda>i. keys ! i) [0..<length ps])"

text \<open>The vectors that \<open>PutParcels\<close> writes.\<close>

definition putVectors :: "(f64 \<Rightarrow> 32 word) \<Rightarrow> parcel list \<Rightarrow> parcel_vectors res" where
  "putVectors other ps =
     rbind (validateParcels ps) (\<lambda>_. Inr (laid_out (map (\<lambda>i. ps ! i) (parcel_order other ps))))"

section \<open>The parcels that are loaded\<close>

record parcel_set =
  ps_ids :: "int list"
  ps_boxes :: "bbox list"
  ps_ringOff :: "int list"
  ps_coordOff :: "int list"
  ps_coords :: "f64 list"
  ps_byID :: "int \<Rightarrow> nat option"
  ps_tree :: rtree

definition offsetsOK :: "int list \<Rightarrow> int \<Rightarrow> bool" where
  "offsetsOK off e \<longleftrightarrow> off \<noteq> [] \<and> hd off = 0 \<and> last off = e \<and> sorted off"

text \<open>\<open>loadParcels\<close>, of the attribute \<open>count\<close> and the vectors.\<close>

definition loadVectors :: "int \<Rightarrow> parcel_vectors \<Rightarrow> parcel_set res" where
  "loadVectors count v =
     (if int (length (v_id v)) \<noteq> count \<or> int (length (v_bbox v)) \<noteq> 4 * count \<or> int (length (v_ring_offset v)) \<noteq> count + 1
      then Inl (ErrOther ''count'')
      else if \<not> offsetsOK (v_ring_offset v) (int (length (v_coord_offset v)) - 1) \<or>
              \<not> offsetsOK (v_coord_offset v) (int (length (v_coords v) div 2))
      then Inl (ErrOther ''offsets'')
      else
        (let n = nat count; b = v_bbox v;
             boxes = map (\<lambda>i. \<lparr>b_MinX = b ! (4 * i), b_MinY = b ! (4 * i + 1), b_MaxX = b ! (4 * i + 2), b_MaxY = b ! (4 * i + 3)\<rparr>)
                       [0..<n]
         in Inr \<lparr>ps_ids = v_id v, ps_boxes = boxes, ps_ringOff = v_ring_offset v, ps_coordOff = v_coord_offset v,
                 ps_coords = v_coords v, ps_byID = foldl (\<lambda>m i. m(v_id v ! i \<mapsto> i)) Map.empty [0..<n],
                 ps_tree = newRTree boxes\<rparr>))"

definition set_len :: "parcel_set option \<Rightarrow> int" where
  "set_len s = (case s of None \<Rightarrow> 0 | Some s \<Rightarrow> int (length (ps_ids s)))"

definition int_index :: "'a list \<Rightarrow> int \<Rightarrow> 'a res" where
  "int_index xs i = (if 0 \<le> i \<and> i < int (length xs) then Inr (xs ! nat i) else Inl Panic)"

text \<open>\<open>xs[a:b]\<close>\<close>

definition int_slice :: "'a list \<Rightarrow> int \<Rightarrow> int \<Rightarrow> 'a list res" where
  "int_slice xs a b =
     (if 0 \<le> a \<and> a \<le> b \<and> b \<le> int (length xs) then Inr (take (nat (b - a)) (drop (nat a) xs)) else Inl Panic)"

definition ring_at :: "parcel_set \<Rightarrow> int \<Rightarrow> point list res" where
  "ring_at s j =
     rbind (int_index (ps_coordOff s) j) (\<lambda>a.
     rbind (int_index (ps_coordOff s) (j + 1)) (\<lambda>b.
     rbind (int_slice (ps_coords s) (2 * a) (2 * b)) (\<lambda>c.
       Inr (map (\<lambda>k. \<lparr>p_X = c ! (2 * k), p_Y = c ! (2 * k + 1)\<rparr>) [0..<length c div 2]))))"

text \<open>A capacity that is negative makes \<open>make\<close> panic.\<close>

definition set_rings :: "parcel_set \<Rightarrow> int \<Rightarrow> point list list res" where
  "set_rings s i =
     rbind (int_index (ps_ringOff s) i) (\<lambda>from.
     rbind (int_index (ps_ringOff s) (i + 1)) (\<lambda>til.
     rbind (rguard (from \<le> til) Panic) (\<lambda>_. rmap (ring_at s) [from..til - 1])))"

definition ParcelsIn :: "parcel_set option \<Rightarrow> bbox \<Rightarrow> int list res" where
  "ParcelsIn s b =
     (case s of
        None \<Rightarrow> Inr []
      | Some s \<Rightarrow>
          if set_len (Some s) = 0 then Inr []
          else rbind (rtree_search (ps_tree s) b) (rmap (at_index (ps_ids s))))"

definition GetParcel :: "parcel_set option \<Rightarrow> int \<Rightarrow> parcel option res" where
  "GetParcel s i =
     (case s of
        None \<Rightarrow> Inr None
      | Some s \<Rightarrow>
          if set_len (Some s) = 0 then Inr None
          else
            (case ps_byID s i of
               None \<Rightarrow> Inr None
             | Some k \<Rightarrow> rbind (set_rings s (int k)) (\<lambda>rings. Inr (Some \<lparr>pc_ID = i, pc_Rings = rings\<rparr>))))"

text \<open>\<open>inside\<close>: the even-odd rule, over the edges of each ring, the last point going with the first.\<close>

definition crosses :: "point \<Rightarrow> point \<Rightarrow> point \<Rightarrow> bool" where
  "crosses p a b \<longleftrightarrow>
     f_lt (p_Y p) (p_Y a) \<noteq> f_lt (p_Y p) (p_Y b) \<and>
     f_lt (p_X p)
       (f_add (p_X a) (f_div (f_mul (f_sub (p_Y p) (p_Y a)) (f_sub (p_X b) (p_X a))) (f_sub (p_Y b) (p_Y a))))"

definition ring_edges :: "point list \<Rightarrow> (point \<times> point) list" where
  "ring_edges r = (if r = [] then [] else zip r (last r # r))"

definition inside :: "point list list \<Rightarrow> point \<Rightarrow> bool" where
  "inside rings p = foldl (\<lambda>yes r. foldl (\<lambda>yes (a, b). if crosses p a b then \<not> yes else yes) yes (ring_edges r)) False rings"

definition ParcelAt :: "parcel_set option \<Rightarrow> point \<Rightarrow> int list res" where
  "ParcelAt s p =
     (case s of
        None \<Rightarrow> Inr []
      | Some s \<Rightarrow>
          if set_len (Some s) = 0 then Inr []
          else
            rbind (rtree_search (ps_tree s) \<lparr>b_MinX = p_X p, b_MinY = p_Y p, b_MaxX = p_X p, b_MaxY = p_Y p\<rparr>) (\<lambda>found.
            rbind (rmap (\<lambda>i. rbind (set_rings s (int i)) (\<lambda>rings.
                if inside rings p then rbind (at_index (ps_ids s) i) (\<lambda>i. Inr [i]) else Inr [])) found) (\<lambda>ids.
              Inr (concat ids))))"

end
