(* ===== verification/Parcel_Laws.thy ===== *)
theory Parcel_Laws
  imports Parcels "HOL-Library.Multiset"
begin

text \<open>
  What the vectors of parcels are, that what is made of them is the parcels again, and that nothing is out of range
  in vectors that are loaded, whatever they hold.
\<close>

section \<open>Offsets\<close>

definition sums :: "nat list \<Rightarrow> int list" where
  "sums ns = map (\<lambda>k. int (sum_list (take k ns))) [0..<Suc (length ns)]"

lemma sums_Nil [simp]: "sums [] = [0]"
  by (simp add: sums_def)

lemma length_sums [simp]: "length (sums ns) = Suc (length ns)"
  by (simp add: sums_def)

lemma nth_sums: "k \<le> length ns \<Longrightarrow> sums ns ! k = int (sum_list (take k ns))"
  by (simp add: sums_def del: upt_Suc)

lemma sums_snoc: "sums (ns @ [n]) = sums ns @ [int (sum_list ns + n)]"
  by (rule nth_equalityI) (auto simp: nth_sums nth_append less_Suc_eq)

lemma sum_list_take_mono: "j \<le> k \<Longrightarrow> sum_list (take j ns) \<le> sum_list (take k (ns :: nat list))"
  by (auto simp: le_iff_add take_add)

lemma offsetsOK_sums: "offsetsOK (sums ns) (int (sum_list ns))"
proof -
  have "last (sums ns) = int (sum_list ns)" by (cases ns rule: rev_cases) (simp_all add: sums_snoc)
  moreover have "hd (sums ns) = 0" by (simp add: sums_def upt_rec)
  moreover have "sorted (sums ns)"
    by (auto simp: sorted_iff_nth_mono nth_sums intro: sum_list_take_mono)
  ultimately show ?thesis by (auto simp: offsetsOK_def simp flip: length_0_conv)
qed

lemma concat_piece:
  "j < length xss \<Longrightarrow> take (length (xss ! j)) (drop (sum_list (map length (take j xss))) (concat xss)) = xss ! j"
proof (induction xss arbitrary: j)
  case (Cons xs xss)
  then show ?case by (cases j) auto
qed simp

section \<open>The layout\<close>

definition flat :: "point list \<Rightarrow> f64 list" where
  "flat r = concat (map (\<lambda>p. [p_X p, p_Y p]) r)"

definition corners :: "bbox \<Rightarrow> f64 list" where
  "corners b = [b_MinX b, b_MinY b, b_MaxX b, b_MaxY b]"

definition box_of :: "parcel \<Rightarrow> bbox" where
  "box_of p = ringsBBox (pc_Rings p)"

lemma length_flat [simp]: "length (flat r) = 2 * length r"
  by (induction r) (simp_all add: flat_def)

lemma length_flats: "length (concat (map flat rs)) = 2 * sum_list (map length rs)"
  by (induction rs) simp_all

lemma nth_flat: "k < length r \<Longrightarrow> flat r ! (2 * k) = p_X (r ! k) \<and> flat r ! (2 * k + 1) = p_Y (r ! k)"
proof (induction r arbitrary: k)
  case (Cons p r)
  then show ?case by (cases k) (auto simp: flat_def)
qed simp

text \<open>The vectors of parcels, of which some rings are there already.\<close>

definition vectors_of :: "parcel list \<Rightarrow> point list list \<Rightarrow> parcel_vectors" where
  "vectors_of ps rs =
     (let rs = concat (map pc_Rings ps) @ rs
      in \<lparr>v_id = map pc_ID ps, v_bbox = concat (map (corners \<circ> box_of) ps),
          v_ring_offset = sums (map (length \<circ> pc_Rings) ps),
          v_coord_offset = sums (map length rs), v_coords = concat (map flat rs)\<rparr>)"

lemma add_ring_vectors:
  "add_ring r ((vectors_of ps rs)\<lparr>v_id := ids, v_bbox := bs\<rparr>) = (vectors_of ps (rs @ [r]))\<lparr>v_id := ids, v_bbox := bs\<rparr>"
proof -
  let ?rs = "concat (map pc_Rings ps) @ rs"
  have "length (concat (map flat ?rs) @ flat r) div 2 = sum_list (map length ?rs) + length r"
    unfolding length_append length_flats by simp
  then show ?thesis using sums_snoc [of "map length ?rs" "length r"]
    by (simp add: add_ring_def vectors_of_def Let_def flip: flat_def)
qed

lemma add_rings_vectors:
  "fold add_ring qs ((vectors_of ps rs)\<lparr>v_id := ids, v_bbox := bs\<rparr>) = (vectors_of ps (rs @ qs))\<lparr>v_id := ids, v_bbox := bs\<rparr>"
  by (induction qs arbitrary: rs) (simp_all add: add_ring_vectors)

lemma add_parcel_vectors: "add_parcel p (vectors_of ps []) = vectors_of (ps @ [p]) []"
proof -
  have "length (v_coord_offset (vectors_of ps (pc_Rings p))) = Suc (length (concat (map pc_Rings ps)) + length (pc_Rings p))"
    by (simp add: vectors_of_def)
  moreover have "length (concat (map pc_Rings ps)) = sum_list (map (length \<circ> pc_Rings) ps)"
    by (simp add: length_concat)
  ultimately show ?thesis
    using add_rings_vectors [where ps = ps and rs = "[]" and qs = "pc_Rings p"] sums_snoc [of "map (length \<circ> pc_Rings) ps" "length (pc_Rings p)"]
    by (simp add: add_parcel_def Let_def) (simp add: vectors_of_def corners_def box_of_def Let_def)
qed

lemma laid_out_vectors: "laid_out ps = vectors_of ps []"
proof -
  have "fold add_parcel ps (vectors_of qs []) = vectors_of (qs @ ps) []" for qs
    by (induction ps arbitrary: qs) (simp_all add: add_parcel_vectors)
  from this [of "[]"] show ?thesis by (simp add: laid_out_def vectors_of_def)
qed

section \<open>Parcels that are taken\<close>

lemma valid_parcels_spec:
  "rfold valid_parcel ps ids = Inr qs \<Longrightarrow>
     distinct (map pc_ID ps) \<and> set (map pc_ID ps) \<inter> set ids = {} \<and> (\<forall>p \<in> set ps. \<forall>r \<in> set (pc_Rings p). \<forall>x \<in> set r. on_earth x)"
proof (induction ps arbitrary: ids)
  case (Cons p ps)
  then obtain ids' where p: "valid_parcel p ids = Inr ids'" "rfold valid_parcel ps ids' = Inr qs"
    by (auto simp: rbind_Inr_iff)
  have ids': "ids' = pc_ID p # ids" "pc_ID p \<notin> set ids" "\<exists>u. rmap valid_ring (pc_Rings p) = Inr u"
    using p(1) by (auto simp: valid_parcel_def rbind_Inr_iff split: if_splits)
  have "on_earth x" if "r \<in> set (pc_Rings p)" "x \<in> set r" for r x
  proof -
    from ids'(3) that(1) obtain u where "valid_ring r = Inr u"
      by (auto simp: rmap_Inr_iff list_all2_conv_all_nth in_set_conv_nth)
    then have "\<exists>us. rmap (\<lambda>p. rguard (on_earth p) (ErrOther ''longitude and latitude'')) r = Inr us"
      by (auto simp: valid_ring_def rbind_Inr_iff split: if_splits)
    with that(2) show ?thesis
      by (auto simp: rmap_Inr_iff list_all2_conv_all_nth in_set_conv_nth rguard_Inr_iff)
  qed
  then show ?case using Cons.IH [OF p(2)] ids' by auto
qed simp

lemma bbox_ok_points:
  "bbox_ok b \<Longrightarrow> \<forall>x \<in> set r. on_earth x \<Longrightarrow> bbox_ok (foldl bbox_extend b r)"
  by (induction r arbitrary: b) (auto simp: on_earth_def f_le_def)

lemma box_of_ok:
  assumes "\<forall>r \<in> set (pc_Rings p). \<forall>x \<in> set r. on_earth x"
  shows "bbox_ok (box_of p)"
proof -
  have "bbox_ok (foldl (\<lambda>b r. foldl bbox_extend b r) b rs)" if "bbox_ok b" "\<forall>r \<in> set rs. \<forall>x \<in> set r. on_earth x" for b rs
    using that by (induction rs arbitrary: b) (auto intro: bbox_ok_points)
  then show ?thesis using assms by (simp add: box_of_def ringsBBox_def)
qed

lemma valid_parcels:
  assumes "validateParcels ps = Inr ()"
  shows "distinct (map pc_ID ps)" "\<forall>p \<in> set ps. bbox_ok (box_of p)"
  using assms valid_parcels_spec [of ps "[]"] box_of_ok by (auto simp: validateParcels_def rbind_Inr_iff)

section \<open>What is loaded\<close>

lemma nth_corners:
  "i < length bs \<Longrightarrow> concat (map corners bs) ! (4 * i) = b_MinX (bs ! i) \<and> concat (map corners bs) ! (4 * i + 1) = b_MinY (bs ! i) \<and>
     concat (map corners bs) ! (4 * i + 2) = b_MaxX (bs ! i) \<and> concat (map corners bs) ! (4 * i + 3) = b_MaxY (bs ! i)"
proof (induction bs arbitrary: i)
  case (Cons b bs)
  then show ?case by (cases i) (auto simp: corners_def numeral_3_eq_3)
qed simp

lemma length_corners: "length (concat (map corners bs)) = 4 * length bs"
  by (induction bs) (simp_all add: corners_def)

definition set_of :: "parcel list \<Rightarrow> parcel_set" where
  "set_of ps =
     \<lparr>ps_ids = map pc_ID ps, ps_boxes = map box_of ps, ps_ringOff = sums (map (length \<circ> pc_Rings) ps),
      ps_coordOff = sums (map length (concat (map pc_Rings ps))), ps_coords = concat (map flat (concat (map pc_Rings ps))),
      ps_byID = foldl (\<lambda>m i. m(map pc_ID ps ! i \<mapsto> i)) Map.empty [0..<length ps],
      ps_tree = newRTree (map box_of ps)\<rparr>"

lemma load_laid_out: "loadVectors (int (length ps)) (laid_out ps) = Inr (set_of ps)"
proof -
  let ?rs = "concat (map pc_Rings ps)"
  have "sum_list (map (length \<circ> pc_Rings) ps) = length ?rs" by (simp add: length_concat)
  then have ring: "offsetsOK (sums (map (length \<circ> pc_Rings) ps)) (int (length ?rs))" by (metis offsetsOK_sums)
  have "length (concat (map flat ?rs)) div 2 = sum_list (map length ?rs)" unfolding length_flats by simp
  then have coord: "offsetsOK (sums (map length ?rs)) (int (length (concat (map flat ?rs)) div 2))" by (metis offsetsOK_sums)
  let ?b = "concat (map corners (map box_of ps))"
  have boxes: "map (\<lambda>i. \<lparr>b_MinX = ?b ! (4 * i), b_MinY = ?b ! (4 * i + 1), b_MaxX = ?b ! (4 * i + 2), b_MaxY = ?b ! (4 * i + 3)\<rparr>)
      [0..<length ps] = map box_of ps"
    by (rule nth_equalityI) (simp_all add: nth_corners [of _ "map box_of ps", simplified])
  have "length ?b = 4 * length ps" using length_corners [of "map box_of ps"] by simp
  with ring coord boxes show ?thesis
    by (simp add: loadVectors_def laid_out_vectors vectors_of_def Let_def set_of_def)
qed

lemma byID_set_of:
  assumes "distinct (map pc_ID ps)"
  shows "ps_byID (set_of ps) i = Some k \<longleftrightarrow> k < length ps \<and> pc_ID (ps ! k) = i"
proof -
  have "foldl (\<lambda>m i. m(map pc_ID ps ! i \<mapsto> i)) Map.empty [0..<n] i = Some k \<longleftrightarrow> k < n \<and> pc_ID (ps ! k) = i"
    if "n \<le> length ps" for n
    using that
  proof (induction n)
    case (Suc n)
    then show ?case using assms by (auto simp: less_Suc_eq distinct_conv_nth)
  qed simp
  then show ?thesis by (simp add: set_of_def)
qed

lemma ring_at_set_of:
  assumes "j < length (concat (map pc_Rings ps))"
  shows "ring_at (set_of ps) (int j) = Inr (concat (map pc_Rings ps) ! j)"
proof -
  let ?rs = "concat (map pc_Rings ps)"
  let ?a = "sum_list (map length (take j ?rs))" and ?r = "?rs ! j"
  have j: "take (Suc j) ?rs = take j ?rs @ [?r]" using assms by (rule take_Suc_conv_app_nth)
  have len: "length ?r + ?a \<le> sum_list (map length ?rs)"
    using sum_list_take_mono [of "Suc j" "length ?rs" "map length ?rs"] j assms by (simp add: take_map)
  have "take (length (map flat ?rs ! j)) (drop (sum_list (map length (take j (map flat ?rs)))) (concat (map flat ?rs))) = flat ?r"
    using concat_piece [of j "map flat ?rs"] assms by simp
  moreover have "sum_list (map length (take j (map flat ?rs))) = 2 * ?a"
    by (simp add: take_map sum_list_const_mult o_def)
  ultimately have slice: "take (2 * length ?r) (drop (2 * ?a) (concat (map flat ?rs))) = flat ?r"
    using assms by simp
  have "map (\<lambda>k. \<lparr>p_X = flat ?r ! (2 * k), p_Y = flat ?r ! (2 * k + 1)\<rparr>) [0..<length ?r] = ?r"
    by (rule nth_equalityI) (simp_all add: nth_flat [of _ ?r, simplified])
  then show ?thesis
    using assms j len slice by (simp add: ring_at_def set_of_def int_index_def int_slice_def nth_sums nat_add_distrib take_map
        length_flats nat_mult_distrib del: map_concat)
qed

section \<open>What is found\<close>

lemma set_rings_set_of:
  assumes "i < length ps"
  shows "set_rings (set_of ps) (int i) = Inr (pc_Rings (ps ! i))"
proof -
  let ?rs = "concat (map pc_Rings ps)" and ?ns = "map (length \<circ> pc_Rings) ps"
  let ?a = "sum_list (take i ?ns)" and ?n = "length (pc_Rings (ps ! i))"
  have i: "take (Suc i) ?ns = take i ?ns @ [?n]" using assms by (simp add: take_Suc_conv_app_nth)
  have len: "?a + ?n \<le> length ?rs"
    using sum_list_take_mono [of "Suc i" "length ps" ?ns] i assms by (simp add: length_concat o_def)
  have "take ?n (drop ?a ?rs) = pc_Rings (ps ! i)"
    using concat_piece [of i "map pc_Rings ps"] assms by (simp add: take_map o_def)
  moreover have "map (\<lambda>j. ?rs ! nat j) [int ?a..int (?a + ?n) - 1] = take ?n (drop ?a ?rs)"
    using len by (intro nth_equalityI) (simp_all add: nat_add_distrib)
  moreover have "rmap (ring_at (set_of ps)) [int ?a..int (?a + ?n) - 1] =
      Inr (map (\<lambda>j. ?rs ! nat j) [int ?a..int (?a + ?n) - 1])"
  proof (rule rmap_map)
    fix j
    assume "j \<in> set [int ?a..int (?a + ?n) - 1]"
    then have "nat j < length ?rs" "j = int (nat j)" using len by auto
    then show "ring_at (set_of ps) j = Inr (?rs ! nat j)" using ring_at_set_of [of "nat j" ps] by simp
  qed
  moreover have "ps_ringOff (set_of ps) = sums ?ns" by (simp add: set_of_def)
  ultimately show ?thesis
    using assms i by (simp add: set_rings_def int_index_def nth_sums nat_add_distrib)
qed

lemma GetParcel_set_of:
  assumes "distinct (map pc_ID ps)"
  shows "GetParcel (Some (set_of ps)) i = Inr (find (\<lambda>p. pc_ID p = i) ps)"
proof (cases "ps_byID (set_of ps) i")
  case None
  then have "\<not> (\<exists>k < length ps. pc_ID (ps ! k) = i)" using byID_set_of [OF assms, of i] by auto
  then have "find (\<lambda>p. pc_ID p = i) ps = None" by (auto simp: find_None_iff in_set_conv_nth)
  with None show ?thesis by (simp add: GetParcel_def)
next
  case (Some k)
  then have k: "k < length ps" "pc_ID (ps ! k) = i" using byID_set_of [OF assms, of i] by auto
  then have "find (\<lambda>p. pc_ID p = i) ps = Some (ps ! k)"
    using assms by (auto simp: find_Some_iff distinct_conv_nth)
  moreover have "set_len (Some (set_of ps)) \<noteq> 0" using k by (auto simp: set_len_def set_of_def)
  ultimately show ?thesis using Some k set_rings_set_of [OF k(1)] by (simp add: GetParcel_def)
qed

lemma search_set_of:
  assumes "\<forall>p \<in> set ps. bbox_ok (box_of p)"
  shows "rtree_search (ps_tree (set_of ps)) b = Inr (filter (\<lambda>i. bbox_Intersects (box_of (ps ! i)) b) [0..<length ps])"
proof -
  have "filter (\<lambda>i. bbox_Intersects (map box_of ps ! i) b) [0..<length ps] =
      filter (\<lambda>i. bbox_Intersects (box_of (ps ! i)) b) [0..<length ps]"
    by (rule filter_cong) simp_all
  then show ?thesis using search_is_scan [of "map box_of ps" b] assms by (simp add: set_of_def)
qed

lemma map_filter_nth: "map (\<lambda>i. f (xs ! i)) (filter (\<lambda>i. P (xs ! i)) [0..<length xs]) = map f (filter P xs)"
proof -
  have "filter P xs = filter P (map (\<lambda>i. xs ! i) [0..<length xs])" by (simp add: map_nth)
  then show ?thesis by (simp add: filter_map o_def)
qed

lemma ParcelsIn_set_of:
  assumes "\<forall>p \<in> set ps. bbox_ok (box_of p)"
  shows "ParcelsIn (Some (set_of ps)) b = Inr (map pc_ID (filter (\<lambda>p. bbox_Intersects (box_of p) b) ps))"
proof -
  let ?found = "filter (\<lambda>i. bbox_Intersects (box_of (ps ! i)) b) [0..<length ps]"
  have "rmap (at_index (map pc_ID ps)) ?found = Inr (map (\<lambda>i. pc_ID (ps ! i)) ?found)"
    by (rule rmap_map) (simp add: at_index_def)
  then show ?thesis
    using map_filter_nth [of pc_ID ps "\<lambda>p. bbox_Intersects (box_of p) b"] search_set_of [OF assms]
    by (auto simp: ParcelsIn_def set_len_def set_of_def)
qed

lemma ParcelAt_set_of:
  assumes "\<forall>p \<in> set ps. bbox_ok (box_of p)"
  shows "ParcelAt (Some (set_of ps)) x =
    Inr (map pc_ID (filter (\<lambda>p. bbox_Contains (box_of p) x \<and> inside (pc_Rings p) x) ps))"
proof -
  let ?b = "\<lparr>b_MinX = p_X x, b_MinY = p_Y x, b_MaxX = p_X x, b_MaxY = p_Y x\<rparr>"
  let ?found = "filter (\<lambda>i. bbox_Intersects (box_of (ps ! i)) ?b) [0..<length ps]"
  let ?ids = "\<lambda>i. if inside (pc_Rings (ps ! i)) x then [pc_ID (ps ! i)] else []"
  have "rmap (\<lambda>i. rbind (set_rings (set_of ps) (int i)) (\<lambda>rings.
      if inside rings x then rbind (at_index (ps_ids (set_of ps)) i) (\<lambda>i. Inr [i]) else Inr [])) ?found = Inr (map ?ids ?found)"
    by (rule rmap_map) (simp add: set_rings_set_of at_index_def, simp add: set_of_def)
  moreover have "concat (map (\<lambda>i. if P i then [f i] else []) xs) = map f (filter P xs)" for P and f :: "nat \<Rightarrow> int" and xs
    by (induction xs) auto
  moreover have "filter (\<lambda>i. inside (pc_Rings (ps ! i)) x) ?found =
      filter (\<lambda>i. bbox_Contains (box_of (ps ! i)) x \<and> inside (pc_Rings (ps ! i)) x) [0..<length ps]"
    by (simp add: bbox_Intersects_def bbox_Contains_def conj_commute conj_left_commute cong: filter_cong)
  ultimately show ?thesis
    using search_set_of [OF assms, of ?b] map_filter_nth [of pc_ID ps "\<lambda>p. bbox_Contains (box_of p) x \<and> inside (pc_Rings p) x"]
    by (auto simp: ParcelAt_def set_len_def) (auto simp: set_of_def)
qed

section \<open>The order of the parcels\<close>

lemma parcel_order_perm: "mset (map (\<lambda>i. ps ! i) (parcel_order other ps)) = mset ps"
proof -
  have "mset (parcel_order other ps) = mset [0..<length ps]" by (simp add: parcel_order_def Let_def)
  then have "mset (map (\<lambda>i. ps ! i) (parcel_order other ps)) = mset (map (\<lambda>i. ps ! i) [0..<length ps])"
    by (metis mset_map)
  then show ?thesis by (simp add: map_nth)
qed

lemma putVectors_valid:
  assumes "validateParcels ps = Inr ()"
  obtains qs where "putVectors other ps = Inr (laid_out qs)" "mset qs = mset ps" "length qs = length ps" "set qs = set ps"
proof (rule that)
  let ?qs = "map (\<lambda>i. ps ! i) (parcel_order other ps)"
  show "putVectors other ps = Inr (laid_out ?qs)" using assms by (simp add: putVectors_def)
  show m: "mset ?qs = mset ps" by (rule parcel_order_perm)
  show "length ?qs = length ps" using m by (rule mset_eq_length)
  show "set ?qs = set ps" using m by (rule mset_eq_setD)
qed

section \<open>Vectors that are loaded, whatever they hold\<close>

lemma stacked_nonempty: "stacked ls \<Longrightarrow> ls ! 0 \<noteq> [] \<Longrightarrow> l < length ls \<Longrightarrow> ls ! l \<noteq> []"
proof (induction l)
  case (Suc l)
  then show ?case using stacked_nth [of ls l] length_pack [of "ls ! l"] by (cases "ls ! l") auto
qed simp

lemma walk_total:
  assumes "stacked (r_levels t)" "l < length (r_levels t)" "node < length (r_levels t ! l)"
  shows "\<exists>found. rtree_walk t q l node = Inr found \<and> set found \<subseteq> {..<length (r_levels t ! 0)}"
  using assms(2,3)
proof (induction l arbitrary: node)
  case 0
  then show ?case by (auto simp: at_index_def)
next
  case (Suc l)
  let ?below = "[node * nodeSize..<min ((node + 1) * nodeSize) (length (r_levels t ! l))]"
  have IH: "\<exists>found. rtree_walk t q l c = Inr found \<and> set found \<subseteq> {..<length (r_levels t ! 0)}" if "c \<in> set ?below" for c
    using Suc that by simp
  then obtain found where f: "rmap (rtree_walk t q l) ?below = Inr found"
    using rmap_total [of ?below "rtree_walk t q l"] by blast
  have "set xs \<subseteq> {..<length (r_levels t ! 0)}" if xs: "xs \<in> set found" for xs
  proof -
    from f have "list_all2 (\<lambda>c y. rtree_walk t q l c = Inr y) ?below found" by (simp only: rmap_Inr_iff)
    with xs obtain c where "c \<in> set ?below" "rtree_walk t q l c = Inr xs"
      by (auto simp: list_all2_conv_all_nth in_set_conv_nth simp del: length_upt nth_upt set_upt) (metis nth_mem)
    with IH show ?thesis by fastforce
  qed
  with Suc.prems f show ?case by (auto simp: at_index_def)
qed

lemma search_total: "\<exists>found. rtree_search (newRTree boxes) q = Inr found \<and> set found \<subseteq> {..<length boxes}"
proof (cases "boxes = []")
  case False
  let ?t = "newRTree boxes" let ?l = "length (r_levels ?t) - 1"
  have t: "stacked (r_levels ?t)" "r_levels ?t ! 0 = boxes" by (simp_all add: newRTree_def levels_stacked)
  have l: "?l < length (r_levels ?t)" by (simp add: newRTree_def)
  then have "0 < length (r_levels ?t ! ?l)" using stacked_nonempty [OF t(1)] t(2) False by simp
  from walk_total [OF t(1) l this, of q] show ?thesis
    using l t(2) False by (auto simp: rtree_search_def at_index_def)
qed (simp add: newRTree_def rtree_search_def at_index_def)

definition set_ok :: "parcel_set \<Rightarrow> bool" where
  "set_ok s \<longleftrightarrow>
     length (ps_ringOff s) = Suc (length (ps_ids s)) \<and>
     offsetsOK (ps_ringOff s) (int (length (ps_coordOff s)) - 1) \<and>
     offsetsOK (ps_coordOff s) (int (length (ps_coords s) div 2)) \<and>
     (\<forall>i k. ps_byID s i = Some k \<longrightarrow> k < length (ps_ids s)) \<and>
     (\<exists>boxes. ps_tree s = newRTree boxes \<and> length boxes = length (ps_ids s))"

lemma loaded_ok:
  assumes "loadVectors n v = Inr s"
  shows "set_ok s"
proof -
  have "foldl (\<lambda>m i. m(f i \<mapsto> i)) Map.empty [0..<n] i = Some k \<Longrightarrow> k < n" for f :: "nat \<Rightarrow> int" and n i k
    by (induction n) (auto split: if_splits)
  then show ?thesis
    using assms by (auto simp: loadVectors_def set_ok_def Let_def split: if_splits)
qed

lemma offsets_between:
  assumes "offsetsOK off e" "i < length off"
  shows "0 \<le> off ! i \<and> off ! i \<le> e"
proof -
  have o: "sorted off" "off ! 0 = 0" "off ! (length off - 1) = e" "off \<noteq> []"
    using assms(1) by (auto simp: offsetsOK_def hd_conv_nth last_conv_nth)
  have "off ! 0 \<le> off ! i" "off ! i \<le> off ! (length off - 1)"
    using sorted_nth_mono [OF o(1)] assms(2) by auto
  then show ?thesis using o by simp
qed

lemma ring_at_total:
  assumes "set_ok s" "0 \<le> j" "j + 1 < int (length (ps_coordOff s))"
  shows "\<exists>r. ring_at s j = Inr r"
proof -
  let ?off = "ps_coordOff s"
  have o: "offsetsOK ?off (int (length (ps_coords s) div 2))" using assms(1) by (simp add: set_ok_def)
  have "0 \<le> ?off ! nat j" "?off ! nat j \<le> ?off ! nat (j + 1)" "?off ! nat (j + 1) \<le> int (length (ps_coords s) div 2)"
    using offsets_between [OF o] o assms(2,3) by (auto simp: offsetsOK_def sorted_iff_nth_mono)
  then show ?thesis using assms(2,3) by (simp add: ring_at_def int_index_def int_slice_def)
qed

lemma set_rings_total:
  assumes "set_ok s" "i < length (ps_ids s)"
  shows "\<exists>rings. set_rings s (int i) = Inr rings"
proof -
  let ?off = "ps_ringOff s"
  have o: "offsetsOK ?off (int (length (ps_coordOff s)) - 1)" "length ?off = Suc (length (ps_ids s))"
    using assms(1) by (simp_all add: set_ok_def)
  have b: "0 \<le> ?off ! i" "?off ! i \<le> ?off ! Suc i" "?off ! Suc i \<le> int (length (ps_coordOff s)) - 1"
    using offsets_between [OF o(1)] o assms(2) by (auto simp: offsetsOK_def sorted_iff_nth_mono)
  then have "\<exists>rings. rmap (ring_at s) [?off ! i..?off ! Suc i - 1] = Inr rings"
    by (intro rmap_total ring_at_total [OF assms(1)]) auto
  then show ?thesis using b o assms(2) by (auto simp: set_rings_def int_index_def nat_add_distrib)
qed

end
