(* ===== verification/Parcel_Theorems.thy ===== *)
theory Parcel_Theorems
  imports Parcel_Laws
begin

text \<open>
  The properties of the parcels and of the curve that orders them.
\<close>

section \<open>Two parcels\<close>

definition triangle_at :: "f64 \<Rightarrow> f64 \<Rightarrow> point list" where
  "triangle_at a b = [\<lparr>p_X = a, p_Y = a\<rparr>, \<lparr>p_X = b, p_Y = a\<rparr>, \<lparr>p_X = a, p_Y = b\<rparr>]"

text \<open>From 10 to 12, and from 0 to 2 with a hole in it.\<close>

definition two_parcels :: "parcel list" where
  "two_parcels =
     [\<lparr>pc_ID = 9, pc_Rings = [triangle_at 0x4024000000000000 0x4028000000000000]\<rparr>,
      \<lparr>pc_ID = 7, pc_Rings = [triangle_at 0 0x4000000000000000, triangle_at 0x3FE0000000000000 0x3FF0000000000000]\<rparr>]"

definition near_nine :: bbox where
  "near_nine = \<lparr>b_MinX = 0x4022000000000000, b_MinY = 0x4022000000000000, b_MaxX = 0x4024000000000000, b_MaxY = 0x4024000000000000\<rparr>"

lemmas float_order = f_min_def f_max_def f_inf_def f_le_def isNaN64_def magnitude_def f_neg_def

lemma two_parcels_valid: "validateParcels two_parcels = Inr ()"
  by code_simp

lemma two_boxes:
  "ringsBBox [triangle_at 0x4024000000000000 0x4028000000000000] =
     \<lparr>b_MinX = 0x4024000000000000, b_MinY = 0x4024000000000000, b_MaxX = 0x4028000000000000, b_MaxY = 0x4028000000000000\<rparr>"
  "ringsBBox [triangle_at 0 0x4000000000000000, triangle_at 0x3FE0000000000000 0x3FF0000000000000] =
     \<lparr>b_MinX = 0, b_MinY = 0, b_MaxX = 0x4000000000000000, b_MaxY = 0x4000000000000000\<rparr>"
  by (simp_all add: float_order bbox_extend_def emptyBBox_def ringsBBox_def triangle_at_def)

lemma two_boxes_near:
  "bbox_Intersects \<lparr>b_MinX = 0x4024000000000000, b_MinY = 0x4024000000000000, b_MaxX = 0x4028000000000000, b_MaxY = 0x4028000000000000\<rparr> near_nine"
  "\<not> bbox_Intersects \<lparr>b_MinX = 0, b_MinY = 0, b_MaxX = 0x4000000000000000, b_MaxY = 0x4000000000000000\<rparr> near_nine"
  by (simp_all add: float_order bbox_Intersects_def near_nine_def)

lemma two_parcels_near: "map pc_ID (filter (\<lambda>p. bbox_Intersects (ringsBBox (pc_Rings p)) near_nine) two_parcels) = [9]"
  by (simp add: two_parcels_def two_boxes two_boxes_near)

text \<open>One parcel of one ring, as the vectors it is laid out in.\<close>

definition one_parcel :: parcel_vectors where
  "one_parcel =
     \<lparr>v_id = [5], v_bbox = [0, 0, 1, 1], v_ring_offset = [0, 1], v_coord_offset = [0, 3], v_coords = [0, 0, 0, 1, 1, 0]\<rparr>"

lemma one_parcel_loads: "\<exists>s. loadVectors 1 one_parcel = Inr s"
  by (simp add: loadVectors_def one_parcel_def offsetsOK_def Let_def)

section \<open>The curve\<close>

text \<open>C38: \<open>hilbert\<close> is a curve through the square of 65536 by 65536 cells: each cell has a distance of its own, every
  number below 2 ^ 32 is the distance of one, and cells whose distances follow each other are beside each other.
\<close>

theorem hilbert_fills_the_square:
  "bij_betw (\<lambda>(x, y). hilbert x y) {(x, y). x < 2 ^ 16 \<and> y < 2 ^ 16} {d. d < 2 ^ 32} \<and>
   (\<forall>x y x' y'. x < 2 ^ 16 \<and> y < 2 ^ 16 \<and> x' < 2 ^ 16 \<and> y' < 2 ^ 16 \<and> hilbert x' y' = hilbert x y + 1 \<longrightarrow>
      beside (unat x, unat y) (unat x', unat y'))"
proof -
  let ?S = "{(x :: 32 word, y :: 32 word). x < 2 ^ 16 \<and> y < 2 ^ 16}"
  have small: "unat x < 2 ^ 16 \<longleftrightarrow> x < 2 ^ 16" for x :: "32 word" by (simp add: word_less_nat_alt)
  have in_square: "(unat x, unat y) \<in> square (2 ^ 16)" if "x < 2 ^ 16" "y < 2 ^ 16" for x y :: "32 word"
    using that by (simp add: square_def small del: power_numeral)
  have is_curve: "unat (hilbert x y) = curve 16 (unat x, unat y)" if "x < 2 ^ 16" "y < 2 ^ 16" for x y
    using that by (intro hilbert_is_curve) (simp_all only: small)
  have bounded: "unat (hilbert x y) < 4 ^ 16" if "x < 2 ^ 16" "y < 2 ^ 16" for x y
    unfolding is_curve [OF that] using in_square [OF that] by (rule curve_lt)
  have "inj_on (\<lambda>(x, y). hilbert x y) ?S"
    using curve_inj [OF in_square in_square] is_curve by (auto simp: inj_on_def) (metis prod.inject unsigned_word_eqI)+
  moreover have "(\<lambda>(x, y). hilbert x y) ` ?S = {d. d < 2 ^ 32}"
  proof
    show "(\<lambda>(x, y). hilbert x y) ` ?S \<subseteq> {d. d < 2 ^ 32}"
      using bounded by (auto simp: word_less_nat_alt)
    show "{d. d < 2 ^ 32} \<subseteq> (\<lambda>(x, y). hilbert x y) ` ?S"
    proof
      fix d :: "64 word"
      assume "d \<in> {d. d < 2 ^ 32}"
      then have "unat d \<in> {..<4 ^ 16}" by (simp add: word_less_nat_alt)
      then have "unat d \<in> curve 16 ` square (2 ^ 16)" using curve_bij [of 16] by (simp only: bij_betw_def)
      then obtain m n where p: "(m, n) \<in> square (2 ^ 16)" "curve 16 (m, n) = unat d" by (metis imageE surj_pair)
      let ?x = "of_nat m :: 32 word" and ?y = "of_nat n :: 32 word"
      have u: "unat ?x = m" "unat ?y = n" using p(1) by (simp_all add: square_def unsigned_of_nat take_bit_nat_eq_self)
      have lt: "?x < 2 ^ 16" "?y < 2 ^ 16" using p(1) u by (simp_all add: square_def word_less_nat_alt)
      then have "hilbert ?x ?y = d" using is_curve [OF lt] p(2) u by (simp add: unsigned_word_eqI)
      with lt show "d \<in> (\<lambda>(x, y). hilbert x y) ` ?S" by (auto simp: image_iff)
    qed
  qed
  moreover have "beside (unat x, unat y) (unat x', unat y')"
    if h: "x < 2 ^ 16 \<and> y < 2 ^ 16 \<and> x' < 2 ^ 16 \<and> y' < 2 ^ 16 \<and> hilbert x' y' = hilbert x y + 1" for x y x' y'
  proof -
    have "unat (hilbert x' y') = Suc (unat (hilbert x y))"
      using h bounded [of x y] by (simp add: unat_plus_if_size word_size)
    moreover have "unat (hilbert x' y') = curve 16 (unat x', unat y')" "unat (hilbert x y) = curve 16 (unat x, unat y)"
      using h is_curve by blast+
    ultimately show ?thesis using h curve_steps [OF in_square in_square, of x y x' y'] by metis
  qed
  ultimately show ?thesis by (auto simp: bij_betw_def)
qed

theorem hilbert_fills_the_square_witness:
  "hilbert 1 0 = hilbert 0 0 + 1 \<and> beside (unat (0 :: 32 word), unat (0 :: 32 word)) (unat (1 :: 32 word), unat (0 :: 32 word))"
proof -
  have "hilbert 1 0 = hilbert 0 0 + 1" by code_simp
  moreover have "(0 :: 32 word) < 2 ^ 16" "(1 :: 32 word) < 2 ^ 16" by simp_all
  ultimately show ?thesis using hilbert_fills_the_square [THEN conjunct2, rule_format, of 0 0 1 0] by blast
qed

section \<open>Parcels\<close>

text \<open>C39: for parcels that are valid, \<open>ParcelsIn\<close> gives the IDs of just those whose boxes meet the box that is asked for, and
  \<open>ParcelAt\<close> of just those whose box holds the point and that it is inside of, each once, as a scan of the parcels
  would: whatever order the curve has put them in, however they are grouped in the tree, and with the vectors they are
  laid out in between.
\<close>

theorem parcels_found_as_by_a_scan:
  assumes "validateParcels ps = Inr ()"
  shows "\<exists>v s. putVectors other ps = Inr v \<and> loadVectors (int (length ps)) v = Inr s \<and>
    (\<forall>b. \<exists>ids. ParcelsIn (Some s) b = Inr ids \<and>
       mset ids = mset (map pc_ID (filter (\<lambda>p. bbox_Intersects (ringsBBox (pc_Rings p)) b) ps))) \<and>
    (\<forall>x. \<exists>ids. ParcelAt (Some s) x = Inr ids \<and>
       mset ids = mset (map pc_ID (filter (\<lambda>p. bbox_Contains (ringsBBox (pc_Rings p)) x \<and> inside (pc_Rings p) x) ps)))"
proof -
  obtain qs where q: "putVectors other ps = Inr (laid_out qs)" "mset qs = mset ps" and len: "length qs = length ps" "set qs = set ps"
    using putVectors_valid [OF assms] by blast
  then have ok: "\<forall>p \<in> set qs. bbox_ok (box_of p)" using valid_parcels [OF assms] by simp
  have perm: "mset (map pc_ID (filter P qs)) = mset (map pc_ID (filter P ps))" for P using q(2) by simp
  show ?thesis
    using q(1) load_laid_out [of qs] ParcelsIn_set_of [OF ok] ParcelAt_set_of [OF ok] perm len(1)
    by (auto simp flip: box_of_def)
qed

theorem parcels_found_as_by_a_scan_witness:
  "\<exists>v s. putVectors (\<lambda>_. 0) two_parcels = Inr v \<and> loadVectors (int (length two_parcels)) v = Inr s \<and>
    (\<exists>ids. ParcelsIn (Some s) near_nine = Inr ids \<and> mset ids = {#9#})"
proof -
  obtain v s where "putVectors (\<lambda>_. 0) two_parcels = Inr v" "loadVectors (int (length two_parcels)) v = Inr s"
    "\<exists>ids. ParcelsIn (Some s) near_nine = Inr ids \<and>
       mset ids = mset (map pc_ID (filter (\<lambda>p. bbox_Intersects (ringsBBox (pc_Rings p)) near_nine) two_parcels))"
    using parcels_found_as_by_a_scan [OF two_parcels_valid] by blast
  then show ?thesis unfolding two_parcels_near by auto
qed

text \<open>C40: each of some valid parcels is got back by its ID with all its rings, point for point, and no other ID is found.
\<close>

theorem parcel_is_got_back:
  assumes "validateParcels ps = Inr ()"
  shows "\<exists>v s. putVectors other ps = Inr v \<and> loadVectors (int (length ps)) v = Inr s \<and>
    (\<forall>p \<in> set ps. GetParcel (Some s) (pc_ID p) = Inr (Some p)) \<and>
    (\<forall>i. i \<notin> pc_ID ` set ps \<longrightarrow> GetParcel (Some s) i = Inr None)"
proof -
  obtain qs where q: "putVectors other ps = Inr (laid_out qs)" "mset qs = mset ps" and len: "length qs = length ps" "set qs = set ps"
    using putVectors_valid [OF assms] by blast
  have d: "distinct (map pc_ID qs)"
    using valid_parcels(1) [OF assms] q(2) by (metis mset_map mset_eq_imp_distinct_iff)
  have "find (\<lambda>q. pc_ID q = pc_ID p) qs = Some p" if "p \<in> set qs" for p
    using d that by (auto simp: find_Some_iff distinct_conv_nth in_set_conv_nth)
  moreover have "find (\<lambda>q. pc_ID q = i) qs = None" if "i \<notin> pc_ID ` set qs" for i
    using that by (auto simp: find_None_iff)
  ultimately show ?thesis using q(1) load_laid_out [of qs] GetParcel_set_of [OF d] len by auto
qed

theorem parcel_is_got_back_witness:
  "\<exists>v s. putVectors (\<lambda>_. 0) two_parcels = Inr v \<and> loadVectors (int (length two_parcels)) v = Inr s \<and>
    GetParcel (Some s) 9 = Inr (Some (hd two_parcels)) \<and> GetParcel (Some s) 8 = Inr None"
proof -
  have "hd two_parcels \<in> set two_parcels" "pc_ID (hd two_parcels) = 9" "8 \<notin> pc_ID ` set two_parcels"
    by (simp_all add: two_parcels_def)
  then show ?thesis using parcel_is_got_back [OF two_parcels_valid, of "\<lambda>_. 0"] by metis
qed

text \<open>
  Whatever the vectors in a store hold, if \<open>loadParcels\<close> takes them nothing that is asked of the parcels panics.
\<close>

theorem loaded_parcels_never_panic:
  assumes "loadVectors n v = Inr s"
  shows "(\<exists>ids. ParcelsIn (Some s) b = Inr ids) \<and> (\<exists>ids. ParcelAt (Some s) x = Inr ids) \<and> (\<exists>p. GetParcel (Some s) i = Inr p)"
proof -
  note ok = loaded_ok [OF assms]
  have search: "\<exists>found. rtree_search (ps_tree s) q = Inr found \<and> set found \<subseteq> {..<length (ps_ids s)}" for q
    using ok search_total by (metis set_ok_def)
  have ids: "\<exists>i. at_index (ps_ids s) k = Inr i" if "k < length (ps_ids s)" for k using that by (simp add: at_index_def)
  obtain found where f: "rtree_search (ps_tree s) b = Inr found" "set found \<subseteq> {..<length (ps_ids s)}" using search by blast
  have "\<exists>ids. rmap (at_index (ps_ids s)) found = Inr ids" by (rule rmap_total) (use ids f(2) in auto)
  then have "\<exists>ids. ParcelsIn (Some s) b = Inr ids" using f(1) by (auto simp: ParcelsIn_def)
  moreover
  let ?at = "\<lambda>k. rbind (set_rings s (int k)) (\<lambda>rings.
      if inside rings x then rbind (at_index (ps_ids s) k) (\<lambda>i. Inr [i]) else Inr [])"
  obtain here where h: "rtree_search (ps_tree s) \<lparr>b_MinX = p_X x, b_MinY = p_Y x, b_MaxX = p_X x, b_MaxY = p_Y x\<rparr> = Inr here"
    "set here \<subseteq> {..<length (ps_ids s)}" using search by blast
  have "\<exists>y. ?at k = Inr y" if "k < length (ps_ids s)" for k
    using set_rings_total [OF ok that] ids [OF that] by auto
  then have "\<exists>ids. rmap ?at here = Inr ids" using h(2) by (intro rmap_total) auto
  then have "\<exists>ids. ParcelAt (Some s) x = Inr ids" using h(1) by (auto simp: ParcelAt_def)
  moreover have "\<exists>p. GetParcel (Some s) i = Inr p"
    using set_rings_total [OF ok] ok by (fastforce simp: GetParcel_def set_ok_def split: option.split)
  ultimately show ?thesis by blast
qed

theorem loaded_parcels_never_panic_witness:
  "\<exists>s. loadVectors 1 one_parcel = Inr s \<and> (\<exists>ids. ParcelsIn (Some s) near_nine = Inr ids) \<and> (\<exists>p. GetParcel (Some s) 5 = Inr p)"
  using one_parcel_loads loaded_parcels_never_panic by blast

end
