(* ===== verification/Spec2Isabelle.thy ===== *)
theory Spec2Isabelle
  imports Codec_Theorems Array_Theorems Lock_Theorems Change_Theorems Text_Theorems Config_Theorems Node_Theorems Open_Theorems
    Http_Theorems Dir_Theorems Cache_Theorems Parcel_Theorems
begin

text \<open>
  A verification development of \<open>zarr\<close>, a Go package for Zarr version 3 (\<open>src/*.go\<close>): N-dimensional arrays
  cut into chunks, each encoded and kept under a key of a store, beside a document that says what the array is.

  \<^bold>\<open>The program and its model.\<close> A function of the source is a definition of the same name, or of its receiver's and its
  own where two would clash (\<open>mem_get\<close> is \<open>MemoryStore.Get\<close>). A struct is a record, a tagged choice a datatype. An
  error is a value of \<open>error\<close>, which keeps what \<open>errors.Is\<close> can see of it; \<open>Panic\<close> is one too, so that a theorem on
  errors says where the code panics. A function that talks to a store is of type \<open>('s, 'a) io\<close>: a state, which is
  the store, to a result or an error and the state after. An \<open>int\<close> of Go is an \<open>int\<close> with \<open>wrap64\<close> written out
  wherever the source can wrap around; elements and index entries are words of their width, floats their bits.
  Goroutines are given an order: the loops of \<open>eachSpan\<close> take a schedule as an argument, and what is proved holds of
  every schedule.

  \<^bold>\<open>Elements, shapes and limits.\<close> \<open>DTypes\<close> has the data types and elements of \<open>dtype.go\<close>; \<open>Grid\<close>, \<open>Blocks\<close> and \<open>Tiles\<close> the
  index arithmetic of \<open>array.go\<close> (\<open>eachIndex\<close>, \<open>eachRun\<close>, \<open>copyBlock\<close>, \<open>fillBlock\<close>), of \<open>concurrent.go\<close> (\<open>span\<close>) and of
  the grid of chunks; \<open>Limits\<close> the overflow tests of \<open>limit.go\<close>. Shown: the loops over indices end and visit each index
  once, in C order; a block is copied exactly and within bounds; sizes are exact or refused.

  \<^bold>\<open>Codecs.\<close> \<open>Codecs\<close> has the codecs of \<open>codec.go\<close> and \<open>shuffle.go\<close>, \<open>Shards\<close> and \<open>ShardParts\<close> the sharding codec of
  \<open>shard.go\<close>, \<open>Fortran\<close> the order of version 2 (\<open>v2.go\<close>), and \<open>Pipelines\<close> the interfaces, the pipelines made of them,
  the bound of an encoded chunk, and sharding codecs nested to any depth. The interfaces are locales; each is
  interpreted on the codecs of the source. Shown: everything encoded is decoded again, within its bound; the check
  of an index lets through just the indices whose chunks are apart and in bounds. The compressor of gzip and zlib is
  a parameter (\<open>env\<close>), of which it is assumed that it gives back what it compressed and grows it no more than the
  documented bound; a codec that a caller registered is one too.

  \<^bold>\<open>Stores.\<close> \<open>Keys\<close> has the keys of chunks and nodes and the rules of \<open>checkKey\<close>; \<open>Stores\<close> the interface as a record of
  operations, \<open>MemoryStore\<close>, and \<open>ListDir\<close>. The locale \<open>store_reads\<close> is what the package relies on when it reads from
  any store, and \<open>store_laws\<close> adds what it relies on when it writes; the memory store is an interpretation of both, and
  the HTTP store (\<open>Http\<close>, \<open>Http_Laws\<close>; \<open>http.go\<close>), over any server that says what is so, of the first. Shown of the HTTP
  store: a URL names one key; a value or a range of one is given whole or not at all, however the server answers a
  range - in part, in full, or with status 416 - and never of another length than was asked for.

  \<^bold>\<open>The store of files.\<close> \<open>Dirs\<close> has \<open>DirStore\<close> over a model of a file system: a tree of files and directories, system calls
  that work or break part of the way, and every tree another process could have seen. \<open>Dir_Laws\<close> is what each call keeps
  of a tree, \<open>Dir_Ops\<close> what the operations are on the map from keys to files, \<open>Dir_Lists\<close> the walk, and
  \<open>Dir_Theorems\<close> the properties: \<open>Set\<close> is atomic, whatever breaks; \<open>Get\<close>, \<open>GetRange\<close>, \<open>Delete\<close> and \<open>List\<close> are exact. It is no
  interpretation of \<open>store_laws\<close>: a key whose path is a directory, or leads through a file, is not \<open>ErrNotFound\<close>, and the
  file of a \<open>Set\<close> that broke may be left, at a key that is not listed.

  \<^bold>\<open>Arrays.\<close> \<open>Arrays\<close> has the array of \<open>array.go\<close> and all that reads and writes its stored objects, with \<open>concurrent.go\<close>;
  \<open>Wp\<close> is a small calculus of the outcomes of a function on a store. \<open>Regions\<close>, \<open>Objects\<close>, \<open>Reads\<close>, \<open>ReadRegion\<close>,
  \<open>ReadArray\<close> and \<open>ReadApi\<close> lead to the theorems on \<open>Read\<close> and \<open>ReadChunk\<close>, in the locale \<open>store_reads\<close>; \<open>Writes\<close>, \<open>Patches\<close>,
  \<open>WriteArray\<close> and \<open>WriteApi\<close> to those on \<open>Write\<close> and \<open>WriteChunk\<close>. The specification is a function from indices to
  elements (\<open>content\<close>): a read gives it on the region, whole or by ranges of a shard; a write updates it there and
  nowhere else, or leaves every stored object old or new. \<open>arr_ok\<close> is what holds of an array the package makes:
  its codecs decode what they encode, its shapes fit, and no sum of a shape and a grid overflows (\<open>fits_ints\<close>).

  \<^bold>\<open>Locks.\<close> \<open>Locks\<close> and \<open>Lock_Theorems\<close> have the locks on keys (\<open>keyLocks\<close> of \<open>concurrent.go\<close>) as a step relation over any number
  of goroutines that take, wait for, give up and free them: no two hold a key, no update is lost, the map of locks
  keeps none that nobody uses, and from every reachable state a waiting goroutine can be let in.

  \<^bold>\<open>Documents.\<close> \<open>Metadata\<close> has the structs of \<open>metadata.go\<close>, \<open>Scan\<close> and \<open>Scan_Laws\<close> the scanner of \<open>scan.go\<close>, \<open>Json\<close> what is used of
  \<open>encoding/json\<close>, \<open>Documents\<close> and \<open>Agree\<close> the two ways of reading a document; \<open>Fills\<close>, \<open>Configs\<close> and \<open>Prints\<close> fill values, codecs
  from their configurations and the writing of documents. Shown: the scanner accepts just the JSON texts of its
  depth; reading in one pass gives what \<open>encoding/json\<close> gives; a fill value is read back from what it is written as,
  and an integer is exact or refused.

  \<^bold>\<open>Nodes.\<close> \<open>Makes\<close> is an array from its metadata, \<open>V2\<close> the nodes of version 2, \<open>Nodes\<close> the operations on arrays and groups
  (\<open>array.go\<close>, \<open>group.go\<close>, \<open>resize.go\<close>), \<open>Resizes\<close>, \<open>Appends\<close> and \<open>Deletes\<close> what changes and deletes them; \<open>Node_Laws\<close> and \<open>Open_Laws\<close>
  are their lemmas, and \<open>Examples\<close>, \<open>Node_Examples\<close> and \<open>Open_Examples\<close> the arrays and documents on which the
  witnesses evaluate. Shown: an array that opens satisfies \<open>arr_ok\<close>, so that the theorems on reading and writing
  apply to it; \<open>CreateArray\<close>, \<open>Resize\<close>, \<open>Append\<close> and \<open>Delete\<close> do to the store what they say and nothing else; a node of
  version 2 is never changed.

  \<^bold>\<open>The cache.\<close> \<open>Cache\<close> has \<open>CachedStore\<close> of \<open>src/geodb/cache.go\<close>, which keeps the values read from any store: its
  list of entries with the one used last in front, the index of it, the reads under way that others wait for, and the
  limits on its size. \<open>Cache_Laws\<close> and \<open>Cache_Ops\<close> show what each step under the mutex does, that the list, the
  indices and the count of bytes agree, and that the loop which makes room ends. \<open>Cache_Store\<close> is the refinement: to one
  goroutine the store behind the cache is the store. \<open>Cache_Steps\<close> is the step relation of many goroutines that read, change and
  purge, and \<open>Cache_Runs\<close> its invariant: what is kept is what the store has, in every run in which no read takes the
  place of another that is under way. \<open>Cache_Theorems\<close> has the properties, and a run in which one does take it and a value
  that is no longer there is kept for good. The count of bytes is an \<open>int\<close> that no wrap-around reaches, and a wait
  for another's read ends with that read or with the context.

  \<^bold>\<open>Parcels.\<close> \<open>Boxes\<close> has the boxes of \<open>src/geodb/geom.go\<close> and \<open>float64\<close> by its bits, with its comparisons and its four
  operations; \<open>Trees\<close> and \<open>Curve\<close> the R-tree and the Hilbert curve of \<open>src/geodb/index.go\<close>; \<open>Parcels\<close> what \<open>src/geodb/parcels.go\<close>
  makes of parcels before it writes them, what it makes of the vectors it reads, and what it asks of these.
  \<open>Parcel_Laws\<close> shows the layout to be the parcels, and \<open>Parcel_Theorems\<close> the properties: the curve visits each cell of its
  square once, from one to the next beside it; a search of the tree is a scan; a parcel is got back with its rings.
  That the arrays in between give back what was written to them is the theorem on \<open>Write\<close> and \<open>Read\<close>.

  \<^bold>\<open>Bounds and fuel.\<close> The scanner's depth is that of the source (1000), and that of \<open>encoding/json\<close> is 10000, its own; the
  fuel of a text is its length and is shown not to run out. The fuel of a walk of files is the depth of the tree. A
  nested codec is read with fuel for the length of its text. \<open>index_limit\<close> (2 ^ 32) bounds the length of the index of a
  shard, which is what the store over HTTP may be asked for without knowing that it is there; \<open>max_alloc\<close> (2 ^ 48) is
  the longest slice \<open>make\<close> gives on a machine of 48-bit addresses.

  \<^bold>\<open>What is assumed.\<close> Parameters stand for code that is not the repository's: the compressors, the texts of floats
  (\<open>strconv\<close>), codecs that a caller registered, the client and server of HTTP, the names \<open>os.CreateTemp\<close> makes up, and
  what a machine makes of a float that no \<open>uint32\<close> holds. A nil slice and an empty one are the same list. A listing is
  all of the keys or an error, and its callback is called after it; the body of an HTTP answer fails in a read of its
  own. A system call of the file system is one step, but for \<open>MkdirAll\<close> and \<open>Write\<close>, which may stop on the way.

  \<^bold>\<open>Not modelled.\<close> The stores in \<open>s3\<close>, \<open>gcs\<close> and \<open>azblob\<close> and the codec in \<open>zstd\<close> hand their calls to client libraries
  that are not in the repository. \<open>geozarr\<close> and \<open>geodb\<close>, but for its cache and the index of parcels, are applications on
  top of the package: floating-point geometry, statistics, tiles and an HTTP service. \<open>storetest\<close> and \<open>pycompare\<close> test.
  Of the package, the texts of error messages and accessors that return a field are left out.
\<close>

end
